(* ===== verification/Znu_Prelude.thy ===== *)
theory Znu_Prelude
  imports Main "HOL-Library.Word" "HOL-Library.Monad_Syntax"
begin

text \<open>
  Shared vocabulary of the development: the machine integer types of the C sources, the
  theorem collections the component theories feed, and generic facts on words, lists and
  loops. Nothing here models a particular source file.
\<close>

unbundle bit_operations_syntax

type_synonym u8 = "8 word"
type_synonym u16 = "16 word"
type_synonym u32 = "32 word"
type_synonym u64 = "64 word"

text \<open>A C pointer is its 64-bit address; the null pointer is address 0.\<close>

type_synonym ptr = u64

abbreviation NULL :: ptr where
  "NULL \<equiv> 0"

named_theorems mem_simps \<open>reads over writes of byte memory\<close>
named_theorems bits \<open>bit-level facts on page-table entries and alignment\<close>
named_theorems frame \<open>what an operation leaves unchanged\<close>
named_theorems invs \<open>preservation of component invariants\<close>

section \<open>Distances on a wrapping address space\<close>

text \<open>
  An address \<open>x\<close> lies in the block of \<open>n\<close> bytes that starts at \<open>a\<close> when the distance
  \<open>x - a\<close>, taken modulo the word size, is below \<open>n\<close>. Stating ranges this way is right
  also for blocks that wrap around.
\<close>

definition in_block :: "u64 \<Rightarrow> nat \<Rightarrow> u64 \<Rightarrow> bool" where
  "in_block a n x \<longleftrightarrow> unat (x - a) < n"

definition disjoint_blocks :: "u64 \<Rightarrow> nat \<Rightarrow> u64 \<Rightarrow> nat \<Rightarrow> bool" where
  "disjoint_blocks a n b k \<longleftrightarrow> n \<le> unat (b - a) \<and> k \<le> unat (a - b)"

lemma disjoint_blocks_sym: "disjoint_blocks a n b k \<longleftrightarrow> disjoint_blocks b k a n"
  by (auto simp: disjoint_blocks_def)

lemma unat_bound: "unat (x :: u64) < 2 ^ 64"
  using unsigned_less [of x] by simp

lemma unat_offset [simp]: "i < 2 ^ 64 \<Longrightarrow> unat (of_nat i :: u64) = i"
  by (simp add: unat_of_nat take_bit_eq_mod)

lemma unat_add_no_wrap: "unat a + i < 2 ^ 64 \<Longrightarrow> unat (a + of_nat i :: u64) = unat a + i"
  by (simp add: unat_word_ariths)

lemma in_block_offset: "i < n \<Longrightarrow> n \<le> 2 ^ 64 \<Longrightarrow> in_block a n (a + of_nat i)"
  by (simp add: in_block_def)

lemma in_blockE:
  assumes "in_block a n x"
  obtains i where "i < n" "i < 2 ^ 64" "x = a + of_nat i"
proof
  show "unat (x - a) < n" using assms by (simp add: in_block_def)
  show "unat (x - a) < 2 ^ 64" using unat_bound [of "x - a"] by simp
  show "x = a + of_nat (unat (x - a))" by simp
qed

lemma unat_neg_diff:
  assumes "a \<noteq> (b :: u64)"
  shows "unat (a - b) + unat (b - a) = 2 ^ 64"
proof -
  have "unat a < 2 ^ 64" "unat b < 2 ^ 64"
    using unat_bound [of a] unat_bound [of b] by simp_all
  moreover have "unat a \<noteq> unat b" using assms by (simp add: word_unat_eq_iff)
  ultimately show ?thesis
    unfolding unat_sub_if' by auto
qed

text \<open>
  Moving away from \<open>a\<close> by less than the gap to \<open>b\<close> never enters the block at \<open>b\<close>.
\<close>

lemma disjoint_not_in_block:
  assumes "disjoint_blocks a n b k" "i < n"
  shows "\<not> in_block b k (a + of_nat i)"
proof
  assume "in_block b k (a + of_nat i)"
  then have lt: "unat (a + of_nat i - b) < k" by (simp add: in_block_def)
  from assms have gap: "n \<le> unat (b - a)" "k \<le> unat (a - b)"
    by (auto simp: disjoint_blocks_def)
  have "unat (b - a) < 2 ^ 64" using unat_bound [of "b - a"] by simp
  with gap(1) assms(2) have ilt: "i < 2 ^ 64" by linarith
  have ne: "a \<noteq> b" using gap(1) assms(2) by auto
  have "unat ((a - b) + of_nat i) = (unat (a - b) + i) mod 2 ^ 64"
    using ilt by (simp add: unat_word_ariths)
  moreover have "unat (a - b) + i < 2 ^ 64"
    using unat_neg_diff [OF ne] gap(1) assms(2) by linarith
  ultimately have "unat (a + of_nat i - b) = unat (a - b) + i"
    by (simp add: algebra_simps)
  then show False using lt gap(2) by linarith
qed

lemma in_block_disjoint: "disjoint_blocks a n b k \<Longrightarrow> in_block a n x \<Longrightarrow> \<not> in_block b k x"
  using disjoint_not_in_block in_blockE by metis

lemma in_block_append:
  assumes "n + k \<le> 2 ^ 64"
  shows "in_block a (n + k) x \<longleftrightarrow> in_block a n x \<or> in_block (a + of_nat n) k x"
proof (cases "in_block a n x")
  case True
  then show ?thesis by (simp add: in_block_def)
next
  case False
  define d where "d = unat (x - a)"
  have d: "n \<le> d" "d < 2 ^ 64" using False unat_bound [of "x - a"] by (auto simp: in_block_def d_def)
  have "x - a = of_nat d" by (simp add: d_def)
  then have "x - (a + of_nat n) = of_nat (d - n)" using d(1) by (simp add: of_nat_diff algebra_simps)
  then have "unat (x - (a + of_nat n)) = d - n" using d by (simp del: of_nat_diff)
  then show ?thesis using False d by (auto simp: in_block_def d_def)
qed

lemma in_block_mono: "in_block a n x \<Longrightarrow> n \<le> k \<Longrightarrow> in_block a k x"
  by (simp add: in_block_def)

lemma in_block_sub:
  assumes "in_block (a + of_nat i) n x" "i + n \<le> k" "k \<le> 2 ^ 64"
  shows "in_block a k x"
proof -
  have "in_block a (i + n) x" using assms in_block_append [of i n a x] by simp
  then show ?thesis using assms(2) by (rule in_block_mono)
qed

section \<open>Loops over an index range\<close>

text \<open>
  A counting loop \<^verbatim>\<open>for (i = 0; i < n; i++)\<close> over a state is a left fold; the next two facts
  are how invariants and results of such loops are derived.
\<close>

definition for_upto :: "nat \<Rightarrow> (nat \<Rightarrow> 's \<Rightarrow> 's) \<Rightarrow> 's \<Rightarrow> 's" where
  "for_upto n f s = fold f [0..<n] s"

lemma for_upto_0 [simp]: "for_upto 0 f s = s"
  by (simp add: for_upto_def)

lemma for_upto_Suc: "for_upto (Suc n) f s = f n (for_upto n f s)"
  by (simp add: for_upto_def)

lemma for_upto_inv:
  assumes "P 0 s" and "\<And>i s. i < n \<Longrightarrow> P i s \<Longrightarrow> P (Suc i) (f i s)"
  shows "P n (for_upto n f s)"
proof -
  have "k \<le> n \<Longrightarrow> P k (for_upto k f s)" for k
    by (induction k) (auto simp: for_upto_Suc assms)
  then show ?thesis by simp
qed

text \<open>The first index of a range that satisfies a test, as the C search loops compute it.\<close>

fun find_from :: "nat \<Rightarrow> nat \<Rightarrow> (nat \<Rightarrow> bool) \<Rightarrow> nat option" where
  "find_from i 0 p = None"
| "find_from i (Suc k) p = (if p i then Some i else find_from (Suc i) k p)"

definition find_idx :: "nat \<Rightarrow> (nat \<Rightarrow> bool) \<Rightarrow> nat option" where
  "find_idx n p = find_from 0 n p"

lemma find_from_Some:
  "find_from i k p = Some j \<longleftrightarrow> i \<le> j \<and> j < i + k \<and> p j \<and> (\<forall>l. i \<le> l \<and> l < j \<longrightarrow> \<not> p l)"
proof (induction k arbitrary: i)
  case 0
  then show ?case by simp
next
  case (Suc k)
  show ?case
  proof (cases "p i")
    case True
    then show ?thesis by (auto intro: le_neq_implies_less)
  next
    case False
    then have "find_from i (Suc k) p = find_from (Suc i) k p" by simp
    moreover have "(\<forall>l. i \<le> l \<and> l < j \<longrightarrow> \<not> p l) \<longleftrightarrow> (\<forall>l. Suc i \<le> l \<and> l < j \<longrightarrow> \<not> p l)"
      using False by (metis Suc_leD Suc_le_eq le_neq_implies_less)
    moreover have "i \<le> j \<and> p j \<longleftrightarrow> Suc i \<le> j \<and> p j"
      using False by (metis Suc_leD Suc_le_eq le_neq_implies_less)
    ultimately show ?thesis using Suc.IH [of "Suc i"] by auto
  qed
qed

lemma find_from_None: "find_from i k p = None \<longleftrightarrow> (\<forall>j. i \<le> j \<and> j < i + k \<longrightarrow> \<not> p j)"
proof (induction k arbitrary: i)
  case 0
  then show ?case by auto
next
  case (Suc k)
  have "(\<forall>j. i \<le> j \<and> j < i + Suc k \<longrightarrow> \<not> p j) \<longleftrightarrow>
        \<not> p i \<and> (\<forall>j. Suc i \<le> j \<and> j < Suc i + k \<longrightarrow> \<not> p j)"
  proof (intro iffI conjI allI impI)
    fix j
    assume h: "\<not> p i \<and> (\<forall>j. Suc i \<le> j \<and> j < Suc i + k \<longrightarrow> \<not> p j)" and "i \<le> j \<and> j < i + Suc k"
    then show "\<not> p j" by (cases "j = i") auto
  qed auto
  with Suc.IH [of "Suc i"] show ?case by simp
qed

lemma find_idx_Some:
  "find_idx n p = Some j \<longleftrightarrow> j < n \<and> p j \<and> (\<forall>l < j. \<not> p l)"
  by (auto simp: find_idx_def find_from_Some)

lemma find_idx_None: "find_idx n p = None \<longleftrightarrow> (\<forall>j < n. \<not> p j)"
  by (auto simp: find_idx_def find_from_None)

section \<open>Page arithmetic\<close>

text \<open>
  Addresses split into a page part and an offset of 12 bits: \<^verbatim>\<open>a & ~0xFFF\<close> and \<^verbatim>\<open>a & 0xFFF\<close> of
  the source.
\<close>

definition page_base :: "u64 \<Rightarrow> u64" where
  "page_base a = a AND NOT (mask 12)"

definition page_off :: "u64 \<Rightarrow> u64" where
  "page_off a = a AND mask 12"

abbreviation page_aligned :: "u64 \<Rightarrow> bool" where
  "page_aligned a \<equiv> page_off a = 0"

lemma page_base_source: "page_base a = a AND NOT 0xFFF"
  by (simp add: page_base_def mask_eq_exp_minus_1)

lemma page_off_source: "page_off a = a AND 0xFFF"
  by (simp add: page_off_def mask_eq_exp_minus_1)

lemma bit_page_base [bits]: "bit (page_base a) i \<longleftrightarrow> bit a i \<and> 12 \<le> i"
  by (auto simp: page_base_def bit_simps dest: bit_imp_le_length)

lemma bit_page_off [bits]: "bit (page_off a) i \<longleftrightarrow> bit a i \<and> i < 12"
  by (auto simp: page_off_def bit_simps dest: bit_imp_le_length)

lemma and_not_mask: "(w :: u64) AND NOT (mask n) = w - take_bit n w"
proof -
  have "w AND NOT (mask n) = push_bit n (drop_bit n w)"
    by (rule bit_word_eqI) (auto simp: bit_simps)
  then show ?thesis using bits_ident [of n w] by (simp add: eq_diff_eq)
qed

lemma unat_take_bit: "unat (take_bit n w :: u64) = unat w mod 2 ^ n"
  unfolding unsigned_take_bit_eq by (rule take_bit_eq_mod)

lemma unat_and_not_mask: "unat ((w :: u64) AND NOT (mask n)) = unat w div 2 ^ n * 2 ^ n"
proof -
  have "unat (take_bit n w) \<le> unat w" by (simp add: unat_take_bit)
  then have "unat (w - take_bit n w) = unat w - unat w mod 2 ^ n"
    by (simp add: unat_sub word_le_nat_alt unat_take_bit)
  also have "\<dots> = unat w div 2 ^ n * 2 ^ n" by (simp add: minus_mod_eq_div_mult)
  finally show ?thesis by (simp add: and_not_mask)
qed

lemma unat_page_base: "unat (page_base w) = unat w div 4096 * 4096"
  unfolding page_base_def unat_and_not_mask by simp

lemma unat_page_off: "unat (page_off w) = unat w mod 4096"
  unfolding page_off_def take_bit_eq_mask [symmetric] unat_take_bit by simp

lemma page_split: "page_base w + page_off w = w"
  by (simp add: page_base_def page_off_def and_not_mask take_bit_eq_mask)

lemma page_aligned_iff: "page_aligned a \<longleftrightarrow> unat a mod 4096 = 0"
  by (metis unat_page_off unat_eq_zero)

lemma page_aligned_bit: "page_aligned a \<longleftrightarrow> (\<forall>i < 12. \<not> bit a i)"
proof -
  have "page_aligned a \<longleftrightarrow> (\<forall>i. \<not> bit (page_off a) i)"
    using bit_eq_iff [of "page_off a" 0] by (auto dest: bit_imp_le_length)
  then show ?thesis by (auto simp: bits)
qed

lemma page_base_aligned [simp]: "page_aligned a \<Longrightarrow> page_base a = a"
  using page_split [of a] by simp

lemma page_off_base [simp]: "page_off (page_base a) = 0"
  by (simp add: page_aligned_bit bits)

lemma page_base_idem [simp]: "page_base (page_base a) = page_base a"
  by simp

lemma page_round_up:
  assumes "n + 4095 < 2 ^ 64"
  shows "unat (page_base (of_nat n + 4095)) = (n + 4095) div 4096 * 4096"
proof -
  have "unat (of_nat n + 4095 :: u64) = n + 4095" using unat_offset [of "n + 4095"] assms by simp
  then show ?thesis by (simp add: unat_page_base)
qed

lemma page_aligned_plus: "page_aligned a \<Longrightarrow> page_aligned b \<Longrightarrow> page_aligned (a + b)"
proof -
  assume "page_aligned a" "page_aligned b"
  then have "4096 dvd unat a" "4096 dvd unat b" by (auto simp: page_aligned_iff)
  then have "4096 dvd (unat a + unat b) mod 2 ^ 64" by (intro dvd_mod dvd_add) auto
  moreover have "unat (a + b) = (unat a + unat b) mod 2 ^ 64" by (simp add: unat_word_ariths)
  ultimately show ?thesis by (simp add: page_aligned_iff mod_eq_0_iff_dvd)
qed

lemma in_page_iff:
  assumes "page_aligned a"
  shows "in_block a 4096 x \<longleftrightarrow> page_base x = a"
proof
  assume "in_block a 4096 x"
  then obtain i where i: "i < 4096" "x = a + of_nat i" by (rule in_blockE)
  have d: "unat a = 4096 * (unat a div 4096)" using assms mult_div_mod_eq [of 4096 "unat a"] by (simp add: page_aligned_iff)
  have "unat a + i < 2 ^ 64"
  proof -
    have "4096 * (unat a div 4096) < 4096 * 2 ^ 52" using unat_bound [of a] d by simp
    then have "unat a div 4096 + 1 \<le> 2 ^ 52" by simp
    then have "4096 * (unat a div 4096 + 1) \<le> 4096 * 2 ^ 52" by (rule mult_left_mono) simp
    then show ?thesis using i(1) d by simp
  qed
  then have "unat x = unat a + i" unfolding i(2) by (rule unat_add_no_wrap)
  define q where "q = unat a div 4096"
  have "unat x = 4096 * q + i" using \<open>unat x = unat a + i\<close> d by (simp add: q_def)
  then have "unat (page_base x) = (4096 * q + i) div 4096 * 4096" by (simp add: unat_page_base)
  also have "\<dots> = 4096 * q" using i(1) by simp
  also have "\<dots> = unat a" using d by (simp add: q_def)
  finally show "page_base x = a" by (simp add: word_unat_eq_iff)
next
  assume "page_base x = a"
  then have "x - a = page_off x" using page_split [of x] by (simp add: algebra_simps)
  then show "in_block a 4096 x" by (simp add: in_block_def unat_page_off)
qed

lemma page_aligned_minus: "page_aligned a \<Longrightarrow> page_aligned b \<Longrightarrow> page_aligned (a - b)"
proof -
  assume "page_aligned a" "page_aligned b"
  then have d: "4096 dvd unat a" "4096 dvd unat b" by (auto simp: page_aligned_iff)
  have "(4096 :: nat) dvd 2 ^ 64" by simp
  then have "4096 dvd unat (a - b)" using d unfolding unat_sub_if' by (auto intro: dvd_diff_nat dvd_add)
  then show ?thesis by (simp add: page_aligned_iff mod_eq_0_iff_dvd)
qed

lemma page_aligned_of_nat: "page_aligned (of_nat (4096 * k))"
proof -
  have "4096 dvd (4096 * k) mod 2 ^ 64" by (intro dvd_mod) auto
  then show ?thesis by (simp add: page_aligned_iff unat_of_nat take_bit_eq_mod mod_eq_0_iff_dvd del: of_nat_mult)
qed

end
