(* ===== verification/Kmem.thy ===== *)
theory Kmem
  imports Znu_Prelude
begin

text \<open>
  Byte memory and the kernel's C string library (\<^verbatim>\<open>lib/libc/string\<close>). A memory maps a
  64-bit address to a byte; 16, 32 and 64-bit objects are stored little-endian, as on
  x86-64. The \<^verbatim>\<open>mem*\<close> functions are loops over byte offsets, the \<^verbatim>\<open>str*\<close> functions run until
  a NUL byte and may therefore not return: those are partial functions into \<open>option\<close>.
  The functions return the new memory; the destination pointer that the C functions hand
  back is their first argument and is not repeated.
\<close>

section \<open>Memory and typed access\<close>

type_synonym mem = "u64 \<Rightarrow> u8"

primrec from_le :: "u8 list \<Rightarrow> 'a::len word" where
  "from_le [] = 0"
| "from_le (b # bs) = ucast b OR push_bit 8 (from_le bs)"

definition to_le :: "nat \<Rightarrow> 'a::len word \<Rightarrow> u8 list" where
  "to_le n v = map (\<lambda>i. ucast (drop_bit (8 * i) v)) [0..<n]"

definition rd_bytes :: "mem \<Rightarrow> u64 \<Rightarrow> nat \<Rightarrow> u8 list" where
  "rd_bytes m a n = map (\<lambda>i. m (a + of_nat i)) [0..<n]"

definition wr_bytes :: "mem \<Rightarrow> u64 \<Rightarrow> u8 list \<Rightarrow> mem" where
  "wr_bytes m a bs = (\<lambda>x. if unat (x - a) < length bs then bs ! unat (x - a) else m x)"

definition rd16 :: "mem \<Rightarrow> u64 \<Rightarrow> u16" where
  "rd16 m a = from_le (rd_bytes m a 2)"

definition rd32 :: "mem \<Rightarrow> u64 \<Rightarrow> u32" where
  "rd32 m a = from_le (rd_bytes m a 4)"

definition rd64 :: "mem \<Rightarrow> u64 \<Rightarrow> u64" where
  "rd64 m a = from_le (rd_bytes m a 8)"

definition wr16 :: "mem \<Rightarrow> u64 \<Rightarrow> u16 \<Rightarrow> mem" where
  "wr16 m a v = wr_bytes m a (to_le 2 v)"

definition wr32 :: "mem \<Rightarrow> u64 \<Rightarrow> u32 \<Rightarrow> mem" where
  "wr32 m a v = wr_bytes m a (to_le 4 v)"

definition wr64 :: "mem \<Rightarrow> u64 \<Rightarrow> u64 \<Rightarrow> mem" where
  "wr64 m a v = wr_bytes m a (to_le 8 v)"

section \<open>The mem functions\<close>

definition memset :: "mem \<Rightarrow> ptr \<Rightarrow> u8 \<Rightarrow> u64 \<Rightarrow> mem" where
  "memset m s c n = for_upto (unat n) (\<lambda>i m. m(s + of_nat i := c)) m"

definition memcpy :: "mem \<Rightarrow> ptr \<Rightarrow> ptr \<Rightarrow> u64 \<Rightarrow> mem" where
  "memcpy m dest src n =
     for_upto (unat n) (\<lambda>i m. m(dest + of_nat i := m (src + of_nat i))) m"

definition memmove :: "mem \<Rightarrow> ptr \<Rightarrow> ptr \<Rightarrow> u64 \<Rightarrow> mem" where
  "memmove m dest src n =
     (if src > dest then
        for_upto (unat n) (\<lambda>i m. m(dest + of_nat i := m (src + of_nat i))) m
      else if src < dest then
        fold (\<lambda>i m. m(dest + of_nat (i - 1) := m (src + of_nat (i - 1)))) (rev [1..<Suc (unat n)]) m
      else m)"

definition memcmp :: "mem \<Rightarrow> ptr \<Rightarrow> ptr \<Rightarrow> u64 \<Rightarrow> int" where
  "memcmp m s1 s2 n =
     (case find_idx (unat n) (\<lambda>i. m (s1 + of_nat i) \<noteq> m (s2 + of_nat i)) of
        None \<Rightarrow> 0
      | Some i \<Rightarrow> if m (s1 + of_nat i) < m (s2 + of_nat i) then - 1 else 1)"

section \<open>The str functions\<close>

partial_function (option) strlen_loop :: "mem \<Rightarrow> ptr \<Rightarrow> u64 \<Rightarrow> u64 option" where
  "strlen_loop m str len =
     (if m (str + len) = 0 then Some len else strlen_loop m str (len + 1))"

definition strlen :: "mem \<Rightarrow> ptr \<Rightarrow> u64 option" where
  "strlen m str = strlen_loop m str 0"

text \<open>The copy loop shared by \<^verbatim>\<open>strcpy\<close> and \<^verbatim>\<open>strcat\<close>: copy a byte, stop after a NUL.\<close>

partial_function (option) strcpy_loop :: "mem \<Rightarrow> ptr \<Rightarrow> ptr \<Rightarrow> mem option" where
  "strcpy_loop m d src =
     (let c = m src; m' = m(d := c)
      in if c = 0 then Some m' else strcpy_loop m' (d + 1) (src + 1))"

definition strcpy :: "mem \<Rightarrow> ptr \<Rightarrow> ptr \<Rightarrow> mem option" where
  "strcpy m dest src = strcpy_loop m dest src"

partial_function (option) skip_to_nul :: "mem \<Rightarrow> ptr \<Rightarrow> ptr option" where
  "skip_to_nul m d = (if m d = 0 then Some d else skip_to_nul m (d + 1))"

definition strcat :: "mem \<Rightarrow> ptr \<Rightarrow> ptr \<Rightarrow> mem option" where
  "strcat m dest src = Option.bind (skip_to_nul m dest) (\<lambda>d. strcpy_loop m d src)"

partial_function (option) strcmp :: "mem \<Rightarrow> ptr \<Rightarrow> ptr \<Rightarrow> int option" where
  "strcmp m s1 s2 =
     (if m s1 \<noteq> 0 \<and> m s1 = m s2 then strcmp m (s1 + 1) (s2 + 1)
      else Some (uint (m s1) - uint (m s2)))"

text \<open>
  \<^verbatim>\<open>strncmp\<close> sets EFLAGS.AC with \<^verbatim>\<open>stac\<close> and returns without \<^verbatim>\<open>clac\<close> when the count runs
  out; the second component of the result is AC on return.
\<close>

fun strncmp :: "mem \<Rightarrow> ptr \<Rightarrow> ptr \<Rightarrow> nat \<Rightarrow> int \<times> bool" where
  "strncmp m s1 s2 0 = (0, True)"
| "strncmp m s1 s2 (Suc n) =
     (if m s1 \<noteq> 0 \<and> m s1 = m s2 then strncmp m (s1 + 1) (s2 + 1) n
      else (uint (m s1) - uint (m s2), False))"

partial_function (option) strrchr_loop :: "mem \<Rightarrow> ptr \<Rightarrow> u8 \<Rightarrow> ptr \<Rightarrow> ptr option" where
  "strrchr_loop m s c lst =
     (if m s = 0 then Some (if m s = c then s else lst)
      else strrchr_loop m (s + 1) c (if m s = c then s else lst))"

definition strrchr :: "mem \<Rightarrow> ptr \<Rightarrow> u8 \<Rightarrow> ptr option" where
  "strrchr m s c = strrchr_loop m s c NULL"

partial_function (option) strchr :: "mem \<Rightarrow> ptr \<Rightarrow> u8 \<Rightarrow> ptr option" where
  "strchr m s c =
     (if m s \<noteq> c then (if m s = 0 then Some NULL else strchr m (s + 1) c) else Some s)"

function strncpy_copy :: "ptr \<Rightarrow> ptr \<Rightarrow> nat \<Rightarrow> nat \<Rightarrow> mem \<Rightarrow> nat \<times> mem" where
  "strncpy_copy dest src n i m =
     (if i < n \<and> m (src + of_nat i) \<noteq> 0
      then strncpy_copy dest src n (Suc i) (m(dest + of_nat i := m (src + of_nat i)))
      else (i, m))"
  by pat_completeness auto
termination
  by (relation "measure (\<lambda>(dest, src, n, i, m). n - i)") auto

definition strncpy :: "mem \<Rightarrow> ptr \<Rightarrow> ptr \<Rightarrow> u64 \<Rightarrow> mem" where
  "strncpy m dest src n =
     (let (i, m1) = strncpy_copy dest src (unat n) 0 m
      in fold (\<lambda>k m. m(dest + of_nat k := 0)) [i..<unat n] m1)"

declare strncpy_copy.simps [simp del]

section \<open>Laws of typed access\<close>

text \<open>
  What the kernel relies on for every scalar it stores: the value read back is the value
  written, a write changes nothing outside its bytes, and a read depends on its bytes only.
\<close>

locale typed_access =
  fixes rd :: "mem \<Rightarrow> u64 \<Rightarrow> 'v"
    and wr :: "mem \<Rightarrow> u64 \<Rightarrow> 'v \<Rightarrow> mem"
    and sz :: nat
  assumes rd_wr_same: "rd (wr m a v) a = v"
    and wr_outside: "\<not> in_block a sz x \<Longrightarrow> wr m a v x = m x"
    and rd_cong: "(\<And>i. i < sz \<Longrightarrow> m (a + of_nat i) = m' (a + of_nat i)) \<Longrightarrow> rd m a = rd m' a"
begin

lemma rd_wr_disjoint:
  assumes "disjoint_blocks a sz b sz"
  shows "rd (wr m a v) b = rd m b"
proof (rule rd_cong)
  fix i assume "i < sz"
  with assms have "\<not> in_block a sz (b + of_nat i)"
    using disjoint_not_in_block [of b sz a sz i] by (simp add: disjoint_blocks_sym)
  then show "wr m a v (b + of_nat i) = m (b + of_nat i)" by (rule wr_outside)
qed

lemma rd_wr_fun_disjoint:
  assumes "disjoint_blocks a k b sz" and "\<And>x. \<not> in_block a k x \<Longrightarrow> m' x = m x"
  shows "rd m' b = rd m b"
proof (rule rd_cong)
  fix i assume "i < sz"
  with assms(1) have "\<not> in_block a k (b + of_nat i)"
    using disjoint_not_in_block [of b sz a k i] by (simp add: disjoint_blocks_sym)
  then show "m' (b + of_nat i) = m (b + of_nat i)" by (rule assms(2))
qed

lemma wr_wr_disjoint_same:
  assumes "disjoint_blocks a sz b sz"
  shows "rd (wr (wr m a v) b w) a = v"
proof -
  have "disjoint_blocks b sz a sz" using assms by (simp add: disjoint_blocks_sym)
  then show ?thesis by (simp add: rd_wr_disjoint rd_wr_same)
qed

end

lemma length_to_le [simp]: "length (to_le n v) = n"
  by (simp add: to_le_def)

lemma wr_bytes_outside: "\<not> in_block a (length bs) x \<Longrightarrow> wr_bytes m a bs x = m x"
  by (simp add: wr_bytes_def in_block_def)

lemma rd_wr_bytes: "length bs < 2 ^ 64 \<Longrightarrow> rd_bytes (wr_bytes m a bs) a (length bs) = bs"
  by (auto simp: rd_bytes_def wr_bytes_def intro!: nth_equalityI)

lemma rd_bytes_cong:
  "(\<And>i. i < n \<Longrightarrow> m (a + of_nat i) = m' (a + of_nat i)) \<Longrightarrow> rd_bytes m a n = rd_bytes m' a n"
  by (simp add: rd_bytes_def)

text \<open>Bit \<open>n\<close> of a little-endian value is bit \<open>n mod 8\<close> of its byte \<open>n div 8\<close>.\<close>

lemma bit_from_le:
  "bit (from_le bs :: 'a::len word) n \<longleftrightarrow>
     n < LENGTH('a) \<and> n div 8 < length bs \<and> bit (bs ! (n div 8)) (n mod 8)"
proof (induction bs arbitrary: n)
  case Nil
  then show ?case by simp
next
  case (Cons b bs)
  show ?case
  proof (cases "n < 8")
    case True
    then show ?thesis by (auto simp: bit_simps)
  next
    case False
    then have n: "n div 8 = Suc ((n - 8) div 8)" "n mod 8 = (n - 8) mod 8"
      by (simp_all add: le_div_geq le_mod_geq)
    have "\<not> bit b n" using False by (auto simp: dest: bit_imp_le_length)
    then show ?thesis
      using False n Cons.IH [of "n - 8"] by (auto simp: bit_simps dest: bit_imp_le_length)
  qed
qed

lemma from_to_le:
  assumes "LENGTH('a) = 8 * n"
  shows "from_le (to_le n v) = (v :: 'a::len word)"
proof (rule bit_word_eqI)
  fix k assume "k < LENGTH('a)"
  moreover from this assms have "k div 8 < n" by auto
  ultimately show "bit (from_le (to_le n v) :: 'a word) k \<longleftrightarrow> bit v k"
    by (auto simp: bit_from_le to_le_def bit_simps)
qed

lemma rd_wr_le:
  assumes "LENGTH('a) = 8 * n" "n < 2 ^ 64"
  shows "from_le (rd_bytes (wr_bytes m a (to_le n v)) a n) = (v :: 'a::len word)"
  using rd_wr_bytes [of "to_le n v" m a] assms by (simp add: from_to_le)

interpretation acc16: typed_access rd16 wr16 2
proof unfold_locales
  show "rd16 (wr16 m a v) a = v" for m a v
    unfolding rd16_def wr16_def by (rule rd_wr_le) simp_all
qed (auto simp: rd16_def wr16_def wr_bytes_outside cong: rd_bytes_cong)

interpretation acc32: typed_access rd32 wr32 4
proof unfold_locales
  show "rd32 (wr32 m a v) a = v" for m a v
    unfolding rd32_def wr32_def by (rule rd_wr_le) simp_all
qed (auto simp: rd32_def wr32_def wr_bytes_outside cong: rd_bytes_cong)

interpretation acc64: typed_access rd64 wr64 8
proof unfold_locales
  show "rd64 (wr64 m a v) a = v" for m a v
    unfolding rd64_def wr64_def by (rule rd_wr_le) simp_all
qed (auto simp: rd64_def wr64_def wr_bytes_outside cong: rd_bytes_cong)

lemmas rd_wr_same = acc16.rd_wr_same acc32.rd_wr_same acc64.rd_wr_same
declare rd_wr_same [mem_simps, simp]

section \<open>What the mem functions do\<close>

lemma in_block_0 [simp]: "\<not> in_block a 0 x"
  by (simp add: in_block_def)

lemma in_block_Suc:
  assumes "i < 2 ^ 64"
  shows "in_block a (Suc i) x \<longleftrightarrow> in_block a i x \<or> x = a + of_nat i"
proof -
  have "unat (x - a) = i \<longleftrightarrow> x = a + of_nat i"
    using assms by (metis add.commute diff_add_cancel add_diff_cancel_left' of_nat_unat ucast_id unat_offset)
  then show ?thesis by (auto simp: in_block_def less_Suc_eq)
qed

text \<open>The block at \<open>dest\<close> receives the bytes the block at \<open>src\<close> had before the call.\<close>

definition snapshot_copy :: "mem \<Rightarrow> ptr \<Rightarrow> ptr \<Rightarrow> nat \<Rightarrow> mem" where
  "snapshot_copy m dest src n = (\<lambda>x. if in_block dest n x then m (src + (x - dest)) else m x)"

lemma memset_apply: "memset m s c n x = (if in_block s (unat n) x then c else m x)"
proof -
  have "\<forall>x. for_upto (unat n) (\<lambda>i m. m(s + of_nat i := c)) m x =
        (if in_block s (unat n) x then c else m x)"
  proof (rule for_upto_inv [where P = "\<lambda>i m'. \<forall>x. m' x = (if in_block s i x then c else m x)"])
    fix i m'
    assume "i < unat n" "\<forall>x. m' x = (if in_block s i x then c else m x)"
    moreover from this have "i < 2 ^ 64" using unat_bound [of n] by linarith
    ultimately show "\<forall>x. (m'(s + of_nat i := c)) x = (if in_block s (Suc i) x then c else m x)"
      by (simp add: in_block_Suc)
  qed simp
  then show ?thesis by (simp add: memset_def)
qed

lemma ascending_copy:
  assumes "n \<le> 2 ^ 64" and "\<And>i. i < n \<Longrightarrow> \<not> in_block dest i (src + of_nat i)"
  shows "for_upto n (\<lambda>i m. m(dest + of_nat i := m (src + of_nat i))) m = snapshot_copy m dest src n"
proof (rule for_upto_inv [where P = "\<lambda>i m'. m' = snapshot_copy m dest src i"])
  show "m = snapshot_copy m dest src 0" by (simp add: snapshot_copy_def)
next
  fix i m'
  assume i: "i < n" and m': "m' = snapshot_copy m dest src i"
  then have "m' (src + of_nat i) = m (src + of_nat i)"
    using assms(2) by (simp add: snapshot_copy_def)
  moreover have "i < 2 ^ 64" using i assms(1) by simp
  ultimately show "m'(dest + of_nat i := m' (src + of_nat i)) = snapshot_copy m dest src (Suc i)"
    by (auto simp: m' snapshot_copy_def in_block_Suc)
qed

lemma descending_copy:
  assumes "n \<le> 2 ^ 64"
    and "\<And>i j. i < j \<Longrightarrow> j < n \<Longrightarrow> src + of_nat i \<noteq> dest + of_nat j"
  shows "fold (\<lambda>i m. m(dest + of_nat (i - 1) := m (src + of_nat (i - 1)))) (rev [1..<Suc n]) m
         = snapshot_copy m dest src n"
  using assms
proof (induction n arbitrary: m)
  case 0
  then show ?case by (simp add: snapshot_copy_def)
next
  case (Suc n)
  let ?m = "m(dest + of_nat n := m (src + of_nat n))"
  let ?f = "\<lambda>i m. m(dest + of_nat (i - 1) := m (src + of_nat (i - 1)) :: u8)"
  have last_first: "rev [1..<Suc (Suc n)] = Suc n # rev [1..<Suc n]" by simp
  have "fold ?f (rev [1..<Suc (Suc n)]) m = fold ?f (rev [1..<Suc n]) ?m"
    by (simp only: last_first fold_simps diff_Suc_1)
  also have "\<dots> = snapshot_copy ?m dest src n"
    by (rule Suc.IH) (use Suc.prems in auto)
  also have "\<dots> = snapshot_copy m dest src (Suc n)"
  proof
    fix x
    show "snapshot_copy ?m dest src n x = snapshot_copy m dest src (Suc n) x"
    proof (cases "in_block dest n x")
      case True
      then obtain i where "i < n" "x = dest + of_nat i" by (rule in_blockE)
      then have "src + (x - dest) \<noteq> dest + of_nat n"
        using Suc.prems(2) [of i n] by simp
      then show ?thesis using True Suc.prems(1)
        by (simp add: snapshot_copy_def in_block_Suc)
    next
      case False
      then show ?thesis using Suc.prems(1)
        by (auto simp: snapshot_copy_def in_block_Suc)
    qed
  qed
  finally show ?case .
qed

lemma memcpy_disjoint:
  assumes "disjoint_blocks src (unat n) dest (unat n)"
  shows "memcpy m dest src n = snapshot_copy m dest src (unat n)"
  unfolding memcpy_def
proof (rule ascending_copy)
  show "unat n \<le> 2 ^ 64" using unat_bound [of n] by simp
next
  fix i assume "i < unat n"
  with assms have "\<not> in_block dest (unat n) (src + of_nat i)"
    by (rule disjoint_not_in_block)
  with \<open>i < unat n\<close> show "\<not> in_block dest i (src + of_nat i)"
    by (auto simp: in_block_def)
qed

lemma memmove_snapshot:
  assumes "unat src + unat n \<le> 2 ^ 64" "unat dest + unat n \<le> 2 ^ 64"
  shows "memmove m dest src n = snapshot_copy m dest src (unat n)"
proof -
  have n: "unat n \<le> 2 ^ 64" using unat_bound [of n] by simp
  consider "dest < src" | "src < dest" | "src = dest" by fastforce
  then show ?thesis
  proof cases
    case 1
    have "\<not> in_block dest i (src + of_nat i)" if "i < unat n" for i
    proof -
      have "unat (src + of_nat i) = unat src + i"
        using that assms(1) by (intro unat_add_no_wrap) linarith
      then have "unat (src + of_nat i - dest) = unat src + i - unat dest"
        using 1 by (subst unat_sub) (auto simp: word_le_nat_alt word_less_nat_alt)
      then show ?thesis using 1 by (auto simp: in_block_def word_less_nat_alt)
    qed
    then show ?thesis using 1 n ascending_copy [of "unat n" dest src] by (simp add: memmove_def)
  next
    case 2
    have "src + of_nat i \<noteq> dest + of_nat j" if "i < j" "j < unat n" for i j
    proof
      assume eq: "src + of_nat i = dest + of_nat j"
      have "unat (src + of_nat i) = unat src + i" "unat (dest + of_nat j) = unat dest + j"
        using that assms by (auto intro!: unat_add_no_wrap)
      with eq that 2 show False by (simp add: word_less_nat_alt)
    qed
    moreover have "\<not> dest < src" using 2 by simp
    ultimately show ?thesis using 2 n
      by (simp only: memmove_def if_True if_False) (rule descending_copy, assumption, blast)
  next
    case 3
    then show ?thesis by (auto simp: memmove_def snapshot_copy_def)
  qed
qed

lemma snapshot_copy_bytes:
  assumes "i < n" "n \<le> 2 ^ 64"
  shows "snapshot_copy m dest src n (dest + of_nat i) = m (src + of_nat i)"
  using assms by (simp add: snapshot_copy_def in_block_offset)

lemma snapshot_copy_outside: "\<not> in_block dest n x \<Longrightarrow> snapshot_copy m dest src n x = m x"
  by (simp add: snapshot_copy_def)

lemma memcmp_zero_iff:
  "memcmp m s1 s2 n = 0 \<longleftrightarrow> rd_bytes m s1 (unat n) = rd_bytes m s2 (unat n)"
  by (auto simp: memcmp_def rd_bytes_def find_idx_None find_idx_Some split: option.splits)

section \<open>C strings\<close>

text \<open>\<open>cstr m a s\<close>: the bytes \<open>s\<close>, none of them NUL, lie at \<open>a\<close> and a NUL follows.\<close>

primrec cstr :: "mem \<Rightarrow> ptr \<Rightarrow> u8 list \<Rightarrow> bool" where
  "cstr m a [] \<longleftrightarrow> m a = 0"
| "cstr m a (c # cs) \<longleftrightarrow> m a = c \<and> c \<noteq> 0 \<and> cstr m (a + 1) cs"

lemma cstr_unique: "cstr m a s \<Longrightarrow> cstr m a t \<Longrightarrow> s = t"
proof (induction s arbitrary: a t)
  case Nil
  then show ?case by (cases t) auto
next
  case (Cons c s)
  then show ?case by (cases t) auto
qed

lemma cstr_iff:
  "cstr m a s \<longleftrightarrow> (\<forall>i < length s. m (a + of_nat i) = s ! i \<and> s ! i \<noteq> 0) \<and> m (a + of_nat (length s)) = 0"
proof (induction s arbitrary: a)
  case Nil
  then show ?case by simp
next
  case (Cons c s)
  have "(\<forall>i < length (c # s). m (a + of_nat i) = (c # s) ! i \<and> (c # s) ! i \<noteq> 0) \<longleftrightarrow>
        m a = c \<and> c \<noteq> 0 \<and> (\<forall>i < length s. m (a + 1 + of_nat i) = s ! i \<and> s ! i \<noteq> 0)"
    by (auto simp: less_Suc_eq_0_disj add.assoc)
  with Cons.IH [of "a + 1"] show ?case by (simp add: add.assoc)
qed

lemma strlen_loop_cstr: "cstr m (str + len) s \<Longrightarrow> strlen_loop m str len = Some (len + of_nat (length s))"
proof (induction s arbitrary: len)
  case Nil
  then show ?case by (simp add: strlen_loop.simps)
next
  case (Cons c s)
  then have "cstr m (str + (len + 1)) s" by (simp add: add.assoc)
  then show ?case using Cons by (subst strlen_loop.simps) (simp add: add.assoc)
qed

lemma strlen_cstr: "cstr m a s \<Longrightarrow> strlen m a = Some (of_nat (length s))"
  using strlen_loop_cstr [of m a 0 s] by (simp add: strlen_def)

text \<open>The comparison of C as a function of the two strings: the difference at the first mismatch.\<close>

fun strdiff :: "u8 list \<Rightarrow> u8 list \<Rightarrow> int" where
  "strdiff [] [] = 0"
| "strdiff [] (d # ds) = - uint d"
| "strdiff (c # cs) [] = uint c"
| "strdiff (c # cs) (d # ds) = (if c = d then strdiff cs ds else uint c - uint d)"

lemma strcmp_cstr: "cstr m a s \<Longrightarrow> cstr m b t \<Longrightarrow> strcmp m a b = Some (strdiff s t)"
proof (induction s t arbitrary: a b rule: strdiff.induct)
  case (4 c cs d ds)
  then show ?case by (subst strcmp.simps) auto
qed (subst strcmp.simps, auto)+

lemma strdiff_zero: "0 \<notin> set s \<Longrightarrow> 0 \<notin> set t \<Longrightarrow> strdiff s t = 0 \<longleftrightarrow> s = t"
  by (induction s t rule: strdiff.induct) (auto simp: word_uint_eq_iff)

lemma strdiff_neg: "0 \<notin> set s \<Longrightarrow> 0 \<notin> set t \<Longrightarrow> strdiff s t < 0 \<longleftrightarrow> ord_class.lexordp s t"
  by (induction s t rule: strdiff.induct) (auto simp: word_less_def word_uint_eq_iff less_le)

lemma cstr_nonzero: "cstr m a s \<Longrightarrow> 0 \<notin> set s"
  by (induction s arbitrary: a) auto

lemma cstr_cong:
  assumes "cstr m a s" and "\<And>i. i \<le> length s \<Longrightarrow> m' (a + of_nat i) = m (a + of_nat i)"
  shows "cstr m' a s"
  using assms by (auto simp: cstr_iff)

text \<open>
  Copying a string whose bytes the copy does not overwrite: after the loop the destination
  holds the string, and nothing outside its \<open>length s + 1\<close> bytes changed.
\<close>

lemma strcpy_loop_cstr:
  assumes "cstr m src s" and "length s + 1 < 2 ^ 64"
    and "\<And>i j. i \<le> length s \<Longrightarrow> j \<le> length s \<Longrightarrow> j \<le> i \<Longrightarrow> src + of_nat i \<noteq> d + of_nat j"
  shows "\<exists>m'. strcpy_loop m d src = Some m' \<and> cstr m' d s \<and>
           (\<forall>x. \<not> in_block d (length s + 1) x \<longrightarrow> m' x = m x)"
  using assms
proof (induction s arbitrary: m d src)
  case Nil
  have "x \<noteq> d" if "\<not> in_block d 1 x" for x
    using that by (auto simp: in_block_def)
  with Nil show ?case by (subst strcpy_loop.simps) (auto simp: Let_def)
next
  case (Cons c s)
  let ?m = "m(d := c)"
  have apart: "src + of_nat i \<noteq> d" if "i \<le> length (c # s)" for i
    using Cons.prems(3) [OF that, of 0] by simp
  have later: "src + 1 + of_nat i \<noteq> d + 1 + of_nat j" if "i \<le> length s" "j \<le> length s" "j \<le> i" for i j
    using Cons.prems(3) [of "Suc i" "Suc j"] that by (simp add: add.assoc)
  have "cstr ?m (src + 1) s"
  proof (rule cstr_cong [of m])
    show "cstr m (src + 1) s" using Cons.prems(1) by simp
    fix i assume "i \<le> length s"
    with apart [of "Suc i"] show "?m (src + 1 + of_nat i) = m (src + 1 + of_nat i)"
      by (simp add: add.assoc)
  qed
  then have "\<exists>m'. strcpy_loop ?m (d + 1) (src + 1) = Some m' \<and> cstr m' (d + 1) s \<and>
      (\<forall>x. \<not> in_block (d + 1) (length s + 1) x \<longrightarrow> m' x = ?m x)"
    by (rule Cons.IH) (use Cons.prems(2) later in \<open>simp_all\<close>)
  then obtain m' where m': "strcpy_loop ?m (d + 1) (src + 1) = Some m'" "cstr m' (d + 1) s"
      "\<And>x. \<not> in_block (d + 1) (length s + 1) x \<Longrightarrow> m' x = ?m x"
    by blast
  have run: "strcpy_loop m d src = Some m'"
    using Cons.prems(1) m'(1) by (subst strcpy_loop.simps) (auto simp: Let_def)
  have d_out: "\<not> in_block (d + 1) (length s + 1) d"
  proof -
    have "d - (d + 1) = (- 1 :: u64)" by simp
    then show ?thesis using Cons.prems(2) by (simp add: in_block_def unsigned_minus_1_eq_mask mask_eq_exp_minus_1)
  qed
  moreover have "\<not> in_block (d + 1) (length s + 1) x \<and> x \<noteq> d" if "\<not> in_block d (length (c # s) + 1) x" for x
  proof -
    have "in_block d (length (c # s) + 1) d" by (simp add: in_block_def)
    moreover have "in_block d (length (c # s) + 1) x" if "in_block (d + 1) (length s + 1) x"
    proof -
      from that obtain i where "i < length s + 1" "x = d + 1 + of_nat i" by (rule in_blockE)
      then have "x = d + of_nat (Suc i)" "Suc i < length (c # s) + 1" by (simp_all add: add.assoc)
      then show ?thesis using Cons.prems(2) by (metis in_block_offset less_imp_le)
    qed
    ultimately show ?thesis using that by blast
  qed
  ultimately have "cstr m' d (c # s)" "\<And>x. \<not> in_block d (length (c # s) + 1) x \<Longrightarrow> m' x = m x"
    using m' Cons.prems(1) by auto
  with run show ?case by blast
qed

lemma strncpy_copy_result:
  assumes "cstr m0 src s" and "n \<le> 2 ^ 64" and "i \<le> length s" and "i \<le> n"
    and "\<And>k. k \<le> length s \<Longrightarrow> \<not> in_block dest n (src + of_nat k)"
    and "\<And>x. m x = (if in_block dest i x then m0 (src + (x - dest)) else m0 x)"
  shows "strncpy_copy dest src n i m =
     (min n (length s), \<lambda>x. if in_block dest (min n (length s)) x then m0 (src + (x - dest)) else m0 x)"
  using assms
proof (induction dest src n i m rule: strncpy_copy.induct)
  case (1 dest src n i m)
  have "\<not> in_block dest i (src + of_nat i)"
    using "1.prems"(5) [of i] "1.prems"(3,4) by (auto simp: in_block_def)
  then have here: "m (src + of_nat i) = m0 (src + of_nat i)" using "1.prems"(6) by simp
  show ?case
  proof (cases "i < n \<and> m (src + of_nat i) \<noteq> 0")
    case True
    with here "1.prems"(1,3) have lt: "i < length s"
      by (auto simp: cstr_iff le_less)
    have "strncpy_copy dest src n (Suc i) (m(dest + of_nat i := m (src + of_nat i))) =
      (min n (length s), \<lambda>x. if in_block dest (min n (length s)) x then m0 (src + (x - dest)) else m0 x)"
    proof (rule "1.IH" [OF True "1.prems"(1,2) _ _ "1.prems"(5)])
      fix x
      have "i < 2 ^ 64" using True "1.prems"(2) by linarith
      then show "(m(dest + of_nat i := m (src + of_nat i))) x =
          (if in_block dest (Suc i) x then m0 (src + (x - dest)) else m0 x)"
        using "1.prems"(6) here by (simp add: in_block_Suc)
    qed (use lt True in auto)
    with True show ?thesis by (simp add: strncpy_copy.simps [of dest src n i m])
  next
    case False
    with here "1.prems"(1,3,4) have "i = min n (length s)"
      by (auto simp: cstr_iff min_def le_less)
    moreover have "strncpy_copy dest src n i m = (i, m)"
      using False by (subst strncpy_copy.simps) (simp only: if_False)
    moreover have "m = (\<lambda>x. if in_block dest i x then m0 (src + (x - dest)) else m0 x)"
      by (rule ext) (rule "1.prems"(6))
    ultimately show ?thesis by metis
  qed
qed

lemma fill_zero:
  assumes "i \<le> n" "n \<le> 2 ^ 64"
  shows "fold (\<lambda>k m. m(dest + of_nat k := 0)) [i..<n] m x =
     (if in_block dest n x \<and> \<not> in_block dest i x then 0 else m x)"
  using assms
proof (induction "n - i" arbitrary: n)
  case 0
  then show ?case by auto
next
  case (Suc d)
  then obtain n' where n': "n = Suc n'" "i \<le> n'" "d = n' - i" "n' < 2 ^ 64"
    by (cases n) auto
  then show ?case
    using Suc.hyps(1) [of n'] Suc.prems in_block_Suc [of n' dest x]
    by (auto simp: in_block_def)
qed

lemma strncpy_result:
  assumes "cstr m src s"
    and "\<And>k. k \<le> length s \<Longrightarrow> \<not> in_block dest (unat n) (src + of_nat k)"
  shows "strncpy m dest src n = (\<lambda>x.
     if in_block dest (min (unat n) (length s)) x then m (src + (x - dest))
     else if in_block dest (unat n) x then 0 else m x)"
proof -
  have n: "unat n \<le> 2 ^ 64" using unat_bound [of n] by simp
  have "strncpy_copy dest src (unat n) 0 m = (min (unat n) (length s),
      \<lambda>x. if in_block dest (min (unat n) (length s)) x then m (src + (x - dest)) else m x)"
    by (rule strncpy_copy_result) (use assms n in auto)
  then show ?thesis
    using n by (auto simp add: strncpy_def fill_zero fun_eq_iff in_block_def)
qed

lemma takeWhile_shorter: "c \<in> set xs \<Longrightarrow> length (takeWhile (\<lambda>x. x \<noteq> c) xs) < length xs"
  by (induction xs) auto

lemma strrchr_loop_cstr:
  assumes "cstr m a s" "c \<noteq> 0"
  shows "strrchr_loop m a c lst = Some (if c \<in> set s
     then a + of_nat (length s - 1 - length (takeWhile (\<lambda>x. x \<noteq> c) (rev s))) else lst)"
  using assms
proof (induction s arbitrary: a lst)
  case Nil
  then show ?case by (simp add: strrchr_loop.simps)
next
  case (Cons b s)
  have IH: "strrchr_loop m (a + 1) c l = Some (if c \<in> set s
     then a + 1 + of_nat (length s - 1 - length (takeWhile (\<lambda>x. x \<noteq> c) (rev s))) else l)" for l
    using Cons by simp
  show ?case
  proof (cases "c \<in> set s")
    case True
    then have "length (takeWhile (\<lambda>x. x \<noteq> c) (rev s)) < length s"
      using takeWhile_shorter [of c "rev s"] by simp
    with True Cons.prems IH show ?thesis
      by (subst strrchr_loop.simps) (auto simp: takeWhile_append1 Suc_diff_le)
  next
    case False
    then have "takeWhile (\<lambda>x. x \<noteq> c) (rev s @ [b]) = rev s @ takeWhile (\<lambda>x. x \<noteq> c) [b]"
      by (intro takeWhile_append2) auto
    with False Cons.prems IH show ?thesis
      by (subst strrchr_loop.simps) auto
  qed
qed

lemma skip_to_nul_cstr: "cstr m d s \<Longrightarrow> skip_to_nul m d = Some (d + of_nat (length s))"
proof (induction s arbitrary: d)
  case Nil
  then show ?case by (simp add: skip_to_nul.simps)
next
  case (Cons b s)
  then show ?case by (subst skip_to_nul.simps) (simp add: add.assoc add.commute add.left_commute)
qed

lemma cstr_append:
  assumes "\<And>i. i < length s \<Longrightarrow> m (a + of_nat i) = s ! i" "0 \<notin> set s"
    and "cstr m (a + of_nat (length s)) t"
  shows "cstr m a (s @ t)"
  using assms
proof (induction s arbitrary: a)
  case (Cons b s)
  have "m a = b" using Cons.prems(1) [of 0] by simp
  moreover have "m (a + 1 + of_nat i) = s ! i" if "i < length s" for i
    using Cons.prems(1) [of "Suc i"] that by (simp add: add.assoc)
  ultimately show ?case using Cons by (simp add: add.assoc)
qed simp

lemma strncmp_prefix:
  "strncmp m a b n = (case find_idx n (\<lambda>i. \<not> (m (a + of_nat i) \<noteq> 0 \<and> m (a + of_nat i) = m (b + of_nat i))) of
     None \<Rightarrow> (0, True)
   | Some i \<Rightarrow> (uint (m (a + of_nat i)) - uint (m (b + of_nat i)), False))"
proof (induction n arbitrary: a b)
  case (Suc n)
  have shift: "find_from (Suc k) d p = map_option Suc (find_from k d (\<lambda>i. p (Suc i)))" for k d p
    by (induction d arbitrary: k) auto
  show ?case
    using Suc [of "a + 1" "b + 1"]
    by (auto simp: find_idx_def shift add.assoc split: option.splits)
qed (simp add: find_idx_def)

lemma wr64_zero: "wr64 mm a 0 x = (if in_block a 8 x then 0 else mm x)"
  by (simp add: wr64_def wr_bytes_def to_le_def in_block_def del: upt_Suc)

lemma zero_words:
  "n \<le> 512 \<Longrightarrow> for_upto n (\<lambda>i mm. wr64 mm (p + 8 * of_nat i) 0) mm x = (if in_block p (8 * n) x then 0 else mm x)"
proof (induction n)
  case (Suc n)
  have "in_block p (8 * n + 8) x \<longleftrightarrow> in_block p (8 * n) x \<or> in_block (p + of_nat (8 * n)) 8 x"
    using Suc.prems by (intro in_block_append) simp
  then show ?case using Suc by (simp add: for_upto_Suc wr64_zero add.commute)
qed simp

section \<open>Properties\<close>

text \<open>
  C11: \<^verbatim>\<open>memmove\<close> is correct for every overlap of the two ranges, provided neither wraps around
  the address space: the destination receives the bytes the source held before the call,
  and no byte outside the destination changes.
\<close>

theorem memmove_any_overlap:
  assumes "unat src + unat n \<le> 2 ^ 64" "unat dest + unat n \<le> 2 ^ 64"
  shows "rd_bytes (memmove m dest src n) dest (unat n) = rd_bytes m src (unat n) \<and>
    (\<forall>x. \<not> in_block dest (unat n) x \<longrightarrow> memmove m dest src n x = m x)"
  unfolding memmove_snapshot [OF assms]
  using unat_bound [of n]
  by (auto simp: rd_bytes_def snapshot_copy_bytes snapshot_copy_outside)

theorem memmove_any_overlap_witness:
  "rd_bytes (memmove (\<lambda>x. ucast x) 102 100 4) 102 (unat (4 :: u64)) =
   rd_bytes (\<lambda>x. ucast x) 100 (unat (4 :: u64))"
  using memmove_any_overlap [of 100 4 102 "\<lambda>x. ucast x"] by simp

text \<open>
  C12: \<^verbatim>\<open>strcat\<close> returns for every pair of NUL-terminated strings whose storage does not
  overlap the concatenation's; the destination then holds the concatenation, and no byte
  outside the copied tail and its terminator changes.
\<close>

theorem strcat_concatenates:
  assumes "cstr m dest s" "cstr m src t" "length s + length t + 1 < 2 ^ 64"
    and "disjoint_blocks dest (length s + length t + 1) src (length t + 1)"
  shows "\<exists>m'. strcat m dest src = Some m' \<and> cstr m' dest (s @ t) \<and>
    (\<forall>x. \<not> in_block (dest + of_nat (length s)) (length t + 1) x \<longrightarrow> m' x = m x)"
proof -
  define d where "d = dest + of_nat (length s)"
  have "src + of_nat i \<noteq> d + of_nat j" if "i \<le> length t" "j \<le> length t" for i j
  proof
    assume eq: "src + of_nat i = d + of_nat j"
    have "in_block src (length t + 1) (src + of_nat i)"
      using that assms(3) by (intro in_block_offset) auto
    moreover have "in_block dest (length s + length t + 1) (d + of_nat j)"
      using that assms(3) in_block_offset [of "length s + j" "length s + length t + 1" dest]
      by (simp add: d_def add.assoc)
    ultimately show False using in_block_disjoint [OF assms(4)] eq by simp
  qed
  then obtain m' where m': "strcpy_loop m d src = Some m'" "cstr m' d t"
      "\<forall>x. \<not> in_block d (length t + 1) x \<longrightarrow> m' x = m x"
    using strcpy_loop_cstr [OF assms(2), of d] assms(3) by auto
  have "m' (dest + of_nat i) = s ! i" if "i < length s" for i
  proof -
    have "unat (dest + of_nat i - d) = unat (of_nat i - of_nat (length s) :: u64)"
      by (simp add: d_def)
    also have "\<dots> = 2 ^ 64 + i - length s"
      using that assms(3) by (subst unat_sub_if') (simp add: unat_of_nat take_bit_nat_eq_self)
    finally have "\<not> in_block d (length t + 1) (dest + of_nat i)"
      using that assms(3) by (auto simp: in_block_def)
    with m'(3) assms(1) that show ?thesis by (simp add: cstr_iff)
  qed
  with m'(2) cstr_nonzero [OF assms(1)] have "cstr m' dest (s @ t)"
    by (intro cstr_append) (auto simp: d_def)
  with m' show ?thesis
    by (auto simp: strcat_def skip_to_nul_cstr [OF assms(1)] d_def)
qed

theorem strcat_concatenates_witness:
  "\<exists>m'. strcat (wr_bytes (wr_bytes (\<lambda>x. 0) 16 [65, 66]) 64 [67]) 16 64 = Some m' \<and> cstr m' 16 [65, 66, 67]"
  using strcat_concatenates
    [of "wr_bytes (wr_bytes (\<lambda>x. 0) 16 [65, 66]) 64 [67]" 16 "[65, 66]" 64 "[67]"]
  by (auto simp: wr_bytes_def disjoint_blocks_def)

text \<open>
  \<^verbatim>\<open>strcmp\<close> returns for every pair of NUL-terminated strings, answers 0 exactly for equal
  strings and is negative exactly when the first is lexicographically smaller as a sequence
  of unsigned bytes.
\<close>

theorem strcmp_orders:
  assumes "cstr m a s" "cstr m b t"
  shows "\<exists>r. strcmp m a b = Some r \<and> (r = 0 \<longleftrightarrow> s = t) \<and> (r < 0 \<longleftrightarrow> ord_class.lexordp s t)"
  using assms strcmp_cstr strdiff_zero strdiff_neg cstr_nonzero by blast

theorem strcmp_orders_witness:
  "\<exists>r. strcmp (wr_bytes (wr_bytes (\<lambda>x. 0) 16 [65, 66]) 64 [67]) 16 64 = Some r \<and> r < 0"
  using strcmp_orders
    [of "wr_bytes (wr_bytes (\<lambda>x. 0) 16 [65, 66]) 64 [67]" 16 "[65, 66]" 64 "[67]"]
  by (auto simp: wr_bytes_def)

text \<open>
  \<^verbatim>\<open>strncmp\<close> leaves EFLAGS.AC set on return, and thereby supervisor access to user pages
  enabled, exactly when it ran through all \<open>n\<close> bytes without finding a difference or a NUL.
\<close>

theorem strncmp_leaks_ac:
  "snd (strncmp m a b n) \<longleftrightarrow>
     rd_bytes m a n = rd_bytes m b n \<and> 0 \<notin> set (rd_bytes m a n)"
  by (auto simp: strncmp_prefix find_idx_None find_idx_Some rd_bytes_def
      split: option.splits)

end
