(* ===== verification/Bitset.thy ===== *)
theory Bitset
  imports Znu_Prelude
begin

text \<open>
  The bit arrays and bit arithmetic at the bottom of the buddy allocator
  (\<^verbatim>\<open>include/buddy.h\<close>). A bitset is its byte array, indexed by bucket; the range functions work
  on whole bytes with the mask tables of the source, and are shown to set, clear and count
  exactly the bits of the range. Sizes and positions are natural numbers: the allocator's
  values stay far below the width of \<^verbatim>\<open>size_t\<close>.
\<close>

section \<open>Definitions\<close>

type_synonym bitset = "nat \<Rightarrow> u8"

definition bitset_sizeof :: "nat \<Rightarrow> nat" where
  "bitset_sizeof elements = (elements + 8 - 1) div 8"

definition bitset_index_mask :: "u8 list" where
  "bitset_index_mask = [1, 2, 4, 8, 16, 32, 64, 128]"

definition bitset_set :: "bitset \<Rightarrow> nat \<Rightarrow> bitset" where
  "bitset_set bs pos = bs(pos div 8 := bs (pos div 8) OR bitset_index_mask ! (pos mod 8))"

definition bitset_clear :: "bitset \<Rightarrow> nat \<Rightarrow> bitset" where
  "bitset_clear bs pos = bs(pos div 8 := bs (pos div 8) AND NOT (bitset_index_mask ! (pos mod 8)))"

definition bitset_test :: "bitset \<Rightarrow> nat \<Rightarrow> bool" where
  "bitset_test bs pos \<longleftrightarrow> bs (pos div 8) AND bitset_index_mask ! (pos mod 8) \<noteq> 0"

definition bitset_char_mask :: "u8 list list" where
  "bitset_char_mask =
    [[1, 3, 7, 15, 31, 63, 127, 255],
     [0, 2, 6, 14, 30, 62, 126, 254],
     [0, 0, 4, 12, 28, 60, 124, 252],
     [0, 0, 0,  8, 24, 56, 120, 248],
     [0, 0, 0,  0, 16, 48, 112, 240],
     [0, 0, 0,  0,  0, 32,  96, 224],
     [0, 0, 0,  0,  0,  0,  64, 192],
     [0, 0, 0,  0,  0,  0,   0, 128]]"

record bitset_range =
  from_bucket :: nat
  to_bucket :: nat
  from_index :: nat
  to_index :: nat

definition to_bitset_range :: "nat \<Rightarrow> nat \<Rightarrow> bitset_range" where
  "to_bitset_range from_pos to_pos =
     \<lparr>from_bucket = from_pos div 8, to_bucket = to_pos div 8,
      from_index = from_pos mod 8, to_index = to_pos mod 8\<rparr>"

definition bitset_fill :: "bitset \<Rightarrow> nat \<Rightarrow> u8 \<Rightarrow> nat \<Rightarrow> bitset" where
  "bitset_fill bs start c n = for_upto n (\<lambda>i bs. bs(start + i := c)) bs"

definition bitset_set_range :: "bitset \<Rightarrow> bitset_range \<Rightarrow> bitset" where
  "bitset_set_range bs r =
     (if from_bucket r = to_bucket r
      then bs(from_bucket r := bs (from_bucket r) OR bitset_char_mask ! from_index r ! to_index r)
      else
        let bs1 = bs(from_bucket r := bs (from_bucket r) OR bitset_char_mask ! from_index r ! 7);
            bs2 = bs1(to_bucket r := bs1 (to_bucket r) OR bitset_char_mask ! 0 ! to_index r);
            fb = from_bucket r + 1
        in if to_bucket r - fb \<noteq> 0 then bitset_fill bs2 fb 255 (to_bucket r - fb) else bs2)"

definition bitset_clear_range :: "bitset \<Rightarrow> bitset_range \<Rightarrow> bitset" where
  "bitset_clear_range bs r =
     (if from_bucket r = to_bucket r
      then bs(from_bucket r := bs (from_bucket r) AND NOT (bitset_char_mask ! from_index r ! to_index r))
      else
        let bs1 = bs(from_bucket r := bs (from_bucket r) AND NOT (bitset_char_mask ! from_index r ! 7));
            bs2 = bs1(to_bucket r := bs1 (to_bucket r) AND NOT (bitset_char_mask ! 0 ! to_index r));
            fb = from_bucket r + 1
        in if to_bucket r - fb \<noteq> 0 then bitset_fill bs2 fb 0 (to_bucket r - fb) else bs2)"

definition popcount_lookup :: "nat list" where
  "popcount_lookup =
    [0,1,1,2,1,2,2,3,1,2,2,3,2,3,3,4,1,2,2,3,2,3,3,4,2,3,3,4,3,4,4,5,
     1,2,2,3,2,3,3,4,2,3,3,4,3,4,4,5,2,3,3,4,3,4,4,5,3,4,4,5,4,5,5,6,
     1,2,2,3,2,3,3,4,2,3,3,4,3,4,4,5,2,3,3,4,3,4,4,5,3,4,4,5,4,5,5,6,
     2,3,3,4,3,4,4,5,3,4,4,5,4,5,5,6,3,4,4,5,4,5,5,6,4,5,5,6,5,6,6,7,
     1,2,2,3,2,3,3,4,2,3,3,4,3,4,4,5,2,3,3,4,3,4,4,5,3,4,4,5,4,5,5,6,
     2,3,3,4,3,4,4,5,3,4,4,5,4,5,5,6,3,4,4,5,4,5,5,6,4,5,5,6,5,6,6,7,
     2,3,3,4,3,4,4,5,3,4,4,5,4,5,5,6,3,4,4,5,4,5,5,6,4,5,5,6,5,6,6,7,
     3,4,4,5,4,5,5,6,4,5,5,6,5,6,6,7,4,5,5,6,5,6,6,7,5,6,6,7,6,7,7,8]"

definition popcount_byte :: "u8 \<Rightarrow> nat" where
  "popcount_byte b = popcount_lookup ! unat b"

text \<open>The buckets strictly between the first and the last are counted whole.\<close>

definition bitset_count_range :: "bitset \<Rightarrow> bitset_range \<Rightarrow> nat" where
  "bitset_count_range bs r =
     (if from_bucket r = to_bucket r
      then popcount_byte (bs (from_bucket r) AND bitset_char_mask ! from_index r ! to_index r)
      else
        fold (\<lambda>b res. res + popcount_byte (bs b)) [Suc (from_bucket r)..<to_bucket r]
          (popcount_byte (bs (from_bucket r) AND bitset_char_mask ! from_index r ! 7)
           + popcount_byte (bs (to_bucket r) AND bitset_char_mask ! 0 ! to_index r)))"

definition lookup67 :: "int list" where
  "lookup67 =
    [64,  0,  1, 39,  2, 15, 40, 23,
      3, 12, 16, 59, 41, 19, 24, 54,
      4, -1, 13, 10, 17, 62, 60, 28,
     42, 30, 20, 51, 25, 44, 55, 47,
      5, 32, -1, 38, 14, 22, 11, 58,
     18, 53, 63,  9, 61, 27, 29, 50,
     43, 46, 31, 37, 21, 57, 52,  8,
     26, 49, 45, 36, 56,  7, 48, 35,
      6, 34, 33, -1]"

definition count_trailing_zeroes :: "nat \<Rightarrow> nat" where
  "count_trailing_zeroes val =
     (let w = of_nat val :: u64 in nat (lookup67 ! (unat (w AND - w) mod 67) mod 256))"

fun highest_bit_loop :: "(nat \<times> nat) list \<Rightarrow> nat \<Rightarrow> nat \<Rightarrow> nat" where
  "highest_bit_loop [] value res = res + value"
| "highest_bit_loop ((all_set, count) # rows) value res =
     (if value \<ge> all_set then highest_bit_loop rows (drop_bit count value) (res + count)
      else highest_bit_loop rows value res)"

definition highest_bit_position :: "nat \<Rightarrow> nat" where
  "highest_bit_position value =
     highest_bit_loop
       [(4294967295, 32), (65535, 16), (255, 8), (15, 4), (7, 2), (3, 1), (1, 1)] value 0"

definition two_to_the_power_of :: "nat \<Rightarrow> nat" where
  "two_to_the_power_of order = push_bit order 1"

definition ceiling_power_of_two :: "nat \<Rightarrow> nat" where
  "ceiling_power_of_two value =
     (let v = value + of_bool (value = 0)
      in two_to_the_power_of (highest_bit_position (v + v - 1) - 1))"

section \<open>Masks and bytes\<close>

lemma less_8_cases:
  "(i :: nat) < 8 \<Longrightarrow> i = 0 \<or> i = 1 \<or> i = 2 \<or> i = 3 \<or> i = 4 \<or> i = 5 \<or> i = 6 \<or> i = 7"
  by arith

lemma index_mask_eq: "i < 8 \<Longrightarrow> bitset_index_mask ! i = push_bit i 1"
  by (drule less_8_cases) (auto simp: bitset_index_mask_def)

lemma char_mask_eq:
  "bitset_char_mask = map (\<lambda>i. map (\<lambda>j. mask (Suc j) AND NOT (mask i)) [0..<8]) [0..<8]"
  by (simp add: bitset_char_mask_def upt_rec mask_eq_exp_minus_1)

lemma bit_char_mask:
  assumes "i < 8" "j < 8" "k < 8"
  shows "bit (bitset_char_mask ! i ! j) k \<longleftrightarrow> i \<le> k \<and> k \<le> j"
  using assms by (auto simp: char_mask_eq bit_and_iff bit_not_iff bit_mask_iff)

fun popcounts :: "nat \<Rightarrow> nat list" where
  "popcounts 0 = [0]"
| "popcounts (Suc k) = popcounts k @ map Suc (popcounts k)"

lemma popcount_lookup_eq: "popcount_lookup = popcounts 8"
proof -
  have "(8::nat) = Suc (Suc (Suc (Suc (Suc (Suc (Suc (Suc 0)))))))" by simp
  then show ?thesis by (simp only: popcounts.simps popcount_lookup_def) simp
qed

lemma length_popcounts [simp]: "length (popcounts k) = 2 ^ k"
  by (induction k) auto

lemma popcounts_nth: "n < 2 ^ k \<Longrightarrow> popcounts k ! n = card {j. j < k \<and> bit n j}"
proof (induction k arbitrary: n)
  case (Suc k)
  have low: "bit n k \<longleftrightarrow> 2 ^ k \<le> n"
    using Suc.prems by (auto simp: bit_iff_odd  div_greater_zero_iff)
      (metis bit_iff_odd bit_nat_def less_2_cases_iff less_mult_imp_div_less mult.commute odd_one One_nat_def div_greater_zero_iff neq0_conv even_zero)+
  show ?case
  proof (cases "n < 2 ^ k")
    case True
    then have "{j. j < Suc k \<and> bit n j} = {j. j < k \<and> bit n j}"
      using low by (auto simp: less_Suc_eq)
    with True Suc.IH [of n] show ?thesis by (simp add: nth_append)
  next
    case False
    define n' where "n' = n - 2 ^ k"
    have n: "n = n' + 2 ^ k" "n' < 2 ^ k" using False Suc.prems by (auto simp: n'_def)
    have "bit n j \<longleftrightarrow> bit n' j" if "j < k" for j
    proof -
      have "n = n' + 2 ^ (k - j) * 2 ^ j" using n(1) that by (simp add: power_add [symmetric])
      then have "n div 2 ^ j = 2 ^ (k - j) + n' div 2 ^ j" by simp
      then show ?thesis using that by (simp add: bit_iff_odd)
    qed
    then have "{j. j < Suc k \<and> bit n j} = insert k {j. j < k \<and> bit n' j}"
      using low False by (auto simp: less_Suc_eq)
    with n Suc.IH [of n'] show ?thesis by (simp add: nth_append)
  qed
qed simp

lemma popcount_byte_card: "popcount_byte b = card {k. k < 8 \<and> bit b k}"
  using unsigned_less [of b] popcounts_nth [of "unat b" 8]
  by (simp add: popcount_byte_def popcount_lookup_eq bit_unsigned_iff)

lemma bit_test: "bitset_test bs p \<longleftrightarrow> bit (bs (p div 8)) (p mod 8)"
  by (simp add: bitset_test_def index_mask_eq and_exp_eq_0_iff_not_bit push_bit_of_1)

section \<open>Range operations\<close>

lemma mod_8_le [simp]: "p mod 8 \<le> (7 :: nat)"
  using mod_less_divisor [of 8 p] by linarith

lemma bitset_fill_apply: "bitset_fill bs start c n b = (if start \<le> b \<and> b < start + n then c else bs b)"
proof (induction n)
  case (Suc n)
  then show ?case by (auto simp: bitset_fill_def for_upto_Suc less_Suc_eq)
qed (auto simp: bitset_fill_def)

lemma less_by_bytes:
  assumes "(f :: nat) div 8 < q div 8" shows "f < q"
  using assms by (meson div_le_mono linorder_not_less)

lemma le_by_bytes: "(f :: nat) \<le> q \<longleftrightarrow> f div 8 < q div 8 \<or> f div 8 = q div 8 \<and> f mod 8 \<le> q mod 8"
proof (cases "f div 8" "q div 8" rule: linorder_cases)
  case less
  then show ?thesis using less_by_bytes [OF less] by simp
next
  case equal
  then have "f = 8 * (q div 8) + f mod 8" by (metis mult_div_mod_eq)
  moreover have "q = 8 * (q div 8) + q mod 8" by simp
  ultimately show ?thesis using equal by linarith
next
  case greater
  then show ?thesis using less_by_bytes [OF greater] by simp
qed

lemma pos_range_split:
  assumes "f \<le> (t :: nat)"
  shows "f \<le> q \<and> q \<le> t \<longleftrightarrow>
    (if f div 8 = t div 8 then q div 8 = f div 8 \<and> f mod 8 \<le> q mod 8 \<and> q mod 8 \<le> t mod 8
     else q div 8 = f div 8 \<and> f mod 8 \<le> q mod 8 \<or> q div 8 = t div 8 \<and> q mod 8 \<le> t mod 8 \<or>
       f div 8 < q div 8 \<and> q div 8 < t div 8)"
  using assms unfolding le_by_bytes [of f t] le_by_bytes [of f q] le_by_bytes [of q t]
  by (auto split: if_splits)

lemma bit_full_byte: "bit (255 :: int) (p mod 8)"
  using bit_char_mask [of 0 7 "p mod 8"] by (simp add: bitset_char_mask_def)

lemma bitset_set_range_test:
  assumes "f \<le> t"
  shows "bitset_test (bitset_set_range bs (to_bitset_range f t)) q \<longleftrightarrow> (f \<le> q \<and> q \<le> t) \<or> bitset_test bs q"
proof -
  have "f div 8 \<le> t div 8" using assms by (simp add: div_le_mono)
  then show ?thesis
    unfolding pos_range_split [OF assms]
    by (auto simp: bit_test bitset_set_range_def to_bitset_range_def bitset_fill_apply Let_def
      bit_or_iff bit_char_mask bit_full_byte)
qed

lemma bitset_clear_range_test:
  assumes "f \<le> t"
  shows "bitset_test (bitset_clear_range bs (to_bitset_range f t)) q \<longleftrightarrow> \<not> (f \<le> q \<and> q \<le> t) \<and> bitset_test bs q"
proof -
  have "f div 8 \<le> t div 8" using assms by (simp add: div_le_mono)
  then show ?thesis
    unfolding pos_range_split [OF assms]
    by (auto simp: bit_test bitset_clear_range_def to_bitset_range_def bitset_fill_apply Let_def
      bit_and_iff bit_not_iff bit_char_mask)
qed

lemma card_byte: "card {q :: nat. q div 8 = b \<and> P (q mod 8)} = card {k. k < 8 \<and> P k}"
proof (rule bij_betw_same_card [of "\<lambda>q. q mod 8"], rule bij_betw_byWitness [where f' = "\<lambda>k. 8 * b + k"])
qed (auto simp: mult_div_mod_eq)

lemma finite_byte: "finite {q :: nat. q div 8 = b \<and> P q}"
  by (rule finite_subset [of _ "{..8 * b + 7}"]) auto

lemma popcount_masked:
  assumes "i < 8" "j < 8"
  shows "popcount_byte (bs b AND bitset_char_mask ! i ! j) =
    card {q. q div 8 = b \<and> (i \<le> q mod 8 \<and> q mod 8 \<le> j) \<and> bitset_test bs q}"
proof -
  have "{q. q div 8 = b \<and> (i \<le> q mod 8 \<and> q mod 8 \<le> j) \<and> bitset_test bs q} =
      {q. q div 8 = b \<and> ((i \<le> q mod 8 \<and> q mod 8 \<le> j) \<and> bit (bs b) (q mod 8))}"
    by (auto simp: bit_test)
  then show ?thesis
    using assms card_byte [of b "\<lambda>k. (i \<le> k \<and> k \<le> j) \<and> bit (bs b) k"]
    by (simp add: popcount_byte_card bit_and_iff bit_char_mask conj_ac cong: conj_cong)
qed

lemma count_middle:
  "fold (\<lambda>b r. r + popcount_byte (bs b)) [l..<u] r = r + card {q. l \<le> q div 8 \<and> q div 8 < u \<and> bitset_test bs q}"
proof (induction u)
  case (Suc u)
  show ?case
  proof (cases "l \<le> u")
    case True
    have "{q. l \<le> q div 8 \<and> q div 8 < Suc u \<and> bitset_test bs q} =
       {q. l \<le> q div 8 \<and> q div 8 < u \<and> bitset_test bs q} \<union> {q. q div 8 = u \<and> bitset_test bs q}"
      using True by auto
    moreover have "finite {q. l \<le> q div 8 \<and> q div 8 < u \<and> bitset_test bs q}"
      by (rule finite_subset [of _ "{..<8 * u}"]) auto
    moreover have "popcount_byte (bs u) = card {q. q div 8 = u \<and> bitset_test bs q}"
      using card_byte [of u "\<lambda>k. bit (bs u) k"] by (simp add: popcount_byte_card bit_test cong: conj_cong)
    ultimately show ?thesis using True Suc
      by (simp add: card_Un_disjoint finite_byte disjoint_iff)
  next
    case False
    then have none: "{q. l \<le> q div 8 \<and> q div 8 < Suc u \<and> bitset_test bs q} = {}" by auto
    show ?thesis unfolding none using False by simp
  qed
qed simp

lemma bitset_count_range_card:
  assumes "f \<le> t"
  shows "bitset_count_range bs (to_bitset_range f t) = card {q. f \<le> q \<and> q \<le> t \<and> bitset_test bs q}"
proof (cases "f div 8 = t div 8")
  case True
  have "f \<le> q \<and> q \<le> t \<and> bitset_test bs q \<longleftrightarrow>
     q div 8 = f div 8 \<and> (f mod 8 \<le> q mod 8 \<and> q mod 8 \<le> t mod 8) \<and> bitset_test bs q" for q
    using pos_range_split [OF assms, of q] True by simp argo
  with True show ?thesis
    by (simp add: bitset_count_range_def to_bitset_range_def popcount_masked)
next
  case False
  have lt: "f div 8 < t div 8" using False assms by (simp add: div_le_mono le_neq_implies_less)
  define A where "A = {q. q div 8 = f div 8 \<and> (f mod 8 \<le> q mod 8 \<and> q mod 8 \<le> 7) \<and> bitset_test bs q}"
  define B where "B = {q. q div 8 = t div 8 \<and> (0 \<le> q mod 8 \<and> q mod 8 \<le> t mod 8) \<and> bitset_test bs q}"
  define C where "C = {q. Suc (f div 8) \<le> q div 8 \<and> q div 8 < t div 8 \<and> bitset_test bs q}"
  have "q \<in> {q. f \<le> q \<and> q \<le> t \<and> bitset_test bs q} \<longleftrightarrow> q \<in> A \<union> B \<union> C" for q
    using pos_range_split [OF assms, of q] False by (simp add: A_def B_def C_def Suc_le_eq) argo
  then have "{q. f \<le> q \<and> q \<le> t \<and> bitset_test bs q} = A \<union> B \<union> C" by blast
  moreover have "finite A" "finite B" unfolding A_def B_def by (auto intro: finite_byte)
  moreover have "finite C" unfolding C_def by (rule finite_subset [of _ "{..<8 * (t div 8)}"]) auto
  moreover have "A \<inter> B = {}" "(A \<union> B) \<inter> C = {}" using False lt by (auto simp: A_def B_def C_def)
  ultimately have "card {q. f \<le> q \<and> q \<le> t \<and> bitset_test bs q} = card A + card B + card C"
    by (simp add: card_Un_disjoint)
  moreover have "bitset_count_range bs (to_bitset_range f t) = card A + card B + card C"
    using False popcount_masked [of "f mod 8" 7 bs "f div 8"] popcount_masked [of 0 "t mod 8" bs "t div 8"]
    by (simp add: bitset_count_range_def to_bitset_range_def count_middle A_def B_def C_def)
  ultimately show ?thesis by simp
qed

section \<open>Bit arithmetic\<close>

text \<open>The number of binary digits.\<close>

fun bitlen :: "nat \<Rightarrow> nat" where
  "bitlen v = (if v = 0 then 0 else Suc (bitlen (v div 2)))"

declare bitlen.simps [simp del]

lemma bitlen_0 [simp]: "bitlen 0 = 0"
  by (simp add: bitlen.simps)

lemma bitlen_pos: "v > 0 \<Longrightarrow> bitlen v = Suc (bitlen (v div 2))"
  by (simp add: bitlen.simps [of v])

lemma bitlen_bounds: "v > 0 \<Longrightarrow> 0 < bitlen v \<and> 2 ^ (bitlen v - 1) \<le> v \<and> v < 2 ^ bitlen v"
proof (induction v rule: bitlen.induct)
  case (1 v)
  show ?case
  proof (cases "v div 2 = 0")
    case True
    then have "v = 1" using "1.prems" by auto
    then show ?thesis by (simp add: bitlen_pos)
  next
    case False
    with 1 have IH: "2 ^ (bitlen (v div 2) - 1) \<le> v div 2" "v div 2 < 2 ^ bitlen (v div 2)"
        "0 < bitlen (v div 2)" by auto
    have b: "bitlen v = Suc (bitlen (v div 2))" using "1.prems" by (rule bitlen_pos)
    have "2 * 2 ^ (bitlen (v div 2) - 1) = (2 :: nat) ^ bitlen (v div 2)"
      using IH(3) by (metis power_minus_mult mult.commute)
    moreover have "v = 2 * (v div 2) + v mod 2" "v mod 2 < 2" by auto
    ultimately have "2 ^ bitlen (v div 2) \<le> v" "v < 2 * 2 ^ bitlen (v div 2)"
      using IH by linarith+
    with b show ?thesis by simp
  qed
qed

lemma bitlen_unique: "2 ^ k \<le> v \<Longrightarrow> v < 2 ^ Suc k \<Longrightarrow> bitlen v = Suc k"
proof -
  assume a: "2 ^ k \<le> v" "v < 2 ^ Suc k"
  then have "v > 0" by (metis gr0I not_less zero_less_numeral zero_less_power)
  note b = bitlen_bounds [OF this]
  have "(2 :: nat) ^ k < 2 ^ bitlen v" "(2 :: nat) ^ (bitlen v - 1) < 2 ^ Suc k"
    using a b by linarith+
  then have "k < bitlen v" "bitlen v - 1 < Suc k"
    by (auto simp: power_strict_increasing_iff simp del: power_Suc)
  then show ?thesis by linarith
qed

lemma bitlen_drop: "2 ^ c \<le> v \<Longrightarrow> bitlen v = c + bitlen (v div 2 ^ c)"
proof (induction c arbitrary: v)
  case (Suc c)
  then have "v > 0" by (metis gr0I not_less zero_less_numeral zero_less_power)
  moreover have "2 ^ c \<le> v div 2" using Suc.prems by auto
  ultimately show ?case using Suc.IH [of "v div 2"] by (simp add: bitlen_pos div_mult2_eq)
qed simp

lemma highest_bit_step:
  assumes "2 ^ c - 1 \<le> v" "0 < c"
  shows "bitlen v = c + bitlen (drop_bit c v)"
proof (cases "2 ^ c \<le> v")
  case True
  then show ?thesis by (simp add: bitlen_drop drop_bit_eq_div)
next
  case False
  then have v: "v = 2 ^ c - 1" using assms(1) by linarith
  obtain k where c: "c = Suc k" using assms(2) by (cases c) auto
  have "bitlen v = Suc k"
  proof (rule bitlen_unique)
    have "(1 :: nat) \<le> 2 ^ k" by simp
    then show "2 ^ k \<le> v" unfolding v c by simp
    show "v < 2 ^ Suc k" unfolding v c by simp
  qed
  moreover have "drop_bit c v = 0" using False by (simp add: drop_bit_eq_div)
  ultimately show ?thesis by (simp add: c)
qed

definition hb_step :: "nat \<times> nat \<Rightarrow> nat \<Rightarrow> nat" where
  "hb_step row v = (if v \<ge> fst row then drop_bit (snd row) v else v)"

lemma highest_bit_loop_bitlen:
  assumes "\<forall>(a, c) \<in> set rows. 2 ^ c - 1 \<le> a \<and> 0 < c"
  shows "\<exists>v'. highest_bit_loop rows v r = r + (bitlen v - bitlen v') + v' \<and> bitlen v' \<le> bitlen v \<and>
    v' = fold hb_step rows v"
  using assms
proof (induction rows arbitrary: v r)
  case (Cons row rows)
  obtain a c where row: "row = (a, c)" by fastforce
  show ?case
  proof (cases "a \<le> v")
    case True
    have "bitlen v = c + bitlen (drop_bit c v)"
      using Cons.prems True row by (intro highest_bit_step) auto
    then show ?thesis using Cons.IH [of "drop_bit c v" "r + c"] Cons.prems True row
      by (auto simp: hb_step_def)
  next
    case False
    then show ?thesis using Cons.IH [of v r] Cons.prems False row by (auto simp: hb_step_def)
  qed
qed auto

lemma highest_bit_position_bitlen:
  assumes "v < 2 ^ 64"
  shows "highest_bit_position v = bitlen v"
proof -
  define v1 where "v1 = hb_step (4294967295, 32) v"
  define v2 where "v2 = hb_step (65535, 16) v1"
  define v3 where "v3 = hb_step (255, 8) v2"
  define v4 where "v4 = hb_step (15, 4) v3"
  define v5 where "v5 = hb_step (7, 2) v4"
  define v6 where "v6 = hb_step (3, 1) v5"
  define v7 where "v7 = hb_step (1, 1) v6"
  have "v1 < 4294967296" using assms by (auto simp: v1_def hb_step_def drop_bit_eq_div)
  then have "v2 < 65536" by (auto simp: v2_def hb_step_def drop_bit_eq_div)
  then have "v3 < 256" by (auto simp: v3_def hb_step_def drop_bit_eq_div)
  then have "v4 < 16" by (auto simp: v4_def hb_step_def drop_bit_eq_div)
  then have "v5 < 7" by (auto simp: v5_def hb_step_def drop_bit_eq_div)
  then have "v6 < 4" by (auto simp: v6_def hb_step_def drop_bit_eq_div)
  then have v7: "v7 < 2" by (auto simp: v7_def hb_step_def drop_bit_eq_div)
  have "\<forall>(a, c) \<in> set [(4294967295, 32), (65535, 16), (255, 8), (15, 4), (7, 2), (3, 1), (1, 1 :: nat)].
      (2 :: nat) ^ c - 1 \<le> a \<and> 0 < c" by simp
  from highest_bit_loop_bitlen [OF this, of v 0]
  have "highest_bit_position v = (bitlen v - bitlen v7) + v7" "bitlen v7 \<le> bitlen v"
    by (simp_all add: highest_bit_position_def v1_def v2_def v3_def v4_def v5_def v6_def v7_def
      del: highest_bit_loop.simps)
  moreover have "bitlen v7 = v7" using v7 by (auto simp: less_2_cases_iff bitlen_pos)
  ultimately show ?thesis by simp
qed

lemma ceiling_power_of_two_bounds:
  assumes "0 < v" "v \<le> 2 ^ 63"
  obtains k where "ceiling_power_of_two v = 2 ^ k" "v \<le> 2 ^ k" "2 ^ k < 2 * v" "k \<le> 63"
proof -
  define w where "w = v + v - 1"
  have w: "0 < w" "w < 2 ^ 64" using assms by (auto simp: w_def)
  have c: "ceiling_power_of_two v = 2 ^ (bitlen w - 1)"
    using assms highest_bit_position_bitlen [OF w(2)]
    by (simp add: ceiling_power_of_two_def two_to_the_power_of_def w_def Let_def push_bit_eq_mult)
  have b: "0 < bitlen w" "2 ^ (bitlen w - 1) \<le> w" "w < 2 * 2 ^ (bitlen w - 1)"
    using bitlen_bounds [OF w(1)] by (auto simp flip: power_Suc)
  have "(2 :: nat) ^ (bitlen w - 1) < 2 ^ 64" using b(2) w(2) by linarith
  then have "bitlen w - 1 < 64" by (rule power_less_imp_less_exp [rotated]) simp
  moreover have "v \<le> 2 ^ (bitlen w - 1)" "2 ^ (bitlen w - 1) < 2 * v"
    using b assms(1) unfolding w_def by linarith+
  ultimately show thesis using that [OF c] by simp
qed

lemma ceiling_power_of_two_exact: "k \<le> 62 \<Longrightarrow> ceiling_power_of_two (2 ^ k) = 2 ^ k"
proof -
  assume k: "k \<le> 62"
  have "(2 :: nat) ^ k \<le> 2 ^ 63" using k by (intro power_increasing) auto
  then obtain j where j: "ceiling_power_of_two (2 ^ k) = 2 ^ j" "(2 :: nat) ^ k \<le> 2 ^ j" "(2 :: nat) ^ j < 2 * 2 ^ k"
    using ceiling_power_of_two_bounds [of "2 ^ k"] by auto
  then have "k \<le> j" "j < Suc k" by (auto simp flip: power_Suc)
  with j show ?thesis by (simp add: le_antisym)
qed

lemma count_trailing_zeroes_power:
  assumes "k < 64"
  shows "count_trailing_zeroes (2 ^ k) = k"
proof -
  have "\<forall>k \<in> set [0..<64]. lookup67 ! (2 ^ k mod 67) = int k"
    by (simp add: lookup67_def upt_rec)
  then have l: "lookup67 ! (2 ^ k mod 67) = int k" using assms by simp
  have neg: "(2 ^ k :: u64) AND - (2 ^ k) = 2 ^ k"
    by (rule bit_word_eqI) (auto simp: bit_and_iff bit_exp_iff bit_minus_exp_iff)
  have "unat (of_nat (2 ^ k) :: u64) = 2 ^ k"
  proof -
    have "(2 :: nat) ^ k < 2 ^ 64" using assms by (intro power_strict_increasing) auto
    then show ?thesis by (simp add: unat_of_nat take_bit_nat_eq_self del: of_nat_power)
  qed
  then have "unat (2 ^ k :: u64) = 2 ^ k" by simp
  then show ?thesis
    using assms l by (simp add: count_trailing_zeroes_def neg Let_def)
qed

end
