(* ===== verification/Buddy_Tree.thy ===== *)
theory Buddy_Tree
  imports Bitset
begin

text \<open>
  The buddy allocation tree of \<^verbatim>\<open>include/buddy.h\<close>. A tree of order \<open>N\<close> has the positions
  \<open>1, \<dots>, 2\<^sup>N - 1\<close>, numbered as in a heap. The position at depth \<open>d\<close> owns a field of
  \<open>N - d + 1\<close> bits that holds its status in unary: 0 is free, the full length is completely
  used, anything between says how many levels down the largest free slot is.

  The tree structure and the two arrays behind it in memory (the bit array and the table of
  row offsets) are fields of a record; \<^verbatim>\<open>uint8_t\<close> loop counters are 8-bit words. The upward
  walk \<^verbatim>\<open>update_parent_chain\<close> and the search \<^verbatim>\<open>buddy_tree_find_free\<close> are loops that need not
  end on every input, hence partial functions; they are shown to return.
\<close>

section \<open>Definitions\<close>

record buddy_tree_pos =
  pos_index :: nat
  pos_depth :: nat

definition INVALID_POS :: buddy_tree_pos where
  "INVALID_POS = \<lparr>pos_index = 0, pos_depth = 0\<rparr>"

record buddy_tree =
  upper_pos_bound :: nat
  tree_order :: nat
  tree_bits :: bitset
  size_for_order_table :: "nat \<Rightarrow> nat"

record internal_position =
  local_offset :: nat
  bitset_location :: nat

lemma u8_pred_less: "x \<noteq> 0 \<Longrightarrow> unat (x - 1) < unat (x :: u8)"
proof -
  assume "x \<noteq> 0"
  then have pos: "0 < unat x" by (simp add: unat_gt_0)
  then have "unat (x - 1) = unat x - 1" by (subst unat_sub) (auto simp: word_le_nat_alt)
  with pos show ?thesis by simp
qed

lemma u8_countdown: "order \<noteq> to \<Longrightarrow> unat (order - 1 - to) < unat (order - to :: u8)"
  using u8_pred_less [of "order - to"] by (simp add: algebra_simps)

function size_for_order_loop :: "u8 \<Rightarrow> u8 \<Rightarrow> nat \<Rightarrow> nat \<Rightarrow> nat" where
  "size_for_order_loop order to res multi =
     (if order = to then res
      else size_for_order_loop (order - 1) to (res + unat order * multi) (multi * 2))"
  by pat_completeness auto
termination
  by (relation "measure (\<lambda>(order, to, res, multi). unat (order - to))") (auto simp: u8_countdown)

definition size_for_order :: "nat \<Rightarrow> nat \<Rightarrow> nat" where
  "size_for_order order to = size_for_order_loop (of_nat order) (of_nat to) 0 1"

definition buddy_tree_index_internal :: "buddy_tree_pos \<Rightarrow> nat" where
  "buddy_tree_index_internal pos = unset_bit (pos_depth pos - 1) (pos_index pos)"

definition buddy_tree_size_for_order :: "buddy_tree \<Rightarrow> nat \<Rightarrow> nat" where
  "buddy_tree_size_for_order t to = size_for_order_table t to"

definition buddy_tree_internal_position_tree :: "buddy_tree \<Rightarrow> buddy_tree_pos \<Rightarrow> internal_position" where
  "buddy_tree_internal_position_tree t pos =
     (let lo = tree_order t - pos_depth pos + 1;
          total_offset = buddy_tree_size_for_order t lo;
          local_index = buddy_tree_index_internal pos
      in \<lparr>local_offset = lo, bitset_location = total_offset + lo * local_index\<rparr>)"

definition buddy_tree_sizeof :: "nat \<Rightarrow> nat" where
  "buddy_tree_sizeof order =
     (let bitset_size = bitset_sizeof (size_for_order order 0);
          bitset_size' = (if bitset_size mod 8 \<noteq> 0 then bitset_size + bitset_size mod 8 else bitset_size)
      in 24 + bitset_size' + (order + 2) * 8)"

definition buddy_tree_populate_size_for_order :: "buddy_tree \<Rightarrow> buddy_tree" where
  "buddy_tree_populate_size_for_order t =
     for_upto (Suc (tree_order t))
       (\<lambda>i t. t\<lparr>size_for_order_table := (size_for_order_table t)(i := size_for_order (tree_order t) i)\<rparr>) t"

definition buddy_tree_init :: "nat \<Rightarrow> buddy_tree" where
  "buddy_tree_init order =
     buddy_tree_populate_size_for_order
       \<lparr>upper_pos_bound = two_to_the_power_of order, tree_order = order,
        tree_bits = (\<lambda>_. 0), size_for_order_table = (\<lambda>_. 0)\<rparr>"

definition buddy_tree_valid :: "buddy_tree \<Rightarrow> buddy_tree_pos \<Rightarrow> bool" where
  "buddy_tree_valid t pos \<longleftrightarrow> pos_index pos \<noteq> 0 \<and> pos_index pos < upper_pos_bound t"

definition buddy_tree_root :: buddy_tree_pos where
  "buddy_tree_root = \<lparr>pos_index = 1, pos_depth = 1\<rparr>"

definition buddy_tree_leftmost_child :: "buddy_tree \<Rightarrow> buddy_tree_pos" where
  "buddy_tree_leftmost_child t =
     \<lparr>pos_index = two_to_the_power_of (tree_order t - 1), pos_depth = tree_order t\<rparr>"

definition buddy_tree_left_child :: "buddy_tree_pos \<Rightarrow> buddy_tree_pos" where
  "buddy_tree_left_child pos = \<lparr>pos_index = pos_index pos * 2, pos_depth = pos_depth pos + 1\<rparr>"

definition buddy_tree_right_child :: "buddy_tree_pos \<Rightarrow> buddy_tree_pos" where
  "buddy_tree_right_child pos = \<lparr>pos_index = pos_index pos * 2 + 1, pos_depth = pos_depth pos + 1\<rparr>"

definition buddy_tree_sibling :: "buddy_tree_pos \<Rightarrow> buddy_tree_pos" where
  "buddy_tree_sibling pos = pos\<lparr>pos_index := pos_index pos XOR 1\<rparr>"

definition buddy_tree_parent :: "buddy_tree_pos \<Rightarrow> buddy_tree_pos" where
  "buddy_tree_parent pos = \<lparr>pos_index = pos_index pos div 2, pos_depth = pos_depth pos - 1\<rparr>"

definition write_to_internal_position :: "buddy_tree \<Rightarrow> internal_position \<Rightarrow> nat \<Rightarrow> buddy_tree" where
  "write_to_internal_position t pos value =
     (let bits = bitset_clear_range (tree_bits t)
            (to_bitset_range (bitset_location pos) (bitset_location pos + local_offset pos - 1))
      in t\<lparr>tree_bits := if value \<noteq> 0
           then bitset_set_range bits (to_bitset_range (bitset_location pos) (bitset_location pos + value - 1))
           else bits\<rparr>)"

definition read_from_internal_position :: "bitset \<Rightarrow> internal_position \<Rightarrow> nat" where
  "read_from_internal_position bs pos =
     (if \<not> bitset_test bs (bitset_location pos) then 0
      else bitset_count_range bs
        (to_bitset_range (bitset_location pos) (bitset_location pos + local_offset pos - 1)))"

definition compare_with_internal_position :: "bitset \<Rightarrow> internal_position \<Rightarrow> nat \<Rightarrow> bool" where
  "compare_with_internal_position bs pos value = bitset_test bs (bitset_location pos + value - 1)"

definition buddy_tree_status :: "buddy_tree \<Rightarrow> buddy_tree_pos \<Rightarrow> nat" where
  "buddy_tree_status t pos =
     read_from_internal_position (tree_bits t) (buddy_tree_internal_position_tree t pos)"

text \<open>
  Adding \<^verbatim>\<open>local_offset - 2 * local_offset * (index & 1)\<close> in wrap-around arithmetic moves to
  the sibling's field: one field forward from an even index, one back from an odd one.
\<close>

partial_function (option) update_parent_chain ::
    "buddy_tree \<Rightarrow> buddy_tree_pos \<Rightarrow> internal_position \<Rightarrow> nat \<Rightarrow> buddy_tree option" where
  "update_parent_chain t pos pos_internal size_current =
     (if pos_index pos = 1 then Some t
      else
        let sibling = pos_internal\<lparr>bitset_location :=
              bitset_location pos_internal + local_offset pos_internal
                - 2 * local_offset pos_internal * (pos_index pos mod 2)\<rparr>;
            size_sibling = read_from_internal_position (tree_bits t) sibling;
            pos' = buddy_tree_parent pos;
            parent = buddy_tree_internal_position_tree t pos';
            size_parent = read_from_internal_position (tree_bits t) parent;
            target_parent = of_bool (size_current \<noteq> 0 \<or> size_sibling \<noteq> 0)
              * ((if size_current \<le> size_sibling then size_current else size_sibling) + 1)
        in if target_parent = size_parent then Some t
           else update_parent_chain (write_to_internal_position t parent target_parent) pos' parent target_parent)"

definition buddy_tree_mark :: "buddy_tree \<Rightarrow> buddy_tree_pos \<Rightarrow> buddy_tree option" where
  "buddy_tree_mark t pos =
     (let internal = buddy_tree_internal_position_tree t pos
      in update_parent_chain (write_to_internal_position t internal (local_offset internal))
           pos internal (local_offset internal))"

datatype buddy_tree_release_status =
  BUDDY_TREE_RELEASE_SUCCESS | BUDDY_TREE_RELEASE_FAIL_PARTIALLY_USED

definition buddy_tree_release ::
    "buddy_tree \<Rightarrow> buddy_tree_pos \<Rightarrow> (buddy_tree_release_status \<times> buddy_tree) option" where
  "buddy_tree_release t pos =
     (let internal = buddy_tree_internal_position_tree t pos
      in if read_from_internal_position (tree_bits t) internal \<noteq> local_offset internal
         then Some (BUDDY_TREE_RELEASE_FAIL_PARTIALLY_USED, t)
         else map_option (Pair BUDDY_TREE_RELEASE_SUCCESS)
           (update_parent_chain (write_to_internal_position t internal 0) pos internal 0))"

text \<open>The child to descend into, as the body of the search loop selects it.\<close>

definition find_free_child :: "buddy_tree \<Rightarrow> buddy_tree_pos \<Rightarrow> nat \<Rightarrow> buddy_tree_pos" where
  "find_free_child t current_pos target_status =
     (let left_pos = buddy_tree_left_child current_pos;
          right_pos = buddy_tree_sibling left_pos;
          left_internal = buddy_tree_internal_position_tree t left_pos;
          right_internal = left_internal\<lparr>bitset_location :=
            bitset_location left_internal + local_offset left_internal\<rparr>
      in if compare_with_internal_position (tree_bits t) left_internal (target_status + 1) then right_pos
         else if compare_with_internal_position (tree_bits t) right_internal (target_status + 1) then left_pos
         else
           let right_status = read_from_internal_position (tree_bits t) right_internal
           in if right_status \<noteq> 0
              then if compare_with_internal_position (tree_bits t) left_internal right_status
                   then left_pos else right_pos
              else left_pos)"

partial_function (option) find_free_loop ::
    "buddy_tree \<Rightarrow> nat \<Rightarrow> buddy_tree_pos \<Rightarrow> nat \<Rightarrow> nat \<Rightarrow> buddy_tree_pos option" where
  "find_free_loop t target_depth current_pos target_status current_depth =
     (if current_depth = target_depth then Some current_pos
      else find_free_loop t target_depth (find_free_child t current_pos (target_status - 1))
             (target_status - 1) (current_depth + 1))"

definition buddy_tree_find_free :: "buddy_tree \<Rightarrow> nat \<Rightarrow> buddy_tree_pos option" where
  "buddy_tree_find_free t target_depth =
     (if buddy_tree_status t buddy_tree_root > target_depth - 1 then Some INVALID_POS
      else find_free_loop t target_depth buddy_tree_root (target_depth - 1)
             (pos_depth buddy_tree_root))"

declare size_for_order_loop.simps [simp del]

section \<open>The layout of the fields\<close>

text \<open>The number of status bits of a position, and where its field starts.\<close>

definition field_len :: "nat \<Rightarrow> nat \<Rightarrow> nat" where
  "field_len N i = N + 1 - bitlen i"

definition field_at :: "nat \<Rightarrow> nat \<Rightarrow> nat" where
  "field_at N i = (\<Sum>j\<in>{1..<i}. field_len N j)"

definition node :: "nat \<Rightarrow> nat \<Rightarrow> bool" where
  "node N i \<longleftrightarrow> 0 < i \<and> i < 2 ^ N"

definition pos_of :: "nat \<Rightarrow> buddy_tree_pos" where
  "pos_of i = \<lparr>pos_index = i, pos_depth = bitlen i\<rparr>"

definition tree_ok :: "nat \<Rightarrow> buddy_tree \<Rightarrow> bool" where
  "tree_ok N t \<longleftrightarrow> 0 < N \<and> N < 64 \<and> tree_order t = N \<and> upper_pos_bound t = 2 ^ N \<and>
     (\<forall>i \<le> N. size_for_order_table t i = size_for_order N i)"

lemma bitlen_le: "node N i \<Longrightarrow> bitlen i \<le> N"
proof -
  assume n: "node N i"
  then have "2 ^ (bitlen i - 1) \<le> i" "i < 2 ^ N" using bitlen_bounds [of i] by (auto simp: node_def)
  then have "(2 :: nat) ^ (bitlen i - 1) < 2 ^ N" by linarith
  then have "bitlen i - 1 < N" by (rule power_less_imp_less_exp [rotated]) simp
  then show ?thesis by linarith
qed

lemma bitlen_gt_0 [simp]: "0 < bitlen i \<longleftrightarrow> 0 < i"
  using bitlen_bounds [of i] by (cases "i = 0") auto

lemma bitlen_double: "0 < i \<Longrightarrow> bitlen (2 * i) = Suc (bitlen i)" "0 < i \<Longrightarrow> bitlen (Suc (2 * i)) = Suc (bitlen i)"
  by (simp_all add: bitlen_pos)

lemma bitlen_half: "1 < i \<Longrightarrow> bitlen i = Suc (bitlen (i div 2))"
  by (simp add: bitlen_pos)

lemma field_len_pos: "node N i \<Longrightarrow> 0 < field_len N i"
  using bitlen_le [of N i] by (simp add: field_len_def)

lemma field_at_Suc: "0 < i \<Longrightarrow> field_at N (Suc i) = field_at N i + field_len N i"
  by (cases i) (simp_all add: field_at_def)

lemma field_at_mono: "0 < i \<Longrightarrow> i < j \<Longrightarrow> field_at N i + field_len N i \<le> field_at N j"
proof (induction j)
  case (Suc j)
  show ?case
  proof (cases "i = j")
    case False
    then have "field_at N i + field_len N i \<le> field_at N j" using Suc by simp
    moreover have "field_at N (Suc j) = field_at N j + field_len N j"
      using Suc.prems by (intro field_at_Suc) simp
    ultimately show ?thesis by simp
  qed (use Suc.prems in \<open>simp add: field_at_Suc\<close>)
qed simp

lemma fields_disjoint:
  assumes "0 < i" "0 < j" "i \<noteq> j" "k < field_len N i" "l < field_len N j"
  shows "field_at N i + k \<noteq> field_at N j + l"
  using field_at_mono [of i j N] field_at_mono [of j i N] assms by (cases "i < j") auto

lemma size_for_order_loop_sum:
  "to + n \<le> 255 \<Longrightarrow> size_for_order_loop (of_nat (to + n)) (of_nat to) r m =
     r + m * (\<Sum>k<n. (to + n - k) * 2 ^ k)"
proof (induction n arbitrary: r m)
  case 0
  then show ?case by (simp add: size_for_order_loop.simps)
next
  case (Suc n)
  have u: "unat (of_nat (to + Suc n) :: u8) = to + Suc n"
    using Suc.prems by (simp add: unat_of_nat take_bit_nat_eq_self del: of_nat_add of_nat_Suc)
  moreover have "unat (of_nat to :: u8) = to"
    using Suc.prems by (simp add: unat_of_nat take_bit_nat_eq_self)
  ultimately have "unat (of_nat (to + Suc n) :: u8) \<noteq> unat (of_nat to :: u8)" by linarith
  then have ne: "(of_nat (to + Suc n) :: u8) \<noteq> of_nat to" by (rule contrapos_nn) (rule arg_cong)
  have prev: "of_nat (to + Suc n) - 1 = (of_nat (to + n) :: u8)" by simp
  have "size_for_order_loop (of_nat (to + Suc n)) (of_nat to) r m =
      size_for_order_loop (of_nat (to + n)) (of_nat to) (r + (to + Suc n) * m) (m * 2)"
    unfolding size_for_order_loop.simps [of "of_nat (to + Suc n)"] using ne u prev by simp
  also have "\<dots> = r + (to + Suc n) * m + m * 2 * (\<Sum>k<n. (to + n - k) * 2 ^ k)"
    using Suc.prems by (intro Suc.IH) simp
  also have "\<dots> = r + m * (\<Sum>k<Suc n. (to + Suc n - k) * 2 ^ k)"
    by (subst sum.lessThan_Suc_shift) (simp add: algebra_simps sum_distrib_left)
  finally show ?case .
qed

lemma field_at_row: "k \<le> N \<Longrightarrow> field_at N (2 ^ k) = (\<Sum>j<k. (N - j) * 2 ^ j)"
proof (induction k)
  case 0
  then show ?case by (simp add: field_at_def)
next
  case (Suc k)
  have "field_at N (2 ^ k + r) = field_at N (2 ^ k) + r * (N - k)" if "r \<le> 2 ^ k" for r
    using that
  proof (induction r)
    case (Suc r)
    have "bitlen (2 ^ k + r) = Suc k" using Suc.prems by (intro bitlen_unique) auto
    then show ?case using Suc by (simp add: field_at_Suc field_len_def)
  qed simp
  from this [of "2 ^ k"] show ?case using Suc by (simp add: mult_2 algebra_simps)
qed

lemma field_at_in_row:
  assumes "2 ^ k \<le> i" "i < 2 ^ Suc k" "k \<le> N"
  shows "field_at N i = (\<Sum>j<k. (N - j) * 2 ^ j) + (i - 2 ^ k) * (N - k)"
proof -
  have "field_at N (2 ^ k + r) = field_at N (2 ^ k) + r * (N - k)" if "r < 2 ^ k" for r
    using that
  proof (induction r)
    case (Suc r)
    have "bitlen (2 ^ k + r) = Suc k" using Suc.prems by (intro bitlen_unique) auto
    then show ?case using Suc by (simp add: field_at_Suc field_len_def)
  qed simp
  from this [of "i - 2 ^ k"] show ?thesis using assms by (simp add: field_at_row)
qed

lemma unset_top_bit: "2 ^ d \<le> i \<Longrightarrow> i < 2 ^ Suc d \<Longrightarrow> unset_bit d i = (i - 2 ^ d :: nat)"
proof (induction d arbitrary: i)
  case (Suc d)
  have "2 ^ d \<le> i div 2" "i div 2 < 2 ^ Suc d" using Suc.prems by auto
  then have "unset_bit (Suc d) i = i mod 2 + 2 * (i div 2 - 2 ^ d)"
    by (simp add: unset_bit_Suc Suc.IH)
  also have "\<dots> = i - 2 ^ Suc d"
    using \<open>2 ^ d \<le> i div 2\<close> by (simp add: diff_mult_distrib2)
  finally show ?case .
qed (auto simp: unset_bit_0)

lemma internal_position:
  assumes "tree_ok N t" "node N i"
  shows "buddy_tree_internal_position_tree t (pos_of i) =
    \<lparr>local_offset = field_len N i, bitset_location = field_at N i\<rparr>"
proof -
  obtain d where d: "bitlen i = Suc d"
    using assms(2) bitlen_pos [of i] by (auto simp: node_def)
  have dN: "Suc d \<le> N" using bitlen_le [OF assms(2)] d by simp
  have b: "2 ^ d \<le> i" "i < 2 ^ Suc d" using bitlen_bounds [of i] assms(2) d by (auto simp: node_def)
  have idx: "unset_bit d i = i - 2 ^ d" using b by (rule unset_top_bit)
  have "size_for_order N (N - d) = (\<Sum>k<d. (N - k) * 2 ^ k)"
    using size_for_order_loop_sum [of "N - d" d 0 1] assms(1) dN
    by (simp add: size_for_order_def tree_ok_def)
  moreover have "size_for_order_table t (N - d) = size_for_order N (N - d)"
    using assms(1) by (simp add: tree_ok_def)
  moreover have "N - Suc d + 1 = N - d" using dN by simp
  ultimately show ?thesis
    using assms(1) field_at_in_row [OF b] dN d idx
    by (simp add: buddy_tree_internal_position_tree_def buddy_tree_index_internal_def pos_of_def
        buddy_tree_size_for_order_def field_len_def tree_ok_def Let_def)
qed

section \<open>Statuses\<close>

text \<open>
  A tree represents a status function when every field is the unary code of its position's
  status.
\<close>

definition represents :: "nat \<Rightarrow> buddy_tree \<Rightarrow> (nat \<Rightarrow> nat) \<Rightarrow> bool" where
  "represents N t st \<longleftrightarrow> tree_ok N t \<and>
     (\<forall>i. node N i \<longrightarrow> st i \<le> field_len N i \<and>
        (\<forall>k < field_len N i. bitset_test (tree_bits t) (field_at N i + k) \<longleftrightarrow> k < st i))"

lemma represents_ok: "represents N t st \<Longrightarrow> tree_ok N t"
  and represents_le: "represents N t st \<Longrightarrow> node N i \<Longrightarrow> st i \<le> field_len N i"
  and represents_bit: "represents N t st \<Longrightarrow> node N i \<Longrightarrow> k < field_len N i \<Longrightarrow>
    bitset_test (tree_bits t) (field_at N i + k) \<longleftrightarrow> k < st i"
  by (auto simp: represents_def)

lemma read_field:
  assumes "represents N t st" "node N i"
  shows "read_from_internal_position (tree_bits t)
    \<lparr>local_offset = field_len N i, bitset_location = field_at N i\<rparr> = st i"
proof -
  note bit = represents_bit [OF assms]
  have pos: "0 < field_len N i" by (rule field_len_pos [OF assms(2)])
  have "{q. field_at N i \<le> q \<and> q \<le> field_at N i + field_len N i - 1 \<and> bitset_test (tree_bits t) q} =
      (\<lambda>k. field_at N i + k) ` {..<st i}" (is "?L = ?R")
  proof
    show "?L \<subseteq> ?R"
    proof
      fix q assume q: "q \<in> ?L"
      then have "q - field_at N i < field_len N i" "q = field_at N i + (q - field_at N i)"
        using pos by auto
      with q bit [of "q - field_at N i"] show "q \<in> ?R" by auto
    qed
    show "?R \<subseteq> ?L"
      using represents_le [OF assms] bit by auto
  qed
  moreover have "field_at N i \<le> field_at N i + field_len N i - 1" using pos by simp
  ultimately have "bitset_count_range (tree_bits t)
      (to_bitset_range (field_at N i) (field_at N i + field_len N i - 1)) = st i"
    by (simp add: bitset_count_range_card card_image)
  moreover have "bitset_test (tree_bits t) (field_at N i) \<longleftrightarrow> 0 < st i"
    using bit [of 0] pos by simp
  ultimately show ?thesis by (simp add: read_from_internal_position_def)
qed

lemma compare_field:
  assumes "represents N t st" "node N i" "0 < v" "v \<le> field_len N i"
  shows "compare_with_internal_position (tree_bits t)
    \<lparr>local_offset = field_len N i, bitset_location = field_at N i\<rparr> v \<longleftrightarrow> v \<le> st i"
proof -
  have "field_at N i + v - 1 = field_at N i + (v - 1)" using assms(3) by simp
  then show ?thesis
    using represents_bit [OF assms(1,2), of "v - 1"] assms(3,4)
    by (simp add: compare_with_internal_position_def del: One_nat_def) linarith
qed

lemma tree_ok_bits [simp]: "tree_ok N (t\<lparr>tree_bits := b\<rparr>) \<longleftrightarrow> tree_ok N t"
  by (simp add: tree_ok_def)

lemma write_field:
  assumes "represents N t st" "node N i" "v \<le> field_len N i"
  shows "represents N (write_to_internal_position t
    \<lparr>local_offset = field_len N i, bitset_location = field_at N i\<rparr> v) (st(i := v))"
proof -
  let ?t = "write_to_internal_position t \<lparr>local_offset = field_len N i, bitset_location = field_at N i\<rparr> v"
  have pos: "0 < field_len N i" by (rule field_len_pos [OF assms(2)])
  have bits: "bitset_test (tree_bits ?t) q \<longleftrightarrow>
      (if field_at N i \<le> q \<and> q < field_at N i + field_len N i then q < field_at N i + v
       else bitset_test (tree_bits t) q)" for q
  proof -
    have "field_at N i \<le> field_at N i + field_len N i - 1"
      "v \<noteq> 0 \<Longrightarrow> field_at N i \<le> field_at N i + v - 1" using pos by auto
    then show ?thesis using assms(3) pos
      by (auto simp: write_to_internal_position_def Let_def bitset_clear_range_test bitset_set_range_test)
  qed
  have "bitset_test (tree_bits ?t) (field_at N j + k) \<longleftrightarrow> k < (st(i := v)) j"
    if j: "node N j" "k < field_len N j" for j k
  proof (cases "j = i")
    case True
    then show ?thesis using j by (simp add: bits)
  next
    case False
    have "\<not> (field_at N i \<le> field_at N j + k \<and> field_at N j + k < field_at N i + field_len N i)"
    proof
      assume in_i: "field_at N i \<le> field_at N j + k \<and> field_at N j + k < field_at N i + field_len N i"
      then obtain l where l: "field_at N j + k = field_at N i + l" "l < field_len N i"
        by (metis le_Suc_ex nat_add_left_cancel_less)
      with fields_disjoint [of i j l N k] False j assms(2) show False by (auto simp: node_def)
    qed
    with represents_bit [OF assms(1) j] False show ?thesis by (auto simp add: bits)
  qed
  moreover have "tree_ok N ?t"
    using represents_ok [OF assms(1)] by (simp add: write_to_internal_position_def Let_def)
  ultimately show ?thesis
    using represents_le [OF assms(1)] assms(3) by (simp add: represents_def)
qed

section \<open>The tree invariant\<close>

text \<open>
  What \<^verbatim>\<open>buddy_tree_check_invariant\<close> checks at a position with children, and that statuses fit
  their fields.
\<close>

definition children_status :: "nat \<Rightarrow> nat \<Rightarrow> nat" where
  "children_status a b = (if a = 0 \<and> b = 0 then 0 else min a b + 1)"

definition consistent :: "nat \<Rightarrow> (nat \<Rightarrow> nat) \<Rightarrow> nat \<Rightarrow> bool" where
  "consistent N st i \<longleftrightarrow>
     (if st (2 * i) = 0 \<and> st (2 * i + 1) = 0 then st i = 0 \<or> st i = field_len N i
      else st i = min (st (2 * i)) (st (2 * i + 1)) + 1)"

definition tree_inv :: "nat \<Rightarrow> (nat \<Rightarrow> nat) \<Rightarrow> bool" where
  "tree_inv N st \<longleftrightarrow> (\<forall>i. node N i \<longrightarrow> st i \<le> field_len N i) \<and>
     (\<forall>i. 0 < i \<and> 2 * i < 2 ^ N \<longrightarrow> consistent N st i)"

text \<open>The positions handed out as one slot, and the positions that are free as a whole.\<close>

definition allocated :: "nat \<Rightarrow> (nat \<Rightarrow> nat) \<Rightarrow> nat \<Rightarrow> bool" where
  "allocated N st i \<longleftrightarrow> node N i \<and> st i = field_len N i \<and>
     (2 * i < 2 ^ N \<longrightarrow> st (2 * i) = 0 \<and> st (2 * i + 1) = 0)"

definition available :: "nat \<Rightarrow> (nat \<Rightarrow> nat) \<Rightarrow> nat \<Rightarrow> bool" where
  "available N st i \<longleftrightarrow> node N i \<and> st i = 0 \<and> (\<forall>k. \<not> allocated N st (i div 2 ^ k))"

lemma node_half: "node N i \<Longrightarrow> 1 < i \<Longrightarrow> node N (i div 2)"
  by (auto simp: node_def)

lemma inner_even_pow: "0 < N \<Longrightarrow> 2 * i < 2 ^ N \<longleftrightarrow> 2 * i + 1 < (2 :: nat) ^ N"
  by (cases N) auto

lemma tree_inv_consistent: "tree_inv N st \<Longrightarrow> node N j \<Longrightarrow> 1 < j \<Longrightarrow> consistent N st (j div 2)"
  by (auto simp: tree_inv_def node_def)

lemma consistent_zero: "consistent N st i \<Longrightarrow> st i = 0 \<Longrightarrow> st (2 * i) = 0 \<and> st (2 * i + 1) = 0"
  by (auto simp: consistent_def split: if_splits)

lemma child_cases: "(j :: nat) div 2 = i \<Longrightarrow> j = 2 * i \<or> j = 2 * i + 1"
  by auto

lemma zero_below:
  assumes "tree_inv N st" "st (j div 2 ^ k) = 0" "node N j" "0 < j div 2 ^ k"
  shows "st j = 0"
  using assms(2-4)
proof (induction k arbitrary: j)
  case (Suc k)
  have half: "j div 2 ^ Suc k = j div 2 div 2 ^ k" by (simp add: div_mult2_eq)
  have gt: "1 < j"
  proof (rule ccontr)
    assume "\<not> 1 < j"
    then have "j div 2 = 0" by auto
    then show False using Suc.prems(3) half by simp
  qed
  have "st (j div 2) = 0"
    by (rule Suc.IH) (use Suc.prems gt in \<open>simp_all only: half node_half\<close>)
  with consistent_zero [OF tree_inv_consistent [OF assms(1) Suc.prems(2) gt]] child_cases [of j]
  show ?case by auto
qed simp

lemma allocated_below:
  assumes "tree_inv N st" "allocated N st (j div 2 ^ k)" "node N j" "0 < k"
  shows "st j = 0"
proof -
  obtain k' where k: "k = Suc k'" using assms(4) by (cases k) auto
  let ?c = "j div 2 ^ k'"
  have half: "j div 2 ^ k = ?c div 2" by (simp only: k power_Suc2 div_mult2_eq)
  have c: "1 < ?c" using assms(2) half by (auto simp: allocated_def node_def)
  have "node N ?c" using assms(3) c by (auto simp: node_def intro: le_less_trans [OF div_le_dividend])
  with c have "2 * (?c div 2) < 2 ^ N" by (auto simp: node_def)
  then have "st ?c = 0" using assms(2) child_cases [of ?c] by (auto simp: allocated_def half)
  then show ?thesis using c by (intro zero_below [OF assms(1) _ assms(3)]) auto
qed

lemma allocated_not_below:
  assumes "tree_inv N st" "allocated N st (j div 2 ^ k)" "allocated N st j"
  shows "k = 0"
proof (rule ccontr)
  assume "k \<noteq> 0"
  then have "st j = 0" using assms by (intro allocated_below [OF assms(1,2)]) (auto simp: allocated_def)
  then show False using assms(3) field_len_pos [of N j] by (auto simp: allocated_def)
qed

section \<open>The upward walk\<close>

text \<open>\<open>update_parent_chain\<close> on statuses.\<close>

fun chain :: "(nat \<Rightarrow> nat) \<Rightarrow> nat \<Rightarrow> (nat \<Rightarrow> nat)" where
  "chain st i =
     (if i \<le> 1 then st
      else
        let p = i div 2; target = children_status (st (2 * p)) (st (2 * p + 1))
        in if target = st p then st else chain (st(p := target)) p)"

declare chain.simps [simp del]

definition proper_ancestor :: "nat \<Rightarrow> nat \<Rightarrow> bool" where
  "proper_ancestor j i \<longleftrightarrow> 0 < j \<and> (\<exists>k > 0. j = i div 2 ^ k)"

lemma proper_ancestor_half:
  assumes "1 < i"
  shows "proper_ancestor j i \<longleftrightarrow> j = i div 2 \<or> proper_ancestor j (i div 2)"
proof
  assume "proper_ancestor j i"
  then obtain k where k: "0 < j" "0 < k" "j = i div 2 ^ k" by (auto simp: proper_ancestor_def)
  show "j = i div 2 \<or> proper_ancestor j (i div 2)"
  proof (cases "k = 1")
    case False
    then obtain k' where "k = Suc k'" "0 < k'" using k(2) by (cases k) auto
    then show ?thesis using k by (auto simp: proper_ancestor_def div_mult2_eq)
  qed (use k in simp)
next
  assume "j = i div 2 \<or> proper_ancestor j (i div 2)"
  then show "proper_ancestor j i"
  proof
    assume "j = i div 2"
    then show ?thesis using assms by (auto simp: proper_ancestor_def intro!: exI [of _ 1])
  next
    assume "proper_ancestor j (i div 2)"
    then obtain k where "0 < j" "0 < k" "j = i div 2 div 2 ^ k" by (auto simp: proper_ancestor_def)
    then show ?thesis by (auto simp: proper_ancestor_def div_mult2_eq intro!: exI [of _ "Suc k"])
  qed
qed

lemma proper_ancestor_less: "proper_ancestor j i \<Longrightarrow> j < i"
proof -
  assume "proper_ancestor j i"
  then obtain k where k: "0 < j" "0 < k" "j = i div 2 ^ k" by (auto simp: proper_ancestor_def)
  then have "0 < i" by (cases i) auto
  moreover have "(1 :: nat) < 2 ^ k" using k(2) by (intro one_less_power) auto
  ultimately show "j < i" using k(3) div_less_dividend by blast
qed

lemma not_proper_ancestor_1: "\<not> proper_ancestor j 1" "\<not> proper_ancestor j 0"
  using proper_ancestor_less [of j 1] proper_ancestor_less [of j 0] by (auto simp: proper_ancestor_def)

lemma chain_top: "i \<le> 1 \<Longrightarrow> chain st i = st"
  by (simp add: chain.simps)

lemma chain_step:
  assumes "1 < i" "p = i div 2" "target = children_status (st (2 * p)) (st (2 * p + 1))"
  shows "chain st i = (if target = st p then st else chain (st(p := target)) p)"
  using assms by (subst chain.simps) (simp add: Let_def)

lemma chain_other: "\<not> proper_ancestor j i \<Longrightarrow> chain st i j = st j"
proof (induction i arbitrary: st rule: less_induct)
  case (less i)
  define p where "p = i div 2"
  define target where "target = children_status (st (2 * p)) (st (2 * p + 1))"
  show ?case
  proof (cases "1 < i")
    case True
    with less.prems have np: "\<not> proper_ancestor j p" "j \<noteq> p"
      by (auto simp: proper_ancestor_half p_def)
    have "chain (st(p := target)) p j = (st(p := target)) j"
      by (rule less.IH) (use True np in \<open>auto simp: p_def\<close>)
    with np show ?thesis
      unfolding chain_step [OF True p_def target_def] by simp
  qed (simp add: chain_top)
qed

lemma chain_ancestor:
  assumes "proper_ancestor j i"
  shows "chain st i j = children_status (chain st i (2 * j)) (chain st i (2 * j + 1)) \<or>
    j \<noteq> i div 2 \<and> chain st i j = st j \<and> chain st i (2 * j) = st (2 * j) \<and> chain st i (2 * j + 1) = st (2 * j + 1)"
  using assms
proof (induction i arbitrary: st rule: less_induct)
  case (less i)
  have i: "1 < i" using proper_ancestor_less [OF less.prems] less.prems by (auto simp: proper_ancestor_def)
  define p where "p = i div 2"
  define target where "target = children_status (st (2 * p)) (st (2 * p + 1))"
  define st' where "st' = st(p := target)"
  have p0: "0 < p" using i by (auto simp: p_def)
  have step: "chain st i = (if target = st p then st else chain st' p)"
    unfolding st'_def by (rule chain_step [OF i p_def target_def])
  show ?case
  proof (cases "target = st p")
    case True
    then show ?thesis using step unfolding p_def [symmetric] target_def by auto
  next
    case False
    then have ch: "chain st i = chain st' p" using step by simp
    show ?thesis
    proof (cases "j = p")
      case True
      have "\<not> proper_ancestor p p" "\<not> proper_ancestor (2 * p) p" "\<not> proper_ancestor (2 * p + 1) p"
        using proper_ancestor_less by fastforce+
      then have "chain st' p p = st' p" "chain st' p (2 * p) = st' (2 * p)"
          "chain st' p (2 * p + 1) = st' (2 * p + 1)"
        using chain_other by blast+
      then show ?thesis unfolding True ch using p0 by (simp add: st'_def target_def)
    next
      case jp: False
      then have anc: "proper_ancestor j p" using less.prems i by (simp add: proper_ancestor_half p_def)
      have "chain st' p j = children_status (chain st' p (2 * j)) (chain st' p (2 * j + 1)) \<or>
        j \<noteq> p div 2 \<and> chain st' p j = st' j \<and> chain st' p (2 * j) = st' (2 * j) \<and>
        chain st' p (2 * j + 1) = st' (2 * j + 1)"
        by (rule less.IH) (use i anc in \<open>simp_all add: p_def\<close>)
      moreover have "st' (2 * j) = st (2 * j) \<and> st' (2 * j + 1) = st (2 * j + 1)" if "j \<noteq> p div 2"
        using that by (auto simp: st'_def)
      moreover have "st' j = st j" using jp by (simp add: st'_def)
      ultimately show ?thesis unfolding ch using jp p_def by auto
    qed
  qed
qed

lemma field_len_child:
  assumes "0 < i" "2 * i < 2 ^ N"
  shows "field_len N i = Suc (field_len N (2 * i))" "field_len N i = Suc (field_len N (2 * i + 1))"
proof -
  have "node N (2 * i)" using assms by (simp add: node_def)
  then have "Suc (bitlen i) \<le> N" using bitlen_le [of N "2 * i"] assms by (simp add: bitlen_double)
  then show "field_len N i = Suc (field_len N (2 * i))" "field_len N i = Suc (field_len N (2 * i + 1))"
    using assms(1) by (simp_all add: field_len_def bitlen_double)
qed

lemma children_status_le:
  assumes "0 < i" "2 * i < 2 ^ N" "st (2 * i) \<le> field_len N (2 * i)" 
  shows "children_status (st (2 * i)) (st (2 * i + 1)) \<le> field_len N i"
  using assms field_len_child [OF assms(1,2)] by (auto simp: children_status_def)

lemma chain_le:
  assumes "\<forall>j. node N j \<longrightarrow> st j \<le> field_len N j" "node N i"
  shows "node N j \<Longrightarrow> chain st i j \<le> field_len N j"
  using assms
proof (induction i arbitrary: st rule: less_induct)
  case (less i)
  define p where "p = i div 2"
  define target where "target = children_status (st (2 * p)) (st (2 * p + 1))"
  show ?case
  proof (cases "1 < i")
    case True
    have p: "0 < p" "2 * p < 2 ^ N" "node N p" using True less.prems(3) by (auto simp: node_def p_def)
    then have "target \<le> field_len N p"
      unfolding target_def using less.prems(2) by (intro children_status_le) (auto simp: node_def)
    then have "chain (st(p := target)) p j \<le> field_len N j"
      using less.prems True p by (intro less.IH) (auto simp: p_def)
    then show ?thesis using less.prems unfolding chain_step [OF True p_def target_def] by simp
  qed (use less.prems in \<open>simp add: chain_top\<close>)
qed

lemma child_not_ancestor:
  assumes "\<not> proper_ancestor j i" "0 < j" "0 < i"
  shows "\<not> proper_ancestor (2 * j) i" "\<not> proper_ancestor (2 * j + 1) i" "2 * j \<noteq> i" "2 * j + 1 \<noteq> i"
proof -
  have up: "proper_ancestor j i" if cj: "c div 2 = j" and ci: "proper_ancestor c i" for c
  proof -
    obtain k where "0 < k" "c = i div 2 ^ k" using ci unfolding proper_ancestor_def by blast
    then have "j = i div 2 ^ Suc k" using cj by (simp only: power_Suc2 div_mult2_eq)
    with assms(2) show ?thesis by (auto simp: proper_ancestor_def)
  qed
  have self: "proper_ancestor j i" if "i div 2 = j"
    using that assms(2) by (auto simp: proper_ancestor_def intro!: exI [of _ 1])
  show "\<not> proper_ancestor (2 * j) i" "\<not> proper_ancestor (2 * j + 1) i" "2 * j \<noteq> i" "2 * j + 1 \<noteq> i"
    using up [of "2 * j"] up [of "2 * j + 1"] self assms(1) by auto
qed

text \<open>
  Changing the status of a position all of whose children are free, and walking up, restores
  the invariant.
\<close>

lemma chain_inv:
  assumes inv: "tree_inv N st" and i: "node N i" and v: "v = 0 \<or> v = field_len N i"
    and below: "2 * i < 2 ^ N \<longrightarrow> st (2 * i) = 0 \<and> st (2 * i + 1) = 0"
  shows "tree_inv N (chain (st(i := v)) i)"
proof -
  let ?st = "chain (st(i := v)) i"
  have i0: "0 < i" using i by (simp add: node_def)
  have "consistent N ?st j" if j: "0 < j" "2 * j < 2 ^ N" for j
  proof (cases "proper_ancestor j i")
    case False
    note nc = child_not_ancestor [OF False j(1) i0]
    have eq: "?st j = (st(i := v)) j" "?st (2 * j) = st (2 * j)" "?st (2 * j + 1) = st (2 * j + 1)"
      using False nc by (simp_all add: chain_other)
    show ?thesis
    proof (cases "j = i")
      case True
      then show ?thesis using eq below v j unfolding consistent_def by auto
    next
      case False
      then show ?thesis using eq inv j unfolding consistent_def tree_inv_def by auto
    qed
  next
    case True
    then have "j < i" by (rule proper_ancestor_less)
    from chain_ancestor [OF True, of "st(i := v)"] show ?thesis
    proof
      assume "?st j = children_status (?st (2 * j)) (?st (2 * j + 1))"
      then show ?thesis by (auto simp: consistent_def children_status_def)
    next
      assume a: "j \<noteq> i div 2 \<and> ?st j = (st(i := v)) j \<and> ?st (2 * j) = (st(i := v)) (2 * j) \<and>
        ?st (2 * j + 1) = (st(i := v)) (2 * j + 1)"
      then have "?st j = st j" "?st (2 * j) = st (2 * j)" "?st (2 * j + 1) = st (2 * j + 1)"
        using \<open>j < i\<close> by auto
      then show ?thesis using inv j unfolding consistent_def tree_inv_def by auto
    qed
  qed
  moreover have "\<forall>j. node N j \<longrightarrow> (st(i := v)) j \<le> field_len N j"
    using inv v by (auto simp: tree_inv_def)
  ultimately show ?thesis using chain_le [OF _ i] by (auto simp: tree_inv_def)
qed

lemma chain_allocated_other:
  assumes i: "node N i" and j: "node N j" "j \<noteq> i" "\<not> proper_ancestor j i"
  shows "allocated N (chain (st(i := v)) i) j \<longleftrightarrow> allocated N st j"
proof -
  have "0 < j" "0 < i" using i j by (auto simp: node_def)
  note nc = child_not_ancestor [OF j(3) this]
  then show ?thesis using j by (simp add: allocated_def chain_other)
qed

lemma chain_allocated_self:
  assumes "node N i" "2 * i < 2 ^ N \<longrightarrow> st (2 * i) = 0 \<and> st (2 * i + 1) = 0"
  shows "allocated N (chain (st(i := v)) i) i \<longleftrightarrow> v = field_len N i"
proof -
  have np: "\<not> proper_ancestor i i" using proper_ancestor_less by blast
  have "0 < i" using assms by (simp add: node_def)
  note nc = child_not_ancestor [OF np this this]
  then show ?thesis using assms np by (simp add: allocated_def chain_other)
qed

lemma nonzero_above:
  assumes "tree_inv N st" "node N i" "st i \<noteq> 0" "0 < i div 2 ^ k"
  shows "st (i div 2 ^ k) \<noteq> 0"
  using zero_below [OF assms(1) _ assms(2) assms(4)] assms(3) by auto

lemma nonzero_ancestor_not_allocated:
  assumes "tree_inv N st" "node N i" "st i \<noteq> 0" "proper_ancestor j i"
  shows "\<not> allocated N st j"
  using allocated_below [OF assms(1) _ assms(2)] assms(3,4) by (auto simp: proper_ancestor_def)

lemma ancestor_node: "node N i \<Longrightarrow> proper_ancestor j i \<Longrightarrow> node N j"
  using proper_ancestor_less [of j i] by (auto simp: node_def proper_ancestor_def)

lemma ancestor_inner:
  assumes "node N i" "proper_ancestor j i"
  shows "2 * j < 2 ^ N"
proof -
  obtain k where k: "j = i div 2 ^ Suc k"
    using assms(2) unfolding proper_ancestor_def by (metis gr0_implies_Suc)
  have "2 * j \<le> 2 ^ Suc k * j" by simp
  also have "\<dots> \<le> i" unfolding k by (rule times_div_less_eq_dividend)
  finally show ?thesis using assms(1) by (simp add: node_def)
qed

lemma mark_statuses:
  assumes "tree_inv N st" "available N st i"
  defines "st' \<equiv> chain (st(i := field_len N i)) i"
  shows "tree_inv N st'" "allocated N st' j \<longleftrightarrow> j = i \<or> allocated N st j"
proof -
  have i: "node N i" "st i = 0" using assms(2) by (auto simp: available_def)
  have below: "2 * i < 2 ^ N \<longrightarrow> st (2 * i) = 0 \<and> st (2 * i + 1) = 0"
    using assms(1) i consistent_zero by (auto simp: tree_inv_def node_def)
  show inv: "tree_inv N st'" unfolding st'_def using assms(1) i(1) below by (intro chain_inv) auto
  have self: "allocated N st' i" unfolding st'_def using i(1) below by (simp add: chain_allocated_self)
  show "allocated N st' j \<longleftrightarrow> j = i \<or> allocated N st j"
  proof (cases "proper_ancestor j i")
    case True
    have "st' i \<noteq> 0" using self field_len_pos [OF i(1)] by (simp add: allocated_def)
    then have "\<not> allocated N st' j" using True inv i(1) by (intro nonzero_ancestor_not_allocated)
    moreover have "\<not> allocated N st j"
      using True assms(2) by (auto simp: available_def proper_ancestor_def)
    moreover have "j \<noteq> i" using proper_ancestor_less [OF True] by simp
    ultimately show ?thesis by simp
  next
    case False
    show ?thesis
    proof (cases "j = i")
      case ji: False
      show ?thesis
        using chain_allocated_other [OF i(1) _ ji False] ji unfolding st'_def
        by (auto simp: allocated_def)
    qed (use self in simp)
  qed
qed

lemma release_statuses:
  assumes "tree_inv N st" "allocated N st i"
  defines "st' \<equiv> chain (st(i := 0)) i"
  shows "tree_inv N st'" "allocated N st' j \<longleftrightarrow> j \<noteq> i \<and> allocated N st j"
proof -
  have i: "node N i" "st i = field_len N i" "2 * i < 2 ^ N \<longrightarrow> st (2 * i) = 0 \<and> st (2 * i + 1) = 0"
    using assms(2) by (auto simp: allocated_def)
  show inv: "tree_inv N st'" unfolding st'_def using assms(1) i by (intro chain_inv) auto
  have self: "\<not> allocated N st' i"
    unfolding st'_def using i field_len_pos [OF i(1)] by (simp add: chain_allocated_self)
  show "allocated N st' j \<longleftrightarrow> j \<noteq> i \<and> allocated N st j"
  proof (cases "proper_ancestor j i")
    case True
    have j: "node N j" by (rule ancestor_node [OF i(1) True])
    have "j < i" by (rule proper_ancestor_less [OF True])
    have old: "\<not> allocated N st j"
      using assms(1) i True field_len_pos [OF i(1)] by (intro nonzero_ancestor_not_allocated) auto
    moreover have "\<not> allocated N st' j"
      using chain_ancestor [OF True, of "st(i := 0)", folded st'_def]
    proof
      assume "st' j = children_status (st' (2 * j)) (st' (2 * j + 1))"
      moreover have "2 * j < 2 ^ N" by (rule ancestor_inner [OF i(1) True])
      ultimately show ?thesis using field_len_pos [OF j]
        by (auto simp: allocated_def children_status_def)
    next
      assume "j \<noteq> i div 2 \<and> st' j = (st(i := 0)) j \<and> st' (2 * j) = (st(i := 0)) (2 * j) \<and>
        st' (2 * j + 1) = (st(i := 0)) (2 * j + 1)"
      then have "st' j = st j" "st' (2 * j) = st (2 * j)" "st' (2 * j + 1) = st (2 * j + 1)"
        using \<open>j < i\<close> by auto
      with old show ?thesis by (simp add: allocated_def)
    qed
    ultimately show ?thesis by simp
  next
    case False
    show ?thesis
    proof (cases "j = i")
      case ji: False
      show ?thesis
        using chain_allocated_other [OF i(1) _ ji False] ji unfolding st'_def
        by (auto simp: allocated_def)
    qed (use self in simp)
  qed
qed

section \<open>The operations on represented trees\<close>

abbreviation field_pos :: "nat \<Rightarrow> nat \<Rightarrow> internal_position" where
  "field_pos N i \<equiv> \<lparr>local_offset = field_len N i, bitset_location = field_at N i\<rparr>"

lemma parent_pos_of: "1 < i \<Longrightarrow> buddy_tree_parent (pos_of i) = pos_of (i div 2)"
  by (simp add: buddy_tree_parent_def pos_of_def bitlen_half)

lemma left_pos_of: "0 < i \<Longrightarrow> buddy_tree_left_child (pos_of i) = pos_of (2 * i)"
  by (simp add: buddy_tree_left_child_def pos_of_def bitlen_double mult.commute [of i 2])

lemma right_pos_of: "0 < i \<Longrightarrow> buddy_tree_right_child (pos_of i) = pos_of (2 * i + 1)"
  by (simp add: buddy_tree_right_child_def pos_of_def bitlen_double mult.commute [of i 2])

lemma sibling_left_pos_of: "0 < i \<Longrightarrow> buddy_tree_sibling (pos_of (2 * i)) = pos_of (2 * i + 1)"
proof -
  assume "0 < i"
  moreover have "2 * i XOR 1 = 2 * i + 1" by (subst xor_nat_rec) simp
  ultimately show ?thesis by (simp add: buddy_tree_sibling_def pos_of_def bitlen_double)
qed

lemma pos_of_sel [simp]: "pos_index (pos_of i) = i" "pos_depth (pos_of i) = bitlen i"
  by (simp_all add: pos_of_def)

lemma bitlen_1 [simp]: "bitlen (Suc 0) = Suc 0"
  by (simp add: bitlen_pos)

lemma pow2_gt_1: "0 < N \<Longrightarrow> Suc 0 < 2 ^ N"
  using one_less_power [of "2 :: nat" N] by simp

lemma root_pos_of: "buddy_tree_root = pos_of 1"
  by (simp add: buddy_tree_root_def pos_of_def bitlen_pos)

lemma sibling_field:
  assumes "1 < i"
  shows "\<lparr>local_offset = field_len N i,
     bitset_location = field_at N i + field_len N i - 2 * field_len N i * (i mod 2)\<rparr> =
    field_pos N (if even i then i + 1 else i - 1)"
proof (cases "even i")
  case True
  then obtain c where c: "i = 2 * c" by auto
  then have "bitlen i = bitlen (i + 1)" using assms by (simp add: bitlen_double)
  then show ?thesis using True assms c by (simp add: field_at_Suc field_len_def)
next
  case False
  then obtain c where c: "i = 2 * c + 1" by (auto elim: oddE)
  then have "bitlen (i - 1) = bitlen i" using assms by (simp add: bitlen_double)
  moreover from this have "field_at N i = field_at N (i - 1) + field_len N i"
    using field_at_Suc [of "i - 1" N] assms by (simp add: field_len_def)
  ultimately show ?thesis using False c by (simp add: field_len_def)
qed

lemma sibling_node: "node N i \<Longrightarrow> 1 < i \<Longrightarrow> node N (if even i then i + 1 else i - 1)"
  by (cases N) (auto simp: node_def elim!: evenE oddE)

lemma update_parent_chain_represents:
  assumes "represents N t st" "node N i"
  shows "\<exists>t'. update_parent_chain t (pos_of i) (field_pos N i) (st i) = Some t' \<and> represents N t' (chain st i)"
  using assms
proof (induction i arbitrary: t st rule: less_induct)
  case (less i)
  show ?case
  proof (cases "i = 1")
    case True
    then show ?thesis using less.prems
      by (subst update_parent_chain.simps) (simp add: pos_of_def chain_top)
  next
    case False
    then have i: "1 < i" using less.prems(2) by (auto simp: node_def)
    define p where "p = i div 2"
    define target where "target = children_status (st (2 * p)) (st (2 * p + 1))"
    define s where "s = (if even i then i + 1 else i - 1)"
    have p: "node N p" "p < i" using node_half [OF less.prems(2) i] i by (auto simp: p_def)
    have s: "node N s" unfolding s_def by (rule sibling_node [OF less.prems(2) i])
    have "{i, s} = {2 * p, 2 * p + 1}" using i by (auto simp: s_def p_def elim!: evenE oddE)
    then have target: "of_bool (st i \<noteq> 0 \<or> st s \<noteq> 0) * ((if st i \<le> st s then st i else st s) + 1) = target"
      by (auto simp: target_def children_status_def doubleton_eq_iff)
    have target_le: "target \<le> field_len N p"
      unfolding target_def
    proof (rule children_status_le)
      show "0 < p" "2 * p < 2 ^ N" using i less.prems(2) by (auto simp: p_def node_def)
      then have "node N (2 * p)" by (simp add: node_def)
      then show "st (2 * p) \<le> field_len N (2 * p)" by (rule represents_le [OF less.prems(1)])
    qed
    have parent: "buddy_tree_internal_position_tree t (pos_of p) = field_pos N p"
      by (rule internal_position [OF represents_ok [OF less.prems(1)] p(1)])
    let ?t = "write_to_internal_position t (field_pos N p) target"
    have rep: "represents N ?t (st(p := target))" by (rule write_field [OF less.prems(1) p(1) target_le])
    have sib: "read_from_internal_position (tree_bits t) ((field_pos N i)\<lparr>bitset_location :=
        bitset_location (field_pos N i) + local_offset (field_pos N i) -
        2 * local_offset (field_pos N i) * (pos_index (pos_of i) mod 2)\<rparr>) = st s"
      unfolding pos_of_sel internal_position.simps sibling_field [OF i, of N] s_def [symmetric]
      by (rule read_field [OF less.prems(1) s])
    have up: "update_parent_chain t (pos_of i) (field_pos N i) (st i) =
        (if target = st p then Some t else update_parent_chain ?t (pos_of p) (field_pos N p) target)"
      unfolding update_parent_chain.simps [of t "pos_of i"] Let_def sib parent_pos_of [OF i]
        p_def [symmetric] parent read_field [OF less.prems(1) p(1)] target
      using i by simp
    obtain t' where "update_parent_chain ?t (pos_of p) (field_pos N p) ((st(p := target)) p) = Some t'"
        "represents N t' (chain (st(p := target)) p)"
      using less.IH [OF p(2) rep p(1)] by blast
    then show ?thesis
      unfolding up chain_step [OF i p_def target_def] using less.prems(1) by simp
  qed
qed

lemma mark_represents:
  assumes "represents N t st" "tree_inv N st" "available N st i"
  shows "\<exists>t'. buddy_tree_mark t (pos_of i) = Some t' \<and> represents N t' (chain (st(i := field_len N i)) i)"
proof -
  have i: "node N i" using assms(3) by (simp add: available_def)
  note ip = internal_position [OF represents_ok [OF assms(1)] i]
  show ?thesis
    using update_parent_chain_represents [OF write_field [OF assms(1) i order_refl] i]
    by (simp add: buddy_tree_mark_def ip Let_def)
qed

lemma release_represents:
  assumes "represents N t st" "tree_inv N st" "allocated N st i"
  shows "\<exists>t'. buddy_tree_release t (pos_of i) = Some (BUDDY_TREE_RELEASE_SUCCESS, t') \<and>
    represents N t' (chain (st(i := 0)) i)"
proof -
  have i: "node N i" "st i = field_len N i" using assms(3) by (auto simp: allocated_def)
  note ip = internal_position [OF represents_ok [OF assms(1)] i(1)]
  show ?thesis
    using update_parent_chain_represents [OF write_field [OF assms(1) i(1) zero_le] i(1)]
      read_field [OF assms(1) i(1)] i(2)
    by (auto simp: buddy_tree_release_def ip Let_def)
qed

lemma release_partial:
  assumes "represents N t st" "node N i" "st i \<noteq> field_len N i"
  shows "buddy_tree_release t (pos_of i) = Some (BUDDY_TREE_RELEASE_FAIL_PARTIALLY_USED, t)"
  using read_field [OF assms(1,2)] assms(3) internal_position [OF represents_ok [OF assms(1)] assms(2)]
  by (simp add: buddy_tree_release_def Let_def)

lemma status_represents:
  "represents N t st \<Longrightarrow> node N i \<Longrightarrow> buddy_tree_status t (pos_of i) = st i"
  by (simp add: buddy_tree_status_def internal_position [OF represents_ok] read_field)

text \<open>One step of the search keeps to a subtree with a free slot on the target depth.\<close>

lemma find_free_child_ok:
  assumes rep: "represents N t st" and inv: "tree_inv N st"
    and c: "0 < c" "2 * c < 2 ^ N" "st c \<le> Suc s" "Suc s < field_len N c"
  obtains d where "find_free_child t (pos_of c) s = pos_of d" "d div 2 = c" "st d \<le> s" "node N d"
proof -
  define l where "l = 2 * c"
  define r where "r = 2 * c + 1"
  have nodes: "node N l" "node N r"
    using c inner_even_pow [of N c] by (cases N; auto simp: node_def l_def r_def)+
  have len: "field_len N l = field_len N r" "Suc s \<le> field_len N l"
    using field_len_child [OF c(1,2)] c(4) by (auto simp: l_def r_def)
  have "field_at N r = field_at N l + field_len N l"
    using c(1) by (simp add: l_def r_def field_at_Suc)
  then have right: "(field_pos N l)\<lparr>bitset_location := bitset_location (field_pos N l) + local_offset (field_pos N l)\<rparr>
      = field_pos N r"
    using len(1) by simp
  have cons: "consistent N st c" using inv c(1,2) by (simp add: tree_inv_def)
  have some: "st l \<le> s \<or> st r \<le> s"
    using cons c(3,4) by (auto simp: consistent_def l_def r_def split: if_splits)
  have left: "buddy_tree_internal_position_tree t (pos_of l) = field_pos N l"
    by (rule internal_position [OF represents_ok [OF rep] nodes(1)])
  have cmp: "compare_with_internal_position (tree_bits t) (field_pos N l) (s + 1) \<longleftrightarrow> s < st l"
      "compare_with_internal_position (tree_bits t) (field_pos N r) (s + 1) \<longleftrightarrow> s < st r"
    using compare_field [OF rep nodes(1), of "s + 1"] compare_field [OF rep nodes(2), of "s + 1"] len
    by auto
  have pos: "buddy_tree_left_child (pos_of c) = pos_of l" "buddy_tree_sibling (pos_of l) = pos_of r"
    using c(1) by (auto simp: l_def r_def left_pos_of sibling_left_pos_of)
  have "\<exists>d. find_free_child t (pos_of c) s = pos_of d \<and> (d = l \<or> d = r) \<and> st d \<le> s"
    unfolding find_free_child_def Let_def pos left right cmp using some by auto
  with nodes that show thesis by (auto simp: l_def r_def)
qed

lemma find_free_loop_ok:
  assumes rep: "represents N t st" and inv: "tree_inv N st" and "td \<le> N"
    and "node N c" "bitlen c \<le> td" "st c \<le> td - bitlen c" "\<forall>k. \<not> allocated N st (c div 2 ^ k)"
  shows "\<exists>p. find_free_loop t td (pos_of c) (td - bitlen c) (bitlen c) = Some (pos_of p) \<and>
    available N st p \<and> bitlen p = td"
  using assms(3-)
proof (induction "td - bitlen c" arbitrary: c)
  case 0
  then show ?case by (subst find_free_loop.simps) (auto simp: available_def)
next
  case (Suc s)
  have c0: "0 < c" using Suc.prems(2) by (simp add: node_def)
  have inner: "2 * c < 2 ^ N"
  proof -
    have "c < 2 ^ bitlen c" using bitlen_bounds [OF c0] by simp
    then have "2 * c < 2 ^ Suc (bitlen c)" by simp
    also have "\<dots> \<le> 2 ^ N" using Suc.hyps(2) Suc.prems(1) by (intro power_increasing) auto
    finally show ?thesis .
  qed
  have len: "Suc s < field_len N c" using Suc.hyps(2) Suc.prems(1) by (simp add: field_len_def)
  obtain d where d: "find_free_child t (pos_of c) s = pos_of d" "d div 2 = c" "st d \<le> s" "node N d"
    using find_free_child_ok [OF rep inv c0 inner _ len] Suc.prems(4) Suc.hyps(2) by auto
  have "1 < d" using d(2) c0 by auto
  then have bd: "bitlen d = Suc (bitlen c)" using d(2) by (simp add: bitlen_half)
  have "\<not> allocated N st d"
    using d(3) field_len_child [OF c0 inner] len d(2) child_cases [OF d(2)] by (auto simp: allocated_def)
  moreover have "\<not> allocated N st (d div 2 ^ Suc k)" for k
    using Suc.prems(5) d(2) by (simp add: div_mult2_eq)
  ultimately have "\<forall>k. \<not> allocated N st (d div 2 ^ k)"
    by (metis div_by_1 not0_implies_Suc power_0)
  then have "\<exists>p. find_free_loop t td (pos_of d) (td - bitlen d) (bitlen d) = Some (pos_of p) \<and>
      available N st p \<and> bitlen p = td"
    using Suc.hyps(2) Suc.prems(1) d bd by (intro Suc.hyps(1)) auto
  moreover have "find_free_loop t td (pos_of c) (td - bitlen c) (bitlen c) =
      find_free_loop t td (pos_of d) (td - bitlen d) (bitlen d)"
  proof -
    have "td - bitlen c - 1 = s" "td - bitlen d = s" "bitlen c \<noteq> td" "bitlen c + 1 = bitlen d"
      using Suc.hyps(2) bd by auto
    then show ?thesis using d(1) by (subst find_free_loop.simps) (simp only: if_False)
  qed
  ultimately show ?case by simp
qed

lemma available_status_le:
  assumes "tree_inv N st" "available N st j" "0 < j div 2 ^ k"
  shows "st (j div 2 ^ k) \<le> k"
  using assms(3)
proof (induction k)
  case 0
  then show ?case using assms(2) by (simp add: available_def)
next
  case (Suc k)
  let ?c = "j div 2 ^ k"
  have half: "j div 2 ^ Suc k = ?c div 2" by (simp only: power_Suc2 div_mult2_eq)
  then have c: "1 < ?c" using Suc.prems by auto
  have "node N ?c"
    using assms(2) c by (auto simp: available_def node_def intro: le_less_trans [OF div_le_dividend])
  then have cons: "consistent N st (?c div 2)" using c by (rule tree_inv_consistent [OF assms(1)])
  have na: "\<not> allocated N st (?c div 2)" using assms(2) half by (metis available_def)
  have "node N (?c div 2)" using \<open>node N ?c\<close> c by (rule node_half)
  moreover have "st ?c \<le> k" using Suc c by simp
  ultimately show ?case unfolding half
    using cons na child_cases [of ?c]
    by (auto simp: consistent_def allocated_def min_le_iff_disj split: if_splits)
qed

lemma find_free_represents:
  assumes rep: "represents N t st" and inv: "tree_inv N st" and td: "0 < td" "td \<le> N"
  shows "(\<exists>p. buddy_tree_find_free t td = Some (pos_of p) \<and> available N st p \<and> bitlen p = td) \<or>
    buddy_tree_find_free t td = Some INVALID_POS \<and> (\<forall>p. available N st p \<longrightarrow> bitlen p \<noteq> td)"
proof (cases "st 1 \<le> td - 1")
  case True
  have one: "node N 1" "bitlen 1 = 1" using td by (auto simp: node_def bitlen_pos pow2_gt_1)
  have "\<not> allocated N st (1 div 2 ^ k)" for k
  proof -
    have "st 1 \<noteq> field_len N 1" using True td one by (simp add: field_len_def)
    moreover have "(1 :: nat) div 2 ^ k = of_bool (k = 0)"
      using pow2_gt_1 [of k] by (cases "k = 0") auto
    ultimately show ?thesis by (auto simp: allocated_def node_def)
  qed
  with find_free_loop_ok [OF rep inv td(2) one(1)] True one td
  have "\<exists>p. find_free_loop t td (pos_of 1) (td - 1) 1 = Some (pos_of p) \<and> available N st p \<and> bitlen p = td"
    by simp
  moreover have "buddy_tree_status t buddy_tree_root = st 1"
    using status_represents [OF rep one(1)] by (simp add: root_pos_of)
  ultimately show ?thesis using True by (simp add: buddy_tree_find_free_def root_pos_of)
next
  case False
  have one: "node N 1" using td by (auto simp: node_def pow2_gt_1)
  have "bitlen p \<noteq> td" if "available N st p" for p
  proof
    assume b: "bitlen p = td"
    have "0 < p" using that by (simp add: available_def node_def)
    then have "2 ^ (td - 1) \<le> p" "p < 2 ^ td" using bitlen_bounds [of p] b by auto
    moreover obtain d where d: "td = Suc d" using td(1) by (cases td) auto
    ultimately have "p div 2 ^ (td - 1) = 1" by (intro div_nat_eqI) auto
    then show False using available_status_le [OF inv that, of "td - 1"] False by simp
  qed
  moreover have "buddy_tree_status t buddy_tree_root = st 1"
    using status_represents [OF rep one] by (simp add: root_pos_of)
  ultimately show ?thesis using False by (simp add: buddy_tree_find_free_def)
qed

lemma populate_table:
  "buddy_tree_populate_size_for_order t = t\<lparr>size_for_order_table := (\<lambda>i.
     if i \<le> tree_order t then size_for_order (tree_order t) i else size_for_order_table t i)\<rparr>"
proof -
  have "for_upto n (\<lambda>i t. t\<lparr>size_for_order_table := (size_for_order_table t)(i := size_for_order (tree_order t) i)\<rparr>) t
    = t\<lparr>size_for_order_table := (\<lambda>i. if i < n then size_for_order (tree_order t) i else size_for_order_table t i)\<rparr>" for n
    by (induction n) (auto simp: for_upto_Suc less_Suc_eq intro!: arg_cong [of _ _ "\<lambda>f. t\<lparr>size_for_order_table := f\<rparr>"])
  from this [of "Suc (tree_order t)"] show ?thesis
    by (simp add: buddy_tree_populate_size_for_order_def less_Suc_eq_le)
qed

lemma init_represents:
  assumes "0 < N" "N < 64"
  shows "represents N (buddy_tree_init N) (\<lambda>_. 0)" "tree_inv N (\<lambda>_. 0)"
    "\<not> allocated N (\<lambda>_. 0) i"
  using assms field_len_pos [of N i]
  by (auto simp: represents_def tree_ok_def buddy_tree_init_def populate_table tree_inv_def consistent_def
      allocated_def two_to_the_power_of_def push_bit_eq_mult bit_test)

text \<open>
  The table of row offsets starts behind the bit array and ends inside the space
  \<^verbatim>\<open>buddy_tree_sizeof\<close> reserves, so the two arrays do not overlap.
\<close>

lemma tree_layout:
  fixes order :: nat
  defines "b \<equiv> bitset_sizeof (size_for_order order 0)"
  defines "at \<equiv> (b + b mod 8) div 8 + 1"
  shows "b \<le> 8 * at" "24 + 8 * (at + order + 1) \<le> buddy_tree_sizeof order"
proof -
  define q r c where "q = b div 8" and "r = b mod 8" and "c = (b + b mod 8) div 8"
  have "b = 8 * q + r" "r < 8" by (auto simp: q_def r_def)
  moreover have "q \<le> c" unfolding q_def c_def by (simp add: div_le_mono)
  ultimately show "b \<le> 8 * at" unfolding at_def c_def [symmetric] by auto
  have "8 * at \<le> b + b mod 8 + 8" unfolding at_def by simp
  then show "24 + 8 * (at + order + 1) \<le> buddy_tree_sizeof order"
    by (auto simp: buddy_tree_sizeof_def b_def [symmetric] Let_def)
qed

end
