(* ===== verification/Buddy.thy ===== *)
theory Buddy
  imports Buddy_Tree
begin

text \<open>
  The buddy allocator of \<^verbatim>\<open>include/buddy.h\<close> as the kernel uses it: one allocator over one
  arena, initialised with \<^verbatim>\<open>buddy_init\<close>, serving \<^verbatim>\<open>buddy_malloc\<close> and \<^verbatim>\<open>buddy_free\<close>. The allocator
  object is a record; its tree is the one of \<open>Buddy_Tree\<close>. An operation returns \<open>None\<close> where
  the C function would not return; a NULL result is the address 0.
\<close>

section \<open>Definitions\<close>

record buddy =
  buddy_at :: ptr
  memory_size :: nat
  alignment :: nat
  arena :: u64
  buddy_flags :: u64
  buddy_tree_of :: buddy_tree

definition BUDDY_ALLOC_ALIGN :: nat where
  "BUDDY_ALLOC_ALIGN = 8 * 8"

definition is_valid_alignment :: "nat \<Rightarrow> bool" where
  "is_valid_alignment algn \<longleftrightarrow> ceiling_power_of_two algn = algn"

definition buddy_tree_order_for_memory :: "nat \<Rightarrow> nat \<Rightarrow> nat" where
  "buddy_tree_order_for_memory msize algn =
     highest_bit_position (ceiling_power_of_two (msize div algn))"

definition buddy_sizeof_alignment :: "nat \<Rightarrow> nat \<Rightarrow> nat" where
  "buddy_sizeof_alignment msize algn =
     (if \<not> is_valid_alignment algn then 0
      else if msize < algn then 0
      else 32 + buddy_tree_sizeof (buddy_tree_order_for_memory msize algn mod 256))"

definition buddy_sizeof :: "nat \<Rightarrow> nat" where
  "buddy_sizeof msize = buddy_sizeof_alignment msize BUDDY_ALLOC_ALIGN"

definition buddy_relative_mode :: "buddy \<Rightarrow> bool" where
  "buddy_relative_mode b \<longleftrightarrow> buddy_flags b AND 1 \<noteq> 0"

definition buddy_main :: "buddy \<Rightarrow> ptr" where
  "buddy_main b = (if buddy_relative_mode b then buddy_at b - arena b else arena b)"

definition buddy_effective_memory_size :: "buddy \<Rightarrow> nat" where
  "buddy_effective_memory_size b = ceiling_power_of_two (memory_size b)"

definition depth_for_size :: "buddy \<Rightarrow> nat \<Rightarrow> nat" where
  "depth_for_size b requested_size =
     (let requested = (if requested_size < alignment b then alignment b else requested_size);
          effective = buddy_effective_memory_size b;
          p2 = ceiling_power_of_two requested
      in count_trailing_zeroes effective + 1 - count_trailing_zeroes p2)"

definition size_for_depth :: "buddy \<Rightarrow> nat \<Rightarrow> nat" where
  "size_for_depth b depth = drop_bit (depth - 1) (ceiling_power_of_two (memory_size b))"

definition address_for_position :: "buddy \<Rightarrow> buddy_tree_pos \<Rightarrow> ptr" where
  "address_for_position b pos =
     buddy_main b + of_nat (size_for_depth b (pos_depth pos) * buddy_tree_index_internal pos)"

definition deepest_position_for_offset :: "buddy \<Rightarrow> nat \<Rightarrow> buddy_tree_pos" where
  "deepest_position_for_offset b offset =
     (let pos = buddy_tree_leftmost_child (buddy_tree_of b)
      in pos\<lparr>pos_index := pos_index pos + offset div alignment b\<rparr>)"

text \<open>Climb from a position to the nearest one with a non-zero status.\<close>

function used_position :: "buddy_tree \<Rightarrow> buddy_tree_pos \<Rightarrow> buddy_tree_pos" where
  "used_position t pos =
     (if buddy_tree_status t pos = 0 then
        (if \<not> buddy_tree_valid t (buddy_tree_parent pos) then INVALID_POS
         else used_position t (buddy_tree_parent pos))
      else pos)"
  by pat_completeness auto
termination
  by (relation "measure (\<lambda>(t, pos). pos_index pos)")
    (auto simp: buddy_tree_valid_def buddy_tree_parent_def)

definition position_for_address :: "buddy \<Rightarrow> ptr \<Rightarrow> buddy_tree_pos" where
  "position_for_address b addr =
     (let offset = unat (addr - buddy_main b)
      in if offset mod alignment b \<noteq> 0 then INVALID_POS
         else
           let pos = used_position (buddy_tree_of b) (deepest_position_for_offset b offset)
           in if pos = INVALID_POS then INVALID_POS
              else if address_for_position b pos \<noteq> addr then INVALID_POS else pos)"

definition toggle_position :: "buddy \<Rightarrow> bool \<Rightarrow> buddy_tree_pos \<Rightarrow> buddy option" where
  "toggle_position b state pos =
     (if state
      then map_option (\<lambda>t. b\<lparr>buddy_tree_of := t\<rparr>) (buddy_tree_mark (buddy_tree_of b) pos)
      else map_option (\<lambda>(_, t). b\<lparr>buddy_tree_of := t\<rparr>) (buddy_tree_release (buddy_tree_of b) pos))"

partial_function (option) toggle_virtual_loop ::
    "bool \<Rightarrow> buddy \<Rightarrow> nat \<Rightarrow> buddy_tree_pos \<Rightarrow> buddy option" where
  "toggle_virtual_loop state b delta pos =
     (if delta = 0 then Some b
      else
        let current_pos_size = size_for_depth b (pos_depth pos)
        in if delta = current_pos_size then toggle_position b state pos
           else if delta \<le> current_pos_size div 2
             then toggle_virtual_loop state b delta (buddy_tree_right_child pos)
           else Option.bind (toggle_position b state (buddy_tree_right_child pos))
             (\<lambda>b'. toggle_virtual_loop state b' (delta - current_pos_size div 2) (buddy_tree_left_child pos)))"

definition buddy_toggle_virtual_slots :: "buddy \<Rightarrow> bool \<Rightarrow> buddy option" where
  "buddy_toggle_virtual_slots b state =
     (let effective = buddy_effective_memory_size b
      in if effective = memory_size b then Some b
         else toggle_virtual_loop state b (effective - memory_size b)
           (buddy_tree_right_child buddy_tree_root))"

text \<open>The inner option is the pointer the function returns, \<open>None\<close> for NULL.\<close>

definition buddy_init_alignment :: "ptr \<Rightarrow> ptr \<Rightarrow> nat \<Rightarrow> nat \<Rightarrow> buddy option option" where
  "buddy_init_alignment at_ptr main_ptr msize algn =
     (if at_ptr = NULL then Some None
      else if main_ptr = NULL then Some None
      else if at_ptr = main_ptr then Some None
      else if \<not> is_valid_alignment algn then Some None
      else if unat at_ptr mod 8 \<noteq> 0 then Some None
      else if unat main_ptr mod 8 \<noteq> 0 then Some None
      else
        let msize' = (if msize mod algn \<noteq> 0 then msize - msize mod algn else msize)
        in if buddy_sizeof_alignment msize' algn = 0 then Some None
           else
             let order = buddy_tree_order_for_memory msize' algn;
                 b = \<lparr>buddy_at = at_ptr, memory_size = msize', alignment = algn, arena = main_ptr,
                      buddy_flags = 0, buddy_tree_of = buddy_tree_init (order mod 256)\<rparr>
             in map_option Some (buddy_toggle_virtual_slots b True))"

definition buddy_init :: "ptr \<Rightarrow> ptr \<Rightarrow> nat \<Rightarrow> buddy option option" where
  "buddy_init at_ptr main_ptr msize = buddy_init_alignment at_ptr main_ptr msize BUDDY_ALLOC_ALIGN"

definition buddy_malloc :: "buddy \<Rightarrow> nat \<Rightarrow> (ptr \<times> buddy) option" where
  "buddy_malloc b requested_size =
     (let requested = (if requested_size = 0 then 1 else requested_size)
      in if requested > memory_size b then Some (NULL, b)
         else
           Option.bind (buddy_tree_find_free (buddy_tree_of b) (depth_for_size b requested mod 256))
             (\<lambda>pos. if \<not> buddy_tree_valid (buddy_tree_of b) pos then Some (NULL, b)
               else map_option (\<lambda>t. (address_for_position b pos, b\<lparr>buddy_tree_of := t\<rparr>))
                 (buddy_tree_mark (buddy_tree_of b) pos)))"

definition buddy_free :: "buddy \<Rightarrow> ptr \<Rightarrow> buddy option" where
  "buddy_free b ptr =
     (if ptr = NULL then Some b
      else if ptr < buddy_main b \<or> ptr \<ge> buddy_main b + of_nat (memory_size b) then Some b
      else
        let pos = position_for_address b ptr
        in if \<not> buddy_tree_valid (buddy_tree_of b) pos then Some b
           else map_option (\<lambda>(_, t). b\<lparr>buddy_tree_of := t\<rparr>) (buddy_tree_release (buddy_tree_of b) pos))"

definition buddy_alloc_size :: "buddy \<Rightarrow> ptr \<Rightarrow> nat" where
  "buddy_alloc_size b ptr =
     (if ptr = NULL then 0
      else if ptr < buddy_main b \<or> ptr \<ge> buddy_main b + of_nat (memory_size b) then 0
      else
        let pos = position_for_address b ptr
        in if \<not> buddy_tree_valid (buddy_tree_of b) pos then 0 else size_for_depth b (pos_depth pos))"

declare used_position.simps [simp del]

section \<open>Slots and leaves\<close>

text \<open>
  A position covers the leaves below it. Leaf \<open>x\<close> is the position \<open>2 ^ (N - 1) + x\<close>; a slot of
  the arena is described by its first leaf and its number of leaves.
\<close>

definition leaf_lo :: "nat \<Rightarrow> nat \<Rightarrow> nat" where
  "leaf_lo N i = (i - 2 ^ (bitlen i - 1)) * 2 ^ (N - bitlen i)"

definition leaf_count :: "nat \<Rightarrow> nat \<Rightarrow> nat" where
  "leaf_count N i = 2 ^ (N - bitlen i)"

definition covers :: "nat \<Rightarrow> nat \<Rightarrow> nat \<Rightarrow> bool" where
  "covers N i x \<longleftrightarrow> leaf_lo N i \<le> x \<and> x < leaf_lo N i + leaf_count N i"

lemma div_eq_range: "0 < n \<Longrightarrow> x div n = q \<longleftrightarrow> q * n \<le> x \<and> x < q * n + (n :: nat)"
proof
  assume "0 < n" "x div n = q"
  then have "x = q * n + x mod n" "x mod n < n" by (auto simp: mult.commute)
  then show "q * n \<le> x \<and> x < q * n + n" by linarith
next
  assume "0 < n" "q * n \<le> x \<and> x < q * n + n"
  then show "x div n = q" by (intro div_nat_eqI) (auto simp: mult.commute)
qed

lemma covers_iff_ancestor:
  assumes "node N i"
  shows "covers N i x \<longleftrightarrow> (2 ^ (N - 1) + x) div 2 ^ (N - bitlen i) = i"
proof -
  define d where "d = bitlen i"
  have i0: "0 < i" using assms by (simp add: node_def)
  have d: "0 < d" "d \<le> N" using bitlen_le [OF assms] i0 by (auto simp: d_def)
  have b: "2 ^ (d - 1) \<le> i" using bitlen_bounds [OF i0] by (simp add: d_def)
  have "(2 :: nat) ^ (N - 1) = 2 ^ (d - 1) * 2 ^ (N - d)"
    using d by (simp flip: power_add)
  then have "(2 ^ (N - 1) + x) div 2 ^ (N - d) = 2 ^ (d - 1) + x div 2 ^ (N - d)" by simp
  then have "(2 ^ (N - 1) + x) div 2 ^ (N - d) = i \<longleftrightarrow> x div 2 ^ (N - d) = i - 2 ^ (d - 1)"
    using b by auto
  also have "\<dots> \<longleftrightarrow> covers N i x"
    unfolding covers_def leaf_lo_def leaf_count_def d_def [symmetric] by (rule div_eq_range) simp
  finally show ?thesis by (simp add: d_def)
qed

lemma leaf_lo_top: "node N i \<Longrightarrow> leaf_lo N i + leaf_count N i \<le> 2 ^ (N - 1)"
proof -
  assume n: "node N i"
  define d where "d = bitlen i"
  have i0: "0 < i" using n by (simp add: node_def)
  have d: "0 < d" "d \<le> N" using bitlen_le [OF n] i0 by (auto simp: d_def)
  have "i < 2 ^ d" using bitlen_bounds [OF i0] by (simp add: d_def)
  moreover have "(2 :: nat) ^ d = 2 * 2 ^ (d - 1)" using d by (metis power_minus_mult mult.commute)
  ultimately have "i - 2 ^ (d - 1) + 1 \<le> 2 ^ (d - 1)" by linarith
  then have "(i - 2 ^ (d - 1) + 1) * 2 ^ (N - d) \<le> 2 ^ (d - 1) * 2 ^ (N - d)" by (rule mult_right_mono) simp
  also have "\<dots> = 2 ^ (N - 1)" using d by (simp flip: power_add)
  finally show ?thesis by (simp add: leaf_lo_def leaf_count_def d_def algebra_simps)
qed

lemma common_leaf:
  assumes "node N i" "node N j" "covers N i x" "covers N j x"
  shows "(\<exists>k. i = j div 2 ^ k) \<or> (\<exists>k. j = i div 2 ^ k)"
proof -
  let ?l = "2 ^ (N - 1) + x"
  have ij: "i = ?l div 2 ^ (N - bitlen i)" "j = ?l div 2 ^ (N - bitlen j)"
    using assms covers_iff_ancestor by metis+
  have up: "?l div 2 ^ a = ?l div 2 ^ b div 2 ^ (a - b)" if "b \<le> a" for a b
    using that by (simp add: div_mult2_eq [symmetric] flip: power_add)
  show ?thesis
  proof (cases "bitlen i \<le> bitlen j")
    case True
    then have "i = j div 2 ^ (N - bitlen i - (N - bitlen j))"
      using ij up [of "N - bitlen j" "N - bitlen i"] by simp
    then show ?thesis by blast
  next
    case False
    then have "j = i div 2 ^ (N - bitlen j - (N - bitlen i))"
      using ij up [of "N - bitlen i" "N - bitlen j"] by simp
    then show ?thesis by blast
  qed
qed

lemma allocated_disjoint:
  assumes "tree_inv N st" "allocated N st i" "allocated N st j" "covers N i x" "covers N j x"
  shows "i = j"
proof -
  have "node N i" "node N j" using assms by (auto simp: allocated_def)
  from common_leaf [OF this assms(4,5)] show ?thesis
  proof (elim disjE exE)
    fix k assume k: "i = j div 2 ^ k"
    then have "k = 0" using assms allocated_not_below by blast
    with k show ?thesis by simp
  next
    fix k assume k: "j = i div 2 ^ k"
    then have "k = 0" using assms allocated_not_below by blast
    with k show ?thesis by simp
  qed
qed

lemma available_disjoint:
  assumes "tree_inv N st" "available N st p" "allocated N st i"
  shows "\<not> (covers N p x \<and> covers N i x)"
proof
  assume c: "covers N p x \<and> covers N i x"
  have n: "node N p" "st p = 0" "\<And>k. \<not> allocated N st (p div 2 ^ k)" "node N i"
    using assms(2,3) by (auto simp: available_def allocated_def)
  from common_leaf [OF n(1,4)] c consider k where "p = i div 2 ^ k" | k where "i = p div 2 ^ k" by blast
  then show False
  proof cases
    case 1
    then have "st i = 0" using zero_below [OF assms(1) _ n(4), of k] n(1,2) by (simp add: node_def)
    then show False using assms(3) field_len_pos [OF n(4)] by (simp add: allocated_def)
  qed (use n(3) assms(3) in simp)
qed

section \<open>Well-formed allocators\<close>

text \<open>
  The shape of an allocator \<^verbatim>\<open>buddy_init\<close> produces, apart from the statuses: \<open>N\<close> is the order of
  its tree, the arena fits the address space, and the tree represents \<open>st\<close>.
\<close>

definition buddy_shape :: "nat \<Rightarrow> buddy \<Rightarrow> bool" where
  "buddy_shape N b \<longleftrightarrow> alignment b = 64 \<and> buddy_flags b = 0 \<and> arena b \<noteq> 0 \<and>
     64 \<le> memory_size b \<and> memory_size b mod 64 = 0 \<and> memory_size b \<le> 2 ^ 62 \<and>
     unat (arena b) + memory_size b < 2 ^ 64 \<and> 0 < N \<and>
     ceiling_power_of_two (memory_size b) = 64 * 2 ^ (N - 1)"

text \<open>The arena rounded up to a power of two: the leaves beyond the memory are never free.\<close>

definition buddy_ok :: "nat \<Rightarrow> buddy \<Rightarrow> (nat \<Rightarrow> nat) \<Rightarrow> bool" where
  "buddy_ok N b st \<longleftrightarrow> buddy_shape N b \<and> represents N (buddy_tree_of b) st \<and> tree_inv N st \<and>
     (\<forall>x < 2 ^ (N - 1). memory_size b \<le> 64 * x \<longrightarrow>
        (\<exists>i. allocated N st i \<and> covers N i x \<and> memory_size b \<le> 64 * leaf_lo N i))"

definition slot_addr :: "nat \<Rightarrow> buddy \<Rightarrow> nat \<Rightarrow> ptr" where
  "slot_addr N b i = arena b + of_nat (64 * leaf_lo N i)"

definition slot_size :: "nat \<Rightarrow> nat \<Rightarrow> nat" where
  "slot_size N i = 64 * leaf_count N i"

text \<open>The slots in use by callers: the allocated positions inside the memory.\<close>

definition live :: "nat \<Rightarrow> buddy \<Rightarrow> (nat \<Rightarrow> nat) \<Rightarrow> nat set" where
  "live N b st = {i. allocated N st i \<and> 64 * leaf_lo N i < memory_size b}"

lemma buddy_shape_tree [simp]: "buddy_shape N (b\<lparr>buddy_tree_of := t\<rparr>) = buddy_shape N b"
  by (simp add: buddy_shape_def)

lemma slot_addr_tree [simp]: "slot_addr N (b\<lparr>buddy_tree_of := t\<rparr>) = slot_addr N b"
  by (simp add: slot_addr_def fun_eq_iff)

lemma buddy_shape_order: "buddy_shape N b \<Longrightarrow> N \<le> 57"
proof -
  assume s: "buddy_shape N b"
  then have m: "0 < memory_size b" "memory_size b \<le> 2 ^ 63" by (auto simp: buddy_shape_def)
  obtain k where k: "ceiling_power_of_two (memory_size b) = 2 ^ k" "2 ^ k < 2 * memory_size b"
    using ceiling_power_of_two_bounds [OF m] by metis
  have "(64 :: nat) * 2 ^ (N - 1) = 2 ^ (6 + (N - 1))" by (simp add: power_add)
  with k s have "(2 :: nat) ^ (6 + (N - 1)) < 2 ^ 63" by (simp add: buddy_shape_def)
  then have "6 + (N - 1) < 63" by (rule power_less_imp_less_exp [rotated]) simp
  then show ?thesis by simp
qed

lemma buddy_main_arena: "buddy_shape N b \<Longrightarrow> buddy_main b = arena b"
  by (simp add: buddy_shape_def buddy_main_def buddy_relative_mode_def)

lemma effective_power: "buddy_shape N b \<Longrightarrow> buddy_effective_memory_size b = 2 ^ (N + 5)"
proof -
  assume s: "buddy_shape N b"
  then have "(2 :: nat) ^ (N + 5) = 64 * 2 ^ (N - 1)"
    by (cases N) (auto simp: buddy_shape_def power_add)
  with s show ?thesis by (simp add: buddy_shape_def buddy_effective_memory_size_def)
qed

lemma size_for_depth_power:
  assumes "buddy_shape N b" "0 < d" "d \<le> N"
  shows "size_for_depth b d = 64 * 2 ^ (N - d)"
proof -
  have "ceiling_power_of_two (memory_size b) = 64 * (2 ^ (N - d) * 2 ^ (d - 1))"
    using assms by (simp add: buddy_shape_def flip: power_add)
  then show ?thesis by (simp add: size_for_depth_def drop_bit_eq_div)
qed

lemma memory_le_effective: "buddy_shape N b \<Longrightarrow> memory_size b \<le> 64 * 2 ^ (N - 1) \<and> 64 * 2 ^ (N - 1) < 2 * memory_size b"
proof -
  assume s: "buddy_shape N b"
  then have m: "0 < memory_size b" "memory_size b \<le> 2 ^ 63" by (auto simp: buddy_shape_def)
  from ceiling_power_of_two_bounds [OF m] s show ?thesis by (metis buddy_shape_def)
qed

lemma index_internal: "node N i \<Longrightarrow> buddy_tree_index_internal (pos_of i) = i - 2 ^ (bitlen i - 1)"
proof -
  assume n: "node N i"
  then have i0: "0 < i" by (simp add: node_def)
  obtain d where d: "bitlen i = Suc d" using bitlen_pos [OF i0] by blast
  have "2 ^ d \<le> i" "i < 2 ^ Suc d" using bitlen_bounds [OF i0] d by auto
  then show ?thesis using d unset_top_bit by (simp add: buddy_tree_index_internal_def)
qed

lemma address_slot:
  assumes "buddy_shape N b" "node N i"
  shows "address_for_position b (pos_of i) = slot_addr N b i"
proof -
  have "0 < bitlen i" "bitlen i \<le> N" using bitlen_le [OF assms(2)] assms(2) by (auto simp: node_def)
  then show ?thesis
    using assms size_for_depth_power [OF assms(1)]
    by (simp add: address_for_position_def slot_addr_def buddy_main_arena index_internal leaf_lo_def mult_ac)
qed

lemma valid_node: "tree_ok N t \<Longrightarrow> buddy_tree_valid t pos \<longleftrightarrow> node N (pos_index pos)"
  by (auto simp: buddy_tree_valid_def tree_ok_def node_def)

section \<open>Allocation\<close>

lemma depth_for_size_ok:
  assumes "buddy_shape N b" "0 < req" "req \<le> memory_size b"
  shows "0 < depth_for_size b req" "depth_for_size b req \<le> N"
    "ceiling_power_of_two (max req 64) = 64 * 2 ^ (N - depth_for_size b req)"
proof -
  define r where "r = max req 64"
  have r: "0 < r" "r \<le> memory_size b" "64 \<le> r" using assms by (auto simp: r_def buddy_shape_def)
  then have "r \<le> 2 ^ 63" using assms(1) by (simp add: buddy_shape_def)
  then obtain k where k: "ceiling_power_of_two r = 2 ^ k" "r \<le> 2 ^ k" "2 ^ k < 2 * r" "k \<le> 63"
    using ceiling_power_of_two_bounds [OF r(1)] by metis
  have "(2 :: nat) ^ 6 < 2 ^ Suc k" using r(3) k(2) by simp
  then have "6 < Suc k" by (rule power_less_imp_less_exp [rotated]) simp
  then have k6: "6 \<le> k" by simp
  have "(2 :: nat) ^ k < 2 * (64 * 2 ^ (N - 1))" using k(3) r(2) memory_le_effective [OF assms(1)] by linarith
  also have "\<dots> = 2 ^ (N + 6)"
    using assms(1) by (cases N) (auto simp: buddy_shape_def power_add)
  finally have kN: "k < N + 6" by (rule power_less_imp_less_exp [rotated]) simp
  have N: "N \<le> 57" by (rule buddy_shape_order [OF assms(1)])
  have "(if req < alignment b then alignment b else req) = r"
    using assms(1) by (simp add: buddy_shape_def r_def)
  then have d: "depth_for_size b req = N + 6 - k"
    using effective_power [OF assms(1)] k(1) kN N
    by (simp add: depth_for_size_def count_trailing_zeroes_power)
  then show "0 < depth_for_size b req" "depth_for_size b req \<le> N" using k6 kN by auto
  have "N - depth_for_size b req = k - 6" using d k6 kN by simp
  moreover have "(64 :: nat) * 2 ^ (k - 6) = 2 ^ k"
    using k6 power_add [of "2 :: nat" 6 "k - 6"] by simp
  ultimately show "ceiling_power_of_two (max req 64) = 64 * 2 ^ (N - depth_for_size b req)"
    using k(1) by (simp add: r_def)
qed

lemma available_in_memory:
  assumes "buddy_ok N b st" "available N st p"
  shows "64 * (leaf_lo N p + leaf_count N p) \<le> memory_size b"
proof (rule ccontr)
  assume a: "\<not> ?thesis"
  define x where "x = leaf_lo N p + leaf_count N p - 1"
  have pos: "0 < leaf_count N p" by (simp add: leaf_count_def)
  have n: "node N p" using assms(2) by (simp add: available_def)
  have "covers N p x" using pos by (auto simp: covers_def x_def)
  moreover have "x < 2 ^ (N - 1)" using leaf_lo_top [OF n] pos by (simp add: x_def)
  moreover have "memory_size b \<le> 64 * x"
  proof -
    have "memory_size b mod 64 = 0" using assms(1) by (simp add: buddy_ok_def buddy_shape_def)
    then obtain q where q: "memory_size b = 64 * q" by auto
    with a have "q < leaf_lo N p + leaf_count N p" by simp
    then show ?thesis using q by (simp add: x_def)
  qed
  ultimately obtain i where "allocated N st i" "covers N i x"
    using assms(1) by (auto simp: buddy_ok_def)
  then show False
    using available_disjoint [of N st p i x] \<open>covers N p x\<close> assms by (auto simp: buddy_ok_def)
qed

lemma buddy_ok_update:
  assumes "buddy_ok N b st" "represents N t st'" "tree_inv N st'"
    and "\<And>i. allocated N st i \<Longrightarrow> memory_size b \<le> 64 * leaf_lo N i \<Longrightarrow> allocated N st' i"
  shows "buddy_ok N (b\<lparr>buddy_tree_of := t\<rparr>) st'"
  using assms by (fastforce simp: buddy_ok_def)

lemma slot_addr_nonzero:
  assumes "buddy_shape N b" "64 * leaf_lo N p < memory_size b"
  shows "slot_addr N b p \<noteq> NULL" "unat (slot_addr N b p) = unat (arena b) + 64 * leaf_lo N p"
proof -
  have lt: "unat (arena b) + 64 * leaf_lo N p < 2 ^ 64" using assms by (simp add: buddy_shape_def)
  have "unat (of_nat (64 * leaf_lo N p) :: u64) = 64 * leaf_lo N p"
    using lt by (simp add: unat_of_nat take_bit_nat_eq_self del: of_nat_mult)
  then show eq: "unat (slot_addr N b p) = unat (arena b) + 64 * leaf_lo N p"
    using lt unfolding slot_addr_def by (subst unat_add_lem [THEN iffD1]) (simp_all del: of_nat_mult)
  have "0 < unat (arena b)" using assms(1) by (simp add: buddy_shape_def unat_gt_0)
  with eq show "slot_addr N b p \<noteq> NULL" by (metis add_is_0 less_irrefl unat_0)
qed

lemma malloc_cases:
  assumes ok: "buddy_ok N b st" and req: "0 < req" "req \<le> memory_size b"
  shows "(\<exists>p t. available N st p \<and> bitlen p = depth_for_size b req \<and>
      buddy_malloc b req = Some (slot_addr N b p, b\<lparr>buddy_tree_of := t\<rparr>) \<and>
      represents N t (chain (st(p := field_len N p)) p)) \<or>
    buddy_malloc b req = Some (NULL, b) \<and> (\<forall>p. available N st p \<longrightarrow> bitlen p \<noteq> depth_for_size b req)"
proof -
  have s: "buddy_shape N b" and rep: "represents N (buddy_tree_of b) st" and inv: "tree_inv N st"
    using ok by (auto simp: buddy_ok_def)
  note d = depth_for_size_ok(1,2) [OF s req]
  have d256: "depth_for_size b req mod 256 = depth_for_size b req"
    using d(2) buddy_shape_order [OF s] by simp
  from find_free_represents [OF rep inv d] show ?thesis
  proof (elim disjE exE conjE)
    fix p assume p: "buddy_tree_find_free (buddy_tree_of b) (depth_for_size b req) = Some (pos_of p)"
      "available N st p" "bitlen p = depth_for_size b req"
    have n: "node N p" using p(2) by (simp add: available_def)
    obtain t where "buddy_tree_mark (buddy_tree_of b) (pos_of p) = Some t"
        "represents N t (chain (st(p := field_len N p)) p)"
      using mark_represents [OF rep inv p(2)] by blast
    then have "buddy_malloc b req = Some (slot_addr N b p, b\<lparr>buddy_tree_of := t\<rparr>)"
      using p(1) req d256 valid_node [OF represents_ok [OF rep]] n address_slot [OF s n]
      by (simp add: buddy_malloc_def)
    then show ?thesis using p \<open>represents N t _\<close> by blast
  next
    assume "buddy_tree_find_free (buddy_tree_of b) (depth_for_size b req) = Some INVALID_POS"
      "\<forall>p. available N st p \<longrightarrow> bitlen p \<noteq> depth_for_size b req"
    then show ?thesis using req d256
      by (simp add: buddy_malloc_def buddy_tree_valid_def INVALID_POS_def)
  qed
qed

lemma malloc_ok:
  assumes ok: "buddy_ok N b st" and av: "available N st p"
    and rep: "represents N t (chain (st(p := field_len N p)) p)"
  shows "buddy_ok N (b\<lparr>buddy_tree_of := t\<rparr>) (chain (st(p := field_len N p)) p)"
    "live N b (chain (st(p := field_len N p)) p) = insert p (live N b st)" "p \<notin> live N b st"
proof -
  have inv: "tree_inv N st" using ok by (simp add: buddy_ok_def)
  note m = mark_statuses [OF inv av]
  show "buddy_ok N (b\<lparr>buddy_tree_of := t\<rparr>) (chain (st(p := field_len N p)) p)"
    using ok rep m by (intro buddy_ok_update) auto
  have "64 * leaf_lo N p < memory_size b"
    using available_in_memory [OF ok av] by (auto simp: leaf_count_def intro: less_le_trans [rotated])
  then show "live N b (chain (st(p := field_len N p)) p) = insert p (live N b st)"
    by (auto simp: live_def m(2))
  show "p \<notin> live N b st"
    using av field_len_pos [of N p] by (auto simp: live_def allocated_def available_def)
qed

section \<open>Release\<close>

lemma leftmost_leaf:
  assumes "node N i"
  shows "2 ^ (N - 1) + leaf_lo N i = i * 2 ^ (N - bitlen i)"
proof -
  define d where "d = bitlen i"
  have i0: "0 < i" using assms by (simp add: node_def)
  have d: "0 < d" "d \<le> N" using bitlen_le [OF assms] i0 by (auto simp: d_def)
  have b: "2 ^ (d - 1) \<le> i" using bitlen_bounds [OF i0] by (simp add: d_def)
  have "(2 :: nat) ^ (N - 1) = 2 ^ (d - 1) * 2 ^ (N - d)" using d by (simp flip: power_add)
  then show ?thesis using b by (simp add: leaf_lo_def d_def [symmetric] diff_mult_distrib)
qed

lemma used_position_at:
  assumes rep: "represents N t st" and "node N (i * 2 ^ k)" "0 < i" "st i \<noteq> 0"
    and "\<And>j. j < k \<Longrightarrow> st (i * 2 ^ Suc j) = 0"
  shows "used_position t (pos_of (i * 2 ^ k)) = pos_of i"
  using assms(2,5)
proof (induction k)
  case 0
  then show ?case using status_represents [OF rep, of i] assms(4) by (simp add: used_position.simps)
next
  case (Suc k)
  have half: "i * 2 ^ Suc k div 2 = i * 2 ^ k" by simp
  have "0 < i * 2 ^ k" using assms(3) by simp
  moreover have "i * 2 ^ Suc k = 2 * (i * 2 ^ k)" by simp
  ultimately have gt: "1 < i * 2 ^ Suc k" by linarith
  have n: "node N (i * 2 ^ k)" using node_half [OF Suc.prems(1) gt] half by simp
  have "st (i * 2 ^ Suc k) = 0" using Suc.prems(2) by blast
  then have "buddy_tree_status t (pos_of (i * 2 ^ Suc k)) = 0"
    using status_represents [OF rep Suc.prems(1)] by simp
  moreover have "buddy_tree_parent (pos_of (i * 2 ^ Suc k)) = pos_of (i * 2 ^ k)"
    using parent_pos_of [OF gt] half by simp
  moreover have "buddy_tree_valid t (pos_of (i * 2 ^ k))"
    using n valid_node [OF represents_ok [OF rep]] by simp
  ultimately show ?case using Suc.IH [OF n] Suc.prems(2) by (subst used_position.simps) simp
qed

text \<open>What the climb finds: a position in use, reached from below through free ones only.\<close>

lemma used_position_result:
  assumes rep: "represents N t st" and inv: "tree_inv N st" and "node N l" "\<not> 2 * l < 2 ^ N \<or> st l = 0"
  shows "used_position t (pos_of l) = INVALID_POS \<or>
    (\<exists>q. used_position t (pos_of l) = pos_of q \<and> node N q \<and> st q \<noteq> 0 \<and>
      (st q = field_len N q \<longrightarrow> allocated N st q))"
  using assms(3,4)
proof (induction l rule: less_induct)
  case (less l)
  have status: "buddy_tree_status t (pos_of l) = st l" by (rule status_represents [OF rep less.prems(1)])
  show ?case
  proof (cases "st l = 0")
    case False
    then show ?thesis using less.prems status
      by (intro disjI2 exI [of _ l]) (auto simp: used_position.simps allocated_def)
  next
    case True
    show ?thesis
    proof (cases "l = 1")
      case True
      then show ?thesis using status \<open>st l = 0\<close>
        by (subst used_position.simps) (simp add: buddy_tree_valid_def buddy_tree_parent_def)
    next
      case False
      then have gt: "1 < l" using less.prems(1) by (auto simp: node_def)
      define q where "q = l div 2"
      have n: "node N q" unfolding q_def by (rule node_half [OF less.prems(1) gt])
      have step: "used_position t (pos_of l) = used_position t (pos_of q)"
        using True status n valid_node [OF represents_ok [OF rep]] parent_pos_of [OF gt]
        by (subst used_position.simps) (simp add: q_def)
      show ?thesis
      proof (cases "st q = 0")
        case True
        then show ?thesis unfolding step using n gt by (intro less.IH) (auto simp: q_def)
      next
        case nz: False
        have inner: "0 < q" "2 * q < 2 ^ N" using gt less.prems(1) by (auto simp: q_def node_def)
        have cons: "consistent N st q" unfolding q_def by (rule tree_inv_consistent [OF inv less.prems(1) gt])
        have "field_len N (2 * q) > 0" using inner by (intro field_len_pos) (simp add: node_def)
        then have "allocated N st q" if "st q = field_len N q"
          using cons that child_cases [of l q] True n field_len_child [OF inner]
          by (auto simp: consistent_def allocated_def q_def split: if_splits)
        moreover have "used_position t (pos_of q) = pos_of q"
          using status_represents [OF rep n] nz by (simp add: used_position.simps)
        ultimately show ?thesis unfolding step using n nz by auto
      qed
    qed
  qed
qed

lemma leaf_lo_less: "node N i \<Longrightarrow> leaf_lo N i < 2 ^ (N - 1)"
proof -
  assume "node N i"
  then have "leaf_lo N i + leaf_count N i \<le> 2 ^ (N - 1)" by (rule leaf_lo_top)
  moreover have "0 < leaf_count N i" by (simp add: leaf_count_def)
  ultimately show ?thesis by linarith
qed

lemma deepest_position:
  assumes "buddy_shape N b" "tree_ok N (buddy_tree_of b)" "off div 64 < 2 ^ (N - 1)"
  shows "deepest_position_for_offset b off = pos_of (2 ^ (N - 1) + off div 64)"
    "node N (2 ^ (N - 1) + off div 64)" "\<not> 2 * (2 ^ (N - 1) + off div 64) < 2 ^ N"
proof -
  have N: "0 < N" using assms(1) by (simp add: buddy_shape_def)
  then have pow: "(2 :: nat) ^ N = 2 * 2 ^ (N - 1)" by (metis power_minus_mult mult.commute)
  have "bitlen (2 ^ (N - 1) + off div 64) = Suc (N - 1)"
    using assms(3) by (intro bitlen_unique) auto
  then show "deepest_position_for_offset b off = pos_of (2 ^ (N - 1) + off div 64)"
    using assms N
    by (simp add: deepest_position_for_offset_def buddy_tree_leftmost_child_def tree_ok_def
        buddy_shape_def pos_of_def two_to_the_power_of_def push_bit_eq_mult)
  show "node N (2 ^ (N - 1) + off div 64)" "\<not> 2 * (2 ^ (N - 1) + off div 64) < 2 ^ N"
    using assms(3) pow by (auto simp: node_def)
qed

lemma in_arena_offset:
  assumes "buddy_shape N b" "\<not> (p < buddy_main b \<or> p \<ge> buddy_main b + of_nat (memory_size b))"
  shows "unat (p - arena b) < memory_size b" "unat (p - arena b) div 64 < 2 ^ (N - 1)"
    "unat p = unat (arena b) + unat (p - arena b)"
proof -
  have m: "unat (arena b) + memory_size b < 2 ^ 64" using assms(1) by (simp add: buddy_shape_def)
  have "unat (of_nat (memory_size b) :: u64) = memory_size b"
    using m by (simp add: unat_of_nat take_bit_nat_eq_self)
  then have top: "unat (arena b + of_nat (memory_size b)) = unat (arena b) + memory_size b"
    using m by (subst unat_add_lem [THEN iffD1]) simp_all
  have le: "arena b \<le> p" "p < arena b + of_nat (memory_size b)"
    using assms(2) buddy_main_arena [OF assms(1)] by auto
  then have "unat (p - arena b) = unat p - unat (arena b)" by (simp add: unat_sub)
  then show lt: "unat (p - arena b) < memory_size b" "unat p = unat (arena b) + unat (p - arena b)"
    using le top by (auto simp: word_less_nat_alt word_le_nat_alt)
  have "memory_size b \<le> 64 * 2 ^ (N - 1)" using memory_le_effective [OF assms(1)] by simp
  with lt(1) have "unat (p - arena b) < 64 * 2 ^ (N - 1)" by linarith
  then show "unat (p - arena b) div 64 < 2 ^ (N - 1)" by (simp add: less_mult_imp_div_less mult.commute)
qed

lemma slot_in_arena:
  assumes "buddy_shape N b" "64 * leaf_lo N i < memory_size b"
  shows "\<not> (slot_addr N b i < buddy_main b \<or> slot_addr N b i \<ge> buddy_main b + of_nat (memory_size b))"
    "unat (slot_addr N b i - arena b) = 64 * leaf_lo N i"
proof -
  have m: "unat (arena b) + memory_size b < 2 ^ 64" using assms(1) by (simp add: buddy_shape_def)
  have "unat (of_nat (memory_size b) :: u64) = memory_size b"
    using m by (simp add: unat_of_nat take_bit_nat_eq_self)
  then have "unat (arena b + of_nat (memory_size b)) = unat (arena b) + memory_size b"
    using m by (subst unat_add_lem [THEN iffD1]) simp_all
  then show "\<not> (slot_addr N b i < buddy_main b \<or> slot_addr N b i \<ge> buddy_main b + of_nat (memory_size b))"
    using assms slot_addr_nonzero [OF assms] buddy_main_arena [OF assms(1)]
    by (auto simp: word_less_nat_alt word_le_nat_alt)
  show "unat (slot_addr N b i - arena b) = 64 * leaf_lo N i"
    using m assms(2) by (simp add: slot_addr_def unat_of_nat take_bit_nat_eq_self del: of_nat_mult)
qed

lemma position_for_live:
  assumes ok: "buddy_ok N b st" and i: "i \<in> live N b st"
  shows "position_for_address b (slot_addr N b i) = pos_of i"
proof -
  have s: "buddy_shape N b" and rep: "represents N (buddy_tree_of b) st" and inv: "tree_inv N st"
    using ok by (auto simp: buddy_ok_def)
  have al: "allocated N st i" and lo: "64 * leaf_lo N i < memory_size b" and n: "node N i"
    using i by (auto simp: live_def allocated_def)
  have i0: "0 < i" using n by (simp add: node_def)
  note sa = slot_in_arena [OF s lo]
  define k where "k = N - bitlen i"
  have leaf: "2 ^ (N - 1) + leaf_lo N i = i * 2 ^ k" unfolding k_def by (rule leftmost_leaf [OF n])
  have "leaf_lo N i < 2 ^ (N - 1)" by (rule leaf_lo_less [OF n])
  then have deep: "deepest_position_for_offset b (64 * leaf_lo N i) = pos_of (i * 2 ^ k)" "node N (i * 2 ^ k)"
    using deepest_position [OF s represents_ok [OF rep], of "64 * leaf_lo N i"] leaf by auto
  have "used_position (buddy_tree_of b) (pos_of (i * 2 ^ k)) = pos_of i"
  proof (rule used_position_at [OF rep deep(2) i0])
    show "st i \<noteq> 0" using al field_len_pos [OF n] by (simp add: allocated_def)
    fix j assume j: "j < k"
    have "node N (i * 2 ^ Suc j)"
    proof -
      have "i * 2 ^ Suc j \<le> i * 2 ^ k" using j by (intro mult_left_mono power_increasing) auto
      moreover have "i * 2 ^ k < 2 ^ N" using deep(2) by (simp add: node_def)
      ultimately have "i * 2 ^ Suc j < 2 ^ N" by linarith
      then show ?thesis using i0 by (simp add: node_def)
    qed
    then show "st (i * 2 ^ Suc j) = 0" using al by (intro allocated_below [OF inv, of _ "Suc j"]) auto
  qed
  moreover have "pos_of i \<noteq> INVALID_POS" using i0 by (simp add: pos_of_def INVALID_POS_def)
  ultimately show ?thesis
    using sa(2) deep(1) s address_slot [OF s n] buddy_main_arena [OF s]
    by (simp add: position_for_address_def Let_def buddy_shape_def)
qed

lemma free_live:
  assumes ok: "buddy_ok N b st" and i: "i \<in> live N b st"
  shows "\<exists>t. buddy_free b (slot_addr N b i) = Some (b\<lparr>buddy_tree_of := t\<rparr>) \<and>
    represents N t (chain (st(i := 0)) i) \<and>
    buddy_ok N (b\<lparr>buddy_tree_of := t\<rparr>) (chain (st(i := 0)) i) \<and>
    live N b (chain (st(i := 0)) i) = live N b st - {i}"
proof -
  have s: "buddy_shape N b" and rep: "represents N (buddy_tree_of b) st" and inv: "tree_inv N st"
    using ok by (auto simp: buddy_ok_def)
  have al: "allocated N st i" and lo: "64 * leaf_lo N i < memory_size b" and n: "node N i"
    using i by (auto simp: live_def allocated_def)
  obtain t where t: "buddy_tree_release (buddy_tree_of b) (pos_of i) = Some (BUDDY_TREE_RELEASE_SUCCESS, t)"
      "represents N t (chain (st(i := 0)) i)"
    using release_represents [OF rep inv al] by blast
  note r = release_statuses [OF inv al]
  have "buddy_ok N (b\<lparr>buddy_tree_of := t\<rparr>) (chain (st(i := 0)) i)"
  proof (rule buddy_ok_update [OF ok t(2) r(1)])
    fix j assume "allocated N st j" "memory_size b \<le> 64 * leaf_lo N j"
    then show "allocated N (chain (st(i := 0)) i) j" using r(2) [of j] lo by (cases "j = i") simp_all
  qed
  moreover have "live N b (chain (st(i := 0)) i) = live N b st - {i}"
    by (auto simp: live_def r(2))
  moreover have "buddy_free b (slot_addr N b i) = Some (b\<lparr>buddy_tree_of := t\<rparr>)"
    using slot_addr_nonzero(1) [OF s lo] slot_in_arena(1) [OF s lo] position_for_live [OF ok i] t(1) n
      valid_node [OF represents_ok [OF rep], of "pos_of i"]
    by (simp add: buddy_free_def Let_def)
  ultimately show ?thesis using t(2) by blast
qed

lemma free_other:
  assumes ok: "buddy_ok N b st" and p: "\<And>i. i \<in> live N b st \<Longrightarrow> p \<noteq> slot_addr N b i"
  shows "buddy_free b p = Some b"
proof (cases "p = NULL \<or> p < buddy_main b \<or> p \<ge> buddy_main b + of_nat (memory_size b)")
  case True
  then show ?thesis by (auto simp: buddy_free_def)
next
  case False
  have s: "buddy_shape N b" and rep: "represents N (buddy_tree_of b) st" and inv: "tree_inv N st"
    using ok by (auto simp: buddy_ok_def)
  have inside: "\<not> (p < buddy_main b \<or> p \<ge> buddy_main b + of_nat (memory_size b))" using False by simp
  define off where "off = unat (p - arena b)"
  note o = in_arena_offset [OF s inside, folded off_def]
  note deep = deepest_position [OF s represents_ok [OF rep] o(2)]
  define l where "l = 2 ^ (N - 1) + off div 64"
  have align: "alignment b = 64" using s by (simp add: buddy_shape_def)
  have "(\<not> buddy_tree_valid (buddy_tree_of b) (position_for_address b p)) \<or>
      (\<exists>q. position_for_address b p = pos_of q \<and> node N q \<and> st q \<noteq> field_len N q)"
  proof -
    have pos: "position_for_address b p = (if off mod 64 \<noteq> 0 then INVALID_POS
        else let u = used_position (buddy_tree_of b) (pos_of l)
          in if u = INVALID_POS then INVALID_POS else if address_for_position b u \<noteq> p then INVALID_POS else u)"
      unfolding position_for_address_def Let_def buddy_main_arena [OF s] off_def [symmetric] align deep(1)
        l_def ..
    have inv_pos: "\<not> buddy_tree_valid (buddy_tree_of b) INVALID_POS"
      by (simp add: buddy_tree_valid_def INVALID_POS_def)
    from used_position_result [OF rep inv, of l] deep(2,3)
    consider "used_position (buddy_tree_of b) (pos_of l) = INVALID_POS"
      | q where "used_position (buddy_tree_of b) (pos_of l) = pos_of q" "node N q"
          "st q = field_len N q \<longrightarrow> allocated N st q"
      unfolding l_def by blast
    then show ?thesis
    proof cases
      case 1
      then show ?thesis using pos inv_pos by (auto simp: Let_def)
    next
      case 2
      have adr: "address_for_position b (pos_of q) = slot_addr N b q" by (rule address_slot [OF s 2(2)])
      show ?thesis
      proof (cases "slot_addr N b q = p \<and> st q = field_len N q")
        case True
        then have al: "allocated N st q" using 2(3) by simp
        have "off = unat (of_nat (64 * leaf_lo N q) :: u64)"
          using True by (auto simp: off_def slot_addr_def)
        moreover have "64 * leaf_lo N q < 2 ^ 64"
        proof -
          have "leaf_lo N q < 2 ^ (N - 1)" by (rule leaf_lo_less [OF 2(2)])
          moreover have "64 * 2 ^ (N - 1) < 2 * memory_size b" using memory_le_effective [OF s] by simp
          ultimately show ?thesis using s by (simp add: buddy_shape_def)
        qed
        ultimately have "64 * leaf_lo N q < memory_size b"
          using o(1) by (simp add: unat_of_nat take_bit_nat_eq_self del: of_nat_mult)
        then have "q \<in> live N b st" using al by (simp add: live_def)
        then show ?thesis using p [of q] True by simp
      next
        case False
        then show ?thesis using pos inv_pos 2 adr by (auto simp: Let_def)
      qed
    qed
  qed
  then show ?thesis
  proof (elim disjE exE conjE)
    fix q assume "position_for_address b p = pos_of q" "node N q" "st q \<noteq> field_len N q"
    then show ?thesis using release_partial [OF rep] by (simp add: buddy_free_def Let_def)
  qed (simp add: buddy_free_def Let_def)
qed

section \<open>Initialisation\<close>

lemma leaf_children:
  assumes "0 < q" "2 * q < 2 ^ N"
  shows "leaf_count N q = 2 * leaf_count N (2 * q)" "leaf_count N (2 * q + 1) = leaf_count N (2 * q)"
    "leaf_lo N (2 * q) = leaf_lo N q" "leaf_lo N (2 * q + 1) = leaf_lo N q + leaf_count N (2 * q)"
    "bitlen q < N"
proof -
  have "node N (2 * q)" using assms by (simp add: node_def)
  then show lt: "bitlen q < N" using bitlen_le [of N "2 * q"] assms(1) by (simp add: bitlen_double)
  then have pow: "(2 :: nat) ^ (N - bitlen q) = 2 * 2 ^ (N - Suc (bitlen q))"
    by (metis Suc_diff_Suc power_Suc)
  show "leaf_count N q = 2 * leaf_count N (2 * q)" "leaf_count N (2 * q + 1) = leaf_count N (2 * q)"
    using assms(1) pow by (simp_all add: leaf_count_def bitlen_double)
  obtain d where d: "bitlen q = Suc d" using bitlen_pos [OF assms(1)] by blast
  have "2 ^ d \<le> q" using bitlen_bounds [OF assms(1)] d by simp
  then have "2 * q - 2 ^ Suc d = 2 * (q - 2 ^ d)" "2 * q + 1 - 2 ^ Suc d = 2 * (q - 2 ^ d) + 1" by auto
  then show "leaf_lo N (2 * q) = leaf_lo N q" "leaf_lo N (2 * q + 1) = leaf_lo N q + leaf_count N (2 * q)"
    using assms(1) pow d by (simp_all add: leaf_lo_def leaf_count_def bitlen_double)
qed

lemma available_child:
  assumes "tree_inv N st" "available N st q" "2 * q < 2 ^ N" "c div 2 = q"
  shows "available N st c"
proof -
  have q: "node N q" "st q = 0" "\<And>k. \<not> allocated N st (q div 2 ^ k)" using assms(2) by (auto simp: available_def)
  have q0: "0 < q" using q(1) by (simp add: node_def)
  then have N: "0 < N" using q(1) by (cases N) (auto simp: node_def)
  have c: "node N c" using child_cases [OF assms(4)] assms(3) inner_even_pow [OF N] q0 by (auto simp: node_def)
  have "consistent N st q" using assms(1,3) q0 by (simp add: tree_inv_def)
  from consistent_zero [OF this q(2)] have z: "st c = 0" using child_cases [OF assms(4)] by auto
  have "\<not> allocated N st (c div 2 ^ k)" for k
  proof (cases k)
    case 0
    then show ?thesis using z field_len_pos [OF c] by (simp add: allocated_def)
  next
    case (Suc k')
    then show ?thesis using q(3) [of k'] assms(4) by (simp add: div_mult2_eq)
  qed
  with c z show ?thesis by (simp add: available_def)
qed

lemma available_after_mark:
  assumes "tree_inv N st" "available N st q" "2 * q < 2 ^ N"
  shows "available N (chain (st(2 * q + 1 := field_len N (2 * q + 1))) (2 * q + 1)) (2 * q)"
proof -
  let ?r = "2 * q + 1"
  let ?st = "chain (st(?r := field_len N ?r)) ?r"
  have r: "available N st ?r" by (rule available_child [OF assms]) simp
  have l: "available N st (2 * q)" by (rule available_child [OF assms]) simp
  have "\<not> proper_ancestor (2 * q) ?r"
  proof
    assume "proper_ancestor (2 * q) ?r"
    then have "2 * q = q \<or> proper_ancestor (2 * q) q"
      using assms(2) proper_ancestor_half [of ?r "2 * q"] by (auto simp: available_def node_def)
    then show False using proper_ancestor_less [of "2 * q" q] assms(2) by (auto simp: available_def node_def)
  qed
  then have "?st (2 * q) = 0" using l by (simp add: chain_other available_def)
  moreover have "\<not> allocated N ?st (2 * q div 2 ^ k)" for k
  proof -
    have "2 * q div 2 ^ k \<le> 2 * q" by (rule div_le_dividend)
    then have "2 * q div 2 ^ k \<noteq> ?r" by linarith
    then show ?thesis using mark_statuses(2) [OF assms(1) r] l by (auto simp: available_def)
  qed
  ultimately show ?thesis using l by (simp add: available_def)
qed

lemma toggle_virtual_loop_ok:
  assumes "buddy_shape N b" "represents N (buddy_tree_of b) st" "tree_inv N st" "available N st q"
    and "0 < delta" "delta mod 64 = 0" "delta \<le> 64 * leaf_count N q"
    and "64 * (leaf_lo N q + leaf_count N q) - delta = S"
  shows "\<exists>t st'. toggle_virtual_loop True b delta (pos_of q) = Some (b\<lparr>buddy_tree_of := t\<rparr>) \<and>
    represents N t st' \<and> tree_inv N st' \<and> (\<forall>j. allocated N st j \<longrightarrow> allocated N st' j) \<and>
    (\<forall>x. covers N q x \<longrightarrow> S \<le> 64 * x \<longrightarrow> (\<exists>j. allocated N st' j \<and> covers N j x \<and> S \<le> 64 * leaf_lo N j)) \<and>
    (\<forall>j. allocated N st' j \<longrightarrow> allocated N st j \<or> S \<le> 64 * leaf_lo N j)"
  using assms
proof (induction "N - bitlen q" arbitrary: q b st delta rule: less_induct)
  case less
  note s = less.prems(1) and rep = less.prems(2) and inv = less.prems(3) and av = less.prems(4)
  have n: "node N q" and q0: "0 < q" using av by (auto simp: available_def node_def)
  have bl: "0 < bitlen q" "bitlen q \<le> N" using bitlen_le [OF n] q0 by auto
  have size: "size_for_depth b (pos_depth (pos_of q)) = 64 * leaf_count N q"
    using size_for_depth_power [OF s bl] by (simp add: leaf_count_def)
  have mark: "\<exists>t. toggle_position b True (pos_of p) = Some (b\<lparr>buddy_tree_of := t\<rparr>) \<and>
      represents N t (chain (st(p := field_len N p)) p)" if "available N st p" for p
    using mark_represents [OF rep inv that] by (auto simp: toggle_position_def)
  show ?case
  proof (cases "delta = 64 * leaf_count N q")
    case True
    obtain t where t: "toggle_position b True (pos_of q) = Some (b\<lparr>buddy_tree_of := t\<rparr>)"
        "represents N t (chain (st(q := field_len N q)) q)" using mark [OF av] by blast
    have "toggle_virtual_loop True b delta (pos_of q) = Some (b\<lparr>buddy_tree_of := t\<rparr>)"
      using True size less.prems(5) t(1) by (subst toggle_virtual_loop.simps) simp
    moreover have S: "S = 64 * leaf_lo N q" using less.prems(8) True by simp
    moreover note m = mark_statuses [OF inv av]
    moreover have "\<forall>x. covers N q x \<longrightarrow> S \<le> 64 * x \<longrightarrow>
        (\<exists>j. allocated N (chain (st(q := field_len N q)) q) j \<and> covers N j x \<and> S \<le> 64 * leaf_lo N j)"
      using m(2) [of q] S by (intro allI impI exI [of _ q]) simp
    moreover have "\<forall>j. allocated N st j \<longrightarrow> allocated N (chain (st(q := field_len N q)) q) j"
      using m(2) by blast
    moreover have "\<forall>j. allocated N (chain (st(q := field_len N q)) q) j \<longrightarrow> allocated N st j \<or> S \<le> 64 * leaf_lo N j"
      using m(2) S by (metis order_refl)
    ultimately show ?thesis using t(2) by blast
  next
    case False
    then have lt: "delta < 64 * leaf_count N q" using less.prems(7) by simp
    have inner: "2 * q < 2 ^ N"
    proof (rule ccontr)
      assume "\<not> 2 * q < 2 ^ N"
      have "bitlen q = N"
      proof (rule ccontr)
        assume "bitlen q \<noteq> N"
        then have "q < 2 ^ (N - 1)"
          using bl bitlen_bounds [OF q0] power_increasing [of "bitlen q" "N - 1" "2 :: nat"] by linarith
        moreover have "(2 :: nat) ^ N = 2 * 2 ^ (N - 1)" using bl by (metis power_minus_mult mult.commute less_le_trans)
        ultimately show False using \<open>\<not> 2 * q < 2 ^ N\<close> by simp
      qed
      then have "delta < 64" using lt by (simp add: leaf_count_def)
      then show False using less.prems(5,6) by simp
    qed
    note lc = leaf_children [OF q0 inner]
    define c where "c = leaf_count N (2 * q)"
    have half: "64 * leaf_count N q div 2 = 64 * c" using lc(1) by (simp add: c_def)
    show ?thesis
    proof (cases "delta \<le> 64 * c")
      case True
      have loop: "toggle_virtual_loop True b delta (pos_of q) = toggle_virtual_loop True b delta (pos_of (2 * q + 1))"
        using False True size half less.prems(5) right_pos_of [OF q0]
        by (subst toggle_virtual_loop.simps) (simp add: Let_def)
      have S: "64 * (leaf_lo N (2 * q + 1) + leaf_count N (2 * q + 1)) - delta = S"
        using lc less.prems(8) by simp
      have av': "available N st (2 * q + 1)" by (rule available_child [OF inv av inner]) simp
      have cov: "covers N (2 * q + 1) x" if "covers N q x" "S \<le> 64 * x" for x
        using that True lc less.prems(8) by (auto simp: covers_def c_def)
      have "bitlen (2 * q + 1) = Suc (bitlen q)" using q0 by (simp add: bitlen_double)
      then have "N - bitlen (2 * q + 1) < N - bitlen q" using lc(5) by simp
      moreover have "delta \<le> 64 * leaf_count N (2 * q + 1)" using True lc(2) by (simp add: c_def)
      ultimately obtain t st' where st': "toggle_virtual_loop True b delta (pos_of (2 * q + 1)) = Some (b\<lparr>buddy_tree_of := t\<rparr>)"
          "represents N t st'" "tree_inv N st'" "\<forall>j. allocated N st j \<longrightarrow> allocated N st' j"
          "\<forall>x. covers N (2 * q + 1) x \<longrightarrow> S \<le> 64 * x \<longrightarrow> (\<exists>j. allocated N st' j \<and> covers N j x \<and> S \<le> 64 * leaf_lo N j)"
          "\<forall>j. allocated N st' j \<longrightarrow> allocated N st j \<or> S \<le> 64 * leaf_lo N j"
        using less.hyps [OF _ s rep inv av' less.prems(5,6) _ S] by auto
      then show ?thesis unfolding loop using cov by blast
    next
      case big: False
      let ?r = "2 * q + 1"
      have avr: "available N st ?r" by (rule available_child [OF inv av inner]) simp
      define st1 where "st1 = chain (st(?r := field_len N ?r)) ?r"
      obtain t1 where t1: "toggle_position b True (pos_of ?r) = Some (b\<lparr>buddy_tree_of := t1\<rparr>)" "represents N t1 st1"
        using mark [OF avr] unfolding st1_def by blast
      note m = mark_statuses [OF inv avr, folded st1_def]
      have avl: "available N st1 (2 * q)"
        unfolding st1_def by (rule available_after_mark [OF inv av inner])
      let ?b = "b\<lparr>buddy_tree_of := t1\<rparr>"
      have loop: "toggle_virtual_loop True b delta (pos_of q) =
          toggle_virtual_loop True ?b (delta - 64 * c) (pos_of (2 * q))"
        using False big size half less.prems(5) right_pos_of [OF q0] left_pos_of [OF q0] t1(1)
        by (subst toggle_virtual_loop.simps) (simp add: Let_def)
      have S: "64 * (leaf_lo N (2 * q) + leaf_count N (2 * q)) - (delta - 64 * c) = S"
        using lc less.prems(8) big lt by (simp add: c_def)
      have "delta mod 64 = 0" by (rule less.prems(6))
      then have d: "0 < delta - 64 * c" "(delta - 64 * c) mod 64 = 0" "delta - 64 * c \<le> 64 * leaf_count N (2 * q)"
        using big lt lc(1) by (auto simp: c_def mod_eq_0_iff_dvd dvd_diff_nat)
      have "bitlen (2 * q) = Suc (bitlen q)" using q0 by (simp add: bitlen_double)
      then have "N - bitlen (2 * q) < N - bitlen q" using lc(5) by simp
      from less.hyps [OF this, of ?b st1 "delta - 64 * c", OF _ _ m(1) avl d S] s t1(2)
      obtain t st' where st': "toggle_virtual_loop True ?b (delta - 64 * c) (pos_of (2 * q)) = Some (b\<lparr>buddy_tree_of := t\<rparr>)"
          "represents N t st'" "tree_inv N st'" "\<forall>j. allocated N st1 j \<longrightarrow> allocated N st' j"
          "\<forall>x. covers N (2 * q) x \<longrightarrow> S \<le> 64 * x \<longrightarrow> (\<exists>j. allocated N st' j \<and> covers N j x \<and> S \<le> 64 * leaf_lo N j)"
          "\<forall>j. allocated N st' j \<longrightarrow> allocated N st1 j \<or> S \<le> 64 * leaf_lo N j"
        by auto
      have rS: "S \<le> 64 * leaf_lo N ?r" using lc less.prems(8) big by (simp add: c_def)
      have "\<exists>j. allocated N st' j \<and> covers N j x \<and> S \<le> 64 * leaf_lo N j"
        if x: "covers N q x" "S \<le> 64 * x" for x
      proof (cases "covers N (2 * q) x")
        case False
        then have "covers N ?r x" using x lc by (auto simp: covers_def)
        moreover have "allocated N st' ?r" using st'(4) m(2) by blast
        ultimately show ?thesis using rS by blast
      qed (use st'(5) x in blast)
      moreover have "\<forall>j. allocated N st j \<longrightarrow> allocated N st' j" using st'(4) m(2) by metis
      moreover have "\<forall>j. allocated N st' j \<longrightarrow> allocated N st j \<or> S \<le> 64 * leaf_lo N j"
        using st'(6) m(2) rS by metis
      ultimately show ?thesis unfolding loop using st'(1-3) by blast
    qed
  qed
qed

lemma ceiling_unique:
  assumes "0 < v" "v \<le> 2 ^ 63" "v \<le> 2 ^ j" "2 ^ j < 2 * v"
  shows "ceiling_power_of_two v = 2 ^ j"
proof -
  obtain k where k: "ceiling_power_of_two v = 2 ^ k" "v \<le> 2 ^ k" "2 ^ k < 2 * v"
    using ceiling_power_of_two_bounds [OF assms(1,2)] by metis
  have "(2 :: nat) ^ k < 2 ^ Suc j" "(2 :: nat) ^ j < 2 ^ Suc k" using k assms by simp_all
  then have "k < Suc j" "j < Suc k" by (auto intro: power_less_imp_less_exp [rotated])
  with k(1) show ?thesis by simp
qed

lemma order_for_memory:
  assumes "64 \<le> m" "m mod 64 = 0" "m \<le> 2 ^ 62"
  defines "N \<equiv> buddy_tree_order_for_memory m 64"
  shows "0 < N" "N < 64" "ceiling_power_of_two m = 64 * 2 ^ (N - 1)"
proof -
  obtain q where q: "m = 64 * q" using assms(2) by auto
  then have q0: "0 < q" "q \<le> 2 ^ 63" "m div 64 = q" using assms(1,3) by auto
  obtain k where k: "ceiling_power_of_two q = 2 ^ k" "q \<le> 2 ^ k" "2 ^ k < 2 * q" "k \<le> 63"
    using ceiling_power_of_two_bounds [OF q0(1,2)] by metis
  have "(2 :: nat) ^ k < 2 ^ 57" using k(3) q assms(3) by simp
  then have k57: "k < 57" by (rule power_less_imp_less_exp [rotated]) simp
  have "(2 :: nat) ^ k < 2 ^ 64" using k57 by (intro power_strict_increasing) auto
  then have "highest_bit_position (2 ^ k) = bitlen (2 ^ k)" by (rule highest_bit_position_bitlen)
  also have "\<dots> = Suc k" by (rule bitlen_unique) simp_all
  finally have N: "N = Suc k" using q0(3) k(1) by (simp add: N_def buddy_tree_order_for_memory_def)
  then show "0 < N" "N < 64" using k57 by auto
  have "ceiling_power_of_two m = 2 ^ (6 + k)"
    using q q0 k assms by (intro ceiling_unique) (simp_all add: power_add)
  then show "ceiling_power_of_two m = 64 * 2 ^ (N - 1)" using N by (simp add: power_add)
qed

lemma init_ok:
  assumes "at_ptr \<noteq> NULL" "main_ptr \<noteq> NULL" "at_ptr \<noteq> main_ptr" "unat at_ptr mod 8 = 0" "unat main_ptr mod 8 = 0"
    and "64 \<le> m" "m \<le> 2 ^ 62" "unat main_ptr + m < 2 ^ 64"
  shows "\<exists>b N st. buddy_init at_ptr main_ptr m = Some (Some b) \<and> buddy_ok N b st \<and> live N b st = {} \<and>
    arena b = main_ptr \<and> memory_size b = m - m mod 64"
proof -
  define m' where "m' = m - m mod 64"
  have m': "64 \<le> m'" "m' mod 64 = 0" "m' \<le> 2 ^ 62" "unat main_ptr + m' < 2 ^ 64"
  proof -
    have "m = 64 * (m div 64) + m mod 64" by simp
    then have "m' = 64 * (m div 64)" unfolding m'_def by linarith
    moreover have "0 < m div 64" using assms(6) by (simp add: div_greater_zero_iff)
    ultimately show "64 \<le> m'" "m' mod 64 = 0" by auto
    show "m' \<le> 2 ^ 62" "unat main_ptr + m' < 2 ^ 64" using assms by (auto simp: m'_def)
  qed
  define N where "N = buddy_tree_order_for_memory m' 64"
  note N = order_for_memory [OF m'(1-3), folded N_def]
  have al: "is_valid_alignment 64"
    using ceiling_power_of_two_exact [of 6] by (simp add: is_valid_alignment_def)
  define b where "b = \<lparr>buddy_at = at_ptr, memory_size = m', alignment = 64, arena = main_ptr,
      buddy_flags = 0, buddy_tree_of = buddy_tree_init N\<rparr>"
  have b: "buddy_shape N b" "memory_size b = m'" "arena b = main_ptr" "buddy_tree_of b = buddy_tree_init N"
    using assms m' N by (auto simp: b_def buddy_shape_def)
  have "N mod 256 = N" using N(2) by simp
  moreover have "(if m mod 64 \<noteq> 0 then m - m mod 64 else m) = m'" by (simp add: m'_def)
  moreover have "buddy_sizeof_alignment m' 64 \<noteq> 0" using al m'(1) by (simp add: buddy_sizeof_alignment_def)
  ultimately have "buddy_init_alignment at_ptr main_ptr m 64 = map_option Some (buddy_toggle_virtual_slots b True)"
    unfolding buddy_init_alignment_def Let_def b_def using assms(1-5) al by (simp add: N_def)
  then have init: "buddy_init at_ptr main_ptr m = map_option Some (buddy_toggle_virtual_slots b True)"
    by (simp add: buddy_init_def BUDDY_ALLOC_ALIGN_def)
  let ?E = "64 * 2 ^ (N - 1) :: nat"
  note i0 = init_represents [OF N(1,2)]
  have eff: "buddy_effective_memory_size b = ?E" using b N by (simp add: buddy_effective_memory_size_def)
  have mem: "m' \<le> ?E" "?E < 2 * m'" using memory_le_effective [OF b(1)] b(2) by auto
  show ?thesis
  proof (cases "?E = m'")
    case True
    then have "buddy_toggle_virtual_slots b True = Some b"
      using eff b by (simp add: buddy_toggle_virtual_slots_def)
    moreover have "buddy_ok N b (\<lambda>_. 0)"
      using b i0 True by (auto simp: buddy_ok_def)
    ultimately show ?thesis using init b i0(3)
      by (intro exI [of _ b] exI [of _ N] exI [of _ "\<lambda>_. 0"]) (auto simp: live_def m'_def)
  next
    case False
    define delta where "delta = ?E - m'"
    have N2: "1 < N"
    proof (rule ccontr)
      assume "\<not> 1 < N"
      then have "?E = 64" using N(1) by (cases N) auto
      then show False using mem m'(1) False by simp
    qed
    then have inner: "2 * 1 < (2 :: nat) ^ N" using power_strict_increasing [of 1 N "2 :: nat"] by simp
    note lc = leaf_children [of 1 N, OF _ inner, simplified]
    have root: "leaf_lo N 1 = 0" "leaf_count N 1 = 2 ^ (N - 1)" by (simp_all add: leaf_lo_def leaf_count_def)
    have "available N (\<lambda>_. 0) 3"
      using i0(3) inner inner_even_pow [of N 1] N(1) by (simp add: available_def node_def)
    have d: "0 < delta" "delta mod 64 = 0" "delta \<le> 64 * leaf_count N 3"
      using mem False m'(2) lc root by (auto simp: delta_def mod_eq_0_iff_dvd dvd_diff_nat)
    have S: "64 * (leaf_lo N 3 + leaf_count N 3) - delta = m'"
      using lc root mem by (simp add: delta_def)
    have "buddy_tree_right_child buddy_tree_root = pos_of 3"
      using right_pos_of [of 1] by (simp add: root_pos_of)
    then have tog: "buddy_toggle_virtual_slots b True = toggle_virtual_loop True b delta (pos_of 3)"
      using eff b False by (simp add: buddy_toggle_virtual_slots_def delta_def)
    have "represents N (buddy_tree_of b) (\<lambda>_. 0)" using b(4) i0(1) by simp
    from toggle_virtual_loop_ok [OF b(1) this i0(2) \<open>available N (\<lambda>_. 0) 3\<close> d S]
    obtain t st' where st': "toggle_virtual_loop True b delta (pos_of 3) = Some (b\<lparr>buddy_tree_of := t\<rparr>)"
        "represents N t st'" "tree_inv N st'"
        "\<forall>x. covers N 3 x \<longrightarrow> m' \<le> 64 * x \<longrightarrow> (\<exists>j. allocated N st' j \<and> covers N j x \<and> m' \<le> 64 * leaf_lo N j)"
        "\<forall>j. allocated N st' j \<longrightarrow> m' \<le> 64 * leaf_lo N j"
      using i0(3) by blast
    have "covers N 3 x" if "x < 2 ^ (N - 1)" "m' \<le> 64 * x" for x
      using that lc root mem by (auto simp: covers_def)
    then have "buddy_ok N (b\<lparr>buddy_tree_of := t\<rparr>) st'"
      using b st' by (auto simp: buddy_ok_def)
    moreover have "live N (b\<lparr>buddy_tree_of := t\<rparr>) st' = {}" using st'(5) b(2) by (auto simp: live_def)
    ultimately show ?thesis using init tog st'(1) b
      by (intro exI [of _ "b\<lparr>buddy_tree_of := t\<rparr>"] exI [of _ N] exI [of _ st']) (auto simp: m'_def)
  qed
qed

section \<open>Slots as address ranges\<close>

lemma live_in_memory:
  assumes "buddy_ok N b st" "i \<in> live N b st"
  shows "64 * (leaf_lo N i + leaf_count N i) \<le> memory_size b"
proof (rule ccontr)
  assume a: "\<not> ?thesis"
  have al: "allocated N st i" and n: "node N i" and lo: "64 * leaf_lo N i < memory_size b"
    using assms(2) by (auto simp: live_def allocated_def)
  define x where "x = leaf_lo N i + leaf_count N i - 1"
  have pos: "0 < leaf_count N i" by (simp add: leaf_count_def)
  have cov: "covers N i x" using pos by (auto simp: covers_def x_def)
  moreover have "x < 2 ^ (N - 1)" using leaf_lo_top [OF n] pos by (simp add: x_def)
  moreover have "memory_size b \<le> 64 * x"
  proof -
    have "memory_size b mod 64 = 0" using assms(1) by (simp add: buddy_ok_def buddy_shape_def)
    then obtain q where q: "memory_size b = 64 * q" by auto
    with a have "q < leaf_lo N i + leaf_count N i" by simp
    then show ?thesis using q by (simp add: x_def)
  qed
  ultimately obtain j where j: "allocated N st j" "covers N j x" "memory_size b \<le> 64 * leaf_lo N j"
    using assms(1) by (auto simp: buddy_ok_def)
  then have "i = j" using allocated_disjoint [OF _ al j(1) cov] assms(1) by (simp add: buddy_ok_def)
  with j(3) lo show False by simp
qed

lemma in_slot_iff:
  assumes "buddy_shape N b" "64 * (leaf_lo N i + leaf_count N i) \<le> memory_size b"
  shows "in_block (slot_addr N b i) (slot_size N i) x \<longleftrightarrow> covers N i (unat (x - arena b) div 64)"
proof -
  define off where "off = unat (x - arena b)"
  have lt: "64 * (leaf_lo N i + leaf_count N i) < 2 ^ 64" using assms by (simp add: buddy_shape_def)
  have off: "off < 2 ^ 64" unfolding off_def by (rule unat_bound)
  have x: "x = arena b + of_nat off" by (simp add: off_def)
  have "covers N i (off div 64) \<longleftrightarrow> 64 * leaf_lo N i \<le> off \<and> off < 64 * leaf_lo N i + slot_size N i"
    unfolding covers_def slot_size_def by (auto simp: less_eq_div_iff_mult_less_eq div_less_iff_less_mult algebra_simps)
  moreover have "in_block (slot_addr N b i) (slot_size N i) x \<longleftrightarrow>
      64 * leaf_lo N i \<le> off \<and> off < 64 * leaf_lo N i + slot_size N i"
  proof
    assume "in_block (slot_addr N b i) (slot_size N i) x"
    then obtain k where k: "k < slot_size N i" "x = slot_addr N b i + of_nat k" by (rule in_blockE)
    then have "x - arena b = of_nat (64 * leaf_lo N i + k)" by (simp add: slot_addr_def)
    moreover have "64 * leaf_lo N i + k < 2 ^ 64" using k(1) lt by (simp add: slot_size_def)
    ultimately have "off = 64 * leaf_lo N i + k"
      by (simp add: off_def unat_of_nat take_bit_nat_eq_self del: of_nat_add of_nat_mult)
    then show "64 * leaf_lo N i \<le> off \<and> off < 64 * leaf_lo N i + slot_size N i" using k(1) by simp
  next
    assume a: "64 * leaf_lo N i \<le> off \<and> off < 64 * leaf_lo N i + slot_size N i"
    then have eq: "x = slot_addr N b i + of_nat (off - 64 * leaf_lo N i)"
      unfolding x slot_addr_def by (simp add: of_nat_diff del: of_nat_mult)
    have "off - 64 * leaf_lo N i < slot_size N i" "slot_size N i \<le> 2 ^ 64"
      using a lt by (auto simp: slot_size_def)
    then show "in_block (slot_addr N b i) (slot_size N i) x" unfolding eq by (rule in_block_offset)
  qed
  ultimately show ?thesis by (simp add: off_def)
qed

lemma status_determined:
  assumes "tree_inv N st" "tree_inv N st'" "\<And>i. allocated N st i \<longleftrightarrow> allocated N st' i"
  shows "node N i \<Longrightarrow> st i = st' i"
proof (induction "N - bitlen i" arbitrary: i rule: less_induct)
  case less
  have i0: "0 < i" using less.prems by (simp add: node_def)
  show ?case
  proof (cases "2 * i < 2 ^ N")
    case True
    note lc = leaf_children(5) [OF i0 True]
    have N: "0 < N" using lc by simp
    have "node N (2 * i)" "node N (2 * i + 1)" using True i0 inner_even_pow [OF N] by (auto simp: node_def)
    moreover have "N - bitlen (2 * i) < N - bitlen i" "N - bitlen (2 * i + 1) < N - bitlen i"
      using lc i0 by (auto simp: bitlen_double)
    ultimately have ch: "st (2 * i) = st' (2 * i)" "st (2 * i + 1) = st' (2 * i + 1)"
      using less.hyps by blast+
    have "consistent N st i" "consistent N st' i" using assms(1,2) True i0 by (auto simp: tree_inv_def)
    then show ?thesis using ch assms(3) [of i] less.prems
      by (auto simp: consistent_def allocated_def split: if_splits)
  next
    case False
    then have "bitlen i = N"
    proof -
      have "\<not> bitlen i < N"
      proof
        assume "bitlen i < N"
        then have "(2 :: nat) ^ Suc (bitlen i) \<le> 2 ^ N" by (intro power_increasing) auto
        moreover have "i < 2 ^ bitlen i" using bitlen_bounds [OF i0] by simp
        ultimately show False using False by simp
      qed
      then show ?thesis using bitlen_le [OF less.prems] by simp
    qed
    then have "field_len N i = 1" by (simp add: field_len_def)
    moreover have "st i \<le> field_len N i" "st' i \<le> field_len N i" using assms(1,2) less.prems by (auto simp: tree_inv_def)
    ultimately have "st i = of_bool (allocated N st i)" "st' i = of_bool (allocated N st' i)"
      using False less.prems by (auto simp: allocated_def)
    then show ?thesis using assms(3) by simp
  qed
qed

lemma represents_cong:
  assumes "represents N t st" "\<And>i. node N i \<Longrightarrow> st i = st' i"
  shows "represents N t st'"
  using assms by (simp add: represents_def)

lemma available_at_depth:
  assumes "tree_inv N st"
  shows "available N st p \<Longrightarrow> bitlen p \<le> d \<Longrightarrow> d \<le> N \<Longrightarrow> \<exists>p'. available N st p' \<and> bitlen p' = d"
proof (induction "d - bitlen p" arbitrary: p)
  case 0
  then show ?case by auto
next
  case (Suc k)
  have p0: "0 < p" using Suc.prems(1) by (simp add: available_def node_def)
  have "bitlen p < N" using Suc.hyps(2) Suc.prems(3) by linarith
  then have "(2 :: nat) ^ Suc (bitlen p) \<le> 2 ^ N" by (intro power_increasing) auto
  then have inner: "2 * p < 2 ^ N" using bitlen_bounds [OF p0] by simp
  have "available N st (2 * p)" by (rule available_child [OF assms Suc.prems(1) inner]) simp
  moreover have "bitlen (2 * p) = Suc (bitlen p)" using p0 by (simp add: bitlen_double)
  ultimately show ?case using Suc.hyps Suc.prems(3) by (intro Suc.hyps(1)) auto
qed

lemma malloc_none_big:
  assumes ok: "buddy_ok N b st" and req: "0 < req" "req \<le> memory_size b"
    and none: "\<forall>p. available N st p \<longrightarrow> bitlen p \<noteq> depth_for_size b req" and p: "available N st p"
  shows "slot_size N p < req"
proof (rule ccontr)
  assume a: "\<not> slot_size N p < req"
  have s: "buddy_shape N b" and inv: "tree_inv N st" using ok by (auto simp: buddy_ok_def)
  note d = depth_for_size_ok [OF s req]
  have n: "node N p" using p by (simp add: available_def)
  have "64 \<le> slot_size N p" by (simp add: slot_size_def leaf_count_def)
  then have m: "max req 64 \<le> slot_size N p" using a by simp
  have "0 < max req 64" "max req 64 \<le> 2 ^ 63" using req s by (auto simp: buddy_shape_def)
  then have "ceiling_power_of_two (max req 64) < 2 * max req 64"
    using ceiling_power_of_two_bounds by metis
  then have "64 * 2 ^ (N - depth_for_size b req) < 2 * slot_size N p" using d(3) m by linarith
  then have "(2 :: nat) ^ (N - depth_for_size b req) < 2 ^ Suc (N - bitlen p)"
    by (simp add: slot_size_def leaf_count_def)
  then have "N - depth_for_size b req < Suc (N - bitlen p)" by (rule power_less_imp_less_exp [rotated]) simp
  then have "bitlen p \<le> depth_for_size b req" using d(2) bitlen_le [OF n] by linarith
  from available_at_depth [OF inv p this d(2)] none show False by blast
qed

lemma nonzero_has_allocated:
  assumes "tree_inv N st"
  shows "node N i \<Longrightarrow> st i \<noteq> 0 \<Longrightarrow> \<exists>j k. allocated N st j \<and> i = j div 2 ^ k"
proof (induction "N - bitlen i" arbitrary: i rule: less_induct)
  case less
  show ?case
  proof (cases "allocated N st i")
    case True
    then show ?thesis by (intro exI [of _ i] exI [of _ 0]) simp
  next
    case False
    have i0: "0 < i" using less.prems(1) by (simp add: node_def)
    have inner: "2 * i < 2 ^ N"
    proof (rule ccontr)
      assume n: "\<not> 2 * i < 2 ^ N"
      have "\<not> bitlen i < N"
      proof
        assume "bitlen i < N"
        then have "(2 :: nat) ^ Suc (bitlen i) \<le> 2 ^ N" by (intro power_increasing) auto
        then show False using n bitlen_bounds [OF i0] by simp
      qed
      then have "field_len N i = 1" using bitlen_le [OF less.prems(1)] by (simp add: field_len_def)
      moreover have "st i \<le> field_len N i" using assms less.prems(1) by (simp add: tree_inv_def)
      ultimately have "st i = field_len N i" using less.prems(2) by simp
      then show False using False n less.prems(1) by (simp add: allocated_def)
    qed
    have N: "0 < N" using leaf_children(5) [OF i0 inner] by simp
    have "consistent N st i" using assms i0 inner by (simp add: tree_inv_def)
    then obtain c where c: "c = 2 * i \<or> c = 2 * i + 1" "st c \<noteq> 0"
      using False less.prems by (auto simp: consistent_def allocated_def split: if_splits)
    have "node N c" using c(1) inner i0 inner_even_pow [OF N] by (auto simp: node_def)
    moreover have "N - bitlen c < N - bitlen i"
      using c(1) i0 leaf_children(5) [OF i0 inner] by (auto simp: bitlen_double)
    ultimately obtain j k where j: "allocated N st j" "c = j div 2 ^ k" using less.hyps c(2) by blast
    have "i = c div 2" using c(1) by auto
    then have "i = j div 2 ^ Suc k" using j(2) by (simp only: power_Suc2 div_mult2_eq)
    with j(1) show ?thesis by blast
  qed
qed

lemma malloc_fresh:
  assumes ok: "buddy_ok N b st" and none: "live N b st = {}"
    and req: "0 < req" "req \<le> memory_size b" "ceiling_power_of_two (max req 64) \<le> memory_size b"
  shows "\<exists>a b'. buddy_malloc b req = Some (a, b') \<and> a \<noteq> NULL"
proof -
  have s: "buddy_shape N b" and inv: "tree_inv N st" using ok by (auto simp: buddy_ok_def)
  note d = depth_for_size_ok [OF s req(1,2)]
  define d' where "d' = depth_for_size b req"
  obtain k where k: "d' = Suc k" using d(1) by (cases d') (auto simp: d'_def)
  define p :: nat where "p = 2 ^ k"
  have bp: "bitlen p = d'" unfolding k p_def by (rule bitlen_unique) auto
  have "p < 2 ^ N" unfolding p_def using d(2) k by (intro power_strict_increasing) (auto simp: d'_def)
  then have n: "node N p" by (simp add: node_def p_def)
  have room: "64 * 2 ^ (N - d') \<le> memory_size b" using d(3) req(3) by (simp add: d'_def)
  have lo: "leaf_lo N p = 0" using bp k by (simp add: leaf_lo_def p_def)
  have no_alloc: "\<not> allocated N st j" if "covers N j 0" for j
  proof
    assume "allocated N st j"
    moreover have "leaf_lo N j = 0" using that by (simp add: covers_def)
    moreover have "0 < memory_size b" using s by (simp add: buddy_shape_def)
    ultimately have "j \<in> live N b st" by (simp add: live_def)
    with none show False by simp
  qed
  have "st p = 0"
  proof (rule ccontr)
    assume "st p \<noteq> 0"
    then obtain j l where j: "allocated N st j" "p = j div 2 ^ l"
      using nonzero_has_allocated [OF inv n] by blast
    have nj: "node N j" using j(1) by (simp add: allocated_def)
    define x where "x = leaf_lo N j"
    have cj: "covers N j x" by (simp add: covers_def x_def leaf_count_def)
    have "covers N p x"
    proof -
      have e: "(2 ^ (N - 1) + x) div 2 ^ (N - bitlen j) = j" using cj covers_iff_ancestor [OF nj] by simp
      have "p = (2 ^ (N - 1) + x) div 2 ^ (N - bitlen j + l)"
        unfolding power_add div_mult2_eq e j(2) ..
      moreover have "bitlen j = bitlen p + l"
        using bitlen_drop [of l j] j(2) n by (simp add: node_def div_greater_zero_iff)
      moreover have "bitlen j \<le> N" by (rule bitlen_le [OF nj])
      ultimately show ?thesis unfolding covers_iff_ancestor [OF n] by (simp add: diff_add_assoc2)
    qed
    then have "x < 2 ^ (N - d')" using lo bp by (simp add: covers_def leaf_count_def)
    then have "64 * x < memory_size b" using room by linarith
    then have "j \<in> live N b st" using j(1) by (simp add: live_def x_def)
    with none show False by simp
  qed
  moreover have "\<not> allocated N st (p div 2 ^ l)" for l
  proof (cases "l \<le> k")
    case True
    then have pl: "p div 2 ^ l = 2 ^ (k - l)" unfolding p_def by (simp add: power_diff)
    have "bitlen (2 ^ (k - l)) = Suc (k - l)" by (rule bitlen_unique) auto
    then have "covers N (p div 2 ^ l) 0" unfolding pl by (simp add: covers_def leaf_lo_def leaf_count_def)
    then show ?thesis by (rule no_alloc)
  next
    case False
    then have "p < 2 ^ l" unfolding p_def by (intro power_strict_increasing) auto
    then show ?thesis by (simp add: allocated_def node_def)
  qed
  ultimately have "available N st p" using n by (simp add: available_def)
  with malloc_cases [OF ok req(1,2)] bp obtain q t where
    q: "available N st q" "buddy_malloc b req = Some (slot_addr N b q, b\<lparr>buddy_tree_of := t\<rparr>)"
    by (auto simp: d'_def)
  have "64 * leaf_lo N q < memory_size b"
    using available_in_memory [OF ok q(1)] by (auto simp: leaf_count_def intro: less_le_trans [rotated])
  then show ?thesis using q(2) slot_addr_nonzero(1) [OF s] by auto
qed

text \<open>The slot is of the smallest power of two bytes that holds the request, but never below 64.\<close>

definition slot_rounds :: "nat \<Rightarrow> nat \<Rightarrow> nat \<Rightarrow> bool" where
  "slot_rounds N p req \<longleftrightarrow> (\<exists>k. slot_size N p = 2 ^ k) \<and> max req 64 \<le> slot_size N p \<and> slot_size N p < 2 * max req 64"

lemma buddy_malloc_pos:
  assumes ok: "buddy_ok N b st" and req: "0 < req"
  shows "(\<exists>p b' st'. buddy_malloc b req = Some (slot_addr N b p, b') \<and> slot_addr N b p \<noteq> NULL \<and>
      buddy_ok N b' st' \<and> p \<notin> live N b st \<and> live N b' st' = insert p (live N b st) \<and>
      arena b' = arena b \<and> memory_size b' = memory_size b \<and>
      slot_rounds N p req \<and> 64 * leaf_lo N p + slot_size N p \<le> memory_size b \<and>
      (\<forall>j \<in> live N b st. \<forall>x. \<not> (in_block (slot_addr N b p) (slot_size N p) x \<and>
         in_block (slot_addr N b j) (slot_size N j) x))) \<or>
    buddy_malloc b req = Some (NULL, b) \<and> (\<forall>p. available N st p \<longrightarrow> slot_size N p < req)"
proof (cases "req \<le> memory_size b")
  case False
  have "slot_size N p < req" if "available N st p" for p
    using available_in_memory [OF ok that] False by (simp add: slot_size_def)
  then show ?thesis using False by (simp add: buddy_malloc_def)
next
  case True
  have s: "buddy_shape N b" and inv: "tree_inv N st" using ok by (auto simp: buddy_ok_def)
  from malloc_cases [OF ok req True] show ?thesis
  proof (elim disjE exE conjE)
    fix p t
    assume p: "available N st p" "bitlen p = depth_for_size b req"
      "buddy_malloc b req = Some (slot_addr N b p, b\<lparr>buddy_tree_of := t\<rparr>)"
      "represents N t (chain (st(p := field_len N p)) p)"
    note m = malloc_ok [OF ok p(1,4)]
    note mem = available_in_memory [OF ok p(1)]
    have "slot_size N p = ceiling_power_of_two (max req 64)"
      using depth_for_size_ok(3) [OF s req True] p(2) by (simp add: slot_size_def leaf_count_def)
    moreover have "0 < max req 64" "max req 64 \<le> 2 ^ 63" using True s by (auto simp: buddy_shape_def)
    ultimately have size: "slot_rounds N p req" using ceiling_power_of_two_bounds [of "max req 64"] unfolding slot_rounds_def by metis
    have "\<not> (in_block (slot_addr N b p) (slot_size N p) x \<and> in_block (slot_addr N b j) (slot_size N j) x)"
      if j: "j \<in> live N b st" for j x
    proof -
      have "allocated N st j" using j by (simp add: live_def)
      then show ?thesis
        unfolding in_slot_iff [OF s mem] in_slot_iff [OF s live_in_memory [OF ok j]]
        by (rule available_disjoint [OF inv p(1)])
    qed
    moreover have "64 * leaf_lo N p < memory_size b"
      using mem by (auto simp: leaf_count_def intro: less_le_trans [rotated])
    ultimately show ?thesis
      using p(3) m size mem slot_addr_nonzero(1) [OF s, of p]
      by (intro disjI1 exI [of _ p] exI [of _ "b\<lparr>buddy_tree_of := t\<rparr>"]
          exI [of _ "chain (st(p := field_len N p)) p"]) (simp add: slot_size_def live_def)
  next
    assume "buddy_malloc b req = Some (NULL, b)"
      "\<forall>p. available N st p \<longrightarrow> bitlen p \<noteq> depth_for_size b req"
    then show ?thesis using malloc_none_big [OF ok req True] by blast
  qed
qed

section \<open>Properties\<close>

text \<open>
  C3: \<^verbatim>\<open>buddy_malloc\<close> on a well-formed allocator either returns a slot that was not in use, whose
  size is the request rounded up to a power of two (64 at least, and a request of 0 counts as 1),
  which starts a whole multiple of 64 bytes into the arena, ends inside the arena's memory and
  shares no byte with any slot in use, and then exactly this slot has become in use; or it
  returns NULL, changes nothing, and no free slot of the tree is as large as the request.
\<close>

theorem buddy_malloc_correct:
  assumes ok: "buddy_ok N b st"
  shows "(\<exists>p b' st'. buddy_malloc b req = Some (slot_addr N b p, b') \<and> slot_addr N b p \<noteq> NULL \<and>
      buddy_ok N b' st' \<and> p \<notin> live N b st \<and> live N b' st' = insert p (live N b st) \<and>
      arena b' = arena b \<and> memory_size b' = memory_size b \<and>
      (\<exists>k. slot_size N p = 2 ^ k) \<and> max req 64 \<le> slot_size N p \<and> slot_size N p < 2 * max req 64 \<and>
      64 * leaf_lo N p + slot_size N p \<le> memory_size b \<and>
      (\<forall>j \<in> live N b st. \<forall>x. \<not> (in_block (slot_addr N b p) (slot_size N p) x \<and>
         in_block (slot_addr N b j) (slot_size N j) x))) \<or>
    buddy_malloc b req = Some (NULL, b) \<and> (\<forall>p. available N st p \<longrightarrow> slot_size N p < max req 1)"
proof -
  define r where "r = max req 1"
  have r: "r = (if req = 0 then 1 else req)" by (auto simp: r_def)
  have "buddy_malloc b r = buddy_malloc b req" by (auto simp: buddy_malloc_def r Let_def)
  moreover have "slot_rounds N p r \<longleftrightarrow> (\<exists>k. slot_size N p = 2 ^ k) \<and> max req 64 \<le> slot_size N p \<and> slot_size N p < 2 * max req 64" for p
    by (auto simp: slot_rounds_def r)
  moreover have "0 < r" by (simp add: r)
  ultimately show ?thesis using buddy_malloc_pos [OF ok, of r] unfolding r_def [symmetric] by (simp only: conj_assoc)
qed

lemma fresh_example:
  "\<exists>b N st a b'. buddy_init 4096 8192 1000 = Some (Some b) \<and> buddy_ok N b st \<and> live N b st = {} \<and>
    memory_size b = 960 \<and> buddy_malloc b 100 = Some (a, b') \<and> a \<noteq> NULL"
proof -
  obtain b N st where b: "buddy_init 4096 8192 1000 = Some (Some b)" "buddy_ok N b st"
      "live N b st = {}" "memory_size b = 960"
    using init_ok [of 4096 8192 1000] by auto
  have "ceiling_power_of_two (max 100 64) = 2 ^ 7" by (rule ceiling_unique) auto
  then have "\<exists>a b'. buddy_malloc b 100 = Some (a, b') \<and> a \<noteq> NULL"
    using b by (intro malloc_fresh [OF b(2,3)]) auto
  with b show ?thesis by blast
qed

theorem buddy_malloc_correct_witness:
  "\<exists>b N st p b' st'. buddy_init 4096 8192 1000 = Some (Some b) \<and>
    buddy_malloc b 100 = Some (slot_addr N b p, b') \<and> live N b' st' = {p} \<and> slot_size N p = 128 \<and>
    64 * leaf_lo N p + slot_size N p \<le> 960"
proof -
  obtain b N st a b' where b: "buddy_init 4096 8192 1000 = Some (Some b)" "buddy_ok N b st"
      "live N b st = {}" "memory_size b = 960" "buddy_malloc b 100 = Some (a, b')" "a \<noteq> NULL"
    using fresh_example by blast
  with buddy_malloc_correct [OF b(2), of 100] obtain p b2 st' k where
    p: "buddy_malloc b 100 = Some (slot_addr N b p, b2)" "live N b2 st' = {p}" "64 * leaf_lo N p + slot_size N p \<le> 960"
      "slot_size N p = 2 ^ k" "100 \<le> slot_size N p" "slot_size N p < 200"
    by fastforce
  have "6 < k" using p(4,5) power_increasing [of k 6 "2 :: nat"] by (cases "6 < k") auto
  moreover have "k < 8" using p(4,6) power_increasing [of 8 k "2 :: nat"] by (cases "k < 8") auto
  ultimately have "k = 7" by simp
  then have "slot_size N p = 128" using p(4) by simp
  then show ?thesis using b(1) p(1-3) by blast
qed

text \<open>
  C13: \<^verbatim>\<open>buddy_free\<close> at the address of a slot in use returns exactly that slot to the tree; at
  every other address, NULL, addresses inside a slot and addresses outside the arena
  included, it changes nothing.
\<close>

theorem buddy_free_correct:
  assumes ok: "buddy_ok N b st"
  shows "(\<forall>i \<in> live N b st. \<exists>b' st'. buddy_free b (slot_addr N b i) = Some b' \<and>
      buddy_ok N b' st' \<and> live N b' st' = live N b st - {i}) \<and>
    (\<forall>a. (\<forall>i \<in> live N b st. a \<noteq> slot_addr N b i) \<longrightarrow> buddy_free b a = Some b)"
proof (intro conjI ballI allI impI)
  fix i assume i: "i \<in> live N b st"
  obtain t where t: "buddy_free b (slot_addr N b i) = Some (b\<lparr>buddy_tree_of := t\<rparr>)"
      "buddy_ok N (b\<lparr>buddy_tree_of := t\<rparr>) (chain (st(i := 0)) i)"
      "live N b (chain (st(i := 0)) i) = live N b st - {i}"
    using free_live [OF ok i] by blast
  then show "\<exists>b' st'. buddy_free b (slot_addr N b i) = Some b' \<and> buddy_ok N b' st' \<and> live N b' st' = live N b st - {i}"
    by (intro exI [of _ "b\<lparr>buddy_tree_of := t\<rparr>"] exI [of _ "chain (st(i := 0)) i"]) (simp add: live_def)
next
  fix a assume "\<forall>i \<in> live N b st. a \<noteq> slot_addr N b i"
  then show "buddy_free b a = Some b" by (intro free_other [OF ok]) blast
qed

theorem buddy_free_correct_witness:
  "\<exists>b N a b' st' b'' st''. buddy_init 4096 8192 1000 = Some (Some b) \<and> buddy_malloc b 100 = Some (a, b') \<and>
    live N b' st' \<noteq> {} \<and> buddy_free b' a = Some b'' \<and> live N b'' st'' = {} \<and> buddy_free b' 7 = Some b'"
proof -
  obtain b N st a b' where b: "buddy_init 4096 8192 1000 = Some (Some b)" "buddy_ok N b st"
      "live N b st = {}" "memory_size b = 960" "buddy_malloc b 100 = Some (a, b')" "a \<noteq> NULL"
    using fresh_example by blast
  have len: "100 \<le> memory_size b" using b(4) by simp
  from malloc_cases [OF b(2) _ len] b(5,6) obtain p t where
    p: "available N st p" "a = slot_addr N b p" "b' = b\<lparr>buddy_tree_of := t\<rparr>"
      "represents N t (chain (st(p := field_len N p)) p)"
    by auto
  note m = malloc_ok [OF b(2) p(1,4)]
  define st' where "st' = chain (st(p := field_len N p)) p"
  have "live N b' st' = live N b st'" by (simp add: live_def p(3))
  then have l: "live N b' st' = {p}" "buddy_ok N b' st'" using m b(3) p(3) by (simp_all add: st'_def)
  have addr: "slot_addr N b' p = a" by (simp add: p(2,3) slot_addr_def)
  have "arena b = 8192" using b(1) init_ok [of 4096 8192 1000] by auto
  moreover have "64 * leaf_lo N p < memory_size b"
    using available_in_memory [OF b(2) p(1)] by (auto simp: leaf_count_def intro: less_le_trans [rotated])
  ultimately have "unat a = 8192 + 64 * leaf_lo N p"
    using slot_addr_nonzero(2) [of N b p] b(2) by (simp add: p(2) buddy_ok_def)
  then have "a \<noteq> 7" by auto
  with buddy_free_correct [OF l(2)] l(1) addr b(1,5) show ?thesis by (metis Diff_cancel empty_not_insert insertI1 singletonD)
qed

text \<open>
  Freeing what was just allocated restores the allocator: the tree represents the same
  statuses as before the allocation, so that splitting a slot is undone by coalescing.
\<close>

theorem buddy_malloc_free:
  assumes ok: "buddy_ok N b st" and req: "0 < req"
    and got: "buddy_malloc b req = Some (a, b')" "a \<noteq> NULL"
  shows "\<exists>t. buddy_free b' a = Some (b\<lparr>buddy_tree_of := t\<rparr>) \<and> represents N t st"
proof -
  have inv: "tree_inv N st" and s: "buddy_shape N b" using ok by (auto simp: buddy_ok_def)
  have "req \<le> memory_size b"
  proof (rule ccontr)
    assume "\<not> req \<le> memory_size b"
    then show False using got by (simp add: buddy_malloc_def split: if_splits)
  qed
  from malloc_cases [OF ok req this] got obtain p t where
    p: "available N st p" "a = slot_addr N b p" "b' = b\<lparr>buddy_tree_of := t\<rparr>"
      "represents N t (chain (st(p := field_len N p)) p)"
    by auto
  define st1 where "st1 = chain (st(p := field_len N p)) p"
  note m = malloc_ok [OF ok p(1,4), folded st1_def]
  note m1 = mark_statuses [OF inv p(1), folded st1_def]
  have live1: "p \<in> live N b' st1" using m(2) p(3) by (simp add: live_def)
  have ok1: "buddy_ok N b' st1" using m(1) p(3) by simp
  obtain t' where t': "buddy_free b' (slot_addr N b' p) = Some (b'\<lparr>buddy_tree_of := t'\<rparr>)"
      "represents N t' (chain (st1(p := 0)) p)"
    using free_live [OF ok1 live1] by blast
  have al: "allocated N st1 p" using live1 by (simp add: live_def)
  note r = release_statuses [OF m1(1) al]
  have "\<not> allocated N st p" using p(1) field_len_pos [of N p] by (auto simp: available_def allocated_def)
  then have "allocated N (chain (st1(p := 0)) p) i \<longleftrightarrow> allocated N st i" for i
    using r(2) [of i] m1(2) [of i] by auto
  then have "represents N t' st"
    using represents_cong [OF t'(2)] status_determined [OF r(1) inv] by blast
  then show ?thesis using t'(1) p(2,3) by auto
qed

theorem buddy_malloc_free_witness:
  "\<exists>b a b' b''. buddy_init 4096 8192 1000 = Some (Some b) \<and> buddy_malloc b 100 = Some (a, b') \<and>
    a \<noteq> NULL \<and> buddy_free b' a = Some b''"
proof -
  obtain b N st a b' where b: "buddy_init 4096 8192 1000 = Some (Some b)" "buddy_ok N b st"
      "buddy_malloc b 100 = Some (a, b')" "a \<noteq> NULL"
    using fresh_example by blast
  with buddy_malloc_free [OF b(2), of 100 a b'] show ?thesis by fastforce
qed

text \<open>
  C14: \<^verbatim>\<open>buddy_init\<close> on a suitable arena returns an allocator that is well-formed, has no slot in
  use, and manages the arena rounded down to whole 64-byte units: the part of its
  power-of-two tree that lies beyond the memory is masked out.
\<close>

theorem buddy_init_correct:
  assumes "at_ptr \<noteq> NULL" "main_ptr \<noteq> NULL" "at_ptr \<noteq> main_ptr" "unat at_ptr mod 8 = 0" "unat main_ptr mod 8 = 0"
    and "64 \<le> m" "m \<le> 2 ^ 62" "unat main_ptr + m < 2 ^ 64"
  shows "\<exists>b N st. buddy_init at_ptr main_ptr m = Some (Some b) \<and> buddy_ok N b st \<and> live N b st = {} \<and>
    arena b = main_ptr \<and> memory_size b = m - m mod 64"
  using assms by (rule init_ok)

theorem buddy_init_correct_witness:
  "\<exists>b N st. buddy_init 4096 8192 1000 = Some (Some b) \<and> buddy_ok N b st \<and> live N b st = {} \<and>
    memory_size b = 960"
  using buddy_init_correct [of 4096 8192 1000] by auto

end
