(* ===== verification/Pmm.thy ===== *)
theory Pmm
  imports Kmem Buddy
begin

text \<open>
  The physical page allocator (\<^verbatim>\<open>mm/pmm.c\<close>): the largest usable chunk of the boot loader's
  memory map becomes the arena of one buddy allocator, frames are handed out as physical
  addresses.

  The machine record starts here and is extended by the later theories. Physical memory is
  the byte memory \<open>pmem\<close>, addressed through the higher-half direct map: the byte at physical
  address \<open>p\<close> is \<open>pmem m (p + hhdm_offset m)\<close>. The allocator's own metadata is the record of
  \<open>Buddy\<close>. \<^verbatim>\<open>hcf()\<close>, which stops the machine, is the outcome \<open>None\<close>.
\<close>

section \<open>Definitions\<close>

record machine =
  pmem :: mem
  hhdm_offset :: u64
  nx_supported :: bool
  pmm_buddy :: "buddy option"
  total_system_pages :: u64
  arena_phys_base :: u64
  arena_total_len :: u64

record limine_memmap_entry =
  me_base :: u64
  me_length :: u64
  me_type :: u64

definition LIMINE_MEMMAP_USABLE :: u64 where
  "LIMINE_MEMMAP_USABLE = 0"

text \<open>The scan of \<^verbatim>\<open>init_pmm\<close>: top address, base and length of the largest usable chunk.\<close>

definition scan_entry :: "limine_memmap_entry \<Rightarrow> u64 \<times> u64 \<times> u64 \<Rightarrow> u64 \<times> u64 \<times> u64" where
  "scan_entry entry = (\<lambda>(top, base, len).
     if me_type entry = LIMINE_MEMMAP_USABLE then
       (if me_base entry + me_length entry > top then me_base entry + me_length entry else top,
        if me_length entry > len then me_base entry else base,
        if me_length entry > len then me_length entry else len)
     else (top, base, len))"

definition init_pmm :: "limine_memmap_entry list \<Rightarrow> 'a machine_scheme \<Rightarrow> 'a machine_scheme option" where
  "init_pmm memmap m =
     (let (top_address, biggest_chunk_base, biggest_chunk_len) = fold scan_entry memmap (0, 0, 0);
          m1 = m\<lparr>total_system_pages := top_address div 4096\<rparr>
      in if biggest_chunk_len = 0 then None
         else
           let required = of_nat (buddy_sizeof (unat biggest_chunk_len));
               required_metadata_bytes = page_base (required + 4095);
               metadata_virt = biggest_chunk_base + hhdm_offset m;
               phys_base = biggest_chunk_base + required_metadata_bytes;
               total_len = biggest_chunk_len - required_metadata_bytes;
               arena_virt = phys_base + hhdm_offset m;
               m2 = m1\<lparr>arena_phys_base := phys_base, arena_total_len := total_len\<rparr>
           in case buddy_init metadata_virt arena_virt (unat total_len) of
                None \<Rightarrow> None
              | Some None \<Rightarrow> None
              | Some (Some b) \<Rightarrow> Some (m2\<lparr>pmm_buddy := Some b\<rparr>))"

definition palloc :: "'a machine_scheme \<Rightarrow> (u64 \<times> 'a machine_scheme) option" where
  "palloc m =
     (case pmm_buddy m of
        None \<Rightarrow> Some (NULL, m)
      | Some b \<Rightarrow>
          Option.bind (buddy_malloc b 4096) (\<lambda>(allocated_virt, b').
            if allocated_virt = NULL then None
            else Some (allocated_virt - hhdm_offset m, m\<lparr>pmm_buddy := Some b'\<rparr>)))"

definition palloc_contig :: "u64 \<Rightarrow> 'a machine_scheme \<Rightarrow> (u64 \<times> 'a machine_scheme) option" where
  "palloc_contig sz m =
     (case pmm_buddy m of
        None \<Rightarrow> Some (NULL, m)
      | Some b \<Rightarrow>
          Option.bind (buddy_malloc b (unat sz)) (\<lambda>(allocated_virt, b').
            if allocated_virt = NULL then Some (NULL, m\<lparr>pmm_buddy := Some b'\<rparr>)
            else Some (allocated_virt - hhdm_offset m, m\<lparr>pmm_buddy := Some b'\<rparr>)))"

definition palloc_zero :: "'a machine_scheme \<Rightarrow> (u64 \<times> 'a machine_scheme) option" where
  "palloc_zero m =
     Option.bind (palloc m) (\<lambda>(phys_addr, m1).
       if phys_addr = NULL then Some (NULL, m1)
       else
         let p = phys_addr + hhdm_offset m1
         in Some (phys_addr,
              m1\<lparr>pmem := for_upto 512 (\<lambda>i mm. wr64 mm (p + 8 * of_nat i) 0) (pmem m1)\<rparr>))"

definition pfree :: "u64 \<Rightarrow> 'a machine_scheme \<Rightarrow> 'a machine_scheme option" where
  "pfree phys_addr m =
     (case pmm_buddy m of
        None \<Rightarrow> Some m
      | Some b \<Rightarrow>
          if phys_addr = NULL then Some m
          else map_option (\<lambda>b'. m\<lparr>pmm_buddy := Some b'\<rparr>) (buddy_free b (phys_addr + hhdm_offset m)))"

definition pmm_get_total_pages :: "'a machine_scheme \<Rightarrow> u64" where
  "pmm_get_total_pages m = total_system_pages m"

definition pmm_get_free_pages :: "'a machine_scheme \<Rightarrow> u64" where
  "pmm_get_free_pages m = (if pmm_buddy m = None then 0 else arena_total_len m div 4096)"

section \<open>Well-formed allocators without ghost state\<close>

definition statuses :: "buddy \<Rightarrow> nat \<Rightarrow> nat" where
  "statuses b i = buddy_tree_status (buddy_tree_of b) (pos_of i)"

abbreviation order_of :: "buddy \<Rightarrow> nat" where
  "order_of b \<equiv> tree_order (buddy_tree_of b)"

definition buddy_wf :: "buddy \<Rightarrow> bool" where
  "buddy_wf b \<longleftrightarrow> buddy_ok (order_of b) b (statuses b)"

definition live_slots :: "buddy \<Rightarrow> nat set" where
  "live_slots b = live (order_of b) b (statuses b)"

lemma statuses_eq: "buddy_ok N b st \<Longrightarrow> node N i \<Longrightarrow> statuses b i = st i"
  using status_represents [of N "buddy_tree_of b" st i] by (simp add: buddy_ok_def statuses_def)

lemma order_eq: "buddy_ok N b st \<Longrightarrow> order_of b = N"
  by (simp add: buddy_ok_def represents_def tree_ok_def)

lemma allocated_cong:
  assumes "\<And>i. node N i \<Longrightarrow> st i = st' i"
  shows "allocated N st i = allocated N st' i"
proof -
  have "2 * i + 1 < 2 ^ N" if "2 * i < 2 ^ N" "0 < i"
  proof -
    have "0 < N" using that by (cases N) auto
    then show ?thesis using inner_even_pow that by blast
  qed
  then show ?thesis using assms [of i] assms [of "2 * i"] assms [of "2 * i + 1"]
    by (auto simp: allocated_def node_def)
qed

lemma tree_inv_cong:
  assumes "\<And>i. node N i \<Longrightarrow> st i = st' i" "tree_inv N st"
  shows "tree_inv N st'"
proof -
  have "consistent N st' i" if "0 < i" "2 * i < 2 ^ N" for i
  proof -
    have "0 < N" using that by (cases N) auto
    then have "node N i" "node N (2 * i)" "node N (2 * i + 1)"
      using that inner_even_pow by (auto simp: node_def)
    then have "st i = st' i" "st (2 * i) = st' (2 * i)" "st (2 * i + 1) = st' (2 * i + 1)"
      by (simp_all only: assms(1))
    moreover have "consistent N st i" using assms(2) that by (simp add: tree_inv_def)
    ultimately show ?thesis by (simp only: consistent_def)
  qed
  then show ?thesis using assms by (simp add: tree_inv_def)
qed

lemma buddy_ok_wf:
  assumes "buddy_ok N b st"
  shows "buddy_wf b" "live_slots b = live N b st"
proof -
  have eq: "st i = statuses b i" if "node N i" for i using statuses_eq [OF assms that] by simp
  note al = allocated_cong [of N st "statuses b", OF eq]
  show "live_slots b = live N b st"
    by (simp add: live_slots_def order_eq [OF assms] live_def al)
  have "represents N (buddy_tree_of b) (statuses b)"
    using assms represents_cong [OF _ eq] by (auto simp: buddy_ok_def)
  moreover have "tree_inv N (statuses b)" using assms tree_inv_cong [OF eq] by (auto simp: buddy_ok_def)
  ultimately show "buddy_wf b" using assms by (simp add: buddy_wf_def order_eq [OF assms] buddy_ok_def al)
qed

section \<open>The free bytes of the arena\<close>

definition slot_byte :: "buddy \<Rightarrow> nat \<Rightarrow> u64 \<Rightarrow> bool" where
  "slot_byte b i x \<longleftrightarrow> in_block (slot_addr (order_of b) b i) (slot_size (order_of b) i) x"

text \<open>\<open>free_byte m x\<close>: the byte at direct-map address \<open>x\<close> belongs to the arena and to no slot in use.\<close>

definition free_byte :: "'a machine_scheme \<Rightarrow> u64 \<Rightarrow> bool" where
  "free_byte m x \<longleftrightarrow>
     (case pmm_buddy m of
        None \<Rightarrow> False
      | Some b \<Rightarrow> in_block (arena b) (memory_size b) x \<and> \<not> (\<exists>i \<in> live_slots b. slot_byte b i x))"

text \<open>
  The allocator is set up: the arena starts at a page-aligned non-zero physical address and
  ends inside the 52 bits of a physical address.
\<close>

definition pmm_ok :: "'a machine_scheme \<Rightarrow> bool" where
  "pmm_ok m \<longleftrightarrow> (\<exists>b. pmm_buddy m = Some b \<and> buddy_wf b \<and>
     0 < unat (arena b - hhdm_offset m) \<and> unat (arena b - hhdm_offset m) mod 4096 = 0 \<and>
     unat (arena b - hhdm_offset m) + memory_size b \<le> 2 ^ 52)"

text \<open>A frame as a range of direct-map addresses.\<close>

abbreviation frame_bytes :: "'a machine_scheme \<Rightarrow> u64 \<Rightarrow> u64 \<Rightarrow> bool" where
  "frame_bytes m f x \<equiv> in_block (f + hhdm_offset m) 4096 x"

lemma slot_sizes: "ceiling_power_of_two (max 4096 64) = 4096"
  using ceiling_power_of_two_exact [of 12] by simp

lemma malloc_page:
  assumes wf: "buddy_wf b"
  obtains (dry) "buddy_malloc b 4096 = Some (NULL, b)"
  | (page) p b' where "buddy_malloc b 4096 = Some (slot_addr (order_of b) b p, b')"
      "buddy_wf b'" "order_of b' = order_of b" "arena b' = arena b" "memory_size b' = memory_size b"
      "live_slots b' = insert p (live_slots b)" "slot_size (order_of b) p = 4096"
      "64 * leaf_lo (order_of b) p + 4096 \<le> memory_size b"
      "\<And>j x. j \<in> live_slots b \<Longrightarrow> \<not> (slot_byte b p x \<and> slot_byte b j x)"
proof (cases "(4096 :: nat) \<le> memory_size b")
  case False
  then show thesis using dry by (simp add: buddy_malloc_def)
next
  case True
  define N st where "N = order_of b" and "st = statuses b"
  have ok: "buddy_ok N b st" using wf by (simp add: buddy_wf_def N_def st_def)
  have s: "buddy_shape N b" and inv: "tree_inv N st" using ok by (auto simp: buddy_ok_def)
  have live: "live_slots b = live N b st" by (simp add: live_slots_def N_def st_def)
  from malloc_cases [OF ok _ True]
  consider p t where "available N st p" "bitlen p = depth_for_size b 4096"
      "buddy_malloc b 4096 = Some (slot_addr N b p, b\<lparr>buddy_tree_of := t\<rparr>)"
      "represents N t (chain (st(p := field_len N p)) p)"
    | "buddy_malloc b 4096 = Some (NULL, b)" by auto
  then show thesis
  proof cases
    case (1 p t)
    let ?b = "b\<lparr>buddy_tree_of := t\<rparr>"
    note m = malloc_ok [OF ok 1(1,4)]
    note mem = available_in_memory [OF ok 1(1)]
    have size: "slot_size N p = 4096"
      using depth_for_size_ok(3) [OF s _ True] 1(2) slot_sizes by (simp add: slot_size_def leaf_count_def)
    have "live_slots ?b = insert p (live_slots b)"
      using buddy_ok_wf(2) [OF m(1)] m(2) live by (simp add: live_def)
    moreover have "\<not> (slot_byte b p x \<and> slot_byte b j x)" if j: "j \<in> live_slots b" for j x
    proof -
      have j': "j \<in> live N b st" using j live by simp
      then have "allocated N st j" by (simp add: live_def)
      then show ?thesis
        unfolding slot_byte_def N_def [symmetric] in_slot_iff [OF s mem] in_slot_iff [OF s live_in_memory [OF ok j']]
        by (rule available_disjoint [OF inv 1(1)])
    qed
    moreover have "64 * leaf_lo N p + 4096 \<le> memory_size b" using mem size by (simp add: slot_size_def)
    ultimately show thesis
      using page [of p ?b] 1(3) buddy_ok_wf(1) [OF m(1)] order_eq [OF m(1)] size by (simp add: N_def)
  qed (rule dry)
qed

text \<open>What a caller may rely on when a frame is handed out.\<close>

definition fresh_frame :: "'a machine_scheme \<Rightarrow> u64 \<Rightarrow> 'a machine_scheme \<Rightarrow> bool" where
  "fresh_frame m f m' \<longleftrightarrow> f \<noteq> NULL \<and> unat f mod 4096 = 0 \<and> unat f + 4096 \<le> 2 ^ 52 \<and> pmm_ok m' \<and>
     (\<forall>x. frame_bytes m f x \<longrightarrow> free_byte m x) \<and>
     (\<forall>x. free_byte m' x \<longleftrightarrow> free_byte m x \<and> \<not> frame_bytes m f x)"

lemma slot_addr_cong: "arena b' = arena b \<Longrightarrow> slot_addr N b' i = slot_addr N b i"
  by (simp add: slot_addr_def)

lemma palloc_fresh:
  assumes "pmm_ok m" "palloc m = Some (f, m')"
  shows "fresh_frame m f m'" "m' = m\<lparr>pmm_buddy := pmm_buddy m'\<rparr>"
proof -
  obtain b where b: "pmm_buddy m = Some b" "buddy_wf b" "0 < unat (arena b - hhdm_offset m)"
      "unat (arena b - hhdm_offset m) mod 4096 = 0" "unat (arena b - hhdm_offset m) + memory_size b \<le> 2 ^ 52"
    using assms(1) by (auto simp: pmm_ok_def)
  have s: "buddy_shape (order_of b) b" using b(2) by (simp add: buddy_wf_def buddy_ok_def)
  have "\<exists>p b'. buddy_malloc b 4096 = Some (slot_addr (order_of b) b p, b') \<and>
      buddy_wf b' \<and> order_of b' = order_of b \<and> arena b' = arena b \<and> memory_size b' = memory_size b \<and>
      live_slots b' = insert p (live_slots b) \<and> slot_size (order_of b) p = 4096 \<and>
      64 * leaf_lo (order_of b) p + 4096 \<le> memory_size b \<and>
      (\<forall>j \<in> live_slots b. \<forall>x. \<not> (slot_byte b p x \<and> slot_byte b j x))"
  proof (cases rule: malloc_page [OF b(2), case_names dry page])
    case dry
    then show ?thesis using assms(2) b(1) by (simp add: palloc_def)
  next
    case (page p b')
    then show ?thesis by blast
  qed
  then obtain p b' where p: "buddy_malloc b 4096 = Some (slot_addr (order_of b) b p, b')"
      "buddy_wf b'" "order_of b' = order_of b" "arena b' = arena b" "memory_size b' = memory_size b"
      "live_slots b' = insert p (live_slots b)" "slot_size (order_of b) p = 4096"
      "64 * leaf_lo (order_of b) p + 4096 \<le> memory_size b"
      "\<forall>j \<in> live_slots b. \<forall>x. \<not> (slot_byte b p x \<and> slot_byte b j x)"
    by blast
  define lo where "lo = 64 * leaf_lo (order_of b) p"
  have lo: "lo + 4096 \<le> memory_size b" using p(8) by (simp add: lo_def)
  have addr: "slot_addr (order_of b) b p = arena b + of_nat lo" by (simp add: slot_addr_def lo_def)
  have "slot_addr (order_of b) b p \<noteq> NULL" using slot_addr_nonzero(1) [OF s, of p] lo by (simp add: lo_def)
  then have f: "f = (arena b - hhdm_offset m) + of_nat lo" "m' = m\<lparr>pmm_buddy := Some b'\<rparr>"
    using assms(2) b(1) p(1) addr by (auto simp: palloc_def)
  then show "m' = m\<lparr>pmm_buddy := pmm_buddy m'\<rparr>" by simp
  have uf: "unat f = unat (arena b - hhdm_offset m) + lo"
    unfolding f(1) by (rule unat_add_no_wrap) (use b(5) lo in simp)
  have align: "lo mod 4096 = 0"
  proof -
    have "slot_size (order_of b) p = 64 * 2 ^ (order_of b - bitlen p)" by (simp add: slot_size_def leaf_count_def)
    then have "lo = slot_size (order_of b) p * (p - 2 ^ (bitlen p - 1))"
      by (simp add: lo_def leaf_lo_def)
    then show ?thesis using p(7) by simp
  qed
  have block: "frame_bytes m f x \<longleftrightarrow> slot_byte b p x" for x
    using f(1) addr p(7) by (simp add: slot_byte_def)
  have inside: "in_block (arena b) (memory_size b) x" if "frame_bytes m f x" for x
  proof -
    have "in_block (arena b + of_nat lo) 4096 x" using that f(1) by simp
    moreover have "memory_size b \<le> 2 ^ 64" using s by (simp add: buddy_shape_def)
    ultimately show ?thesis using lo by (rule_tac in_block_sub [of _ lo 4096]) auto
  qed
  have sb: "slot_byte b' i x = slot_byte b i x" for i x
    using p(3,4) by (simp add: slot_byte_def slot_addr_cong [of b' b])
  have "\<forall>x. frame_bytes m f x \<longrightarrow> free_byte m x"
    using inside p(9) block b(1) by (auto simp: free_byte_def)
  moreover have "\<forall>x. free_byte m' x \<longleftrightarrow> free_byte m x \<and> \<not> frame_bytes m f x"
    using b(1) f(2) p(4,5,6) sb block by (auto simp: free_byte_def)
  moreover have "pmm_ok m'"
    using b p(2,4,5) f(2) by (auto simp: pmm_ok_def)
  moreover have "f \<noteq> NULL" using uf b(3) by (metis add_is_0 less_irrefl unat_0)
  moreover have "unat f mod 4096 = 0" 
    using uf b(4) align mod_add_left_eq [of "unat (arena b - hhdm_offset m)" 4096 lo] by simp
  moreover have "unat f + 4096 \<le> 2 ^ 52" using uf b(5) lo by linarith
  ultimately show "fresh_frame m f m'" by (simp add: fresh_frame_def)
qed

lemma free_byte_cong: "pmm_buddy m = pmm_buddy m' \<Longrightarrow> free_byte m x = free_byte m' x"
  by (simp add: free_byte_def)

lemma pmm_ok_cong:
  "pmm_buddy m = pmm_buddy m' \<Longrightarrow> hhdm_offset m = hhdm_offset m' \<Longrightarrow> pmm_ok m = pmm_ok m'"
  by (simp add: pmm_ok_def)

lemma palloc_zero_fresh:
  assumes "pmm_ok m" "palloc_zero m = Some (f, m')"
  shows "fresh_frame m f m'"
    "m' = m\<lparr>pmm_buddy := pmm_buddy m', pmem := \<lambda>x. if frame_bytes m f x then 0 else pmem m x\<rparr>"
proof -
  obtain m1 where m1: "palloc m = Some (f, m1)"
    using assms(2) by (auto simp: palloc_zero_def Let_def bind_eq_Some_conv split: if_splits)
  note fr = palloc_fresh [OF assms(1) m1]
  have "f \<noteq> NULL" using fr(1) by (simp add: fresh_frame_def)
  then have m': "m' = m1\<lparr>pmem := for_upto 512 (\<lambda>i mm. wr64 mm (f + hhdm_offset m1 + 8 * of_nat i) 0) (pmem m1)\<rparr>"
    using assms(2) m1 by (simp add: palloc_zero_def Let_def)
  have h: "hhdm_offset m1 = hhdm_offset m" "pmem m1 = pmem m" by (subst fr(2), simp)+
  have mem: "for_upto 512 (\<lambda>i mm. wr64 mm (f + hhdm_offset m1 + 8 * of_nat i) 0) (pmem m1) =
      (\<lambda>x. if frame_bytes m f x then 0 else pmem m x)"
    by (rule ext) (simp add: zero_words h)
  show "m' = m\<lparr>pmm_buddy := pmm_buddy m', pmem := \<lambda>x. if frame_bytes m f x then 0 else pmem m x\<rparr>"
    unfolding m' mem using fr(2) by simp
  have "free_byte m' x = free_byte m1 x" "pmm_ok m' = pmm_ok m1" for x
    unfolding m' by (intro free_byte_cong pmm_ok_cong; simp)+
  then show "fresh_frame m f m'" using fr(1) by (simp add: fresh_frame_def)
qed

section \<open>Returning frames\<close>

definition frame_allocated :: "'a machine_scheme \<Rightarrow> u64 \<Rightarrow> bool" where
  "frame_allocated m f \<longleftrightarrow> f \<noteq> NULL \<and> (\<exists>b. pmm_buddy m = Some b \<and>
     (\<exists>i \<in> live_slots b. slot_addr (order_of b) b i = f + hhdm_offset m \<and> slot_size (order_of b) i = 4096))"

lemma live_slot_unique:
  assumes "buddy_wf b" "i \<in> live_slots b" "j \<in> live_slots b" "slot_byte b i x" "slot_byte b j x"
  shows "i = j"
proof -
  have ok: "buddy_ok (order_of b) b (statuses b)" using assms(1) by (simp add: buddy_wf_def)
  have s: "buddy_shape (order_of b) b" and inv: "tree_inv (order_of b) (statuses b)"
    using ok by (auto simp: buddy_ok_def)
  have l: "i \<in> live (order_of b) b (statuses b)" "j \<in> live (order_of b) b (statuses b)"
    using assms by (auto simp: live_slots_def)
  have c: "covers (order_of b) i (unat (x - arena b) div 64)" "covers (order_of b) j (unat (x - arena b) div 64)"
    using assms(4,5) in_slot_iff [OF s live_in_memory [OF ok l(1)]] in_slot_iff [OF s live_in_memory [OF ok l(2)]]
    by (auto simp: slot_byte_def)
  have "allocated (order_of b) (statuses b) i" "allocated (order_of b) (statuses b) j"
    using l by (auto simp: live_def)
  from allocated_disjoint [OF inv this c] show ?thesis .
qed

text \<open>Releasing a slot of any size by the address of its start.\<close>

lemma pfree_slot:
  assumes "pmm_ok m" "pmm_buddy m = Some b" "i \<in> live_slots b" "slot_addr (order_of b) b i = f + hhdm_offset m" "f \<noteq> NULL"
  obtains b' where "pfree f m = Some (m\<lparr>pmm_buddy := Some b'\<rparr>)" "pmm_ok (m\<lparr>pmm_buddy := Some b'\<rparr>)"
    "live_slots b' = live_slots b - {i}" "order_of b' = order_of b" "arena b' = arena b"
    "\<And>x. free_byte (m\<lparr>pmm_buddy := Some b'\<rparr>) x \<longleftrightarrow> free_byte m x \<or> slot_byte b i x"
proof -
  have b: "buddy_wf b" "0 < unat (arena b - hhdm_offset m)"
      "unat (arena b - hhdm_offset m) mod 4096 = 0" "unat (arena b - hhdm_offset m) + memory_size b \<le> 2 ^ 52"
    using assms(1,2) by (auto simp: pmm_ok_def)
  define N where "N = order_of b"
  have ok: "buddy_ok N b (statuses b)" using b(1) by (simp add: buddy_wf_def N_def)
  have s: "buddy_shape N b" using ok by (simp add: buddy_ok_def)
  have li: "i \<in> live N b (statuses b)" using assms(3) by (simp add: live_slots_def N_def)
  from free_live [OF ok li] obtain t where
    t: "buddy_free b (f + hhdm_offset m) = Some (b\<lparr>buddy_tree_of := t\<rparr>)"
      "buddy_ok N (b\<lparr>buddy_tree_of := t\<rparr>) (chain ((statuses b)(i := 0)) i)"
      "live N b (chain ((statuses b)(i := 0)) i) = live N b (statuses b) - {i}"
    using assms(4) by (auto simp: N_def)
  let ?b = "b\<lparr>buddy_tree_of := t\<rparr>"
  let ?m = "m\<lparr>pmm_buddy := Some ?b\<rparr>"
  note wf = buddy_ok_wf [OF t(2)]
  have N': "order_of ?b = N" by (rule order_eq [OF t(2)])
  have live': "live_slots ?b = live_slots b - {i}"
    using wf(2) t(3) by (simp add: live_slots_def N_def live_def)
  have sb: "slot_byte ?b j x = slot_byte b j x" for j x
    unfolding slot_byte_def N' N_def [symmetric] by simp
  have inside: "in_block (arena b) (memory_size b) x" if "slot_byte b i x" for x
  proof -
    have le: "64 * leaf_lo N i + slot_size N i \<le> memory_size b"
      using live_in_memory [OF ok li] by (simp add: slot_size_def)
    have "in_block (arena b + of_nat (64 * leaf_lo N i)) (slot_size N i) x"
      using that by (simp add: slot_byte_def N_def slot_addr_def)
    then show ?thesis using le s by (rule_tac in_block_sub) (auto simp: buddy_shape_def)
  qed
  have "free_byte ?m x \<longleftrightarrow> free_byte m x \<or> slot_byte b i x" for x
    using assms(2,3) live' sb inside by (auto simp: free_byte_def dest: live_slot_unique [OF b(1) assms(3)])
  moreover have "pfree f m = Some ?m" using t(1) assms(2,5) by (simp add: pfree_def)
  moreover have "pmm_ok ?m" using b wf(1) by (auto simp: pmm_ok_def)
  ultimately show thesis using that [of ?b] live' N' by (simp add: N_def)
qed

lemma pfree_frame:
  assumes "pmm_ok m" "frame_allocated m f"
  obtains m' where "pfree f m = Some m'" "m' = m\<lparr>pmm_buddy := pmm_buddy m'\<rparr>" "pmm_ok m'"
    "\<And>x. free_byte m' x \<longleftrightarrow> free_byte m x \<or> frame_bytes m f x"
proof -
  obtain b i where i: "pmm_buddy m = Some b" "i \<in> live_slots b" "slot_addr (order_of b) b i = f + hhdm_offset m"
      "slot_size (order_of b) i = 4096" "f \<noteq> NULL"
    using assms(2) by (auto simp: frame_allocated_def)
  obtain b' where "pfree f m = Some (m\<lparr>pmm_buddy := Some b'\<rparr>)" "pmm_ok (m\<lparr>pmm_buddy := Some b'\<rparr>)"
    "\<And>x. free_byte (m\<lparr>pmm_buddy := Some b'\<rparr>) x \<longleftrightarrow> free_byte m x \<or> slot_byte b i x"
    by (rule pfree_slot [OF assms(1) i(1-3,5)]) blast
  then show thesis using i(3,4) by (intro that) (auto simp: slot_byte_def)
qed

text \<open>
  On an initialised allocator \<^verbatim>\<open>pfree\<close> always returns: it releases the slot that starts at the
  address, or does nothing. Bytes that are free stay free, and a frame other than the
  released one stays allocated.
\<close>

lemma pfree_total:
  assumes ok: "pmm_ok m"
  obtains m' where "pfree f m = Some m'" "m' = m\<lparr>pmm_buddy := pmm_buddy m'\<rparr>" "pmm_ok m'"
    "\<And>x. free_byte m x \<Longrightarrow> free_byte m' x" "\<And>g. frame_allocated m g \<Longrightarrow> g \<noteq> f \<Longrightarrow> frame_allocated m' g"
    "\<And>x. frame_allocated m f \<Longrightarrow> frame_bytes m f x \<Longrightarrow> free_byte m' x"
proof -
  obtain b where b: "pmm_buddy m = Some b" "buddy_wf b" using ok by (auto simp: pmm_ok_def)
  have bok: "buddy_ok (order_of b) b (statuses b)" using b(2) by (simp add: buddy_wf_def)
  show thesis
  proof (cases "f \<noteq> NULL \<and> (\<exists>i \<in> live_slots b. slot_addr (order_of b) b i = f + hhdm_offset m)")
    case True
    then obtain i where i: "i \<in> live_slots b" "slot_addr (order_of b) b i = f + hhdm_offset m" and nz: "f \<noteq> NULL" by blast
    obtain b' where b': "pfree f m = Some (m\<lparr>pmm_buddy := Some b'\<rparr>)" "pmm_ok (m\<lparr>pmm_buddy := Some b'\<rparr>)"
        "live_slots b' = live_slots b - {i}" "order_of b' = order_of b" "arena b' = arena b"
        "\<And>x. free_byte (m\<lparr>pmm_buddy := Some b'\<rparr>) x \<longleftrightarrow> free_byte m x \<or> slot_byte b i x"
      by (rule pfree_slot [OF ok b(1) i nz]) blast
    have sa: "slot_addr (order_of b') b' j = slot_addr (order_of b) b j" for j
      unfolding b'(4) by (rule slot_addr_cong [OF b'(5)])
    have others: "frame_allocated (m\<lparr>pmm_buddy := Some b'\<rparr>) g" if g: "frame_allocated m g" "g \<noteq> f" for g
    proof -
      obtain j where j: "j \<in> live_slots b" "slot_addr (order_of b) b j = g + hhdm_offset m" "slot_size (order_of b) j = 4096" "g \<noteq> NULL"
        using g(1) b(1) by (auto simp: frame_allocated_def)
      then have "j \<noteq> i" using i(2) g(2) by auto
      then show ?thesis using j sa b'(3,4) by (auto simp: frame_allocated_def)
    qed
    have self: "free_byte (m\<lparr>pmm_buddy := Some b'\<rparr>) x" if "frame_allocated m f" "frame_bytes m f x" for x
      by (rule pfree_frame [OF ok that(1)]) (use b'(1) that(2) in auto)
    show thesis using that [OF b'(1)] b'(2,6) others self by simp
  next
    case False
    have "pfree f m = Some m"
    proof (cases "f = NULL")
      case False
      then have "buddy_free b (f + hhdm_offset m) = Some b"
        using \<open>\<not> (f \<noteq> NULL \<and> _)\<close> by (intro free_other [OF bok]) (auto simp: live_slots_def)
      then show ?thesis using b(1) by (simp add: pfree_def)
    qed (use b(1) in \<open>simp add: pfree_def\<close>)
    moreover have "\<not> frame_allocated m f" using False b(1) by (auto simp: frame_allocated_def)
    ultimately show thesis using that [of m] ok by simp
  qed
qed

lemma palloc_allocated:
  assumes "pmm_ok m" "palloc m = Some (f, m')"
  shows "frame_allocated m' f" "frame_allocated m g \<Longrightarrow> frame_allocated m' g"
proof -
  obtain b where b: "pmm_buddy m = Some b" "buddy_wf b" using assms(1) by (auto simp: pmm_ok_def)
  have f: "f \<noteq> NULL" using palloc_fresh [OF assms] by (simp add: fresh_frame_def)
  have "frame_allocated m' f \<and> (frame_allocated m g \<longrightarrow> frame_allocated m' g)"
  proof (cases rule: malloc_page [OF b(2), case_names dry page])
    case dry
    then show ?thesis using assms(2) b(1) by (simp add: palloc_def)
  next
    case (page p b')
    have f': "f = slot_addr (order_of b) b p - hhdm_offset m" "m' = m\<lparr>pmm_buddy := Some b'\<rparr>"
      using assms(2) b(1) page(1) by (auto simp: palloc_def split: if_splits)
    show ?thesis
      using page f' f b(1) slot_addr_cong [OF page(4)] by (auto simp: frame_allocated_def)
  qed
  then show "frame_allocated m' f" "frame_allocated m g \<Longrightarrow> frame_allocated m' g" by auto
qed

section \<open>The interface of a frame source\<close>

text \<open>
  What the code above the page allocator relies on: every frame it gets was free before, is
  no longer free, and lies where the direct map puts it. The consequence that callers use:
  frames obtained in a row never overlap.
\<close>

fun allocs :: "('s \<Rightarrow> (u64 \<times> 's) option) \<Rightarrow> nat \<Rightarrow> 's \<Rightarrow> (u64 list \<times> 's) option" where
  "allocs alloc 0 s = Some ([], s)"
| "allocs alloc (Suc n) s =
     Option.bind (alloc s) (\<lambda>(f, s1). Option.bind (allocs alloc n s1) (\<lambda>(fs, s2). Some (f # fs, s2)))"

locale frame_source =
  fixes alloc :: "'s \<Rightarrow> (u64 \<times> 's) option"
    and ok :: "'s \<Rightarrow> bool"
    and avail :: "'s \<Rightarrow> u64 \<Rightarrow> bool"
    and base :: "'s \<Rightarrow> u64"
  assumes alloc_ok: "ok s \<Longrightarrow> alloc s = Some (f, s') \<Longrightarrow> ok s'"
    and alloc_base: "ok s \<Longrightarrow> alloc s = Some (f, s') \<Longrightarrow> base s' = base s"
    and alloc_avail: "ok s \<Longrightarrow> alloc s = Some (f, s') \<Longrightarrow> in_block (f + base s) 4096 x \<Longrightarrow> avail s x"
    and alloc_takes: "ok s \<Longrightarrow> alloc s = Some (f, s') \<Longrightarrow>
      avail s' x \<longleftrightarrow> avail s x \<and> \<not> in_block (f + base s) 4096 x"
begin

lemma allocs_fresh:
  "ok s \<Longrightarrow> allocs alloc n s = Some (fs, s') \<Longrightarrow>
     ok s' \<and> base s' = base s \<and> length fs = n \<and>
     (\<forall>x. avail s' x \<longleftrightarrow> avail s x \<and> (\<forall>f \<in> set fs. \<not> in_block (f + base s) 4096 x)) \<and>
     (\<forall>f \<in> set fs. \<forall>x. in_block (f + base s) 4096 x \<longrightarrow> avail s x)"
proof (induction n arbitrary: s fs)
  case (Suc n)
  then obtain f s1 fs' where a: "alloc s = Some (f, s1)" "allocs alloc n s1 = Some (fs', s')" "fs = f # fs'"
    by (auto simp: bind_eq_Some_conv)
  have s1: "ok s1" "base s1 = base s"
    using alloc_ok [OF Suc.prems(1) a(1)] alloc_base [OF Suc.prems(1) a(1)] by auto
  note IH = Suc.IH [OF s1(1) a(2)]
  show ?case
    using IH s1 a(3) alloc_avail [OF Suc.prems(1) a(1)] alloc_takes [OF Suc.prems(1) a(1)]
    by auto
qed simp

lemma allocs_disjoint:
  "ok s \<Longrightarrow> allocs alloc n s = Some (fs, s') \<Longrightarrow> i < j \<Longrightarrow> j < n \<Longrightarrow>
     \<not> (in_block (fs ! i + base s) 4096 x \<and> in_block (fs ! j + base s) 4096 x)"
proof (induction n arbitrary: s fs i j)
  case (Suc n)
  then obtain f s1 fs' where a: "alloc s = Some (f, s1)" "allocs alloc n s1 = Some (fs', s')" "fs = f # fs'"
    by (auto simp: bind_eq_Some_conv)
  have s1: "ok s1" "base s1 = base s"
    using alloc_ok [OF Suc.prems(1) a(1)] alloc_base [OF Suc.prems(1) a(1)] by auto
  obtain j' where j: "j = Suc j'" using Suc.prems(3) by (cases j) auto
  show ?case
  proof (cases i)
    case 0
    have "length fs' = n" using allocs_fresh [OF s1(1) a(2)] by simp
    then have "fs' ! j' \<in> set fs'" using Suc.prems(4) j by simp
    then have "avail s1 x" if "in_block (fs' ! j' + base s) 4096 x"
      using allocs_fresh [OF s1(1) a(2)] s1(2) that by simp
    then show ?thesis using 0 j a(3) alloc_takes [OF Suc.prems(1) a(1)] by auto
  next
    case (Suc i')
    then show ?thesis using Suc.IH [OF s1(1) a(2), of i' j'] Suc.prems(3,4) s1(2) a(3) j by simp
  qed
qed simp

end

interpretation pages: frame_source palloc pmm_ok free_byte hhdm_offset
proof
  fix s :: "'a machine_scheme" and f s' x
  assume a: "pmm_ok s" "palloc s = Some (f, s')"
  note fr = palloc_fresh [OF a]
  show "pmm_ok s'" "free_byte s' x \<longleftrightarrow> free_byte s x \<and> \<not> in_block (f + hhdm_offset s) 4096 x"
    using fr(1) by (auto simp: fresh_frame_def)
  show "hhdm_offset s' = hhdm_offset s" by (subst fr(2)) simp
  show "in_block (f + hhdm_offset s) 4096 x \<Longrightarrow> free_byte s x" using fr(1) by (simp add: fresh_frame_def)
qed

interpretation zero_pages: frame_source palloc_zero pmm_ok free_byte hhdm_offset
proof
  fix s :: "'a machine_scheme" and f s' x
  assume a: "pmm_ok s" "palloc_zero s = Some (f, s')"
  note fr = palloc_zero_fresh [OF a]
  show "pmm_ok s'" "free_byte s' x \<longleftrightarrow> free_byte s x \<and> \<not> in_block (f + hhdm_offset s) 4096 x"
    using fr(1) by (auto simp: fresh_frame_def)
  show "hhdm_offset s' = hhdm_offset s" by (subst fr(2)) simp
  show "in_block (f + hhdm_offset s) 4096 x \<Longrightarrow> free_byte s x" using fr(1) by (simp add: fresh_frame_def)
qed

section \<open>Initialisation\<close>

lemma scan_spec:
  "fold scan_entry es (top_address, base, len) = (top', base', len') \<Longrightarrow>
     (len' = len \<and> base' = base \<or>
      (\<exists>e \<in> set es. me_type e = LIMINE_MEMMAP_USABLE \<and> me_base e = base' \<and> me_length e = len')) \<and>
     len \<le> len' \<and> (\<forall>e \<in> set es. me_type e = LIMINE_MEMMAP_USABLE \<longrightarrow> me_length e \<le> len')"
proof (induction es arbitrary: top_address base len)
  case (Cons e es)
  obtain t1 b1 l1 where s: "scan_entry e (top_address, base, len) = (t1, b1, l1)"
    by (cases "scan_entry e (top_address, base, len)")
  then have "fold scan_entry es (t1, b1, l1) = (top', base', len')" using Cons.prems by simp
  note IH = Cons.IH [OF this]
  from s have "len \<le> l1" "me_type e = LIMINE_MEMMAP_USABLE \<Longrightarrow> me_length e \<le> l1"
    "l1 = len \<and> b1 = base \<or> me_type e = LIMINE_MEMMAP_USABLE \<and> b1 = me_base e \<and> l1 = me_length e"
    by (auto simp: scan_entry_def split: if_splits)
  then show ?case using IH by (auto intro: order_trans)
qed simp

lemma init_pmm_from_chunk:
  assumes scan: "fold scan_entry memmap (0, 0, 0) = (top_address, base, len)"
    and al: "page_aligned base" "page_aligned (hhdm_offset m)"
    and sz: "unat base + unat len \<le> 2 ^ 52" "0 < hhdm_offset m" "unat base + unat len + unat (hhdm_offset m) < 2 ^ 64"
    and room: "buddy_sizeof (unat len) + 4159 \<le> unat len"
  defines "meta \<equiv> (buddy_sizeof (unat len) + 4095) div 4096 * 4096"
  shows "\<exists>m' b. init_pmm memmap m = Some m' \<and> pmm_ok m' \<and> pmem m' = pmem m \<and> hhdm_offset m' = hhdm_offset m \<and>
    pmm_buddy m' = Some b \<and> live_slots b = {} \<and> arena b = base + of_nat meta + hhdm_offset m \<and>
    memory_size b = (unat len - meta) - (unat len - meta) mod 64"
proof -
  define need where "need = buddy_sizeof (unat len)"
  have len64: "64 \<le> unat len" using room by simp
  have "is_valid_alignment 64" using ceiling_power_of_two_exact [of 6] by (simp add: is_valid_alignment_def)
  then have need0: "0 < need"
    using len64 by (simp add: need_def buddy_sizeof_def buddy_sizeof_alignment_def BUDDY_ALLOC_ALIGN_def)
  have meta: "meta \<le> need + 4095" "0 < meta" "meta mod 4096 = 0"
  proof -
    show "meta \<le> need + 4095" unfolding meta_def need_def [symmetric] by simp
    have "0 < (need + 4095) div 4096" using need0 by (simp add: div_greater_zero_iff)
    then show "0 < meta" unfolding meta_def need_def [symmetric] by simp
    show "meta mod 4096 = 0" unfolding meta_def by simp
  qed
  have meta_len: "meta + 64 \<le> unat len" using meta(1) room by (simp add: need_def)
  have meta_word: "page_base (of_nat need + 4095) = of_nat meta"
  proof -
    have "unat (page_base (of_nat need + 4095)) = meta"
      unfolding meta_def need_def [symmetric] using room sz unat_bound [of len]
      by (intro page_round_up) (simp add: need_def)
    then have "of_nat (unat (page_base (of_nat need + 4095))) = (of_nat meta :: u64)" by (rule arg_cong)
    then show ?thesis by simp
  qed
  have um: "unat (of_nat meta :: u64) = meta" using meta_len unat_bound [of len] by (intro unat_offset) simp
  have ul: "unat (len - of_nat meta) = unat len - meta"
    using meta_len um by (subst unat_sub) (auto simp: word_le_nat_alt)
  have hp: "0 < unat (hhdm_offset m)" using sz(2) by (simp add: word_less_nat_alt)
  have "unat (base + hhdm_offset m) = unat base + unat (hhdm_offset m)"
    using sz by (intro unat_add_lem [THEN iffD1]) simp
  then have v0: "base + hhdm_offset m \<noteq> NULL" "unat (base + hhdm_offset m) = unat base + unat (hhdm_offset m)"
    using hp by (metis add_is_0 less_irrefl unat_0)+
  have ub: "unat (base + of_nat meta) = unat base + meta"
    using um sz meta_len by (subst unat_add_lem [THEN iffD1]) simp_all
  have "unat (base + of_nat meta + hhdm_offset m) = unat base + meta + unat (hhdm_offset m)"
    using ub sz meta_len by (subst unat_add_lem [THEN iffD1]) simp_all
  then have av: "unat (base + of_nat meta + hhdm_offset m) = unat base + meta + unat (hhdm_offset m)"
      "base + of_nat meta + hhdm_offset m \<noteq> NULL"
    using hp by (metis add_is_0 less_irrefl unat_0)+
  have ne: "base + hhdm_offset m \<noteq> base + of_nat meta + hhdm_offset m"
    using v0(2) av(1) meta(2) by auto
  have mod8: "unat (base + hhdm_offset m) mod 8 = 0" "unat (base + of_nat meta + hhdm_offset m) mod 8 = 0"
  proof -
    have d: "4096 dvd unat base" "4096 dvd unat (hhdm_offset m)" "4096 dvd meta"
      using al meta(3) by (auto simp: page_aligned_iff)
    have "(8 :: nat) dvd 4096" by simp
    then have "8 dvd unat base" "8 dvd unat (hhdm_offset m)" "8 dvd meta" using d dvd_trans by blast+
    then have "8 dvd unat base + unat (hhdm_offset m)" "8 dvd unat base + meta + unat (hhdm_offset m)"
      by (simp_all add: dvd_add)
    then show "unat (base + hhdm_offset m) mod 8 = 0" "unat (base + of_nat meta + hhdm_offset m) mod 8 = 0"
      unfolding v0(2) av(1) mod_eq_0_iff_dvd .
  qed
  have "64 \<le> unat len - meta" using meta_len by linarith
  moreover have "unat len - meta \<le> 2 ^ 62" using sz(1) by simp
  moreover have "unat (base + of_nat meta + hhdm_offset m) + (unat len - meta) < 2 ^ 64"
    unfolding av(1) using sz meta_len by simp
  ultimately
  obtain b N st where b: "buddy_init (base + hhdm_offset m) (base + of_nat meta + hhdm_offset m) (unat len - meta) = Some (Some b)"
      "buddy_ok N b st" "live N b st = {}" "arena b = base + of_nat meta + hhdm_offset m"
      "memory_size b = (unat len - meta) - (unat len - meta) mod 64"
    using init_ok [OF v0(1) av(2) ne mod8] by blast
  define m' where "m' = m\<lparr>total_system_pages := top_address div 4096, arena_phys_base := base + of_nat meta,
      arena_total_len := len - of_nat meta, pmm_buddy := Some b\<rparr>"
  have "len \<noteq> 0" using len64 by auto
  then have "init_pmm memmap m = Some m'"
    using scan b(1) meta_word ul
    by (simp add: init_pmm_def need_def [symmetric] m'_def Let_def)
  moreover have "pmm_ok m'"
  proof -
    have ph: "unat (arena b - hhdm_offset m) = unat base + meta" using b(4) ub by simp
    have "memory_size b \<le> unat len - meta" using b(5) by simp
    then have "unat base + meta + memory_size b \<le> 2 ^ 52" using sz(1) meta_len by linarith
    moreover have "(unat base + meta) mod 4096 = 0"
      using al meta(3) by (simp add: page_aligned_iff mod_add_eq [symmetric, of "unat base" meta])
    ultimately show ?thesis
      using ph meta(2) buddy_ok_wf(1) [OF b(2)] by (auto simp: pmm_ok_def m'_def)
  qed
  ultimately show ?thesis
    using b(3,4,5) buddy_ok_wf(2) [OF b(2)] by (intro exI [of _ m'] exI [of _ b]) (simp add: m'_def)
qed

section \<open>Exhaustion\<close>

lemma page_position:
  assumes s: "buddy_shape N b" and k: "4096 * (k + 1) \<le> memory_size b"
  obtains p where "node N p" "slot_size N p = 4096" "leaf_lo N p = 64 * k"
proof -
  have mem: "memory_size b \<le> 64 * 2 ^ (N - 1)" using memory_le_effective [OF s] by simp
  then have "64 * 2 ^ 6 \<le> 64 * (2 :: nat) ^ (N - 1)" using k by simp
  then have "(2 :: nat) ^ 6 < 2 ^ Suc (N - 1)" by simp
  then have "6 < Suc (N - 1)" by (rule power_less_imp_less_exp [rotated]) simp
  then have N7: "7 \<le> N" by simp
  define e where "e = N - 7"
  have N: "N = e + 7" using N7 by (simp add: e_def)
  have pw: "(2 :: nat) ^ (N - 1) = 64 * 2 ^ e" by (simp add: N power_add)
  have "64 * (k + 1) \<le> 2 ^ (N - 1)" using k mem by linarith
  then have ke: "k < 2 ^ e" using pw by simp
  define p where "p = 2 ^ e + k"
  have bp: "bitlen p = Suc e" unfolding p_def using ke by (intro bitlen_unique) auto
  have "p < 2 ^ Suc e" using ke by (simp add: p_def)
  also have "\<dots> \<le> 2 ^ N" by (intro power_increasing) (auto simp: N)
  finally have "node N p" by (simp add: node_def p_def)
  moreover have "slot_size N p = 4096" "leaf_lo N p = 64 * k"
    using bp by (simp_all add: slot_size_def leaf_count_def leaf_lo_def N p_def)
  ultimately show thesis by (rule that)
qed

lemma free_page_available:
  assumes ok: "buddy_ok N b st" and n: "node N p"
    and mem: "64 * (leaf_lo N p + leaf_count N p) \<le> memory_size b"
    and free: "\<And>j x. j \<in> live N b st \<Longrightarrow> covers N p x \<Longrightarrow> \<not> covers N j x"
  shows "available N st p"
proof -
  have inv: "tree_inv N st" using ok by (simp add: buddy_ok_def)
  have live: "j \<in> live N b st" if "allocated N st j" "covers N p x" "covers N j x" for j x
  proof -
    have "64 * leaf_lo N j < memory_size b" using that(2,3) mem by (auto simp: covers_def)
    then show ?thesis using that(1) by (simp add: live_def)
  qed
  have none: "\<not> (covers N p x \<and> covers N j x)" if "allocated N st j" for j x
    using live [OF that] free by blast
  have up: "covers N (j div 2 ^ l) (leaf_lo N j)" if "node N j" "node N (j div 2 ^ l)" for j l
  proof -
    define x where "x = leaf_lo N j"
    have "covers N j x" by (simp add: covers_def x_def leaf_count_def)
    then have e: "(2 ^ (N - 1) + x) div 2 ^ (N - bitlen j) = j" using covers_iff_ancestor [OF that(1)] by simp
    have "j div 2 ^ l = (2 ^ (N - 1) + x) div 2 ^ (N - bitlen j + l)"
      unfolding power_add div_mult2_eq e ..
    moreover have "bitlen j = bitlen (j div 2 ^ l) + l"
      using bitlen_drop [of l j] that(2) by (simp add: node_def div_greater_zero_iff)
    moreover have "bitlen j \<le> N" by (rule bitlen_le [OF that(1)])
    ultimately show ?thesis unfolding x_def [symmetric] covers_iff_ancestor [OF that(2)]
      by (simp add: diff_add_assoc2)
  qed
  have "st p = 0"
  proof (rule ccontr)
    assume "st p \<noteq> 0"
    then obtain j l where j: "allocated N st j" "p = j div 2 ^ l"
      using nonzero_has_allocated [OF inv n] by blast
    have nj: "node N j" using j(1) by (simp add: allocated_def)
    have "covers N p (leaf_lo N j)" using up [OF nj] n j(2) by simp
    moreover have "covers N j (leaf_lo N j)" by (simp add: covers_def leaf_count_def)
    ultimately show False using none [OF j(1)] by blast
  qed
  moreover have "\<not> allocated N st (p div 2 ^ l)" for l
  proof
    assume a: "allocated N st (p div 2 ^ l)"
    then have "covers N (p div 2 ^ l) (leaf_lo N p)" using up [OF n] by (simp add: allocated_def)
    moreover have "covers N p (leaf_lo N p)" by (simp add: covers_def leaf_count_def)
    ultimately show False using none [OF a] by blast
  qed
  ultimately show ?thesis using n by (simp add: available_def)
qed

lemma palloc_if_free:
  assumes "pmm_ok m" "pmm_buddy m = Some b" "4096 * (k + 1) \<le> memory_size b"
    and free: "\<And>x. in_block (arena b + of_nat (4096 * k)) 4096 x \<Longrightarrow> free_byte m x"
  obtains f m' where "palloc m = Some (f, m')"
proof -
  define N st where "N = order_of b" and "st = statuses b"
  have wf: "buddy_wf b" using assms(1,2) by (auto simp: pmm_ok_def)
  then have ok: "buddy_ok N b st" by (simp add: buddy_wf_def N_def st_def)
  have s: "buddy_shape N b" using ok by (simp add: buddy_ok_def)
  obtain p where p: "node N p" "slot_size N p = 4096" "leaf_lo N p = 64 * k"
    using page_position [OF s assms(3)] .
  have cnt: "leaf_count N p = 64" using p(2) by (simp add: slot_size_def)
  have mem: "64 * (leaf_lo N p + leaf_count N p) \<le> memory_size b" using assms(3) p(3) cnt by simp
  have "available N st p"
  proof (rule free_page_available [OF ok p(1) mem])
    fix j y assume j: "j \<in> live N b st" and y: "covers N p y"
    define x where "x = arena b + of_nat (64 * y)"
    have "64 * y < 2 ^ 64" using y p(3) cnt assms(3) s by (simp add: covers_def buddy_shape_def)
    then have "unat (x - arena b) = 64 * y" unfolding x_def add_diff_cancel_left' by (rule unat_offset)
    then have leaf: "unat (x - arena b) div 64 = y" by simp
    then have "in_block (slot_addr N b p) (slot_size N p) x" using in_slot_iff [OF s mem] y by simp
    then have "free_byte m x" using free [of x] p by (simp add: slot_addr_def)
    then have "\<not> in_block (slot_addr N b j) (slot_size N j) x"
      using j assms(2) by (auto simp: free_byte_def slot_byte_def live_slots_def N_def st_def)
    then show "\<not> covers N j y" using in_slot_iff [OF s live_in_memory [OF ok j], of x] leaf by simp
  qed
  have fits: "(4096 :: nat) \<le> memory_size b" using assms(3) by simp
  have "bitlen p = depth_for_size b 4096"
  proof -
    have d: "depth_for_size b 4096 \<le> N" "(4096 :: nat) = 64 * 2 ^ (N - depth_for_size b 4096)"
      using depth_for_size_ok [OF s _ fits] slot_sizes by auto
    then have "(2 :: nat) ^ (N - depth_for_size b 4096) = 2 ^ (N - bitlen p)"
      using p(2) by (simp add: slot_size_def leaf_count_def)
    then have "N - depth_for_size b 4096 = N - bitlen p" by simp
    then show ?thesis using d(1) bitlen_le [OF p(1)] by linarith
  qed
  with malloc_cases [OF ok _ fits] \<open>available N st p\<close> obtain q t where
    q: "available N st q" "buddy_malloc b 4096 = Some (slot_addr N b q, b\<lparr>buddy_tree_of := t\<rparr>)" by auto
  have "64 * leaf_lo N q < memory_size b"
    using available_in_memory [OF ok q(1)] by (auto simp: leaf_count_def intro: less_le_trans [rotated])
  then have "slot_addr N b q \<noteq> NULL" by (rule slot_addr_nonzero(1) [OF s])
  then show thesis using that assms(2) q(2) by (auto simp: palloc_def)
qed

section \<open>A booted machine\<close>

text \<open>A concrete memory map on which the properties are exercised.\<close>

text \<open>The physical frames the allocator still has, as a set.\<close>

definition free_frames :: "'a machine_scheme \<Rightarrow> u64 set" where
  "free_frames m = {f. page_aligned f \<and> (\<forall>x. frame_bytes m f x \<longrightarrow> free_byte m x)}"

lemma frames_disjoint:
  assumes "page_aligned f" "page_aligned g" "frame_bytes m f x" "frame_bytes m g x"
  shows "f = g"
proof -
  have "in_block f 4096 (x - hhdm_offset m)" "in_block g 4096 (x - hhdm_offset m)"
    using assms(3,4) by (simp_all add: in_block_def algebra_simps)
  then show ?thesis using assms(1,2) by (simp add: in_page_iff)
qed

lemma fresh_free_frames:
  assumes "fresh_frame m f m'" "hhdm_offset m' = hhdm_offset m"
  shows "f \<in> free_frames m" "free_frames m' = free_frames m - {f}"
proof -
  have f: "page_aligned f" using assms(1) by (simp add: fresh_frame_def page_aligned_iff)
  then show "f \<in> free_frames m" using assms(1) by (simp add: fresh_frame_def free_frames_def)
  have "frame_bytes m f (f + hhdm_offset m)" by (simp add: in_block_def)
  then have "f \<notin> free_frames m'" using assms by (auto simp: fresh_frame_def free_frames_def)
  then show "free_frames m' = free_frames m - {f}"
    using assms f by (auto simp: fresh_frame_def free_frames_def dest: frames_disjoint)
qed

lemma free_frame_page:
  assumes "pmm_ok m" "pmm_buddy m = Some b" "f \<in> free_frames m"
  obtains k where "4096 * (k + 1) \<le> memory_size b" "f + hhdm_offset m = arena b + of_nat (4096 * k)"
proof -
  define d where "d = unat (f - (arena b - hhdm_offset m))"
  have ok: "page_aligned (arena b - hhdm_offset m)"
    using assms(1,2) by (auto simp: pmm_ok_def page_aligned_iff)
  have f: "page_aligned f" "\<And>x. frame_bytes m f x \<Longrightarrow> in_block (arena b) (memory_size b) x"
    using assms(2,3) by (auto simp: free_frames_def free_byte_def)
  have "page_aligned (f - (arena b - hhdm_offset m))" using f(1) ok by (rule page_aligned_minus)
  then obtain k where k: "d = 4096 * k" by (auto simp: d_def page_aligned_iff)
  have d: "f + hhdm_offset m = arena b + of_nat d" by (simp add: d_def)
  have d64: "d < 2 ^ 64" unfolding d_def by (rule unat_bound)
  have "k < 2 ^ 52" using d64 k by simp
  then have last64: "d + 4095 < 2 ^ 64" using k by simp
  have "frame_bytes m f (f + hhdm_offset m + of_nat 4095)" by (simp add: in_block_def)
  then have "in_block (arena b) (memory_size b) (arena b + of_nat (d + 4095))"
    using f(2) d by (simp add: add.assoc)
  then have "d + 4095 < memory_size b" using last64 by (simp add: in_block_def del: of_nat_add)
  then show thesis using that [of k] d k by simp
qed

lemma palloc_returns:
  assumes "pmm_ok m" "free_frames m \<noteq> {}"
  obtains f m' where "palloc m = Some (f, m')"
proof -
  obtain b where b: "pmm_buddy m = Some b" using assms(1) by (auto simp: pmm_ok_def)
  obtain f where f: "f \<in> free_frames m" using assms(2) by blast
  obtain k where k: "4096 * (k + 1) \<le> memory_size b" "f + hhdm_offset m = arena b + of_nat (4096 * k)"
    by (rule free_frame_page [OF assms(1) b f])
  show thesis
    by (rule palloc_if_free [OF assms(1) b k(1)]) (use f k(2) that in \<open>auto simp: free_frames_def\<close>)
qed

lemma palloc_zero_returns:
  assumes "pmm_ok m" "free_frames m \<noteq> {}"
  obtains f m' where "palloc_zero m = Some (f, m')"
proof -
  obtain f m1 where m1: "palloc m = Some (f, m1)" by (rule palloc_returns [OF assms])
  then have "\<exists>m'. palloc_zero m = Some (f, m')" by (simp add: palloc_zero_def Let_def)
  then show thesis using that by blast
qed

lemma palloc_zero_frames:
  assumes "pmm_ok m" "palloc_zero m = Some (f, m')"
  shows "f \<in> free_frames m" "free_frames m' = free_frames m - {f}"
proof -
  have "hhdm_offset m' = hhdm_offset m" by (subst palloc_zero_fresh(2) [OF assms]) simp
  then show "f \<in> free_frames m" "free_frames m' = free_frames m - {f}"
    using fresh_free_frames [OF palloc_zero_fresh(1) [OF assms]] by simp_all
qed

text \<open>
  A source that also counts what it has left returns a frame as long as there is one, so that
  any number of frames up to the count can be taken in a row.
\<close>

locale frame_supply = frame_source +
  fixes left :: "'a \<Rightarrow> u64 set"
  assumes alloc_returns: "ok s \<Longrightarrow> left s \<noteq> {} \<Longrightarrow> \<exists>f s'. alloc s = Some (f, s')"
    and alloc_left: "ok s \<Longrightarrow> alloc s = Some (f, s') \<Longrightarrow> left s' = left s - {f}"
begin

lemma allocs_return: "ok s \<Longrightarrow> n \<le> card (left s) \<Longrightarrow> \<exists>fs s'. allocs alloc n s = Some (fs, s')"
proof (induction n arbitrary: s)
  case (Suc n)
  then have "left s \<noteq> {}" by auto
  then obtain f s1 where a: "alloc s = Some (f, s1)" using alloc_returns Suc.prems(1) by blast
  have "n \<le> card (left s1)"
    using Suc.prems(2) alloc_left [OF Suc.prems(1) a] card_Diff_singleton_if [of "left s" f] by (auto split: if_splits)
  then obtain fs s' where "allocs alloc n s1 = Some (fs, s')"
    using Suc.IH alloc_ok [OF Suc.prems(1) a] by blast
  then show ?case using a by simp
qed simp

end

interpretation zero_supply: frame_supply palloc_zero pmm_ok free_byte hhdm_offset free_frames
proof
  fix s :: "'a machine_scheme" and f s'
  assume ok: "pmm_ok s"
  show "free_frames s \<noteq> {} \<Longrightarrow> \<exists>f s'. palloc_zero s = Some (f, s')"
    using palloc_zero_returns [OF ok] by metis
  show "palloc_zero s = Some (f, s') \<Longrightarrow> free_frames s' = free_frames s - {f}"
    using palloc_zero_frames(2) [OF ok] .
qed

lemma size_for_order_total:
  assumes "N \<le> 255"
  shows "size_for_order N 0 = 2 ^ (N + 1) - N - 2"
proof -
  have "(\<Sum>k<n. (n - k) * 2 ^ k) + n + 2 = (2 :: nat) ^ (n + 1)" for n
  proof (induction n)
    case (Suc n)
    have "(\<Sum>k<Suc n. (Suc n - k) * 2 ^ k) = (\<Sum>k<n. (n - k) * 2 ^ k + 2 ^ k) + 2 ^ n"
      by (simp add: Suc_diff_le add.commute)
    also have "\<dots> = (\<Sum>k<n. (n - k) * 2 ^ k) + (2 ^ n - 1) + 2 ^ n"
      by (simp add: sum.distrib mask_eq_sum_exp_nat [symmetric] mask_nat_def lessThan_def)
    finally show ?case using Suc by simp
  qed simp
  from this [of N] have "(\<Sum>k<N. (N - k) * 2 ^ k) = 2 ^ (N + 1) - N - 2" by linarith
  then show ?thesis using size_for_order_loop_sum [of 0 N 0 1] assms by (simp add: size_for_order_def)
qed

definition boot_memmap :: "limine_memmap_entry list" where
  "boot_memmap =
    [\<lparr>me_base = 0, me_length = 0x9F000, me_type = 1\<rparr>,
     \<lparr>me_base = 0x100000, me_length = 0x105000, me_type = 0\<rparr>,
     \<lparr>me_base = 0x300000, me_length = 0x4000, me_type = 0\<rparr>]"

definition boot_machine :: machine where
  "boot_machine = \<lparr>pmem = (\<lambda>_. 0), hhdm_offset = 0xffff800000000000, nx_supported = True,
     pmm_buddy = None, total_system_pages = 0, arena_phys_base = 0, arena_total_len = 0\<rparr>"

lemma boot_scan: "fold scan_entry boot_memmap (0, 0, 0) = (0x304000, 0x100000, 0x105000)"
  by (simp add: boot_memmap_def scan_entry_def LIMINE_MEMMAP_USABLE_def)

lemma boot_sizeof: "buddy_sizeof 0x105000 = 16588"
proof -
  have "ceiling_power_of_two 16704 = 2 ^ 15" by (rule ceiling_unique) auto
  moreover have "highest_bit_position (2 ^ 15) = 16"
    using highest_bit_position_bitlen [of "2 ^ 15"] bitlen_unique [of 15 "2 ^ 15"] by simp
  ultimately have "buddy_tree_order_for_memory 0x105000 64 = 16"
    by (simp add: buddy_tree_order_for_memory_def)
  moreover have "is_valid_alignment 64" using ceiling_power_of_two_exact [of 6] by (simp add: is_valid_alignment_def)
  moreover have "size_for_order 16 0 = 131054" using size_for_order_total [of 16] by simp
  ultimately show ?thesis
    by (simp add: buddy_sizeof_def BUDDY_ALLOC_ALIGN_def buddy_sizeof_alignment_def buddy_tree_sizeof_def
        bitset_sizeof_def)
qed

lemma boot_hyps:
  "page_aligned 0x100000" "page_aligned (hhdm_offset boot_machine)"
  "unat (0x100000 :: u64) + unat (0x105000 :: u64) \<le> 2 ^ 52" "0 < hhdm_offset boot_machine"
  "unat (0x100000 :: u64) + unat (0x105000 :: u64) + unat (hhdm_offset boot_machine) < 2 ^ 64"
  "buddy_sizeof (unat (0x105000 :: u64)) + 4159 \<le> unat (0x105000 :: u64)"
  by (simp_all add: boot_machine_def page_aligned_iff boot_sizeof)

lemma boot_pmm:
  "\<exists>m b. init_pmm boot_memmap boot_machine = Some m \<and> pmm_ok m \<and> pmm_buddy m = Some b \<and>
    arena b = 0x100000 + 20480 + hhdm_offset boot_machine \<and> memory_size b = 2 ^ 20 \<and>
    hhdm_offset m = hhdm_offset boot_machine \<and> pmem m = pmem boot_machine \<and>
    (\<forall>x. free_byte m x \<longleftrightarrow> in_block (arena b) (memory_size b) x)"
  using init_pmm_from_chunk [OF boot_scan boot_hyps]
  by (auto simp: boot_sizeof free_byte_def)
lemma boot_palloc:
  "\<exists>m f m'. init_pmm boot_memmap boot_machine = Some m \<and> pmm_ok m \<and> palloc m = Some (f, m')"
proof -
  obtain m b where m: "init_pmm boot_memmap boot_machine = Some m" "pmm_ok m" "pmm_buddy m = Some b"
      "memory_size b = 2 ^ 20" "\<And>x. free_byte m x \<longleftrightarrow> in_block (arena b) (memory_size b) x"
    using boot_pmm by blast
  obtain f m' where "palloc m = Some (f, m')"
    using palloc_if_free [OF m(2,3), of 0] m(4,5) in_block_mono [of "arena b" 4096 _ "2 ^ 20"] by auto
  with m show ?thesis by blast
qed

lemma boot_frames:
  "\<exists>m. init_pmm boot_memmap boot_machine = Some m \<and> pmm_ok m \<and> pmem m = pmem boot_machine \<and>
    hhdm_offset m = hhdm_offset boot_machine \<and> nx_supported m = nx_supported boot_machine \<and>
    (\<forall>x. free_byte m x \<longleftrightarrow> in_block (0x105000 + hhdm_offset boot_machine) (2 ^ 20) x) \<and>
    256 \<le> card (free_frames m)"
proof -
  obtain m b where m: "init_pmm boot_memmap boot_machine = Some m" "pmm_ok m" "pmm_buddy m = Some b"
      "arena b = 0x105000 + hhdm_offset boot_machine" "hhdm_offset m = hhdm_offset boot_machine"
      "pmem m = pmem boot_machine" "memory_size b = 2 ^ 20"
      "\<And>x. free_byte m x \<longleftrightarrow> in_block (arena b) (memory_size b) x"
    using boot_pmm by auto
  have nx: "nx_supported m = nx_supported boot_machine"
    using m(1) by (auto simp: init_pmm_def Let_def bind_eq_Some_conv split: prod.splits if_splits option.splits)
  let ?f = "\<lambda>k. of_nat (0x105000 + 4096 * k) :: u64"
  have "?f ` {..<256} \<subseteq> free_frames m"
  proof
    fix f assume "f \<in> ?f ` {..<256}"
    then obtain k where k: "k < 256" "f = ?f k" by blast
    have "of_nat (4096 * (0x105 + k)) = f" by (simp add: k(2))
    then have "page_aligned f" using page_aligned_of_nat [of "0x105 + k"] by simp
    moreover have "free_byte m x" if "frame_bytes m f x" for x
    proof -
      have "f + hhdm_offset m = arena b + of_nat (4096 * k)" by (simp add: k(2) m(4,5))
      then show ?thesis using that in_block_sub [of "arena b" "4096 * k" 4096 x "2 ^ 20"] k(1) by (simp add: m(7,8))
    qed
    ultimately show "f \<in> free_frames m" by (simp add: free_frames_def)
  qed
  then have "card (?f ` {..<256}) \<le> card (free_frames m)" by (rule card_mono [rotated]) simp
  moreover have "card (?f ` {..<256}) = 256"
  proof (subst card_image)
    show "inj_on ?f {..<256}"
    proof (rule inj_onI)
      fix j k :: nat assume jk: "j \<in> {..<256}" "k \<in> {..<256}" "?f j = ?f k"
      then have "unat (?f j) = unat (?f k)" by (simp only:)
      then show "j = k" using jk(1,2) by (simp del: of_nat_add of_nat_mult)
    qed
  qed simp
  ultimately show ?thesis using m nx by auto
qed

section \<open>Properties\<close>

text \<open>
  \<^verbatim>\<open>palloc\<close> on an initialised page allocator, when it returns at all (it stops the machine
  when memory is exhausted), returns a non-zero page-aligned physical frame all of whose
  bytes were free; exactly these bytes stop being free, and memory contents are untouched.
\<close>

theorem palloc_correct:
  assumes "pmm_ok m" "palloc m = Some (f, m')"
  shows "f \<noteq> NULL \<and> page_aligned f \<and> pmm_ok m' \<and> pmem m' = pmem m \<and>
    (\<forall>x. frame_bytes m f x \<longrightarrow> free_byte m x) \<and>
    (\<forall>x. free_byte m' x \<longleftrightarrow> free_byte m x \<and> \<not> frame_bytes m f x)"
proof -
  note fr = palloc_fresh [OF assms]
  have "pmem m' = pmem m" by (subst fr(2)) simp
  then show ?thesis using fr(1) by (simp add: fresh_frame_def page_aligned_iff)
qed

theorem palloc_correct_witness:
  "\<exists>m f m'. init_pmm boot_memmap boot_machine = Some m \<and> palloc m = Some (f, m') \<and>
    f \<noteq> NULL \<and> page_aligned f \<and> pmm_ok m'"
  using boot_palloc palloc_correct by blast

text \<open>
  A frame from \<^verbatim>\<open>palloc\<close> can be returned with \<^verbatim>\<open>pfree\<close>, which returns and makes the set of
  free bytes exactly what it was before the allocation.
\<close>

theorem palloc_pfree:
  assumes "pmm_ok m" "palloc m = Some (f, m')"
  shows "\<exists>m''. pfree f m' = Some m'' \<and> pmm_ok m'' \<and> pmem m'' = pmem m \<and> (\<forall>x. free_byte m'' x = free_byte m x)"
proof -
  note fr = palloc_fresh [OF assms]
  have h: "hhdm_offset m' = hhdm_offset m" "pmem m' = pmem m" by (subst fr(2), simp)+
  obtain m'' where m'': "pfree f m' = Some m''" "m'' = m'\<lparr>pmm_buddy := pmm_buddy m''\<rparr>" "pmm_ok m''"
      "\<And>x. free_byte m'' x \<longleftrightarrow> free_byte m' x \<or> frame_bytes m' f x"
    using pfree_frame [OF _ palloc_allocated(1) [OF assms]] fr(1) by (auto simp: fresh_frame_def)
  have "pmem m'' = pmem m'" by (subst m''(2)) simp
  then show ?thesis using m'' fr(1) h by (auto simp: fresh_frame_def)
qed

theorem palloc_pfree_witness:
  "\<exists>m f m' m''. init_pmm boot_memmap boot_machine = Some m \<and> palloc m = Some (f, m') \<and>
    pfree f m' = Some m'' \<and> free_byte m'' = free_byte m"
  using boot_palloc palloc_pfree by blast

text \<open>
  C15: \<^verbatim>\<open>palloc\<close> stops the machine exactly when no whole frame is left: as long as some
  page-aligned frame of the arena is completely free, it returns one.
\<close>

theorem palloc_complete:
  assumes "pmm_ok m"
  shows "palloc m \<noteq> None \<longleftrightarrow> free_frames m \<noteq> {}"
proof
  assume "palloc m \<noteq> None"
  then obtain f m' where p: "palloc m = Some (f, m')" by auto
  have "hhdm_offset m' = hhdm_offset m" by (subst palloc_fresh(2) [OF assms p]) simp
  then show "free_frames m \<noteq> {}" using fresh_free_frames(1) [OF palloc_fresh(1) [OF assms p]] by blast
next
  assume "free_frames m \<noteq> {}"
  then show "palloc m \<noteq> None" using palloc_returns [OF assms] by (metis option.discI)
qed

theorem palloc_complete_witness:
  "\<exists>m f m'. init_pmm boot_memmap boot_machine = Some m \<and> palloc m = Some (f, m') \<and> free_frames m \<noteq> {}"
  using boot_palloc palloc_complete by (metis option.discI)
text \<open>
  Frames taken one after the other with \<^verbatim>\<open>palloc_zero\<close>, the way page tables and the kernel
  heap take them: as many calls as there are free frames all return, and no two of the frames
  they return overlap.
\<close>

theorem palloc_zero_disjoint:
  assumes "pmm_ok m" "n \<le> card (free_frames m)"
  shows "\<exists>fs m'. allocs palloc_zero n m = Some (fs, m') \<and> length fs = n \<and>
    (\<forall>i j x. i < j \<and> j < n \<longrightarrow> \<not> (frame_bytes m (fs ! i) x \<and> frame_bytes m (fs ! j) x))"
proof -
  obtain fs m' where a: "allocs palloc_zero n m = Some (fs, m')"
    using zero_supply.allocs_return [OF assms] by blast
  then show ?thesis
    using zero_pages.allocs_fresh [OF assms(1) a] zero_pages.allocs_disjoint [OF assms(1) a] by blast
qed

theorem palloc_zero_disjoint_witness:
  "\<exists>m fs m'. init_pmm boot_memmap boot_machine = Some m \<and> allocs palloc_zero 256 m = Some (fs, m') \<and>
    (\<forall>x. \<not> (frame_bytes m (fs ! 0) x \<and> frame_bytes m (fs ! 255) x))"
proof -
  obtain m where m: "init_pmm boot_memmap boot_machine = Some m" "pmm_ok m" "256 \<le> card (free_frames m)"
    using boot_frames by blast
  obtain fs m' where a: "allocs palloc_zero 256 m = Some (fs, m')"
      "\<And>i j x. i < j \<and> j < 256 \<Longrightarrow> \<not> (frame_bytes m (fs ! i) x \<and> frame_bytes m (fs ! j) x)"
    using palloc_zero_disjoint [OF m(2,3)] by blast
  have "\<forall>x. \<not> (frame_bytes m (fs ! 0) x \<and> frame_bytes m (fs ! 255) x)" by (intro allI a(2)) simp
  then show ?thesis using a(1) m(1) by blast
qed

text \<open>
  C16: \<^verbatim>\<open>init_pmm\<close> picks a usable chunk of maximal length and, when that chunk is page-aligned,
  large enough for the allocator's metadata and within the physical address width, sets up an
  allocator in which every byte of the rest of the chunk, up to a multiple of 64, is free.
\<close>

theorem init_pmm_correct:
  assumes scan: "fold scan_entry memmap (0, 0, 0) = (top_address, base, len)"
    and al: "page_aligned base" "page_aligned (hhdm_offset m)"
    and sz: "unat base + unat len \<le> 2 ^ 52" "0 < hhdm_offset m" "unat base + unat len + unat (hhdm_offset m) < 2 ^ 64"
    and room: "buddy_sizeof (unat len) + 4159 \<le> unat len"
  defines "meta \<equiv> (buddy_sizeof (unat len) + 4095) div 4096 * 4096"
  shows "(\<exists>e \<in> set memmap. me_type e = LIMINE_MEMMAP_USABLE \<and> me_base e = base \<and> me_length e = len) \<and>
    (\<forall>e \<in> set memmap. me_type e = LIMINE_MEMMAP_USABLE \<longrightarrow> me_length e \<le> len) \<and>
    (\<exists>m'. init_pmm memmap m = Some m' \<and> pmm_ok m' \<and>
      (\<forall>x. free_byte m' x \<longleftrightarrow>
         in_block (base + of_nat meta + hhdm_offset m) ((unat len - meta) - (unat len - meta) mod 64) x))"
proof -
  obtain m' b where m': "init_pmm memmap m = Some m'" "pmm_ok m'" "pmm_buddy m' = Some b" "live_slots b = {}"
      "arena b = base + of_nat meta + hhdm_offset m" "memory_size b = (unat len - meta) - (unat len - meta) mod 64"
    using init_pmm_from_chunk [OF scan al sz room] unfolding meta_def by auto
  then have "free_byte m' x \<longleftrightarrow>
      in_block (base + of_nat meta + hhdm_offset m) ((unat len - meta) - (unat len - meta) mod 64) x" for x
    by (simp add: free_byte_def)
  moreover have "len \<noteq> 0" using room by auto
  ultimately show ?thesis using scan_spec [OF scan] m'(1,2) by blast
qed

theorem init_pmm_correct_witness:
  "\<exists>m. init_pmm boot_memmap boot_machine = Some m \<and> pmm_ok m \<and>
    free_byte m (0x105000 + 0xffff800000000000)"
proof -
  obtain m where "init_pmm boot_memmap boot_machine = Some m" "pmm_ok m"
      "\<And>x. free_byte m x \<longleftrightarrow> in_block (0x100000 + 20480 + hhdm_offset boot_machine) (2 ^ 20) x"
    using init_pmm_correct [OF boot_scan boot_hyps] by (auto simp: boot_sizeof)
  then show ?thesis by (simp add: boot_machine_def in_block_def)
qed

end
