(* ===== verification/Paging.thy ===== *)
theory Paging
  imports Pmm
begin

text \<open>
  Four-level page tables: \<^verbatim>\<open>mm/mappage.c\<close>, \<^verbatim>\<open>mm/unmappage.c\<close>, \<^verbatim>\<open>mm/vmm.c\<close> and the macros of
  \<^verbatim>\<open>include/page.h\<close>. A page table is the 512 little-endian words of a frame in physical memory,
  reached through the direct map; a pointer to a table is its direct-map address. The TLB
  instruction \<^verbatim>\<open>invlpg\<close> has no counterpart in the state.
\<close>

section \<open>Definitions\<close>

definition PAGE_SIZE :: u64 where "PAGE_SIZE = 4096"
definition PTE_PRESENT :: u64 where "PTE_PRESENT = push_bit 0 1"
definition PTE_WRITABLE :: u64 where "PTE_WRITABLE = push_bit 1 1"
definition PTE_USER :: u64 where "PTE_USER = push_bit 2 1"
definition PTE_CACHE_DISABLE :: u64 where "PTE_CACHE_DISABLE = push_bit 4 1"
definition PTE_HUGE :: u64 where "PTE_HUGE = push_bit 7 1"
definition PTE_NX :: u64 where "PTE_NX = push_bit 63 1"

definition PML4_IDX :: "u64 \<Rightarrow> u64" where "PML4_IDX a = drop_bit 39 a AND 0x1FF"
definition PDP_IDX :: "u64 \<Rightarrow> u64" where "PDP_IDX a = drop_bit 30 a AND 0x1FF"
definition PD_IDX :: "u64 \<Rightarrow> u64" where "PD_IDX a = drop_bit 21 a AND 0x1FF"
definition PT_IDX :: "u64 \<Rightarrow> u64" where "PT_IDX a = drop_bit 12 a AND 0x1FF"

definition PHYS_TO_VIRT :: "'a machine_scheme \<Rightarrow> u64 \<Rightarrow> ptr" where
  "PHYS_TO_VIRT m a = a + hhdm_offset m"

definition VIRT_TO_PHYS :: "'a machine_scheme \<Rightarrow> ptr \<Rightarrow> u64" where
  "VIRT_TO_PHYS m a = a - hhdm_offset m"

definition PAGE_ALIGN_DOWN :: "u64 \<Rightarrow> u64" where "PAGE_ALIGN_DOWN a = page_base a"
definition PAGE_ALIGN_UP :: "u64 \<Rightarrow> u64" where "PAGE_ALIGN_UP a = page_base (a + PAGE_SIZE - 1)"

text \<open>Reading and writing \<^verbatim>\<open>table[idx]\<close>.\<close>

definition entry :: "'a machine_scheme \<Rightarrow> ptr \<Rightarrow> u64 \<Rightarrow> u64" where
  "entry m table idx = rd64 (pmem m) (table + 8 * idx)"

definition set_entry :: "ptr \<Rightarrow> u64 \<Rightarrow> u64 \<Rightarrow> 'a machine_scheme \<Rightarrow> 'a machine_scheme" where
  "set_entry table idx v m = m\<lparr>pmem := wr64 (pmem m) (table + 8 * idx) v\<rparr>"

definition present :: "u64 \<Rightarrow> bool" where
  "present e \<longleftrightarrow> e AND PTE_PRESENT \<noteq> 0"

definition huge :: "u64 \<Rightarrow> bool" where
  "huge e \<longleftrightarrow> e AND PTE_HUGE \<noteq> 0"

text \<open>
  The step the mapping functions repeat on the way down: allocate a missing table, or add the
  user bit to a present entry; then follow the entry.
\<close>

definition table_step :: "ptr \<Rightarrow> u64 \<Rightarrow> u64 \<Rightarrow> 'a machine_scheme \<Rightarrow> (ptr \<times> 'a machine_scheme) option" where
  "table_step table idx flags m =
     map_option (\<lambda>m'. (page_base (entry m' table idx) + hhdm_offset m', m'))
       (if \<not> present (entry m table idx)
        then map_option (\<lambda>(f, m1).
          set_entry table idx (f OR PTE_PRESENT OR PTE_WRITABLE OR (flags AND PTE_USER)) m1) (palloc_zero m)
        else Some (set_entry table idx (entry m table idx OR (flags AND PTE_USER)) m))"

definition final_flags :: "'a machine_scheme \<Rightarrow> u64 \<Rightarrow> u64" where
  "final_flags m flags = (if nx_supported m then flags AND NOT PTE_NX else flags)"

definition map_page :: "ptr \<Rightarrow> u64 \<Rightarrow> u64 \<Rightarrow> u64 \<Rightarrow> 'a machine_scheme \<Rightarrow> 'a machine_scheme option" where
  "map_page pml4 virt phys flags m =
     Option.bind (table_step pml4 (PML4_IDX virt) flags m) (\<lambda>(pdp, m1).
     Option.bind (table_step pdp (PDP_IDX virt) flags m1) (\<lambda>(pd, m2).
     Option.bind (table_step pd (PD_IDX virt) flags m2) (\<lambda>(pt, m3).
       Some (set_entry pt (PT_IDX virt) (page_base phys OR final_flags m3 flags OR PTE_PRESENT) m3))))"

definition map_page_huge :: "ptr \<Rightarrow> u64 \<Rightarrow> u64 \<Rightarrow> u64 \<Rightarrow> 'a machine_scheme \<Rightarrow> 'a machine_scheme option" where
  "map_page_huge pml4 virt phys flags m =
     Option.bind (table_step pml4 (PML4_IDX virt) flags m) (\<lambda>(pdp, m1).
     Option.bind (table_step pdp (PDP_IDX virt) flags m1) (\<lambda>(pd, m2).
       Some (set_entry pd (PD_IDX virt)
         ((phys AND NOT (mask 21)) OR final_flags m2 flags OR PTE_PRESENT OR push_bit 7 1) m2)))"

definition unmap_page :: "ptr \<Rightarrow> u64 \<Rightarrow> 'a machine_scheme \<Rightarrow> 'a machine_scheme" where
  "unmap_page pml4 virt m =
     (if \<not> present (entry m pml4 (PML4_IDX virt)) then m
      else let pdp = page_base (entry m pml4 (PML4_IDX virt)) + hhdm_offset m
      in if \<not> present (entry m pdp (PDP_IDX virt)) then m
      else let pd = page_base (entry m pdp (PDP_IDX virt)) + hhdm_offset m
      in if \<not> present (entry m pd (PD_IDX virt)) then m
      else let pt = page_base (entry m pd (PD_IDX virt)) + hhdm_offset m
      in set_entry pt (PT_IDX virt) 0 m)"

definition vmm_virt_to_phys :: "'a machine_scheme \<Rightarrow> ptr \<Rightarrow> u64 \<Rightarrow> u64" where
  "vmm_virt_to_phys m pml4 virt =
     (let e4 = entry m pml4 (PML4_IDX virt)
      in if \<not> present e4 then 0
      else let e3 = entry m (PHYS_TO_VIRT m (page_base e4)) (PDP_IDX virt)
      in if \<not> present e3 then 0
      else if huge e3 then (e3 AND NOT (mask 30)) + (virt AND mask 30)
      else let e2 = entry m (PHYS_TO_VIRT m (page_base e3)) (PD_IDX virt)
      in if \<not> present e2 then 0
      else if huge e2 then (e2 AND NOT (mask 21)) + (virt AND mask 21)
      else let e1 = entry m (PHYS_TO_VIRT m (page_base e2)) (PT_IDX virt)
      in if \<not> present e1 then 0
      else page_base e1 + page_off virt)"

text \<open>The loop of \<^verbatim>\<open>vmm_map_region\<close> from a given offset.\<close>

partial_function (option) map_region_loop ::
    "ptr \<Rightarrow> u64 \<Rightarrow> u64 \<Rightarrow> u64 \<Rightarrow> u64 \<Rightarrow> u64 \<Rightarrow> 'a machine_scheme \<Rightarrow> 'a machine_scheme option" where
  "map_region_loop pml4 virt phys sz flags offset m =
     (if offset < sz then
        let curr_virt = virt + offset;
            curr_phys = phys + offset;
            remaining = sz - offset
        in if curr_virt mod 0x200000 = 0 \<and> curr_phys mod 0x200000 = 0 \<and> remaining \<ge> 0x200000
           then Option.bind (map_page_huge pml4 curr_virt curr_phys flags m)
             (map_region_loop pml4 virt phys sz flags (offset + 0x200000))
           else Option.bind (map_page pml4 curr_virt curr_phys flags m)
             (map_region_loop pml4 virt phys sz flags (offset + PAGE_SIZE))
      else Some m)"

definition vmm_map_region :: "ptr \<Rightarrow> u64 \<Rightarrow> u64 \<Rightarrow> u64 \<Rightarrow> u64 \<Rightarrow> 'a machine_scheme \<Rightarrow> 'a machine_scheme option" where
  "vmm_map_region pml4 virt phys sz flags m = map_region_loop pml4 virt phys sz flags 0 m"

section \<open>Entries\<close>

lemma present_bit [bits]: "present e \<longleftrightarrow> bit e 0"
  by (simp add: present_def PTE_PRESENT_def bit_iff_and_push_bit_not_eq_0)

lemma huge_bit [bits]: "huge e \<longleftrightarrow> bit e 7"
  by (simp add: huge_def PTE_HUGE_def bit_iff_and_push_bit_not_eq_0)

lemma in_entry:
  assumes "in_block (t + 8 * i) 8 x" "i < (512 :: u64)"
  shows "unat (x - t) div 8 = unat i" "in_block t 4096 x"
proof -
  obtain j where j: "j < 8" "x = t + 8 * i + of_nat j" using assms(1) by (rule in_blockE)
  have i: "unat i < 512" using assms(2) by (simp add: word_less_nat_alt)
  have "x - t = of_nat (8 * unat i + j)" by (simp add: j(2))
  then have "unat (x - t) = 8 * unat i + j" using i j(1) by (simp del: of_nat_add of_nat_mult)
  then show "unat (x - t) div 8 = unat i" "in_block t 4096 x" using i j(1) by (simp_all add: in_block_def)
qed

lemma entry_cong:
  assumes "\<And>x. in_block (t + 8 * i) 8 x \<Longrightarrow> pmem m' x = pmem m x"
  shows "entry m' t i = entry m t i"
  unfolding entry_def by (rule acc64.rd_cong) (use assms in_block_offset in auto)

lemma entry_set_same [simp]: "entry (set_entry t i v m) t i = v"
  by (simp add: entry_def set_entry_def acc64.rd_wr_same)

lemma entry_set_other:
  assumes "page_aligned t" "page_aligned t'" "i < 512" "i' < 512" "(t', i') \<noteq> (t, i)"
  shows "entry (set_entry t i v m) t' i' = entry m t' i'"
proof (rule entry_cong)
  fix x assume x: "in_block (t' + 8 * i') 8 x"
  have "\<not> in_block (t + 8 * i) 8 x"
  proof
    assume y: "in_block (t + 8 * i) 8 x"
    have "t = t'"
      using in_entry(2) [OF x assms(4)] in_entry(2) [OF y assms(3)] assms(1,2) by (simp add: in_page_iff)
    moreover have "unat i = unat i'"
      using in_entry(1) [OF x assms(4)] in_entry(1) [OF y assms(3)] calculation by simp
    ultimately show False using assms(5) by (simp add: word_unat_eq_iff)
  qed
  then show "pmem (set_entry t i v m) x = pmem m x" by (simp add: set_entry_def acc64.wr_outside)
qed

lemma set_entry_sel [simp]:
  "hhdm_offset (set_entry t i v m) = hhdm_offset m" "pmm_buddy (set_entry t i v m) = pmm_buddy m"
  "nx_supported (set_entry t i v m) = nx_supported m"
  by (simp_all add: set_entry_def)

lemma set_entry_pmm [simp]:
  "free_byte (set_entry t i v m) x = free_byte m x" "pmm_ok (set_entry t i v m) = pmm_ok m"
  by (rule free_byte_cong pmm_ok_cong; simp)+

section \<open>The tree of tables\<close>

text \<open>The index into the table of level \<open>k\<close> (4 is the PML4, 1 a page table).\<close>

definition idx :: "nat \<Rightarrow> u64 \<Rightarrow> u64" where
  "idx k v = drop_bit (12 + 9 * (k - 1)) v AND 0x1FF"

lemma idx_simps:
  "PML4_IDX = idx 4" "PDP_IDX = idx 3" "PD_IDX = idx 2" "PT_IDX = idx 1"
  by (simp_all add: fun_eq_iff idx_def PML4_IDX_def PDP_IDX_def PD_IDX_def PT_IDX_def)

lemma idx_mask: "idx k v = take_bit 9 (drop_bit (12 + 9 * (k - 1)) v)"
proof -
  have "(0x1FF :: u64) = mask 9" by (simp add: mask_eq_exp_minus_1)
  then show ?thesis by (simp add: idx_def take_bit_eq_mask)
qed

lemma idx_less [simp]: "idx k v < 512"
proof -
  have "unat (idx k v) < 2 ^ 9" by (simp add: idx_mask unat_take_bit)
  then show ?thesis by (simp add: word_less_nat_alt)
qed

definition child :: "'a machine_scheme \<Rightarrow> ptr \<Rightarrow> u64 \<Rightarrow> ptr" where
  "child m t i = page_base (entry m t i) + hhdm_offset m"

text \<open>An entry of a level-\<open>k\<close> table that leads to another table.\<close>

definition links :: "'a machine_scheme \<Rightarrow> nat \<Rightarrow> ptr \<Rightarrow> u64 \<Rightarrow> bool" where
  "links m k t i \<longleftrightarrow> 2 \<le> k \<and> present (entry m t i) \<and> (k = 4 \<or> \<not> huge (entry m t i))"

text \<open>
  The tables reachable from a root form a tree: \<open>L\<close> gives every table its level, a linking
  entry leads to a table one level down, no table has two entries leading to it, and the
  page allocator does not own the memory of any table.
\<close>

definition tables :: "'a machine_scheme \<Rightarrow> ptr \<Rightarrow> (ptr \<rightharpoonup> nat) \<Rightarrow> bool" where
  "tables m pml4 L \<longleftrightarrow> pmm_ok m \<and> page_aligned (hhdm_offset m) \<and> L pml4 = Some 4 \<and>
     (\<forall>t k. L t = Some k \<longrightarrow> page_aligned t \<and> 1 \<le> k \<and> k \<le> 4 \<and> (\<forall>x. in_block t 4096 x \<longrightarrow> \<not> free_byte m x)) \<and>
     (\<forall>t k i. L t = Some k \<and> i < 512 \<and> links m k t i \<longrightarrow> L (child m t i) = Some (k - 1)) \<and>
     (\<forall>t k i t' k' i'. L t = Some k \<and> i < 512 \<and> links m k t i \<and> L t' = Some k' \<and> i' < 512 \<and> links m k' t' i' \<and>
        child m t i = child m t' i' \<longrightarrow> t = t' \<and> i = i')"

lemma tablesD:
  assumes "tables m pml4 L"
  shows "pmm_ok m" "page_aligned (hhdm_offset m)" "L pml4 = Some 4"
    and "L t = Some k \<Longrightarrow> page_aligned t" "L t = Some k \<Longrightarrow> 1 \<le> k" "L t = Some k \<Longrightarrow> k \<le> 4"
    and "L t = Some k \<Longrightarrow> in_block t 4096 x \<Longrightarrow> \<not> free_byte m x"
    and "L t = Some k \<Longrightarrow> i < 512 \<Longrightarrow> links m k t i \<Longrightarrow> L (child m t i) = Some (k - 1)"
    and "L t = Some k \<Longrightarrow> i < 512 \<Longrightarrow> links m k t i \<Longrightarrow> L t' = Some k' \<Longrightarrow> i' < 512 \<Longrightarrow> links m k' t' i' \<Longrightarrow>
        child m t i = child m t' i' \<Longrightarrow> t = t' \<and> i = i'"
  using assms unfolding tables_def by (blast, blast, blast, blast, blast, blast, blast, blast, blast)

text \<open>
  The walk of the hardware: the level and the value of the entry that maps an address.
\<close>

fun walk :: "'a machine_scheme \<Rightarrow> nat \<Rightarrow> ptr \<Rightarrow> u64 \<Rightarrow> (nat \<times> u64) option" where
  "walk m 0 t v = None"
| "walk m (Suc k) t v =
     (if \<not> present (entry m t (idx (Suc k) v)) then None
      else if links m (Suc k) t (idx (Suc k) v) then walk m k (child m t (idx (Suc k) v)) v
      else Some (Suc k, entry m t (idx (Suc k) v)))"

lemma walk_4: "walk m 4 t v =
     (if \<not> present (entry m t (idx 4 v)) then None else walk m 3 (child m t (idx 4 v)) v)"
  by (simp add: numeral_eq_Suc links_def)

lemma walk_3: "walk m 3 t v =
     (if \<not> present (entry m t (idx 3 v)) then None
      else if huge (entry m t (idx 3 v)) then Some (3, entry m t (idx 3 v)) else walk m 2 (child m t (idx 3 v)) v)"
  by (simp add: numeral_eq_Suc links_def)

lemma walk_2: "walk m 2 t v =
     (if \<not> present (entry m t (idx 2 v)) then None
      else if huge (entry m t (idx 2 v)) then Some (2, entry m t (idx 2 v)) else walk m 1 (child m t (idx 2 v)) v)"
  by (simp add: numeral_eq_Suc links_def)

lemma walk_1: "walk m 1 t v =
     (if \<not> present (entry m t (idx 1 v)) then None else Some (1, entry m t (idx 1 v)))"
  by (simp add: links_def)

lemma virt_to_phys_walk:
  "vmm_virt_to_phys m pml4 v =
     (case walk m 4 pml4 v of
        None \<Rightarrow> 0
      | Some (k, e) \<Rightarrow> (e AND NOT (mask (12 + 9 * (k - 1)))) + (v AND mask (12 + 9 * (k - 1))))"
  unfolding vmm_virt_to_phys_def walk_4 walk_3 walk_2 walk_1
  by (simp add: idx_simps Let_def PHYS_TO_VIRT_def child_def page_base_def page_off_def)

text \<open>
  A change of the tables that keeps every linking entry's target, and may add links to empty
  tables, changes no walk.
\<close>

definition same_links :: "'a machine_scheme \<Rightarrow> 'b machine_scheme \<Rightarrow> (ptr \<rightharpoonup> nat) \<Rightarrow> bool" where
  "same_links m m' L \<longleftrightarrow> hhdm_offset m' = hhdm_offset m \<and>
     (\<forall>t k i. L t = Some k \<and> i < 512 \<longrightarrow>
        entry m' t i = entry m t i \<or>
        links m k t i \<and> links m' k t i \<and> child m' t i = child m t i \<or>
        \<not> present (entry m t i) \<and> links m' k t i \<and> (\<forall>j < 512. entry m' (child m' t i) j = 0))"

lemma links_present: "links m k t i \<Longrightarrow> present (entry m t i)"
  by (simp add: links_def)

lemma walk_empty: "\<forall>j < 512. entry m t j = 0 \<Longrightarrow> walk m k t v = None"
  by (cases k) (simp_all add: present_bit)

lemma walk_same_links:
  assumes "tables m pml4 L" "same_links m m' L"
  shows "L t = Some k \<Longrightarrow> walk m' k t v = walk m k t v"
proof (induction k arbitrary: t)
  case (Suc k)
  let ?i = "idx (Suc k) v"
  have hh: "hhdm_offset m' = hhdm_offset m" using assms(2) by (simp add: same_links_def)
  from assms(2) Suc.prems consider
    (eq) "entry m' t ?i = entry m t ?i"
  | (link) "links m (Suc k) t ?i" "links m' (Suc k) t ?i" "child m' t ?i = child m t ?i"
  | (new) "\<not> present (entry m t ?i)" "links m' (Suc k) t ?i" "\<forall>j < 512. entry m' (child m' t ?i) j = 0"
    unfolding same_links_def using idx_less by blast
  then show ?case
  proof cases
    case eq
    then have l: "links m' (Suc k) t ?i = links m (Suc k) t ?i" "child m' t ?i = child m t ?i"
      by (simp_all add: links_def child_def hh)
    show ?thesis using Suc.IH [of "child m t ?i"] tablesD(8) [OF assms(1) Suc.prems, of ?i] by (simp add: eq l)
  next
    case link
    then show ?thesis using Suc.IH [of "child m t ?i"] tablesD(8) [OF assms(1) Suc.prems, of ?i] by (simp add: links_def)
  next
    case new
    then show ?thesis using walk_empty [OF new(3)] by (simp add: links_def)
  qed
qed simp

text \<open>The table of level \<open>j\<close> that a walk visits.\<close>

fun table_at :: "'a machine_scheme \<Rightarrow> nat \<Rightarrow> nat \<Rightarrow> ptr \<Rightarrow> u64 \<Rightarrow> ptr option" where
  "table_at m j 0 t v = None"
| "table_at m j (Suc k) t v =
     (if Suc k = j then Some t
      else if links m (Suc k) t (idx (Suc k) v) then table_at m j k (child m t (idx (Suc k) v)) v
      else None)"

lemma table_at_above: "k < j \<Longrightarrow> table_at m j k t v = None"
  by (induction k arbitrary: t) auto

lemma table_at_level:
  assumes "tables m pml4 L"
  shows "L t = Some k \<Longrightarrow> table_at m j k t v = Some p \<Longrightarrow> L p = Some j"
proof (induction k arbitrary: t)
  case (Suc k)
  then show ?case using Suc.IH [of "child m t (idx (Suc k) v)"] tablesD(8) [OF assms Suc.prems(1), of "idx (Suc k) v"]
    by (simp split: if_splits)
qed simp

lemma table_at_parent:
  assumes "table_at m j k t v = Some p" "j < k"
  shows "\<exists>q. table_at m (Suc j) k t v = Some q \<and> links m (Suc j) q (idx (Suc j) v) \<and> child m q (idx (Suc j) v) = p"
  using assms
proof (induction k arbitrary: t)
  case (Suc k)
  then have l: "links m (Suc k) t (idx (Suc k) v)" "table_at m j k (child m t (idx (Suc k) v)) v = Some p"
    by (auto split: if_splits)
  show ?case
  proof (cases "j = k")
    case True
    then have "child m t (idx (Suc k) v) = p" using l(2) by (cases k) auto
    then show ?thesis using l(1) True by simp
  next
    case False
    then show ?thesis using Suc.IH [OF l(2)] Suc.prems(2) l(1) by simp
  qed
qed simp

lemma table_at_unique:
  assumes tb: "tables m pml4 L" and lev: "L t = Some k"
  shows "table_at m j k t v = Some p \<Longrightarrow> table_at m j k t v' = Some p \<Longrightarrow> j < l \<Longrightarrow> l \<le> k \<Longrightarrow> idx l v = idx l v'"
proof (induction "k - j" arbitrary: j p)
  case (Suc n)
  then have jk: "j < k" by simp
  obtain q where q: "table_at m (Suc j) k t v = Some q" "links m (Suc j) q (idx (Suc j) v)" "child m q (idx (Suc j) v) = p"
    using table_at_parent [OF Suc.prems(1) jk] by blast
  obtain q' where q': "table_at m (Suc j) k t v' = Some q'" "links m (Suc j) q' (idx (Suc j) v')" "child m q' (idx (Suc j) v') = p"
    using table_at_parent [OF Suc.prems(2) jk] by blast
  have L: "L q = Some (Suc j)" "L q' = Some (Suc j)" using table_at_level [OF tb lev] q(1) q'(1) by blast+
  have eq: "q = q'" "idx (Suc j) v = idx (Suc j) v'"
    using tablesD(9) [OF tb L(1) _ q(2) L(2) _ q'(2)] q(3) q'(3) by auto
  show ?case
  proof (cases "l = Suc j")
    case False
    then show ?thesis using Suc.hyps(1) [of "Suc j" q] Suc.hyps(2) Suc.prems(3,4) q(1) q'(1) eq(1) by simp
  qed (simp add: eq(2))
qed simp

text \<open>Overwriting an entry that afterwards leads to no table.\<close>

lemma set_leaf_walk:
  assumes tb: "tables m pml4 L" and p: "L p = Some j" "i < 512"
    and leaf: "\<not> links (set_entry p i e m) j p i"
  shows "L t = Some k \<Longrightarrow> walk (set_entry p i e m) k t v =
    (if table_at m j k t v = Some p \<and> idx j v = i then (if present e then Some (j, e) else None) else walk m k t v)"
proof (induction k arbitrary: t)
  case (Suc k)
  let ?i = "idx (Suc k) v" and ?m = "set_entry p i e m"
  show ?case
  proof (cases "t = p \<and> ?i = i")
    case True
    then have "j = Suc k" using p(1) Suc.prems by simp
    then show ?thesis using True leaf by simp
  next
    case False
    then have ent: "entry ?m t ?i = entry m t ?i"
      using tablesD(4) [OF tb] p Suc.prems by (intro entry_set_other) auto
    then have l: "links ?m (Suc k) t ?i = links m (Suc k) t ?i" "child ?m t ?i = child m t ?i"
      by (simp_all add: links_def child_def)
    show ?thesis
    proof (cases "Suc k = j")
      case True
      with False have ne: "\<not> (table_at m j (Suc k) t v = Some p \<and> idx j v = i)" by auto
      have "walk ?m k (child m t ?i) v = walk m k (child m t ?i) v" if lk: "links m (Suc k) t ?i"
        using Suc.IH tablesD(8) [OF tb Suc.prems _ lk] True by (simp add: table_at_above)
      then show ?thesis unfolding if_not_P [OF ne] by (simp add: ent l)
    next
      case 2: False
      then show ?thesis
        using Suc.IH [of "child m t ?i"] tablesD(8) [OF tb Suc.prems idx_less] links_present [of m "Suc k" t ?i]
        by (cases "links m (Suc k) t ?i") (simp_all add: ent l)
    qed
  qed
qed simp

lemma set_leaf_tables:
  assumes tb: "tables m pml4 L" and p: "L p = Some j" "i < 512"
    and leaf: "\<not> links (set_entry p i e m) j p i"
  shows "tables (set_entry p i e m) pml4 L"
proof -
  let ?m = "set_entry p i e m"
  have old: "links m k t i' \<and> child ?m t i' = child m t i'" if "L t = Some k" "i' < 512" "links ?m k t i'" for t k i'
  proof -
    have "(t, i') \<noteq> (p, i)" using leaf that p by auto
    then have "entry ?m t i' = entry m t i'" using tablesD(4) [OF tb] p that by (intro entry_set_other) auto
    then show ?thesis using that by (simp add: links_def child_def)
  qed
  show ?thesis
    unfolding tables_def
  proof (intro conjI allI impI; (elim conjE)?)
    fix t k i' assume "L t = Some k" "i' < 512" "links ?m k t i'"
    then show "L (child ?m t i') = Some (k - 1)" using old tablesD(8) [OF tb] by metis
  next
    fix t k i1 t' k' i2
    assume a: "L t = Some k" "i1 < 512" "links ?m k t i1" "L t' = Some k'" "i2 < 512" "links ?m k' t' i2"
      "child ?m t i1 = child ?m t' i2"
    note o1 = old [OF a(1-3)] and o2 = old [OF a(4-6)]
    have "t = t' \<and> i1 = i2"
      using tablesD(9) [OF tb a(1,2) _ a(4,5)] o1 o2 a(7) by metis
    then show "t = t'" "i1 = i2" by auto
  qed (use tablesD(1-7) [OF tb] in auto)
qed

section \<open>One step down\<close>

lemma bit_flag [bits]:
  "bit PTE_PRESENT n \<longleftrightarrow> n = 0" "bit PTE_WRITABLE n \<longleftrightarrow> n = 1" "bit PTE_USER n \<longleftrightarrow> n = 2"
  "bit PTE_HUGE n \<longleftrightarrow> n = 7" "bit PTE_NX n \<longleftrightarrow> n = 63"
  unfolding PTE_PRESENT_def PTE_WRITABLE_def PTE_USER_def PTE_HUGE_def PTE_NX_def push_bit_of_1 bit_exp_iff
  by (auto simp: possible_bit_def)

lemma entry_new_bits:
  assumes "page_aligned f"
  shows "page_base (f OR PTE_PRESENT OR PTE_WRITABLE OR (flags AND PTE_USER)) = f"
    "present (f OR PTE_PRESENT OR PTE_WRITABLE OR (flags AND PTE_USER))"
    "\<not> huge (f OR PTE_PRESENT OR PTE_WRITABLE OR (flags AND PTE_USER))"
  using assms unfolding page_aligned_bit
  by (auto simp: bits bit_or_iff bit_and_iff not_less intro!: bit_word_eqI)

lemma entry_user_bits [simp]:
  "page_base (e OR (flags AND PTE_USER)) = page_base e"
  "present (e OR (flags AND PTE_USER)) = present e" "huge (e OR (flags AND PTE_USER)) = huge e"
  by (auto simp: bits bit_or_iff bit_and_iff intro!: bit_word_eqI)

text \<open>
  How a mapping function may change memory: it writes into the tables it was given and into
  frames that were free, its new tables are such frames, and it frees nothing.
\<close>

definition grown :: "'a machine_scheme \<Rightarrow> (ptr \<rightharpoonup> nat) \<Rightarrow> 'a machine_scheme \<Rightarrow> (ptr \<rightharpoonup> nat) \<Rightarrow> bool" where
  "grown m L m' L' \<longleftrightarrow> L \<subseteq>\<^sub>m L' \<and> (\<forall>t x. L t = None \<and> L' t \<noteq> None \<and> in_block t 4096 x \<longrightarrow> free_byte m x) \<and>
     (\<forall>x. \<not> free_byte m x \<and> (\<forall>t. L t \<noteq> None \<longrightarrow> \<not> in_block t 4096 x) \<longrightarrow> pmem m' x = pmem m x) \<and>
     (\<forall>x. free_byte m' x \<longrightarrow> free_byte m x)"

lemma grown_trans:
  assumes a: "grown m L m1 L1" and b: "grown m1 L1 m2 L2"
  shows "grown m L m2 L2"
  unfolding grown_def
proof (intro conjI allI impI; (elim conjE)?)
  show "L \<subseteq>\<^sub>m L2" using a b map_le_trans unfolding grown_def by blast
  fix x
  show "free_byte m x" if "free_byte m2 x" using that a b unfolding grown_def by blast
  show "free_byte m x" if "L t = None" "L2 t \<noteq> None" "in_block t 4096 x" for t
    using that a b unfolding grown_def by (cases "L1 t") blast+
  assume x: "\<not> free_byte m x" "\<forall>t. L t \<noteq> None \<longrightarrow> \<not> in_block t 4096 x"
  have "\<not> in_block t 4096 x" if "L1 t \<noteq> None" for t using that a x unfolding grown_def by (cases "L t") blast+
  moreover have "\<not> free_byte m1 x" "pmem m1 x = pmem m x" using a x unfolding grown_def by blast+
  ultimately show "pmem m2 x = pmem m x" using b unfolding grown_def by metis
qed

lemma set_entry_outside:
  assumes "i < 512" "\<not> in_block t 4096 x"
  shows "pmem (set_entry t i v m) x = pmem m x"
proof -
  have "\<not> in_block (t + 8 * i) 8 x" using assms in_entry(2) by blast
  then show ?thesis by (simp add: set_entry_def acc64.wr_outside)
qed

lemma grown_set_entry:
  assumes "L t \<noteq> None" "i < 512"
  shows "grown m L (set_entry t i v m) L"
  using assms(1) set_entry_outside [OF assms(2), of t _ v m] unfolding grown_def by auto

text \<open>What a step down guarantees to the next one.\<close>

definition stepped :: "'a machine_scheme \<Rightarrow> ptr \<Rightarrow> (ptr \<rightharpoonup> nat) \<Rightarrow> ptr \<Rightarrow> u64 \<Rightarrow> nat \<Rightarrow>
    ptr \<Rightarrow> 'a machine_scheme \<Rightarrow> (ptr \<rightharpoonup> nat) \<Rightarrow> bool" where
  "stepped m pml4 L t i k n m' L' \<longleftrightarrow> tables m' pml4 L' \<and> L \<subseteq>\<^sub>m L' \<and> L' n = Some (k - 1) \<and>
     links m' k t i \<and> child m' t i = n \<and> hhdm_offset m' = hhdm_offset m \<and> nx_supported m' = nx_supported m \<and>
     (\<forall>v. walk m' 4 pml4 v = walk m 4 pml4 v) \<and>
     (\<forall>t' k' i'. L t' = Some k' \<and> i' < 512 \<and> (t', i') \<noteq> (t, i) \<longrightarrow> entry m' t' i' = entry m t' i') \<and>
     free_frames m' \<subseteq> free_frames m \<and> card (free_frames m) \<le> Suc (card (free_frames m')) \<and> grown m L m' L'"

lemma free_frames_cong: "pmm_buddy m = pmm_buddy m' \<Longrightarrow> hhdm_offset m = hhdm_offset m' \<Longrightarrow> free_frames m = free_frames m'"
  using free_byte_cong [of m m'] by (simp add: free_frames_def)

lemma set_entry_frames [simp]: "free_frames (set_entry t i v m) = free_frames m"
  by (rule free_frames_cong) simp_all

lemma step_present:
  fixes m :: "'a machine_scheme" and flags i :: u64
  assumes tb: "tables m pml4 L" and t: "L t = Some k" "i < 512" and lk: "links m k t i"
  defines "m' \<equiv> set_entry t i (entry m t i OR (flags AND PTE_USER)) m"
  shows "stepped m pml4 L t i k (child m t i) m' L"
proof -
  have ent: "entry m' t' i' = entry m t' i'" if "L t' = Some k'" "i' < 512" "(t', i') \<noteq> (t, i)" for t' k' and i' :: u64
    unfolding m'_def using that t tablesD(4) [OF tb] by (intro entry_set_other) auto
  have here: "links m' k t i" "child m' t i = child m t i"
    using lk by (simp_all add: m'_def links_def child_def)
  have same: "links m' k' t' i' = links m k' t' i' \<and> child m' t' i' = child m t' i'"
    if "L t' = Some k'" "i' < 512" for t' k' and i' :: u64
  proof (cases "(t', i') = (t, i)")
    case True
    then show ?thesis using here lk that t by simp
  next
    case False
    then show ?thesis using ent [OF that False] by (simp add: links_def child_def m'_def)
  qed
  have "tables m' pml4 L"
    unfolding tables_def
  proof (intro conjI allI impI; (elim conjE)?)
    fix t k i' assume "L t = Some k" "i' < 512" "links m' k t i'"
    then show "L (child m' t i') = Some (k - 1)" using same tablesD(8) [OF tb] by metis
  next
    fix t k i1 t' k' i2
    assume a: "L t = Some k" "i1 < 512" "links m' k t i1" "L t' = Some k'" "i2 < 512" "links m' k' t' i2"
      "child m' t i1 = child m' t' i2"
    then have "t = t' \<and> i1 = i2" using tablesD(9) [OF tb a(1,2) _ a(4,5)] same by metis
    then show "t = t'" "i1 = i2" by auto
  qed (use tablesD(1-7) [OF tb] in \<open>auto simp: m'_def\<close>)
  moreover have "same_links m m' L"
    unfolding same_links_def
  proof (intro conjI allI impI; (elim conjE)?)
    fix t' k' and i' :: u64 assume a: "L t' = Some k'" "i' < 512"
    show "entry m' t' i' = entry m t' i' \<or> links m k' t' i' \<and> links m' k' t' i' \<and> child m' t' i' = child m t' i' \<or>
        \<not> present (entry m t' i') \<and> links m' k' t' i' \<and> (\<forall>j<512. entry m' (child m' t' i') j = 0)"
      using ent [OF a] same [OF a] lk a t by (cases "(t', i') = (t, i)") auto
  qed (simp add: m'_def)
  ultimately show ?thesis
    using here ent walk_same_links [OF tb _ tablesD(3) [OF tb]] tablesD(8) [OF tb t lk] grown_set_entry [of L t i m] t
    by (auto simp: stepped_def m'_def)
qed

lemma entry_zero:
  assumes "\<And>x. in_block t 4096 x \<Longrightarrow> pmem m x = 0" "i < 512"
  shows "entry m t i = 0"
proof -
  have "entry m t i = rd64 (\<lambda>_. 0) (t + 8 * i)"
    unfolding entry_def
  proof (rule acc64.rd_cong)
    fix j :: nat assume "j < 8"
    then have "in_block (t + 8 * i) 8 (t + 8 * i + of_nat j)" by (rule in_block_offset) simp
    then show "pmem m (t + 8 * i + of_nat j) = 0" using in_entry(2) [OF _ assms(2)] assms(1) by blast
  qed
  also have "\<dots> = 0" by (simp add: rd64_def rd_bytes_def upt_rec)
  finally show ?thesis .
qed

lemma step_fresh:
  fixes m :: "'a machine_scheme" and flags i :: u64
  assumes tb: "tables m pml4 L" and t: "L t = Some k" "2 \<le> k" "i < 512" and np: "\<not> present (entry m t i)"
    and alloc: "palloc_zero m = Some (f, m1)"
  defines "m' \<equiv> set_entry t i (f OR PTE_PRESENT OR PTE_WRITABLE OR (flags AND PTE_USER)) m1"
    and "n \<equiv> f + hhdm_offset m"
  shows "stepped m pml4 L t i k n m' (L(n \<mapsto> k - 1))"
proof -
  note ok = tablesD(1) [OF tb]
  note fr = palloc_zero_fresh [OF ok alloc]
  have hh: "hhdm_offset m1 = hhdm_offset m" "nx_supported m1 = nx_supported m" by (subst fr(2), simp)+
  have mem: "pmem m1 x = (if in_block n 4096 x then 0 else pmem m x)" for x by (subst fr(2)) (simp add: n_def)
  have al: "page_aligned f" using fr(1) by (simp add: fresh_frame_def page_aligned_iff)
  then have aln: "page_aligned n" unfolding n_def using tablesD(2) [OF tb] by (rule page_aligned_plus)
  have free: "free_byte m x" if "in_block n 4096 x" for x
    using fr(1) that by (simp add: fresh_frame_def n_def)
  have free': "free_byte m' x \<longleftrightarrow> free_byte m x \<and> \<not> in_block n 4096 x" for x
    using fr(1) by (simp add: fresh_frame_def m'_def n_def)
  have "in_block n 4096 n" by (simp add: in_block_def)
  then have new: "L n = None" using free tablesD(7) [OF tb] by (cases "L n") auto
  have old: "entry m1 t' i' = entry m t' i'" if "L t' = Some k'" "i' < 512" for t' k' and i' :: u64
  proof (rule entry_cong)
    fix x assume "in_block (t' + 8 * i') 8 x"
    then have "\<not> free_byte m x" using in_entry(2) [OF _ that(2)] tablesD(7) [OF tb that(1)] by blast
    then show "pmem m1 x = pmem m x" using free mem by auto
  qed
  have ent: "entry m' t' i' = entry m t' i'" if "L t' = Some k'" "i' < 512" "(t', i') \<noteq> (t, i)" for t' k' and i' :: u64
  proof -
    have "entry m' t' i' = entry m1 t' i'"
      unfolding m'_def by (rule entry_set_other) (use that t tablesD(4) [OF tb] in auto)
    then show ?thesis using old [OF that(1,2)] by simp
  qed
  have zero: "entry m' n j = 0" if "j < 512" for j
  proof -
    have "entry m' n j = entry m1 n j"
      unfolding m'_def using that t tablesD(4) [OF tb] aln new by (intro entry_set_other) auto
    then show ?thesis using entry_zero [of n m1 j] mem that by simp
  qed
  have here: "links m' k t i" "child m' t i = n"
    using t(2) entry_new_bits [OF al] hh by (simp_all add: m'_def links_def child_def n_def)
  have nolink: "\<not> links m' k' n j" if "j < 512" for k' j using zero [OF that] by (simp add: links_def present_bit)
  have same: "links m' k' t' i' = links m k' t' i' \<and> child m' t' i' = child m t' i'"
    if "L t' = Some k'" "i' < 512" "(t', i') \<noteq> (t, i)" for t' k' and i' :: u64
    using ent [OF that] hh by (simp add: links_def child_def m'_def)
  have lev: "L t' = Some k'" if "(L(n \<mapsto> k - 1)) t' = Some k'" "links m' k' t' i'" "i' < 512" for t' k' i'
    using that nolink by (auto split: if_splits)
  have "tables m' pml4 (L(n \<mapsto> k - 1))"
    unfolding tables_def
  proof (intro conjI allI impI; (elim conjE)?)
    fix t' k' i' assume a: "(L(n \<mapsto> k - 1)) t' = Some k'" "i' < 512" "links m' k' t' i'"
    note l = lev [OF a(1,3,2)]
    show "(L(n \<mapsto> k - 1)) (child m' t' i') = Some (k' - 1)"
    proof (cases "(t', i') = (t, i)")
      case True
      then show ?thesis using here(2) l t(1) by simp
    next
      case False
      then have "L (child m' t' i') = Some (k' - 1)" using same [OF l a(2)] a(3) tablesD(8) [OF tb l a(2)] by simp
      then show ?thesis using new by auto
    qed
  next
    fix t1 k1 i1 t2 k2 i2
    assume a: "(L(n \<mapsto> k - 1)) t1 = Some k1" "i1 < 512" "links m' k1 t1 i1"
      "(L(n \<mapsto> k - 1)) t2 = Some k2" "i2 < 512" "links m' k2 t2 i2" "child m' t1 i1 = child m' t2 i2"
    note l1 = lev [OF a(1,3,2)] and l2 = lev [OF a(4,6,5)]
    have child_old: "child m' t' i' \<noteq> n" if "L t' = Some k'" "i' < 512" "links m' k' t' i'" "(t', i') \<noteq> (t, i)" for t' k' i'
      using same [OF that(1,2,4)] that(3) tablesD(8) [OF tb that(1,2)] new by auto
    have "(t1, i1) = (t2, i2)"
    proof (cases "(t1, i1) = (t, i) \<or> (t2, i2) = (t, i)")
      case True
      then show ?thesis using child_old [OF l1 a(2,3)] child_old [OF l2 a(5,6)] a(7) here(2) by (metis prod.inject)
    next
      case False
      then show ?thesis using tablesD(9) [OF tb l1 a(2) _ l2 a(5)] same [OF l1 a(2)] same [OF l2 a(5)] a(3,6,7) by auto
    qed
    then show "t1 = t2" "i1 = i2" by auto
  next
    show "(L(n \<mapsto> k - 1)) pml4 = Some 4" using tablesD(3) [OF tb] new by auto
  next
    show "pmm_ok m'" using fr(1) by (simp add: fresh_frame_def m'_def)
  next
    show "page_aligned (hhdm_offset m')" using tablesD(2) [OF tb] hh by (simp add: m'_def)
  qed (use tablesD(4-7) [OF tb] t(2) tablesD(6) [OF tb t(1)] aln free' in \<open>auto split: if_splits\<close>)
  moreover have "same_links m m' L"
    unfolding same_links_def
  proof (intro conjI allI impI; (elim conjE)?)
    fix t' k' and i' :: u64 assume a: "L t' = Some k'" "i' < 512"
    show "entry m' t' i' = entry m t' i' \<or> links m k' t' i' \<and> links m' k' t' i' \<and> child m' t' i' = child m t' i' \<or>
        \<not> present (entry m t' i') \<and> links m' k' t' i' \<and> (\<forall>j<512. entry m' (child m' t' i') j = 0)"
      using ent [OF a] a t np here zero by (cases "(t', i') = (t, i)") auto
  qed (simp add: m'_def hh)
  moreover have "L \<subseteq>\<^sub>m L(n \<mapsto> k - 1)" using new by (auto simp: map_le_def)
  moreover have "free_frames m' = free_frames m - {f}" using palloc_zero_frames(2) [OF ok alloc] by (simp add: m'_def)
  then have "free_frames m' \<subseteq> free_frames m" "card (free_frames m) \<le> Suc (card (free_frames m'))"
    using card_Diff_singleton_if [of "free_frames m" f] by (auto split: if_splits)
  moreover have "grown m L m1 (L(n \<mapsto> k - 1))"
    using new free fr(1) mem by (auto simp: grown_def map_le_def fresh_frame_def split: if_splits)
  then have "grown m L m' (L(n \<mapsto> k - 1))"
    unfolding m'_def by (rule grown_trans) (use t new in \<open>auto intro!: grown_set_entry\<close>)
  ultimately show ?thesis
    using here ent walk_same_links [OF tb _ tablesD(3) [OF tb]] hh
    by (auto simp: stepped_def m'_def)
qed

lemma table_step_spec:
  assumes tb: "tables m pml4 L" and t: "L t = Some k" "2 \<le> k" "i < 512"
    and nh: "present (entry m t i) \<Longrightarrow> k = 4 \<or> \<not> huge (entry m t i)"
    and step: "table_step t i flags m = Some (n, m')"
  obtains L' where "stepped m pml4 L t i k n m' L'"
proof (cases "present (entry m t i)")
  case True
  then have lk: "links m k t i" using nh t(2) by (simp add: links_def)
  have "m' = set_entry t i (entry m t i OR (flags AND PTE_USER)) m" "n = child m t i"
    using step True by (auto simp: table_step_def child_def)
  then show thesis using step_present [OF tb t(1,3) lk] that by blast
next
  case False
  then obtain f m1 where a: "palloc_zero m = Some (f, m1)"
      "m' = set_entry t i (f OR PTE_PRESENT OR PTE_WRITABLE OR (flags AND PTE_USER)) m1"
      "n = page_base (entry m' t i) + hhdm_offset m'"
    using step by (auto simp: table_step_def)
  note s = step_fresh [OF tb t False a(1), of flags]
  have "n = f + hhdm_offset m"
    using s unfolding a(2) [symmetric] stepped_def child_def a(3) [symmetric] by blast
  then show thesis using s a(2) that by blast
qed

lemma table_step_returns:
  assumes "pmm_ok m" "free_frames m \<noteq> {}"
  obtains n m' where "table_step t i flags m = Some (n, m')"
proof -
  obtain f m1 where "palloc_zero m = Some (f, m1)" by (rule palloc_zero_returns [OF assms])
  then have "\<exists>n m'. table_step t i flags m = Some (n, m')" by (auto simp: table_step_def)
  then show thesis using that by blast
qed

section \<open>Mapping and unmapping\<close>

text \<open>
  The number of the virtual page of level \<open>k\<close> that holds an address: 4 KiB pages at level 1,
  2 MiB pages at level 2. Bits above 47 do not take part in translation.
\<close>

definition vpn :: "nat \<Rightarrow> u64 \<Rightarrow> u64" where
  "vpn k v = take_bit (9 * (5 - k)) (drop_bit (12 + 9 * (k - 1)) v)"

lemma bit_idx [bits]: "bit (idx k v) j \<longleftrightarrow> j < 9 \<and> bit v (12 + 9 * (k - 1) + j)"
  by (simp add: idx_mask bit_take_bit_iff bit_drop_bit_eq)

lemma bit_vpn [bits]: "bit (vpn k v) n \<longleftrightarrow> n < 9 * (5 - k) \<and> bit v (12 + 9 * (k - 1) + n)"
  by (simp add: vpn_def bit_take_bit_iff bit_drop_bit_eq)

lemma vpn_iff:
  assumes "1 \<le> k" "k \<le> 4"
  shows "vpn k v = vpn k w \<longleftrightarrow> (\<forall>l. k \<le> l \<and> l \<le> 4 \<longrightarrow> idx l v = idx l w)"
proof (intro iffI allI impI)
  fix l assume eq: "vpn k v = vpn k w" and l: "k \<le> l \<and> l \<le> 4"
  show "idx l v = idx l w"
  proof (rule bit_word_eqI)
    fix j assume "j < LENGTH(64)"
    have "bit (vpn k v) (9 * (l - k) + j) = bit (vpn k w) (9 * (l - k) + j)" using eq by simp
    moreover have e: "12 + 9 * (k - 1) + (9 * (l - k) + j) = 12 + 9 * (l - 1) + j" using l assms by auto
    moreover have "9 * (l - k) + j < 9 * (5 - k)" if "j < 9" using that l by auto
    ultimately show "bit (idx l v) j = bit (idx l w) j" unfolding bit_idx bit_vpn e by blast
  qed
next
  assume eq: "\<forall>l. k \<le> l \<and> l \<le> 4 \<longrightarrow> idx l v = idx l w"
  show "vpn k v = vpn k w"
  proof (rule bit_word_eqI)
    fix n assume "n < LENGTH(64)"
    show "bit (vpn k v) n = bit (vpn k w) n"
    proof (cases "n < 9 * (5 - k)")
      case True
      define q r where "q = n div 9" and "r = n mod 9"
      have n: "n = 9 * q + r" "r < 9" by (simp_all add: q_def r_def)
      then have "k + q \<le> 4" using True by auto
      then have "idx (k + q) v = idx (k + q) w" using eq by simp
      then have "bit (idx (k + q) v) r = bit (idx (k + q) w) r" by simp
      moreover have e: "12 + 9 * (k + q - 1) + r = 12 + 9 * (k - 1) + n" using n(1) assms by auto
      ultimately show ?thesis using n(2) unfolding bit_idx bit_vpn e by blast
    qed (simp add: bits)
  qed
qed

text \<open>Writing an entry that maps a page changes the walks of exactly that page.\<close>

lemma set_leaf_region:
  assumes tb: "tables m pml4 L" and p: "table_at m j 4 pml4 v = Some p" "1 \<le> j" "j \<le> 4"
    and leaf: "\<not> links (set_entry p (idx j v) e m) j p (idx j v)"
  shows "tables (set_entry p (idx j v) e m) pml4 L"
    "walk (set_entry p (idx j v) e m) 4 pml4 w =
      (if vpn j w = vpn j v then (if present e then Some (j, e) else None) else walk m 4 pml4 w)"
proof -
  note root = tablesD(3) [OF tb]
  have L: "L p = Some j" using table_at_level [OF tb root p(1)] .
  show "tables (set_entry p (idx j v) e m) pml4 L" by (rule set_leaf_tables [OF tb L idx_less leaf])
  have "table_at m j 4 pml4 w = Some p \<and> idx j w = idx j v \<longleftrightarrow> vpn j w = vpn j v"
  proof
    assume a: "table_at m j 4 pml4 w = Some p \<and> idx j w = idx j v"
    then have "idx l w = idx l v" if "j \<le> l \<and> l \<le> 4" for l
      using table_at_unique [OF tb root _ p(1), of w l] that by (cases "l = j") auto
    then show "vpn j w = vpn j v" using vpn_iff [OF p(2,3)] by blast
  next
    assume "vpn j w = vpn j v"
    then have eq: "idx l w = idx l v" if "j \<le> l" "l \<le> 4" for l using vpn_iff [OF p(2,3)] that by blast
    have "table_at m j k t w = table_at m j k t v" if "k \<le> 4" for k t
      using that
    proof (induction k arbitrary: t)
      case (Suc k)
      then show ?case using eq [of "Suc k"] table_at_above [of "Suc k" j m t] by (cases "Suc k < j") auto
    qed simp
    then show "table_at m j 4 pml4 w = Some p \<and> idx j w = idx j v" using p eq by simp
  qed
  then show "walk (set_entry p (idx j v) e m) 4 pml4 w =
      (if vpn j w = vpn j v then (if present e then Some (j, e) else None) else walk m 4 pml4 w)"
    using set_leaf_walk [OF tb L idx_less leaf root, of w] by simp
qed

text \<open>No page larger than level \<open>j\<close> maps the address.\<close>

definition mapped_below :: "'a machine_scheme \<Rightarrow> nat \<Rightarrow> ptr \<Rightarrow> u64 \<Rightarrow> bool" where
  "mapped_below m j pml4 v \<longleftrightarrow> (\<forall>k e. walk m 4 pml4 v = Some (k, e) \<longrightarrow> k \<le> j)"

lemma mapped_below_mono: "mapped_below m j pml4 v \<Longrightarrow> j \<le> k \<Longrightarrow> mapped_below m k pml4 v"
  by (force simp: mapped_below_def)

lemma table_at_self: "table_at m 4 4 t v = Some t"
  by (simp add: numeral_eq_Suc)

lemma table_at_extend:
  "table_at m (Suc j) k t v = Some p \<Longrightarrow> links m (Suc j) p (idx (Suc j) v) \<Longrightarrow>
    table_at m j k t v = Some (child m p (idx (Suc j) v))"
proof (induction k arbitrary: t)
  case (Suc k)
  show ?case
  proof (cases "k = j")
    case True
    then have "0 < k" using Suc.prems(2) by (simp add: links_def)
    then show ?thesis using Suc.prems True by (cases k) auto
  next
    case False
    then show ?thesis using Suc.IH Suc.prems table_at_above [of "Suc k" "Suc j" m t v] by (cases "k < j") (auto split: if_splits)
  qed
qed simp

lemma table_at_frame:
  assumes tb: "tables m pml4 L" and hh: "hhdm_offset m' = hhdm_offset m"
    and ent: "\<And>t k i. L t = Some k \<Longrightarrow> j < k \<Longrightarrow> i < 512 \<Longrightarrow> entry m' t i = entry m t i"
  shows "L t = Some k \<Longrightarrow> table_at m' j k t v = table_at m j k t v"
proof (induction k arbitrary: t)
  case (Suc k)
  show ?case
  proof (cases "j < Suc k")
    case True
    then have e: "entry m' t (idx (Suc k) v) = entry m t (idx (Suc k) v)" using ent [OF Suc.prems] by simp
    then have l: "links m' (Suc k) t (idx (Suc k) v) = links m (Suc k) t (idx (Suc k) v)"
      "child m' t (idx (Suc k) v) = child m t (idx (Suc k) v)" by (simp_all add: links_def child_def hh)
    show ?thesis using Suc.IH [of "child m t (idx (Suc k) v)"] tablesD(8) [OF tb Suc.prems, of "idx (Suc k) v"] by (simp add: l)
  next
    case False
    then consider "Suc k = j" | "Suc k < j" by linarith
    then show ?thesis
    proof cases
      case 2
      show ?thesis by (simp only: table_at_above [OF 2])
    qed (cases j; simp)
  qed
qed simp

lemma walk_at: "table_at m j k t v = Some p \<Longrightarrow> walk m k t v = walk m j p v"
  by (induction k arbitrary: t) (auto split: if_splits dest: links_present)

text \<open>A step down from the table the walk of \<open>v\<close> visits at level \<open>j\<close>.\<close>

lemma descend:
  assumes tb: "tables m pml4 L" and at: "table_at m (Suc j) 4 pml4 v = Some t" and j: "1 \<le> j"
    and nb: "mapped_below m j pml4 v" and step: "table_step t (idx (Suc j) v) flags m = Some (n, m')"
  obtains L' where "stepped m pml4 L t (idx (Suc j) v) (Suc j) n m' L'" "table_at m' j 4 pml4 v = Some n"
    "mapped_below m' j pml4 v"
proof -
  have L: "L t = Some (Suc j)" by (rule table_at_level [OF tb tablesD(3) [OF tb] at])
  have nh: "Suc j = 4 \<or> \<not> huge (entry m t (idx (Suc j) v))" if "present (entry m t (idx (Suc j) v))"
  proof (rule ccontr)
    assume "\<not> (Suc j = 4 \<or> \<not> huge (entry m t (idx (Suc j) v)))"
    then have "walk m 4 pml4 v = Some (Suc j, entry m t (idx (Suc j) v))"
      using that walk_at [OF at] by (simp add: links_def)
    then show False using nb by (simp add: mapped_below_def)
  qed
  obtain L' where s: "stepped m pml4 L t (idx (Suc j) v) (Suc j) n m' L'"
    by (rule table_step_spec [OF tb L _ _ nh step]) (use j in simp_all)
  have ent: "entry m' t' i = entry m t' i" if "L t' = Some k" "Suc j < k" "i < 512" for t' k i
  proof -
    have "t' \<noteq> t" using that L by auto
    then show ?thesis using s that(1,3) unfolding stepped_def by blast
  qed
  have "table_at m' (Suc j) 4 pml4 v = Some t"
    using table_at_frame [OF tb _ ent tablesD(3) [OF tb]] s at by (simp add: stepped_def)
  then have "table_at m' j 4 pml4 v = Some n"
    using table_at_extend [of m' j 4 pml4 v t] s by (simp add: stepped_def)
  moreover have "mapped_below m' j pml4 v" using s nb by (simp add: stepped_def mapped_below_def)
  ultimately show thesis using that s by blast
qed

lemma final_flags_cong: "nx_supported m' = nx_supported m \<Longrightarrow> final_flags m' flags = final_flags m flags"
  by (simp add: final_flags_def)

text \<open>
  What mapping a page of level \<open>k\<close> with entry \<open>e\<close> does to the address space, and how many
  frames it may use up.
\<close>

definition remapped :: "'a machine_scheme \<Rightarrow> ptr \<Rightarrow> nat \<Rightarrow> u64 \<Rightarrow> u64 \<Rightarrow> nat \<Rightarrow> 'a machine_scheme \<Rightarrow> bool" where
  "remapped m pml4 k v e c m' \<longleftrightarrow> (\<exists>L. tables m' pml4 L) \<and> hhdm_offset m' = hhdm_offset m \<and>
     nx_supported m' = nx_supported m \<and> card (free_frames m) \<le> c + card (free_frames m') \<and>
     (\<forall>w. walk m' 4 pml4 w = (if vpn k w = vpn k v then Some (k, e) else walk m 4 pml4 w))"

definition page_entry :: "'a machine_scheme \<Rightarrow> u64 \<Rightarrow> u64 \<Rightarrow> u64" where
  "page_entry m phys flags = page_base phys OR final_flags m flags OR PTE_PRESENT"

definition huge_entry :: "'a machine_scheme \<Rightarrow> u64 \<Rightarrow> u64 \<Rightarrow> u64" where
  "huge_entry m phys flags = (phys AND NOT (mask 21)) OR final_flags m flags OR PTE_PRESENT OR PTE_HUGE"

lemma entry_leaf_bits [simp]: "present (page_entry m p fl)" "present (huge_entry m p fl)" "huge (huge_entry m p fl)"
  by (auto simp: bits bit_or_iff page_entry_def huge_entry_def)

lemma steps_frames:
  assumes "stepped m pml4 L t i k n m' L'"
  shows "card (free_frames m) \<le> Suc (card (free_frames m'))" "hhdm_offset m' = hhdm_offset m"
    "nx_supported m' = nx_supported m" "walk m' 4 pml4 v = walk m 4 pml4 v" "tables m' pml4 L'" "grown m L m' L'"
  using assms by (auto simp: stepped_def)

lemma descend_pd:
  assumes tb: "tables m pml4 L" and nb: "mapped_below m 2 pml4 v"
    and s: "table_step pml4 (idx 4 v) flags m = Some (pdp, m1)" "table_step pdp (idx 3 v) flags m1 = Some (pd, m2)"
  shows "\<exists>L'. tables m2 pml4 L' \<and> table_at m2 2 4 pml4 v = Some pd \<and> hhdm_offset m2 = hhdm_offset m \<and>
    nx_supported m2 = nx_supported m \<and> (\<forall>w. walk m2 4 pml4 w = walk m 4 pml4 w) \<and>
    card (free_frames m) \<le> 2 + card (free_frames m2) \<and> grown m L m2 L'"
proof -
  have nb3: "mapped_below m 3 pml4 v" using nb by (rule mapped_below_mono) simp
  obtain L1 where 1: "stepped m pml4 L pml4 (idx 4 v) 4 pdp m1 L1" "table_at m1 3 4 pml4 v = Some pdp"
    using descend [OF tb, of 3 v pml4 flags pdp m1] table_at_self [of m pml4 v] nb3 s(1) by auto
  note f1 = steps_frames [OF 1(1)]
  have nb1: "mapped_below m1 2 pml4 v" using nb f1(4) by (simp add: mapped_below_def)
  obtain L2 where 2: "stepped m1 pml4 L1 pdp (idx 3 v) 3 pd m2 L2" "table_at m2 2 4 pml4 v = Some pd"
    using descend [OF f1(5), of 2 v pdp flags pd m2] 1(2) nb1 s(2) by (auto simp: numeral_eq_Suc)
  note f2 = steps_frames [OF 2(1)]
  show ?thesis using 2(2) f1 f2 grown_trans [OF f1(6) f2(6)] by auto
qed

lemma map_page_spec:
  assumes tb: "tables m pml4 L" and nb: "mapped_below m 1 pml4 v" and got: "map_page pml4 v phys flags m = Some m'"
  shows "remapped m pml4 1 v (page_entry m phys flags) 3 m'" "\<exists>L'. tables m' pml4 L' \<and> grown m L m' L'"
proof -
  obtain pdp m1 pd m2 pt m3 where
    s: "table_step pml4 (idx 4 v) flags m = Some (pdp, m1)" "table_step pdp (idx 3 v) flags m1 = Some (pd, m2)"
      "table_step pd (idx 2 v) flags m2 = Some (pt, m3)"
    and m': "m' = set_entry pt (idx 1 v) (page_base phys OR final_flags m3 flags OR PTE_PRESENT) m3"
    using got by (auto simp: map_page_def bind_eq_Some_conv idx_simps)
  have nb2: "mapped_below m 2 pml4 v" using nb by (rule mapped_below_mono) simp
  obtain L2 where 2: "tables m2 pml4 L2" "table_at m2 2 4 pml4 v = Some pd" "hhdm_offset m2 = hhdm_offset m"
    "nx_supported m2 = nx_supported m" "\<And>w. walk m2 4 pml4 w = walk m 4 pml4 w"
    "card (free_frames m) \<le> 2 + card (free_frames m2)" "grown m L m2 L2"
    using descend_pd [OF tb nb2 s(1,2)] by blast
  have nb1: "mapped_below m2 1 pml4 v" using nb 2(5) by (simp add: mapped_below_def)
  obtain L3 where 3: "stepped m2 pml4 L2 pd (idx 2 v) 2 pt m3 L3" "table_at m3 1 4 pml4 v = Some pt"
    using descend [OF 2(1), of 1 v pd flags pt m3] 2(2) nb1 s(3) by (auto simp: numeral_eq_Suc)
  note f3 = steps_frames [OF 3(1)]
  have e: "page_base phys OR final_flags m3 flags OR PTE_PRESENT = page_entry m phys flags"
    using f3(3) 2(4) by (simp add: page_entry_def final_flags_def)
  have nl: "\<not> links (set_entry pt (idx 1 v) (page_entry m phys flags) m3) 1 pt (idx 1 v)" by (simp add: links_def)
  show "remapped m pml4 1 v (page_entry m phys flags) 3 m'"
    using set_leaf_region [OF f3(5) 3(2) _ _ nl] f3 2 unfolding remapped_def m' e by auto
  have "L3 pt \<noteq> None" using 3(1) by (simp add: stepped_def)
  then have "grown m3 L3 m' L3" unfolding m' by (rule grown_set_entry) simp
  moreover have "tables m' pml4 L3"
    using set_leaf_region [OF f3(5) 3(2) _ _ nl] unfolding m' e by auto
  ultimately show "\<exists>L'. tables m' pml4 L' \<and> grown m L m' L'"
    using grown_trans [OF 2(7) grown_trans [OF f3(6)]] by blast
qed

lemma map_page_huge_spec:
  assumes tb: "tables m pml4 L" and nb: "mapped_below m 2 pml4 v" and got: "map_page_huge pml4 v phys flags m = Some m'"
  shows "remapped m pml4 2 v (huge_entry m phys flags) 2 m'"
proof -
  obtain pdp m1 pd m2 where
    s: "table_step pml4 (idx 4 v) flags m = Some (pdp, m1)" "table_step pdp (idx 3 v) flags m1 = Some (pd, m2)"
    and m': "m' = set_entry pd (idx 2 v) ((phys AND NOT (mask 21)) OR final_flags m2 flags OR PTE_PRESENT OR push_bit 7 1) m2"
    using got by (auto simp: map_page_huge_def bind_eq_Some_conv idx_simps)
  obtain L2 where 2: "tables m2 pml4 L2" "table_at m2 2 4 pml4 v = Some pd" "hhdm_offset m2 = hhdm_offset m"
    "nx_supported m2 = nx_supported m" "\<And>w. walk m2 4 pml4 w = walk m 4 pml4 w"
    "card (free_frames m) \<le> 2 + card (free_frames m2)"
    using descend_pd [OF tb nb s] by blast
  have e: "(phys AND NOT (mask 21)) OR final_flags m2 flags OR PTE_PRESENT OR push_bit 7 1 = huge_entry m phys flags"
    unfolding huge_entry_def PTE_HUGE_def using 2(4) by (simp only: final_flags_def)
  have nl: "\<not> links (set_entry pd (idx 2 v) (huge_entry m phys flags) m2) 2 pd (idx 2 v)" by (simp add: links_def)
  show ?thesis
    using set_leaf_region [OF 2(1,2) _ _ nl] 2 unfolding remapped_def m' e by auto
qed

text \<open>Neither call stops the machine while as many frames are free as it may have to allocate.\<close>

lemma map_pages_return:
  assumes tb: "tables m pml4 L"
  shows "mapped_below m 2 pml4 v \<Longrightarrow> 2 \<le> card (free_frames m) \<Longrightarrow> \<exists>m'. map_page_huge pml4 v phys flags m = Some m'"
    "mapped_below m 1 pml4 v \<Longrightarrow> 3 \<le> card (free_frames m) \<Longrightarrow> \<exists>m'. map_page pml4 v phys flags m = Some m'"
proof -
  have two: "\<exists>pdp m1 pd m2 L2. table_step pml4 (idx 4 v) flags m = Some (pdp, m1) \<and>
      table_step pdp (idx 3 v) flags m1 = Some (pd, m2) \<and> tables m2 pml4 L2 \<and> card (free_frames m) \<le> 2 + card (free_frames m2)"
    if nb: "mapped_below m 2 pml4 v" and c: "2 \<le> card (free_frames m)"
  proof -
    have "free_frames m \<noteq> {}" using c by auto
    then obtain pdp m1 where s1: "table_step pml4 (idx 4 v) flags m = Some (pdp, m1)"
      using table_step_returns [OF tablesD(1) [OF tb]] by blast
    have nb3: "mapped_below m 3 pml4 v" using nb by (rule mapped_below_mono) simp
    obtain L1 where 1: "stepped m pml4 L pml4 (idx 4 v) 4 pdp m1 L1"
      using descend [OF tb, of 3 v pml4 flags pdp m1] table_at_self [of m pml4 v] nb3 s1 by auto
    note f1 = steps_frames [OF 1]
    have "free_frames m1 \<noteq> {}" using f1(1) c by auto
    then obtain pd m2 where s2: "table_step pdp (idx 3 v) flags m1 = Some (pd, m2)"
      using table_step_returns [OF tablesD(1) [OF f1(5)]] by blast
    show ?thesis using descend_pd [OF tb nb s1 s2] s1 s2 by metis
  qed
  show "\<exists>m'. map_page_huge pml4 v phys flags m = Some m'" if "mapped_below m 2 pml4 v" "2 \<le> card (free_frames m)"
    using two [OF that] by (auto simp: map_page_huge_def idx_simps)
  assume nb: "mapped_below m 1 pml4 v" and c: "3 \<le> card (free_frames m)"
  have nb2: "mapped_below m 2 pml4 v" using nb by (rule mapped_below_mono) simp
  obtain pdp m1 pd m2 L2 where s: "table_step pml4 (idx 4 v) flags m = Some (pdp, m1)"
      "table_step pdp (idx 3 v) flags m1 = Some (pd, m2)" "tables m2 pml4 L2" "card (free_frames m) \<le> 2 + card (free_frames m2)"
    using two [OF nb2] c by auto
  then have "free_frames m2 \<noteq> {}" using c by auto
  then obtain pt m3 where "table_step pd (idx 2 v) flags m2 = Some (pt, m3)"
    using table_step_returns [OF tablesD(1) [OF s(3)]] by blast
  then show "\<exists>m'. map_page pml4 v phys flags m = Some m'" using s by (simp add: map_page_def idx_simps)
qed

text \<open>Unmapping.\<close>

lemma unmap_page_at:
  assumes "mapped_below m 1 pml4 v"
  shows "unmap_page pml4 v m = (case table_at m 1 4 pml4 v of None \<Rightarrow> m | Some pt \<Rightarrow> set_entry pt (idx 1 v) 0 m)"
proof -
  have at: "table_at m 1 4 pml4 v =
      (if links m 4 pml4 (idx 4 v) then
         if links m 3 (child m pml4 (idx 4 v)) (idx 3 v) then
           if links m 2 (child m (child m pml4 (idx 4 v)) (idx 3 v)) (idx 2 v)
           then Some (child m (child m (child m pml4 (idx 4 v)) (idx 3 v)) (idx 2 v)) else None
         else None
       else None)"
    by (simp add: numeral_eq_Suc)
  show ?thesis
    using assms unfolding at mapped_below_def walk_4 walk_3 walk_2 unmap_page_def idx_simps child_def [symmetric] Let_def
    by (auto simp: links_def split: if_splits)
qed

lemma walk_table_at: "walk m k t v = Some (j, e) \<Longrightarrow> \<exists>p. table_at m j k t v = Some p"
  by (induction k arbitrary: t) (auto split: if_splits)

lemma unmap_page_spec:
  assumes tb: "tables m pml4 L" and nb: "mapped_below m 1 pml4 v"
  shows "tables (unmap_page pml4 v m) pml4 L \<and>
    walk (unmap_page pml4 v m) 4 pml4 w = (if vpn 1 w = vpn 1 v then None else walk m 4 pml4 w)"
proof (cases "table_at m 1 4 pml4 v")
  case None
  have "walk m 4 pml4 w = None" if "vpn 1 w = vpn 1 v"
  proof (rule ccontr)
    assume "walk m 4 pml4 w \<noteq> None"
    then obtain j e where w: "walk m 4 pml4 w = Some (j, e)" by auto
    have eq: "idx l w = idx l v" if "1 \<le> l" "l \<le> 4" for l using \<open>vpn 1 w = vpn 1 v\<close> vpn_iff [of 1 w v] that by simp
    have "walk m k t w = walk m k t v" if "k \<le> 4" for k t
      using that by (induction k arbitrary: t) (simp_all add: eq)
    then have wv: "walk m 4 pml4 v = Some (j, e)" using w by simp
    then have "j \<le> 1" using nb by (simp add: mapped_below_def)
    moreover have "table_at m 0 k t v = None" for k t by (induction k arbitrary: t) auto
    ultimately show False using walk_table_at [OF wv] None by (cases j) auto
  qed
  then show ?thesis using tb unmap_page_at [OF nb] None by simp
next
  case (Some pt)
  have nl: "\<not> links (set_entry pt (idx 1 v) 0 m) 1 pt (idx 1 v)" by (simp add: links_def)
  show ?thesis
    using set_leaf_region(1) [OF tb Some _ _ nl] set_leaf_region(2) [OF tb Some _ _ nl, where w = w] unmap_page_at [OF nb] Some by (simp add: present_bit)
qed

lemma unmap_page_large:
  assumes w: "walk m 4 pml4 v = Some (2, e)"
  shows "unmap_page pml4 v m = set_entry (page_base e + hhdm_offset m) (PT_IDX v) 0 m"
    "tables m pml4 L \<Longrightarrow> L (page_base e + hhdm_offset m) = None \<Longrightarrow> walk (unmap_page pml4 v m) 4 pml4 u = walk m 4 pml4 u"
proof -
  show eq: "unmap_page pml4 v m = set_entry (page_base e + hhdm_offset m) (PT_IDX v) 0 m"
    using w by (auto simp: walk_4 walk_3 walk_2 walk_1 unmap_page_def child_def idx_simps split: if_splits)
  assume tb: "tables m pml4 L" and out: "L (page_base e + hhdm_offset m) = None"
  have "page_aligned (page_base e + hhdm_offset m)" by (rule page_aligned_plus) (simp_all add: tablesD(2) [OF tb])
  then have "entry (unmap_page pml4 v m) t i = entry m t i" if "L t = Some k" "i < 512" for t k i
    unfolding eq using out that idx_less [of 1 v] tablesD(4) [OF tb that(1)] by (intro entry_set_other) (auto simp: idx_simps)
  then have "same_links m (unmap_page pml4 v m) L" by (auto simp: same_links_def eq)
  then show "walk (unmap_page pml4 v m) 4 pml4 u = walk m 4 pml4 u" by (rule walk_same_links [OF tb _ tablesD(3) [OF tb]])
qed

section \<open>Regions\<close>

lemma unat_vpn: "unat (vpn k v) = (unat v div 2 ^ (12 + 9 * (k - 1))) mod 2 ^ (9 * (5 - k))"
  by (simp only: vpn_def unat_take_bit unat_drop_bit_eq) (simp only: drop_bit_eq_div)

lemma add_mod_cancel:
  fixes a x y n :: nat
  assumes "x < n" "y < n"
  shows "(a + x) mod n = (a + y) mod n \<longleftrightarrow> x = y"
proof
  assume "(a + x) mod n = (a + y) mod n"
  then obtain q1 q2 where "a + x + n * q1 = a + y + n * q2" using nat_mod_eq_iff by blast
  then have "(x + n * q1) mod n = (y + n * q2) mod n" by simp
  then show "x = y" using assms by simp
qed simp

lemma vpn_offset:
  assumes k: "1 \<le> k" "k \<le> 4" and S: "S = 2 ^ (12 + 9 * (k - 1))"
    and al: "unat base mod S = 0" and d: "unat base + d < 2 ^ 64" "unat base + d' < 2 ^ 64" "d < 2 ^ 48" "d' < 2 ^ 48"
  shows "vpn k (base + of_nat d) = vpn k (base + of_nat d') \<longleftrightarrow> d div S = d' div S"
proof -
  have S0: "0 < S" by (simp add: S)
  define a where "a = unat base div S"
  have base: "unat base = S * a" using al S0 by (auto simp: a_def)
  have div: "(unat base + x) div S = a + x div S" for x using S0 by (simp add: base)
  define M where "M = (2 :: nat) ^ (9 * (5 - k))"
  have "(2 :: nat) ^ 48 = S * M" using k unfolding S M_def power_add [symmetric] by (intro arg_cong [where f = "power 2"]) simp
  then have lt: "x div S < M" if "x < 2 ^ 48" for x using that S0 by (simp add: less_mult_imp_div_less mult.commute)
  have u: "unat (vpn k (base + of_nat x)) = (a + x div S) mod M" if "unat base + x < 2 ^ 64" for x
    unfolding unat_vpn unat_add_no_wrap [OF that] S [symmetric] div M_def ..
  have "vpn k (base + of_nat d) = vpn k (base + of_nat d') \<longleftrightarrow> (a + d div S) mod M = (a + d' div S) mod M"
    unfolding word_unat_eq_iff u [OF d(1)] u [OF d(2)] ..
  also have "\<dots> \<longleftrightarrow> d div S = d' div S" by (rule add_mod_cancel) (use lt d(3,4) in simp_all)
  finally show ?thesis .
qed


lemma page_entry_translate:
  assumes "page_base (final_flags m flags) = 0"
  shows "page_base (page_entry m phys flags) = page_base phys"
proof (rule bit_word_eqI)
  fix n assume "n < LENGTH(64)"
  have "\<not> bit (page_base (final_flags m flags)) n" using assms by simp
  then show "bit (page_base (page_entry m phys flags)) n = bit (page_base phys) n"
    by (auto simp: page_entry_def bits bit_or_iff)
qed

lemma bit_and_not_mask: "bit ((w :: u64) AND NOT (mask k)) n \<longleftrightarrow> bit w n \<and> k \<le> n"
  using bit_imp_le_length [of w n] by (auto simp: bit_and_iff bit_not_iff bit_mask_iff possible_bit_def)

lemma huge_entry_translate:
  assumes "page_base (final_flags m flags) = 0"
  shows "huge_entry m phys flags AND NOT (mask 21) = phys AND NOT (mask 21)"
proof (rule bit_word_eqI)
  fix n assume "n < LENGTH(64)"
  have "\<not> bit (page_base (final_flags m flags)) n" using assms by simp
  then show "bit (huge_entry m phys flags AND NOT (mask 21)) n = bit (phys AND NOT (mask 21)) n"
    unfolding bit_and_not_mask huge_entry_def bit_or_iff by (auto simp: bits)
qed

text \<open>Where an address inside a freshly mapped page of level \<open>k\<close> goes.\<close>

lemma remapped_page:
  assumes "remapped m pml4 1 v (page_entry m phys flags) c m'" "page_base (final_flags m flags) = 0" "vpn 1 w = vpn 1 v"
  shows "vmm_virt_to_phys m' pml4 w = page_base phys + page_off w"
  using assms page_entry_translate [of m flags phys]
  by (simp add: virt_to_phys_walk remapped_def page_base_def page_off_def)

lemma remapped_huge:
  assumes "remapped m pml4 2 v (huge_entry m phys flags) c m'" "page_base (final_flags m flags) = 0" "vpn 2 w = vpn 2 v"
  shows "vmm_virt_to_phys m' pml4 w = (phys AND NOT (mask 21)) + (w AND mask 21)"
  using assms huge_entry_translate [of m flags phys]
  by (simp add: virt_to_phys_walk remapped_def)

lemma remapped_other:
  assumes "remapped m pml4 k v e c m'" "vpn k w \<noteq> vpn k v"
  shows "walk m' 4 pml4 w = walk m 4 pml4 w" "vmm_virt_to_phys m' pml4 w = vmm_virt_to_phys m pml4 w"
  using assms by (simp_all add: virt_to_phys_walk remapped_def)

lemma aligned_split:
  assumes "unat (x :: u64) mod 2 ^ n = 0" "d < 2 ^ n" "unat x + d < 2 ^ 64"
  shows "(x + of_nat d) AND NOT (mask n) = x" "(x + of_nat d) AND mask n = of_nat d"
proof -
  have u: "unat (x + of_nat d) = unat x + d" using assms(3) by (rule unat_add_no_wrap)
  obtain q where q: "unat x = 2 ^ n * q" using assms(1) by auto
  have "unat ((x + of_nat d) AND NOT (mask n)) = unat x"
    using assms(2) by (simp add: unat_and_not_mask u q)
  then show "(x + of_nat d) AND NOT (mask n) = x" by (simp add: word_unat_eq_iff)
  have "unat ((x + of_nat d) AND mask n) = d"
    using assms(2) by (simp add: take_bit_eq_mask [symmetric] unat_take_bit u q)
  moreover have "unat (of_nat d :: u64) = d" using assms(3) by (intro unat_offset) simp
  ultimately show "(x + of_nat d) AND mask n = of_nat d" by (simp add: word_unat_eq_iff)
qed

lemma unat_idx: "unat (idx k v) = unat v div 2 ^ (12 + 9 * (k - 1)) mod 512"
proof -
  have "unat (idx k v) = drop_bit (12 + 9 * (k - 1)) (unat v) mod 2 ^ 9"
    by (simp only: idx_mask unat_take_bit unat_drop_bit_eq)
  then show ?thesis by (simp only: drop_bit_eq_div) simp
qed

text \<open>Every page of level 1 inside a page of level 2 is at an offset from its start.\<close>

lemma vpn_inside:
  assumes al: "unat cur mod 2 ^ 21 = 0" and w: "vpn 2 w = vpn 2 cur"
  obtains d where "d < 2 ^ 21" "vpn 1 w = vpn 1 (cur + of_nat d)"
proof
  define i where "i = unat (idx 1 w)"
  have i: "i < 512" using idx_less [of 1 w] unfolding i_def word_less_nat_alt by simp
  show "4096 * i < 2 ^ 21" using i by simp
  obtain q where q: "unat cur = 2 ^ 21 * q" using al by auto
  then have "2 ^ 21 * q < 2 ^ 64" using unat_bound [of cur] by simp
  then have "q + 1 \<le> 2 ^ 43" by simp
  then have "2 ^ 21 * (q + 1) \<le> 2 ^ 21 * 2 ^ 43" by (rule mult_left_mono) simp
  then have nw: "unat cur + 4096 * i < 2 ^ 64" using i q by simp
  have u: "unat (cur + of_nat (4096 * i)) = 2 ^ 21 * q + 4096 * i" using unat_add_no_wrap [OF nw] q by simp
  have "2 ^ 21 * q + 4096 * i = 4096 * (i + q * 512)" by simp
  then have "unat (cur + of_nat (4096 * i)) div 4096 = i + q * 512" unfolding u by simp
  then have "unat (idx 1 (cur + of_nat (4096 * i))) = i"
    using unat_idx [of 1 "cur + of_nat (4096 * i)"] i by (simp del: of_nat_mult)
  then have 1: "idx 1 (cur + of_nat (4096 * i)) = idx 1 w" unfolding i_def by (simp only: word_unat_eq_iff)
  have "vpn 2 (cur + of_nat (4096 * i)) = vpn 2 (cur + of_nat 0)"
    using vpn_offset [of 2 "2 ^ 21" cur "4096 * i" 0] al i nw unat_bound [of cur] by simp
  then have eq: "vpn 2 w = vpn 2 (cur + of_nat (4096 * i))" using w by (simp del: of_nat_mult)
  have up: "idx l w = idx l (cur + of_nat (4096 * i))" if "2 \<le> l" "l \<le> 4" for l
    using vpn_iff [THEN iffD1, OF _ _ eq] that by simp
  have "idx l w = idx l (cur + of_nat (4096 * i))" if "1 \<le> l \<and> l \<le> 4" for l
    using up [of l] 1 that by (cases "l = 1") auto
  then show "vpn 1 w = vpn 1 (cur + of_nat (4096 * i))" by (intro vpn_iff [THEN iffD2]) simp_all
qed

text \<open>The regions a caller may ask for: whole pages that do not wrap around.\<close>

definition region_ok :: "u64 \<Rightarrow> u64 \<Rightarrow> nat \<Rightarrow> bool" where
  "region_ok virt phys Z \<longleftrightarrow> unat virt mod 4096 = 0 \<and> unat phys mod 4096 = 0 \<and> Z mod 4096 = 0 \<and>
     unat virt + Z < 2 ^ 64 \<and> unat phys + Z < 2 ^ 64 \<and> Z \<le> 2 ^ 48"

text \<open>The state from which the loop maps the rest of a region, and what it has achieved at its end.\<close>

definition region_ready :: "'a machine_scheme \<Rightarrow> ptr \<Rightarrow> u64 \<Rightarrow> nat \<Rightarrow> nat \<Rightarrow> u64 \<Rightarrow> bool" where
  "region_ready m pml4 virt k Z flags \<longleftrightarrow> (\<exists>L. tables m pml4 L) \<and> k mod 4096 = 0 \<and> k \<le> Z \<and>
     page_base (final_flags m flags) = 0 \<and>
     (\<forall>d. k \<le> d \<and> d < Z \<longrightarrow> mapped_below m 1 pml4 (virt + of_nat d)) \<and>
     3 * ((Z - k) div 4096) \<le> card (free_frames m)"

definition region_mapped :: "'a machine_scheme \<Rightarrow> 'a machine_scheme \<Rightarrow> ptr \<Rightarrow> u64 \<Rightarrow> u64 \<Rightarrow> nat \<Rightarrow> nat \<Rightarrow> bool" where
  "region_mapped m m' pml4 virt phys k Z \<longleftrightarrow> (\<exists>L. tables m' pml4 L) \<and>
     (\<forall>d. k \<le> d \<and> d < Z \<longrightarrow> vmm_virt_to_phys m' pml4 (virt + of_nat d) = phys + of_nat d) \<and>
     (\<forall>w. (\<forall>d. k \<le> d \<and> d < Z \<longrightarrow> vpn 1 w \<noteq> vpn 1 (virt + of_nat d)) \<longrightarrow> walk m' 4 pml4 w = walk m 4 pml4 w)"

lemma region_inside:
  assumes ok: "region_ok virt phys Z" and j: "1 \<le> j" "j \<le> 4" and S: "S = 2 ^ (12 + 9 * (j - 1))"
    and al: "(unat virt + k) mod S = 0" and d: "k \<le> d" "d < Z"
  shows "vpn j (virt + of_nat d) = vpn j (virt + of_nat k) \<longleftrightarrow> d < k + S"
proof -
  define cur where "cur = virt + of_nat k"
  have uc: "unat cur = unat virt + k"
    unfolding cur_def using ok d by (intro unat_add_no_wrap) (simp add: region_ok_def)
  have "d < 2 ^ 48" using d ok by (simp add: region_ok_def)
  then have dk: "d - k < 2 ^ 48" by (rule less_imp_diff_less)
  have nw: "unat virt + d < 2 ^ 64" using ok d by (simp add: region_ok_def)
  then have 1: "unat cur + (d - k) < 2 ^ 64" and 2: "unat cur + 0 < 2 ^ 64" using d(1) by (simp_all add: uc)
  have al': "unat cur mod S = 0" using al by (simp only: uc)
  have vp: "vpn j (cur + of_nat (d - k)) = vpn j (cur + of_nat 0) \<longleftrightarrow> (d - k) div S = 0 div S"
    by (rule vpn_offset [OF j S al' 1 2 dk]) simp
  have eq: "cur + of_nat (d - k) = virt + of_nat d" using d(1) by (simp add: cur_def of_nat_diff)
  have "0 < S" by (simp add: S)
  then have "(d - k) div S = 0 \<longleftrightarrow> d < k + S" using d(1) by (auto simp: div_eq_0_iff)
  then show ?thesis using vp unfolding eq by (simp add: cur_def)
qed

lemma region_advance:
  assumes ok: "region_ok virt phys Z" and rd: "region_ready m pml4 virt k Z flags"
    and S: "j = 1 \<or> j = 2" "S = 2 ^ (12 + 9 * (j - 1))" "k + S \<le> Z" "(unat virt + k) mod S = 0"
    and rm: "remapped m pml4 j (virt + of_nat k) e c m1" "c \<le> 3"
  shows "region_ready m1 pml4 virt (k + S) Z flags"
proof -
  obtain s where s: "S = 4096 * s" "1 \<le> s"
    using S(1,2) by (cases "j = 1") (auto intro: that [of 1] that [of 512])
  have "Z - k = (Z - (k + S)) + s * 4096" using S(3) s by simp
  then have "(Z - k) div 4096 = (Z - (k + S)) div 4096 + s" by simp
  then have "3 * ((Z - (k + S)) div 4096) + 3 \<le> card (free_frames m)" using rd s(2) by (simp add: region_ready_def)
  moreover have "card (free_frames m) \<le> c + card (free_frames m1)" using rm(1) by (simp add: remapped_def)
  ultimately have "3 * ((Z - (k + S)) div 4096) \<le> card (free_frames m1)" using rm(2) by linarith
  moreover have "mapped_below m1 1 pml4 (virt + of_nat d)" if d: "k + S \<le> d" "d < Z" for d
  proof -
    have "vpn j (virt + of_nat d) \<noteq> vpn j (virt + of_nat k)"
      using region_inside [OF ok _ _ S(2,4), of d] S(1) d by auto
    moreover have "mapped_below m 1 pml4 (virt + of_nat d)" using rd d by (simp add: region_ready_def)
    ultimately show ?thesis using remapped_other(1) [OF rm(1)] by (simp add: mapped_below_def)
  qed
  moreover have "(k + S) mod 4096 = 0" using rd s(1) by (simp add: region_ready_def)
  moreover have "page_base (final_flags m1 flags) = 0"
    using rm(1) rd by (simp add: remapped_def region_ready_def final_flags_def)
  ultimately show ?thesis using S(3) rm(1) by (simp add: region_ready_def remapped_def)
qed

lemma region_compose:
  assumes ok: "region_ok virt phys Z" and k: "k mod 4096 = 0"
    and S: "j = 1 \<or> j = 2" "S = 2 ^ (12 + 9 * (j - 1))" "k + S \<le> Z" "(unat virt + k) mod S = 0"
    and rm: "remapped m pml4 j (virt + of_nat k) e c m1"
    and tr: "\<And>d. k \<le> d \<Longrightarrow> d < k + S \<Longrightarrow> vmm_virt_to_phys m1 pml4 (virt + of_nat d) = phys + of_nat d"
    and rest: "region_mapped m1 m' pml4 virt phys (k + S) Z"
  shows "region_mapped m m' pml4 virt phys k Z"
proof -
  have V: "unat virt mod 4096 = 0" "unat virt + Z < 2 ^ 64" "Z \<le> 2 ^ 48" using ok by (auto simp: region_ok_def)
  obtain q where q: "k + S = 4096 * q"
  proof (cases "j = 1")
    case True
    then show thesis using that [of "k div 4096 + 1"] k S(2) by auto
  next
    case False
    then show thesis using that [of "k div 4096 + 512"] k S(1,2) by auto
  qed
  have "walk m' 4 pml4 (virt + of_nat d) = walk m1 4 pml4 (virt + of_nat d)" if d: "d < k + S" for d
  proof -
    have "vpn 1 (virt + of_nat d) \<noteq> vpn 1 (virt + of_nat d')" if d': "k + S \<le> d'" "d' < Z" for d'
    proof -
      have "d div 4096 < q" using d q by (simp add: less_mult_imp_div_less mult.commute)
      moreover have "q \<le> d' div 4096" using d'(1) q by (simp add: less_eq_div_iff_mult_less_eq mult.commute)
      ultimately show ?thesis using vpn_offset [of 1 4096 virt d d'] V d d' S(3) by simp
    qed
    then show ?thesis using rest by (simp add: region_mapped_def)
  qed
  then have "vmm_virt_to_phys m' pml4 (virt + of_nat d) = phys + of_nat d" if "k \<le> d" "d < Z" for d
    using tr [of d] rest that by (cases "d < k + S") (simp_all add: region_mapped_def virt_to_phys_walk)
  moreover have "walk m' 4 pml4 w = walk m 4 pml4 w"
    if w: "\<And>d. k \<le> d \<Longrightarrow> d < Z \<Longrightarrow> vpn 1 w \<noteq> vpn 1 (virt + of_nat d)" for w
  proof -
    have "vpn j w \<noteq> vpn j (virt + of_nat k)"
    proof
      assume eq: "vpn j w = vpn j (virt + of_nat k)"
      have uk: "unat (virt + of_nat k) = unat virt + k" using V(2) S(3) by (intro unat_add_no_wrap) simp
      have "\<exists>d. d < S \<and> vpn 1 w = vpn 1 (virt + of_nat k + of_nat d)"
      proof (cases "j = 1")
        case True
        then show ?thesis using eq S(2) by (intro exI [of _ 0]) simp
      next
        case False
        then show ?thesis using vpn_inside [of "virt + of_nat k" w] eq S uk by auto
      qed
      then obtain d where "d < S" "vpn 1 w = vpn 1 (virt + of_nat (k + d))" by (auto simp: add.assoc)
      then show False using w [of "k + d"] S(3) by simp
    qed
    then have "walk m1 4 pml4 w = walk m 4 pml4 w" by (rule remapped_other(1) [OF rm])
    then show ?thesis using rest w by (simp add: region_mapped_def)
  qed
  ultimately show ?thesis using rest by (auto simp: region_mapped_def)
qed

lemma region_translate:
  assumes ok: "region_ok virt phys Z" and al: "(unat virt + k) mod 2 ^ n = 0" "(unat phys + k) mod 2 ^ n = 0"
    and d: "k \<le> d" "d < k + 2 ^ n" "k + 2 ^ n \<le> Z"
  shows "((phys + of_nat k) AND NOT (mask n)) + ((virt + of_nat d) AND mask n) = phys + of_nat d"
proof -
  have nw: "unat virt + d < 2 ^ 64" "unat phys + d < 2 ^ 64" using ok d by (auto simp: region_ok_def)
  define c p where "c = virt + of_nat k" and "p = phys + of_nat k"
  have u: "unat c = unat virt + k" "unat p = unat phys + k"
    unfolding c_def p_def using nw d(1) by (auto intro!: unat_add_no_wrap)
  have "p AND NOT (mask n) = p" using aligned_split(1) [of p n 0] al(2) u(2) nw(2) d(1) by simp
  moreover have "(c + of_nat (d - k)) AND mask n = of_nat (d - k)"
    using aligned_split(2) [of c n "d - k"] al(1) u(1) nw(1) d by simp
  moreover have "c + of_nat (d - k) = virt + of_nat d" "p + of_nat (d - k) = phys + of_nat d"
    using d(1) by (simp_all add: c_def p_def of_nat_diff)
  ultimately show ?thesis unfolding p_def by metis
qed

lemma region_next:
  assumes ok: "region_ok virt phys Z" and rd: "region_ready m pml4 virt k Z flags"
    and j: "j = 1 \<or> j = 2" "S = 2 ^ (12 + 9 * (j - 1))" "k + S \<le> Z" "(unat virt + k) mod S = 0" "(unat phys + k) mod S = 0"
    and rm: "remapped m pml4 j (virt + of_nat k) e c m1" "c \<le> 3"
    and tr: "\<And>w. vpn j w = vpn j (virt + of_nat k) \<Longrightarrow> vmm_virt_to_phys m1 pml4 w =
      ((phys + of_nat k) AND NOT (mask (12 + 9 * (j - 1)))) + (w AND mask (12 + 9 * (j - 1)))"
  shows "region_ready m1 pml4 virt (k + S) Z flags"
    "region_mapped m1 m' pml4 virt phys (k + S) Z \<Longrightarrow> region_mapped m m' pml4 virt phys k Z"
proof -
  show "region_ready m1 pml4 virt (k + S) Z flags" by (rule region_advance [OF ok rd j(1-4) rm])
  have k: "k mod 4096 = 0" using rd by (simp add: region_ready_def)
  have "vmm_virt_to_phys m1 pml4 (virt + of_nat d) = phys + of_nat d" if d: "k \<le> d" "d < k + S" for d
  proof -
    have "vpn j (virt + of_nat d) = vpn j (virt + of_nat k)"
      using region_inside [OF ok _ _ j(2,4) d(1)] d j(1,3) by auto
    then show ?thesis
      using tr region_translate [OF ok j(4,5) [unfolded j(2)] d(1) d(2) [unfolded j(2)] j(3) [unfolded j(2)]] by simp
  qed
  then show "region_mapped m1 m' pml4 virt phys (k + S) Z \<Longrightarrow> region_mapped m m' pml4 virt phys k Z"
    by (rule region_compose [OF ok k j(1-4) rm(1)])
qed

lemma region_readyD:
  assumes "region_ready m pml4 virt k Z flags" "k < Z"
  shows "mapped_below m 1 pml4 (virt + of_nat k)" "page_base (final_flags m flags) = 0"
    "s * 4096 \<le> Z - k \<Longrightarrow> 3 * s \<le> card (free_frames m)"
proof -
  show "mapped_below m 1 pml4 (virt + of_nat k)" "page_base (final_flags m flags) = 0"
    using assms by (auto simp: region_ready_def)
  assume "s * 4096 \<le> Z - k"
  then have "s \<le> (Z - k) div 4096" by (simp add: less_eq_div_iff_mult_less_eq)
  then show "3 * s \<le> card (free_frames m)" using assms(1) by (auto simp: region_ready_def intro: order_trans [rotated])
qed

lemma region_huge_step:
  assumes ok: "region_ok virt phys Z" and rd: "region_ready m pml4 virt k Z flags"
    and al: "(unat virt + k) mod 2 ^ 21 = 0" "(unat phys + k) mod 2 ^ 21 = 0" "k + 2 ^ 21 \<le> Z"
  shows "\<exists>m1. map_page_huge pml4 (virt + of_nat k) (phys + of_nat k) flags m = Some m1 \<and>
    region_ready m1 pml4 virt (k + 2 ^ 21) Z flags \<and>
    (\<forall>m'. region_mapped m1 m' pml4 virt phys (k + 2 ^ 21) Z \<longrightarrow> region_mapped m m' pml4 virt phys k Z)"
proof -
  have lt: "k < Z" using al(3) by simp
  note D = region_readyD [OF rd lt]
  obtain L where tb: "tables m pml4 L" using rd by (auto simp: region_ready_def)
  have "3 * 512 \<le> card (free_frames m)" by (rule D(3)) (use al(3) in simp)
  then have c: "2 \<le> card (free_frames m)" by simp
  have nb: "mapped_below m 2 pml4 (virt + of_nat k)" using D(1) by (rule mapped_below_mono) simp
  obtain m1 where m1: "map_page_huge pml4 (virt + of_nat k) (phys + of_nat k) flags m = Some m1"
    using map_pages_return(1) [OF tb nb c] by blast
  note rm = map_page_huge_spec [OF tb nb m1]
  note tr = remapped_huge [OF rm D(2)]
  show ?thesis
    using m1 region_next [OF ok rd, of 2 "2 ^ 21" _ 2 m1, OF _ _ al(3,1,2) rm] tr by simp
qed

lemma region_page_step:
  assumes ok: "region_ok virt phys Z" and rd: "region_ready m pml4 virt k Z flags" and lt: "k < Z"
  shows "\<exists>m1. map_page pml4 (virt + of_nat k) (phys + of_nat k) flags m = Some m1 \<and>
    region_ready m1 pml4 virt (k + 4096) Z flags \<and>
    (\<forall>m'. region_mapped m1 m' pml4 virt phys (k + 4096) Z \<longrightarrow> region_mapped m m' pml4 virt phys k Z)"
proof -
  note D = region_readyD [OF rd lt]
  obtain L where tb: "tables m pml4 L" using rd by (auto simp: region_ready_def)
  have dv: "4096 dvd Z" "4096 dvd k" "4096 dvd unat virt" "4096 dvd unat phys"
    using ok rd by (auto simp: region_ok_def region_ready_def)
  then have al: "k + 4096 \<le> Z" "(unat virt + k) mod 4096 = 0" "(unat phys + k) mod 4096 = 0"
    using lt by (auto elim!: dvdE)
  have "3 * 1 \<le> card (free_frames m)" by (rule D(3)) (use al(1) in simp)
  then have c: "3 \<le> card (free_frames m)" by simp
  obtain m1 where m1: "map_page pml4 (virt + of_nat k) (phys + of_nat k) flags m = Some m1"
    using map_pages_return(2) [OF tb D(1) c] by blast
  note rm = map_page_spec(1) [OF tb D(1) m1]
  note tr = remapped_page [OF rm D(2)]
  show ?thesis
    using m1 region_next [OF ok rd, of 1 4096 _ 3 m1, OF _ _ al rm] tr by (simp add: page_base_def page_off_def)
qed

lemma region_loop:
  assumes ok: "region_ok virt phys (unat sz)"
  shows "region_ready m pml4 virt k (unat sz) flags \<Longrightarrow>
    \<exists>m'. map_region_loop pml4 virt phys sz flags (of_nat k) m = Some m' \<and> region_mapped m m' pml4 virt phys k (unat sz)"
proof (induction "unat sz - k" arbitrary: k m rule: less_induct)
  case less
  note rd = less.prems
  obtain L where tb: "tables m pml4 L" using rd by (auto simp: region_ready_def)
  have "k \<le> unat sz" using rd by (simp add: region_ready_def)
  then have uo: "unat (of_nat k :: u64) = k" using unat_bound [of sz] by simp
  note unfold = map_region_loop.simps [of pml4 virt phys sz flags "of_nat k" m]
  show ?case
  proof (cases "k < unat sz")
    case False
    then have "\<not> (of_nat k :: u64) < sz" by (simp add: word_less_nat_alt uo)
    then show ?thesis using tb False unfold by (auto simp: region_mapped_def)
  next
    case True
    then have lt: "(of_nat k :: u64) < sz" by (simp add: word_less_nat_alt uo)
    have u: "unat (virt + of_nat k) = unat virt + k" "unat (phys + of_nat k) = unat phys + k" "unat (sz - of_nat k) = unat sz - k"
      using ok True lt uo by (auto simp: region_ok_def unat_sub word_le_nat_alt word_less_nat_alt intro!: unat_add_no_wrap)
    show ?thesis
    proof (cases "(virt + of_nat k) mod 0x200000 = 0 \<and> (phys + of_nat k) mod 0x200000 = 0 \<and> sz - of_nat k \<ge> 0x200000")
      case c: True
      then have al: "(unat virt + k) mod 2 ^ 21 = 0" "(unat phys + k) mod 2 ^ 21 = 0" "k + 2 ^ 21 \<le> unat sz"
        using u by (auto simp: word_unat_eq_iff unat_mod word_le_nat_alt)
      obtain m1 where m1: "map_page_huge pml4 (virt + of_nat k) (phys + of_nat k) flags m = Some m1"
          "region_ready m1 pml4 virt (k + 2 ^ 21) (unat sz) flags"
          "\<And>m'. region_mapped m1 m' pml4 virt phys (k + 2 ^ 21) (unat sz) \<Longrightarrow> region_mapped m m' pml4 virt phys k (unat sz)"
        using region_huge_step [OF ok rd al] by blast
      have "map_region_loop pml4 virt phys sz flags (of_nat k) m = map_region_loop pml4 virt phys sz flags (of_nat (k + 2 ^ 21)) m1"
        unfolding unfold Let_def if_P [OF lt] if_P [OF c] m1(1) by simp
      moreover have "unat sz - (k + 2 ^ 21) < unat sz - k" using True by (intro diff_less_mono2) simp_all
      ultimately show ?thesis using less.hyps [OF _ m1(2)] m1(3) by metis
    next
      case c: False
      obtain m1 where m1: "map_page pml4 (virt + of_nat k) (phys + of_nat k) flags m = Some m1"
          "region_ready m1 pml4 virt (k + 4096) (unat sz) flags"
          "\<And>m'. region_mapped m1 m' pml4 virt phys (k + 4096) (unat sz) \<Longrightarrow> region_mapped m m' pml4 virt phys k (unat sz)"
        using region_page_step [OF ok rd True] by blast
      have "map_region_loop pml4 virt phys sz flags (of_nat k) m = map_region_loop pml4 virt phys sz flags (of_nat (k + 4096)) m1"
        unfolding unfold Let_def if_P [OF lt] if_not_P [OF c] m1(1) by (simp add: PAGE_SIZE_def)
      moreover have "unat sz - (k + 4096) < unat sz - k" using True by (intro diff_less_mono2) simp_all
      ultimately show ?thesis using less.hyps [OF _ m1(2)] m1(3) by metis
    qed
  qed
qed

section \<open>A fresh address space\<close>

lemma fresh_root:
  assumes ok: "pmm_ok m" and hh: "page_aligned (hhdm_offset m)" and al: "palloc_zero m = Some (f, m1)"
  shows "tables m1 (f + hhdm_offset m) [f + hhdm_offset m \<mapsto> 4]" "walk m1 4 (f + hhdm_offset m) v = None"
proof -
  let ?r = "f + hhdm_offset m"
  note fr = palloc_zero_fresh [OF ok al]
  have "hhdm_offset m1 = hhdm_offset m" by (subst fr(2)) simp
  have mem: "pmem m1 x = (if in_block ?r 4096 x then 0 else pmem m x)" for x by (subst fr(2)) simp
  have z: "entry m1 ?r i = 0" if "i < 512" for i using that mem by (intro entry_zero) auto
  then show "walk m1 4 ?r v = None" by (intro walk_empty) simp
  have "page_aligned ?r" using fr(1) hh by (intro page_aligned_plus) (simp_all add: fresh_frame_def page_aligned_iff)
  moreover have "\<not> links m1 k ?r i" if "i < 512" for k i using z [OF that] by (simp add: links_def present_bit)
  ultimately show "tables m1 ?r [?r \<mapsto> 4]"
    using fr(1) hh \<open>hhdm_offset m1 = hhdm_offset m\<close> by (auto simp: tables_def fresh_frame_def split: if_splits)
qed

lemma boot_root:
  "\<exists>m f m1. init_pmm boot_memmap boot_machine = Some m \<and> palloc_zero m = Some (f, m1) \<and>
    tables m1 (f + hhdm_offset m) [f + hhdm_offset m \<mapsto> 4] \<and> (\<forall>v. walk m1 4 (f + hhdm_offset m) v = None) \<and>
    nx_supported m1 = nx_supported boot_machine \<and> hhdm_offset m1 = hhdm_offset m \<and> 255 \<le> card (free_frames m1) \<and>
    f + hhdm_offset m \<noteq> NULL"
proof -
  obtain m where m: "init_pmm boot_memmap boot_machine = Some m" "pmm_ok m" "256 \<le> card (free_frames m)"
      "hhdm_offset m = hhdm_offset boot_machine" "nx_supported m = nx_supported boot_machine"
      "\<And>x. free_byte m x \<Longrightarrow> in_block (0x105000 + hhdm_offset boot_machine) (2 ^ 20) x"
    using boot_frames by blast
  have hh: "page_aligned (hhdm_offset m)" using boot_hyps(2) m(4) by simp
  have "free_frames m \<noteq> {}" using m(3) by auto
  then obtain f m1 where al: "palloc_zero m = Some (f, m1)" using palloc_zero_returns [OF m(2)] by blast
  have "card (free_frames m1) = card (free_frames m) - 1"
    using palloc_zero_frames [OF m(2) al] by (simp add: card_Diff_singleton_if)
  moreover have "nx_supported m1 = nx_supported m" "hhdm_offset m1 = hhdm_offset m" by (subst palloc_zero_fresh(2) [OF m(2) al], simp)+
  moreover have "free_byte m (f + hhdm_offset m)"
    using palloc_zero_frames(1) [OF m(2) al] by (simp add: free_frames_def in_block_def)
  then have "f + hhdm_offset m \<noteq> NULL" using m(6) [of NULL] by (auto simp: in_block_def boot_machine_def)
  ultimately show ?thesis using m(1) m(3) m(5) al fresh_root [OF m(2) hh al] by auto
qed

section \<open>Properties\<close>

text \<open>
  C2: \<^verbatim>\<open>map_page\<close> on a well-formed address space, with at least three free frames, an address
  that no large page maps and flags that leave no bit above the low twelve, returns; afterwards \<^verbatim>\<open>vmm_virt_to_phys\<close> sends every address of that
  4 KiB page to the frame plus the offset in the page, the translation of every other page is
  what it was, and the tables are well-formed again.
\<close>

theorem map_page_translates:
  assumes "tables m pml4 L" "mapped_below m 1 pml4 virt" "3 \<le> card (free_frames m)"
    and "page_base (final_flags m flags) = 0"
  shows "\<exists>m'. map_page pml4 virt phys flags m = Some m' \<and> (\<exists>L'. tables m' pml4 L') \<and>
    (\<forall>w. vmm_virt_to_phys m' pml4 w =
       (if vpn 1 w = vpn 1 virt then page_base phys + page_off w else vmm_virt_to_phys m pml4 w))"
proof -
  obtain m' where m': "map_page pml4 virt phys flags m = Some m'" using map_pages_return(2) [OF assms(1-3)] by blast
  note rm = map_page_spec(1) [OF assms(1,2) m']
  then show ?thesis
    using m' remapped_page [OF rm assms(4)] remapped_other(2) [OF rm] by (auto simp: remapped_def)
qed

theorem map_page_translates_witness:
  "\<exists>(m :: machine) pml4 m'. map_page pml4 0x400123 0x7000 (PTE_USER OR PTE_WRITABLE) m = Some m' \<and>
    vmm_virt_to_phys m pml4 0x400FFF = 0 \<and> vmm_virt_to_phys m' pml4 0x400FFF = 0x7FFF \<and>
    vmm_virt_to_phys m' pml4 0x401000 = 0"
proof -
  obtain m pml4 where m: "tables (m :: machine) pml4 [pml4 \<mapsto> 4]" "\<And>v. walk m 4 pml4 v = None" "255 \<le> card (free_frames m)"
      "nx_supported m = nx_supported boot_machine"
    using boot_root by auto
  have nb: "mapped_below m 1 pml4 0x400123" "3 \<le> card (free_frames m)" using m(2,3) by (auto simp: mapped_below_def)
  have fl: "page_base (final_flags m (PTE_USER OR PTE_WRITABLE)) = 0"
    by (simp add: final_flags_def PTE_USER_def PTE_WRITABLE_def PTE_NX_def page_base_def mask_eq_exp_minus_1)
  have v: "vpn 1 0x400FFF = vpn 1 0x400123" "vpn 1 0x401000 \<noteq> vpn 1 0x400123"
    by (simp_all add: word_unat_eq_iff unat_vpn)
  have z: "vmm_virt_to_phys m pml4 w = 0" for w using m(2) by (simp add: virt_to_phys_walk)
  obtain m' where m': "map_page pml4 0x400123 0x7000 (PTE_USER OR PTE_WRITABLE) m = Some m'"
      "\<And>w. vmm_virt_to_phys m' pml4 w =
         (if vpn 1 w = vpn 1 0x400123 then page_base 0x7000 + page_off w else vmm_virt_to_phys m pml4 w)"
    using map_page_translates [where phys = "0x7000", OF m(1) nb fl] by blast
  have "vmm_virt_to_phys m' pml4 0x400FFF = 0x7FFF" "vmm_virt_to_phys m' pml4 0x401000 = 0"
    using v by (simp_all add: m'(2) z page_base_def page_off_def mask_eq_exp_minus_1)
  then show ?thesis using m'(1) z by blast
qed

text \<open>
  C17: \<^verbatim>\<open>unmap_page\<close> on an address of a well-formed address space that no large page maps removes
  exactly one 4 KiB page: its addresses translate to 0 afterwards and every other translation
  stays. On an address that a 2 MiB page maps, the function takes the data page for a page table:
  it writes a zero quadword into the first 4 KiB of the large page and, that memory not being a
  table, leaves every translation as it was.
\<close>

theorem unmap_page_unmaps:
  assumes "tables m pml4 L"
  shows "(mapped_below m 1 pml4 virt \<longrightarrow> tables (unmap_page pml4 virt m) pml4 L \<and>
      vmm_virt_to_phys (unmap_page pml4 virt m) pml4 w =
        (if vpn 1 w = vpn 1 virt then 0 else vmm_virt_to_phys m pml4 w)) \<and>
    (\<forall>e. walk m 4 pml4 virt = Some (2, e) \<longrightarrow>
      unmap_page pml4 virt m = set_entry (page_base e + hhdm_offset m) (PT_IDX virt) 0 m \<and>
      (L (page_base e + hhdm_offset m) = None \<longrightarrow>
        vmm_virt_to_phys (unmap_page pml4 virt m) pml4 w = vmm_virt_to_phys m pml4 w))"
  using unmap_page_spec [OF assms, of virt w] unmap_page_large(1) [of m pml4 virt] unmap_page_large(2) [OF _ assms, of virt _ w]
  by (auto simp: virt_to_phys_walk)

theorem unmap_page_unmaps_witness:
  "(\<exists>(m :: machine) pml4. vmm_virt_to_phys m pml4 0x400123 = 0x7123 \<and>
      vmm_virt_to_phys (unmap_page pml4 0x400000 m) pml4 0x400123 = 0) \<and>
   (\<exists>(m :: machine) pml4. vmm_virt_to_phys m pml4 0x401234 = 0x201234 \<and>
      entry (unmap_page pml4 0x401000 m) (0x200000 + hhdm_offset m) 1 = 0)"
proof -
  obtain m pml4 where m: "tables (m :: machine) pml4 [pml4 \<mapsto> 4]" "\<And>v. walk m 4 pml4 v = None" "255 \<le> card (free_frames m)"
    using boot_root by auto
  have nb: "mapped_below m k pml4 v" "3 \<le> card (free_frames m)" "2 \<le> card (free_frames m)" for k v
    using m(2,3) by (auto simp: mapped_below_def)
  have fl: "page_base (final_flags m 0) = 0" by (simp add: final_flags_def page_base_def)
  obtain m1 where m1: "map_page pml4 0x400000 0x7000 0 m = Some m1" using map_pages_return(2) [OF m(1) nb(1,2)] by blast
  note rm = map_page_spec(1) [OF m(1) nb(1) m1]
  obtain L1 where L1: "tables m1 pml4 L1" using rm by (auto simp: remapped_def)
  have v: "vpn 1 0x400123 = vpn 1 0x400000" by (simp add: word_unat_eq_iff unat_vpn)
  have "vmm_virt_to_phys m1 pml4 0x400123 = 0x7123"
    using remapped_page [OF rm fl v] by (simp add: page_base_def page_off_def mask_eq_exp_minus_1)
  moreover have "mapped_below m1 1 pml4 0x400000" using rm by (simp add: mapped_below_def remapped_def)
  then have "vmm_virt_to_phys (unmap_page pml4 0x400000 m1) pml4 0x400123 = 0"
    using unmap_page_unmaps [where virt = "0x400000" and w = "0x400123", OF L1] v by auto
  moreover obtain m2 where m2: "map_page_huge pml4 0x401000 0x200000 0 m = Some m2"
    using map_pages_return(1) [OF m(1) nb(1,3)] by blast
  note rm2 = map_page_huge_spec [OF m(1) nb(1) m2]
  obtain L2 where L2: "tables m2 pml4 L2" using rm2 by (auto simp: remapped_def)
  have v2: "vpn 2 0x401234 = vpn 2 0x401000" by (simp add: word_unat_eq_iff unat_vpn)
  have "vmm_virt_to_phys m2 pml4 0x401234 = 0x201234"
    using remapped_huge [OF rm2 fl v2] by (simp add: mask_eq_exp_minus_1)
  moreover have "walk m2 4 pml4 0x401000 = Some (2, huge_entry m 0x200000 0)" using rm2 by (simp add: remapped_def)
  then have "unmap_page pml4 0x401000 m2 = set_entry (page_base (huge_entry m 0x200000 0) + hhdm_offset m2) (PT_IDX 0x401000) 0 m2"
    using unmap_page_unmaps [where virt = "0x401000", OF L2] by blast
  moreover have "page_base (huge_entry m 0x200000 0) = 0x200000"
    by (simp add: huge_entry_def final_flags_def PTE_PRESENT_def PTE_HUGE_def page_base_def mask_eq_exp_minus_1)
  moreover have "PT_IDX 0x401000 = 1" by (simp add: PT_IDX_def)
  ultimately show ?thesis by (metis entry_set_same)
qed

text \<open>
  C18: \<^verbatim>\<open>vmm_map_region\<close> on a region of whole pages that does not wrap around, with frames for
  three tables per page left and no large page in the way, terminates and maps every byte of
  the region to the corresponding physical byte, whichever mixture of 2 MiB and 4 KiB pages
  the alignment of the two addresses makes it choose; translations outside the region stay.
\<close>

theorem vmm_map_region_correct:
  assumes "tables m pml4 L" "region_ok virt phys (unat sz)" "page_base (final_flags m flags) = 0"
    and "\<forall>d < unat sz. mapped_below m 1 pml4 (virt + of_nat d)"
    and "3 * (unat sz div 4096) \<le> card (free_frames m)"
  shows "\<exists>m'. vmm_map_region pml4 virt phys sz flags m = Some m' \<and> (\<exists>L'. tables m' pml4 L') \<and>
    (\<forall>d < unat sz. vmm_virt_to_phys m' pml4 (virt + of_nat d) = phys + of_nat d) \<and>
    (\<forall>w. (\<forall>d < unat sz. vpn 1 w \<noteq> vpn 1 (virt + of_nat d)) \<longrightarrow> vmm_virt_to_phys m' pml4 w = vmm_virt_to_phys m pml4 w)"
proof -
  have "region_ready m pml4 virt 0 (unat sz) flags" using assms by (auto simp: region_ready_def)
  from region_loop [OF assms(2) this] obtain m' where
    "vmm_map_region pml4 virt phys sz flags m = Some m'" "region_mapped m m' pml4 virt phys 0 (unat sz)"
    by (auto simp: vmm_map_region_def)
  then show ?thesis by (auto simp: region_mapped_def virt_to_phys_walk)
qed

theorem vmm_map_region_correct_witness:
  "\<exists>(m :: machine) pml4 m'. vmm_map_region pml4 0x1FF000 0x3FF000 0x2000 PTE_WRITABLE m = Some m' \<and>
    vmm_virt_to_phys m' pml4 0x1FF010 = 0x3FF010 \<and> vmm_virt_to_phys m' pml4 0x200FFF = 0x400FFF"
proof -
  obtain m pml4 where m: "tables (m :: machine) pml4 [pml4 \<mapsto> 4]" "\<And>v. walk m 4 pml4 v = None" "255 \<le> card (free_frames m)"
    using boot_root by auto
  have ok: "region_ok 0x1FF000 0x3FF000 (unat (0x2000 :: u64))" by (simp add: region_ok_def)
  have fl: "page_base (final_flags m PTE_WRITABLE) = 0"
    by (simp add: final_flags_def PTE_WRITABLE_def PTE_NX_def page_base_def mask_eq_exp_minus_1)
  obtain m' where m': "vmm_map_region pml4 0x1FF000 0x3FF000 0x2000 PTE_WRITABLE m = Some m'"
      "\<And>d. d < unat (0x2000 :: u64) \<Longrightarrow> vmm_virt_to_phys m' pml4 (0x1FF000 + of_nat d) = 0x3FF000 + of_nat d"
    using vmm_map_region_correct [OF m(1) ok fl] m(2,3) by (auto simp: mapped_below_def)
  show ?thesis using m'(1) m'(2) [of "0x10"] m'(2) [of "0x1FFF"] by (intro exI [of _ m] exI [of _ pml4] exI [of _ m']) simp
qed

text \<open>
  C19: When the processor supports the no-execute bit, \<^verbatim>\<open>map_page\<close> clears it: the entry written
  for a page requested as non-executable leaves the page executable. The bit is passed
  through only when the processor does not support it.
\<close>

theorem map_page_drops_nx:
  assumes "tables m pml4 L" "mapped_below m 1 pml4 virt" "map_page pml4 virt phys flags m = Some m'"
    and "flags AND PTE_NX \<noteq> 0" "phys AND PTE_NX = 0"
  shows "\<exists>e. walk m' 4 pml4 virt = Some (1, e) \<and> (e AND PTE_NX \<noteq> 0 \<longleftrightarrow> \<not> nx_supported m)"
proof -
  have nx: "e AND PTE_NX \<noteq> 0 \<longleftrightarrow> bit e 63" for e :: u64
    unfolding PTE_NX_def by (simp only: bit_iff_and_push_bit_not_eq_0)
  have "bit (page_entry m phys flags) 63 \<longleftrightarrow> \<not> nx_supported m"
    using assms(4,5) nx by (auto simp: page_entry_def final_flags_def bits bit_or_iff bit_and_iff bit_not_iff)
  then show ?thesis using map_page_spec(1) [OF assms(1-3)] nx by (simp add: remapped_def)
qed

theorem map_page_drops_nx_witness:
  "\<exists>(m :: machine) pml4 m' e. nx_supported m \<and> map_page pml4 0x600000 0x7000 (PTE_NX OR PTE_USER) m = Some m' \<and>
    walk m' 4 pml4 0x600000 = Some (1, e) \<and> e AND PTE_NX = 0"
proof -
  obtain m pml4 where m: "tables (m :: machine) pml4 [pml4 \<mapsto> 4]" "\<And>v. walk m 4 pml4 v = None" "255 \<le> card (free_frames m)"
      "nx_supported m = nx_supported boot_machine"
    using boot_root by auto
  have nb: "mapped_below m 1 pml4 0x600000" "3 \<le> card (free_frames m)" using m(2,3) by (auto simp: mapped_below_def)
  obtain m' where m': "map_page pml4 0x600000 0x7000 (PTE_NX OR PTE_USER) m = Some m'" using map_pages_return(2) [OF m(1) nb] by blast
  have "nx_supported m" using m(4) by (simp add: boot_machine_def)
  moreover have "(PTE_NX OR PTE_USER) AND PTE_NX \<noteq> 0" "(0x7000 :: u64) AND PTE_NX = 0" by (simp_all add: PTE_NX_def PTE_USER_def)
  ultimately show ?thesis using map_page_drops_nx [OF m(1) nb(1) m'] m' by blast
qed

end
