(* ===== verification/Vmm.thy ===== *)
theory Vmm
  imports Paging
begin

text \<open>
  Whole address spaces, from \<^verbatim>\<open>mm/vmm.c\<close>: the kernel's address space set up at boot, switching,
  the deep copy made by fork and the teardown made by exec.
\<close>

section \<open>Definitions\<close>

record vm_machine = machine +
  kernel_pml4 :: ptr
  cr3 :: u64

text \<open>A loop over the entries of a table whose body may stop the machine.\<close>

primrec each :: "('i \<Rightarrow> 's \<Rightarrow> 's option) \<Rightarrow> 'i list \<Rightarrow> 's \<Rightarrow> 's option" where
  "each body [] s = Some s"
| "each body (i # is) s = Option.bind (body i s) (each body is)"

definition vmm_switch :: "ptr \<Rightarrow> 'a vm_machine_scheme \<Rightarrow> 'a vm_machine_scheme" where
  "vmm_switch pml4_virt m = m\<lparr>cr3 := VIRT_TO_PHYS m pml4_virt\<rparr>"

definition vmm_get_kernel_pml4 :: "'a vm_machine_scheme \<Rightarrow> ptr" where
  "vmm_get_kernel_pml4 m = kernel_pml4 m"

text \<open>The addresses the linker and the boot processor provide.\<close>

record vmm_symbols =
  syscall_entry :: u64
  syscall_handler :: u64
  main_cpu_context :: u64
  kernel_stack :: u64

definition clone_higher_half :: "ptr \<Rightarrow> ptr \<Rightarrow> nat \<Rightarrow> 'a machine_scheme \<Rightarrow> 'a machine_scheme" where
  "clone_higher_half pml4 boot_pml4 i m =
     (if entry m boot_pml4 (of_nat i) \<noteq> 0 then set_entry pml4 (of_nat i) (entry m boot_pml4 (of_nat i)) m else m)"

definition init_vmm :: "vmm_symbols \<Rightarrow> limine_memmap_entry list \<Rightarrow> 'a vm_machine_scheme \<Rightarrow> 'a vm_machine_scheme option" where
  "init_vmm sy memmap m =
     Option.bind (palloc_zero m) (\<lambda>(f, m1).
     let pml4 = PHYS_TO_VIRT m1 f;
         boot_pml4 = PHYS_TO_VIRT m1 (cr3 m1);
         m2 = fold (clone_higher_half pml4 boot_pml4) [256..<512] (m1\<lparr>kernel_pml4 := pml4\<rparr>);
         entry_phys = vmm_virt_to_phys m2 boot_pml4 (syscall_entry sy);
         ctx_phys = vmm_virt_to_phys m2 boot_pml4 (main_cpu_context sy);
         handler_phys = vmm_virt_to_phys m2 boot_pml4 (syscall_handler sy);
         stack_phys = vmm_virt_to_phys m2 boot_pml4 (kernel_stack sy - 8)
     in
     Option.bind (map_page pml4 (PAGE_ALIGN_DOWN (kernel_stack sy - 8)) (PAGE_ALIGN_DOWN stack_phys)
       (PTE_PRESENT OR PTE_WRITABLE) m2) (\<lambda>m3.
     Option.bind (map_page pml4 (syscall_handler sy) handler_phys PTE_PRESENT m3) (\<lambda>m4.
     Option.bind (map_page pml4 (syscall_entry sy) entry_phys PTE_PRESENT m4) (\<lambda>m5.
     Option.bind (map_page pml4 (main_cpu_context sy) ctx_phys (PTE_PRESENT OR PTE_WRITABLE) m5) (\<lambda>m6.
     Option.bind (map_page pml4 (hhdm_offset m6) 0 (PTE_PRESENT OR PTE_WRITABLE) m6) (\<lambda>m7.
     Option.bind (each (\<lambda>e mm. vmm_map_region pml4 (me_base e + hhdm_offset mm) (me_base e) (PAGE_ALIGN_UP (me_length e))
       PTE_WRITABLE mm) memmap m7) (\<lambda>m8.
     Option.bind (vmm_map_region pml4 (0xfd000000 + hhdm_offset m8) 0xfd000000 0x03000000
       (PTE_WRITABLE OR PTE_CACHE_DISABLE) m8) (\<lambda>m9.
     Some (vmm_switch pml4 m9)))))))))"

subsection \<open>Copying the user half\<close>

definition clone_page :: "ptr \<Rightarrow> ptr \<Rightarrow> nat \<Rightarrow> 'a machine_scheme \<Rightarrow> 'a machine_scheme option" where
  "clone_page src_pt dst_pt l m =
     (if \<not> present (entry m src_pt (of_nat l)) then Some m
      else let src_phys = page_base (entry m src_pt (of_nat l)) in
      Option.bind (palloc_zero m) (\<lambda>(f, m1).
        let dst_page_virt = PHYS_TO_VIRT m1 f;
            m2 = m1\<lparr>pmem := memcpy (pmem m1) dst_page_virt (PHYS_TO_VIRT m1 src_phys) PAGE_SIZE\<rparr>
        in Some (set_entry dst_pt (of_nat l)
             (VIRT_TO_PHYS m2 dst_page_virt OR page_off (entry m2 src_pt (of_nat l))) m2)))"

text \<open>
  The three levels above do the same with tables: allocate a table, link it with the flags of
  the source entry, fill it. Large pages are skipped at the two levels that can have them.
\<close>

definition clone_table :: "(ptr \<Rightarrow> ptr \<Rightarrow> nat \<Rightarrow> 'a machine_scheme \<Rightarrow> 'a machine_scheme option) \<Rightarrow> bool \<Rightarrow>
    ptr \<Rightarrow> ptr \<Rightarrow> nat \<Rightarrow> 'a machine_scheme \<Rightarrow> 'a machine_scheme option" where
  "clone_table body skip_huge src dst i m =
     (if \<not> present (entry m src (of_nat i)) \<or> skip_huge \<and> huge (entry m src (of_nat i)) then Some m
      else let src' = PHYS_TO_VIRT m (page_base (entry m src (of_nat i))) in
      Option.bind (palloc_zero m) (\<lambda>(f, m1).
        let dst' = PHYS_TO_VIRT m1 f;
            m2 = set_entry dst (of_nat i) (VIRT_TO_PHYS m1 dst' OR page_off (entry m1 src (of_nat i))) m1
        in each (body src' dst') [0..<512] m2))"

definition clone_pd :: "ptr \<Rightarrow> ptr \<Rightarrow> nat \<Rightarrow> 'a machine_scheme \<Rightarrow> 'a machine_scheme option" where
  "clone_pd = clone_table clone_page True"

definition clone_pdpt :: "ptr \<Rightarrow> ptr \<Rightarrow> nat \<Rightarrow> 'a machine_scheme \<Rightarrow> 'a machine_scheme option" where
  "clone_pdpt = clone_table clone_pd True"

definition clone_pml4 :: "ptr \<Rightarrow> ptr \<Rightarrow> nat \<Rightarrow> 'a machine_scheme \<Rightarrow> 'a machine_scheme option" where
  "clone_pml4 = clone_table clone_pdpt False"

definition vmm_clone_pml4 :: "ptr \<Rightarrow> 'a machine_scheme \<Rightarrow> (ptr \<times> 'a machine_scheme) option" where
  "vmm_clone_pml4 src_pml4 m =
     Option.bind (palloc_zero m) (\<lambda>(f, m1).
       let dst_pml4 = PHYS_TO_VIRT m1 f in
       if dst_pml4 = NULL then Some (NULL, m1)
       else let m2 = fold (\<lambda>i mm. set_entry dst_pml4 (of_nat i) (entry mm src_pml4 (of_nat i)) mm) [256..<512] m1
       in map_option (Pair dst_pml4) (each (clone_pml4 src_pml4 dst_pml4) [0..<256] m2))"

subsection \<open>Tearing down the user half\<close>

definition free_page :: "ptr \<Rightarrow> nat \<Rightarrow> 'a machine_scheme \<Rightarrow> 'a machine_scheme option" where
  "free_page pt l m =
     (if \<not> present (entry m pt (of_nat l)) then Some m
      else map_option (set_entry pt (of_nat l) 0) (pfree (page_base (entry m pt (of_nat l))) m))"

definition free_table :: "(ptr \<Rightarrow> nat \<Rightarrow> 'a machine_scheme \<Rightarrow> 'a machine_scheme option) \<Rightarrow> bool \<Rightarrow>
    ptr \<Rightarrow> nat \<Rightarrow> 'a machine_scheme \<Rightarrow> 'a machine_scheme option" where
  "free_table body skip_huge t i m =
     (if \<not> present (entry m t (of_nat i)) \<or> skip_huge \<and> huge (entry m t (of_nat i)) then Some m
      else let phys = page_base (entry m t (of_nat i)) in
        Option.bind (each (body (PHYS_TO_VIRT m phys)) [0..<512] m) (\<lambda>m1.
          map_option (set_entry t (of_nat i) 0) (pfree phys m1)))"

definition free_pd :: "ptr \<Rightarrow> nat \<Rightarrow> 'a machine_scheme \<Rightarrow> 'a machine_scheme option" where
  "free_pd = free_table free_page True"

definition free_pdpt :: "ptr \<Rightarrow> nat \<Rightarrow> 'a machine_scheme \<Rightarrow> 'a machine_scheme option" where
  "free_pdpt = free_table free_pd True"

definition free_pml4 :: "ptr \<Rightarrow> nat \<Rightarrow> 'a machine_scheme \<Rightarrow> 'a machine_scheme option" where
  "free_pml4 = free_table free_pdpt False"

definition vmm_free_user_pages :: "ptr \<Rightarrow> 'a machine_scheme \<Rightarrow> 'a machine_scheme option" where
  "vmm_free_user_pages pml4 m = (if pml4 = NULL then Some m else each (free_pml4 pml4) [0..<256] m)"

section \<open>Loops over tables\<close>

lemma each_done:
  assumes step: "\<And>i s. i \<in> set is \<Longrightarrow> P s \<Longrightarrow> \<exists>s'. body i s = Some s' \<and> P s' \<and> R s s' \<and> Q i s'"
    and mono: "\<And>i s s'. R s s' \<Longrightarrow> Q i s \<Longrightarrow> Q i s'" and R: "reflp R" "transp R" and start: "P s"
  shows "\<exists>s'. each body is s = Some s' \<and> P s' \<and> R s s' \<and> (\<forall>i \<in> set is. Q i s')"
  using step start
proof (induction "is" arbitrary: s)
  case Nil
  then show ?case using R(1) by (simp add: reflpD)
next
  case (Cons i "is")
  obtain s1 where s1: "body i s = Some s1" "P s1" "R s s1" "Q i s1" using Cons.prems by fastforce
  obtain s' where s': "each body is s1 = Some s'" "P s'" "R s1 s'" "\<forall>i \<in> set is. Q i s'"
    using Cons.IH [OF _ s1(2)] Cons.prems(1) by fastforce
  then show ?case using s1 mono [OF s'(3)] transpD [OF R(2) s1(3) s'(3)] by auto
qed

section \<open>Tables below the user half\<close>

inductive user_table :: "'a machine_scheme \<Rightarrow> ptr \<Rightarrow> ptr \<Rightarrow> nat \<Rightarrow> bool" for m pml4 where
  top: "i < 256 \<Longrightarrow> links m 4 pml4 i \<Longrightarrow> user_table m pml4 (child m pml4 i) 3"
| down: "user_table m pml4 t k \<Longrightarrow> i < 512 \<Longrightarrow> links m k t i \<Longrightarrow> user_table m pml4 (child m t i) (k - 1)"

lemma user_table_level:
  assumes "tables m pml4 L" "user_table m pml4 t k"
  shows "L t = Some k \<and> k < 4"
  using assms(2)
proof induction
  case (top i)
  then have "i < 512" by (simp add: word_less_nat_alt)
  then show ?case using tablesD(8) [OF assms(1) tablesD(3) [OF assms(1)] _ top(2)] by simp
next
  case (down t k i)
  then show ?case using tablesD(8) [OF assms(1), of t k i] by auto
qed

text \<open>No kernel address is translated through a table of the user half.\<close>

lemma user_table_index:
  assumes tb: "tables m pml4 L"
  shows "user_table m pml4 t k \<Longrightarrow> table_at m k 4 pml4 w = Some t \<Longrightarrow> idx 4 w < 256"
proof (induction rule: user_table.induct)
  case (top i)
  have i: "i < 512" using top(1) by (simp add: word_less_nat_alt)
  obtain q where q: "table_at m 4 4 pml4 w = Some q" "links m 4 q (idx 4 w)" "child m q (idx 4 w) = child m pml4 i"
    using table_at_parent [OF top(3)] by (auto simp: numeral_eq_Suc)
  then have "q = pml4" using table_at_self [of m pml4 w] by simp
  then show ?case using tablesD(9) [OF tb tablesD(3) [OF tb] _ _ tablesD(3) [OF tb] i top(2)] q top(1) idx_less by metis
next
  case (down t k i)
  have L: "L t = Some k" "k < 4" using user_table_level [OF tb down(1)] by auto
  have k: "2 \<le> k" using down(3) by (simp add: links_def)
  have "k - 1 < 4" using L(2) by simp
  then obtain q where q: "table_at m k 4 pml4 w = Some q" "links m k q (idx k w)" "child m q (idx k w) = child m t i"
    using table_at_parent [OF down(5)] k by auto
  have "L q = Some k" by (rule table_at_level [OF tb tablesD(3) [OF tb] q(1)])
  then have "q = t" using tablesD(9) [OF tb _ idx_less q(2) L(1) down(2,3)] q(3) by blast
  then show ?case using down(4) q(1) by simp
qed

text \<open>The frames that hang off an entry: the page it maps, or the table and everything below it.\<close>

fun frames_below :: "'a machine_scheme \<Rightarrow> nat \<Rightarrow> ptr \<Rightarrow> u64 \<Rightarrow> u64 set" where
  "frames_below m 0 t i = {}"
| "frames_below m (Suc k) t i =
     (if links m (Suc k) t i
      then insert (page_base (entry m t i)) (\<Union>j \<in> {..<512}. frames_below m k (child m t i) (of_nat j))
      else if k = 0 \<and> present (entry m t i) then {page_base (entry m t i)} else {})"

text \<open>The frames of the user half: its tables of all three levels and its 4 KiB pages.\<close>

definition user_frames :: "'a machine_scheme \<Rightarrow> ptr \<Rightarrow> u64 set" where
  "user_frames m pml4 = (\<Union>i \<in> {..<256}. frames_below m 4 pml4 (of_nat i))"

lemma frames_below_child:
  assumes "links m k t i" "(j :: u64) < 512"
  shows "frames_below m (k - 1) (child m t i) j \<subseteq> frames_below m k t i"
proof -
  obtain n where k: "k = Suc n" using assms(1) by (cases k) (auto simp: links_def)
  have "unat j \<in> {..<512}" using assms(2) by (simp add: word_less_nat_alt)
  then have "frames_below m n (child m t i) (of_nat (unat j)) \<subseteq> (\<Union>j \<in> {..<512}. frames_below m n (child m t i) (of_nat j))" by blast
  then show ?thesis using assms(1) by (auto simp: k)
qed

lemma root_frames:
  assumes "(i :: u64) < 256"
  shows "frames_below m 4 pml4 i \<subseteq> user_frames m pml4"
proof -
  have "unat i \<in> {..<256}" using assms by (simp add: word_less_nat_alt)
  then have "frames_below m 4 pml4 (of_nat (unat i)) \<subseteq> user_frames m pml4" unfolding user_frames_def by blast
  then show ?thesis by simp
qed

lemma user_table_frames: "user_table m pml4 t k \<Longrightarrow> i < 512 \<Longrightarrow> frames_below m k t i \<subseteq> user_frames m pml4"
proof (induction arbitrary: i rule: user_table.induct)
  case (top j)
  show ?case using frames_below_child [OF top(2,3)] root_frames [OF top(1)] by simp blast
next
  case (down t k j)
  show ?case using frames_below_child [OF down(3,5)] down.IH [OF down(2)] by blast
qed

definition released :: "'a machine_scheme \<Rightarrow> 'a machine_scheme \<Rightarrow> u64 \<Rightarrow> bool" where
  "released m s f \<longleftrightarrow> (frame_allocated m f \<longrightarrow> (\<forall>x. frame_bytes m f x \<longrightarrow> free_byte s x))"

text \<open>
  The states the teardown passes through: every entry is what it was, or it belongs to the
  user half, is erased, and all allocated frames that hung off it are free. Memory that was
  free stays free, and a frame that was allocated is still allocated, or it is a frame of the
  user half and has become free.
\<close>

definition erased :: "'a machine_scheme \<Rightarrow> ptr \<Rightarrow> (ptr \<rightharpoonup> nat) \<Rightarrow> 'a machine_scheme \<Rightarrow> bool" where
  "erased m pml4 L s \<longleftrightarrow> pmm_ok s \<and> hhdm_offset s = hhdm_offset m \<and>
     (\<forall>t k i. L t = Some k \<and> i < 512 \<longrightarrow> entry s t i = entry m t i \<or>
        entry s t i = 0 \<and> (user_table m pml4 t k \<or> t = pml4 \<and> i < 256) \<and> (\<forall>f \<in> frames_below m k t i. released m s f)) \<and>
     (\<forall>f. frame_allocated m f \<longrightarrow> frame_allocated s f \<or> f \<in> user_frames m pml4 \<and> released m s f)"

lemma erased_entry:
  assumes "erased m pml4 L s" "L t = Some k" "i < 512"
  shows "entry s t i = entry m t i \<or> \<not> present (entry s t i)"
proof -
  have "entry s t i = entry m t i \<or> entry s t i = 0" using assms unfolding erased_def by blast
  then show ?thesis by (auto simp: present_bit)
qed

definition erases :: "(ptr \<rightharpoonup> nat) \<Rightarrow> 'a machine_scheme \<Rightarrow> 'a machine_scheme \<Rightarrow> bool" where
  "erases L s s' \<longleftrightarrow> (\<forall>t k i. L t = Some k \<and> i < 512 \<longrightarrow> entry s' t i = entry s t i \<or> entry s' t i = 0)"

lemma erases_preorder: "reflp (erases L)" "transp (erases L)"
  unfolding erases_def by (auto intro!: reflpI transpI) metis+

lemma erases_absent:
  assumes "erases L s s'" "L t = Some k" "i < 512" "\<not> present (entry s t i)"
  shows "\<not> present (entry s' t i)"
proof -
  have "entry s' t i = entry s t i \<or> entry s' t i = 0" using assms unfolding erases_def by blast
  then show ?thesis using assms(4) by (auto simp: present_bit)
qed

text \<open>Giving back a frame and erasing the entry that held it.\<close>

lemma erase_step:
  assumes tb: "tables m pml4 L" and er: "erased m pml4 L s"
    and t: "L t = Some k" "i < 512" "user_table m pml4 t k \<or> t = pml4 \<and> i < 256"
    and below: "\<forall>g \<in> frames_below m k t i. g = f \<or> released m s g" and f: "f \<in> frames_below m k t i"
  shows "\<exists>s1. pfree f s = Some s1 \<and> erased m pml4 L (set_entry t i 0 s1) \<and> erases L s (set_entry t i 0 s1)"
proof -
  have ok: "pmm_ok s" and hh: "hhdm_offset s = hhdm_offset m" using er by (auto simp: erased_def)
  obtain s1 where s1: "pfree f s = Some s1" "s1 = s\<lparr>pmm_buddy := pmm_buddy s1\<rparr>" "pmm_ok s1"
      "\<And>x. free_byte s x \<Longrightarrow> free_byte s1 x" "\<And>g. frame_allocated s g \<Longrightarrow> g \<noteq> f \<Longrightarrow> frame_allocated s1 g"
      "\<And>x. frame_allocated s f \<Longrightarrow> frame_bytes s f x \<Longrightarrow> free_byte s1 x"
    by (rule pfree_total [OF ok, of f]) blast
  have sel: "pmem s1 = pmem s" "hhdm_offset s1 = hhdm_offset s" by (subst s1(2), simp)+
  have ent1: "entry s1 t' i' = entry s t' i'" for t' i' by (simp add: entry_def sel)
  let ?s = "set_entry t i 0 s1"
  have other: "entry ?s t' i' = entry s t' i'" if "L t' = Some k'" "i' < 512" "(t', i') \<noteq> (t, i)" for t' k' and i' :: u64
  proof -
    have "entry ?s t' i' = entry s1 t' i'" by (rule entry_set_other) (use that t tablesD(4) [OF tb] in auto)
    then show ?thesis by (simp add: ent1)
  qed
  have rel: "released m ?s g" if "released m s g" for g using that s1(4) by (simp add: released_def)
  have self: "released m ?s f"
    using er s1(4,6) hh by (auto simp: erased_def released_def)
  have "entry ?s t' i' = entry m t' i' \<or> entry ?s t' i' = 0 \<and> (user_table m pml4 t' k' \<or> t' = pml4 \<and> i' < 256) \<and>
      (\<forall>f \<in> frames_below m k' t' i'. released m ?s f)"
    if "L t' = Some k'" "i' < 512" for t' k' and i' :: u64
  proof (cases "(t', i') = (t, i)")
    case True
    then show ?thesis using t that below rel self by auto
  next
    case False
    then show ?thesis using other [OF that False] er that rel unfolding erased_def by metis
  qed
  moreover have "f \<in> user_frames m pml4"
  proof (cases "user_table m pml4 t k")
    case True
    then show ?thesis using user_table_frames [OF True t(2)] f by blast
  next
    case False
    then have "t = pml4" "i < 256" "k = 4" using t tablesD(3) [OF tb] by auto
    then show ?thesis using root_frames [of i m pml4] f by auto
  qed
  then have "frame_allocated ?s g \<or> g \<in> user_frames m pml4 \<and> released m ?s g" if "frame_allocated m g" for g
  proof (cases "g = f")
    case False
    have "frame_allocated ?s g = frame_allocated s1 g" by (simp add: frame_allocated_def)
    then show ?thesis using er that rel s1(5) [OF _ False] by (auto simp: erased_def)
  qed (use self in simp)
  ultimately have "erased m pml4 L ?s" unfolding erased_def using s1(3) sel hh by auto
  moreover have "erases L s ?s" unfolding erases_def using other t by fastforce
  ultimately show ?thesis using s1(1) by blast
qed

definition clears :: "'a machine_scheme \<Rightarrow> ptr \<Rightarrow> (ptr \<rightharpoonup> nat) \<Rightarrow> nat \<Rightarrow>
    (ptr \<Rightarrow> nat \<Rightarrow> 'a machine_scheme \<Rightarrow> 'a machine_scheme option) \<Rightarrow> bool" where
  "clears m pml4 L k body \<longleftrightarrow> (\<forall>t i s. L t = Some k \<and> i < 512 \<and> erased m pml4 L s \<and>
     (user_table m pml4 t k \<or> t = pml4 \<and> i < 256) \<longrightarrow>
     (\<exists>s'. body t i s = Some s' \<and> erased m pml4 L s' \<and> erases L s s' \<and>
        (k = 1 \<or> links m k t (of_nat i) \<longrightarrow> \<not> present (entry s' t (of_nat i)))))"

lemma idx_of_nat: "i < 512 \<Longrightarrow> (of_nat i :: u64) < 512" "i < 256 \<Longrightarrow> (of_nat i :: u64) < 256"
  by (simp_all add: word_less_nat_alt)

lemma free_page_clears:
  assumes tb: "tables m pml4 L"
  shows "clears m pml4 L 1 free_page"
  unfolding clears_def
proof (intro allI impI; elim conjE)
  fix t s and i :: nat assume a: "L t = Some 1" "i < 512" "erased m pml4 L s" "user_table m pml4 t 1 \<or> t = pml4 \<and> i < 256"
  note i = idx_of_nat(1) [OF a(2)]
  have u: "user_table m pml4 t 1 \<or> t = pml4 \<and> (of_nat i :: u64) < 256" using a(4) idx_of_nat(2) by blast
  show "\<exists>s'. free_page t i s = Some s' \<and> erased m pml4 L s' \<and> erases L s s' \<and>
      (1 = (1::nat) \<or> links m 1 t (of_nat i) \<longrightarrow> \<not> present (entry s' t (of_nat i)))"
  proof (cases "present (entry s t (of_nat i))")
    case False
    then show ?thesis using a(3) reflpD [OF erases_preorder(1)] by (simp add: free_page_def)
  next
    case True
    then have "entry s t (of_nat i) = entry m t (of_nat i)" using erased_entry [OF a(3,1) i] by blast
    then have "\<forall>g \<in> frames_below m 1 t (of_nat i). g = page_base (entry s t (of_nat i)) \<or> released m s g"
      by (simp add: links_def)
    moreover have "page_base (entry s t (of_nat i)) \<in> frames_below m 1 t (of_nat i)"
      using True \<open>entry s t (of_nat i) = entry m t (of_nat i)\<close> by (simp add: links_def)
    ultimately show ?thesis using erase_step [OF tb a(3,1) i u, of "page_base (entry s t (of_nat i))"] True by (auto simp: free_page_def present_bit)
  qed
qed

lemma free_table_clears:
  assumes tb: "tables m pml4 L" and body: "clears m pml4 L k body" and k: "1 \<le> k" and huge: "skip_huge \<longleftrightarrow> Suc k \<noteq> 4"
  shows "clears m pml4 L (Suc k) (free_table body skip_huge)"
  unfolding clears_def
proof (intro allI impI; elim conjE)
  fix t s and i :: nat assume a: "L t = Some (Suc k)" "i < 512" "erased m pml4 L s" "user_table m pml4 t (Suc k) \<or> t = pml4 \<and> i < 256"
  let ?i = "of_nat i :: u64"
  note i = idx_of_nat(1) [OF a(2)]
  have u: "user_table m pml4 t (Suc k) \<or> t = pml4 \<and> ?i < 256" using a(4) idx_of_nat(2) by blast
  have hh: "hhdm_offset s = hhdm_offset m" using a(3) by (simp add: erased_def)
  show "\<exists>s'. free_table body skip_huge t i s = Some s' \<and> erased m pml4 L s' \<and> erases L s s' \<and>
      (Suc k = 1 \<or> links m (Suc k) t ?i \<longrightarrow> \<not> present (entry s' t ?i))"
  proof (cases "links s (Suc k) t ?i")
    case False
    then have skip: "\<not> present (entry s t ?i) \<or> skip_huge \<and> huge (entry s t ?i)" using k huge by (auto simp: links_def)
    then have "\<not> present (entry s t ?i)" if "links m (Suc k) t ?i"
      using that erased_entry [OF a(3,1) i] False by (auto simp: links_def)
    then show ?thesis using skip a(3) reflpD [OF erases_preorder(1)] k by (auto simp: free_table_def)
  next
    case True
    then have eq: "entry s t ?i = entry m t ?i" using erased_entry [OF a(3,1) i] links_present by blast
    then have lm: "links m (Suc k) t ?i" and ch: "child s t ?i = child m t ?i"
      using True hh by (simp_all add: links_def child_def)
    have Lc: "L (child m t ?i) = Some k" using tablesD(8) [OF tb a(1) i lm] by simp
    have uc: "user_table m pml4 (child m t ?i) k"
      using u user_table.down [of m pml4 t "Suc k" ?i] user_table.top [of ?i m pml4] lm i a(1) tablesD(3) [OF tb] by auto
    let ?Q = "\<lambda>j s'. k = 1 \<or> links m k (child m t ?i) (of_nat j) \<longrightarrow> \<not> present (entry s' (child m t ?i) (of_nat j))"
    have "\<exists>s1. each (body (child m t ?i)) [0..<512] s = Some s1 \<and> erased m pml4 L s1 \<and> erases L s s1 \<and> (\<forall>j \<in> set [0..<512]. j < 512 \<longrightarrow> ?Q j s1)"
    proof (rule each_done [where R = "erases L" and P = "erased m pml4 L" and Q = "\<lambda>j s'. j < 512 \<longrightarrow> ?Q j s'", OF _ _ erases_preorder a(3)])
      show "\<exists>s''. body (child m t ?i) j s' = Some s'' \<and> erased m pml4 L s'' \<and> erases L s' s'' \<and> (j < 512 \<longrightarrow> ?Q j s'')"
        if "j \<in> set [0..<512]" "erased m pml4 L s'" for j s'
        using body that Lc uc unfolding clears_def by auto
      show "j < 512 \<longrightarrow> ?Q j s''" if "erases L s' s''" "j < 512 \<longrightarrow> ?Q j s'" for j s' s''
        using that erases_absent [OF that(1) Lc idx_of_nat(1)] by blast
    qed
    then obtain s1 where s1: "each (body (child m t ?i)) [0..<512] s = Some s1" "erased m pml4 L s1" "erases L s s1"
        "\<And>j. j < 512 \<Longrightarrow> ?Q j s1" by auto
    have "\<forall>g \<in> frames_below m (Suc k) t ?i. g = page_base (entry s t ?i) \<or> released m s1 g"
    proof
      fix g assume "g \<in> frames_below m (Suc k) t ?i"
      then consider "g = page_base (entry m t ?i)" | j where "j < 512" "g \<in> frames_below m k (child m t ?i) (of_nat j)"
        using lm by auto
      then show "g = page_base (entry s t ?i) \<or> released m s1 g"
      proof cases
        case 2
        then have pm: "present (entry m (child m t ?i) (of_nat j)) \<and> (k = 1 \<or> links m k (child m t ?i) (of_nat j))"
          using k by (cases k) (auto split: if_splits dest: links_present)
        then have "\<not> present (entry s1 (child m t ?i) (of_nat j))" using s1(4) [OF 2(1)] by blast
        then show ?thesis using s1(2) Lc idx_of_nat(1) [OF 2(1)] 2(2) pm unfolding erased_def by metis
      qed (simp add: eq)
    qed
    moreover have "page_base (entry s t ?i) \<in> frames_below m (Suc k) t ?i" using lm by (simp add: eq)
    ultimately obtain s2 where
      "pfree (page_base (entry s t ?i)) s1 = Some s2" "erased m pml4 L (set_entry t ?i 0 s2)" "erases L s1 (set_entry t ?i 0 s2)"
      using erase_step [OF tb s1(2) a(1) i u, of "page_base (entry s t ?i)"] by blast
    moreover have "free_table body skip_huge t i s =
        Option.bind (each (body (child m t ?i)) [0..<512] s) (\<lambda>m1. map_option (set_entry t ?i 0) (pfree (page_base (entry s t ?i)) m1))"
      using True huge ch by (auto simp: free_table_def links_def PHYS_TO_VIRT_def child_def Let_def)
    ultimately show ?thesis
      using s1(1,3) transpD [OF erases_preorder(2)] by (auto simp: present_bit)
  qed
qed

lemma leaf_frame_below: "walk m k t v = Some (1, e) \<Longrightarrow> page_base e \<in> frames_below m k t (idx k v)"
proof (induction k arbitrary: t)
  case (Suc k)
  show ?case
  proof (cases "links m (Suc k) t (idx (Suc k) v)")
    case True
    then have "walk m k (child m t (idx (Suc k) v)) v = Some (1, e)" using Suc.prems by (simp split: if_splits)
    then have "page_base e \<in> frames_below m k (child m t (idx (Suc k) v)) (of_nat (unat (idx k v)))" using Suc.IH by simp
    moreover have "unat (idx k v) < 512" using idx_less [of k v] by (simp add: word_less_nat_alt)
    ultimately have "page_base e \<in> (\<Union>j \<in> {..<512}. frames_below m k (child m t (idx (Suc k) v)) (of_nat j))" by blast
    then show ?thesis using True by simp
  qed (use Suc.prems in \<open>auto split: if_splits\<close>)
qed simp

lemma walk_agree:
  assumes hh: "hhdm_offset s = hhdm_offset m"
    and agree: "\<And>j p. table_at m j 4 pml4 w = Some p \<Longrightarrow> entry s p (idx j w) = entry m p (idx j w)"
  shows "table_at m k 4 pml4 w = Some t \<Longrightarrow> walk s k t w = walk m k t w"
proof (induction k arbitrary: t)
  case (Suc k)
  note e = agree [OF Suc.prems]
  then have "links s (Suc k) t (idx (Suc k) w) = links m (Suc k) t (idx (Suc k) w)"
    "child s t (idx (Suc k) w) = child m t (idx (Suc k) w)" using hh by (simp_all add: links_def child_def)
  then show ?case using Suc.IH table_at_extend [OF Suc.prems] e by simp
qed simp

lemma free_pml4_clears:
  assumes tb: "tables m pml4 L"
  shows "clears m pml4 L 4 free_pml4"
proof -
  have 2: "clears m pml4 L 2 free_pd"
    unfolding free_pd_def using free_table_clears [OF tb free_page_clears [OF tb], of True] by (simp add: numeral_2_eq_2)
  have 3: "clears m pml4 L 3 free_pdpt"
    unfolding free_pdpt_def using free_table_clears [OF tb 2, of True] by (simp add: numeral_3_eq_3)
  show ?thesis unfolding free_pml4_def using free_table_clears [OF tb 3, of False] by (simp add: numeral_eq_Suc)
qed

lemma user_pages_freed:
  assumes tb: "tables m pml4 L" and nz: "pml4 \<noteq> NULL"
  obtains s where "vmm_free_user_pages pml4 m = Some s" "erased m pml4 L s"
    "\<And>i. i < 256 \<Longrightarrow> \<not> present (entry s pml4 i)"
proof -
  note root = tablesD(3) [OF tb]
  have start: "erased m pml4 L m" using tablesD(1) [OF tb] by (simp add: erased_def)
  let ?Q = "\<lambda>i s'. i < 256 \<longrightarrow> \<not> present (entry s' pml4 (of_nat i))"
  have "\<exists>s. each (free_pml4 pml4) [0..<256] m = Some s \<and> erased m pml4 L s \<and> erases L m s \<and> (\<forall>i \<in> set [0..<256]. ?Q i s)"
  proof (rule each_done [where R = "erases L" and P = "erased m pml4 L" and Q = ?Q, OF _ _ erases_preorder start])
    fix i s assume i: "i \<in> set [0..<256]" and er: "erased m pml4 L s"
    then have "i < 512" "i < 256" by auto
    then obtain s' where s': "free_pml4 pml4 i s = Some s'" "erased m pml4 L s'" "erases L s s'"
        "links m 4 pml4 (of_nat i) \<longrightarrow> \<not> present (entry s' pml4 (of_nat i))"
      using free_pml4_clears [OF tb] root er unfolding clears_def by blast
    have i64: "(of_nat i :: u64) < 512" using i by (intro idx_of_nat(1)) simp
    have "\<not> present (entry s' pml4 (of_nat i))"
      using s'(4) erased_entry [OF s'(2) root i64] by (auto simp: links_def)
    then show "\<exists>s'. free_pml4 pml4 i s = Some s' \<and> erased m pml4 L s' \<and> erases L s s' \<and> ?Q i s'" using s' by blast
  next
    show "?Q i s''" if "erases L s' s''" "?Q i s'" for i s' s''
      using that erases_absent [OF that(1) root idx_of_nat(1)] by simp
  qed
  then obtain s where s: "vmm_free_user_pages pml4 m = Some s" "erased m pml4 L s" "\<And>i. i < 256 \<Longrightarrow> ?Q i s"
    using nz by (auto simp: vmm_free_user_pages_def)
  have "\<not> present (entry s pml4 i)" if "i < 256" for i
    using s(3) [of "unat i"] that by (simp add: word_less_nat_alt)
  then show thesis using that s by blast
qed

section \<open>The copy of an address space\<close>

lemma each_copied:
  assumes step: "\<And>i s s'. i \<in> set is \<Longrightarrow> P s \<Longrightarrow> Z i s \<Longrightarrow> body i s = Some s' \<Longrightarrow>
      P s' \<and> Q i s' \<and> (\<forall>j \<in> set is. j \<noteq> i \<longrightarrow> (Q j s \<longrightarrow> Q j s') \<and> (Z j s \<longrightarrow> Z j s'))"
    and dist: "distinct is" and start: "P s" "\<forall>i \<in> set is. Z i s" and got: "each body is s = Some s'"
  shows "P s' \<and> (\<forall>i \<in> set is. Q i s')"
proof -
  have "set xs \<subseteq> set is \<Longrightarrow> distinct xs \<Longrightarrow> P s \<Longrightarrow> \<forall>i \<in> set xs. Z i s \<Longrightarrow> \<forall>i \<in> set is - set xs. Q i s \<Longrightarrow>
      each body xs s = Some s' \<Longrightarrow> P s' \<and> (\<forall>i \<in> set is. Q i s')" for xs s
  proof (induction xs arbitrary: s)
    case (Cons i xs)
    obtain s1 where s1: "body i s = Some s1" "each body xs s1 = Some s'" using Cons.prems(6) by (auto simp: bind_eq_Some_conv)
    have i: "i \<in> set is" "i \<notin> set xs" "Z i s" using Cons.prems(1,2,4) by auto
    note st = step [OF i(1) Cons.prems(3) i(3) s1(1)]
    have "\<forall>j \<in> set xs. Z j s1" using st Cons.prems(1,4) i(2) by auto
    moreover have "\<forall>j \<in> set is - set xs. Q j s1" using st Cons.prems(5) by auto
    ultimately show ?case using Cons.IH [OF _ _ _ _ _ s1(2)] Cons.prems(1,2) st by auto
  qed simp
  then show ?thesis using dist start got by blast
qed

text \<open>
  \<open>e'\<close> is a copy of entry \<open>i\<close> of the level-\<open>k\<close> table \<open>t\<close> of \<open>m\<close>: it carries the same flags and
  leads to a copied table, or to a page with the same contents. All frames of the copy lie in
  the set \<open>D\<close> and are allocated in \<open>s\<close>.
\<close>

fun copied :: "'a machine_scheme \<Rightarrow> 'a machine_scheme \<Rightarrow> (u64 \<Rightarrow> bool) \<Rightarrow> nat \<Rightarrow> ptr \<Rightarrow> u64 \<Rightarrow> u64 \<Rightarrow> bool" where
  "copied m s D 0 t i e' \<longleftrightarrow> False"
| "copied m s D (Suc k) t i e' \<longleftrightarrow>
     (if links m (Suc k) t i \<or> k = 0 \<and> present (entry m t i)
      then page_off e' = page_off (entry m t i) \<and> (\<forall>x. frame_bytes m (page_base e') x \<longrightarrow> D x \<and> \<not> free_byte s x) \<and>
        (if k = 0 then \<forall>d < 4096. pmem s (page_base e' + hhdm_offset m + of_nat d) =
             pmem m (page_base (entry m t i) + hhdm_offset m + of_nat d)
         else \<forall>j < 512. copied m s D k (child m t i) (of_nat j) (entry s (page_base e' + hhdm_offset m) (of_nat j)))
      else e' = 0)"

lemma copied_mono:
  assumes D: "\<And>x. D x \<Longrightarrow> D' x" and mem: "\<And>x. D x \<Longrightarrow> \<not> free_byte s x \<Longrightarrow> pmem s' x = pmem s x \<and> \<not> free_byte s' x"
  shows "copied m s D k t i e' \<Longrightarrow> copied m s' D' k t i e'"
proof (induction k arbitrary: t i e')
  case (Suc k)
  show ?case
  proof (cases "links m (Suc k) t i \<or> k = 0 \<and> present (entry m t i)")
    case True
    have fr: "D x \<and> \<not> free_byte s x" if "frame_bytes m (page_base e') x" for x using Suc.prems True that by simp
    have m': "pmem s' (page_base e' + hhdm_offset m + of_nat o') = pmem s (page_base e' + hhdm_offset m + of_nat o')"
      if "o' < 4096" for o' using mem fr in_block_offset [OF that, of "page_base e' + hhdm_offset m"] by simp
    have "entry s' (page_base e' + hhdm_offset m) (of_nat j) = entry s (page_base e' + hhdm_offset m) (of_nat j)"
      if "j < 512" for j
    proof (rule entry_cong)
      fix x assume "in_block (page_base e' + hhdm_offset m + 8 * of_nat j) 8 x"
      then have "frame_bytes m (page_base e') x" using in_entry(2) idx_of_nat(1) [OF that] by blast
      then show "pmem s' x = pmem s x" using mem fr by blast
    qed
    then show ?thesis using Suc True m' fr mem D by auto
  qed (use Suc.prems in auto)
qed simp

definition page_copy :: "'a machine_scheme \<Rightarrow> 'a machine_scheme \<Rightarrow> (u64 \<Rightarrow> bool) \<Rightarrow> u64 \<Rightarrow> u64 \<Rightarrow> bool" where
  "page_copy m s D e e' \<longleftrightarrow> page_off e' = page_off e \<and> (\<forall>x. frame_bytes m (page_base e') x \<longrightarrow> D x) \<and>
     (\<forall>d < 4096. pmem s (page_base e' + hhdm_offset m + of_nat d) = pmem m (page_base e + hhdm_offset m + of_nat d))"

lemma copied_page:
  assumes "copied m s D (Suc 0) t i e'" "present (entry m t i)"
  shows "page_copy m s D (entry m t i) e'"
proof -
  have "page_off e' = page_off (entry m t i)" "\<forall>x. frame_bytes m (page_base e') x \<longrightarrow> D x"
    using assms by simp_all
  moreover have "\<forall>d < 4096. pmem s (page_base e' + hhdm_offset m + of_nat d) =
      pmem m (page_base (entry m t i) + hhdm_offset m + of_nat d)"
    using assms by (simp only: copied.simps if_True simp_thms) blast
  ultimately show ?thesis unfolding page_copy_def by blast
qed

lemma same_flags:
  assumes "page_off e' = page_off e"
  shows "present e' = present e" "huge e' = huge e"
proof -
  have "bit (page_off e') n = bit (page_off e) n" for n using assms by simp
  from this [of 0] this [of 7] show "present e' = present e" "huge e' = huge e" by (simp_all add: bits)
qed

lemma copied_walk:
  assumes hh: "hhdm_offset s = hhdm_offset m"
  shows "copied m s D k t (idx k v) (entry s t' (idx k v)) \<Longrightarrow>
    (\<forall>e. walk m k t v = Some (1, e) \<longrightarrow> (\<exists>e'. walk s k t' v = Some (1, e') \<and> page_copy m s D e e')) \<and>
    ((\<forall>e. walk m k t v \<noteq> Some (1, e)) \<longrightarrow> walk s k t' v = None)"
proof (induction k arbitrary: t t')
  case (Suc k)
  let ?i = "idx (Suc k) v" and ?e' = "entry s t' (idx (Suc k) v)"
  show ?case
  proof (cases "links m (Suc k) t ?i")
    case True
    then have k: "k \<noteq> 0" by (simp add: links_def)
    then have c: "page_off ?e' = page_off (entry m t ?i)" using Suc.prems True by simp
    have ls: "links s (Suc k) t' ?i" using same_flags [OF c] True by (simp add: links_def)
    have ch: "child s t' ?i = page_base ?e' + hhdm_offset m" by (simp add: child_def hh)
    have "\<forall>j < 512. copied m s D k (child m t ?i) (of_nat j) (entry s (page_base ?e' + hhdm_offset m) (of_nat j))"
      using Suc.prems True k by simp
    moreover have "unat (idx k v) < 512" using idx_less [of k v] by (simp add: word_less_nat_alt)
    ultimately have "copied m s D k (child m t ?i) (of_nat (unat (idx k v))) (entry s (page_base ?e' + hhdm_offset m) (of_nat (unat (idx k v))))"
      by blast
    then have "copied m s D k (child m t ?i) (idx k v) (entry s (child s t' ?i) (idx k v))" using ch by simp
    from Suc.IH [OF this] show ?thesis using True ls links_present [OF True] links_present [OF ls] by simp
  next
    case nl: False
    show ?thesis
    proof (cases "k = 0 \<and> present (entry m t ?i)")
      case True
      then have k: "k = 0" and p: "present (entry m t ?i)" by auto
      have c: "page_copy m s D (entry m t ?i) ?e'" by (rule copied_page) (use Suc.prems k p in \<open>simp_all only:\<close>)
      then have "page_off ?e' = page_off (entry m t ?i)" by (simp add: page_copy_def)
      then have "present ?e'" using p same_flags(1) by metis
      then have "walk s (Suc k) t' v = Some (1, ?e')" using k by (simp add: links_def)
      moreover have "walk m (Suc k) t v = Some (1, entry m t ?i)" using k p by (simp add: links_def)
      ultimately show ?thesis using c by simp
    next
      case False
      then have "?e' = 0" using Suc.prems nl by simp
      then have "walk s (Suc k) t' v = None" by (simp add: present_bit)
      moreover have "walk m (Suc k) t v \<noteq> Some (1, e)" for e using False nl by auto
      ultimately show ?thesis by blast
    qed
  qed
qed simp

text \<open>
  While the copy is made, nothing outside memory that was free at the start changes.
\<close>

definition copying :: "'a machine_scheme \<Rightarrow> 'a machine_scheme \<Rightarrow> bool" where
  "copying m s \<longleftrightarrow> pmm_ok s \<and> hhdm_offset s = hhdm_offset m \<and> (\<forall>x. free_byte s x \<longrightarrow> free_byte m x) \<and>
     (\<forall>x. \<not> free_byte m x \<longrightarrow> pmem s x = pmem m x)"

definition dst_table :: "'a machine_scheme \<Rightarrow> 'a machine_scheme \<Rightarrow> ptr \<Rightarrow> bool" where
  "dst_table m s t \<longleftrightarrow> page_aligned t \<and> (\<forall>x. in_block t 4096 x \<longrightarrow> free_byte m x \<and> \<not> free_byte s x)"

definition copies :: "'a machine_scheme \<Rightarrow> ptr \<Rightarrow> (ptr \<rightharpoonup> nat) \<Rightarrow> nat \<Rightarrow>
    (ptr \<Rightarrow> ptr \<Rightarrow> nat \<Rightarrow> 'a machine_scheme \<Rightarrow> 'a machine_scheme option) \<Rightarrow> bool" where
  "copies m pml4 L k body \<longleftrightarrow> (\<forall>t t' i s s'. L t = Some k \<and> i < 512 \<and> (user_table m pml4 t k \<or> t = pml4 \<and> i < 256) \<and>
     copying m s \<and> dst_table m s t' \<and> entry s t' (of_nat i) = 0 \<and> body t t' i s = Some s' \<longrightarrow>
     copying m s' \<and> (\<forall>x. free_byte s' x \<longrightarrow> free_byte s x) \<and>
     (\<forall>x. \<not> free_byte s x \<and> \<not> in_block (t' + 8 * of_nat i) 8 x \<longrightarrow> pmem s' x = pmem s x) \<and>
     copied m s' (free_byte s) k t (of_nat i) (entry s' t' (of_nat i)))"

lemma copying_entry:
  assumes "tables m pml4 L" "copying m s" "L t = Some k" "i < 512"
  shows "entry s t i = entry m t i"
proof (rule entry_cong)
  fix x assume "in_block (t + 8 * i) 8 x"
  then have "\<not> free_byte m x" using in_entry(2) [OF _ assms(4)] tablesD(7) [OF assms(1,3)] by blast
  then show "pmem s x = pmem m x" using assms(2) by (simp add: copying_def)
qed

lemma wr_entry: "\<not> in_block (t + 8 * i) 8 x \<Longrightarrow> pmem (set_entry t i v s) x = pmem s x"
  by (simp add: set_entry_def acc64.wr_outside)

text \<open>Allocating a frame for the copy and linking it into the destination table.\<close>

lemma copy_alloc:
  assumes tb: "tables m pml4 L" and c: "copying m s" and d: "dst_table m s t'" and i: "i < 512"
    and al: "palloc_zero s = Some (f, m1)"
    and mem: "\<forall>x. \<not> frame_bytes m f x \<longrightarrow> pmem m2 x = pmem m1 x" and m2: "pmm_buddy m2 = pmm_buddy m1" "hhdm_offset m2 = hhdm_offset m1"
    and e: "page_base e = f"
  defines "s' \<equiv> set_entry t' i e m2"
  shows "copying m s'" "free_byte s' x \<longleftrightarrow> free_byte s x \<and> \<not> frame_bytes m f x" "frame_bytes m f x \<Longrightarrow> free_byte s x"
    "\<not> free_byte s x \<Longrightarrow> \<not> in_block (t' + 8 * i) 8 x \<Longrightarrow> pmem s' x = pmem s x"
    "frame_bytes m f x \<Longrightarrow> pmem s' x = pmem m2 x" "entry s' t' i = e" "page_aligned f"
    "frame_bytes m f x \<Longrightarrow> pmem m1 x = 0"
proof -
  have ok: "pmm_ok s" and hh: "hhdm_offset s = hhdm_offset m" using c by (auto simp: copying_def)
  note fr = palloc_zero_fresh [OF ok al]
  have h1: "hhdm_offset m1 = hhdm_offset s" by (subst fr(2)) simp
  have p1: "pmem m1 x = (if frame_bytes m f x then 0 else pmem s x)" for x by (subst fr(2)) (simp add: hh)
  then show "frame_bytes m f x \<Longrightarrow> pmem m1 x = 0" by simp
  have ff: "free_byte s x" if "frame_bytes m f x" for x using fr(1) that hh by (simp add: fresh_frame_def)
  then show "frame_bytes m f x \<Longrightarrow> free_byte s x" .
  have fb: "free_byte s' x \<longleftrightarrow> free_byte s x \<and> \<not> frame_bytes m f x" for x
    using fr(1) hh free_byte_cong [OF m2(1)] by (simp add: s'_def fresh_frame_def)
  then show "free_byte s' x \<longleftrightarrow> free_byte s x \<and> \<not> frame_bytes m f x" .
  have outside: "pmem s' x = pmem s x" if "\<not> frame_bytes m f x" "\<not> in_block (t' + 8 * i) 8 x" for x
    using that mem p1 by (simp add: s'_def wr_entry)
  show "\<not> free_byte s x \<Longrightarrow> \<not> in_block (t' + 8 * i) 8 x \<Longrightarrow> pmem s' x = pmem s x" using outside ff by blast
  have dt: "free_byte m x \<and> \<not> free_byte s x" if "in_block (t' + 8 * i) 8 x" for x
    using d in_entry(2) [OF that i] by (simp add: dst_table_def)
  then show "frame_bytes m f x \<Longrightarrow> pmem s' x = pmem m2 x" using ff by (auto simp: s'_def intro: wr_entry)
  show "entry s' t' i = e" by (simp add: s'_def)
  show "page_aligned f" using fr(1) by (simp add: fresh_frame_def page_aligned_iff)
  have sub: "free_byte m x" if "free_byte s x" for x using c that by (simp add: copying_def)
  have "pmem s' x = pmem m x" if "\<not> free_byte m x" for x
  proof -
    have "\<not> frame_bytes m f x" "\<not> in_block (t' + 8 * i) 8 x" using ff sub dt that by blast+
    then show ?thesis using outside that c by (simp add: copying_def)
  qed
  moreover have "pmm_ok s'" using fr(1) pmm_ok_cong [OF m2] by (simp add: s'_def fresh_frame_def)
  moreover have "hhdm_offset s' = hhdm_offset m" using m2(2) h1 hh by (simp add: s'_def)
  ultimately show "copying m s'" using fb sub unfolding copying_def by blast
qed

lemma distinct_pages:
  assumes "page_aligned a" "page_aligned b" "a \<noteq> b"
  shows "disjoint_blocks a 4096 b 4096"
proof -
  have "4096 \<le> unat (x - y)" if "page_aligned x" "page_aligned y" "x \<noteq> y" for x y :: u64
  proof (rule ccontr)
    assume "\<not> 4096 \<le> unat (x - y)"
    then have "in_block y 4096 x" by (simp add: in_block_def)
    then show False using that by (simp add: in_page_iff)
  qed
  then show ?thesis using assms by (simp add: disjoint_blocks_def)
qed

lemma entry_copy_bits:
  assumes "page_aligned f"
  shows "page_base (f OR page_off e) = f" "page_off (f OR page_off e) = page_off e"
  using assms unfolding page_aligned_bit
  by (auto simp: bits bit_or_iff not_less intro!: bit_word_eqI)

text \<open>The frames mapped into the user half are not owned by the page allocator.\<close>

definition pages_in_use :: "'a machine_scheme \<Rightarrow> ptr \<Rightarrow> bool" where
  "pages_in_use m pml4 \<longleftrightarrow> (\<forall>t i x. user_table m pml4 t 1 \<and> i < 512 \<and> present (entry m t i) \<and>
     frame_bytes m (page_base (entry m t i)) x \<longrightarrow> \<not> free_byte m x)"

lemma clone_page_copies:
  assumes tb: "tables m pml4 L"
    and pages: "pages_in_use m pml4"
  shows "copies m pml4 L 1 clone_page"
  unfolding copies_def
proof (intro allI impI; elim conjE)
  fix t t' s s' and i :: nat
  assume t: "L t = Some 1" "i < 512" "user_table m pml4 t 1 \<or> t = pml4 \<and> i < 256" and c: "copying m s"
    and d: "dst_table m s t'" and z: "entry s t' (of_nat i) = 0" and run: "clone_page t t' i s = Some s'"
  let ?i = "of_nat i :: u64" and ?e = "entry m t (of_nat i)"
  note i = idx_of_nat(1) [OF t(2)]
  note es = copying_entry [OF tb c t(1) i]
  have ut: "user_table m pml4 t 1" using t(1,3) tablesD(3) [OF tb] by auto
  show "copying m s' \<and> (\<forall>x. free_byte s' x \<longrightarrow> free_byte s x) \<and>
      (\<forall>x. \<not> free_byte s x \<and> \<not> in_block (t' + 8 * ?i) 8 x \<longrightarrow> pmem s' x = pmem s x) \<and>
      copied m s' (free_byte s) 1 t ?i (entry s' t' ?i)"
  proof (cases "present ?e")
    case False
    then have "s' = s" using run es by (simp add: clone_page_def)
    then show ?thesis using c z False by (simp add: links_def)
  next
    case True
    obtain f m1 where al: "palloc_zero s = Some (f, m1)" using run es True by (auto simp: clone_page_def Let_def bind_eq_Some_conv)
    have hh: "hhdm_offset s = hhdm_offset m" and ok: "pmm_ok s" using c by (auto simp: copying_def)
    have h1: "hhdm_offset m1 = hhdm_offset m" by (subst palloc_zero_fresh(2) [OF ok al]) (simp add: hh)
    let ?d = "f + hhdm_offset m" and ?s = "page_base ?e + hhdm_offset m"
    define m2 where "m2 = m1\<lparr>pmem := memcpy (pmem m1) ?d ?s PAGE_SIZE\<rparr>"
    have s': "s' = set_entry t' ?i (f OR page_off (entry m2 t ?i)) m2"
      using run es True al h1 by (simp add: clone_page_def Let_def PHYS_TO_VIRT_def VIRT_TO_PHYS_def m2_def)
    have fa: "page_aligned f" using palloc_zero_fresh(1) [OF ok al] by (simp add: fresh_frame_def page_aligned_iff)
    have ffree: "free_byte m x" if "in_block ?d 4096 x" for x
      using palloc_zero_fresh(1) [OF ok al] that hh c by (simp add: fresh_frame_def copying_def)
    have sfree: "\<not> free_byte m x" if "in_block ?s 4096 x" for x using pages ut i True that unfolding pages_in_use_def by blast
    have "?s \<noteq> ?d" using ffree [of ?d] sfree [of ?d] by (auto simp: in_block_def)
    then have "disjoint_blocks ?s 4096 ?d 4096"
      using fa tablesD(2) [OF tb] by (intro distinct_pages page_aligned_plus) simp_all
    then have cp: "pmem m2 = snapshot_copy (pmem m1) ?d ?s 4096"
      using memcpy_disjoint [of ?s PAGE_SIZE ?d] by (simp add: m2_def PAGE_SIZE_def)
    have out: "pmem m2 x = pmem m1 x" if "\<not> frame_bytes m f x" for x using that by (simp add: cp snapshot_copy_outside)
    have keep: "pmem m2 x = pmem m x" if "\<not> free_byte m x" for x
    proof -
      have "\<not> frame_bytes m f x" using ffree that by blast
      moreover then have "pmem m1 x = pmem s x" by (subst palloc_zero_fresh(2) [OF ok al]) (simp add: hh)
      ultimately show ?thesis using out that c by (simp add: copying_def)
    qed
    have e2: "entry m2 t ?i = ?e"
    proof (rule entry_cong)
      fix x assume "in_block (t + 8 * ?i) 8 x"
      then show "pmem m2 x = pmem m x" using keep tablesD(7) [OF tb t(1)] in_entry(2) [OF _ i] by blast
    qed
    have m2s: "pmm_buddy m2 = pmm_buddy m1" "hhdm_offset m2 = hhdm_offset m1" by (simp_all add: m2_def)
    have out': "\<forall>x. \<not> frame_bytes m f x \<longrightarrow> pmem m2 x = pmem m1 x" using out by blast
    note A = copy_alloc [OF tb c d i al out' m2s entry_copy_bits(1) [OF fa, of ?e]]
    have s'': "s' = set_entry t' ?i (f OR page_off ?e) m2" using s' e2 by simp
    have page: "pmem s' (?d + of_nat j) = pmem m (?s + of_nat j)" if "j < 4096" for j
    proof -
      have "in_block ?d 4096 (?d + of_nat j)" "in_block ?s 4096 (?s + of_nat j)" by (rule in_block_offset [OF that]; simp)+
      moreover then have "pmem m2 (?d + of_nat j) = pmem m1 (?s + of_nat j)" by (simp add: cp snapshot_copy_def)
      moreover have "pmem m1 (?s + of_nat j) = pmem m2 (?s + of_nat j)" using calculation out ffree sfree by metis
      ultimately show ?thesis using A(5) keep sfree unfolding s'' by metis
    qed
    have "copied m s' (free_byte s) 1 t ?i (entry s' t' ?i)"
      using True A(2,3,6) page entry_copy_bits [OF fa, of ?e] unfolding s'' by simp
    then show ?thesis using A(1,2,4) unfolding s'' by blast
  qed
qed

lemma entry_blocks_disjoint:
  assumes "in_block (t + 8 * of_nat j) 8 x" "in_block (t + 8 * of_nat l) 8 x" "j < 512" "l < 512"
  shows "j = l"
  using in_entry(1) [OF assms(1) idx_of_nat(1) [OF assms(3)]] in_entry(1) [OF assms(2) idx_of_nat(1) [OF assms(4)]] assms(3,4)
  by simp

text \<open>Filling a fresh table from a source table, entry by entry.\<close>

lemma copy_entries:
  fixes m :: "'a machine_scheme"
  assumes body: "copies m pml4 L k body" and t: "L t = Some k" "user_table m pml4 t k \<or> t = pml4 \<and> n \<le> 256" and n: "n \<le> 512"
    and c: "copying m s2" and d: "dst_table m s2 t'" and z: "\<forall>j < n. entry s2 t' (of_nat j) = 0"
    and run: "each (body t t') [0..<n] s2 = Some s'"
  shows "copying m s'" "free_byte s' x \<Longrightarrow> free_byte s2 x"
    "\<not> free_byte s2 x \<Longrightarrow> (\<And>j. j < n \<Longrightarrow> \<not> in_block (t' + 8 * of_nat j) 8 x) \<Longrightarrow> pmem s' x = pmem s2 x"
    "j < n \<Longrightarrow> copied m s' (free_byte s2) k t (of_nat j) (entry s' t' (of_nat j))"
proof -
  define P where "P s \<longleftrightarrow> copying m s \<and> (\<forall>x. free_byte s x \<longrightarrow> free_byte s2 x) \<and>
    (\<forall>x. \<not> free_byte s2 x \<and> (\<forall>j < n. \<not> in_block (t' + 8 * of_nat j) 8 x) \<longrightarrow> pmem s x = pmem s2 x)" for s
  define Q where "Q j s \<longleftrightarrow> copied m s (free_byte s2) k t (of_nat j) (entry s t' (of_nat j))" for j and s :: "'a machine_scheme"
  define Z where "Z j s \<longleftrightarrow> entry s t' (of_nat j) = 0" for j and s :: "'a machine_scheme"
  have "P s' \<and> (\<forall>j \<in> set [0..<n]. Q j s')"
  proof (rule each_copied [where Z = Z, OF _ _ _ _ run])
    fix j s s1 assume j: "j \<in> set [0..<n]" and p: "P s" and zj: "Z j s" and b: "body t t' j s = Some s1"
    have j': "j < n" "j < 512" "user_table m pml4 t k \<or> t = pml4 \<and> j < 256" using j n t(2) by auto
    have ds: "dst_table m s t'" using d p by (auto simp: dst_table_def P_def)
    have B: "copying m s1" "\<forall>x. free_byte s1 x \<longrightarrow> free_byte s x"
      "\<forall>x. \<not> free_byte s x \<and> \<not> in_block (t' + 8 * of_nat j) 8 x \<longrightarrow> pmem s1 x = pmem s x"
      "copied m s1 (free_byte s) k t (of_nat j) (entry s1 t' (of_nat j))"
      using body t(1) j'(2,3) p ds zj b unfolding copies_def P_def Z_def by blast+
    have inj: "in_block t' 4096 x" if "in_block (t' + 8 * of_nat j) 8 x" for x using in_entry(2) [OF that idx_of_nat(1) [OF j'(2)]] .
    have "P s1" using p B(1-3) j'(1) unfolding P_def by metis
    moreover have "Q j s1" unfolding Q_def by (rule copied_mono [OF _ _ B(4)]) (use p in \<open>auto simp: P_def\<close>)
    moreover have "(Q l s \<longrightarrow> Q l s1) \<and> (Z l s \<longrightarrow> Z l s1)" if l: "l < 512" "l \<noteq> j" for l
    proof -
      have e: "entry s1 t' (of_nat l) = entry s t' (of_nat l)"
      proof (rule entry_cong)
        fix x assume x: "in_block (t' + 8 * of_nat l) 8 x"
        then have "\<not> in_block (t' + 8 * of_nat j) 8 x" using entry_blocks_disjoint [OF x] l j'(2) by blast
        moreover have "\<not> free_byte s x" using ds in_entry(2) [OF x idx_of_nat(1) [OF l(1)]] by (simp add: dst_table_def)
        ultimately show "pmem s1 x = pmem s x" using B(3) by blast
      qed
      have "pmem s1 x = pmem s x \<and> \<not> free_byte s1 x" if "free_byte s2 x" "\<not> free_byte s x" for x
        using that B(2,3) inj d unfolding dst_table_def by blast
      then show ?thesis using e copied_mono [of "free_byte s2" "free_byte s2" s s1 m k t] unfolding Q_def Z_def by auto
    qed
    ultimately show "P s1 \<and> Q j s1 \<and> (\<forall>l \<in> set [0..<n]. l \<noteq> j \<longrightarrow> (Q l s \<longrightarrow> Q l s1) \<and> (Z l s \<longrightarrow> Z l s1))" using n by auto
  qed (use c z in \<open>auto simp: P_def Z_def\<close>)
  then show "copying m s'" "free_byte s' x \<Longrightarrow> free_byte s2 x"
    "\<not> free_byte s2 x \<Longrightarrow> (\<And>j. j < n \<Longrightarrow> \<not> in_block (t' + 8 * of_nat j) 8 x) \<Longrightarrow> pmem s' x = pmem s2 x"
    "j < n \<Longrightarrow> copied m s' (free_byte s2) k t (of_nat j) (entry s' t' (of_nat j))"
    unfolding P_def Q_def by auto
qed

text \<open>The state once a destination table has been allocated and linked.\<close>

lemma copy_table_start:
  assumes tb: "tables m pml4 L" and t: "L t = Some (Suc k)" "i < 512" and c: "copying m s" and d: "dst_table m s t'"
    and al: "palloc_zero s = Some (f, m1)"
  defines "s2 \<equiv> set_entry t' (of_nat i) (f OR page_off (entry m t (of_nat i))) m1"
  shows "copying m s2" "dst_table m s2 (f + hhdm_offset m)" "\<forall>j < 512. entry s2 (f + hhdm_offset m) (of_nat j) = 0"
    "hhdm_offset m1 = hhdm_offset m" "entry m1 t (of_nat i) = entry m t (of_nat i)"
    "free_byte s2 x \<longleftrightarrow> free_byte s x \<and> \<not> frame_bytes m f x" "frame_bytes m f x \<Longrightarrow> free_byte s x"
    "entry s2 t' (of_nat i) = f OR page_off (entry m t (of_nat i))" "page_aligned f"
    "\<not> free_byte s x \<Longrightarrow> \<not> in_block (t' + 8 * of_nat i) 8 x \<Longrightarrow> pmem s2 x = pmem s x"
proof -
  let ?i = "of_nat i :: u64"
  note i = idx_of_nat(1) [OF t(2)]
  have hh: "hhdm_offset s = hhdm_offset m" and ok: "pmm_ok s" using c by (auto simp: copying_def)
  show "hhdm_offset m1 = hhdm_offset m" by (subst palloc_zero_fresh(2) [OF ok al]) (simp add: hh)
  have fa: "page_aligned f" using palloc_zero_fresh(1) [OF ok al] by (simp add: fresh_frame_def page_aligned_iff)
  have ffree: "free_byte s x" if "frame_bytes m f x" for x
    using palloc_zero_fresh(1) [OF ok al] that hh by (simp add: fresh_frame_def)
  have out: "\<forall>x. \<not> frame_bytes m f x \<longrightarrow> pmem m1 x = pmem m1 x" by simp
  note A = copy_alloc [OF tb c d i al out refl refl entry_copy_bits(1) [OF fa, of "entry m t ?i"], folded s2_def]
  show "copying m s2" "free_byte s2 x \<longleftrightarrow> free_byte s x \<and> \<not> frame_bytes m f x" "frame_bytes m f x \<Longrightarrow> free_byte s x"
    "entry s2 t' ?i = f OR page_off (entry m t ?i)" "page_aligned f"
    "\<not> free_byte s x \<Longrightarrow> \<not> in_block (t' + 8 * ?i) 8 x \<Longrightarrow> pmem s2 x = pmem s x"
    using A(1-4,6,7) by simp_all
  show "dst_table m s2 (f + hhdm_offset m)"
    using fa tablesD(2) [OF tb] A(2) ffree c by (auto simp: dst_table_def copying_def intro: page_aligned_plus)
  show "\<forall>j < 512. entry s2 (f + hhdm_offset m) (of_nat j) = 0"
    using A(5,8) idx_of_nat(1) by (auto intro!: entry_zero)
  show "entry m1 t ?i = entry m t ?i"
  proof (rule entry_cong)
    fix x assume "in_block (t + 8 * ?i) 8 x"
    then have nf: "\<not> free_byte m x" using tablesD(7) [OF tb t(1)] in_entry(2) [OF _ i] by blast
    then have "\<not> frame_bytes m f x" using ffree c by (auto simp: copying_def)
    then have "pmem m1 x = pmem s x" by (subst palloc_zero_fresh(2) [OF ok al]) (simp add: hh)
    then show "pmem m1 x = pmem m x" using c nf by (simp add: copying_def)
  qed
qed

lemma clone_table_copies:
  assumes tb: "tables m pml4 L" and body: "copies m pml4 L k body" and k: "1 \<le> k" and hg: "skip_huge \<longleftrightarrow> Suc k \<noteq> 4"
  shows "copies m pml4 L (Suc k) (clone_table body skip_huge)"
  unfolding copies_def
proof (intro allI impI; elim conjE)
  fix t t' s s' and i :: nat
  assume t: "L t = Some (Suc k)" "i < 512" "user_table m pml4 t (Suc k) \<or> t = pml4 \<and> i < 256" and c: "copying m s"
    and d: "dst_table m s t'" and z: "entry s t' (of_nat i) = 0" and run: "clone_table body skip_huge t t' i s = Some s'"
  let ?i = "of_nat i :: u64" and ?e = "entry m t (of_nat i)"
  note i = idx_of_nat(1) [OF t(2)]
  note es = copying_entry [OF tb c t(1) i]
  show "copying m s' \<and> (\<forall>x. free_byte s' x \<longrightarrow> free_byte s x) \<and>
      (\<forall>x. \<not> free_byte s x \<and> \<not> in_block (t' + 8 * ?i) 8 x \<longrightarrow> pmem s' x = pmem s x) \<and>
      copied m s' (free_byte s) (Suc k) t ?i (entry s' t' ?i)"
  proof (cases "links m (Suc k) t ?i")
    case False
    then have "s' = s" using run es k hg by (auto simp: clone_table_def links_def)
    then show ?thesis using c z False k by simp
  next
    case True
    then have pr: "\<not> (\<not> present (entry s t ?i) \<or> skip_huge \<and> huge (entry s t ?i))" using es hg by (auto simp: links_def)
    have hh: "hhdm_offset s = hhdm_offset m" and ok: "pmm_ok s" using c by (auto simp: copying_def)
    obtain f m1 where al: "palloc_zero s = Some (f, m1)"
      using run unfolding clone_table_def if_not_P [OF pr] by (auto simp: Let_def bind_eq_Some_conv)
    define s2 where "s2 = set_entry t' ?i (f OR page_off ?e) m1"
    note S = copy_table_start [OF tb t(1,2) c d al, folded s2_def]
    let ?d = "f + hhdm_offset m" and ?c = "child m t ?i"
    have r: "each (body ?c ?d) [0..<512] s2 = Some s'"
      using run al S(4,5) hh es unfolding clone_table_def if_not_P [OF pr] s2_def
      by (simp add: Let_def PHYS_TO_VIRT_def VIRT_TO_PHYS_def child_def del: upt_rec_numeral)
    have Lc: "L ?c = Some k" using tablesD(8) [OF tb t(1) i True] by simp
    have uc: "user_table m pml4 ?c k"
      using t(1,3) user_table.down [of m pml4 t "Suc k" ?i] user_table.top [of ?i m pml4] True i idx_of_nat(2) [of i] tablesD(3) [OF tb] by auto
    note E = copy_entries [OF body Lc disjI1 [OF uc] order_refl S(1-3) r]
    have keep: "pmem s' x = pmem s2 x" if "\<not> free_byte s x" for x
    proof (rule E(3))
      show "\<not> free_byte s2 x" using S(6) that by blast
      show "\<not> in_block (?d + 8 * of_nat j) 8 x" if "j < 512" for j
        using in_entry(2) [OF _ idx_of_nat(1) [OF that]] S(7) \<open>\<not> free_byte s x\<close> by blast
    qed
    have dt: "\<not> free_byte s x" if "in_block (t' + 8 * ?i) 8 x" for x
      using d in_entry(2) [OF that i] by (simp add: dst_table_def)
    have ent: "entry s' t' ?i = f OR page_off ?e"
    proof -
      have "entry s' t' ?i = entry s2 t' ?i" by (rule entry_cong) (use keep dt in blast)
      then show ?thesis using S(8) by simp
    qed
    have sub: "copied m s' (free_byte s) k ?c (of_nat j) (entry s' ?d (of_nat j))" if "j < 512" for j
      by (rule copied_mono [OF _ _ E(4) [OF that]]) (use S(6) in auto)
    have cp: "copied m s' (free_byte s) (Suc k) t ?i (entry s' t' ?i)"
      using True k ent entry_copy_bits [OF S(9), of ?e] sub S(6,7) E(2) by auto
    have "free_byte s x" if "free_byte s' x" for x using E(2) [OF that] S(6) by simp
    moreover have "pmem s' x = pmem s x" if "\<not> free_byte s x" "\<not> in_block (t' + 8 * ?i) 8 x" for x
      using keep [OF that(1)] S(10) [OF that] by simp
    ultimately show ?thesis using E(1) cp by blast
  qed
qed

lemma clone_levels:
  assumes tb: "tables m pml4 L" and pages: "pages_in_use m pml4"
  shows "copies m pml4 L 1 clone_page" "copies m pml4 L 2 clone_pd" "copies m pml4 L 3 clone_pdpt" "copies m pml4 L 4 clone_pml4"
proof -
  show 1: "copies m pml4 L 1 clone_page" by (rule clone_page_copies [OF tb pages])
  show 2: "copies m pml4 L 2 clone_pd"
    unfolding clone_pd_def using clone_table_copies [OF tb 1, of True] by (simp add: numeral_2_eq_2)
  show 3: "copies m pml4 L 3 clone_pdpt"
    unfolding clone_pdpt_def using clone_table_copies [OF tb 2, of True] by (simp add: numeral_3_eq_3)
  show "copies m pml4 L 4 clone_pml4" unfolding clone_pml4_def using clone_table_copies [OF tb 3, of False] by (simp add: numeral_eq_Suc)
qed

section \<open>The memory a copy needs\<close>

text \<open>One frame per table and per page below an entry.\<close>

fun frames_needed :: "'a machine_scheme \<Rightarrow> nat \<Rightarrow> ptr \<Rightarrow> u64 \<Rightarrow> nat" where
  "frames_needed m 0 t i = 0"
| "frames_needed m (Suc k) t i =
     (if links m (Suc k) t i then Suc (\<Sum>j < 512. frames_needed m k (child m t i) (of_nat j))
      else if k = 0 \<and> present (entry m t i) then 1 else 0)"

definition affords :: "'a machine_scheme \<Rightarrow> ptr \<Rightarrow> (ptr \<rightharpoonup> nat) \<Rightarrow> nat \<Rightarrow>
    (ptr \<Rightarrow> ptr \<Rightarrow> nat \<Rightarrow> 'a machine_scheme \<Rightarrow> 'a machine_scheme option) \<Rightarrow> bool" where
  "affords m pml4 L k body \<longleftrightarrow> (\<forall>t t' i s. L t = Some k \<and> i < 512 \<and> (user_table m pml4 t k \<or> t = pml4 \<and> i < 256) \<and>
     copying m s \<and> dst_table m s t' \<and> frames_needed m k t (of_nat i) \<le> card (free_frames s) \<longrightarrow>
     (\<exists>s'. body t t' i s = Some s' \<and>
        card (free_frames s) \<le> card (free_frames s') + frames_needed m k t (of_nat i)))"

lemma alloc_left:
  assumes "pmm_ok s" "1 \<le> card (free_frames s)"
  obtains f m1 where "palloc_zero s = Some (f, m1)" "card (free_frames s) = Suc (card (free_frames m1))"
proof -
  have ne: "free_frames s \<noteq> {}" using assms(2) by auto
  obtain f m1 where al: "palloc_zero s = Some (f, m1)" by (rule palloc_zero_returns [OF assms(1) ne])
  note fr = palloc_zero_frames [OF assms(1) al]
  have "card (free_frames s) = Suc (card (free_frames m1))"
    unfolding fr(2) using card_Suc_Diff1 [OF _ fr(1)] by simp
  then show thesis using that al by blast
qed

lemma clone_page_affords:
  assumes tb: "tables m pml4 L"
  shows "affords m pml4 L 1 clone_page"
  unfolding affords_def
proof (intro allI impI; elim conjE)
  fix t t' s and i :: nat
  assume t: "L t = Some 1" "i < 512" and c: "copying m s" and need: "frames_needed m 1 t (of_nat i) \<le> card (free_frames s)"
  note es = copying_entry [OF tb c t(1) idx_of_nat(1) [OF t(2)]]
  have ok: "pmm_ok s" using c by (simp add: copying_def)
  show "\<exists>s'. clone_page t t' i s = Some s' \<and> card (free_frames s) \<le> card (free_frames s') + frames_needed m 1 t (of_nat i)"
  proof (cases "present (entry m t (of_nat i))")
    case False
    then show ?thesis using es by (simp add: clone_page_def)
  next
    case True
    then have one: "frames_needed m 1 t (of_nat i) = 1" by (simp add: links_def)
    obtain f m1 where al: "palloc_zero s = Some (f, m1)" "card (free_frames s) = Suc (card (free_frames m1))"
      by (rule alloc_left [OF ok]) (use need one in simp)
    have "free_frames (m1\<lparr>pmem := mm\<rparr>) = free_frames m1" for mm by (rule free_frames_cong) simp_all
    then show ?thesis using True es al one by (simp add: clone_page_def Let_def)
  qed
qed

lemma each_affords:
  assumes step: "\<And>i s. i \<in> set is \<Longrightarrow> P s \<Longrightarrow> Z i s \<Longrightarrow> cost i \<le> left s \<Longrightarrow>
      \<exists>s'. body i s = Some s' \<and> P s' \<and> left s \<le> left s' + cost i \<and> (\<forall>j \<in> set is. j \<noteq> i \<longrightarrow> Z j s \<longrightarrow> Z j s')"
    and dist: "distinct is" and start: "P s" "\<forall>i \<in> set is. Z i s" "(\<Sum>i\<leftarrow>is. cost i) \<le> left s"
  shows "\<exists>s'. each body is s = Some s' \<and> left s \<le> left s' + (\<Sum>i\<leftarrow>is. cost i :: nat)"
  using assms
proof (induction "is" arbitrary: s)
  case (Cons i "is")
  obtain s1 where s1: "body i s = Some s1" "P s1" "left s \<le> left s1 + cost i" "\<forall>j \<in> set is. Z j s1"
  proof -
    obtain s1 where "body i s = Some s1" "P s1" "left s \<le> left s1 + cost i"
        "\<forall>j \<in> set (i # is). j \<noteq> i \<longrightarrow> Z j s \<longrightarrow> Z j s1"
      using Cons.prems(1) [of i s] Cons.prems(2-5) by auto
    moreover then have "\<forall>j \<in> set is. Z j s1" using Cons.prems(2,4) by (metis distinct.simps(2) list.set_intros(2))
    ultimately show thesis using that by blast
  qed
  have "(\<Sum>i\<leftarrow>is. cost i) \<le> left s1" using Cons.prems(5) s1(3) by simp
  then obtain s' where "each body is s1 = Some s'" "left s1 \<le> left s' + (\<Sum>i\<leftarrow>is. cost i)"
    using Cons.IH [of s1] Cons.prems(1,2) s1(2,4) by fastforce
  then show ?case using s1 by auto
qed simp

lemma sum_upt: "(\<Sum>i\<leftarrow>[0..<n]. f i) = (\<Sum>i < n. f i :: nat)"
  by (induction n) simp_all

lemma copy_entries_affords:
  fixes m :: "'a machine_scheme"
  assumes cp: "copies m pml4 L k body" and af: "affords m pml4 L k body" and t: "L t = Some k" "user_table m pml4 t k \<or> t = pml4 \<and> n \<le> 256"
    and n: "n \<le> 512" and c: "copying m s2" and d: "dst_table m s2 t'" and z: "\<forall>j < n. entry s2 t' (of_nat j) = 0"
    and need: "(\<Sum>j < n. frames_needed m k t (of_nat j)) \<le> card (free_frames s2)"
  shows "\<exists>s'. each (body t t') [0..<n] s2 = Some s' \<and>
    card (free_frames s2) \<le> card (free_frames s') + (\<Sum>j < n. frames_needed m k t (of_nat j))"
proof -
  have "\<exists>s'. each (body t t') [0..<n] s2 = Some s' \<and>
    card (free_frames s2) \<le> card (free_frames s') + (\<Sum>j\<leftarrow>[0..<n]. frames_needed m k t (of_nat j))"
  proof (rule each_affords [where P = "\<lambda>s. copying m s \<and> dst_table m s t'" and Z = "\<lambda>j s. entry s t' (of_nat j) = 0"])
    fix j s assume j: "j \<in> set [0..<n]" and p: "copying m s \<and> dst_table m s t'" and zj: "entry s t' (of_nat j) = 0"
      and le: "frames_needed m k t (of_nat j) \<le> card (free_frames s)"
    have j': "j < 512" "user_table m pml4 t k \<or> t = pml4 \<and> j < 256" using j n t(2) by auto
    obtain s1 where s1: "body t t' j s = Some s1" "card (free_frames s) \<le> card (free_frames s1) + frames_needed m k t (of_nat j)"
      using af t(1) j' p le unfolding affords_def by blast
    have B: "copying m s1" "\<forall>x. free_byte s1 x \<longrightarrow> free_byte s x"
      "\<forall>x. \<not> free_byte s x \<and> \<not> in_block (t' + 8 * of_nat j) 8 x \<longrightarrow> pmem s1 x = pmem s x"
      using cp t(1) j' p zj s1(1) unfolding copies_def by blast+
    have "entry s1 t' (of_nat l) = entry s t' (of_nat l)" if l: "l < 512" "l \<noteq> j" for l
    proof (rule entry_cong)
      fix x assume x: "in_block (t' + 8 * of_nat l) 8 x"
      then have "\<not> in_block (t' + 8 * of_nat j) 8 x" using entry_blocks_disjoint [OF x] l j'(1) by blast
      moreover have "\<not> free_byte s x" using p in_entry(2) [OF x idx_of_nat(1) [OF l(1)]] by (simp add: dst_table_def)
      ultimately show "pmem s1 x = pmem s x" using B(3) by blast
    qed
    moreover have "dst_table m s1 t'" using p B(2) by (auto simp: dst_table_def)
    ultimately show "\<exists>s'. body t t' j s = Some s' \<and> (copying m s' \<and> dst_table m s' t') \<and>
        card (free_frames s) \<le> card (free_frames s') + frames_needed m k t (of_nat j) \<and>
        (\<forall>l \<in> set [0..<n]. l \<noteq> j \<longrightarrow> entry s t' (of_nat l) = 0 \<longrightarrow> entry s' t' (of_nat l) = 0)"
      using s1 B(1) n by auto
  qed (use c d z need in \<open>auto simp: sum_upt\<close>)
  then show ?thesis by (simp add: sum_upt)
qed

lemma clone_table_affords:
  assumes tb: "tables m pml4 L" and cp: "copies m pml4 L k body" and af: "affords m pml4 L k body" and k: "1 \<le> k"
    and hg: "skip_huge \<longleftrightarrow> Suc k \<noteq> 4"
  shows "affords m pml4 L (Suc k) (clone_table body skip_huge)"
  unfolding affords_def
proof (intro allI impI; elim conjE)
  fix t t' s and i :: nat
  assume t: "L t = Some (Suc k)" "i < 512" "user_table m pml4 t (Suc k) \<or> t = pml4 \<and> i < 256" and c: "copying m s"
    and d: "dst_table m s t'" and need: "frames_needed m (Suc k) t (of_nat i) \<le> card (free_frames s)"
  let ?i = "of_nat i :: u64"
  note i = idx_of_nat(1) [OF t(2)]
  note es = copying_entry [OF tb c t(1) i]
  have hh: "hhdm_offset s = hhdm_offset m" and ok: "pmm_ok s" using c by (auto simp: copying_def)
  show "\<exists>s'. clone_table body skip_huge t t' i s = Some s' \<and>
      card (free_frames s) \<le> card (free_frames s') + frames_needed m (Suc k) t ?i"
  proof (cases "links m (Suc k) t ?i")
    case False
    then show ?thesis using es k hg by (auto simp: clone_table_def links_def)
  next
    case True
    then have pr: "\<not> (\<not> present (entry s t ?i) \<or> skip_huge \<and> huge (entry s t ?i))" using es hg by (auto simp: links_def)
    have fn: "frames_needed m (Suc k) t ?i = Suc (\<Sum>j < 512. frames_needed m k (child m t ?i) (of_nat j))" using True by simp
    obtain f m1 where al: "palloc_zero s = Some (f, m1)" "card (free_frames s) = Suc (card (free_frames m1))"
      by (rule alloc_left [OF ok]) (use need fn in simp)
    note S = copy_table_start [OF tb t(1,2) c d al(1)]
    have Lc: "L (child m t ?i) = Some k" using tablesD(8) [OF tb t(1) i True] by simp
    have uc: "user_table m pml4 (child m t ?i) k"
      using t(1,3) user_table.down [of m pml4 t "Suc k" ?i] user_table.top [of ?i m pml4] True i idx_of_nat(2) [of i] tablesD(3) [OF tb] by auto
    have "(\<Sum>j < 512. frames_needed m k (child m t ?i) (of_nat j)) \<le> card (free_frames (set_entry t' ?i (f OR page_off (entry m t ?i)) m1))"
      using need fn al(2) by simp
    from copy_entries_affords [OF cp af Lc disjI1 [OF uc] order_refl S(1,2,3) this]
    obtain s' where s': "each (body (child m t ?i) (f + hhdm_offset m)) [0..<512] (set_entry t' ?i (f OR page_off (entry m t ?i)) m1) = Some s'"
        "card (free_frames m1) \<le> card (free_frames s') + (\<Sum>j < 512. frames_needed m k (child m t ?i) (of_nat j))" by auto
    have "clone_table body skip_huge t t' i s = Some s'"
      unfolding clone_table_def if_not_P [OF pr] using al(1) s'(1) S(4,5) hh es
      by (simp add: Let_def PHYS_TO_VIRT_def VIRT_TO_PHYS_def child_def del: upt_rec_numeral)
    then show ?thesis using s'(2) al(2) fn by simp
  qed
qed

lemma share_higher_half:
  fixes m1 :: "'a machine_scheme"
  assumes al: "page_aligned dst" "page_aligned src" "src \<noteq> dst" and n: "256 \<le> n" "n \<le> 512"
    and h: "\<And>n. h n = fold (\<lambda>i mm. set_entry dst (of_nat i) (entry mm src (of_nat i)) mm) [256..<n] m1"
  shows "pmm_buddy (h n) = pmm_buddy m1 \<and> hhdm_offset (h n) = hhdm_offset m1 \<and>
    (\<forall>x. \<not> in_block dst 4096 x \<longrightarrow> pmem (h n) x = pmem m1 x) \<and>
    (\<forall>j < 512. entry (h n) dst (of_nat j) = (if 256 \<le> j \<and> j < n then entry m1 src (of_nat j) else entry m1 dst (of_nat j)))"
  using n
proof (induction n rule: dec_induct)
  case base
  then show ?case by (auto simp: h)
next
  case (step n)
  have suc: "h (Suc n) = set_entry dst (of_nat n) (entry (h n) src (of_nat n)) (h n)"
    using step.hyps unfolding h by simp
  have n: "n < 512" and IH: "pmm_buddy (h n) = pmm_buddy m1" "hhdm_offset (h n) = hhdm_offset m1"
      "\<And>x. \<not> in_block dst 4096 x \<Longrightarrow> pmem (h n) x = pmem m1 x"
      "\<And>j. j < 512 \<Longrightarrow> entry (h n) dst (of_nat j) = (if 256 \<le> j \<and> j < n then entry m1 src (of_nat j) else entry m1 dst (of_nat j))"
    using step by auto
  have src: "entry (h n) src (of_nat n) = entry m1 src (of_nat n)"
  proof (rule entry_cong)
    fix x assume "in_block (src + 8 * of_nat n) 8 x"
    then have "in_block src 4096 x" using in_entry(2) idx_of_nat(1) [OF n] by blast
    then show "pmem (h n) x = pmem m1 x" using IH(3) al by (simp add: in_page_iff)
  qed
  have "pmem (h (Suc n)) x = pmem m1 x" if "\<not> in_block dst 4096 x" for x
  proof -
    have "\<not> in_block (dst + 8 * of_nat n) 8 x" using that in_entry(2) [OF _ idx_of_nat(1) [OF n]] by blast
    then show ?thesis using IH(3) [OF that] by (simp add: suc wr_entry)
  qed
  moreover have "entry (h (Suc n)) dst (of_nat j) = (if 256 \<le> j \<and> j < Suc n then entry m1 src (of_nat j) else entry m1 dst (of_nat j))"
    if j: "j < 512" for j
  proof (cases "j = n")
    case True
    then show ?thesis using src step.hyps by (simp add: suc)
  next
    case False
    then have "(of_nat j :: u64) \<noteq> of_nat n" using j n by (simp add: word_unat_eq_iff)
    then have "entry (h (Suc n)) dst (of_nat j) = entry (h n) dst (of_nat j)"
      unfolding suc using idx_of_nat(1) j n al(1) by (intro entry_set_other) auto
    then show ?thesis using IH(4) [OF j] False by auto
  qed
  ultimately show ?case using IH(1,2) by (simp add: suc)
qed

lemma clone_pml4_affords:
  assumes tb: "tables m pml4 L" and pages: "pages_in_use m pml4"
  shows "affords m pml4 L 4 clone_pml4"
proof -
  note c = clone_levels [OF tb pages]
  have 2: "affords m pml4 L 2 clone_pd"
    unfolding clone_pd_def using clone_table_affords [OF tb c(1) clone_page_affords [OF tb], of True] by (simp add: numeral_2_eq_2)
  have 3: "affords m pml4 L 3 clone_pdpt"
    unfolding clone_pdpt_def using clone_table_affords [OF tb c(2) 2, of True] by (simp add: numeral_3_eq_3)
  show ?thesis unfolding clone_pml4_def using clone_table_affords [OF tb c(3) 3, of False] by (simp add: numeral_eq_Suc)
qed

lemma palloc_zero_virt:
  assumes "pmm_ok m" "palloc_zero m = Some (f, m1)"
  shows "f + hhdm_offset m \<noteq> NULL"
proof -
  obtain b where b: "pmm_buddy m = Some b" using assms(1) by (auto simp: pmm_ok_def)
  obtain m2 where "palloc m = Some (f, m2)"
    using assms(2) by (auto simp: palloc_zero_def Let_def bind_eq_Some_conv split: if_splits)
  then show ?thesis using b by (auto simp: palloc_def bind_eq_Some_conv split: if_splits)
qed

lemma clone_start:
  assumes tb: "tables m src L" and al: "palloc_zero m = Some (f, m1)"
  defines "dst \<equiv> f + hhdm_offset m"
  obtains s where "vmm_clone_pml4 src m = map_option (Pair dst) (each (clone_pml4 src dst) [0..<256] s)"
    "copying m s" "dst_table m s dst" "\<forall>j < 256. entry s dst (of_nat j) = 0" "card (free_frames s) = card (free_frames m) - 1"
    "\<And>j. 256 \<le> j \<Longrightarrow> j < 512 \<Longrightarrow> entry s dst (of_nat j) = entry m src (of_nat j)"
    "\<And>x. free_byte s x \<longleftrightarrow> free_byte m x \<and> \<not> in_block dst 4096 x"
proof -
  note ok = tablesD(1) [OF tb] and root = tablesD(3) [OF tb]
  note fr = palloc_zero_fresh [OF ok al]
  have h1: "hhdm_offset m1 = hhdm_offset m" by (subst fr(2)) simp
  have p1: "pmem m1 x = (if in_block dst 4096 x then 0 else pmem m x)" for x by (subst fr(2)) (simp add: dst_def)
  have free: "free_byte m x" if "in_block dst 4096 x" for x using fr(1) that by (simp add: fresh_frame_def dst_def)
  have "page_aligned f" using fr(1) by (simp add: fresh_frame_def page_aligned_iff)
  then have pa: "page_aligned dst" "page_aligned src"
    using tablesD(2) [OF tb] tablesD(4) [OF tb root] by (auto simp: dst_def intro: page_aligned_plus)
  have ne: "src \<noteq> dst" using free [of dst] tablesD(7) [OF tb root, of dst] by (auto simp: in_block_def)
  define h where "h n = fold (\<lambda>i mm. set_entry dst (of_nat i) (entry mm src (of_nat i)) mm) [256..<n] m1" for n
  define s where "s = h 512"
  have S: "pmm_buddy s = pmm_buddy m1" "hhdm_offset s = hhdm_offset m1" "\<And>x. \<not> in_block dst 4096 x \<Longrightarrow> pmem s x = pmem m1 x"
    "\<And>j. j < 512 \<Longrightarrow> entry s dst (of_nat j) = (if 256 \<le> j then entry m1 src (of_nat j) else entry m1 dst (of_nat j))"
    using share_higher_half [OF pa ne _ _ h_def, of 512] by (auto simp: s_def)
  have nz: "dst \<noteq> NULL" unfolding dst_def by (rule palloc_zero_virt [OF ok al])
  have 1: "vmm_clone_pml4 src m = map_option (Pair dst) (each (clone_pml4 src dst) [0..<256] s)"
    using al nz h1 unfolding vmm_clone_pml4_def s_def h_def dst_def
    by (simp add: PHYS_TO_VIRT_def Let_def del: upt_rec_numeral)
  have fs: "free_byte s x \<longleftrightarrow> free_byte m x \<and> \<not> in_block dst 4096 x" for x
    using fr(1) free_byte_cong [OF S(1)] by (simp add: fresh_frame_def dst_def)
  have 2: "copying m s"
  proof -
    have "pmm_ok s" using pmm_ok_cong [OF S(1,2)] fr(1) by (simp add: fresh_frame_def)
    moreover have "pmem s x = pmem m x" if "\<not> free_byte m x" for x
      using S(3) [of x] p1 [of x] free [of x] that by auto
    ultimately show ?thesis using fs S(2) h1 by (simp add: copying_def)
  qed
  have 3: "dst_table m s dst" using pa(1) fs free by (simp add: dst_table_def)
  have 4: "\<forall>j < 256. entry s dst (of_nat j) = 0"
    using S(4) p1 idx_of_nat(1) by (auto intro!: entry_zero)
  have "free_frames s = free_frames m1" by (rule free_frames_cong [OF S(1,2)])
  then have 5: "card (free_frames s) = card (free_frames m) - 1" using palloc_zero_frames [OF ok al] by simp
  have 6: "entry s dst (of_nat j) = entry m src (of_nat j)" if j: "256 \<le> j" "j < 512" for j
  proof -
    have "entry m1 src (of_nat j) = entry m src (of_nat j)"
    proof (rule entry_cong)
      fix x assume "in_block (src + 8 * of_nat j) 8 x"
      then have "\<not> free_byte m x" using in_entry(2) [OF _ idx_of_nat(1) [OF j(2)]] tablesD(7) [OF tb root] by blast
      then show "pmem m1 x = pmem m x" using p1 free by auto
    qed
    then show ?thesis using S(4) j by simp
  qed
  show thesis using that [OF 1 2 3 4 5 6 fs] .
qed

text \<open>A hand-made address space: one table per level, one user page at 0x400000.\<close>

definition one_page_space :: "'a machine_scheme \<Rightarrow> 'a machine_scheme" where
  "one_page_space m = (let h = hhdm_offset m in
     set_entry (h + 0x4000) 0 0x7007 (set_entry (h + 0x3000) 2 0x4007 (set_entry (h + 0x2000) 0 0x3007
       (set_entry (h + 0x1000) 0 0x2007 (m\<lparr>pmem := \<lambda>_. 0\<rparr>)))))"

lemma page_aligned_lit: "page_aligned 0x1000" "page_aligned 0x2000" "page_aligned 0x3000" "page_aligned 0x4000"
  by (simp_all add: page_aligned_iff)

lemma sum_single:
  fixes g :: "nat \<Rightarrow> nat"
  assumes "finite A" "a \<in> A" "\<And>j. j \<in> A \<Longrightarrow> j \<noteq> a \<Longrightarrow> g j = 0"
  shows "sum g A = g a"
  using sum.remove [OF assms(1,2), of g] assms(3) by (simp add: sum.neutral)

lemma one_page_space:
  assumes ok: "pmm_ok m" and hh: "page_aligned (hhdm_offset m)"
    and used: "\<forall>x. in_block (hhdm_offset m + 0x1000) 0x7000 x \<longrightarrow> \<not> free_byte m x"
  defines "M \<equiv> one_page_space m" and "h \<equiv> hhdm_offset m"
  defines "L \<equiv> [h + 0x1000 \<mapsto> 4, h + 0x2000 \<mapsto> 3, h + 0x3000 \<mapsto> 2, h + 0x4000 \<mapsto> 1]"
  shows "tables M (h + 0x1000) L" "pages_in_use M (h + 0x1000)" "walk M 4 (h + 0x1000) 0x400000 = Some (1, 0x7007)"
    "(\<Sum>i < 256. frames_needed M 4 (h + 0x1000) (of_nat i)) = 4"
proof -
  have pa: "page_aligned (h + 0x1000)" "page_aligned (h + 0x2000)" "page_aligned (h + 0x3000)" "page_aligned (h + 0x4000)"
    using hh by (auto simp: h_def page_aligned_lit intro!: page_aligned_plus)
  have z: "entry (m\<lparr>pmem := \<lambda>_. 0\<rparr>) t i = 0" if "i < 512" for t i using that by (intro entry_zero) simp_all
  have E: "entry M (h + 0x1000) i = (if i = 0 then 0x2007 else 0)" "entry M (h + 0x2000) i = (if i = 0 then 0x3007 else 0)"
    "entry M (h + 0x3000) i = (if i = 2 then 0x4007 else 0)" "entry M (h + 0x4000) i = (if i = 0 then 0x7007 else 0)"
    if "i < 512" for i
    using that pa z [OF that] unfolding M_def one_page_space_def Let_def h_def [symmetric]
    by (auto simp: entry_set_other)
  have lt: "(0::u64) < 512" "(2::u64) < 512" by simp_all
  have E02: "entry M (h + 0x1000) 0 = 0x2007" "entry M (h + 0x2000) 0 = 0x3007" "entry M (h + 0x3000) 2 = 0x4007"
    "entry M (h + 0x4000) 0 = 0x7007"
    using E [OF lt(1)] E(3) [OF lt(2)] by simp_all
  have B: "present 0x2007" "present 0x3007" "present 0x4007" "present 0x7007" "\<not> present 0"
    "\<not> huge 0x2007" "\<not> huge 0x3007" "\<not> huge 0x4007"
    "page_base 0x2007 = 0x2000" "page_base 0x3007 = 0x3000" "page_base 0x4007 = 0x4000" "page_base 0x7007 = 0x7000"
    by (simp_all add: present_def huge_def PTE_PRESENT_def PTE_HUGE_def page_base_def mask_eq_exp_minus_1)
  have b: "pmm_buddy M = pmm_buddy m" "hhdm_offset M = hhdm_offset m" by (simp_all add: M_def one_page_space_def Let_def)
  have M: "hhdm_offset M = h" "pmm_ok M" "free_byte M x = free_byte m x" for x
    using b ok pmm_ok_cong [OF b] free_byte_cong [OF b(1)] by (simp_all add: h_def)
  have lk: "links M 4 (h + 0x1000) i = (i = 0)" "links M 3 (h + 0x2000) i = (i = 0)" "links M 2 (h + 0x3000) i = (i = 2)"
    "\<not> links M 1 (h + 0x4000) i" if "i < 512" for i
    using that by (simp_all add: links_def E B)
  have ch: "child M (h + 0x1000) 0 = h + 0x2000" "child M (h + 0x2000) 0 = h + 0x3000" "child M (h + 0x3000) 2 = h + 0x4000"
    by (simp_all add: child_def E02 B M add.commute)
  have not_free: "\<not> free_byte M x" if "in_block (h + 0x1000 + of_nat n) 4096 x" "n \<le> 0x6000" for x n
    using in_block_sub [OF that(1), of "0x7000"] that(2) spec [OF used, of x] M(3) by (simp add: h_def)
  have L: "L t = Some k \<longleftrightarrow> (t, k) \<in> {(h + 0x1000, 4), (h + 0x2000, 3), (h + 0x3000, 2), (h + 0x4000, 1)}" for t k
    by (auto simp: L_def)
  show tb: "tables M (h + 0x1000) L"
  proof -
    have "\<not> free_byte M x" if "in_block t 4096 x" "t \<in> {h + 0x1000, h + 0x2000, h + 0x3000, h + 0x4000}" for t x
      using that not_free [of 0 x] not_free [of "0x1000" x] not_free [of "0x2000" x] not_free [of "0x3000" x]
      by (auto simp: add.assoc)
    then show ?thesis
      using M hh pa lk ch unfolding tables_def L by (auto simp: h_def)
  qed
  show "pages_in_use M (h + 0x1000)"
  proof -
    have t1: "t = h + 0x4000" if "user_table M (h + 0x1000) t (Suc 0)" for t
      using user_table_level [OF tb that] by (simp add: L)
    have "\<not> free_byte M x" if "in_block (0x7000 + h) 4096 x" for x
      using that not_free [of "0x6000" x] by (simp add: add_ac)
    then show ?thesis unfolding pages_in_use_def by (auto dest!: t1 simp: E(4) B M split: if_splits)
  qed
  have ix: "idx 4 0x400000 = 0" "idx 3 0x400000 = 0" "idx 2 0x400000 = 2" "idx (Suc 0) 0x400000 = 0"
    by (simp_all add: idx_mask)
  show "walk M 4 (h + 0x1000) 0x400000 = Some (1, 0x7007)"
    by (simp add: walk_4 walk_3 walk_2 links_def E02 B ix ch)
  have one: "(\<Sum>j < n. frames_needed M (Suc k) t (of_nat j)) = c"
    if "\<And>j. j < 512 \<Longrightarrow> present (entry M t j) \<longleftrightarrow> j = of_nat a" "a < n" "n \<le> 512" "frames_needed M (Suc k) t (of_nat a) = c" for n t k a c
  proof -
    have "(of_nat j :: u64) \<noteq> of_nat a" if "j < n" "j \<noteq> a" for j
      using that \<open>a < n\<close> \<open>n \<le> 512\<close> by (simp add: word_unat_eq_iff)
    then have "\<not> present (entry M t (of_nat j))" if "j < n" "j \<noteq> a" for j
      using that that(1) \<open>n \<le> 512\<close> \<open>\<And>j. j < 512 \<Longrightarrow> present (entry M t j) \<longleftrightarrow> j = of_nat a\<close> [OF idx_of_nat(1), of j] by simp
    then show ?thesis unfolding that(4) [symmetric] using \<open>a < n\<close> by (intro sum_single) (auto simp: links_def)
  qed
  note fn = frames_needed.simps(2) [of M]
  have 1: "(\<Sum>j < 512. frames_needed M (Suc 0) (h + 0x4000) (of_nat j)) = 1"
    by (rule one [where a = 0]) (auto simp: E B links_def E02)
  have 2: "(\<Sum>j < 512. frames_needed M (Suc (Suc 0)) (h + 0x3000) (of_nat j)) = 2"
    by (rule one [where a = 2]) (simp_all only: E(3) fn [of "Suc 0"], simp_all add: 1 B links_def E02 ch del: frames_needed.simps)
  have 3: "(\<Sum>j < 512. frames_needed M (Suc (Suc (Suc 0))) (h + 0x2000) (of_nat j)) = 3"
    by (rule one [where a = 0]) (simp_all only: E(2) fn [of "Suc (Suc 0)"], simp_all add: 2 B links_def E02 ch del: frames_needed.simps)
  have "(\<Sum>j < 256. frames_needed M (Suc (Suc (Suc (Suc 0)))) (h + 0x1000) (of_nat j)) = 4"
    by (rule one [where a = 0]) (simp_all only: E(1) fn [of "Suc (Suc (Suc 0))"], simp_all add: 3 B links_def E02 ch del: frames_needed.simps)
  then show "(\<Sum>i < 256. frames_needed M 4 (h + 0x1000) (of_nat i)) = 4" by (simp only: numeral_eq_Suc pred_numeral_simps BitM.simps numeral_One One_nat_def arith_simps)
qed

lemma tables_outside:
  assumes tb: "tables m pml4 L" and pm: "pmm_ok m'" "\<forall>x. free_byte m' x \<longrightarrow> free_byte m x" and same: "hhdm_offset m' = hhdm_offset m"
    and mm: "\<forall>t x. L t \<noteq> None \<longrightarrow> in_block t 4096 x \<longrightarrow> pmem m' x = pmem m x"
  shows "tables m' pml4 L" "walk m' 4 pml4 v = walk m 4 pml4 v"
proof -
  have e: "entry m' t i = entry m t i" if "L t = Some k" "i < 512" for t k i
  proof (rule entry_cong)
    fix x assume "in_block (t + 8 * i) 8 x"
    then have "in_block t 4096 x" using in_entry(2) that(2) by blast
    then show "pmem m' x = pmem m x" using mm that(1) by blast
  qed
  have l: "links m' k t i = links m k t i" "child m' t i = child m t i" if "L t = Some k" "i < 512" for t k i
    using e [OF that] same by (simp_all add: links_def child_def)
  have "same_links m m' L" using e same by (auto simp: same_links_def)
  then show "walk m' 4 pml4 v = walk m 4 pml4 v" by (rule walk_same_links [OF tb _ tablesD(3) [OF tb]])
  show "tables m' pml4 L"
    unfolding tables_def
  proof (intro conjI allI impI; (elim conjE)?)
    show "pmm_ok m'" by (rule pm)
    show "page_aligned (hhdm_offset m')" "L pml4 = Some 4" using tablesD(2,3) [OF tb] same by simp_all
    fix t k assume t: "L t = Some k"
    show "page_aligned t" "1 \<le> k" "k \<le> 4" by (rule tablesD(4-6) [OF tb t])+
    show "\<not> free_byte m' x" if "in_block t 4096 x" for x using tablesD(7) [OF tb t that] pm(2) by blast
    fix i :: u64 assume i: "i < 512" "links m' k t i"
    have li: "links m k t i" using l(1) [OF t i(1)] i(2) by simp
    show "L (child m' t i) = Some (k - 1)" using tablesD(8) [OF tb t i(1) li] l(2) [OF t i(1)] by simp
    fix t' k' i' assume t': "L t' = Some k'" "i' < 512" "links m' k' t' i'" "child m' t i = child m' t' i'"
    have "links m k' t' i'" "child m t i = child m t' i'" using l [OF t'(1,2)] l(2) [OF t i(1)] t'(3,4) by simp_all
    then show "t = t'" "i = i'" using tablesD(9) [OF tb t i(1) li t'(1,2)] by blast+
  qed
qed

lemma palloc_zero_tables:
  assumes tb: "tables m p L" and pz: "palloc_zero m = Some (f, m1)"
  shows "tables m1 p L" "walk m1 4 p v = walk m 4 p v"
proof -
  note fr = palloc_zero_fresh [OF tablesD(1) [OF tb] pz]
  have s: "hhdm_offset m1 = hhdm_offset m" "pmem m1 = (\<lambda>x. if frame_bytes m f x then 0 else pmem m x)" by (subst fr(2), simp)+
  have pm: "pmm_ok m1" "\<forall>x. free_byte m1 x \<longrightarrow> free_byte m x" using fr(1) by (simp_all add: fresh_frame_def)
  have "\<not> frame_bytes m f x" if "L t \<noteq> None" "in_block t 4096 x" for t x
    using that fr(1) tablesD(7) [OF tb] unfolding fresh_frame_def by blast
  then have "\<forall>t x. L t \<noteq> None \<longrightarrow> in_block t 4096 x \<longrightarrow> pmem m1 x = pmem m x" unfolding s(2) by simp
  from tables_outside [OF tb pm s(1) this] show "tables m1 p L" "walk m1 4 p v = walk m 4 p v" by simp_all
qed

lemma palloc_zero_allocated:
  assumes ok: "pmm_ok m" and al: "palloc_zero m = Some (f, m')"
  shows "pmm_ok m'" "frame_allocated m' f" "frame_allocated m g \<Longrightarrow> frame_allocated m' g" "page_aligned f"
proof -
  obtain d where d: "palloc m = Some (f, d)" "pmm_buddy m' = pmm_buddy d" "hhdm_offset m' = hhdm_offset d"
    using al by (auto simp: palloc_zero_def Let_def bind_eq_Some_conv split: if_splits)
  show "frame_allocated m' f" "frame_allocated m g \<Longrightarrow> frame_allocated m' g"
    using palloc_allocated [OF ok d(1)] d(2,3) by (simp_all add: frame_allocated_def)
  show "pmm_ok m'" "page_aligned f" using palloc_zero_fresh(1) [OF ok al] by (simp_all add: fresh_frame_def page_aligned_iff)
qed

lemma map_page_allocated:
  assumes ok: "pmm_ok m" and mp: "map_page pml4 v phys flags m = Some m'" and f: "frame_allocated m f"
  shows "frame_allocated m' f"
proof -
  have keep: "pmm_ok b \<and> frame_allocated b f" if st: "table_step t i flags a = Some (t', b)" and a: "pmm_ok a" "frame_allocated a f" for t i t' and a b :: "'a machine_scheme"
  proof (cases "present (entry a t i)")
    case True
    then have "b = set_entry t i (entry a t i OR (flags AND PTE_USER)) a" using st by (simp add: table_step_def)
    then show ?thesis using a by (simp add: frame_allocated_def)
  next
    case False
    then obtain g c where c: "palloc_zero a = Some (g, c)" "b = set_entry t i (g OR PTE_PRESENT OR PTE_WRITABLE OR (flags AND PTE_USER)) c"
      using st by (auto simp: table_step_def)
    show ?thesis using palloc_zero_allocated(1,3) [OF a(1) c(1)] a(2) by (simp add: c(2) frame_allocated_def)
  qed
  show ?thesis using mp ok f by (auto simp: map_page_def bind_eq_Some_conv frame_allocated_def dest!: keep) 
qed

section \<open>Properties\<close>

text \<open>
  C9: \<^verbatim>\<open>vmm_free_user_pages\<close> on a well-formed address space always returns; afterwards no address
  of the lower half is mapped, and every translation of the upper half is what it was. Of the
  frames that were allocated, exactly those of the user half are given back: the page tables, page
  directories and directory pointer tables below the first 256 entries of the root, and the
  frames mapped there with 4 KiB pages, are free; every other frame is still allocated.
\<close>

theorem vmm_free_user_pages_correct:
  assumes tb: "tables m pml4 L" and nz: "pml4 \<noteq> NULL"
  shows "\<exists>m'. vmm_free_user_pages pml4 m = Some m' \<and> pmm_ok m' \<and>
    (\<forall>v. vmm_virt_to_phys m' pml4 v = (if PML4_IDX v < 256 then 0 else vmm_virt_to_phys m pml4 v)) \<and>
    (\<forall>f. frame_allocated m f \<longrightarrow>
       (if f \<in> user_frames m pml4 then \<forall>x. frame_bytes m f x \<longrightarrow> free_byte m' x else frame_allocated m' f))"
proof -
  note root = tablesD(3) [OF tb]
  obtain s where s: "vmm_free_user_pages pml4 m = Some s" "erased m pml4 L s" "\<And>i. i < 256 \<Longrightarrow> \<not> present (entry s pml4 i)"
    by (rule user_pages_freed [OF tb nz]) blast
  have hh: "hhdm_offset s = hhdm_offset m" using s(2) by (simp add: erased_def)
  have low: "walk s 4 pml4 v = None" if "idx 4 v < 256" for v using s(3) [OF that] by (simp add: walk_4)
  have high: "walk s 4 pml4 v = walk m 4 pml4 v" if v: "\<not> idx 4 v < 256" for v
  proof (rule walk_agree [OF hh _ table_at_self])
    fix j p assume p: "table_at m j 4 pml4 v = Some p"
    have Lp: "L p = Some j" by (rule table_at_level [OF tb root p])
    have "\<not> user_table m pml4 p j" using user_table_index [OF tb _ p] v by blast
    moreover have "\<not> (p = pml4 \<and> idx j v < 256)" using Lp root v by auto
    ultimately show "entry s p (idx j v) = entry m p (idx j v)"
      using s(2) Lp idx_less [of j v] unfolding erased_def by blast
  qed
  have freed: "released m s f" if "f \<in> user_frames m pml4" for f
  proof -
    obtain i where i: "i < 256" "f \<in> frames_below m 4 pml4 (of_nat i)" using \<open>f \<in> _\<close> by (auto simp: user_frames_def)
    then have "present (entry m pml4 (of_nat i))" by (auto simp: numeral_eq_Suc split: if_splits dest: links_present)
    moreover have "\<not> present (entry s pml4 (of_nat i))" using s(3) idx_of_nat(2) [OF i(1)] by blast
    moreover have "(of_nat i :: u64) < 512" using i(1) by (intro idx_of_nat(1)) simp
    ultimately show ?thesis using s(2) root i(2) unfolding erased_def by metis
  qed
  have rest: "frame_allocated s f" if "frame_allocated m f" "f \<notin> user_frames m pml4" for f
    using s(2) that unfolding erased_def by blast
  have "pmm_ok s" using s(2) by (simp add: erased_def)
  then show ?thesis using s(1) low high freed rest by (auto simp: virt_to_phys_walk idx_simps released_def)
qed

theorem vmm_free_user_pages_correct_witness:
  "\<exists>(m :: machine) pml4 f m'. vmm_virt_to_phys m pml4 0x400123 = f + 0x123 \<and> frame_allocated m f \<and> f \<in> user_frames m pml4 \<and>
    vmm_free_user_pages pml4 m = Some m' \<and> vmm_virt_to_phys m' pml4 0x400123 = 0 \<and> (\<forall>x. frame_bytes m f x \<longrightarrow> free_byte m' x)"
proof -
  obtain m0 pml4 where m0: "tables (m0 :: machine) pml4 [pml4 \<mapsto> 4]" "\<And>v. walk m0 4 pml4 v = None" "255 \<le> card (free_frames m0)" "pml4 \<noteq> NULL"
    using boot_root by auto
  note ok = tablesD(1) [OF m0(1)]
  obtain f m where m: "palloc_zero m0 = Some (f, m)" using palloc_zero_returns [OF ok] m0(3) by (metis card.empty not_numeral_le_zero)
  note t1 = palloc_zero_tables [OF m0(1) m]
  have fr: "page_aligned f" "pmm_ok m" "frame_allocated m f" "254 \<le> card (free_frames m)"
    using palloc_zero_allocated [OF ok m] palloc_zero_frames(2) [OF ok m] m0(3) by (auto simp: card_Diff_singleton_if)
  have nb: "mapped_below m 1 pml4 0x400000" "3 \<le> card (free_frames m)" using m0(2) t1(2) fr(4) by (auto simp: mapped_below_def)
  obtain m1 where m1: "map_page pml4 0x400000 f 0 m = Some m1" using map_pages_return(2) [OF t1(1) nb] by blast
  note rm = map_page_spec(1) [OF t1(1) nb(1) m1]
  obtain L1 where L1: "tables m1 pml4 L1" using rm by (auto simp: remapped_def)
  have fl: "page_base (final_flags m 0) = 0" by (simp add: final_flags_def page_base_def)
  have v: "vpn 1 0x400123 = vpn 1 0x400000" by (simp add: word_unat_eq_iff unat_vpn)
  have tr: "vmm_virt_to_phys m1 pml4 0x400123 = f + 0x123"
    using remapped_page [OF rm fl v] fr(1) by (simp add: page_aligned_iff page_off_def mask_eq_exp_minus_1)
  have al: "frame_allocated m1 f" by (rule map_page_allocated [OF fr(2) m1 fr(3)])
  have low: "PML4_IDX 0x400123 < 256" by (simp add: PML4_IDX_def)
  have "walk m1 4 pml4 0x400123 = Some (1, page_entry m f 0)" using rm v by (simp add: remapped_def)
  from leaf_frame_below [OF this] have "f \<in> user_frames m1 pml4"
    using root_frames [of "idx 4 0x400123" m1 pml4] low page_entry_translate [OF fl, of f] fr(1) by (auto simp: idx_simps)
  then show ?thesis using vmm_free_user_pages_correct [OF L1 m0(4)] tr al low by fastforce
qed

text \<open>
  C1: \<^verbatim>\<open>vmm_clone_pml4\<close>, given one free frame for every table and page of the user half and one
  for the root, returns a deep copy: memory that was in use is untouched, so the source
  address space is unchanged; every 4 KiB user page of the source is mapped in the copy at the
  same address with the same flags, to a frame that was free and now has the same 4096 bytes;
  every other user address is unmapped in the copy; and the upper half of the copy translates
  like that of the source.
\<close>

theorem vmm_clone_pml4_correct:
  assumes tb: "tables m src L" and pages: "pages_in_use m src"
    and room: "1 + (\<Sum>i < 256. frames_needed m 4 src (of_nat i)) \<le> card (free_frames m)"
  shows "\<exists>dst m'. vmm_clone_pml4 src m = Some (dst, m') \<and> (\<forall>x. \<not> free_byte m x \<longrightarrow> pmem m' x = pmem m x) \<and>
    (\<forall>v. walk m' 4 src v = walk m 4 src v \<and>
      (if PML4_IDX v < 256
       then (case walk m 4 src v of
           None \<Rightarrow> walk m' 4 dst v = None
         | Some (k, e) \<Rightarrow> if k = 1 then \<exists>e'. walk m' 4 dst v = Some (1, e') \<and> page_copy m m' (free_byte m) e e'
             else walk m' 4 dst v = None)
       else walk m' 4 dst v = walk m 4 src v))"
proof -
  note root = tablesD(3) [OF tb]
  obtain f m1 where al: "palloc_zero m = Some (f, m1)"
    by (rule alloc_left [OF tablesD(1) [OF tb]]) (use room in auto)
  define dst where "dst = f + hhdm_offset m"
  obtain s where s: "vmm_clone_pml4 src m = map_option (Pair dst) (each (clone_pml4 src dst) [0..<256] s)"
    "copying m s" "dst_table m s dst" "\<forall>j < 256. entry s dst (of_nat j) = 0" "card (free_frames s) = card (free_frames m) - 1"
    "\<And>j. 256 \<le> j \<Longrightarrow> j < 512 \<Longrightarrow> entry s dst (of_nat j) = entry m src (of_nat j)"
    "\<And>x. free_byte s x \<longleftrightarrow> free_byte m x \<and> \<not> in_block dst 4096 x"
    using clone_start [OF tb al] unfolding dst_def by blast
  note C = clone_levels(4) [OF tb pages]
  have n: "(256::nat) \<le> 512" "user_table m src src 4 \<or> src = src \<and> (256::nat) \<le> 256" by simp_all
  have "(\<Sum>i < 256. frames_needed m 4 src (of_nat i)) \<le> card (free_frames s)" using room s(5) by simp
  then obtain m' where m': "each (clone_pml4 src dst) [0..<256] s = Some m'"
    using copy_entries_affords [OF C clone_pml4_affords [OF tb pages] root n(2,1) s(2-4)] by blast
  note E = copy_entries [OF C root n(2,1) s(2-4) m']
  have hh: "hhdm_offset m' = hhdm_offset m" using E(1) by (simp add: copying_def)
  have same: "same_links m m' L" using copying_entry [OF tb E(1)] hh by (auto simp: same_links_def)
  note old = walk_same_links [OF tb same]
  have low: "copied m m' (free_byte m) 4 src (idx 4 v) (entry m' dst (idx 4 v))" if "idx 4 v < 256" for v
  proof -
    have "copied m m' (free_byte s) 4 src (of_nat (unat (idx 4 v))) (entry m' dst (of_nat (unat (idx 4 v))))"
      by (rule E(4)) (use that in \<open>simp add: word_less_nat_alt\<close>)
    then have "copied m m' (free_byte s) 4 src (idx 4 v) (entry m' dst (idx 4 v))" by simp
    then show ?thesis by (rule copied_mono [rotated -1]) (use s(7) in auto)
  qed
  have high: "walk m' 4 dst v = walk m 4 src v" if v: "\<not> idx 4 v < 256" for v
  proof -
    define j where "j = unat (idx 4 v)"
    have j: "256 \<le> j" "j < 512" "of_nat j = idx 4 v" using v idx_less [of 4 v] by (auto simp: j_def word_less_nat_alt)
    have "entry m' dst (of_nat j) = entry s dst (of_nat j)"
    proof (rule entry_cong)
      fix x assume x: "in_block (dst + 8 * of_nat j) 8 x"
      have "\<not> free_byte s x" using in_entry(2) [OF x idx_of_nat(1) [OF j(2)]] s(7) by blast
      moreover have "\<not> in_block (dst + 8 * of_nat i) 8 x" if "i < 256" for i
        using entry_blocks_disjoint [OF x] that j by auto
      ultimately show "pmem m' x = pmem s x" by (rule E(3))
    qed
    then have e: "entry m' dst (idx 4 v) = entry m src (idx 4 v)" using s(6) [OF j(1,2)] j(3) by simp
    have "walk m' 3 (child m src (idx 4 v)) v = walk m 3 (child m src (idx 4 v)) v" if "present (entry m src (idx 4 v))"
      by (rule old) (use tablesD(8) [OF tb root idx_less, of 4 v] that in \<open>simp add: links_def\<close>)
    moreover have "child m' dst (idx 4 v) = child m src (idx 4 v)" by (simp add: child_def e hh)
    ultimately show ?thesis by (simp add: walk_4 e)
  qed
  have lower: "case walk m 4 src v of None \<Rightarrow> walk m' 4 dst v = None
      | Some (k, e) \<Rightarrow> if k = 1 then \<exists>e'. walk m' 4 dst v = Some (1, e') \<and> page_copy m m' (free_byte m) e e'
          else walk m' 4 dst v = None" if "idx 4 v < 256" for v
    using copied_walk [OF hh low [OF that]] by (auto split: option.splits prod.splits)
  have "vmm_clone_pml4 src m = Some (dst, m')" using s(1) m' by simp
  moreover have "\<forall>x. \<not> free_byte m x \<longrightarrow> pmem m' x = pmem m x" using E(1) by (simp add: copying_def)
  ultimately show ?thesis using old [OF root] lower high unfolding idx_simps by (intro exI [of _ dst] exI [of _ m']) simp
qed

theorem vmm_clone_pml4_correct_witness:
  "\<exists>(m :: machine) src dst m' e'. walk m 4 src 0x400000 = Some (1, 0x7007) \<and> vmm_clone_pml4 src m = Some (dst, m') \<and>
    walk m' 4 dst 0x400000 = Some (1, e') \<and> page_copy m m' (free_byte m) 0x7007 e'"
proof -
  obtain m :: machine where m: "pmm_ok m" "256 \<le> card (free_frames m)" "hhdm_offset m = hhdm_offset boot_machine"
      "\<And>x. free_byte m x \<Longrightarrow> in_block (0x105000 + hhdm_offset boot_machine) (2 ^ 20) x"
    using boot_frames by blast
  have hh: "page_aligned (hhdm_offset m)" using boot_hyps(2) m(3) by simp
  have "\<not> in_block (0x105000 + hhdm_offset boot_machine) (2 ^ 20) x"
    if "in_block (hhdm_offset m + 0x1000) 0x7000 x" for x
    by (rule in_block_disjoint [OF _ that]) (simp add: m(3) boot_machine_def disjoint_blocks_def)
  then have used: "\<forall>x. in_block (hhdm_offset m + 0x1000) 0x7000 x \<longrightarrow> \<not> free_byte m x"
    using m(4) by blast
  note S = one_page_space [OF m(1) hh used]
  have "free_frames (one_page_space m) = free_frames m"
    by (rule free_frames_cong) (simp_all add: one_page_space_def Let_def)
  then have room: "1 + (\<Sum>i < 256. frames_needed (one_page_space m) 4 (hhdm_offset m + 0x1000) (of_nat i))
      \<le> card (free_frames (one_page_space m))"
    using S(4) m(2) by simp
  have "PML4_IDX 0x400000 < 256" by (simp add: PML4_IDX_def)
  then show ?thesis using vmm_clone_pml4_correct [OF S(1,2) room] S(3)
    by (elim exE conjE) (drule spec [of _ "0x400000"], drule spec [of _ "0x400000"], simp split: if_splits, blast+)
qed

end
