(* ===== verification/Slab.thy ===== *)
theory Slab
  imports Vmm
begin

text \<open>
  The kernel heap of \<^verbatim>\<open>mm/slab.c\<close>. The heap is a window of virtual addresses that grows upwards;
  its pages are frames mapped into the kernel's address space, so every heap access goes
  through the page tables of the model. An access to an unmapped address is a page fault in
  the kernel and stops the machine (\<open>None\<close>).
\<close>

section \<open>Definitions\<close>

record slab_machine = vm_machine +
  heap_virtual_top :: u64
  buckets :: "ptr list"

subsection \<open>Access through the kernel's address space\<close>

definition vptr :: "'a vm_machine_scheme \<Rightarrow> ptr \<Rightarrow> ptr option" where
  "vptr m a = (let p = vmm_virt_to_phys m (kernel_pml4 m) a in if p = 0 then None else Some (PHYS_TO_VIRT m p))"

definition load8 :: "ptr \<Rightarrow> 'a vm_machine_scheme \<Rightarrow> u8 option" where
  "load8 a m = map_option (pmem m) (vptr m a)"

definition load32 :: "ptr \<Rightarrow> 'a vm_machine_scheme \<Rightarrow> u32 option" where
  "load32 a m = map_option (rd32 (pmem m)) (vptr m a)"

definition load64 :: "ptr \<Rightarrow> 'a vm_machine_scheme \<Rightarrow> u64 option" where
  "load64 a m = map_option (rd64 (pmem m)) (vptr m a)"

definition store8 :: "ptr \<Rightarrow> u8 \<Rightarrow> 'a vm_machine_scheme \<Rightarrow> 'a vm_machine_scheme option" where
  "store8 a v m = map_option (\<lambda>p. m\<lparr>pmem := (pmem m)(p := v)\<rparr>) (vptr m a)"

definition store32 :: "ptr \<Rightarrow> u32 \<Rightarrow> 'a vm_machine_scheme \<Rightarrow> 'a vm_machine_scheme option" where
  "store32 a v m = map_option (\<lambda>p. m\<lparr>pmem := wr32 (pmem m) p v\<rparr>) (vptr m a)"

definition store64 :: "ptr \<Rightarrow> u64 \<Rightarrow> 'a vm_machine_scheme \<Rightarrow> 'a vm_machine_scheme option" where
  "store64 a v m = map_option (\<lambda>p. m\<lparr>pmem := wr64 (pmem m) p v\<rparr>) (vptr m a)"

text \<open>The byte loops of \<^verbatim>\<open>memcpy\<close> and \<^verbatim>\<open>memset\<close> on heap addresses.\<close>

definition heap_memcpy :: "ptr \<Rightarrow> ptr \<Rightarrow> u64 \<Rightarrow> 'a vm_machine_scheme \<Rightarrow> 'a vm_machine_scheme option" where
  "heap_memcpy dest src n =
     each (\<lambda>i m. Option.bind (load8 (src + of_nat i) m) (\<lambda>b. store8 (dest + of_nat i) b m)) [0..<unat n]"

definition heap_memset :: "ptr \<Rightarrow> u8 \<Rightarrow> u64 \<Rightarrow> 'a vm_machine_scheme \<Rightarrow> 'a vm_machine_scheme option" where
  "heap_memset s c n = each (\<lambda>i. store8 (s + of_nat i) c) [0..<unat n]"

subsection \<open>Slabs\<close>

text \<open>
  A slab is a page with a 32-byte header, \<^verbatim>\<open>struct slab_header\<close>, followed by equal slots; free
  slots are chained through their first eight bytes.
\<close>

definition next_slab :: "ptr \<Rightarrow> ptr" where "next_slab slab = slab"
definition free_list :: "ptr \<Rightarrow> ptr" where "free_list slab = slab + 8"
definition slot_size :: "ptr \<Rightarrow> ptr" where "slot_size slab = slab + 16"
definition slots_free :: "ptr \<Rightarrow> ptr" where "slots_free slab = slab + 20"
definition sizeof_slab_header :: u64 where "sizeof_slab_header = 32"

definition bucket_sizes :: "u32 list" where
  "bucket_sizes = [16, 32, 64, 128, 256, 512, 1024, 2048]"

definition init_slab :: "'a slab_machine_scheme \<Rightarrow> 'a slab_machine_scheme" where
  "init_slab m = m\<lparr>heap_virtual_top := 0xffff900000000000, buckets := replicate 8 NULL\<rparr>"

definition get_bucket_idx :: "u64 \<Rightarrow> nat option" where
  "get_bucket_idx sz = find_idx 8 (\<lambda>i. sz \<le> ucast (bucket_sizes ! i))"

primrec heap_extend_loop :: "nat \<Rightarrow> 'a slab_machine_scheme \<Rightarrow> (bool \<times> 'a slab_machine_scheme) option" where
  "heap_extend_loop 0 m = Some (True, m)"
| "heap_extend_loop (Suc n) m =
     Option.bind (palloc_zero m) (\<lambda>(phys, m1).
       if phys = NULL then Some (False, m1)
       else Option.bind (map_page (vmm_get_kernel_pml4 m1) (heap_virtual_top m1) phys PTE_WRITABLE m1) (\<lambda>m2.
         heap_extend_loop n (m2\<lparr>heap_virtual_top := heap_virtual_top m2 + PAGE_SIZE\<rparr>)))"

definition heap_extend :: "u64 \<Rightarrow> 'a slab_machine_scheme \<Rightarrow> (ptr \<times> 'a slab_machine_scheme) option" where
  "heap_extend pages m =
     map_option (\<lambda>(ok, m'). (if ok then heap_virtual_top m else NULL, m')) (heap_extend_loop (unat pages) m)"

text \<open>The part of \<^verbatim>\<open>kmalloc\<close> that turns a fresh page into a slab of bucket \<open>bk\<close>.\<close>

definition chain_slots :: "ptr \<Rightarrow> u32 \<Rightarrow> u32 \<Rightarrow> 'a slab_machine_scheme \<Rightarrow> 'a slab_machine_scheme option" where
  "chain_slots first_slot sz n m =
     Option.bind (each (\<lambda>i. store64 (first_slot + ucast (of_nat i * sz)) (first_slot + ucast ((of_nat i + 1) * sz)))
       [0..<unat (n - 1)] m)
     (store64 (first_slot + ucast ((n - 1) * sz)) NULL)"

definition new_slab :: "nat \<Rightarrow> ptr \<Rightarrow> 'a slab_machine_scheme \<Rightarrow> 'a slab_machine_scheme option" where
  "new_slab bk page m =
     (let sz = bucket_sizes ! bk; n = (ucast PAGE_SIZE - ucast sizeof_slab_header) div sz;
          first_slot = page + sizeof_slab_header
      in Option.bind (store32 (slot_size page) sz m) (\<lambda>m1.
         Option.bind (store32 (slots_free page) n m1) (\<lambda>m2.
         Option.bind (store64 (next_slab page) (buckets m2 ! bk) m2) (\<lambda>m3.
         Option.bind (store64 (free_list page) first_slot m3) (\<lambda>m4.
         map_option (\<lambda>m5. m5\<lparr>buckets := (buckets m5)[bk := page]\<rparr>) (chain_slots first_slot sz n m4))))))"

definition take_slot :: "ptr \<Rightarrow> 'a slab_machine_scheme \<Rightarrow> (ptr \<times> 'a slab_machine_scheme) option" where
  "take_slot slab m =
     Option.bind (load64 (free_list slab) m) (\<lambda>addr.
     Option.bind (load64 addr m) (\<lambda>nxt.
     Option.bind (store64 (free_list slab) nxt m) (\<lambda>m1.
     Option.bind (load32 (slots_free slab) m1) (\<lambda>n.
     map_option (Pair addr) (store32 (slots_free slab) (n - 1) m1)))))"

definition kmalloc :: "u64 \<Rightarrow> 'a slab_machine_scheme \<Rightarrow> (ptr \<times> 'a slab_machine_scheme) option" where
  "kmalloc sz m =
     (if sz = 0 then Some (NULL, m)
      else case get_bucket_idx sz of
        None \<Rightarrow> heap_extend ((sz + PAGE_SIZE - 1) div PAGE_SIZE) m
      | Some bk \<Rightarrow>
          let slab = buckets m ! bk in
          Option.bind (if slab = NULL then Some 0 else load32 (slots_free slab) m) (\<lambda>n.
          if n = 0 then
            Option.bind (heap_extend 1 m) (\<lambda>(page, m1).
            if page = NULL then Some (NULL, m1)
            else Option.bind (new_slab bk page m1) (take_slot page))
          else take_slot slab m))"

definition kfree :: "ptr \<Rightarrow> 'a slab_machine_scheme \<Rightarrow> 'a slab_machine_scheme option" where
  "kfree p m =
     (if p = NULL then Some m
      else let slab = page_base p in
        Option.bind (load32 (slot_size slab) m) (\<lambda>sz.
        if sz = 0 then Some m
        else Option.bind (load64 (free_list slab) m) (\<lambda>fl.
          Option.bind (store64 p fl m) (\<lambda>m1.
          Option.bind (store64 (free_list slab) p m1) (\<lambda>m2.
          Option.bind (load32 (slots_free slab) m2) (\<lambda>n.
          store32 (slots_free slab) (n + 1) m2))))))"

definition get_allocation_size :: "ptr \<Rightarrow> 'a slab_machine_scheme \<Rightarrow> u64 option" where
  "get_allocation_size p m =
     (if p = NULL then Some 0
      else map_option (\<lambda>sz. if 0 < sz \<and> sz \<le> 2048 then ucast sz else PAGE_SIZE) (load32 (slot_size (page_base p)) m))"

definition krealloc :: "ptr \<Rightarrow> u64 \<Rightarrow> 'a slab_machine_scheme \<Rightarrow> (ptr \<times> 'a slab_machine_scheme) option" where
  "krealloc p new_size m =
     (if p = NULL then kmalloc new_size m
      else if new_size = 0 then map_option (Pair NULL) (kfree p m)
      else Option.bind (kmalloc new_size m) (\<lambda>(new_ptr, m1).
        if new_ptr = NULL then Some (NULL, m1)
        else Option.bind (get_allocation_size p m1) (\<lambda>old_size.
          Option.bind (heap_memcpy new_ptr p (if old_size < new_size then old_size else new_size) m1) (\<lambda>m2.
          map_option (Pair new_ptr) (kfree p m2)))))"

definition kzalloc :: "u64 \<Rightarrow> 'a slab_machine_scheme \<Rightarrow> (ptr \<times> 'a slab_machine_scheme) option" where
  "kzalloc sz m =
     Option.bind (kmalloc sz m) (\<lambda>(p, m1). if p \<noteq> NULL then map_option (Pair p) (heap_memset p 0 sz m1) else Some (p, m1))"

end
