(* ===== verification/Sched.thy ===== *)
theory Sched
  imports Slab
begin

text \<open>
  Processes and the scheduler: \<^verbatim>\<open>include/proc.h\<close>, \<^verbatim>\<open>kernel/sched.c\<close>, \<^verbatim>\<open>kernel/kthread.c\<close> and
  \<^verbatim>\<open>kernel/signal.c\<close>. Process and file structures are objects in typed stores indexed by
  their address; the allocator calls act on the heap of theory \<open>Slab\<close>. Using a pointer to an
  object that does not exist, and \<^verbatim>\<open>panic\<close>, are \<open>None\<close>.
\<close>

section \<open>Definitions\<close>

subsection \<open>Data\<close>

record registers_t =
  r_es :: u64
  r_ds :: u64
  r_r15 :: u64
  r_r14 :: u64
  r_r13 :: u64
  r_r12 :: u64
  r_r11 :: u64
  r_r10 :: u64
  r_r9 :: u64
  r_r8 :: u64
  r_rdi :: u64
  r_rsi :: u64
  r_rbp :: u64
  r_rbx :: u64
  r_rdx :: u64
  r_rcx :: u64
  r_rax :: u64
  r_int_no :: u64
  r_err_code :: u64
  r_rip :: u64
  r_cs :: u64
  r_rflags :: u64
  r_rsp :: u64
  r_ss :: u64

definition zero_registers :: registers_t where
  "zero_registers = \<lparr>r_es = 0, r_ds = 0, r_r15 = 0, r_r14 = 0, r_r13 = 0, r_r12 = 0, r_r11 = 0, r_r10 = 0,
     r_r9 = 0, r_r8 = 0, r_rdi = 0, r_rsi = 0, r_rbp = 0, r_rbx = 0, r_rdx = 0, r_rcx = 0, r_rax = 0,
     r_int_no = 0, r_err_code = 0, r_rip = 0, r_cs = 0, r_rflags = 0, r_rsp = 0, r_ss = 0\<rparr>"

text \<open>A \<^verbatim>\<open>registers_t *\<close>: null, the frame of the current interrupt, or the context of a process.\<close>

datatype regs_ptr = NullRegs | Frame | Context ptr

datatype task_state_t = TASK_RUNNING | TASK_READY | TASK_SLEEPING | TASK_WAITING | TASK_ZOMBIE

datatype task_prio_t = PRIO_IDLE | PRIO_LOW | PRIO_NORMAL | PRIO_HIGH

primrec prio_int :: "task_prio_t \<Rightarrow> int" where
  "prio_int PRIO_IDLE = 0"
| "prio_int PRIO_LOW = 1"
| "prio_int PRIO_NORMAL = 2"
| "prio_int PRIO_HIGH = 3"

datatype process_wait_reason_t = WAIT_NONE | WAIT_CHILD | WAIT_TTY

definition SIGINT :: nat where "SIGINT = 2"
definition SIGKILL :: nat where "SIGKILL = 9"
definition SIGTERM :: nat where "SIGTERM = 15"
definition MAX_PROCESSES :: nat where "MAX_PROCESSES = 64"
definition MAX_FILES :: nat where "MAX_FILES = 32"
definition KTHREAD_STACK_SIZE :: u64 where "KTHREAD_STACK_SIZE = 16384"
definition sizeof_process_t :: u64 where "sizeof_process_t = 1872"
definition sizeof_vfs_file_t :: u64 where "sizeof_vfs_file_t = 24"

record process_t =
  pid :: u64
  parent_pid :: u64
  exit_code :: "32 word"
  pml4 :: ptr
  entry_point :: u64
  stack_top :: u64
  kstack_top :: u64
  brk :: u64
  brk_start :: u64
  ctx :: registers_t
  context_ptr :: regs_ptr
  state :: task_state_t
  priority :: task_prio_t
  wait_reason :: process_wait_reason_t
  wait_channel :: ptr
  wait_pid :: "32 word"
  files :: "ptr list"
  vfse :: ptr
  sse_state :: "u8 list"
  tls_base :: u64
  tls_size :: u32
  is_kthread :: bool
  sleep_deadline :: u64
  pending_signals :: u64
  blocked_signals :: u64
  signal_handlers :: "u64 list"
  saved_user_context :: registers_t
  inside_signal_handler :: bool
  name :: "u8 list"

text \<open>What \<^verbatim>\<open>kzalloc\<close> leaves in a process structure: \<^verbatim>\<open>TASK_RUNNING\<close>, \<^verbatim>\<open>PRIO_IDLE\<close> and \<^verbatim>\<open>WAIT_NONE\<close> are 0.\<close>

definition zero_process :: process_t where
  "zero_process = \<lparr>pid = 0, parent_pid = 0, exit_code = 0, pml4 = NULL, entry_point = 0, stack_top = 0, kstack_top = 0,
     brk = 0, brk_start = 0, ctx = zero_registers, context_ptr = NullRegs, state = TASK_RUNNING,
     priority = PRIO_IDLE, wait_reason = WAIT_NONE, wait_channel = NULL, wait_pid = 0,
     files = replicate MAX_FILES NULL, vfse = NULL, sse_state = replicate 512 0, tls_base = 0, tls_size = 0,
     is_kthread = False, sleep_deadline = 0, pending_signals = 0, blocked_signals = 0,
     signal_handlers = replicate 64 0, saved_user_context = zero_registers, inside_signal_handler = False,
     name = replicate 32 0\<rparr>"

record vfs_file_t =
  file_node :: ptr
  file_pos :: u64
  file_flags :: "32 word"

record kernel = slab_machine +
  procs :: "ptr \<rightharpoonup> process_t"
  open_files :: "ptr \<rightharpoonup> vfs_file_t"
  processes :: "ptr list"
  process_count :: int
  current_process_index :: int
  current_process :: ptr
  init_process :: ptr
  idle_process :: ptr
  rr_cursor :: int
  next_pid :: u64
  timer_ticks :: u64
  cpu_id :: nat
  tss_rsp0 :: "nat \<Rightarrow> u64"
  cpu_kernel_stack :: "nat \<Rightarrow> u64"
  fpu :: "u8 list"
  interrupt_frame :: registers_t

text \<open>Reading and writing through a \<^verbatim>\<open>process_t *\<close>.\<close>

definition proc_at :: "ptr \<Rightarrow> 'a kernel_scheme \<Rightarrow> process_t option" where
  "proc_at p k = procs k p"

definition upd_proc :: "ptr \<Rightarrow> (process_t \<Rightarrow> process_t) \<Rightarrow> 'a kernel_scheme \<Rightarrow> 'a kernel_scheme option" where
  "upd_proc p f k = map_option (\<lambda>r. k\<lparr>procs := (procs k)(p \<mapsto> f r)\<rparr>) (procs k p)"

subsection \<open>The process table\<close>

definition process_table_find_free_slot :: "'a kernel_scheme \<Rightarrow> nat option" where
  "process_table_find_free_slot k = find_idx MAX_PROCESSES (\<lambda>i. processes k ! i = NULL)"

definition process_table_find :: "ptr \<Rightarrow> 'a kernel_scheme \<Rightarrow> nat option" where
  "process_table_find proc k = (if proc = NULL then None else find_idx MAX_PROCESSES (\<lambda>i. processes k ! i = proc))"

primrec find_pid :: "u64 \<Rightarrow> ptr list \<Rightarrow> 'a kernel_scheme \<Rightarrow> ptr option" where
  "find_pid i [] k = Some NULL"
| "find_pid i (p # ps) k =
     (if p = NULL then find_pid i ps k
      else do { r \<leftarrow> proc_at p k; if pid r = i then Some p else find_pid i ps k })"

definition find_process_by_pid :: "u64 \<Rightarrow> 'a kernel_scheme \<Rightarrow> ptr option" where
  "find_process_by_pid i k = find_pid i (processes k) k"

definition process_remove :: "ptr \<Rightarrow> 'a kernel_scheme \<Rightarrow> 'a kernel_scheme" where
  "process_remove proc k =
     (case process_table_find proc k of
        None \<Rightarrow> k
      | Some index \<Rightarrow>
          let k1 = k\<lparr>processes := (processes k)[index := NULL]\<rparr>;
              k2 = (if process_count k1 > 0 then k1\<lparr>process_count := process_count k1 - 1\<rparr> else k1)
          in if current_process_index k2 = int index then k2\<lparr>current_process_index := -1\<rparr> else k2)"

definition regs_at :: "regs_ptr \<Rightarrow> 'a kernel_scheme \<Rightarrow> registers_t option" where
  "regs_at regs k = (case regs of NullRegs \<Rightarrow> None | Frame \<Rightarrow> Some (interrupt_frame k) | Context p \<Rightarrow> map_option ctx (proc_at p k))"

definition process_save_context :: "ptr \<Rightarrow> regs_ptr \<Rightarrow> 'a kernel_scheme \<Rightarrow> 'a kernel_scheme option" where
  "process_save_context proc regs k =
     (if proc = NULL \<or> regs = NullRegs then Some k
      else do { r \<leftarrow> regs_at regs k; upd_proc proc (\<lambda>q. q\<lparr>ctx := r, context_ptr := Context proc\<rparr>) k })"

definition process_is_runnable :: "ptr \<Rightarrow> 'a kernel_scheme \<Rightarrow> bool option" where
  "process_is_runnable proc k =
     (if proc = NULL \<or> proc = idle_process k then Some False
      else map_option (\<lambda>r. state r = TASK_READY \<or> state r = TASK_RUNNING) (proc_at proc k))"

definition wake_sleeping :: "ptr \<Rightarrow> 'a kernel_scheme \<Rightarrow> 'a kernel_scheme option" where
  "wake_sleeping proc k =
     (if proc = NULL then Some k
      else do {
        r \<leftarrow> proc_at proc k;
        if state r = TASK_SLEEPING \<and> sleep_deadline r \<noteq> 0 \<and> timer_ticks k \<ge> sleep_deadline r
        then upd_proc proc (\<lambda>q. q\<lparr>sleep_deadline := 0, state := TASK_READY\<rparr>) k else Some k })"

definition wake_sleeping_processes :: "'a kernel_scheme \<Rightarrow> 'a kernel_scheme option" where
  "wake_sleeping_processes k = each (\<lambda>i k. wake_sleeping (processes k ! i) k) [0..<MAX_PROCESSES] k"

primrec highest_priority :: "ptr list \<Rightarrow> int \<Rightarrow> 'a kernel_scheme \<Rightarrow> int option" where
  "highest_priority [] highest k = Some highest"
| "highest_priority (p # ps) highest k = do {
     b \<leftarrow> process_is_runnable p k;
     if \<not> b then highest_priority ps highest k
     else do {
       r \<leftarrow> proc_at p k;
       highest_priority ps (if prio_int (priority r) > highest then prio_int (priority r) else highest) k } }"

definition find_highest_priority :: "'a kernel_scheme \<Rightarrow> int option" where
  "find_highest_priority k = highest_priority (processes k) (- 1) k"

text \<open>The round-robin scan: the first runnable process of the given priority at or after the cursor.\<close>

primrec scan_from :: "nat list \<Rightarrow> int \<Rightarrow> 'a kernel_scheme \<Rightarrow> nat option option" where
  "scan_from [] highest k = Some None"
| "scan_from (n # ns) highest k =
     (let index = nat (rr_cursor k + int n) mod MAX_PROCESSES; p = processes k ! index in do {
        b \<leftarrow> process_is_runnable p k;
        if \<not> b then scan_from ns highest k
        else do {
          r \<leftarrow> proc_at p k;
          if prio_int (priority r) \<noteq> highest then scan_from ns highest k else Some (Some index) } })"

definition pick_next_process :: "'a kernel_scheme \<Rightarrow> (nat option \<times> 'a kernel_scheme) option" where
  "pick_next_process k = do {
     highest \<leftarrow> find_highest_priority k;
     if highest < 0 then Some (None, k)
     else
       let k1 = (if rr_cursor k < 0 \<or> rr_cursor k \<ge> int MAX_PROCESSES then k\<lparr>rr_cursor := 0\<rparr> else k)
       in map_option (\<lambda>i. (i, k1)) (scan_from [0..<MAX_PROCESSES] highest k1) }"

definition update_kernel_stack :: "ptr \<Rightarrow> 'a kernel_scheme \<Rightarrow> 'a kernel_scheme option" where
  "update_kernel_stack proc k =
     (if proc = NULL then Some k
      else map_option (\<lambda>r. k\<lparr>tss_rsp0 := (tss_rsp0 k)(cpu_id k := kstack_top r),
             cpu_kernel_stack := (cpu_kernel_stack k)(cpu_id k := kstack_top r)\<rparr>) (proc_at proc k))"

subsection \<open>Destruction\<close>

text \<open>\<^verbatim>\<open>kfree\<close> of a structure also ends the life of the typed object at that address.\<close>

definition free_file :: "ptr \<Rightarrow> 'a kernel_scheme \<Rightarrow> 'a kernel_scheme option" where
  "free_file p k = map_option (\<lambda>k'. k'\<lparr>open_files := (open_files k')(p := None)\<rparr>) (kfree p k)"

definition free_process :: "ptr \<Rightarrow> 'a kernel_scheme \<Rightarrow> 'a kernel_scheme option" where
  "free_process p k = map_option (\<lambda>k'. k'\<lparr>procs := (procs k')(p := None)\<rparr>) (kfree p k)"

definition close_file :: "ptr \<Rightarrow> nat \<Rightarrow> 'a kernel_scheme \<Rightarrow> 'a kernel_scheme option" where
  "close_file proc i k = do {
     r \<leftarrow> proc_at proc k;
     if files r ! i = NULL then Some k
     else do { k1 \<leftarrow> free_file (files r ! i) k; upd_proc proc (\<lambda>q. q\<lparr>files := (files q)[i := NULL]\<rparr>) k1 } }"

definition process_close_files :: "ptr \<Rightarrow> 'a kernel_scheme \<Rightarrow> 'a kernel_scheme option" where
  "process_close_files proc k = (if proc = NULL then Some k else each (close_file proc) [0..<MAX_FILES] k)"

definition process_destroy :: "ptr \<Rightarrow> 'a kernel_scheme \<Rightarrow> 'a kernel_scheme option" where
  "process_destroy proc k =
     (if proc = NULL \<or> proc = idle_process k then Some k
      else do {
        k1 \<leftarrow> process_close_files proc k;
        r1 \<leftarrow> proc_at proc k1;
        k2 \<leftarrow> (if kstack_top r1 \<noteq> 0
               then do { k' \<leftarrow> kfree (kstack_top r1 - 32768) k1; upd_proc proc (\<lambda>q. q\<lparr>kstack_top := 0\<rparr>) k' }
               else Some k1);
        r2 \<leftarrow> proc_at proc k2;
        k3 \<leftarrow> (if pml4 r2 \<noteq> NULL \<and> \<not> is_kthread r2
               then do { k' \<leftarrow> vmm_free_user_pages (pml4 r2) k2; upd_proc proc (\<lambda>q. q\<lparr>pml4 := NULL\<rparr>) k' }
               else Some k2);
        free_process proc k3 })"

definition adopt_child :: "ptr \<Rightarrow> nat \<Rightarrow> 'a kernel_scheme \<Rightarrow> 'a kernel_scheme option" where
  "adopt_child proc i k =
     (let kid = processes k ! i in
      if kid = NULL then Some k
      else do {
        c \<leftarrow> proc_at kid k;
        r \<leftarrow> proc_at proc k;
        if parent_pid c \<noteq> pid r then Some k
        else do {
          ini \<leftarrow> proc_at (init_process k) k;
          k1 \<leftarrow> upd_proc kid (\<lambda>q. q\<lparr>parent_pid := pid ini\<rparr>) k;
          if state c = TASK_ZOMBIE \<and> state ini = TASK_WAITING
          then upd_proc (init_process k1) (\<lambda>q. q\<lparr>state := TASK_READY\<rparr>) k1 else Some k1 } })"

definition adopt_children :: "ptr \<Rightarrow> 'a kernel_scheme \<Rightarrow> 'a kernel_scheme option" where
  "adopt_children proc k =
     (if proc = NULL \<or> init_process k = NULL \<or> proc = init_process k then Some k
      else each (adopt_child proc) [0..<MAX_PROCESSES] k)"

subsection \<open>Scheduling\<close>

definition add_process :: "ptr \<Rightarrow> 'a kernel_scheme \<Rightarrow> int \<times> 'a kernel_scheme" where
  "add_process proc k =
     (if proc = NULL then (- 1, k)
      else if process_table_find proc k \<noteq> None then (0, k)
      else case process_table_find_free_slot k of
        None \<Rightarrow> (- 1, k)
      | Some slot \<Rightarrow> (0, k\<lparr>processes := (processes k)[slot := proc], process_count := process_count k + 1\<rparr>))"

text \<open>The tail of \<^verbatim>\<open>scheduler\<close> when a process was picked.\<close>

definition switch_to :: "regs_ptr \<Rightarrow> ptr \<Rightarrow> nat \<Rightarrow> 'a kernel_scheme \<Rightarrow> (regs_ptr \<times> 'a kernel_scheme) option" where
  "switch_to regs old next_index k =
     (let nxt = processes k ! next_index in
      if nxt = NULL then
        (if regs \<noteq> NullRegs then Some (regs, k)
         else if idle_process k \<noteq> NULL then map_option (\<lambda>r. (context_ptr r, k)) (proc_at (idle_process k) k)
         else None)
      else if nxt = old then
        map_option (\<lambda>k'. (regs, k'\<lparr>current_process_index := int next_index,
            rr_cursor := int ((next_index + 1) mod MAX_PROCESSES)\<rparr>)) (upd_proc nxt (\<lambda>q. q\<lparr>state := TASK_RUNNING\<rparr>) k)
      else do {
        k1 \<leftarrow> (if old \<noteq> NULL \<and> old \<noteq> idle_process k then upd_proc old (\<lambda>q. q\<lparr>sse_state := fpu k\<rparr>) k else Some k);
        rn \<leftarrow> proc_at nxt k1;
        k2 \<leftarrow> (if old = NULL then Some (vmm_switch (pml4 rn) k1)
               else map_option (\<lambda>ro. if pml4 ro \<noteq> pml4 rn then vmm_switch (pml4 rn) k1 else k1) (proc_at old k1));
        k3 \<leftarrow> upd_proc nxt (\<lambda>q. q\<lparr>state := TASK_RUNNING\<rparr>)
                (k2\<lparr>current_process := nxt, current_process_index := int next_index\<rparr>);
        k4 \<leftarrow> update_kernel_stack nxt (k3\<lparr>rr_cursor := int ((next_index + 1) mod MAX_PROCESSES)\<rparr>);
        Some (Context nxt, k4\<lparr>fpu := sse_state rn\<rparr>) })"

text \<open>The branch of \<^verbatim>\<open>scheduler\<close> when nothing in the table can run.\<close>

definition nothing_runnable :: "regs_ptr \<Rightarrow> ptr \<Rightarrow> 'a kernel_scheme \<Rightarrow> (regs_ptr \<times> 'a kernel_scheme) option" where
  "nothing_runnable regs old k = do {
     b \<leftarrow> (if old = NULL then Some False else process_is_runnable old k);
     if b then map_option (Pair regs) (upd_proc old (\<lambda>q. q\<lparr>state := TASK_RUNNING\<rparr>) k)
     else if old = NULL \<and> regs \<noteq> NullRegs then Some (regs, k)
     else if idle_process k \<noteq> NULL then do {
       k1 \<leftarrow> update_kernel_stack (idle_process k) (k\<lparr>current_process := idle_process k, current_process_index := -1\<rparr>);
       r \<leftarrow> proc_at (idle_process k1) k1;
       Some (context_ptr r, k1) }
     else if regs \<noteq> NullRegs then Some (regs, k)
     else None }"

definition scheduler :: "regs_ptr \<Rightarrow> 'a kernel_scheme \<Rightarrow> (regs_ptr \<times> 'a kernel_scheme) option" where
  "scheduler regs k =
     (let old = current_process k in do {
        k1 \<leftarrow> process_save_context old regs k;
        k2 \<leftarrow> wake_sleeping_processes k1;
        k3 \<leftarrow> (if old \<noteq> NULL then do {
                 r \<leftarrow> proc_at old k2;
                 if state r = TASK_RUNNING \<and> regs \<noteq> NullRegs then upd_proc old (\<lambda>q. q\<lparr>state := TASK_READY\<rparr>) k2
                 else Some k2 }
               else Some k2);
        (nxt, k4) \<leftarrow> pick_next_process k3;
        case nxt of None \<Rightarrow> nothing_runnable regs old k4 | Some i \<Rightarrow> switch_to regs old i k4 })"

subsection \<open>Waiting, exit and fork\<close>

text \<open>
  \<^verbatim>\<open>do_wait\<close> returns its value, what it stored through \<^verbatim>\<open>status\<close> and \<^verbatim>\<open>should_block\<close>, and the new
  state. The scan looks at the table slots in order and reaps the first zombie child.
\<close>

primrec wait_scan :: "32 word \<Rightarrow> nat list \<Rightarrow> bool \<Rightarrow> 'a kernel_scheme \<Rightarrow> (ptr option \<times> bool) option" where
  "wait_scan wpid [] has_children k = Some (None, has_children)"
| "wait_scan wpid (i # is) has_children k =
     (let kid = processes k ! i in
      if kid = NULL then wait_scan wpid is has_children k
      else do {
        c \<leftarrow> proc_at kid k;
        me \<leftarrow> proc_at (current_process k) k;
        if parent_pid c \<noteq> pid me \<or> wpid \<noteq> - 1 \<and> pid c \<noteq> scast wpid then wait_scan wpid is has_children k
        else if state c \<noteq> TASK_ZOMBIE then wait_scan wpid is True k
        else Some (Some kid, True) })"

definition do_wait :: "32 word \<Rightarrow> 'a kernel_scheme \<Rightarrow> (32 word \<times> 32 word option \<times> bool \<times> 'a kernel_scheme) option" where
  "do_wait wpid k =
     (if current_process k = NULL then Some (- 1, None, False, k)
      else do {
        (found, has_children) \<leftarrow> wait_scan wpid [0..<MAX_PROCESSES] False k;
        case found of
          Some kid \<Rightarrow> do {
            c \<leftarrow> proc_at kid k;
            k1 \<leftarrow> process_destroy kid (process_remove kid k);
            k2 \<leftarrow> upd_proc (current_process k1) (\<lambda>q. q\<lparr>wait_reason := WAIT_NONE, wait_channel := NULL, wait_pid := - 1\<rparr>) k1;
            Some (ucast (pid c), Some (exit_code c), False, k2) }
        | None \<Rightarrow>
            if \<not> has_children then Some (- 1, None, False, k)
            else do {
              k1 \<leftarrow> upd_proc (current_process k)
                     (\<lambda>q. q\<lparr>wait_reason := WAIT_CHILD, wait_channel := NULL, wait_pid := wpid, state := TASK_WAITING\<rparr>) k;
              Some (0, None, True, k1) } })"

text \<open>\<^verbatim>\<open>do_exit\<close> never returns to its caller: the result is the context the processor continues with.\<close>

definition do_exit :: "32 word \<Rightarrow> 'a kernel_scheme \<Rightarrow> (regs_ptr \<times> 'a kernel_scheme) option" where
  "do_exit code k =
     (if current_process k = NULL \<or> current_process k = idle_process k then None
      else let exiting = current_process k in do {
        k1 \<leftarrow> upd_proc exiting (\<lambda>q. q\<lparr>exit_code := code, state := TASK_ZOMBIE\<rparr>) k;
        k2 \<leftarrow> adopt_children exiting k1;
        r \<leftarrow> proc_at exiting k2;
        parent \<leftarrow> find_process_by_pid (parent_pid r) k2;
        k3 \<leftarrow> (if parent = NULL then Some k2
               else do {
                 q \<leftarrow> proc_at parent k2;
                 if state q = TASK_WAITING \<and> wait_reason q = WAIT_CHILD
                 then upd_proc parent (\<lambda>q. q\<lparr>state := TASK_READY, wait_reason := WAIT_NONE, wait_channel := NULL, wait_pid := - 1\<rparr>) k2
                 else Some k2 });
        (nxt, k4) \<leftarrow> scheduler NullRegs (k3\<lparr>current_process := NULL, current_process_index := -1\<rparr>);
        if nxt = NullRegs then None else Some (nxt, k4) })"

definition alloc_process :: "'a kernel_scheme \<Rightarrow> (ptr \<times> 'a kernel_scheme) option" where
  "alloc_process k = do {
     (p, k1) \<leftarrow> kzalloc sizeof_process_t k;
     Some (p, if p = NULL then k1 else k1\<lparr>procs := (procs k1)(p \<mapsto> zero_process)\<rparr>) }"

definition dup_file :: "ptr \<Rightarrow> 'a kernel_scheme \<Rightarrow> (ptr \<times> 'a kernel_scheme) option" where
  "dup_file src k =
     (if src = NULL then Some (NULL, k)
      else do {
        (p, k1) \<leftarrow> kmalloc sizeof_vfs_file_t k;
        if p = NULL then Some (NULL, k1)
        else do { f \<leftarrow> open_files k1 src; Some (p, k1\<lparr>open_files := (open_files k1)(p \<mapsto> f)\<rparr>) } })"

text \<open>The loop that duplicates the open files; it stops with \<open>False\<close> at the first failure.\<close>

primrec dup_files :: "ptr \<Rightarrow> ptr \<Rightarrow> nat list \<Rightarrow> 'a kernel_scheme \<Rightarrow> (bool \<times> 'a kernel_scheme) option" where
  "dup_files src dst [] k = Some (True, k)"
| "dup_files src dst (i # is) k = do {
     s \<leftarrow> proc_at src k;
     if files s ! i = NULL then dup_files src dst is k
     else do {
       (f, k1) \<leftarrow> dup_file (files s ! i) k;
       k2 \<leftarrow> upd_proc dst (\<lambda>q. q\<lparr>files := (files q)[i := f]\<rparr>) k1;
       if f = NULL then Some (False, k2) else dup_files src dst is k2 } }"

text \<open>The clean-up that the failure branches of \<^verbatim>\<open>clone_process\<close> share.\<close>

definition abandon_clone :: "ptr \<Rightarrow> ptr \<Rightarrow> 'a kernel_scheme \<Rightarrow> 'a kernel_scheme option" where
  "abandon_clone dst kstack k = do {
     k1 \<leftarrow> each (close_file dst) [0..<MAX_FILES] k;
     k2 \<leftarrow> kfree kstack k1;
     r \<leftarrow> proc_at dst k2;
     k3 \<leftarrow> vmm_free_user_pages (pml4 r) k2;
     k4 \<leftarrow> kfree (pml4 r) k3;
     free_process dst k4 }"

definition clone_process :: "ptr \<Rightarrow> regs_ptr \<Rightarrow> 'a kernel_scheme \<Rightarrow> (ptr \<times> 'a kernel_scheme) option" where
  "clone_process src regs k =
     (if src = NULL \<or> regs = NullRegs then Some (NULL, k)
      else do {
        s \<leftarrow> proc_at src k;
        if state s = TASK_ZOMBIE then Some (NULL, k)
        else if process_table_find_free_slot k = None then Some (NULL, k)
        else do {
          (dst, k1) \<leftarrow> alloc_process k;
          if dst = NULL then Some (NULL, k1)
          else do {
            k2 \<leftarrow> upd_proc dst (\<lambda>q. q\<lparr>pid := next_pid k1, parent_pid := pid s, priority := priority s, state := TASK_READY,
                   is_kthread := False, entry_point := entry_point s, stack_top := stack_top s, brk := brk s,
                   brk_start := brk_start s, tls_base := tls_base s, tls_size := tls_size s,
                   blocked_signals := blocked_signals s, signal_handlers := signal_handlers s, name := name s\<rparr>)
                   (k1\<lparr>next_pid := next_pid k1 + 1\<rparr>);
            (new_pml4, k3) \<leftarrow> vmm_clone_pml4 (pml4 s) k2;
            k4 \<leftarrow> upd_proc dst (\<lambda>q. q\<lparr>pml4 := new_pml4\<rparr>) k3;
            if new_pml4 = NULL then map_option (Pair NULL) (free_process dst k4)
            else do {
              (kstack, k5) \<leftarrow> kmalloc 32768 k4;
              if kstack = NULL then do {
                k6 \<leftarrow> vmm_free_user_pages new_pml4 k5;
                k7 \<leftarrow> kfree new_pml4 k6;
                map_option (Pair NULL) (free_process dst k7) }
              else do {
                r \<leftarrow> regs_at regs k5;
                k6 \<leftarrow> upd_proc dst (\<lambda>q. q\<lparr>kstack_top := kstack + 32768, ctx := r\<lparr>r_rax := 0\<rparr>,
                       context_ptr := Context dst, sse_state := sse_state s\<rparr>) k5;
                (ok, k7) \<leftarrow> dup_files src dst [0..<MAX_FILES] k6;
                if \<not> ok then map_option (Pair NULL) (abandon_clone dst kstack k7)
                else let (rc, k8) = add_process dst k7 in
                  if rc < 0 then map_option (Pair NULL) (abandon_clone dst kstack k8)
                  else Some (dst, k8) } } } } })"

subsection \<open>Start-up\<close>

text \<open>The initial idle process; \<open>idle_loop\<close> is the address of \<^verbatim>\<open>kernel_idle_loop\<close>.\<close>

definition init_scheduler :: "u64 \<Rightarrow> 'a kernel_scheme \<Rightarrow> 'a kernel_scheme option" where
  "init_scheduler idle_loop k = do {
     (idle, k1) \<leftarrow> alloc_process (k\<lparr>processes := replicate MAX_PROCESSES NULL, process_count := 0, current_process_index := -1,
        current_process := NULL, init_process := NULL, idle_process := NULL, rr_cursor := 0\<rparr>);
     if idle = NULL then None
     else do {
       (kstack, k2) \<leftarrow> kmalloc 32768 (k1\<lparr>idle_process := idle\<rparr>);
       if kstack = NULL then None
       else upd_proc idle (\<lambda>q. q\<lparr>pid := 0, parent_pid := 0, state := TASK_RUNNING, priority := PRIO_IDLE,
         is_kthread := True, pml4 := vmm_get_kernel_pml4 k2, kstack_top := kstack + 32768,
         ctx := zero_registers\<lparr>r_es := 0x10, r_ds := 0x10, r_rip := idle_loop, r_rsp := kstack + 32768,
           r_cs := 0x08, r_ss := 0x10, r_rflags := 0x202\<rparr>,
         context_ptr := Context idle, sse_state := fpu k2\<rparr>) k2 } }"

subsection \<open>Kernel threads\<close>

text \<open>\<^verbatim>\<open>strncpy\<close> into the name field of a structure, and the terminator.\<close>

definition name_field :: "u8 list \<Rightarrow> u8 list" where
  "name_field nm = take 31 (takeWhile (\<lambda>c. c \<noteq> 0) nm @ replicate 31 0) @ [0]"

definition kthread_regs :: "u64 \<Rightarrow> u64 \<Rightarrow> registers_t" where
  "kthread_regs trampoline ktop = zero_registers\<lparr>r_rip := trampoline, r_rsp := ktop, r_cs := 0x08, r_ss := 0x10,
     r_ds := 0x10, r_es := 0x10, r_rflags := 0x202\<rparr>"

text \<open>The frame \<^verbatim>\<open>kthread_create\<close> also builds on the new stack, at the offsets of \<^verbatim>\<open>registers_t\<close>.\<close>

definition store_kthread_frame :: "u64 \<Rightarrow> u64 \<Rightarrow> 'a kernel_scheme \<Rightarrow> 'a kernel_scheme option" where
  "store_kthread_frame trampoline ktop k =
     (let regs = ktop - 192 in do {
        k1 \<leftarrow> heap_memset regs 0 192 k;
        k2 \<leftarrow> store64 (regs + 152) trampoline k1;
        k3 \<leftarrow> store64 (regs + 176) ktop k2;
        k4 \<leftarrow> store64 (regs + 160) 0x08 k3;
        k5 \<leftarrow> store64 (regs + 184) 0x10 k4;
        k6 \<leftarrow> store64 (regs + 8) 0x10 k5;
        k7 \<leftarrow> store64 regs 0x10 k6;
        store64 (regs + 168) 0x202 k7 })"

definition kthread_create :: "u64 \<Rightarrow> u64 \<Rightarrow> u64 \<Rightarrow> u8 list \<Rightarrow> 'a kernel_scheme \<Rightarrow> (ptr \<times> 'a kernel_scheme) option" where
  "kthread_create trampoline fn arg nm k = do {
     (t, k1) \<leftarrow> alloc_process k;
     if t = NULL then Some (NULL, k1)
     else do {
       (kstack, k2) \<leftarrow> kmalloc KTHREAD_STACK_SIZE k1;
       if kstack = NULL then map_option (Pair NULL) (free_process t k2)
       else let ktop = (kstack + KTHREAD_STACK_SIZE) AND NOT 0xF in do {
         k3 \<leftarrow> upd_proc t (\<lambda>q. q\<lparr>kstack_top := ktop, pid := next_pid k2, parent_pid := 0, state := TASK_READY,
                priority := PRIO_NORMAL, pml4 := kernel_pml4 k2, is_kthread := True, name := name_field nm,
                entry_point := fn, stack_top := arg\<rparr>) (k2\<lparr>next_pid := next_pid k2 + 1\<rparr>);
         k4 \<leftarrow> store_kthread_frame trampoline ktop k3;
         k5 \<leftarrow> upd_proc t (\<lambda>q. q\<lparr>ctx := kthread_regs trampoline ktop, context_ptr := Context t\<rparr>) k4;
         Some (t, snd (add_process t k5)) } } }"

definition kthread_wake :: "ptr \<Rightarrow> 'a kernel_scheme \<Rightarrow> 'a kernel_scheme option" where
  "kthread_wake thread k =
     (if thread = NULL then Some k
      else do {
        r \<leftarrow> proc_at thread k;
        if state r \<noteq> TASK_SLEEPING then Some k
        else upd_proc thread (\<lambda>q. q\<lparr>sleep_deadline := 0, state := TASK_READY\<rparr>) k })"

subsection \<open>Signals\<close>

definition kernel_signal_raise :: "ptr \<Rightarrow> int \<Rightarrow> 'a kernel_scheme \<Rightarrow> 'a kernel_scheme option" where
  "kernel_signal_raise proc signum k =
     (if proc = NULL \<or> signum \<le> 0 \<or> signum \<ge> 64 then Some k
      else upd_proc proc (\<lambda>q. q\<lparr>pending_signals := pending_signals q OR push_bit (nat signum) 1,
             state := (if state q = TASK_WAITING \<or> state q = TASK_SLEEPING then TASK_READY else state q)\<rparr>) k)"

definition set_regs :: "regs_ptr \<Rightarrow> (registers_t \<Rightarrow> registers_t) \<Rightarrow> 'a kernel_scheme \<Rightarrow> 'a kernel_scheme option" where
  "set_regs regs f k =
     (case regs of
        NullRegs \<Rightarrow> None
      | Frame \<Rightarrow> Some (k\<lparr>interrupt_frame := f (interrupt_frame k)\<rparr>)
      | Context p \<Rightarrow> upd_proc p (\<lambda>q. q\<lparr>ctx := f (ctx q)\<rparr>) k)"

text \<open>
  \<^verbatim>\<open>signal_check_and_deliver\<close>: the first component is \<open>Some\<close> context when a fatal signal made
  \<^verbatim>\<open>do_exit\<close> continue elsewhere, \<open>None\<close> when the call returns.
\<close>

definition signal_check_and_deliver :: "regs_ptr \<Rightarrow> 'a kernel_scheme \<Rightarrow> (regs_ptr option \<times> 'a kernel_scheme) option" where
  "signal_check_and_deliver regs k =
     (if current_process k = NULL then Some (None, k)
      else do {
        me \<leftarrow> proc_at (current_process k) k;
        let actionable = pending_signals me AND NOT (blocked_signals me);
            signum = (case find_idx 63 (\<lambda>i. bit actionable (i + 1)) of None \<Rightarrow> 0 | Some i \<Rightarrow> i + 1)
        in if inside_signal_handler me \<or> actionable = 0 then Some (None, k)
        else do {
          k1 \<leftarrow> upd_proc (current_process k) (\<lambda>q. q\<lparr>pending_signals := pending_signals q AND NOT (push_bit signum 1)\<rparr>) k;
          let handler = signal_handlers me ! signum in
          if handler = 0 then
            (if signum = SIGINT \<or> signum = SIGKILL \<or> signum = SIGTERM
             then map_option (\<lambda>(nxt, k'). (Some nxt, k')) (do_exit (of_nat signum) k1)
             else Some (None, k1))
          else do {
            r \<leftarrow> regs_at regs k1;
            k2 \<leftarrow> upd_proc (current_process k1) (\<lambda>q. q\<lparr>inside_signal_handler := True, saved_user_context := r\<rparr>) k1;
            k3 \<leftarrow> set_regs regs (\<lambda>r. r\<lparr>r_rip := handler, r_rdi := of_nat signum, r_rax := 0\<rparr>) k2;
            Some (None, k3) } } })"

text \<open>
  The scheduling interrupts, timer and \<^verbatim>\<open>int 0x30\<close>, of \<^verbatim>\<open>k_exception_handler\<close>; \<^verbatim>\<open>sys_yield\<close>,
  \<^verbatim>\<open>kthread_yield\<close> and the yields below raise the latter. The result is the context the
  processor continues with.
\<close>

definition reschedule :: "'a kernel_scheme \<Rightarrow> (regs_ptr \<times> 'a kernel_scheme) option" where
  "reschedule k = do {
     (regs, k1) \<leftarrow> scheduler Frame k;
     if regs = NullRegs then None
     else do {
       r \<leftarrow> regs_at regs k1;
       if r_cs r AND 3 = 3 then do {
         (ex, k2) \<leftarrow> signal_check_and_deliver regs k1;
         Some (case ex of None \<Rightarrow> regs | Some nxt \<Rightarrow> nxt, k2) }
       else Some (regs, k1) } }"

definition timer_interrupt :: "'a kernel_scheme \<Rightarrow> (regs_ptr \<times> 'a kernel_scheme) option" where
  "timer_interrupt k = reschedule (k\<lparr>timer_ticks := timer_ticks k + 1\<rparr>)"

definition sys_yield :: "'a kernel_scheme \<Rightarrow> (regs_ptr \<times> 'a kernel_scheme) option" where
  "sys_yield = reschedule"

definition kthread_sleep_ms :: "u64 \<Rightarrow> 'a kernel_scheme \<Rightarrow> (regs_ptr \<times> 'a kernel_scheme) option" where
  "kthread_sleep_ms ms k =
     (if current_process k = NULL then Some (Frame, k)
      else do {
        me \<leftarrow> proc_at (current_process k) k;
        if \<not> is_kthread me then Some (Frame, k)
        else do {
          k1 \<leftarrow> upd_proc (current_process k) (\<lambda>q. q\<lparr>sleep_deadline := timer_ticks k + ms, state := TASK_SLEEPING\<rparr>) k;
          sys_yield k1 } })"

primrec wake_parent :: "nat list \<Rightarrow> u64 \<Rightarrow> 'a kernel_scheme \<Rightarrow> 'a kernel_scheme option" where
  "wake_parent [] i k = Some k"
| "wake_parent (n # ns) i k =
     (let p = processes k ! n in
      if p = NULL then wake_parent ns i k
      else do {
        r \<leftarrow> proc_at p k;
        if pid r \<noteq> i then wake_parent ns i k
        else if state r = TASK_WAITING then upd_proc p (\<lambda>q. q\<lparr>state := TASK_READY\<rparr>) k else Some k })"

definition kthread_exit :: "32 word \<Rightarrow> 'a kernel_scheme \<Rightarrow> (regs_ptr \<times> 'a kernel_scheme) option" where
  "kthread_exit code k =
     (if current_process k = NULL then Some (Frame, k)
      else do {
        k1 \<leftarrow> upd_proc (current_process k) (\<lambda>q. q\<lparr>state := TASK_ZOMBIE, exit_code := code\<rparr>) k;
        me \<leftarrow> proc_at (current_process k1) k1;
        k2 \<leftarrow> wake_parent [0..<nat (process_count k1)] (parent_pid me) k1;
        sys_yield k2 })"

section \<open>Access through process pointers\<close>

lemma upd_proc_Some: "upd_proc p f k = Some k' \<longleftrightarrow> (\<exists>r. procs k p = Some r \<and> k' = k\<lparr>procs := (procs k)(p \<mapsto> f r)\<rparr>)"
  by (auto simp: upd_proc_def)

lemma upd_proc_live: "procs k p = Some r \<Longrightarrow> upd_proc p f k = Some (k\<lparr>procs := (procs k)(p \<mapsto> f r)\<rparr>)"
  by (simp add: upd_proc_def)

text \<open>The pointers of the table and what the scheduler reads through them.\<close>

definition live :: "'a kernel_scheme \<Rightarrow> bool" where
  "live k \<longleftrightarrow> (\<forall>p \<in> set (processes k). p \<noteq> NULL \<longrightarrow> procs k p \<noteq> None)"

definition runnable :: "'a kernel_scheme \<Rightarrow> ptr \<Rightarrow> bool" where
  "runnable k p \<longleftrightarrow> p \<noteq> NULL \<and> p \<noteq> idle_process k \<and> (\<exists>r. procs k p = Some r \<and> (state r = TASK_READY \<or> state r = TASK_RUNNING))"

definition prio :: "'a kernel_scheme \<Rightarrow> ptr \<Rightarrow> int" where
  "prio k p = (case procs k p of None \<Rightarrow> - 1 | Some r \<Rightarrow> prio_int (priority r))"

lemma prio_int_range: "0 \<le> prio_int x" "prio_int x \<le> 3"
  by (cases x; simp)+

lemma process_is_runnable_live:
  assumes "p \<noteq> NULL \<longrightarrow> procs k p \<noteq> None"
  shows "process_is_runnable p k = Some (runnable k p)"
  using assms by (auto simp: process_is_runnable_def runnable_def proc_at_def)

section \<open>Picking a process\<close>

definition woken :: "u64 \<Rightarrow> process_t \<Rightarrow> process_t" where
  "woken now r = (if state r = TASK_SLEEPING \<and> sleep_deadline r \<noteq> 0 \<and> now \<ge> sleep_deadline r
     then r\<lparr>sleep_deadline := 0, state := TASK_READY\<rparr> else r)"

lemma woken_woken [simp]: "woken now (woken now r) = woken now r"
  by (simp add: woken_def)

definition wake_all :: "ptr set \<Rightarrow> 'a kernel_scheme \<Rightarrow> 'a kernel_scheme" where
  "wake_all A k = k\<lparr>procs := \<lambda>p. if p \<in> A \<and> p \<noteq> NULL then map_option (woken (timer_ticks k)) (procs k p) else procs k p\<rparr>"

lemma wake_sleeping_step:
  assumes "p \<noteq> NULL \<longrightarrow> procs k p \<noteq> None"
  shows "wake_sleeping p k = Some (wake_all {p} k)"
proof (cases "p = NULL")
  case True
  then show ?thesis by (simp add: wake_sleeping_def wake_all_def)
next
  case False
  then obtain r where r: "procs k p = Some r" using assms by auto
  have "(procs k)(p \<mapsto> woken (timer_ticks k) r) = procs (wake_all {p} k)"
    using r False by (auto simp: wake_all_def)
  then show ?thesis using r False
    by (auto simp: wake_sleeping_def proc_at_def upd_proc_def woken_def wake_all_def fun_upd_idem)
qed

lemma wake_all_comp: "wake_all A (wake_all B k) = wake_all (A \<union> B) k"
  by (rule kernel.equality) (auto simp: wake_all_def fun_eq_iff option.map_comp comp_def)

lemma wake_each:
  assumes "\<forall>i \<in> set is. processes k ! i \<noteq> NULL \<longrightarrow> procs k (processes k ! i) \<noteq> None"
  shows "each (\<lambda>i k. wake_sleeping (processes k ! i) k) is k = Some (wake_all ((!) (processes k) ` set is) k)"
  using assms
proof (induction "is" arbitrary: k)
  case Nil
  then show ?case by (simp add: wake_all_def)
next
  case (Cons i "is")
  let ?k = "wake_all {processes k ! i} k"
  have same: "processes ?k = processes k" by (simp add: wake_all_def)
  have "\<forall>j \<in> set is. processes ?k ! j \<noteq> NULL \<longrightarrow> procs ?k (processes ?k ! j) \<noteq> None"
    using Cons.prems by (auto simp: wake_all_def)
  from Cons.IH [OF this] show ?case
    using Cons.prems by (simp add: wake_sleeping_step wake_all_comp same)
qed

lemma wake_sleeping_processes_live:
  assumes "live k" "length (processes k) = MAX_PROCESSES"
  shows "wake_sleeping_processes k = Some (wake_all (set (processes k)) k)"
proof -
  have "(!) (processes k) ` set [0..<MAX_PROCESSES] = set (processes k)"
    using assms(2) by (metis map_nth set_map)
  moreover have "\<forall>i \<in> set [0..<MAX_PROCESSES]. processes k ! i \<noteq> NULL \<longrightarrow> procs k (processes k ! i) \<noteq> None"
    using assms by (auto simp: live_def)
  ultimately show ?thesis unfolding wake_sleeping_processes_def using wake_each [of "[0..<MAX_PROCESSES]" k] by simp
qed

lemma highest_priority_live:
  assumes "\<forall>p \<in> set ps. p \<noteq> NULL \<longrightarrow> procs k p \<noteq> None"
  obtains h' where "highest_priority ps h k = Some h'" "h \<le> h'" "\<forall>p \<in> set ps. runnable k p \<longrightarrow> prio k p \<le> h'"
    "h' = h \<or> (\<exists>p \<in> set ps. runnable k p \<and> prio k p = h')"
  using assms
proof (induction ps arbitrary: h thesis)
  case Nil
  then show ?case by simp
next
  case (Cons p ps)
  have run: "process_is_runnable p k = Some (runnable k p)" using Cons.prems(2) by (intro process_is_runnable_live) simp
  let ?h = "if runnable k p \<and> prio k p > h then prio k p else h"
  obtain h' where h': "highest_priority ps ?h k = Some h'" "?h \<le> h'" "\<forall>p \<in> set ps. runnable k p \<longrightarrow> prio k p \<le> h'"
    "h' = ?h \<or> (\<exists>p \<in> set ps. runnable k p \<and> prio k p = h')"
    using Cons.IH [of ?h] Cons.prems(2) by auto
  have "highest_priority (p # ps) h k = highest_priority ps ?h k"
    using run by (auto simp: proc_at_def runnable_def prio_def)
  then show ?case using h' by (intro Cons.prems(1)) (auto split: if_splits)
qed

text \<open>Distance from the cursor to a slot, around the table.\<close>

definition ring_dist :: "int \<Rightarrow> nat \<Rightarrow> nat" where
  "ring_dist cursor i = nat ((int i - cursor) mod 64)"

definition candidate :: "'a kernel_scheme \<Rightarrow> int \<Rightarrow> nat \<Rightarrow> bool" where
  "candidate k h i \<longleftrightarrow> i < MAX_PROCESSES \<and> runnable k (processes k ! i) \<and> prio k (processes k ! i) = h"

definition ring_slot :: "'a kernel_scheme \<Rightarrow> nat \<Rightarrow> nat" where
  "ring_slot k n = nat (rr_cursor k + int n) mod MAX_PROCESSES"

lemma scan_from_live:
  assumes "live k" "length (processes k) = MAX_PROCESSES"
  shows "scan_from ns h k = Some (map_option (ring_slot k) (List.find (\<lambda>n. candidate k h (ring_slot k n)) ns))"
proof (induction ns)
  case Nil
  then show ?case by simp
next
  case (Cons n ns)
  let ?p = "processes k ! ring_slot k n"
  have lt: "ring_slot k n < MAX_PROCESSES" by (simp add: ring_slot_def MAX_PROCESSES_def)
  then have "?p \<noteq> NULL \<longrightarrow> procs k ?p \<noteq> None" using assms nth_mem [of "ring_slot k n" "processes k"] by (simp add: live_def)
  from process_is_runnable_live [OF this] show ?case using Cons lt
    by (auto simp: ring_slot_def [symmetric] Let_def candidate_def prio_def proc_at_def runnable_def)
qed

lemma find_upt:
  "List.find P [0..<n] = Some i \<longleftrightarrow> i < n \<and> P i \<and> (\<forall>j < i. \<not> P j)"
  by (auto simp: find_Some_iff)

lemma ring_slot_dist:
  assumes "0 \<le> rr_cursor k" "rr_cursor k < 64"
  shows "i < 64 \<Longrightarrow> ring_slot k (ring_dist (rr_cursor k) i) = i" "n < 64 \<Longrightarrow> ring_dist (rr_cursor k) (ring_slot k n) = n"
    "ring_slot k n < 64" "ring_dist (rr_cursor k) i < 64"
proof -
  obtain c where c: "rr_cursor k = int c" "c < 64" using assms by (metis nat_int nonneg_int_cases of_nat_less_numeral_iff)
  have d: "ring_dist (int c) i = (i + (64 - c)) mod 64" for i
  proof -
    have "(int i - int c) mod 64 = (int (i + (64 - c))) mod 64" 
    proof -
      have "int (i + (64 - c)) = (int i - int c) + 64" using c(2) by (simp add: of_nat_diff)
      then show ?thesis by (simp only: mod_add_self2)
    qed
    then show ?thesis by (metis ring_dist_def nat_int of_nat_mod of_nat_numeral)
  qed
  have s: "ring_slot k n = (c + n) mod 64" for n
    by (simp add: ring_slot_def MAX_PROCESSES_def c nat_add_distrib)
  show "ring_slot k n < 64" "ring_dist (rr_cursor k) i < 64" by (simp_all add: s d c)
  have r: "c + (j + (64 - c)) = j + 64" "c + j + (64 - c) = j + 64" for j using c(2) by simp_all
  show "i < 64 \<Longrightarrow> ring_slot k (ring_dist (rr_cursor k) i) = i" by (simp add: s d c mod_simps r)
  show "n < 64 \<Longrightarrow> ring_dist (rr_cursor k) (ring_slot k n) = n" by (simp add: s d c mod_simps r)
qed

text \<open>The slot the scheduler picks: highest priority, then nearest after the cursor.\<close>

definition chosen :: "'a kernel_scheme \<Rightarrow> nat \<Rightarrow> bool" where
  "chosen k i \<longleftrightarrow> i < 64 \<and> runnable k (processes k ! i) \<and>
     (\<forall>p \<in> set (processes k). runnable k p \<longrightarrow> prio k p \<le> prio k (processes k ! i)) \<and>
     (\<forall>j < 64. runnable k (processes k ! j) \<and> prio k (processes k ! j) = prio k (processes k ! i) \<longrightarrow>
        ring_dist (rr_cursor k) i \<le> ring_dist (rr_cursor k) j)"

lemma pick_next_live:
  assumes lv: "live k" and len: "length (processes k) = MAX_PROCESSES" and c: "0 \<le> rr_cursor k" "rr_cursor k < 64"
  shows "if \<exists>p \<in> set (processes k). runnable k p then \<exists>i. pick_next_process k = Some (Some i, k) \<and> chosen k i
    else pick_next_process k = Some (None, k)"
proof -
  obtain h where h: "find_highest_priority k = Some h" "- 1 \<le> h" "\<forall>p \<in> set (processes k). runnable k p \<longrightarrow> prio k p \<le> h"
    "h = - 1 \<or> (\<exists>p \<in> set (processes k). runnable k p \<and> prio k p = h)"
    unfolding find_highest_priority_def by (rule highest_priority_live [of "processes k" k "- 1"]) (use lv in \<open>auto simp: live_def\<close>)
  have pos: "0 \<le> prio k p" if "runnable k p" for p using that prio_int_range by (auto simp: runnable_def prio_def)
  have h0: "h < 0 \<longleftrightarrow> \<not> (\<exists>p \<in> set (processes k). runnable k p)" 
  proof
    assume "h < 0"
    then show "\<not> (\<exists>p \<in> set (processes k). runnable k p)" using h(3) pos by fastforce
  next
    assume "\<not> (\<exists>p \<in> set (processes k). runnable k p)"
    then show "h < 0" using h(4) by auto
  qed
  have cur: "\<not> (rr_cursor k < 0 \<or> rr_cursor k \<ge> int MAX_PROCESSES)" using c by (simp add: MAX_PROCESSES_def)
  show ?thesis
  proof (cases "\<exists>p \<in> set (processes k). runnable k p")
    case False
    then show ?thesis using h(1) h0 by (simp add: pick_next_process_def)
  next
    case True
    let ?P = "\<lambda>n. candidate k h (ring_slot k n)"
    have N: "MAX_PROCESSES = 64" by (simp add: MAX_PROCESSES_def)
    have pick: "pick_next_process k = Some (map_option (ring_slot k) (List.find ?P [0..<MAX_PROCESSES]), k)"
      using h(1) h0 True cur scan_from_live [OF lv len] by (simp add: pick_next_process_def)
    obtain p where p: "p \<in> set (processes k)" "runnable k p" "prio k p = h" using h(4) h0 True h(2) by fastforce
    then obtain j where j: "j < 64" "processes k ! j = p" using len by (auto simp: in_set_conv_nth MAX_PROCESSES_def)
    note rd = ring_slot_dist [OF c]
    have dist: "?P (ring_dist (rr_cursor k) j) \<longleftrightarrow> runnable k (processes k ! j) \<and> prio k (processes k ! j) = h" if "j < 64" for j
      using rd(1) [OF that] that by (simp add: candidate_def MAX_PROCESSES_def)
    then have "\<exists>n < 64. ?P n" using j p rd(4) by blast
    then have "List.find ?P [0..<MAX_PROCESSES] \<noteq> None" by (auto simp: find_None_iff N simp del: upt_rec_numeral)
    then obtain n where n: "List.find ?P [0..<MAX_PROCESSES] = Some n" by blast
    then have n': "n < 64" "?P n" "\<forall>l < n. \<not> ?P l" by (auto simp: find_upt N)
    have "ring_dist (rr_cursor k) (ring_slot k n) \<le> ring_dist (rr_cursor k) j"
      if "j < 64" "runnable k (processes k ! j)" "prio k (processes k ! j) = h" for j
    proof (rule ccontr)
      assume "\<not> ring_dist (rr_cursor k) (ring_slot k n) \<le> ring_dist (rr_cursor k) j"
      then have "ring_dist (rr_cursor k) j < n" using rd(2) [OF n'(1)] by simp
      then show False using dist [OF that(1)] that(2,3) n'(3) by blast
    qed
    then have "chosen k (ring_slot k n)" using n'(2) h(3) rd(3) by (auto simp: chosen_def candidate_def)
    then show ?thesis using True pick n by simp
  qed
qed

section \<open>The scheduler invariant\<close>

definition table_ok :: "'a kernel_scheme \<Rightarrow> bool" where
  "table_ok k \<longleftrightarrow> length (processes k) = MAX_PROCESSES \<and> live k \<and> distinct (filter (\<lambda>p. p \<noteq> NULL) (processes k)) \<and>
     process_count k = int (length (filter (\<lambda>p. p \<noteq> NULL) (processes k)))"

definition sched_ok :: "'a kernel_scheme \<Rightarrow> bool" where
  "sched_ok k \<longleftrightarrow> table_ok k \<and> 0 \<le> rr_cursor k \<and> rr_cursor k < 64 \<and>
     idle_process k \<noteq> NULL \<and> idle_process k \<notin> set (processes k) \<and>
     (\<exists>r. procs k (idle_process k) = Some r \<and> context_ptr r = Context (idle_process k)) \<and>
     (current_process k = NULL \<or> current_process k = idle_process k \<or> current_process k \<in> set (processes k)) \<and>
     (current_process_index k = - 1 \<or> (\<exists>i < 64. current_process_index k = int i \<and> processes k ! i = current_process k \<and>
        current_process k \<noteq> NULL)) \<and>
     (\<forall>p \<in> set (processes k). \<forall>r. p \<noteq> NULL \<and> procs k p = Some r \<and> state r = TASK_RUNNING \<longrightarrow> p = current_process k)"

lemma table_okD:
  assumes "table_ok k"
  shows "length (processes k) = MAX_PROCESSES" "live k" "distinct (filter (\<lambda>p. p \<noteq> NULL) (processes k))"
    "process_count k = int (length (filter (\<lambda>p. p \<noteq> NULL) (processes k)))"
    "p \<in> set (processes k) \<Longrightarrow> p \<noteq> NULL \<Longrightarrow> procs k p \<noteq> None"
  using assms by (auto simp: table_ok_def live_def)

lemma sched_okD:
  assumes "sched_ok k"
  shows "table_ok k" "0 \<le> rr_cursor k" "rr_cursor k < 64" "idle_process k \<noteq> NULL" "idle_process k \<notin> set (processes k)"
    "\<exists>r. procs k (idle_process k) = Some r \<and> context_ptr r = Context (idle_process k)"
    "current_process k = NULL \<or> current_process k = idle_process k \<or> current_process k \<in> set (processes k)"
    "current_process_index k = - 1 \<or> (\<exists>i < 64. current_process_index k = int i \<and> processes k ! i = current_process k \<and>
        current_process k \<noteq> NULL)"
    "p \<in> set (processes k) \<Longrightarrow> p \<noteq> NULL \<Longrightarrow> procs k p = Some r \<Longrightarrow> state r = TASK_RUNNING \<Longrightarrow> p = current_process k"
  using assms unfolding sched_ok_def by (blast, blast, blast, blast, blast, blast, blast, blast, blast)

lemma sched_ok_ticks [simp]: "sched_ok (k\<lparr>timer_ticks := t\<rparr>) = sched_ok k"
  by (simp add: sched_ok_def table_ok_def live_def)

lemma current_live:
  assumes "sched_ok k" "current_process k \<noteq> NULL"
  shows "procs k (current_process k) \<noteq> None"
  using sched_okD(7) [OF assms(1)] sched_okD(6) [OF assms(1)] table_okD(5) [OF sched_okD(1) [OF assms(1)]] assms(2) by auto

text \<open>
  Changing process structures in place keeps the table; it keeps the whole invariant when no
  process starts running behind the scheduler's back.
\<close>

lemma table_ok_procs:
  assumes "table_ok k" "processes k' = processes k" "process_count k' = process_count k"
    "\<And>p. procs k p \<noteq> None \<Longrightarrow> procs k' p \<noteq> None"
  shows "table_ok k'"
  using assms by (auto simp: table_ok_def live_def)

lemma sched_ok_procs:
  assumes ok: "sched_ok k" and P: "k' = k\<lparr>procs := P\<rparr>"
    and live: "\<And>p. procs k p \<noteq> None \<Longrightarrow> P p \<noteq> None"
    and idle: "\<And>r. P (idle_process k) = Some r \<Longrightarrow> context_ptr r = Context (idle_process k)"
    and run: "\<And>p r r'. procs k p = Some r \<Longrightarrow> P p = Some r' \<Longrightarrow> state r' = TASK_RUNNING \<Longrightarrow> state r = TASK_RUNNING"
  shows "sched_ok k'"
proof -
  note D = sched_okD [OF ok]
  have "table_ok k'" by (rule table_ok_procs [OF D(1)]) (use P live in auto)
  moreover have "\<exists>r. P (idle_process k) = Some r \<and> context_ptr r = Context (idle_process k)"
    using D(6) live [of "idle_process k"] idle by fastforce
  moreover have "p = current_process k" if a: "p \<in> set (processes k)" "p \<noteq> NULL" "P p = Some r'" "state r' = TASK_RUNNING" for p r'
  proof -
    obtain r where r: "procs k p = Some r" using table_okD(5) [OF D(1) a(1,2)] by auto
    then show ?thesis using D(9) [OF a(1,2) r] run [OF r a(3,4)] by blast
  qed
  ultimately show ?thesis using D unfolding sched_ok_def P by simp
qed

lemma upd_proc_ok:
  assumes "sched_ok k" "upd_proc p f k = Some k'" "\<And>r. context_ptr (f r) = context_ptr r"
    "\<And>r. procs k p = Some r \<Longrightarrow> state (f r) = TASK_RUNNING \<Longrightarrow> state r = TASK_RUNNING"
  shows "sched_ok k'"
proof -
  obtain r where r: "procs k p = Some r" "k' = k\<lparr>procs := (procs k)(p \<mapsto> f r)\<rparr>" using assms(2) by (auto simp: upd_proc_Some)
  show ?thesis
    by (rule sched_ok_procs [OF assms(1) r(2)]) (use r(1) assms(3,4) sched_okD(6) [OF assms(1)] in \<open>auto split: if_splits\<close>)
qed

section \<open>One call of the scheduler\<close>

definition eligible :: "'a kernel_scheme \<Rightarrow> ptr \<Rightarrow> bool" where
  "eligible k p \<longleftrightarrow> p \<noteq> NULL \<and> p \<in> set (processes k) \<and> (\<exists>r. procs k p = Some r \<and>
     (state r = TASK_READY \<or> state r = TASK_RUNNING \<or>
      state r = TASK_SLEEPING \<and> sleep_deadline r \<noteq> 0 \<and> sleep_deadline r \<le> timer_ticks k))"

text \<open>What the first three steps of \<^verbatim>\<open>scheduler\<close> do to a process structure.\<close>

definition prep :: "regs_ptr \<Rightarrow> 'a kernel_scheme \<Rightarrow> ptr \<Rightarrow> process_t \<Rightarrow> process_t" where
  "prep regs k p r =
     (let me = p = current_process k \<and> p \<noteq> NULL \<and> regs \<noteq> NullRegs;
          r1 = (if me then r\<lparr>ctx := interrupt_frame k, context_ptr := Context p\<rparr> else r);
          r2 = (if p \<in> set (processes k) \<and> p \<noteq> NULL then woken (timer_ticks k) r1 else r1)
      in if me \<and> state r2 = TASK_RUNNING then r2\<lparr>state := TASK_READY\<rparr> else r2)"

definition prepared :: "regs_ptr \<Rightarrow> 'a kernel_scheme \<Rightarrow> 'a kernel_scheme" where
  "prepared regs k = k\<lparr>procs := \<lambda>p. map_option (prep regs k p) (procs k p)\<rparr>"

lemma prepared_sel [simp]:
  "processes (prepared regs k) = processes k" "idle_process (prepared regs k) = idle_process k"
  "rr_cursor (prepared regs k) = rr_cursor k" "current_process (prepared regs k) = current_process k"
  "process_count (prepared regs k) = process_count k" "current_process_index (prepared regs k) = current_process_index k"
  "fpu (prepared regs k) = fpu k" "procs (prepared regs k) p = map_option (prep regs k p) (procs k p)"
  by (simp_all add: prepared_def)

lemma prep_keeps [simp]:
  "priority (prep regs k p r) = priority r" "sse_state (prep regs k p r) = sse_state r" "pml4 (prep regs k p r) = pml4 r"
  "kstack_top (prep regs k p r) = kstack_top r"
  by (simp_all add: prep_def Let_def woken_def)

lemma prep_running: "state (prep regs k p r) = TASK_RUNNING \<Longrightarrow> state r = TASK_RUNNING \<and> \<not> (p = current_process k \<and> p \<noteq> NULL \<and> regs \<noteq> NullRegs)"
  by (auto simp: prep_def Let_def woken_def split: if_splits)

lemma prepared_sse: "map_option sse_state (procs (prepared regs k) p) = map_option sse_state (procs k p)"
  by (cases "procs k p") auto

lemma prepared_ok:
  assumes "sched_ok k"
  shows "sched_ok (prepared regs k)"
proof (rule sched_ok_procs [OF assms prepared_def])
  fix r assume "map_option (prep regs k (idle_process k)) (procs k (idle_process k)) = Some r"
  then show "context_ptr r = Context (idle_process k)"
    using sched_okD(6) [OF assms] by (auto simp: prep_def Let_def woken_def)
qed (auto dest: prep_running)

lemma prepared_runnable:
  assumes "sched_ok k" "p \<in> set (processes k)"
  shows "runnable (prepared regs k) p \<longleftrightarrow> eligible k p" "prio (prepared regs k) p = prio k p"
proof -
  have "p \<noteq> idle_process k" using assms sched_okD(5) by blast
  then show "runnable (prepared regs k) p \<longleftrightarrow> eligible k p"
    using assms(2) by (cases "procs k p") (auto simp: runnable_def eligible_def prep_def Let_def woken_def)
  show "prio (prepared regs k) p = prio k p" by (cases "procs k p") (auto simp: prio_def)
qed

lemma scheduler_prepared:
  assumes ok: "sched_ok k" and regs: "regs = NullRegs \<or> regs = Frame"
  shows "scheduler regs k = Option.bind (pick_next_process (prepared regs k)) (\<lambda>(nxt, k4).
    case nxt of None \<Rightarrow> nothing_runnable regs (current_process k) k4 | Some i \<Rightarrow> switch_to regs (current_process k) i k4)"
proof -
  let ?c = "current_process k" and ?me = "current_process k \<noteq> NULL \<and> regs \<noteq> NullRegs"
  define g where "g p r = (if p = ?c \<and> ?me then r\<lparr>ctx := interrupt_frame k, context_ptr := Context p\<rparr> else r)" for p and r :: process_t
  define k1 where "k1 = k\<lparr>procs := \<lambda>p. map_option (g p) (procs k p)\<rparr>"
  have cl: "?c \<noteq> NULL \<Longrightarrow> \<exists>r. procs k ?c = Some r" using current_live [OF ok] by blast
  have 1: "process_save_context ?c regs k = Some k1"
  proof (cases ?me)
    case True
    then obtain r where r: "procs k ?c = Some r" using cl by blast
    have "(procs k)(?c \<mapsto> r\<lparr>ctx := interrupt_frame k, context_ptr := Context ?c\<rparr>) = (\<lambda>p. map_option (g p) (procs k p))"
      using r True by (auto simp: g_def fun_eq_iff option.map_ident_strong)
    then show ?thesis using True r regs by (auto simp: process_save_context_def regs_at_def upd_proc_def k1_def)
  next
    case False
    then have "g p = (\<lambda>r. r)" for p by (auto simp: g_def fun_eq_iff)
    then have "(\<lambda>p. map_option (g p) (procs k p)) = procs k" by (simp add: option.map_ident)
    then show ?thesis using False by (auto simp: process_save_context_def k1_def)
  qed
  have t1: "live k1" "length (processes k1) = MAX_PROCESSES"
    using table_okD(1,2) [OF sched_okD(1) [OF ok]] by (auto simp: k1_def live_def)
  define k2 where "k2 = wake_all (set (processes k1)) k1"
  have p2: "procs k2 p = map_option (\<lambda>r. if p \<in> set (processes k) \<and> p \<noteq> NULL then woken (timer_ticks k) (g p r) else g p r) (procs k p)" for p
    by (cases "procs k p") (auto simp: k2_def wake_all_def k1_def)
  have 3: "(if ?c \<noteq> NULL then do { r \<leftarrow> proc_at ?c k2;
                 if state r = TASK_RUNNING \<and> regs \<noteq> NullRegs then upd_proc ?c (\<lambda>q. q\<lparr>state := TASK_READY\<rparr>) k2
                 else Some k2 } else Some k2) = Some (prepared regs k)"
  proof -
    have eq: "k2\<lparr>procs := P\<rparr> = k\<lparr>procs := P\<rparr>" for P by (simp add: k2_def wake_all_def k1_def)
    have k2: "k2 = k\<lparr>procs := procs k2\<rparr>" by (simp add: k2_def wake_all_def k1_def)
    have other: "procs k2 p = map_option (prep regs k p) (procs k p)" if "p \<noteq> ?c \<or> \<not> ?me" for p
    proof -
      have n: "\<not> (p = ?c \<and> ?me)" "\<not> (p = ?c \<and> p \<noteq> NULL \<and> regs \<noteq> NullRegs)" using that by blast+
      have "g p r = r" for r unfolding g_def by (simp only: n if_False)
      moreover have "prep regs k p r = (if p \<in> set (processes k) \<and> p \<noteq> NULL then woken (timer_ticks k) r else r)" for r
        by (simp only: prep_def Let_def n(2) if_False simp_thms)
      ultimately show ?thesis unfolding p2 by presburger
    qed
    show ?thesis
    proof (cases ?me)
      case False
      then have "procs k2 = (\<lambda>p. map_option (prep regs k p) (procs k p))" using other by blast
      then have "k2 = prepared regs k" using k2 by (simp add: prepared_def)
      moreover have "?c \<noteq> NULL \<Longrightarrow> \<exists>r. procs k2 ?c = Some r" using cl by (auto simp: p2)
      ultimately show ?thesis using False by (auto simp: proc_at_def)
    next
      case True
      then obtain r where r: "procs k ?c = Some r" using cl by blast
      define q where "q = (if ?c \<in> set (processes k) then woken (timer_ticks k) (g ?c r) else g ?c r)"
      have q: "procs k2 ?c = Some q" using r True by (simp add: p2 q_def)
      have pq: "prep regs k ?c r = (if state q = TASK_RUNNING then q\<lparr>state := TASK_READY\<rparr> else q)"
        using True by (auto simp: prep_def Let_def g_def q_def)
      have "(procs k2)(?c \<mapsto> prep regs k ?c r) = (\<lambda>p. map_option (prep regs k p) (procs k p))"
        using other r by (auto simp: fun_eq_iff)
      then have "prepared regs k = k2\<lparr>procs := (procs k2)(?c \<mapsto> prep regs k ?c r)\<rparr>" using eq by (simp add: prepared_def)
      moreover have "k2 = k2\<lparr>procs := (procs k2)(?c \<mapsto> q)\<rparr>" using q by (simp add: fun_upd_idem)
      ultimately show ?thesis using True q pq by (auto simp: proc_at_def upd_proc_def)
    qed
  qed
  show ?thesis
    unfolding scheduler_def Let_def 1 bind.bind_lunit wake_sleeping_processes_live [OF t1] k2_def [symmetric] 3 ..
qed

lemma switch_sel [simp]:
  "procs (vmm_switch q k) = procs k" "processes (vmm_switch q k) = processes k" "idle_process (vmm_switch q k) = idle_process k"
  "cpu_id (vmm_switch q k) = cpu_id k" "process_count (vmm_switch q k) = process_count k" "fpu (vmm_switch q k) = fpu k"
  "timer_ticks (vmm_switch q k) = timer_ticks k"
  by (simp_all add: vmm_switch_def)

lemma sched_ok_switch:
  assumes ok: "sched_ok k" and i: "i < 64" "processes k ! i \<noteq> NULL"
    and k': "processes k' = processes k" "process_count k' = process_count k" "idle_process k' = idle_process k"
      "current_process k' = processes k ! i" "current_process_index k' = int i" "0 \<le> rr_cursor k'" "rr_cursor k' < 64"
    and P: "\<And>p. procs k p \<noteq> None \<Longrightarrow> procs k' p \<noteq> None" "procs k' (idle_process k) = procs k (idle_process k)"
      "\<And>p r. p \<in> set (processes k) \<Longrightarrow> procs k' p = Some r \<Longrightarrow> state r = TASK_RUNNING \<Longrightarrow> p \<noteq> NULL \<Longrightarrow> p = processes k ! i"
  shows "sched_ok k'"
proof -
  note D = sched_okD [OF ok]
  have "table_ok k'" by (rule table_ok_procs [OF D(1) k'(1,2)]) (use P in auto)
  moreover have "processes k ! i \<in> set (processes k)" using i table_okD(1) [OF D(1)] by (simp add: MAX_PROCESSES_def)
  ultimately show ?thesis using D(4-6) i k' P(2,3) unfolding sched_ok_def by auto
qed

lemma switch_to_live:
  assumes ok: "sched_ok k" and i: "i < 64" "processes k ! i \<noteq> NULL"
    and idle_only: "\<forall>p \<in> set (processes k). \<forall>r. p \<noteq> NULL \<longrightarrow> procs k p = Some r \<longrightarrow> state r \<noteq> TASK_RUNNING"
  obtains k' where
    "switch_to regs (current_process k) i k = Some (if processes k ! i = current_process k then regs else Context (processes k ! i), k')"
    "sched_ok k'" "processes k' = processes k" "current_process k' = processes k ! i" "rr_cursor k' = int ((i + 1) mod 64)"
    "\<exists>r. procs k' (processes k ! i) = Some r \<and> state r = TASK_RUNNING"
    "processes k ! i \<noteq> current_process k \<Longrightarrow> fpu k' = sse_state (the (procs k (processes k ! i)))"
    "\<And>p. runnable k p \<Longrightarrow> p \<in> set (processes k) \<Longrightarrow> eligible k' p" "\<And>p. prio k' p = prio k p"
proof -
  note D = sched_okD [OF ok] and T = table_okD [OF sched_okD(1) [OF ok]]
  let ?n = "processes k ! i" and ?c = "current_process k" and ?cur = "int ((i + 1) mod 64)"
  have ins: "?n \<in> set (processes k)" using i T(1) by (simp add: MAX_PROCESSES_def)
  then obtain rn where rn: "procs k ?n = Some rn" using T(5) i(2) by blast
  have ni: "?n \<noteq> idle_process k" using ins D(5) by auto
  have N: "MAX_PROCESSES = 64" by (simp add: MAX_PROCESSES_def)
  show thesis
  proof (cases "?n = ?c")
    case True
    let ?k = "k\<lparr>procs := (procs k)(?n \<mapsto> rn\<lparr>state := TASK_RUNNING\<rparr>), current_process_index := int i, rr_cursor := ?cur\<rparr>"
    have "sched_ok ?k"
      by (rule sched_ok_switch [OF ok i]) (use True rn ni idle_only in \<open>auto split: if_splits\<close>)
    moreover have "switch_to regs ?c i k = Some (regs, ?k)"
      using True i rn by (simp add: switch_to_def upd_proc_def N)
    moreover have "eligible ?k p" if "runnable k p" "p \<in> set (processes k)" for p
      using that by (auto simp: eligible_def runnable_def)
    moreover have "prio ?k p = prio k p" for p using rn by (auto simp: prio_def)
    ultimately show thesis using that [of ?k] True by simp
  next
    case False
    define P where "P = (if ?c \<noteq> NULL \<and> ?c \<noteq> idle_process k then (procs k)(?c := map_option (\<lambda>r. r\<lparr>sse_state := fpu k\<rparr>) (procs k ?c)) else procs k)"
    have cl: "?c \<noteq> NULL \<Longrightarrow> \<exists>r. procs k ?c = Some r" using current_live [OF ok] by blast
    have save: "(if ?c \<noteq> NULL \<and> ?c \<noteq> idle_process k then upd_proc ?c (\<lambda>q. q\<lparr>sse_state := fpu k\<rparr>) k else Some k) = Some (k\<lparr>procs := P\<rparr>)"
      using cl by (auto simp: P_def upd_proc_def)
    have Pn: "P ?n = Some rn" using False rn by (simp add: P_def)
    have Pl: "P p = None \<longleftrightarrow> procs k p = None" for p by (auto simp: P_def)
    define k2 where "k2 = (if ?c = NULL \<or> pml4 (the (P ?c)) \<noteq> pml4 rn then vmm_switch (pml4 rn) (k\<lparr>procs := P\<rparr>) else k\<lparr>procs := P\<rparr>)"
    have k2: "(if ?c = NULL then Some (vmm_switch (pml4 rn) (k\<lparr>procs := P\<rparr>))
        else map_option (\<lambda>ro. if pml4 ro \<noteq> pml4 rn then vmm_switch (pml4 rn) (k\<lparr>procs := P\<rparr>) else k\<lparr>procs := P\<rparr>)
          (proc_at ?c (k\<lparr>procs := P\<rparr>))) = Some k2"
      "procs k2 = P" "processes k2 = processes k" "idle_process k2 = idle_process k" "process_count k2 = process_count k" "cpu_id k2 = cpu_id k"
    proof -
      have "?c = NULL \<or> (\<exists>a. P ?c = Some a)" using cl Pl [of ?c] by (cases "P ?c") auto
      then show "(if ?c = NULL then Some (vmm_switch (pml4 rn) (k\<lparr>procs := P\<rparr>))
          else map_option (\<lambda>ro. if pml4 ro \<noteq> pml4 rn then vmm_switch (pml4 rn) (k\<lparr>procs := P\<rparr>) else k\<lparr>procs := P\<rparr>)
            (proc_at ?c (k\<lparr>procs := P\<rparr>))) = Some k2"
        by (elim disjE exE) (simp_all add: proc_at_def k2_def)
    qed (simp_all add: k2_def)
    let ?P = "P(?n \<mapsto> rn\<lparr>state := TASK_RUNNING\<rparr>)"
    let ?k = "k2\<lparr>procs := ?P, current_process := ?n, current_process_index := int i, rr_cursor := ?cur,
       tss_rsp0 := (tss_rsp0 k2)(cpu_id k2 := kstack_top rn), cpu_kernel_stack := (cpu_kernel_stack k2)(cpu_id k2 := kstack_top rn),
       fpu := sse_state rn\<rparr>"
    have "switch_to regs ?c i k = Some (Context ?n, ?k)"
      unfolding switch_to_def Let_def save using i False Pn k2
      by (simp add: proc_at_def upd_proc_def update_kernel_stack_def N)
    moreover have "sched_ok ?k"
    proof (rule sched_ok_switch [OF ok i])
      show "procs ?k p \<noteq> None" if "procs k p \<noteq> None" for p using that Pl [of p] by (cases "P p") auto
      show "procs ?k (idle_process k) = procs k (idle_process k)" using ni by (auto simp: P_def)
      fix p r assume a: "p \<in> set (processes k)" "procs ?k p = Some r" "state r = TASK_RUNNING" "p \<noteq> NULL"
      show "p = ?n" using a idle_only by (auto simp: P_def split: if_splits)
    qed (simp_all add: k2)
    moreover have "eligible ?k p" if "runnable k p" "p \<in> set (processes k)" for p
      using that by (auto simp: eligible_def runnable_def k2 P_def)
    moreover have "prio ?k p = prio k p" for p using rn by (auto simp: prio_def P_def split: option.splits)
    ultimately show thesis using that [of ?k] False rn by (simp add: k2)
  qed
qed

lemma nothing_runnable_live:
  assumes ok: "sched_ok k" and none: "\<not> (\<exists>p \<in> set (processes k). runnable k p)"
    and regs: "current_process k = NULL \<longrightarrow> regs = NullRegs"
  obtains k' where "nothing_runnable regs (current_process k) k = Some (Context (idle_process k), k')"
    "sched_ok k'" "processes k' = processes k" "current_process k' = idle_process k" "procs k' = procs k" "rr_cursor k' = rr_cursor k" "fpu k' = fpu k"
    "idle_process k' = idle_process k"
proof -
  note D = sched_okD [OF ok]
  obtain r where r: "procs k (idle_process k) = Some r" "context_ptr r = Context (idle_process k)" using D(6) by blast
  let ?c = "current_process k"
  have "?c \<noteq> NULL \<Longrightarrow> process_is_runnable ?c k = Some (runnable k ?c)"
    using current_live [OF ok] by (intro process_is_runnable_live) simp
  moreover have "\<not> runnable k ?c" using none D(7) by (auto simp: runnable_def)
  ultimately have b: "(if ?c = NULL then Some False else process_is_runnable ?c k) = Some False" by auto
  let ?k = "k\<lparr>current_process := idle_process k, current_process_index := - 1,
    tss_rsp0 := (tss_rsp0 k)(cpu_id k := kstack_top r), cpu_kernel_stack := (cpu_kernel_stack k)(cpu_id k := kstack_top r)\<rparr>"
  have "nothing_runnable regs ?c k = Some (Context (idle_process k), ?k)"
    unfolding nothing_runnable_def b using regs r D(4)
    by (auto simp: update_kernel_stack_def proc_at_def)
  moreover have "sched_ok ?k"
  proof -
    have t: "table_ok ?k" by (rule table_ok_procs [OF D(1)]) auto
    have nr: "state q \<noteq> TASK_RUNNING" if "p \<in> set (processes k)" "p \<noteq> NULL" "procs k p = Some q" for p q
      using none that D(5) by (auto simp: runnable_def)
    show ?thesis using D(2-5) r t nr unfolding sched_ok_def by auto
  qed
  ultimately show thesis using that [of ?k] by simp
qed

text \<open>The slot the policy asks for, in terms of the state before the call.\<close>

definition next_slot :: "'a kernel_scheme \<Rightarrow> nat \<Rightarrow> bool" where
  "next_slot k i \<longleftrightarrow> i < 64 \<and> eligible k (processes k ! i) \<and>
     (\<forall>p. eligible k p \<longrightarrow> prio k p \<le> prio k (processes k ! i)) \<and>
     (\<forall>j < 64. eligible k (processes k ! j) \<and> prio k (processes k ! j) = prio k (processes k ! i) \<longrightarrow>
        ring_dist (rr_cursor k) i \<le> ring_dist (rr_cursor k) j)"

lemma scheduler_cases:
  assumes ok: "sched_ok k" and regs: "regs = Frame \<or> regs = NullRegs \<and> current_process k = NULL"
  shows "if \<exists>p. eligible k p then \<exists>i k'. next_slot k i \<and>
      scheduler regs k = Some (if processes k ! i = current_process k then regs else Context (processes k ! i), k') \<and>
      sched_ok k' \<and> processes k' = processes k \<and> current_process k' = processes k ! i \<and> rr_cursor k' = int ((i + 1) mod 64) \<and>
      (\<exists>r. procs k' (processes k ! i) = Some r \<and> state r = TASK_RUNNING) \<and>
      (processes k ! i \<noteq> current_process k \<longrightarrow> fpu k' = sse_state (the (procs k (processes k ! i)))) \<and>
      (\<forall>p. eligible k p \<longrightarrow> eligible k' p \<and> prio k' p = prio k p)
    else if current_process k = NULL \<and> regs = Frame then \<exists>k'. scheduler regs k = Some (Frame, k') \<and> sched_ok k' \<and>
      processes k' = processes k \<and> current_process k' = NULL \<and> rr_cursor k' = rr_cursor k
    else \<exists>k'. scheduler regs k = Some (Context (idle_process k), k') \<and> sched_ok k' \<and> processes k' = processes k \<and>
      current_process k' = idle_process k \<and> rr_cursor k' = rr_cursor k \<and> fpu k' = fpu k \<and>
      procs k' = procs (prepared regs k) \<and> idle_process k' = idle_process k"
proof -
  let ?k = "prepared regs k"
  have ok': "sched_ok ?k" by (rule prepared_ok [OF ok])
  have lv: "live ?k" "length (processes ?k) = MAX_PROCESSES" "0 \<le> rr_cursor ?k" "rr_cursor ?k < 64"
    using sched_okD(1-3) [OF ok'] table_okD(1,2) by blast+
  note S = scheduler_prepared [OF ok, of regs] and run = prepared_runnable [OF ok, of _ regs]
  have el: "eligible k p \<Longrightarrow> p \<in> set (processes k)" for p by (simp add: eligible_def)
  have ex: "(\<exists>p \<in> set (processes ?k). runnable ?k p) \<longleftrightarrow> (\<exists>p. eligible k p)" using run(1) el by auto
  have rg: "regs = NullRegs \<or> regs = Frame" using regs by blast
  note pick = pick_next_live [OF lv, unfolded ex]
  show ?thesis
  proof (cases "\<exists>p. eligible k p")
    case True
    then obtain i where i: "pick_next_process ?k = Some (Some i, ?k)" "chosen ?k i" using pick by auto
    have ins: "j < 64 \<Longrightarrow> processes k ! j \<in> set (processes k)" for j using lv(2) by (simp add: MAX_PROCESSES_def)
    have nxt: "next_slot k i"
      using i(2) ins run el unfolding chosen_def next_slot_def by auto
    then have i': "i < 64" "processes ?k ! i \<noteq> NULL" by (auto simp: next_slot_def eligible_def)
    have nr: "\<forall>p \<in> set (processes ?k). \<forall>r. p \<noteq> NULL \<longrightarrow> procs ?k p = Some r \<longrightarrow> state r \<noteq> TASK_RUNNING"
    proof (intro ballI allI impI notI)
      fix p r assume a: "p \<in> set (processes ?k)" "p \<noteq> NULL" "procs ?k p = Some r"
      assume st: "state r = TASK_RUNNING"
      then have "p = current_process k" using sched_okD(9) [OF ok' a] by simp
      moreover obtain q where "procs k p = Some q" "r = prep regs k p q" using a(3) by auto
      ultimately show False using prep_running st a(2) regs by fastforce
    qed
    show ?thesis
    proof (rule switch_to_live [OF ok' i' nr, where regs = regs])
      fix k' assume k': "switch_to regs (current_process ?k) i ?k =
          Some (if processes ?k ! i = current_process ?k then regs else Context (processes ?k ! i), k')"
        "sched_ok k'" "processes k' = processes ?k" "current_process k' = processes ?k ! i" "rr_cursor k' = int ((i + 1) mod 64)"
        "\<exists>r. procs k' (processes ?k ! i) = Some r \<and> state r = TASK_RUNNING"
        "processes ?k ! i \<noteq> current_process ?k \<Longrightarrow> fpu k' = sse_state (the (procs ?k (processes ?k ! i)))"
        "\<And>p. runnable ?k p \<Longrightarrow> p \<in> set (processes ?k) \<Longrightarrow> eligible k' p" "\<And>p. prio k' p = prio ?k p"
      have "\<forall>p. eligible k p \<longrightarrow> eligible k' p \<and> prio k' p = prio k p" using k'(8,9) run el by auto
      moreover have "\<exists>r. procs k (processes k ! i) = Some r" using nxt by (auto simp: next_slot_def eligible_def)
      ultimately show ?thesis using True nxt k'(1-7) i(1) S [OF rg]
        by (intro if_P [THEN iffD2, rotated]) (auto intro!: exI [of _ i] exI [of _ k'])
    qed
  next
    case False
    then have p: "pick_next_process ?k = Some (None, ?k)" "\<not> (\<exists>p \<in> set (processes ?k). runnable ?k p)" using pick ex by auto
    show ?thesis
    proof (cases "current_process k = NULL \<and> regs = Frame")
      case True
      then have "scheduler regs k = Some (Frame, ?k)" using S [OF rg] p(1) by (simp add: nothing_runnable_def)
      then show ?thesis using False True ok' by simp
    next
      case 2: False
      then have r: "current_process ?k = NULL \<longrightarrow> regs = NullRegs" using rg by auto
      obtain k' where "nothing_runnable regs (current_process ?k) ?k = Some (Context (idle_process ?k), k')"
        "sched_ok k'" "processes k' = processes ?k" "current_process k' = idle_process ?k" "procs k' = procs ?k"
        "rr_cursor k' = rr_cursor ?k" "fpu k' = fpu ?k" "idle_process k' = idle_process ?k"
        by (rule nothing_runnable_live [OF ok' p(2) r])
      then show ?thesis using False 2 S [OF rg] p(1) by auto
    qed
  qed
qed

section \<open>Fairness\<close>

text \<open>
  Every call either picks a given slot or moves the cursor past the picked one and so closer
  to it.
\<close>

lemma ring_dist_closer:
  assumes c: "0 \<le> c" "c < 64" and i: "i < 64" "j < 64" "i \<noteq> j" and le: "ring_dist c j \<le> ring_dist c i"
  shows "ring_dist (int ((j + 1) mod 64)) i < ring_dist c i"
proof -
  define x y where "x = (int i - c) mod 64" and "y = (int j - c) mod 64"
  have xy: "y \<le> x" "0 \<le> y" "x < 64" using le by (auto simp: ring_dist_def x_def y_def)
  have "x \<noteq> y"
  proof
    assume "x = y"
    then have "(int i - c) mod 64 = (int j - c) mod 64" by (simp add: x_def y_def)
    then have "int i mod 64 = int j mod 64" by (metis diff_add_cancel mod_add_left_eq)
    then show False using i by simp
  qed
  then have lt: "0 \<le> x - y - 1" "x - y - 1 < 64" using xy by simp_all
  have "(int i - int ((j + 1) mod 64)) mod 64 = (int i - (int j + 1)) mod 64" by (simp add: zmod_int mod_simps add.commute)
  also have "int i - (int j + 1) = (int i - c) - (int j - c) - 1" by simp
  also have "\<dots> mod 64 = ((int i - c) mod 64 - (int j - c) mod 64 - 1) mod 64" by (metis mod_diff_eq mod_mod_trivial)
  also have "\<dots> = x - y - 1" using lt by (simp add: x_def [symmetric] y_def [symmetric])
  finally show ?thesis using xy lt by (simp add: ring_dist_def x_def [symmetric])
qed

lemma scheduler_closer:
  assumes ok: "sched_ok k" and run: "scheduler Frame k = Some (regs, k')"
    and i: "i < 64" "eligible k (processes k ! i)" "\<forall>q. eligible k q \<longrightarrow> prio k q \<le> prio k (processes k ! i)"
  shows "current_process k' = processes k ! i \<or> ring_dist (rr_cursor k') i < ring_dist (rr_cursor k) i"
proof -
  have "\<exists>p. eligible k p" using i(2) by blast
  then obtain j where j: "next_slot k j" "current_process k' = processes k ! j" "rr_cursor k' = int ((j + 1) mod 64)"
    using scheduler_cases [OF ok, of Frame] run by auto
  have "prio k (processes k ! i) = prio k (processes k ! j)" using j(1) i by (auto simp: next_slot_def intro: antisym)
  then have le: "ring_dist (rr_cursor k) j \<le> ring_dist (rr_cursor k) i" "j < 64" using j(1) i(1,2) by (auto simp: next_slot_def)
  show ?thesis
  proof (cases "i = j")
    case False
    then show ?thesis using ring_dist_closer [OF sched_okD(2,3) [OF ok] i(1) le(2) False le(1)] j(3) by simp
  qed (use j(2) in simp)
qed

section \<open>Properties\<close>

text \<open>
  C10: A call of \<^verbatim>\<open>scheduler\<close> with an interrupt frame returns and keeps the scheduler invariant.
  If some process of the table can run, counting sleepers whose deadline has passed, the
  process made current is one of highest priority, the first of these at or after the
  round-robin cursor; it is the only running process, and the cursor moves behind it. If none
  can run, the idle process becomes current, or the interrupted code continues when there was
  no current process.
\<close>

theorem scheduler_policy:
  assumes "sched_ok k"
  shows "\<exists>regs k'. scheduler Frame k = Some (regs, k') \<and> sched_ok k' \<and> processes k' = processes k \<and>
    (if \<exists>p. eligible k p
     then \<exists>i r. next_slot k i \<and> current_process k' = processes k ! i \<and> rr_cursor k' = int ((i + 1) mod 64) \<and>
       procs k' (processes k ! i) = Some r \<and> state r = TASK_RUNNING \<and>
       regs = (if processes k ! i = current_process k then Frame else Context (processes k ! i))
     else if current_process k = NULL then regs = Frame \<and> current_process k' = NULL
     else regs = Context (idle_process k) \<and> current_process k' = idle_process k)"
proof -
  note S = scheduler_cases [OF assms, of Frame]
  show ?thesis
  proof (cases "\<exists>p. eligible k p")
    case True
    then obtain i k' where "next_slot k i" "sched_ok k'" "processes k' = processes k" "current_process k' = processes k ! i"
        "scheduler Frame k = Some (if processes k ! i = current_process k then Frame else Context (processes k ! i), k')"
        "rr_cursor k' = int ((i + 1) mod 64)" "\<exists>r. procs k' (processes k ! i) = Some r \<and> state r = TASK_RUNNING"
      using S by auto
    then show ?thesis using True by auto
  next
    case False
    then show ?thesis using S by (cases "current_process k = NULL") auto
  qed
qed

text \<open>A kernel with two ready threads of normal priority, for the examples.\<close>

definition two_threads :: kernel where
  "two_threads = \<lparr>pmem = (\<lambda>_. 0), hhdm_offset = 0xffff800000000000, nx_supported = True,
     pmm_buddy = None, total_system_pages = 0, arena_phys_base = 0, arena_total_len = 0,
     kernel_pml4 = 0x1000, cr3 = 0, heap_virtual_top = 0xffff900000000000, buckets = replicate 8 NULL,
     procs = [0x3000 \<mapsto> zero_process\<lparr>context_ptr := Context 0x3000\<rparr>,
              0x4000 \<mapsto> zero_process\<lparr>pid := 1, state := TASK_READY, priority := PRIO_NORMAL\<rparr>,
              0x5000 \<mapsto> zero_process\<lparr>pid := 2, state := TASK_READY, priority := PRIO_NORMAL\<rparr>],
     open_files = (\<lambda>_. None), processes = 0x4000 # 0x5000 # replicate 62 NULL, process_count = 2,
     current_process_index = - 1, current_process = 0x3000, init_process = NULL, idle_process = 0x3000,
     rr_cursor = 0, next_pid = 3, timer_ticks = 0, cpu_id = 0, tss_rsp0 = (\<lambda>_. 0), cpu_kernel_stack = (\<lambda>_. 0),
     fpu = [], interrupt_frame = zero_registers\<rparr>"

lemma two_threads_ok: "sched_ok two_threads"
  by (simp add: sched_ok_def table_ok_def live_def two_threads_def MAX_PROCESSES_def zero_process_def)

lemma two_threads_eligible: "eligible two_threads p \<longleftrightarrow> p = 0x4000 \<or> p = 0x5000"
  by (auto simp: eligible_def two_threads_def zero_process_def)

lemma two_threads_prio: "prio two_threads 0x4000 = 2" "prio two_threads 0x5000 = 2"
  by (simp_all add: prio_def two_threads_def)

theorem scheduler_policy_witness:
  "\<exists>k'. scheduler Frame two_threads = Some (Context 0x4000, k') \<and> current_process k' = 0x4000 \<and> rr_cursor k' = 1"
proof -
  have e: "\<exists>p. eligible two_threads p" by (auto simp: two_threads_eligible)
  obtain regs k' i where s: "scheduler Frame two_threads = Some (regs, k')" "next_slot two_threads i"
    "current_process k' = processes two_threads ! i" "rr_cursor k' = int ((i + 1) mod 64)"
    "regs = (if processes two_threads ! i = current_process two_threads then Frame else Context (processes two_threads ! i))"
    using scheduler_policy [OF two_threads_ok] e by auto
  have p0: "processes two_threads ! 0 = 0x4000" by (simp add: two_threads_def)
  have "i = 0"
  proof (rule ccontr)
    assume "i \<noteq> 0"
    have "prio two_threads (processes two_threads ! i) = 2" "i < 64"
      using s(2) two_threads_prio unfolding next_slot_def two_threads_eligible by auto
    then have "ring_dist 0 i \<le> ring_dist 0 0"
      using s(2) p0 two_threads_prio(1) two_threads_eligible unfolding next_slot_def by (auto simp: two_threads_def)
    then show False using \<open>i \<noteq> 0\<close> \<open>i < 64\<close> by (simp add: ring_dist_def)
  qed
  then show ?thesis using s p0 by (simp add: two_threads_def)
qed

text \<open>
  C4: Round robin is fair. Take any run in which other kernel code acts between calls of
  \<^verbatim>\<open>scheduler\<close> but leaves its cursor alone, and a process that stays in its slot, able to run,
  with no higher priority able to run. Within 64 calls that process becomes the current one.
\<close>

theorem scheduler_fair:
  assumes ok: "\<forall>n < 64. sched_ok (ks n) \<and> scheduler Frame (ks n) = Some (regs n, ks' n)"
    and cursor: "\<forall>n < 64. rr_cursor (ks (Suc n)) = rr_cursor (ks' n)"
    and p: "i < 64" "\<forall>n < 64. processes (ks n) ! i = p \<and> eligible (ks n) p"
      "\<forall>n < 64. \<forall>q. eligible (ks n) q \<longrightarrow> prio (ks n) q \<le> prio (ks n) p"
  shows "\<exists>n < 64. current_process (ks' n) = p"
proof (rule ccontr)
  assume "\<not> (\<exists>n < 64. current_process (ks' n) = p)"
  then have closer: "ring_dist (rr_cursor (ks (Suc n))) i < ring_dist (rr_cursor (ks n)) i" if "n < 64" for n
    using scheduler_closer [of "ks n" "regs n" "ks' n" i] ok cursor p that by auto
  have "ring_dist (rr_cursor (ks n)) i + n \<le> ring_dist (rr_cursor (ks 0)) i" if "n \<le> 64" for n
    using that
  proof (induction n)
    case (Suc n)
    then show ?case using closer [of n] by simp
  qed simp
  from this [of 64] have "64 \<le> ring_dist (rr_cursor (ks 0)) i" by simp
  then show False using ring_slot_dist(4) [of "ks 0" i] sched_okD(2,3) [of "ks 0"] ok by force
qed

text \<open>The example kernel with nothing but timer interrupts.\<close>

definition after_tick :: "kernel \<Rightarrow> kernel" where
  "after_tick k = snd (the (scheduler Frame k))"

lemma ticks:
  "sched_ok ((after_tick ^^ n) two_threads) \<and> processes ((after_tick ^^ n) two_threads) = processes two_threads \<and>
   (\<forall>p. eligible two_threads p \<longrightarrow> eligible ((after_tick ^^ n) two_threads) p \<and> prio ((after_tick ^^ n) two_threads) p = 2)"
proof (induction n)
  case 0
  then show ?case using two_threads_ok two_threads_prio two_threads_eligible by auto
next
  case (Suc n)
  let ?k = "(after_tick ^^ n) two_threads"
  have "eligible two_threads 0x4000" by (simp add: two_threads_eligible)
  then have "\<exists>p. eligible ?k p" using Suc by blast
  then obtain regs k' where "scheduler Frame ?k = Some (regs, k')" "sched_ok k'" "processes k' = processes ?k"
      "\<forall>p. eligible ?k p \<longrightarrow> eligible k' p \<and> prio k' p = prio ?k p"
    using scheduler_cases [of ?k Frame] Suc by auto
  moreover from this(1) have "(after_tick ^^ Suc n) two_threads = k'" by (simp add: after_tick_def)
  ultimately show ?case using Suc by metis
qed

theorem scheduler_fair_witness:
  "\<exists>n < 64. current_process (after_tick ((after_tick ^^ n) two_threads)) = 0x5000"
proof (rule scheduler_fair [where i = 1 and ks = "\<lambda>n. (after_tick ^^ n) two_threads"
      and regs = "\<lambda>n. fst (the (scheduler Frame ((after_tick ^^ n) two_threads)))"])
  show "\<forall>n < 64. sched_ok ((after_tick ^^ n) two_threads) \<and> scheduler Frame ((after_tick ^^ n) two_threads) =
      Some (fst (the (scheduler Frame ((after_tick ^^ n) two_threads))), after_tick ((after_tick ^^ n) two_threads))"
  proof (intro allI impI)
    fix n :: nat
    let ?k = "(after_tick ^^ n) two_threads"
    have "scheduler Frame ?k \<noteq> None" using scheduler_cases [of ?k Frame] ticks by (auto split: if_splits)
    then show "sched_ok ?k \<and> scheduler Frame ?k = Some (fst (the (scheduler Frame ?k)), after_tick ?k)"
      using ticks by (auto simp: after_tick_def)
  qed
  have sub: "eligible ((after_tick ^^ n) two_threads) q \<Longrightarrow> eligible two_threads q" for n q
    using ticks [of n] by (auto simp: eligible_def two_threads_def zero_process_def)
  have "prio ((after_tick ^^ n) two_threads) q = 2" if "eligible two_threads q" for n q using ticks [of n] that by blast
  then show "\<forall>n < 64. \<forall>q. eligible ((after_tick ^^ n) two_threads) q \<longrightarrow>
      prio ((after_tick ^^ n) two_threads) q \<le> prio ((after_tick ^^ n) two_threads) 0x5000"
    using sub two_threads_eligible by simp
  show "\<forall>n < 64. processes ((after_tick ^^ n) two_threads) ! 1 = 0x5000 \<and> eligible ((after_tick ^^ n) two_threads) 0x5000"
    using ticks two_threads_eligible by (auto simp: two_threads_def)
qed simp_all

text \<open>
  C24: Floating-point state is lost when the processor goes idle. If the current process cannot
  go on and nothing else can run, \<^verbatim>\<open>scheduler\<close> switches to the idle process without storing the
  FPU registers in the process; when the process is picked again, directly from idle, it gets
  the registers of its last save and not those it had when it stopped.
\<close>

theorem idle_loses_fpu:
  assumes "sched_ok k" "\<forall>p. \<not> eligible k p" "current_process k \<noteq> NULL" "scheduler Frame k = Some (regs, k1)"
    and "sched_ok k2" "current_process k2 = idle_process k2"
      "\<forall>p. map_option sse_state (procs k2 p) = map_option sse_state (procs k1 p)"
    and "scheduler Frame k2 = Some (regs', k3)" "current_process k3 \<noteq> idle_process k2"
  shows "Some (fpu k3) = map_option sse_state (procs k (current_process k3))"
proof -
  have 1: "\<forall>p. map_option sse_state (procs k1 p) = map_option sse_state (procs k p)"
    using scheduler_cases [OF assms(1), of Frame] assms(2-4) by (auto simp: prepared_sse simp del: prepared_sel)
  have idle: "idle_process k2 \<noteq> NULL" by (rule sched_okD(4) [OF assms(5)])
  have "\<exists>p. eligible k2 p"
  proof (rule ccontr)
    assume "\<not> (\<exists>p. eligible k2 p)"
    then show False using scheduler_cases [OF assms(5), of Frame] assms(6,8,9) idle by simp
  qed
  then obtain i where i: "next_slot k2 i" "current_process k3 = processes k2 ! i"
      "processes k2 ! i \<noteq> current_process k2 \<longrightarrow> fpu k3 = sse_state (the (procs k2 (processes k2 ! i)))"
    using scheduler_cases [OF assms(5), of Frame] assms(8) by auto
  then obtain r where r: "procs k2 (current_process k3) = Some r" unfolding next_slot_def eligible_def by auto
  have "fpu k3 = sse_state r" using i(2,3) r assms(6,9) by simp
  then have "Some (fpu k3) = map_option sse_state (procs k2 (current_process k3))" using r by simp
  then show ?thesis using 1 assms(7) by simp
qed

text \<open>A sleeping thread alone: it stops with 1 in its FPU registers and resumes with 0.\<close>

definition one_sleeper :: kernel where
  "one_sleeper = two_threads\<lparr>procs := [0x3000 \<mapsto> zero_process\<lparr>context_ptr := Context 0x3000\<rparr>,
       0x4000 \<mapsto> zero_process\<lparr>pid := 1, state := TASK_SLEEPING, sleep_deadline := 5, priority := PRIO_NORMAL, sse_state := [0]\<rparr>],
     processes := 0x4000 # replicate 63 NULL, process_count := 1, current_process := 0x4000, fpu := [1]\<rparr>"

lemma one_sleeper_ok: "sched_ok one_sleeper" "\<not> eligible one_sleeper p"
  by (auto simp: sched_ok_def table_ok_def live_def eligible_def one_sleeper_def two_threads_def MAX_PROCESSES_def zero_process_def)

theorem idle_loses_fpu_witness:
  "\<exists>regs k1 regs' k3. fpu one_sleeper = [1] \<and> current_process one_sleeper = 0x4000 \<and> scheduler Frame one_sleeper = Some (regs, k1) \<and>
    scheduler Frame (k1\<lparr>timer_ticks := 5\<rparr>) = Some (regs', k3) \<and> current_process k3 = 0x4000 \<and> fpu k3 = [0]"
proof -
  have c: "current_process one_sleeper = 0x4000" "fpu one_sleeper = [1]" by (simp_all add: one_sleeper_def)
  obtain k1 where k1: "scheduler Frame one_sleeper = Some (Context (idle_process one_sleeper), k1)" "sched_ok k1"
      "processes k1 = processes one_sleeper" "current_process k1 = idle_process one_sleeper"
      "procs k1 = procs (prepared Frame one_sleeper)" "idle_process k1 = idle_process one_sleeper"
    using scheduler_cases [OF one_sleeper_ok(1), of Frame] one_sleeper_ok(2) c by auto
  define k2 where "k2 = k1\<lparr>timer_ticks := 5\<rparr>"
  have k2: "sched_ok k2" "current_process k2 = idle_process k2" "procs k2 = procs k1" "processes k2 = processes one_sleeper"
    "idle_process k2 = 0x3000" "timer_ticks k2 = 5"
    using k1(2-6) unfolding k2_def by (simp_all add: one_sleeper_def two_threads_def)
  have "eligible k2 0x4000"
    using k2(3-6) k1(5) by (auto simp: eligible_def prep_def woken_def one_sleeper_def two_threads_def zero_process_def)
  then have "\<exists>p. eligible k2 p" by blast
  then obtain i regs' k3 where k3: "scheduler Frame k2 = Some (regs', k3)" "next_slot k2 i" "current_process k3 = processes k2 ! i"
    using scheduler_cases [OF k2(1), of Frame] by auto
  have "processes k2 ! i \<in> {NULL, 0x4000}" using k3(2) k2(4) by (auto simp: next_slot_def one_sleeper_def nth_Cons')
  then have cur: "current_process k3 = 0x4000" using k3(2,3) by (auto simp: next_slot_def eligible_def)
  have "Some (fpu k3) = map_option sse_state (procs one_sleeper (current_process k3))"
    by (rule idle_loses_fpu [OF one_sleeper_ok(1) _ _ k1(1) k2(1,2) _ k3(1)])
      (use one_sleeper_ok(2) c k2 cur in \<open>simp_all add: one_sleeper_def\<close>)
  then have "fpu k3 = [0]" using cur by (simp add: one_sleeper_def)
  then show ?thesis using c k1(1) k3(1) cur unfolding k2_def by blast
qed

end
