(* ===== verification/Sync.thy ===== *)
theory Sync
  imports Sched
begin

text \<open>
  The locks of \<^verbatim>\<open>arch/x86\<close>: spinlocks, mutexes with a wait queue, reader-writer locks and
  counting semaphores. The functions below are the atomic actions of the sources: one access to
  a shared variable, be it a locked instruction, a plain load or a plain store, or a section
  that runs under a spinlock. Threads are processes; each has a program counter that names the
  place between two such actions, and a step relation per lock interleaves them.
\<close>

section \<open>Definitions\<close>

subsection \<open>Atomic operations on a 32-bit word\<close>

definition atomic_cas :: "u32 \<Rightarrow> u32 \<Rightarrow> u32 \<Rightarrow> bool \<times> u32" where
  "atomic_cas v expected desired = (v = expected, if v = expected then desired else v)"

definition atomic_fetch_add :: "u32 \<Rightarrow> u32 \<Rightarrow> u32 \<times> u32" where
  "atomic_fetch_add v x = (v, v + x)"

definition atomic_add :: "u32 \<Rightarrow> u32 \<Rightarrow> u32 \<times> u32" where
  "atomic_add v x = (fst (atomic_fetch_add v x) + x, snd (atomic_fetch_add v x))"

definition atomic_fetch_sub :: "u32 \<Rightarrow> u32 \<Rightarrow> u32 \<times> u32" where
  "atomic_fetch_sub v x = atomic_fetch_add v (- x)"

subsection \<open>Spinlocks\<close>

record spinlock_t =
  locked :: u32
  lock_owner_pid :: u64

definition spinlock_init :: spinlock_t where
  "spinlock_init = \<lparr>locked = 0, lock_owner_pid = 0\<rparr>"

text \<open>
  One round of the loop of \<^verbatim>\<open>spinlock_acquire\<close>, which is also \<^verbatim>\<open>spinlock_try_acquire\<close>; the
  owner is the pid of the current process, or 0 without one. Nothing in the kernel reads the
  owner of a spinlock, so it is stored together with the lock word.
\<close>

definition spinlock_try_acquire :: "u64 \<Rightarrow> spinlock_t \<Rightarrow> bool \<times> spinlock_t" where
  "spinlock_try_acquire me l =
     (case atomic_cas (locked l) 0 1 of
        (True, v) \<Rightarrow> (True, l\<lparr>locked := v, lock_owner_pid := me\<rparr>)
      | (False, v) \<Rightarrow> (False, l\<lparr>locked := v\<rparr>))"

partial_function (option) spinlock_acquire :: "u64 \<Rightarrow> spinlock_t \<Rightarrow> spinlock_t option" where
  "spinlock_acquire me l =
     (case spinlock_try_acquire me l of (ok, l') \<Rightarrow> if ok then Some l' else spinlock_acquire me l')"

definition spinlock_release :: "spinlock_t \<Rightarrow> spinlock_t" where
  "spinlock_release l = l\<lparr>lock_owner_pid := 0, locked := 0\<rparr>"

definition spinlock_is_held :: "spinlock_t \<Rightarrow> bool" where
  "spinlock_is_held l = (locked l \<noteq> 0)"

text \<open>With the interrupt flag of the processor: saved and cleared before, restored after.\<close>

definition spinlock_irq_save :: "u64 \<Rightarrow> bool \<times> spinlock_t \<Rightarrow> (bool \<times> bool \<times> spinlock_t) option" where
  "spinlock_irq_save me s = (case s of (intr, l) \<Rightarrow> map_option (\<lambda>l'. (intr, False, l')) (spinlock_acquire me l))"

definition spinlock_irq_restore :: "bool \<Rightarrow> bool \<times> spinlock_t \<Rightarrow> bool \<times> spinlock_t" where
  "spinlock_irq_restore flags s = (flags, spinlock_release (snd s))"

text \<open>Threads contending for one spinlock; \<open>held\<close> are those past \<^verbatim>\<open>spinlock_acquire\<close>.\<close>

inductive spin_step :: "(ptr \<Rightarrow> u64) \<Rightarrow> spinlock_t \<times> ptr set \<Rightarrow> spinlock_t \<times> ptr set \<Rightarrow> bool" for pid_of :: "ptr \<Rightarrow> u64" where
  acquire: "p \<notin> held \<Longrightarrow> spinlock_try_acquire (pid_of p) l = (ok, l') \<Longrightarrow>
    spin_step pid_of (l, held) (l', if ok then insert p held else held)"
| release: "p \<in> held \<Longrightarrow> spin_step pid_of (l, held) (spinlock_release l, held - {p})"

subsection \<open>Mutexes\<close>

record mutex_waiter_t =
  w_next :: ptr
  w_proc :: ptr

record mutex_t =
  m_state :: u32
  m_owner_pid :: u64
  m_recursion :: u32
  wait_head :: ptr
  wait_tail :: ptr
  wait_count :: u32

definition mutex_init :: mutex_t where
  "mutex_init = \<lparr>m_state = 0, m_owner_pid = 0, m_recursion = 0, wait_head = NULL, wait_tail = NULL, wait_count = 0\<rparr>"

text \<open>The queue nodes live on the stacks of the waiting threads; a node has the address of its thread here.\<close>

definition wait_enqueue :: "ptr \<Rightarrow> mutex_t \<times> (ptr \<Rightarrow> mutex_waiter_t) \<Rightarrow> mutex_t \<times> (ptr \<Rightarrow> mutex_waiter_t)" where
  "wait_enqueue waiter s =
     (case s of (m, ns) \<Rightarrow>
        let ns1 = ns(waiter := \<lparr>w_next = NULL, w_proc = waiter\<rparr>);
            (m1, ns2) = (if wait_tail m \<noteq> NULL
                         then (m, ns1(wait_tail m := (ns1 (wait_tail m))\<lparr>w_next := waiter\<rparr>))
                         else (m\<lparr>wait_head := waiter\<rparr>, ns1))
        in (m1\<lparr>wait_tail := waiter, wait_count := wait_count m1 + 1\<rparr>, ns2))"

definition wait_dequeue :: "mutex_t \<times> (ptr \<Rightarrow> mutex_waiter_t) \<Rightarrow> ptr \<times> mutex_t" where
  "wait_dequeue s =
     (case s of (m, ns) \<Rightarrow>
        if wait_head m = NULL then (NULL, m)
        else let w = wait_head m;
                 m1 = m\<lparr>wait_head := w_next (ns w)\<rparr>;
                 m2 = (if wait_head m1 = NULL then m1\<lparr>wait_tail := NULL\<rparr> else m1)
             in (w_proc (ns w), m2\<lparr>wait_count := wait_count m2 - 1\<rparr>))"

text \<open>\<^verbatim>\<open>__wait_remove\<close>: \<open>prev\<close> is the node whose link \<^verbatim>\<open>pp\<close> points at, null for the head.\<close>

partial_function (option) wait_remove_from :: "ptr \<Rightarrow> ptr \<Rightarrow> mutex_t \<times> (ptr \<Rightarrow> mutex_waiter_t) \<Rightarrow>
    (mutex_t \<times> (ptr \<Rightarrow> mutex_waiter_t)) option" where
  "wait_remove_from prev proc s =
     (case s of (m, ns) \<Rightarrow>
        let cur = (if prev = NULL then wait_head m else w_next (ns prev)) in
        if cur = NULL then Some (m, ns)
        else if w_proc (ns cur) = proc then
          let nxt = w_next (ns cur);
              (m1, ns1) = (if prev = NULL then (m\<lparr>wait_head := nxt\<rparr>, ns) else (m, ns(prev := (ns prev)\<lparr>w_next := nxt\<rparr>)));
              m2 = (if nxt = NULL then m1\<lparr>wait_tail := NULL\<rparr> else m1)
          in Some (m2\<lparr>wait_count := wait_count m2 - 1\<rparr>, ns1)
        else wait_remove_from cur proc (m, ns))"

definition wait_remove :: "ptr \<Rightarrow> mutex_t \<times> (ptr \<Rightarrow> mutex_waiter_t) \<Rightarrow> (mutex_t \<times> (ptr \<Rightarrow> mutex_waiter_t)) option" where
  "wait_remove proc s = wait_remove_from NULL proc s"

text \<open>
  Where a thread is inside \<^verbatim>\<open>mutex_lock\<close>, \<^verbatim>\<open>mutex_trylock\<close>, \<^verbatim>\<open>mutex_lock_timeout\<close> or \<^verbatim>\<open>mutex_unlock\<close>.
  On the way in: past the compare-and-swap that took the mutex and about to store \<^verbatim>\<open>owner_pid\<close>
  (\<open>Claiming\<close>), past a failed one, about to queue, asleep with an optional deadline, or out of the queue
  and about to count itself out (\<open>Leaving\<close>). On the way out: past the check of the owner
  (\<open>Clearing\<close>), past the store of 0 (\<open>Cleared\<close>), past the failed compare-and-swap (\<open>Dropping\<close>), and
  about to wake a waiter.
\<close>

datatype mutex_pc =
    Outside | Claiming | Contending "u32 option" | Queueing "u64 option" | Asleep "u64 option" | Leaving
  | Owner | Clearing | Cleared | Dropping | Waking

record mutex_sys =
  mtx :: mutex_t
  nodes :: "ptr \<Rightarrow> mutex_waiter_t"
  task_state :: "ptr \<Rightarrow> task_state_t"
  pc :: "ptr \<Rightarrow> mutex_pc"

definition mutex_start :: mutex_sys where
  "mutex_start = \<lparr>mtx = mutex_init, nodes = (\<lambda>_. \<lparr>w_next = NULL, w_proc = NULL\<rparr>), task_state = (\<lambda>_. TASK_RUNNING), pc = (\<lambda>_. Outside)\<rparr>"

definition goto :: "ptr \<Rightarrow> mutex_pc \<Rightarrow> mutex_sys \<Rightarrow> mutex_sys" where
  "goto p c s = s\<lparr>pc := (pc s)(p := c)\<rparr>"

text \<open>The fast path; \<open>timeout\<close> is the argument of \<^verbatim>\<open>mutex_lock_timeout\<close>. Whoever took the mutex then stores its pid.\<close>

definition mutex_lock_fast :: "ptr \<Rightarrow> u32 option \<Rightarrow> mutex_sys \<Rightarrow> mutex_sys" where
  "mutex_lock_fast p timeout s =
     (case atomic_cas (m_state (mtx s)) 0 1 of
        (True, v) \<Rightarrow> goto p Claiming (s\<lparr>mtx := (mtx s)\<lparr>m_state := v\<rparr>\<rparr>)
      | (False, v) \<Rightarrow> goto p (Contending timeout) (s\<lparr>mtx := (mtx s)\<lparr>m_state := v\<rparr>\<rparr>))"

definition mutex_set_owner :: "(ptr \<Rightarrow> u64) \<Rightarrow> ptr \<Rightarrow> mutex_sys \<Rightarrow> mutex_sys" where
  "mutex_set_owner pid_of p s = goto p Owner (s\<lparr>mtx := (mtx s)\<lparr>m_owner_pid := pid_of p\<rparr>\<rparr>)"

text \<open>\<^verbatim>\<open>mutex_trylock\<close> up to its compare-and-swap; it returns at once when that fails.\<close>

definition mutex_trylock :: "ptr \<Rightarrow> mutex_sys \<Rightarrow> int option \<times> mutex_sys" where
  "mutex_trylock p s =
     (case atomic_cas (m_state (mtx s)) 0 1 of
        (True, v) \<Rightarrow> (None, goto p Claiming (s\<lparr>mtx := (mtx s)\<lparr>m_state := v\<rparr>\<rparr>))
      | (False, v) \<Rightarrow> (Some (- 1), s\<lparr>mtx := (mtx s)\<lparr>m_state := v\<rparr>\<rparr>))"

text \<open>The slow path: count in, compute the deadline from \<^verbatim>\<open>lapic_ticks_per_ms\<close>, queue, sleep, look again.\<close>

definition mutex_lock_contend :: "u32 \<Rightarrow> ptr \<Rightarrow> u32 option \<Rightarrow> mutex_sys \<Rightarrow> mutex_sys" where
  "mutex_lock_contend lapic_ticks_per_ms p timeout s =
     goto p (Queueing (map_option (\<lambda>t. ucast (lapic_ticks_per_ms + t)) timeout))
       (s\<lparr>mtx := (mtx s)\<lparr>m_state := snd (atomic_add (m_state (mtx s)) 1)\<rparr>\<rparr>)"

definition mutex_lock_queue :: "ptr \<Rightarrow> u64 option \<Rightarrow> mutex_sys \<Rightarrow> mutex_sys" where
  "mutex_lock_queue p deadline s =
     (case wait_enqueue p (mtx s, nodes s) of (m, ns) \<Rightarrow>
        goto p (Asleep deadline) (s\<lparr>mtx := m, nodes := ns, task_state := (task_state s)(p := TASK_WAITING)\<rparr>))"

definition mutex_lock_expired :: "u32 \<Rightarrow> u64 option \<Rightarrow> bool" where
  "mutex_lock_expired lapic_ticks_per_ms deadline = (case deadline of None \<Rightarrow> False | Some d \<Rightarrow> ucast lapic_ticks_per_ms \<ge> d)"

definition mutex_lock_give_up :: "ptr \<Rightarrow> mutex_sys \<Rightarrow> mutex_sys option" where
  "mutex_lock_give_up p s =
     map_option (\<lambda>(m, ns). goto p Leaving (s\<lparr>mtx := m, nodes := ns\<rparr>)) (wait_remove p (mtx s, nodes s))"

definition mutex_lock_leave :: "ptr \<Rightarrow> mutex_sys \<Rightarrow> mutex_sys" where
  "mutex_lock_leave p s = goto p Outside (s\<lparr>mtx := (mtx s)\<lparr>m_state := snd (atomic_fetch_sub (m_state (mtx s)) 1)\<rparr>\<rparr>)"

definition mutex_lock_retry :: "ptr \<Rightarrow> u64 option \<Rightarrow> mutex_sys \<Rightarrow> mutex_sys" where
  "mutex_lock_retry p deadline s =
     (case atomic_cas (m_state (mtx s)) 1 1 of
        (True, v) \<Rightarrow> goto p Claiming (s\<lparr>mtx := (mtx s)\<lparr>m_state := v\<rparr>\<rparr>)
      | (False, v) \<Rightarrow> goto p (Queueing deadline) (s\<lparr>mtx := (mtx s)\<lparr>m_state := v\<rparr>\<rparr>))"

text \<open>
  \<^verbatim>\<open>mutex_unlock\<close>, access by access: the check of the owner, the store of 0, the compare-and-swap
  from 1 to 0, the subtraction when that failed, and the waking of the first waiter.
\<close>

definition mutex_unlock_check :: "(ptr \<Rightarrow> u64) \<Rightarrow> ptr \<Rightarrow> mutex_sys \<Rightarrow> mutex_sys" where
  "mutex_unlock_check pid_of p s = (if m_owner_pid (mtx s) \<noteq> pid_of p then s else goto p Clearing s)"

definition mutex_unlock_clear :: "ptr \<Rightarrow> mutex_sys \<Rightarrow> mutex_sys" where
  "mutex_unlock_clear p s = goto p Cleared (s\<lparr>mtx := (mtx s)\<lparr>m_owner_pid := 0\<rparr>\<rparr>)"

definition mutex_unlock_swap :: "ptr \<Rightarrow> mutex_sys \<Rightarrow> mutex_sys" where
  "mutex_unlock_swap p s =
     (case atomic_cas (m_state (mtx s)) 1 0 of
        (True, v) \<Rightarrow> goto p Outside (s\<lparr>mtx := (mtx s)\<lparr>m_state := v\<rparr>\<rparr>)
      | (False, v) \<Rightarrow> goto p Dropping (s\<lparr>mtx := (mtx s)\<lparr>m_state := v\<rparr>\<rparr>))"

definition mutex_unlock_sub :: "ptr \<Rightarrow> mutex_sys \<Rightarrow> mutex_sys" where
  "mutex_unlock_sub p s = goto p Waking (s\<lparr>mtx := (mtx s)\<lparr>m_state := snd (atomic_fetch_sub (m_state (mtx s)) 1)\<rparr>\<rparr>)"

definition mutex_unlock_wake :: "ptr \<Rightarrow> mutex_sys \<Rightarrow> mutex_sys" where
  "mutex_unlock_wake p s =
     (case wait_dequeue (mtx s, nodes s) of (wakee, m) \<Rightarrow>
        goto p Outside (s\<lparr>mtx := m,
          task_state := (if wakee \<noteq> NULL then (task_state s)(wakee := TASK_READY) else task_state s)\<rparr>))"

text \<open>
  Any thread of the set \<open>T\<close> may take its next step; a sleeping thread may wake up at any time,
  because \<^verbatim>\<open>sleep\<close> returns when its time is over, whether or not the lock was released.
\<close>

inductive mutex_step :: "(ptr \<Rightarrow> u64) \<Rightarrow> u32 \<Rightarrow> ptr set \<Rightarrow> mutex_sys \<Rightarrow> mutex_sys \<Rightarrow> bool"
  for pid_of :: "ptr \<Rightarrow> u64" and ticks :: u32 and T :: "ptr set" where
  lock: "p \<in> T \<Longrightarrow> pc s p = Outside \<Longrightarrow> mutex_step pid_of ticks T s (mutex_lock_fast p timeout s)"
| trylock: "p \<in> T \<Longrightarrow> pc s p = Outside \<Longrightarrow> mutex_step pid_of ticks T s (snd (mutex_trylock p s))"
| set_owner: "p \<in> T \<Longrightarrow> pc s p = Claiming \<Longrightarrow> mutex_step pid_of ticks T s (mutex_set_owner pid_of p s)"
| contend: "p \<in> T \<Longrightarrow> pc s p = Contending timeout \<Longrightarrow> mutex_step pid_of ticks T s (mutex_lock_contend ticks p timeout s)"
| queue: "p \<in> T \<Longrightarrow> pc s p = Queueing d \<Longrightarrow> mutex_step pid_of ticks T s (mutex_lock_queue p d s)"
| give_up: "p \<in> T \<Longrightarrow> pc s p = Asleep d \<Longrightarrow> mutex_lock_expired ticks d \<Longrightarrow> mutex_lock_give_up p s = Some s' \<Longrightarrow>
    mutex_step pid_of ticks T s s'"
| leave: "p \<in> T \<Longrightarrow> pc s p = Leaving \<Longrightarrow> mutex_step pid_of ticks T s (mutex_lock_leave p s)"
| retry: "p \<in> T \<Longrightarrow> pc s p = Asleep d \<Longrightarrow> \<not> mutex_lock_expired ticks d \<Longrightarrow>
    mutex_step pid_of ticks T s (mutex_lock_retry p d s)"
| check: "p \<in> T \<Longrightarrow> pc s p = Owner \<or> pc s p = Outside \<Longrightarrow> mutex_step pid_of ticks T s (mutex_unlock_check pid_of p s)"
| clear: "p \<in> T \<Longrightarrow> pc s p = Clearing \<Longrightarrow> mutex_step pid_of ticks T s (mutex_unlock_clear p s)"
| swap: "p \<in> T \<Longrightarrow> pc s p = Cleared \<Longrightarrow> mutex_step pid_of ticks T s (mutex_unlock_swap p s)"
| drop: "p \<in> T \<Longrightarrow> pc s p = Dropping \<Longrightarrow> mutex_step pid_of ticks T s (mutex_unlock_sub p s)"
| wake: "p \<in> T \<Longrightarrow> pc s p = Waking \<Longrightarrow> mutex_step pid_of ticks T s (mutex_unlock_wake p s)"

text \<open>
  The mutex is held from the compare-and-swap that takes it to the instruction that gives it up.
\<close>

definition holds :: "mutex_pc \<Rightarrow> bool" where
  "holds c \<longleftrightarrow> c \<in> {Claiming, Owner, Clearing, Cleared, Dropping}"

subsection \<open>Reader-writer locks\<close>

record rwlock_t =
  readers :: "32 word"
  pending_writers :: u32

definition rwlock_init :: rwlock_t where
  "rwlock_init = \<lparr>readers = 0, pending_writers = 0\<rparr>"

text \<open>One round of the loops of \<^verbatim>\<open>rwlock_read_lock\<close> and \<^verbatim>\<open>rwlock_write_lock\<close>; the result says whether the loop ends.\<close>

definition rwlock_read_lock :: "rwlock_t \<Rightarrow> bool \<times> rwlock_t" where
  "rwlock_read_lock rw =
     (if 0 <=s readers rw \<and> pending_writers rw = 0 then (True, rw\<lparr>readers := readers rw + 1\<rparr>) else (False, rw))"

definition rwlock_read_unlock :: "rwlock_t \<Rightarrow> rwlock_t" where
  "rwlock_read_unlock rw = rw\<lparr>readers := readers rw - 1\<rparr>"

definition rwlock_write_lock :: "rwlock_t \<Rightarrow> bool \<times> rwlock_t" where
  "rwlock_write_lock rw =
     (let rw1 = rw\<lparr>pending_writers := pending_writers rw + 1\<rparr> in
      if readers rw1 = 0 then (True, rw1\<lparr>readers := - 1, pending_writers := pending_writers rw1 - 1\<rparr>)
      else (False, rw1))"

definition rwlock_write_unlock :: "rwlock_t \<Rightarrow> rwlock_t" where
  "rwlock_write_unlock rw = rw\<lparr>readers := 0\<rparr>"

text \<open>Threads that hold the lock to read and to write, and the rounds they take.\<close>

datatype rw_pc = NoLock | Reading | Writing

inductive rw_step :: "ptr set \<Rightarrow> rwlock_t \<times> (ptr \<Rightarrow> rw_pc) \<Rightarrow> rwlock_t \<times> (ptr \<Rightarrow> rw_pc) \<Rightarrow> bool" for T :: "ptr set" where
  read_lock: "p \<in> T \<Longrightarrow> h p = NoLock \<Longrightarrow> rwlock_read_lock rw = (ok, rw') \<Longrightarrow>
    rw_step T (rw, h) (rw', if ok then h(p := Reading) else h)"
| read_unlock: "p \<in> T \<Longrightarrow> h p = Reading \<Longrightarrow> rw_step T (rw, h) (rwlock_read_unlock rw, h(p := NoLock))"
| write_lock: "p \<in> T \<Longrightarrow> h p = NoLock \<Longrightarrow> rwlock_write_lock rw = (ok, rw') \<Longrightarrow>
    rw_step T (rw, h) (rw', if ok then h(p := Writing) else h)"
| write_unlock: "p \<in> T \<Longrightarrow> h p = Writing \<Longrightarrow> rw_step T (rw, h) (rwlock_write_unlock rw, h(p := NoLock))"

subsection \<open>Semaphores\<close>

record semaphore_t =
  count :: "32 word"

definition semaphore_init :: "32 word \<Rightarrow> semaphore_t" where
  "semaphore_init initial = \<lparr>count = initial\<rparr>"

text \<open>\<^verbatim>\<open>semaphore_try_wait\<close>, which is also one round of the loops of \<^verbatim>\<open>semaphore_wait\<close>.\<close>

definition semaphore_try_wait :: "semaphore_t \<Rightarrow> bool \<times> semaphore_t" where
  "semaphore_try_wait sem = (if 0 <s count sem then (True, sem\<lparr>count := count sem - 1\<rparr>) else (False, sem))"

definition semaphore_signal :: "semaphore_t \<Rightarrow> semaphore_t" where
  "semaphore_signal sem = sem\<lparr>count := count sem + 1\<rparr>"

datatype sem_op = Wait | Signal

primrec sem_run :: "sem_op list \<Rightarrow> semaphore_t \<Rightarrow> nat \<times> semaphore_t" where
  "sem_run [] sem = (0, sem)"
| "sem_run (x # xs) sem =
     (case x of
        Wait \<Rightarrow> (case semaphore_try_wait sem of (ok, sem') \<Rightarrow> case sem_run xs sem' of (n, s) \<Rightarrow> (if ok then Suc n else n, s))
      | Signal \<Rightarrow> sem_run xs (semaphore_signal sem))"

section \<open>Mutual exclusion\<close>

text \<open>
  What every lock promises: an invariant of its step relation under which two threads are
  never inside at once. The consequence for whole runs is proved once.
\<close>

locale mutual_exclusion =
  fixes step :: "'s \<Rightarrow> 's \<Rightarrow> bool" and inv :: "'s \<Rightarrow> bool" and inside :: "'s \<Rightarrow> 'p \<Rightarrow> bool"
  assumes step_inv: "step s s' \<Longrightarrow> inv s \<Longrightarrow> inv s'"
    and inv_inside: "inv s \<Longrightarrow> inside s p \<Longrightarrow> inside s q \<Longrightarrow> p = q"
begin

lemma run_inv: "step\<^sup>*\<^sup>* s s' \<Longrightarrow> inv s \<Longrightarrow> inv s'"
  by (induction rule: rtranclp_induct) (auto intro: step_inv)

lemma run_excludes: "step\<^sup>*\<^sup>* s s' \<Longrightarrow> inv s \<Longrightarrow> inside s' p \<Longrightarrow> inside s' q \<Longrightarrow> p = q"
  using run_inv inv_inside by blast

end

lemmas atomic = atomic_cas_def atomic_fetch_add_def atomic_add_def atomic_fetch_sub_def

inductive_cases spin_stepE: "spin_step pid_of s s'"
inductive_cases mutex_stepE: "mutex_step pid_of ticks T s s'"
inductive_cases rw_stepE: "rw_step T s s'"

subsection \<open>Spinlocks\<close>

definition spin_inv :: "spinlock_t \<times> ptr set \<Rightarrow> bool" where
  "spin_inv s \<longleftrightarrow> (locked (fst s) = 0 \<and> snd s = {} \<or> locked (fst s) = 1 \<and> (\<exists>p. snd s = {p}))"

interpretation spin: mutual_exclusion "spin_step pid_of" spin_inv "\<lambda>s p. p \<in> snd s" for pid_of
proof unfold_locales
  fix s s' assume "spin_step pid_of s s'" "spin_inv s"
  then show "spin_inv s'"
    by (auto elim!: spin_stepE simp: spin_inv_def spinlock_try_acquire_def spinlock_release_def atomic split: if_splits)
next
  fix s p q assume "spin_inv s" "p \<in> snd s" "q \<in> snd s"
  then show "p = q" by (auto simp: spin_inv_def)
qed

subsection \<open>Mutexes\<close>

definition counted :: "mutex_pc \<Rightarrow> bool" where
  "counted c = (holds c \<or> (case c of Queueing d \<Rightarrow> True | Asleep d \<Rightarrow> True | Leaving \<Rightarrow> True | _ \<Rightarrow> False))"

text \<open>Between the store of its pid and the store of 0 a holder is named in \<^verbatim>\<open>owner_pid\<close>.\<close>

definition named :: "mutex_pc \<Rightarrow> bool" where
  "named c \<longleftrightarrow> c = Owner \<or> c = Clearing"

lemma named_holds: "named c \<Longrightarrow> holds c"
  by (auto simp: named_def holds_def)

lemma holds_counted: "holds c \<Longrightarrow> counted c"
  by (simp add: counted_def)

lemma pc_simps [simp]:
  "holds Claiming" "holds Owner" "holds Clearing" "holds Cleared" "holds Dropping" "\<not> holds Outside" "\<not> holds (Contending t)"
  "\<not> holds (Queueing d)" "\<not> holds (Asleep d)" "\<not> holds Leaving" "\<not> holds Waking"
  "counted Claiming" "counted Owner" "counted Clearing" "counted Cleared" "counted Dropping" "\<not> counted Outside" "\<not> counted (Contending t)"
  "counted (Queueing d)" "counted (Asleep d)" "counted Leaving" "\<not> counted Waking"
  "named Owner" "named Clearing" "\<not> named Claiming" "\<not> named Cleared" "\<not> named Dropping" "\<not> named Outside" "\<not> named (Contending t)"
  "\<not> named (Queueing d)" "\<not> named (Asleep d)" "\<not> named Leaving" "\<not> named Waking"
  by (simp_all add: holds_def counted_def named_def)

text \<open>The state word counts the holder and the threads on the slow path.\<close>

definition mutex_inv :: "(ptr \<Rightarrow> u64) \<Rightarrow> ptr set \<Rightarrow> mutex_sys \<Rightarrow> bool" where
  "mutex_inv pid_of T s \<longleftrightarrow> finite T \<and> card T < 2 ^ 32 \<and> inj_on pid_of T \<and> (\<forall>p \<in> T. pid_of p \<noteq> 0) \<and>
     unat (m_state (mtx s)) = card {p \<in> T. counted (pc s p)} \<and>
     (\<forall>p \<in> T. \<forall>q \<in> T. holds (pc s p) \<and> holds (pc s q) \<longrightarrow> p = q) \<and>
     (\<forall>p \<in> T. named (pc s p) \<longrightarrow> m_owner_pid (mtx s) = pid_of p) \<and>
     ((\<forall>p \<in> T. \<not> named (pc s p)) \<longrightarrow> m_owner_pid (mtx s) = 0)"

lemma mutex_invI:
  assumes "mutex_inv pid_of T s" "p \<in> T" "pc s' = (pc s)(p := c)"
    and "unat (m_state (mtx s')) + (if counted (pc s p) then 1 else 0) = unat (m_state (mtx s)) + (if counted c then 1 else 0)"
    and "holds c \<Longrightarrow> \<not> holds (pc s p) \<Longrightarrow> \<forall>q \<in> T. q \<noteq> p \<longrightarrow> \<not> holds (pc s q)"
    and "m_owner_pid (mtx s') = (if named c then pid_of p else if named (pc s p) then 0 else m_owner_pid (mtx s))"
  shows "mutex_inv pid_of T s'"
proof -
  have fin: "finite T" using assms(1) by (simp add: mutex_inv_def)
  define A where "A = {q \<in> T. counted (pc s q)}"
  have A: "finite A" "p \<in> A \<longleftrightarrow> counted (pc s p)" using fin assms(2) by (simp_all add: A_def)
  have "{q \<in> T. counted (pc s' q)} = (if counted c then insert p A else A - {p})"
    using assms(2,3) by (auto simp: A_def)
  moreover have "card (insert p A) + (if p \<in> A then 1 else 0) = card A + 1" "card (A - {p}) + (if p \<in> A then 1 else 0) = card A"
    using A(1) card_Suc_Diff1 [OF A(1), of p] by (auto simp: insert_absorb)
  ultimately have "card {q \<in> T. counted (pc s' q)} + (if counted (pc s p) then 1 else 0) = card A + (if counted c then 1 else 0)"
    using A(2) by simp
  then have count: "unat (m_state (mtx s')) = card {q \<in> T. counted (pc s' q)}" using assms(1,4) unfolding mutex_inv_def A_def by simp
  have old: "x = y" if "x \<in> T" "y \<in> T" "holds (pc s x)" "holds (pc s y)" for x y
    using assms(1) that unfolding mutex_inv_def by blast
  have alone: "\<not> holds (pc s q)" if "holds c" "q \<in> T" "q \<noteq> p" for q
    using that assms(5) old [of p q] assms(2) by blast
  have new: "q = r" if "q \<in> T" "r \<in> T" "holds (pc s' q)" "holds (pc s' r)" for q r
    using that alone old unfolding assms(3) by (metis fun_upd_apply)
  have "m_owner_pid (mtx s') = pid_of q" if q: "q \<in> T" "named (pc s' q)" for q
  proof (cases "q = p")
    case True
    then show ?thesis using q assms(3,6) by simp
  next
    case False
    then have n: "named (pc s q)" using q assms(3) by simp
    then have "\<not> holds c" "\<not> holds (pc s p)" using alone old named_holds q(1) False assms(2) by blast+
    then have "m_owner_pid (mtx s') = m_owner_pid (mtx s)" using assms(6) named_holds by auto
    then show ?thesis using assms(1) n q(1) unfolding mutex_inv_def by simp
  qed
  moreover have "m_owner_pid (mtx s') = 0" if none: "\<forall>q \<in> T. \<not> named (pc s' q)"
  proof -
    have c: "\<not> named c" using none assms(2,3) by auto
    have "\<not> named (pc s q)" if "q \<in> T" "q \<noteq> p" for q using none that assms(3) by auto
    then show ?thesis using assms(1,6) c unfolding mutex_inv_def by (cases "named (pc s p)") auto
  qed
  ultimately show ?thesis using assms(1) count new unfolding mutex_inv_def by blast
qed

lemma wait_remove_from_keeps:
  assumes "wait_remove_from prev proc s = Some s'"
  shows "m_state (fst s') = m_state (fst s) \<and> m_owner_pid (fst s') = m_owner_pid (fst s)"
proof (rule wait_remove_from.raw_induct [where P = "\<lambda>prev proc s s'. m_state (fst s') = m_state (fst s) \<and> m_owner_pid (fst s') = m_owner_pid (fst s)", OF _ assms])
  fix wr prev proc s s'
  assume ih: "\<And>prev proc s s'. wr prev proc s = Some s' \<Longrightarrow> m_state (fst s') = m_state (fst s) \<and> m_owner_pid (fst s') = m_owner_pid (fst s)"
    and run: "(case s of (m, ns) \<Rightarrow>
        let cur = (if prev = NULL then wait_head m else w_next (ns prev)) in
        if cur = NULL then Some (m, ns)
        else if w_proc (ns cur) = proc then
          let nxt = w_next (ns cur);
              (m1, ns1) = (if prev = NULL then (m\<lparr>wait_head := nxt\<rparr>, ns) else (m, ns(prev := (ns prev)\<lparr>w_next := nxt\<rparr>)));
              m2 = (if nxt = NULL then m1\<lparr>wait_tail := NULL\<rparr> else m1)
          in Some (m2\<lparr>wait_count := wait_count m2 - 1\<rparr>, ns1)
        else wr cur proc (m, ns)) = Some s'"
  obtain m ns where s: "s = (m, ns)" by (cases s)
  show "m_state (fst s') = m_state (fst s) \<and> m_owner_pid (fst s') = m_owner_pid (fst s)"
    using run unfolding s Let_def by (auto split: if_splits dest: ih)
qed

lemma wait_enqueue_keeps: "m_state (fst (wait_enqueue p s)) = m_state (fst s)" "m_owner_pid (fst (wait_enqueue p s)) = m_owner_pid (fst s)"
  by (cases s; simp add: wait_enqueue_def Let_def)+

lemma wait_dequeue_keeps: "m_state (snd (wait_dequeue s)) = m_state (fst s)" "m_owner_pid (snd (wait_dequeue s)) = m_owner_pid (fst s)"
  by (cases s; simp add: wait_dequeue_def Let_def)+

lemma goto_sel [simp]: "pc (goto p c s) = (pc s)(p := c)" "mtx (goto p c s) = mtx s" "nodes (goto p c s) = nodes s"
  by (simp_all add: goto_def)

lemma mutex_count:
  assumes "mutex_inv pid_of T s" "p \<in> T"
  shows "counted (pc s p) \<Longrightarrow> 0 < unat (m_state (mtx s))"
    "\<not> counted (pc s p) \<Longrightarrow> unat (m_state (mtx s) + 1) = Suc (unat (m_state (mtx s)))"
    "counted (pc s p) \<Longrightarrow> unat (m_state (mtx s) - 1) = unat (m_state (mtx s)) - 1"
proof -
  let ?A = "{q \<in> T. counted (pc s q)}"
  have fin: "finite T" "card T < 2 ^ 32" and c: "unat (m_state (mtx s)) = card ?A"
    using assms(1) by (auto simp: mutex_inv_def)
  show pos: "0 < unat (m_state (mtx s))" if "counted (pc s p)"
    unfolding c using that assms(2) fin(1) by (auto simp: card_gt_0_iff)
  show "unat (m_state (mtx s) - 1) = unat (m_state (mtx s)) - 1" if "counted (pc s p)"
    using pos [OF that] by (simp add: unat_sub word_le_nat_alt)
  assume "\<not> counted (pc s p)"
  then have "?A \<subset> T" using assms(2) by blast
  then have "card ?A < card T" using fin(1) by (rule psubset_card_mono [rotated])
  then have "unat (m_state (mtx s)) + 1 < 2 ^ 32" using c fin(2) by simp
  then show "unat (m_state (mtx s) + 1) = Suc (unat (m_state (mtx s)))" by (simp add: unat_word_ariths)
qed

text \<open>A thread that finds 1 in the state word while queued is the only one counted.\<close>

lemma mutex_alone:
  assumes inv: "mutex_inv pid_of T s" and p: "p \<in> T" "counted (pc s p)" and one: "m_state (mtx s) = 1"
  shows "q \<in> T \<Longrightarrow> q \<noteq> p \<Longrightarrow> \<not> counted (pc s q)"
proof
  assume q: "q \<in> T" "q \<noteq> p" "counted (pc s q)"
  have "card {p, q} \<le> card {r \<in> T. counted (pc s r)}" using inv p q by (intro card_mono) (auto simp: mutex_inv_def)
  also have "\<dots> = 1" using inv one by (simp add: mutex_inv_def)
  finally show False using q(2) by simp
qed

lemma mutex_take_ok:
  assumes inv: "mutex_inv pid_of T s" and p: "p \<in> T" "pc s p = Outside" and free: "m_state (mtx s) = 0"
  shows "mutex_inv pid_of T (goto p Claiming (s\<lparr>mtx := (mtx s)\<lparr>m_state := 1\<rparr>\<rparr>))"
proof (rule mutex_invI [OF inv p(1), where c = Claiming])
  have "{q \<in> T. counted (pc s q)} = {}" using inv free unfolding mutex_inv_def by auto
  then show "\<forall>q\<in>T. q \<noteq> p \<longrightarrow> \<not> holds (pc s q)" using holds_counted by blast
qed (use p free in \<open>simp_all\<close>)

lemma mutex_check_ok:
  assumes inv: "mutex_inv pid_of T s" and p: "p \<in> T" "pc s p = Owner \<or> pc s p = Outside"
  shows "mutex_inv pid_of T (mutex_unlock_check pid_of p s)"
proof (cases "m_owner_pid (mtx s) = pid_of p")
  case False
  then show ?thesis using inv by (simp add: mutex_unlock_check_def)
next
  case True
  have "pc s p = Owner"
  proof (rule ccontr)
    assume "pc s p \<noteq> Owner"
    then have "\<not> named (pc s p)" using p(2) by auto
    moreover have "q = p" if "q \<in> T" "named (pc s q)" for q
      using inv that True p(1) unfolding mutex_inv_def inj_on_def by metis
    ultimately have "m_owner_pid (mtx s) = 0" using inv unfolding mutex_inv_def by blast
    then show False using True inv p(1) by (auto simp: mutex_inv_def)
  qed
  then show ?thesis
    unfolding mutex_unlock_check_def using True by (auto intro!: mutex_invI [OF inv p(1), where c = Clearing])
qed

lemma mutex_step_inv:
  assumes "mutex_step pid_of ticks T s s'" "mutex_inv pid_of T s"
  shows "mutex_inv pid_of T s'"
  using assms
proof cases
  case (lock p timeout)
  show ?thesis
  proof (cases "m_state (mtx s) = 0")
    case True
    then show ?thesis using lock mutex_take_ok [OF assms(2) lock(2,3)] by (simp add: mutex_lock_fast_def atomic)
  next
    case False
    then show ?thesis unfolding lock mutex_lock_fast_def
      using lock(3) by (auto simp: atomic intro!: mutex_invI [OF assms(2) lock(2), where c = "Contending timeout"])
  qed
next
  case (trylock p)
  show ?thesis
  proof (cases "m_state (mtx s) = 0")
    case True
    then show ?thesis using trylock mutex_take_ok [OF assms(2) trylock(2,3)] by (simp add: mutex_trylock_def atomic)
  next
    case False
    then show ?thesis using assms(2) by (simp add: trylock mutex_trylock_def atomic)
  qed
next
  case (set_owner p)
  show ?thesis unfolding set_owner mutex_set_owner_def
    using set_owner(3) by (auto intro!: mutex_invI [OF assms(2) set_owner(2), where c = Owner])
next
  case (contend p timeout)
  show ?thesis unfolding contend mutex_lock_contend_def
    by (rule mutex_invI [OF assms(2) contend(2), where c = "Queueing (map_option (\<lambda>t. ucast (ticks + t)) timeout)"]) (use contend(3) mutex_count(2) [OF assms(2) contend(2)] in \<open>auto simp: atomic\<close>)
next
  case (queue p d)
  have "mutex_lock_queue p d s = goto p (Asleep d) (s\<lparr>mtx := fst (wait_enqueue p (mtx s, nodes s)),
      nodes := snd (wait_enqueue p (mtx s, nodes s)), task_state := (task_state s)(p := TASK_WAITING)\<rparr>)"
    by (simp add: mutex_lock_queue_def split: prod.splits)
  then show ?thesis unfolding queue
    using queue(3) by (auto simp: wait_enqueue_keeps intro!: mutex_invI [OF assms(2) queue(2), where c = "Asleep d"])
next
  case (give_up p d)
  obtain m ns where r: "wait_remove p (mtx s, nodes s) = Some (m, ns)" "s' = goto p Leaving (s\<lparr>mtx := m, nodes := ns\<rparr>)"
    using give_up(4) by (auto simp: mutex_lock_give_up_def)
  then have "m_state m = m_state (mtx s)" "m_owner_pid m = m_owner_pid (mtx s)"
    using wait_remove_from_keeps unfolding wait_remove_def by fastforce+
  then show ?thesis unfolding r(2)
    using give_up(2) by (auto intro!: mutex_invI [OF assms(2) give_up(1), where c = Leaving])
next
  case (leave p)
  show ?thesis unfolding leave mutex_lock_leave_def
    using leave(3) mutex_count(1,3) [OF assms(2) leave(2)] by (auto simp: atomic intro!: mutex_invI [OF assms(2) leave(2), where c = Outside])
next
  case (retry p d)
  show ?thesis
  proof (cases "m_state (mtx s) = 1")
    case True
    have "\<not> holds (pc s q)" if "q \<in> T" "q \<noteq> p" for q
      using mutex_alone [OF assms(2) retry(2) _ True that] retry(3) holds_counted by auto
    then show ?thesis unfolding retry mutex_lock_retry_def
      using True retry(3) by (auto simp: atomic intro!: mutex_invI [OF assms(2) retry(2), where c = Claiming])
  next
    case False
    then show ?thesis unfolding retry mutex_lock_retry_def
      using retry(3) by (auto simp: atomic intro!: mutex_invI [OF assms(2) retry(2), where c = "Queueing d"])
  qed
next
  case (check p)
  then show ?thesis using mutex_check_ok [OF assms(2)] by blast
next
  case (clear p)
  show ?thesis unfolding clear mutex_unlock_clear_def
    using clear(3) by (auto intro!: mutex_invI [OF assms(2) clear(2), where c = Cleared])
next
  case (swap p)
  show ?thesis
  proof (cases "m_state (mtx s) = 1")
    case True
    then show ?thesis unfolding swap mutex_unlock_swap_def
      using swap(3) by (auto simp: atomic intro!: mutex_invI [OF assms(2) swap(2), where c = Outside])
  next
    case False
    then show ?thesis unfolding swap mutex_unlock_swap_def
      using swap(3) by (auto simp: atomic intro!: mutex_invI [OF assms(2) swap(2), where c = Dropping])
  qed
next
  case (drop p)
  show ?thesis unfolding drop mutex_unlock_sub_def
    using drop(3) mutex_count(1,3) [OF assms(2) drop(2)] by (auto simp: atomic intro!: mutex_invI [OF assms(2) drop(2), where c = Waking])
next
  case (wake p)
  have "mutex_unlock_wake p s = goto p Outside (s\<lparr>mtx := snd (wait_dequeue (mtx s, nodes s)),
      task_state := (if fst (wait_dequeue (mtx s, nodes s)) \<noteq> NULL
        then (task_state s)(fst (wait_dequeue (mtx s, nodes s)) := TASK_READY) else task_state s)\<rparr>)"
    by (simp add: mutex_unlock_wake_def split: prod.splits)
  then show ?thesis unfolding wake
    using wake(3) by (auto simp: wait_dequeue_keeps intro!: mutex_invI [OF assms(2) wake(2), where c = Outside])
qed

interpretation mutex: mutual_exclusion "mutex_step pid_of ticks T" "mutex_inv pid_of T" "\<lambda>s p. p \<in> T \<and> holds (pc s p)"
  for pid_of ticks T
proof unfold_locales
  show "mutex_inv pid_of T s'" if "mutex_step pid_of ticks T s s'" "mutex_inv pid_of T s" for s s'
    by (rule mutex_step_inv [OF that])
  show "p = q" if "mutex_inv pid_of T s" "p \<in> T \<and> holds (pc s p)" "q \<in> T \<and> holds (pc s q)" for s p q
    using that unfolding mutex_inv_def by blast
qed

subsection \<open>Two waiters\<close>

text \<open>
  Nobody owns the mutex or is about to, and two threads wait for it without a deadline. A former
  owner may still be on its way out.
\<close>

definition waiting :: "mutex_sys \<Rightarrow> ptr \<Rightarrow> bool" where
  "waiting s p \<longleftrightarrow> pc s p = Queueing None \<or> pc s p = Asleep None"

definition owning :: "mutex_pc \<Rightarrow> bool" where
  "owning c \<longleftrightarrow> c = Claiming \<or> c = Owner"

definition orphaned :: "(ptr \<Rightarrow> u64) \<Rightarrow> ptr set \<Rightarrow> ptr \<Rightarrow> ptr \<Rightarrow> mutex_sys \<Rightarrow> bool" where
  "orphaned pid_of T p q s \<longleftrightarrow> mutex_inv pid_of T s \<and> p \<in> T \<and> q \<in> T \<and> p \<noteq> q \<and> waiting s p \<and> waiting s q \<and> (\<forall>r \<in> T. \<not> owning (pc s r))"

lemma orphaned_state:
  assumes "orphaned pid_of T p q s"
  shows "m_state (mtx s) \<noteq> 0" "m_state (mtx s) \<noteq> 1"
proof -
  have inv: "mutex_inv pid_of T s" and pq: "p \<in> T" "q \<in> T" "p \<noteq> q" "counted (pc s p)" "counted (pc s q)"
    using assms by (auto simp: orphaned_def waiting_def)
  show "m_state (mtx s) \<noteq> 0" using mutex_count(1) [OF inv pq(1,4)] by auto
  show "m_state (mtx s) \<noteq> 1" using mutex_alone [OF inv pq(1,4) _ pq(2)] pq by blast
qed

lemma orphaned_goto:
  assumes "orphaned pid_of T p q s" "mutex_inv pid_of T s'" "pc s' = (pc s)(r := c)" "\<not> owning c"
    "waiting s r \<Longrightarrow> c = Queueing None \<or> c = Asleep None"
  shows "orphaned pid_of T p q s'"
  using assms by (auto simp: orphaned_def waiting_def)

lemma orphaned_step:
  assumes st: "mutex_step pid_of ticks T s s'" and o': "orphaned pid_of T p q s"
  shows "orphaned pid_of T p q s'"
proof -
  note S = orphaned_state [OF o']
  have inv: "mutex_inv pid_of T s'" using mutex_step_inv [OF st] o' by (simp add: orphaned_def)
  have no: "\<not> owning (pc s r)" if "r \<in> T" for r using o' that by (simp add: orphaned_def)
  have "\<exists>r c. pc s' = (pc s)(r := c) \<and> \<not> owning c \<and> (waiting s r \<longrightarrow> c = Queueing None \<or> c = Asleep None)"
    using st
  proof cases
    case (lock r timeout)
    then show ?thesis using S by (intro exI [of _ r]) (auto simp: mutex_lock_fast_def atomic waiting_def owning_def)
  next
    case (trylock r)
    then have "pc s' = (pc s)(r := Outside)" using S by (auto simp: mutex_trylock_def atomic)
    then show ?thesis using trylock(3) by (intro exI [of _ r] exI [of _ Outside]) (auto simp: waiting_def owning_def)
  next
    case (set_owner r)
    then show ?thesis using no [of r] by (simp add: owning_def)
  next
    case (contend r timeout)
    then show ?thesis by (intro exI [of _ r]) (auto simp: mutex_lock_contend_def waiting_def owning_def)
  next
    case (queue r d)
    then show ?thesis
      by (intro exI [of _ r] exI [of _ "Asleep d"]) (auto simp: mutex_lock_queue_def waiting_def owning_def split: prod.splits)
  next
    case (give_up r d)
    then show ?thesis
      by (intro exI [of _ r] exI [of _ Leaving]) (auto simp: mutex_lock_give_up_def mutex_lock_expired_def waiting_def owning_def split: option.splits)
  next
    case (leave r)
    then show ?thesis by (intro exI [of _ r] exI [of _ Outside]) (auto simp: mutex_lock_leave_def waiting_def owning_def)
  next
    case (retry r d)
    then show ?thesis using S
      by (intro exI [of _ r] exI [of _ "Queueing d"]) (auto simp: mutex_lock_retry_def atomic waiting_def owning_def)
  next
    case (check r)
    then show ?thesis using no [of r]
      by (intro exI [of _ r] exI [of _ "if m_owner_pid (mtx s) \<noteq> pid_of r then pc s r else Clearing"]) (auto simp: mutex_unlock_check_def waiting_def owning_def)
  next
    case (clear r)
    then show ?thesis by (intro exI [of _ r] exI [of _ Cleared]) (auto simp: mutex_unlock_clear_def waiting_def owning_def)
  next
    case (swap r)
    then show ?thesis using S by (intro exI [of _ r] exI [of _ Dropping]) (auto simp: mutex_unlock_swap_def atomic waiting_def owning_def)
  next
    case (drop r)
    then show ?thesis by (intro exI [of _ r] exI [of _ Waking]) (auto simp: mutex_unlock_sub_def waiting_def owning_def)
  next
    case (wake r)
    then show ?thesis
      by (intro exI [of _ r] exI [of _ Outside]) (auto simp: mutex_unlock_wake_def waiting_def owning_def split: prod.splits)
  qed
  then show ?thesis using orphaned_goto [OF o' inv] by blast
qed

lemma orphaned_run: "(mutex_step pid_of ticks T)\<^sup>*\<^sup>* s s' \<Longrightarrow> orphaned pid_of T p q s \<Longrightarrow> orphaned pid_of T p q s'"
  by (induction rule: rtranclp_induct) (auto intro: orphaned_step)

subsection \<open>Reader-writer locks\<close>

definition rw_inv :: "ptr set \<Rightarrow> rwlock_t \<times> (ptr \<Rightarrow> rw_pc) \<Rightarrow> bool" where
  "rw_inv T s \<longleftrightarrow> finite T \<and> card T < 2 ^ 31 \<and>
     ((\<exists>w \<in> T. {p \<in> T. snd s p \<noteq> NoLock} = {w} \<and> snd s w = Writing \<and> readers (fst s) = - 1) \<or>
      (\<forall>p \<in> T. snd s p \<noteq> Writing) \<and> readers (fst s) = of_nat (card {p \<in> T. snd s p = Reading}))"

lemma reader_count:
  assumes "n < 2 ^ 31"
  shows "0 <=s (of_nat n :: 32 word)" "(of_nat n :: 32 word) = 0 \<longleftrightarrow> n = 0" "\<not> 0 <=s (- 1 :: 32 word)"
proof -
  have "sint (of_nat n :: 32 word) = int n"
    using assms by (simp add: signed_of_nat signed_take_bit_int_eq_self)
  then show "0 <=s (of_nat n :: 32 word)" by (simp add: word_sle_eq)
  show "(of_nat n :: 32 word) = 0 \<longleftrightarrow> n = 0" using assms by (simp add: word_unat_eq_iff unat_of_nat take_bit_nat_eq_self)
  show "\<not> 0 <=s (- 1 :: 32 word)" by (simp add: word_sle_eq)
qed

lemma rw_step_inv:
  assumes "rw_step T s s'" "rw_inv T s"
  shows "rw_inv T s'"
  using assms(1)
proof cases
  case (read_lock p h rw ok rw')
  let ?R = "{p \<in> T. h p = Reading}"
  have fin: "finite T" "card T < 2 ^ 31" using assms(2) by (auto simp: rw_inv_def)
  have le: "card ?R < 2 ^ 31" using fin card_mono [of T ?R] by fastforce
  show ?thesis
  proof (cases ok)
    case False
    then show ?thesis using assms(2) read_lock by (auto simp: rwlock_read_lock_def split: if_splits)
  next
    case True
    then have r: "0 <=s readers rw" "rw' = rw\<lparr>readers := readers rw + 1\<rparr>" using read_lock(5) by (auto simp: rwlock_read_lock_def split: if_splits)
    then have "readers rw \<noteq> - 1" using reader_count(3) by auto
    then have w: "\<forall>p \<in> T. h p \<noteq> Writing" "readers rw = of_nat (card ?R)" using assms(2) read_lock(1) by (auto simp: rw_inv_def)
    have "{q \<in> T. (h(p := Reading)) q = Reading} = insert p ?R" "p \<notin> ?R" using read_lock by auto
    then have "card {q \<in> T. (h(p := Reading)) q = Reading} = Suc (card ?R)" using fin(1) by simp
    then show ?thesis using fin w r True read_lock by (auto simp: rw_inv_def)
  qed
next
  case (read_unlock p h rw)
  let ?R = "{p \<in> T. h p = Reading}"
  have fin: "finite T" "card T < 2 ^ 31" using assms(2) by (auto simp: rw_inv_def)
  have w: "\<forall>p \<in> T. h p \<noteq> Writing" "readers rw = of_nat (card ?R)"
  proof -
    have "\<not> (\<exists>w \<in> T. {p \<in> T. h p \<noteq> NoLock} = {w} \<and> h w = Writing)"
    proof
      assume "\<exists>w \<in> T. {p \<in> T. h p \<noteq> NoLock} = {w} \<and> h w = Writing"
      then obtain w where "{p \<in> T. h p \<noteq> NoLock} = {w}" "h w = Writing" by blast
      moreover have "p \<in> {p \<in> T. h p \<noteq> NoLock}" using read_unlock(3,4) by simp
      ultimately show False using read_unlock(4) by auto
    qed
    then show "\<forall>p \<in> T. h p \<noteq> Writing" "readers rw = of_nat (card ?R)" using assms(2) read_unlock(1) by (auto simp: rw_inv_def)
  qed
  have "{q \<in> T. (h(p := NoLock)) q = Reading} = ?R - {p}" "p \<in> ?R" using read_unlock by auto
  then have "card ?R = Suc (card {q \<in> T. (h(p := NoLock)) q = Reading})" using fin(1) card_Suc_Diff1 [of ?R p] by simp
  then have "readers rw - 1 = of_nat (card {q \<in> T. (h(p := NoLock)) q = Reading})" unfolding w(2) by simp
  then show ?thesis using fin w read_unlock by (auto simp: rw_inv_def rwlock_read_unlock_def)
next
  case (write_lock p h rw ok rw')
  let ?R = "{p \<in> T. h p = Reading}"
  have fin: "finite T" "card T < 2 ^ 31" using assms(2) by (auto simp: rw_inv_def)
  have le: "card ?R < 2 ^ 31" using fin card_mono [of T ?R] by fastforce
  show ?thesis
  proof (cases ok)
    case False
    then have "readers rw' = readers rw" using write_lock(5) by (auto simp: rwlock_write_lock_def Let_def split: if_splits)
    then show ?thesis using assms(2) write_lock False by (simp add: rw_inv_def)
  next
    case True
    then have r: "readers rw = 0" "readers rw' = - 1" using write_lock(5) by (auto simp: rwlock_write_lock_def Let_def split: if_splits)
    then have w: "\<forall>p \<in> T. h p \<noteq> Writing" "card ?R = 0" using assms(2) write_lock(1) reader_count(2) [OF le] by (auto simp: rw_inv_def)
    then have "h q = NoLock" if "q \<in> T" for q using that fin(1) by (cases "h q") auto
    then have "{q \<in> T. (h(p := Writing)) q \<noteq> NoLock} = {p}" using write_lock(3) by auto
    then show ?thesis using fin r True write_lock(2,3) by (auto simp: rw_inv_def)
  qed
next
  case (write_unlock p h rw)
  have fin: "finite T" "card T < 2 ^ 31" using assms(2) by (auto simp: rw_inv_def)
  obtain w where "{p \<in> T. h p \<noteq> NoLock} = {w}" using assms(2) write_unlock by (auto simp: rw_inv_def)
  moreover have "p \<in> {p \<in> T. h p \<noteq> NoLock}" using write_unlock(3,4) by simp
  ultimately have "{q \<in> T. h q \<noteq> NoLock} = {p}" by auto
  then have "h q = NoLock" if "q \<in> T" "q \<noteq> p" for q using that by blast
  then have "{q \<in> T. (h(p := NoLock)) q = Reading} = {}" "\<forall>q \<in> T. (h(p := NoLock)) q \<noteq> Writing" by auto
  then have "rw_inv T (rwlock_write_unlock rw, h(p := NoLock))"
    unfolding rw_inv_def fst_conv snd_conv using fin by (simp only: card.empty) (simp add: rwlock_write_unlock_def)
  then show ?thesis using write_unlock(2) by simp
qed

interpretation rw: mutual_exclusion "rw_step T" "rw_inv T" "\<lambda>s p. p \<in> T \<and> snd s p = Writing" for T
proof unfold_locales
  show "rw_inv T s'" if "rw_step T s s'" "rw_inv T s" for s s' by (rule rw_step_inv [OF that])
  show "p = q" if a: "rw_inv T s" "p \<in> T \<and> snd s p = Writing" "q \<in> T \<and> snd s q = Writing" for s p q
  proof -
    obtain w where "{r \<in> T. snd s r \<noteq> NoLock} = {w}" using a unfolding rw_inv_def by blast
    moreover have "p \<in> {r \<in> T. snd s r \<noteq> NoLock}" "q \<in> {r \<in> T. snd s r \<noteq> NoLock}" using that by auto
    ultimately show ?thesis by auto
  qed
qed



subsection \<open>Semaphores\<close>

lemma sem_sint:
  assumes "0 \<le> sint (w :: 32 word)" "sint w + 1 < 2 ^ 31"
  shows "sint (w + 1) = sint w + 1"
  using assms by (simp add: sint_word_ariths signed_take_bit_int_eq_self)

lemma sem_run_conserves:
  assumes "0 \<le> sint (count sem)" "sint (count sem) + int (length (filter ((=) Signal) xs)) < 2 ^ 31" "sem_run xs sem = (n, sem')"
  shows "int n + sint (count sem') = sint (count sem) + int (length (filter ((=) Signal) xs)) \<and> 0 \<le> sint (count sem')"
  using assms
proof (induction xs arbitrary: sem n)
  case (Cons x xs)
  show ?case
  proof (cases x)
    case Signal
    have s: "sint (count (semaphore_signal sem)) = sint (count sem) + 1"
      unfolding semaphore_signal_def using Cons.prems(1,2) Signal by (simp add: sem_sint)
    then show ?thesis using Cons.IH [of "semaphore_signal sem" n] Cons.prems Signal by simp
  next
    case Wait
    show ?thesis
    proof (cases "0 <s count sem")
      case False
      then show ?thesis using Cons Wait by (auto simp: semaphore_try_wait_def split: prod.splits)
    next
      case True
      then have p: "0 < sint (count sem)" by (simp add: word_sless_alt)
      then have s: "sint (count sem - 1) = sint (count sem) - 1"
        using sint_range_size [of "count sem"] by (simp add: sint_word_ariths signed_take_bit_int_eq_self word_size)
      obtain k where "n = Suc k" "sem_run xs (sem\<lparr>count := count sem - 1\<rparr>) = (k, sem')"
        using Cons.prems(3) Wait True by (auto simp: semaphore_try_wait_def split: prod.splits)
      then show ?thesis using Cons.IH [of "sem\<lparr>count := count sem - 1\<rparr>" k] Cons.prems(1,2) Wait s p by simp
    qed
  qed
qed simp

lemma mutex_start_inv:
  assumes "finite T" "card T < 2 ^ 32" "inj_on pid_of T" "\<forall>p \<in> T. pid_of p \<noteq> 0"
  shows "mutex_inv pid_of T mutex_start"
  using assms by (simp add: mutex_inv_def mutex_start_def mutex_init_def)

section \<open>Properties\<close>

text \<open>
  C7: In every interleaving, access by access, of \<^verbatim>\<open>mutex_lock\<close>, \<^verbatim>\<open>mutex_trylock\<close>, \<^verbatim>\<open>mutex_lock_timeout\<close> and
  \<^verbatim>\<open>mutex_unlock\<close> by fewer than $2^{32}$ processes with distinct non-zero pids, at most one process
  holds the mutex: from the compare-and-swap that takes it, through the critical section, to the
  instruction of \<^verbatim>\<open>mutex_unlock\<close> that gives it up. The stores to \<^verbatim>\<open>owner_pid\<close> are steps of their own.
\<close>

theorem mutex_exclusion:
  assumes "finite T" "card T < 2 ^ 32" "inj_on pid_of T" "\<forall>p \<in> T. pid_of p \<noteq> 0"
    and "(mutex_step pid_of ticks T)\<^sup>*\<^sup>* mutex_start s" "p \<in> T" "q \<in> T" "holds (pc s p)" "holds (pc s q)"
  shows "p = q"
  by (rule mutex.run_excludes [OF assms(5) mutex_start_inv [OF assms(1-4)]]) (use assms(6-9) in auto)

text \<open>The first process takes the mutex, the second one contends for it before the first has stored its pid.\<close>

theorem mutex_exclusion_witness:
  "\<exists>s. (mutex_step (\<lambda>p. p) 1 {1, 2})\<^sup>*\<^sup>* mutex_start s \<and> pc s 1 = Owner \<and> pc s 2 = Contending None \<and>
    (\<forall>q \<in> {1, 2}. holds (pc s q) \<longrightarrow> q = 1)"
proof -
  define s1 s2 s3 where "s1 = mutex_lock_fast 1 None mutex_start" and "s2 = mutex_lock_fast 2 None s1"
    and "s3 = mutex_set_owner (\<lambda>p. p) 1 s2"
  have pcs: "pc s1 1 = Claiming" "pc s1 2 = Outside" "pc s2 1 = Claiming" "pc s3 1 = Owner" "pc s3 2 = Contending None"
    by (simp_all add: s3_def s2_def s1_def mutex_lock_fast_def mutex_set_owner_def mutex_start_def mutex_init_def atomic)
  have "mutex_step (\<lambda>p. p) 1 {1, 2} mutex_start s1" "mutex_step (\<lambda>p. p) 1 {1, 2} s1 s2" "mutex_step (\<lambda>p. p) 1 {1, 2} s2 s3"
    unfolding s2_def s3_def using pcs(2,3) by (auto intro!: mutex_step.lock mutex_step.set_owner simp: s1_def s2_def mutex_start_def)
  then have run: "(mutex_step (\<lambda>p. p) 1 {1, 2})\<^sup>*\<^sup>* mutex_start s3" by (meson converse_rtranclp_into_rtranclp rtranclp.rtrancl_refl)
  have "\<forall>q \<in> {1, 2}. holds (pc s3 q) \<longrightarrow> q = 1"
    using mutex_exclusion [OF _ _ _ _ run, where q = 1] pcs(4) by simp
  then show ?thesis using run pcs by blast
qed

text \<open>
  C25: Two waiters lose the mutex for good. Once nobody owns it or is about to while two processes
  are on the slow path of \<^verbatim>\<open>mutex_lock\<close>, the state word stays at 2 or more, so neither the fast path, which
  needs 0, nor the re-check after \<^verbatim>\<open>sleep\<close>, which needs 1, ever succeeds again: whatever the
  processes do from there on, nobody owns the mutex.
\<close>

theorem mutex_two_waiters_stuck:
  assumes "mutex_inv pid_of T s" "p \<in> T" "q \<in> T" "p \<noteq> q" "waiting s p" "waiting s q" "\<forall>r \<in> T. \<not> owning (pc s r)"
    and "(mutex_step pid_of ticks T)\<^sup>*\<^sup>* s s'" "r \<in> T"
  shows "\<not> owning (pc s' r)"
proof -
  have "orphaned pid_of T p q s" using assms(1-7) by (simp add: orphaned_def)
  then show ?thesis using orphaned_run [OF assms(8)] assms(9) by (auto simp: orphaned_def)
qed

text \<open>
  Such a state comes from ordinary use: one process takes the mutex, two more call
  \<^verbatim>\<open>mutex_lock\<close>, and the owner calls \<^verbatim>\<open>mutex_unlock\<close>.
\<close>

theorem mutex_two_waiters_stuck_witness:
  "\<exists>s. (mutex_step (\<lambda>p. p) 1 {1, 2, 3})\<^sup>*\<^sup>* mutex_start s \<and> pc s 1 = Waking \<and>
    (\<forall>s'. (mutex_step (\<lambda>p. p) 1 {1, 2, 3})\<^sup>*\<^sup>* s s' \<longrightarrow> pc s' 1 \<noteq> Owner \<and> pc s' 2 \<noteq> Owner \<and> pc s' 3 \<noteq> Owner)"
proof -
  let ?T = "{1, 2, 3} :: ptr set"
  let ?S = "mutex_step (\<lambda>p. p) 1 ?T"
  define s1 where "s1 = mutex_lock_fast 1 None mutex_start"
  define s2 where "s2 = mutex_set_owner (\<lambda>p. p) 1 s1"
  define s3 where "s3 = mutex_lock_fast 2 None s2"
  define s4 where "s4 = mutex_lock_contend 1 2 None s3"
  define s5 where "s5 = mutex_lock_fast 3 None s4"
  define s6 where "s6 = mutex_lock_contend 1 3 None s5"
  define s7 where "s7 = mutex_unlock_check (\<lambda>p. p) 1 s6"
  define s8 where "s8 = mutex_unlock_clear 1 s7"
  define s9 where "s9 = mutex_unlock_swap 1 s8"
  define s10 where "s10 = mutex_unlock_sub 1 s9"
  note in_defs = mutex_lock_fast_def mutex_set_owner_def mutex_lock_contend_def atomic
  have out: "pc mutex_start p = Outside" for p by (simp add: mutex_start_def)
  have 1: "pc s1 = (pc mutex_start)(1 := Claiming)" "m_state (mtx s1) = 1" by (simp_all add: s1_def in_defs mutex_start_def mutex_init_def)
  have 2: "pc s2 = (pc s1)(1 := Owner)" "m_state (mtx s2) = 1" "m_owner_pid (mtx s2) = 1" by (simp_all add: s2_def in_defs 1)
  have 3: "pc s3 = (pc s2)(2 := Contending None)" "m_state (mtx s3) = 1" "m_owner_pid (mtx s3) = 1" by (simp_all add: s3_def in_defs 2)
  have 4: "pc s4 = (pc s3)(2 := Queueing None)" "m_state (mtx s4) = 2" "m_owner_pid (mtx s4) = 1" by (simp_all add: s4_def in_defs 3)
  have 5: "pc s5 = (pc s4)(3 := Contending None)" "m_state (mtx s5) = 2" "m_owner_pid (mtx s5) = 1" by (simp_all add: s5_def in_defs 4)
  have 6: "pc s6 = (pc s5)(3 := Queueing None)" "m_state (mtx s6) = 3" "m_owner_pid (mtx s6) = 1" by (simp_all add: s6_def in_defs 5)
  have 7: "pc s7 = (pc s6)(1 := Clearing)" "m_state (mtx s7) = 3" by (simp_all add: s7_def mutex_unlock_check_def 6)
  have 8: "pc s8 = (pc s7)(1 := Cleared)" "m_state (mtx s8) = 3" by (simp_all add: s8_def mutex_unlock_clear_def 7)
  have 9: "pc s9 = (pc s8)(1 := Dropping)" by (simp add: s9_def mutex_unlock_swap_def atomic 8)
  have 10: "pc s10 = (pc s9)(1 := Waking)" by (simp add: s10_def mutex_unlock_sub_def)
  have "?S mutex_start s1" unfolding s1_def by (rule mutex_step.lock) (simp_all add: out)
  moreover have "?S s1 s2" unfolding s2_def by (rule mutex_step.set_owner) (simp_all add: 1)
  moreover have "?S s2 s3" unfolding s3_def by (rule mutex_step.lock) (simp_all add: 2 1 out)
  moreover have "?S s3 s4" unfolding s4_def by (rule mutex_step.contend) (simp_all add: 3)
  moreover have "?S s4 s5" unfolding s5_def by (rule mutex_step.lock) (simp_all add: 4 3 2 1 out)
  moreover have "?S s5 s6" unfolding s6_def by (rule mutex_step.contend) (simp_all add: 5)
  moreover have "?S s6 s7" unfolding s7_def by (rule mutex_step.check) (simp_all add: 6 5 4 3 2)
  moreover have "?S s7 s8" unfolding s8_def by (rule mutex_step.clear) (simp_all add: 7)
  moreover have "?S s8 s9" unfolding s9_def by (rule mutex_step.swap) (simp_all add: 8)
  moreover have "?S s9 s10" unfolding s10_def by (rule mutex_step.drop) (simp_all add: 9)
  ultimately have run: "?S\<^sup>*\<^sup>* mutex_start s10" by (meson converse_rtranclp_into_rtranclp rtranclp.rtrancl_refl)
  have "mutex_inv (\<lambda>p. p) ?T mutex_start" by (rule mutex_start_inv) auto
  then have inv: "mutex_inv (\<lambda>p. p) ?T s10" by (rule mutex.run_inv [OF run])
  have pcs: "pc s10 1 = Waking" "pc s10 2 = Queueing None" "pc s10 3 = Queueing None" by (simp_all add: 10 9 8 7 6 5 4)
  have "\<not> owning (pc s' r)" if "?S\<^sup>*\<^sup>* s10 s'" "r \<in> ?T" for s' r
    by (rule mutex_two_waiters_stuck [OF inv, where p = 2 and q = 3, OF _ _ _ _ _ _ that]) (use pcs in \<open>auto simp: waiting_def owning_def\<close>)
  then have "\<forall>s'. ?S\<^sup>*\<^sup>* s10 s' \<longrightarrow> pc s' 1 \<noteq> Owner \<and> pc s' 2 \<noteq> Owner \<and> pc s' 3 \<noteq> Owner" by (auto simp: owning_def)
  then show ?thesis using run pcs(1) by blast
qed

text \<open>
  C26: In every interleaving of the reader-writer lock a writer is alone: while one thread holds
  the lock for writing no other thread holds it, for writing or for reading.
\<close>

theorem rwlock_exclusion:
  assumes "finite T" "card T < 2 ^ 31" "(rw_step T)\<^sup>*\<^sup>* (rwlock_init, \<lambda>_. NoLock) (rw, h)" "p \<in> T" "q \<in> T" "h p = Writing" "h q \<noteq> NoLock"
  shows "p = q"
proof -
  have "rw_inv T (rwlock_init, \<lambda>_. NoLock)" using assms(1,2) by (simp add: rw_inv_def rwlock_init_def)
  then have "rw_inv T (rw, h)" by (rule rw.run_inv [OF assms(3)])
  then obtain w where "{r \<in> T. h r \<noteq> NoLock} = {w}" using assms(4,6) by (auto simp: rw_inv_def)
  moreover have "p \<in> {r \<in> T. h r \<noteq> NoLock}" "q \<in> {r \<in> T. h r \<noteq> NoLock}" using assms(4-7) by auto
  ultimately show ?thesis by auto
qed

theorem rwlock_exclusion_witness:
  "\<exists>rw h. (rw_step {1, 2})\<^sup>*\<^sup>* (rwlock_init, \<lambda>_. NoLock) (rw, h) \<and> h 1 = Writing \<and> (\<forall>q \<in> {1, 2}. h q \<noteq> NoLock \<longrightarrow> q = 1)"
proof -
  let ?h = "(\<lambda>_. NoLock)(1 := Writing)"
  have w: "rwlock_write_lock rwlock_init = (True, \<lparr>readers = - 1, pending_writers = 0\<rparr>)" by (simp add: rwlock_write_lock_def rwlock_init_def)
  have "rw_step {1, 2} (rwlock_init, \<lambda>_. NoLock) (\<lparr>readers = - 1, pending_writers = 0\<rparr>, ?h)"
    using rw_step.write_lock [of 1 "{1, 2}" "\<lambda>_. NoLock", OF _ _ w] by simp
  then have run: "(rw_step {1, 2})\<^sup>*\<^sup>* (rwlock_init, \<lambda>_. NoLock) (\<lparr>readers = - 1, pending_writers = 0\<rparr>, ?h)" by simp
  have "q = 1" if "q \<in> {1, 2}" "?h q \<noteq> NoLock" for q :: ptr using rwlock_exclusion [OF _ _ run _ that(1) _ that(2), of 1] by simp
  then show ?thesis using run by (metis fun_upd_same)
qed



text \<open>
  C28: A semaphore hands out exactly what was put in. For any sequence of signals and attempts to
  wait, from a non-negative count that the signals cannot push past the largest 32-bit value,
  the number of successful waits and the final count add up to the initial count and the number
  of signals, and the count never becomes negative.
\<close>

theorem semaphore_conserves:
  assumes "0 \<le> sint initial" "sint initial + int (length (filter ((=) Signal) xs)) < 2 ^ 31" "sem_run xs (semaphore_init initial) = (n, sem)"
  shows "int n + sint (count sem) = sint initial + int (length (filter ((=) Signal) xs)) \<and> 0 \<le> sint (count sem)"
  using sem_run_conserves [of "semaphore_init initial" xs n sem] assms by (simp add: semaphore_init_def)

theorem semaphore_conserves_witness:
  "\<exists>sem. sem_run [Wait, Wait, Signal, Wait] (semaphore_init 1) = (2, sem) \<and> sint (count sem) = 0"
proof -
  have run: "sem_run [Wait, Wait, Signal, Wait] (semaphore_init 1) = (2, \<lparr>count = 0\<rparr>)"
    by (simp add: semaphore_init_def semaphore_try_wait_def semaphore_signal_def word_sless_alt)
  show ?thesis using semaphore_conserves [OF _ _ run] run by auto
qed

end
