(* ===== verification/Md5.thy ===== *)
theory Md5
  imports Kmem
begin

text \<open>
  The message digest of \<^verbatim>\<open>lib/libc/md5.c\<close>. The context of a running digest, the unrolled
  compression of one block, and the streaming interface are modelled; data pointers are the
  byte lists they point to, and reading past the end of one has no result. The reference is the
  algorithm of RFC 1321: pad the whole message, then fold a loop of 64 rotating steps over the
  blocks. The library functions compute exactly that digest, however the message is cut up.
\<close>

section \<open>Definitions\<close>

subsection \<open>The compression function\<close>

definition MD5_F :: "u32 \<Rightarrow> u32 \<Rightarrow> u32 \<Rightarrow> u32" where
  "MD5_F x y z = z XOR (x AND (y XOR z))"

definition MD5_G :: "u32 \<Rightarrow> u32 \<Rightarrow> u32 \<Rightarrow> u32" where
  "MD5_G x y z = y XOR (z AND (x XOR y))"

definition MD5_H :: "u32 \<Rightarrow> u32 \<Rightarrow> u32 \<Rightarrow> u32" where
  "MD5_H x y z = (x XOR y) XOR z"

definition MD5_H2 :: "u32 \<Rightarrow> u32 \<Rightarrow> u32 \<Rightarrow> u32" where
  "MD5_H2 x y z = x XOR (y XOR z)"

definition MD5_I :: "u32 \<Rightarrow> u32 \<Rightarrow> u32 \<Rightarrow> u32" where
  "MD5_I x y z = y XOR (x OR NOT z)"

definition STEP :: "(u32 \<Rightarrow> u32 \<Rightarrow> u32 \<Rightarrow> u32) \<Rightarrow> u32 \<Rightarrow> u32 \<Rightarrow> u32 \<Rightarrow> u32 \<Rightarrow> u32 \<Rightarrow> u32 \<Rightarrow> nat \<Rightarrow> u32" where
  "STEP f a b c d x t s =
     (let a1 = a + (f b c d + x + t);
          a2 = push_bit s a1 OR drop_bit (32 - s) (a1 AND 0xffffffff)
      in a2 + b)"

definition SET :: "u8 list \<Rightarrow> nat \<Rightarrow> u32" where
  "SET p n = from_le (take 4 (drop (n * 4) p))"

text \<open>
  The local variables \<^verbatim>\<open>a\<close>, \<^verbatim>\<open>b\<close>, \<^verbatim>\<open>c\<close> and \<^verbatim>\<open>d\<close> of \<^verbatim>\<open>body\<close>, and one line of its four rounds:
  the function, the four variables, the word of the block, the constant and the shift.
\<close>

datatype reg = RA | RB | RC | RD

type_synonym regs = "reg \<Rightarrow> u32"
type_synonym md5_step = "(u32 \<Rightarrow> u32 \<Rightarrow> u32 \<Rightarrow> u32) \<times> reg \<times> reg \<times> reg \<times> reg \<times> nat \<times> u32 \<times> nat"

definition run_step :: "u8 list \<Rightarrow> md5_step \<Rightarrow> regs \<Rightarrow> regs" where
  "run_step p = (\<lambda>(f, a, b, c, d, n, t, s) v. v(a := STEP f (v a) (v b) (v c) (v d) (SET p n) t s))"

definition round_one :: "md5_step list" where
  "round_one =
   [(MD5_F, RA, RB, RC, RD, 0, 0xd76aa478, 7),
    (MD5_F, RD, RA, RB, RC, 1, 0xe8c7b756, 12),
    (MD5_F, RC, RD, RA, RB, 2, 0x242070db, 17),
    (MD5_F, RB, RC, RD, RA, 3, 0xc1bdceee, 22),
    (MD5_F, RA, RB, RC, RD, 4, 0xf57c0faf, 7),
    (MD5_F, RD, RA, RB, RC, 5, 0x4787c62a, 12),
    (MD5_F, RC, RD, RA, RB, 6, 0xa8304613, 17),
    (MD5_F, RB, RC, RD, RA, 7, 0xfd469501, 22),
    (MD5_F, RA, RB, RC, RD, 8, 0x698098d8, 7),
    (MD5_F, RD, RA, RB, RC, 9, 0x8b44f7af, 12),
    (MD5_F, RC, RD, RA, RB, 10, 0xffff5bb1, 17),
    (MD5_F, RB, RC, RD, RA, 11, 0x895cd7be, 22),
    (MD5_F, RA, RB, RC, RD, 12, 0x6b901122, 7),
    (MD5_F, RD, RA, RB, RC, 13, 0xfd987193, 12),
    (MD5_F, RC, RD, RA, RB, 14, 0xa679438e, 17),
    (MD5_F, RB, RC, RD, RA, 15, 0x49b40821, 22)]"

definition round_two :: "md5_step list" where
  "round_two =
   [(MD5_G, RA, RB, RC, RD, 1, 0xf61e2562, 5),
    (MD5_G, RD, RA, RB, RC, 6, 0xc040b340, 9),
    (MD5_G, RC, RD, RA, RB, 11, 0x265e5a51, 14),
    (MD5_G, RB, RC, RD, RA, 0, 0xe9b6c7aa, 20),
    (MD5_G, RA, RB, RC, RD, 5, 0xd62f105d, 5),
    (MD5_G, RD, RA, RB, RC, 10, 0x02441453, 9),
    (MD5_G, RC, RD, RA, RB, 15, 0xd8a1e681, 14),
    (MD5_G, RB, RC, RD, RA, 4, 0xe7d3fbc8, 20),
    (MD5_G, RA, RB, RC, RD, 9, 0x21e1cde6, 5),
    (MD5_G, RD, RA, RB, RC, 14, 0xc33707d6, 9),
    (MD5_G, RC, RD, RA, RB, 3, 0xf4d50d87, 14),
    (MD5_G, RB, RC, RD, RA, 8, 0x455a14ed, 20),
    (MD5_G, RA, RB, RC, RD, 13, 0xa9e3e905, 5),
    (MD5_G, RD, RA, RB, RC, 2, 0xfcefa3f8, 9),
    (MD5_G, RC, RD, RA, RB, 7, 0x676f02d9, 14),
    (MD5_G, RB, RC, RD, RA, 12, 0x8d2a4c8a, 20)]"

definition round_three :: "md5_step list" where
  "round_three =
   [(MD5_H, RA, RB, RC, RD, 5, 0xfffa3942, 4),
    (MD5_H2, RD, RA, RB, RC, 8, 0x8771f681, 11),
    (MD5_H, RC, RD, RA, RB, 11, 0x6d9d6122, 16),
    (MD5_H2, RB, RC, RD, RA, 14, 0xfde5380c, 23),
    (MD5_H, RA, RB, RC, RD, 1, 0xa4beea44, 4),
    (MD5_H2, RD, RA, RB, RC, 4, 0x4bdecfa9, 11),
    (MD5_H, RC, RD, RA, RB, 7, 0xf6bb4b60, 16),
    (MD5_H2, RB, RC, RD, RA, 10, 0xbebfbc70, 23),
    (MD5_H, RA, RB, RC, RD, 13, 0x289b7ec6, 4),
    (MD5_H2, RD, RA, RB, RC, 0, 0xeaa127fa, 11),
    (MD5_H, RC, RD, RA, RB, 3, 0xd4ef3085, 16),
    (MD5_H2, RB, RC, RD, RA, 6, 0x04881d05, 23),
    (MD5_H, RA, RB, RC, RD, 9, 0xd9d4d039, 4),
    (MD5_H2, RD, RA, RB, RC, 12, 0xe6db99e5, 11),
    (MD5_H, RC, RD, RA, RB, 15, 0x1fa27cf8, 16),
    (MD5_H2, RB, RC, RD, RA, 2, 0xc4ac5665, 23)]"

definition round_four :: "md5_step list" where
  "round_four =
   [(MD5_I, RA, RB, RC, RD, 0, 0xf4292244, 6),
    (MD5_I, RD, RA, RB, RC, 7, 0x432aff97, 10),
    (MD5_I, RC, RD, RA, RB, 14, 0xab9423a7, 15),
    (MD5_I, RB, RC, RD, RA, 5, 0xfc93a039, 21),
    (MD5_I, RA, RB, RC, RD, 12, 0x655b59c3, 6),
    (MD5_I, RD, RA, RB, RC, 3, 0x8f0ccc92, 10),
    (MD5_I, RC, RD, RA, RB, 10, 0xffeff47d, 15),
    (MD5_I, RB, RC, RD, RA, 1, 0x85845dd1, 21),
    (MD5_I, RA, RB, RC, RD, 8, 0x6fa87e4f, 6),
    (MD5_I, RD, RA, RB, RC, 15, 0xfe2ce6e0, 10),
    (MD5_I, RC, RD, RA, RB, 6, 0xa3014314, 15),
    (MD5_I, RB, RC, RD, RA, 13, 0x4e0811a1, 21),
    (MD5_I, RA, RB, RC, RD, 4, 0xf7537e82, 6),
    (MD5_I, RD, RA, RB, RC, 11, 0xbd3af235, 10),
    (MD5_I, RC, RD, RA, RB, 2, 0x2ad7d2bb, 15),
    (MD5_I, RB, RC, RD, RA, 9, 0xeb86d391, 21)]"

definition body_block :: "u8 list \<Rightarrow> regs \<Rightarrow> regs" where
  "body_block p v =
     (let v' = fold (run_step p) (round_one @ round_two @ round_three @ round_four) v
      in (\<lambda>r. v' r + v r))"

text \<open>The do-while loop of \<^verbatim>\<open>body\<close>: it ends when the remaining size, an unsigned long, reaches 0.\<close>

partial_function (option) body_loop :: "u8 list \<Rightarrow> u64 \<Rightarrow> regs \<Rightarrow> (u8 list \<times> regs) option" where
  "body_loop p n v =
     (if length p < 64 then None
      else if n - 64 = 0 then Some (drop 64 p, body_block p v)
      else body_loop (drop 64 p) (n - 64) (body_block p v))"

subsection \<open>The streaming interface\<close>

record MD5_CTX =
  ctx_lo :: u32
  ctx_hi :: u32
  ctx_a :: u32
  ctx_b :: u32
  ctx_c :: u32
  ctx_d :: u32
  ctx_buffer :: "u8 list"

definition ctx_regs :: "MD5_CTX \<Rightarrow> regs" where
  "ctx_regs x = (\<lambda>r. case r of RA \<Rightarrow> ctx_a x | RB \<Rightarrow> ctx_b x | RC \<Rightarrow> ctx_c x | RD \<Rightarrow> ctx_d x)"

definition md5_body :: "MD5_CTX \<Rightarrow> u8 list \<Rightarrow> u64 \<Rightarrow> (u8 list \<times> MD5_CTX) option" where
  "md5_body x p n = do {
     (rest, v) \<leftarrow> body_loop p n (ctx_regs x);
     Some (rest, x\<lparr>ctx_a := v RA, ctx_b := v RB, ctx_c := v RC, ctx_d := v RD\<rparr>) }"

definition MD5_Init :: "MD5_CTX \<Rightarrow> MD5_CTX" where
  "MD5_Init x = x\<lparr>ctx_a := 0x67452301, ctx_b := 0xefcdab89, ctx_c := 0x98badcfe, ctx_d := 0x10325476,
     ctx_lo := 0, ctx_hi := 0\<rparr>"

text \<open>\<^verbatim>\<open>memcpy (&ctx->buffer[i], p, n)\<close>; copying past the end of either array has no result.\<close>

definition to_buffer :: "nat \<Rightarrow> u8 list \<Rightarrow> nat \<Rightarrow> MD5_CTX \<Rightarrow> MD5_CTX option" where
  "to_buffer i p n x =
     (if n \<le> length p \<and> i + n \<le> length (ctx_buffer x)
      then Some (x\<lparr>ctx_buffer := take i (ctx_buffer x) @ take n p @ drop (i + n) (ctx_buffer x)\<rparr>)
      else None)"

definition md5_count :: "u64 \<Rightarrow> MD5_CTX \<Rightarrow> MD5_CTX" where
  "md5_count n x =
     (let saved_lo = ctx_lo x;
          new_lo = ucast ((ucast saved_lo + n) AND 0x1fffffff);
          x = x\<lparr>ctx_lo := new_lo\<rparr>;
          x = (if new_lo < saved_lo then x\<lparr>ctx_hi := ctx_hi x + 1\<rparr> else x)
      in x\<lparr>ctx_hi := ctx_hi x + ucast (drop_bit 29 n)\<rparr>)"

definition md5_blocks :: "u8 list \<Rightarrow> u64 \<Rightarrow> MD5_CTX \<Rightarrow> MD5_CTX option" where
  "md5_blocks p n x =
     (if n \<ge> 64 then do {
        (rest, x) \<leftarrow> md5_body x p (n AND NOT 0x3f);
        to_buffer 0 rest (unat (n AND 0x3f)) x }
      else to_buffer 0 p (unat n) x)"

definition MD5_Update :: "u8 list \<Rightarrow> u64 \<Rightarrow> MD5_CTX \<Rightarrow> MD5_CTX option" where
  "MD5_Update p n x =
     (let used = unat (ctx_lo x AND 0x3f); x = md5_count n x
      in if used \<noteq> 0 then
           let available = 64 - used
           in if unat n < available then to_buffer used p (unat n) x
              else do {
                x \<leftarrow> to_buffer used p available x;
                (_, x) \<leftarrow> md5_body x (ctx_buffer x) 64;
                md5_blocks (drop available p) (n - of_nat available) x }
         else md5_blocks p n x)"

definition OUT :: "u32 \<Rightarrow> u8 list" where
  "OUT v = [ucast v, ucast (drop_bit 8 v), ucast (drop_bit 16 v), ucast (drop_bit 24 v)]"

definition zero_ctx :: MD5_CTX where
  "zero_ctx = \<lparr>ctx_lo = 0, ctx_hi = 0, ctx_a = 0, ctx_b = 0, ctx_c = 0, ctx_d = 0, ctx_buffer = replicate 64 0\<rparr>"

definition md5_finish :: "nat \<Rightarrow> nat \<Rightarrow> MD5_CTX \<Rightarrow> (u8 list \<times> MD5_CTX) option" where
  "md5_finish used available x = do {
     x \<leftarrow> to_buffer used (replicate (available - 8) 0) (available - 8) x;
     let x = x\<lparr>ctx_lo := push_bit 3 (ctx_lo x)\<rparr>;
     x \<leftarrow> to_buffer 56 (OUT (ctx_lo x)) 4 x;
     x \<leftarrow> to_buffer 60 (OUT (ctx_hi x)) 4 x;
     (_, x) \<leftarrow> md5_body x (ctx_buffer x) 64;
     Some (OUT (ctx_a x) @ OUT (ctx_b x) @ OUT (ctx_c x) @ OUT (ctx_d x), zero_ctx) }"

definition MD5_Final :: "MD5_CTX \<Rightarrow> (u8 list \<times> MD5_CTX) option" where
  "MD5_Final x = do {
     let used = unat (ctx_lo x AND 0x3f);
     x \<leftarrow> to_buffer used [0x80] 1 x;
     let used = used + 1;
     let available = 64 - used;
     if available < 8 then do {
       x \<leftarrow> to_buffer used (replicate available 0) available x;
       (_, x) \<leftarrow> md5_body x (ctx_buffer x) 64;
       md5_finish 0 64 x }
     else md5_finish used available x }"

text \<open>A digest computed piece by piece.\<close>

primrec MD5_Updates :: "u8 list list \<Rightarrow> MD5_CTX \<Rightarrow> MD5_CTX option" where
  "MD5_Updates [] x = Some x"
| "MD5_Updates (p # ps) x = do { x \<leftarrow> MD5_Update p (of_nat (length p)) x; MD5_Updates ps x }"

definition MD5_Digest :: "u8 list list \<Rightarrow> MD5_CTX \<Rightarrow> u8 list option" where
  "MD5_Digest ps x = map_option fst (Option.bind (MD5_Updates ps (MD5_Init x)) MD5_Final)"

subsection \<open>The reference: RFC 1321\<close>

definition rfc_T :: "u32 list" where
  "rfc_T =
   [0xd76aa478, 0xe8c7b756, 0x242070db, 0xc1bdceee, 0xf57c0faf, 0x4787c62a, 0xa8304613, 0xfd469501,
    0x698098d8, 0x8b44f7af, 0xffff5bb1, 0x895cd7be, 0x6b901122, 0xfd987193, 0xa679438e, 0x49b40821,
    0xf61e2562, 0xc040b340, 0x265e5a51, 0xe9b6c7aa, 0xd62f105d, 0x02441453, 0xd8a1e681, 0xe7d3fbc8,
    0x21e1cde6, 0xc33707d6, 0xf4d50d87, 0x455a14ed, 0xa9e3e905, 0xfcefa3f8, 0x676f02d9, 0x8d2a4c8a,
    0xfffa3942, 0x8771f681, 0x6d9d6122, 0xfde5380c, 0xa4beea44, 0x4bdecfa9, 0xf6bb4b60, 0xbebfbc70,
    0x289b7ec6, 0xeaa127fa, 0xd4ef3085, 0x04881d05, 0xd9d4d039, 0xe6db99e5, 0x1fa27cf8, 0xc4ac5665,
    0xf4292244, 0x432aff97, 0xab9423a7, 0xfc93a039, 0x655b59c3, 0x8f0ccc92, 0xffeff47d, 0x85845dd1,
    0x6fa87e4f, 0xfe2ce6e0, 0xa3014314, 0x4e0811a1, 0xf7537e82, 0xbd3af235, 0x2ad7d2bb, 0xeb86d391]"

definition rfc_fun :: "nat \<Rightarrow> u32 \<Rightarrow> u32 \<Rightarrow> u32 \<Rightarrow> u32" where
  "rfc_fun i x y z =
     (if i < 16 then (x AND y) OR (NOT x AND z)
      else if i < 32 then (x AND z) OR (y AND NOT z)
      else if i < 48 then x XOR y XOR z
      else y XOR (x OR NOT z))"

definition rfc_word :: "nat \<Rightarrow> nat" where
  "rfc_word i =
     (if i < 16 then i else if i < 32 then (5 * i + 1) mod 16
      else if i < 48 then (3 * i + 5) mod 16 else (7 * i) mod 16)"

definition rfc_shift :: "nat \<Rightarrow> nat" where
  "rfc_shift i =
     (if i < 16 then [7, 12, 17, 22] ! (i mod 4) else if i < 32 then [5, 9, 14, 20] ! (i mod 4)
      else if i < 48 then [4, 11, 16, 23] ! (i mod 4) else [6, 10, 15, 21] ! (i mod 4))"

type_synonym quad = "u32 \<times> u32 \<times> u32 \<times> u32"

fun rfc_round :: "u8 list \<Rightarrow> nat \<Rightarrow> quad \<Rightarrow> quad" where
  "rfc_round blk i (a, b, c, d) =
     (d, b + word_rotl (rfc_shift i) (a + rfc_fun i b c d + SET blk (rfc_word i) + rfc_T ! i), b, c)"

fun quad_plus :: "quad \<Rightarrow> quad \<Rightarrow> quad" where
  "quad_plus (a, b, c, d) (a', b', c', d') = (a + a', b + b', c + c', d + d')"

definition rfc_compress :: "quad \<Rightarrow> u8 list \<Rightarrow> quad" where
  "rfc_compress q blk = quad_plus (fold (rfc_round blk) [0..<64] q) q"

definition rfc_start :: quad where
  "rfc_start = (0x67452301, 0xefcdab89, 0x98badcfe, 0x10325476)"

fun rfc_blocks :: "quad \<Rightarrow> u8 list \<Rightarrow> quad" where
  "rfc_blocks q p = (if length p < 64 then q else rfc_blocks (rfc_compress q (take 64 p)) (drop 64 p))"

text \<open>The padding: a one bit, zero bits up to 448 modulo 512, and the length in bits modulo $2^{64}$.\<close>

definition rfc_pad :: "u8 list \<Rightarrow> u8 list" where
  "rfc_pad p = p @ [0x80] @ replicate ((119 - length p mod 64) mod 64) 0 @ to_le 8 (of_nat (8 * length p) :: u64)"

definition rfc_md5 :: "u8 list \<Rightarrow> u8 list" where
  "rfc_md5 p = (case rfc_blocks rfc_start (rfc_pad p) of
     (a, b, c, d) \<Rightarrow> to_le 4 a @ to_le 4 b @ to_le 4 c @ to_le 4 d)"

declare rfc_blocks.simps [simp del]

section \<open>One block\<close>

lemma MD5_F_rfc: "MD5_F x y z = (x AND y) OR (NOT x AND z)"
  unfolding MD5_F_def by (rule bit_eqI) (auto simp: bit_simps)

lemma MD5_G_rfc: "MD5_G x y z = (x AND z) OR (y AND NOT z)"
  unfolding MD5_G_def by (rule bit_eqI) (auto simp: bit_simps)

lemma MD5_H2_H: "MD5_H2 = MD5_H"
  by (simp add: fun_eq_iff MD5_H_def MD5_H2_def ac_simps)

lemma rfc_fun_code:
  "rfc_fun i = (if i < 16 then MD5_F else if i < 32 then MD5_G else if i < 48 then MD5_H else MD5_I)"
  by (simp add: fun_eq_iff rfc_fun_def MD5_F_rfc MD5_G_rfc MD5_H_def MD5_I_def ac_simps)

lemma rotate_as_shifts:
  fixes x :: u32
  assumes "0 < s" "s < 32"
  shows "push_bit s x OR drop_bit (32 - s) (x AND 0xffffffff) = word_rotl s x"
proof (rule bit_word_eqI)
  fix n assume n: "n < LENGTH(32)" 
  have m: "x AND 0xffffffff = x"
  proof -
    have "(0xffffffff :: u32) = - 1" by simp
    then show ?thesis by (simp only: and.right_neutral)
  qed
  show "bit (push_bit s x OR drop_bit (32 - s) (x AND 0xffffffff)) n \<longleftrightarrow> bit (word_rotl s x) n"
  proof (cases "n < s")
    case True
    then have "(n + (32 - s)) mod 32 = 32 - s + n" using assms by simp
    moreover have "bit (word_rotl s x) n \<longleftrightarrow> bit x ((n + (32 - s)) mod 32)"
      using assms n by (simp add: bit_word_rotl_iff)
    moreover have "bit (push_bit s x OR drop_bit (32 - s) x) n \<longleftrightarrow> bit x (32 - s + n)"
      using True by (simp add: bit_or_iff bit_push_bit_iff bit_drop_bit_eq)
    ultimately show ?thesis by (simp only: m)
  next
    case False
    then have "n + (32 - s) = 32 + (n - s)" using assms by simp
    moreover have "(32 + (n - s)) mod 32 = n - s" using n by simp
    ultimately have "(n + (32 - s)) mod 32 = n - s" by (simp only:)
    moreover have "\<not> bit x (32 - s + n)"
      using False assms bit_imp_le_length [of x "32 - s + n"] by auto
    ultimately show ?thesis using assms n False by (simp add: m bit_simps bit_word_rotl_iff)
  qed
qed

text \<open>The order in which the lines of the rounds name the variables.\<close>

definition reg_order :: "nat \<Rightarrow> reg \<times> reg \<times> reg \<times> reg" where
  "reg_order i = [(RA, RB, RC, RD), (RD, RA, RB, RC), (RC, RD, RA, RB), (RB, RC, RD, RA)] ! (i mod 4)"

definition reg_view :: "nat \<Rightarrow> regs \<Rightarrow> quad" where
  "reg_view i v = (case reg_order i of (p, q, r, s) \<Rightarrow> (v p, v q, v r, v s))"

definition code_line :: "nat \<Rightarrow> md5_step" where
  "code_line i = (case reg_order i of
     (p, q, r, s) \<Rightarrow> (rfc_fun i, p, q, r, s, rfc_word i, rfc_T ! i, rfc_shift i))"

lemma rounds_are_lines:
  "round_one = map code_line [0..<16]" "round_two = map code_line [16..<32]"
  "round_three = map code_line [32..<48]" "round_four = map code_line [48..<64]"
  by (simp_all add: round_one_def round_two_def round_three_def round_four_def code_line_def reg_order_def
      rfc_fun_code rfc_word_def rfc_T_def rfc_shift_def MD5_H2_H numeral_2_eq_2 [symmetric] upt_rec [of 0] upt_rec [of "Suc 0"] upt_rec_numeral)

lemma rfc_shift_range: "0 < rfc_shift i" "rfc_shift i < 32"
proof -
  have "i mod 4 = 0 \<or> i mod 4 = 1 \<or> i mod 4 = 2 \<or> i mod 4 = 3" by linarith
  then show "0 < rfc_shift i" "rfc_shift i < 32" unfolding rfc_shift_def by (elim disjE; simp)+
qed

lemma STEP_rotl:
  "STEP f a b c d x t (rfc_shift i) = b + word_rotl (rfc_shift i) (a + f b c d + x + t)"
  using rotate_as_shifts [OF rfc_shift_range] by (simp add: STEP_def Let_def ac_simps)

lemma mod_4_cases: "(i :: nat) mod 4 = 0 \<or> i mod 4 = 1 \<or> i mod 4 = 2 \<or> i mod 4 = 3"
  by linarith

lemma line_is_round: "reg_view (Suc i) (run_step p (code_line i) v) = rfc_round p i (reg_view i v)"
proof -
  have "Suc i mod 4 = (if i mod 4 = 3 then 0 else Suc (i mod 4))" by (simp add: mod_Suc)
  with mod_4_cases [of i] show ?thesis
    by (elim disjE; simp add: reg_view_def reg_order_def code_line_def run_step_def STEP_rotl ac_simps)
qed

lemma lines_are_rounds:
  "reg_view n (fold (run_step p) (map code_line [0..<n]) v) = fold (rfc_round p) [0..<n] (reg_view 0 v)"
  by (induction n) (simp_all add: line_is_round)

lemma SET_take: "n < 16 \<Longrightarrow> SET (take 64 p) n = SET p n"
  by (simp add: SET_def drop_take min_def)

lemma rfc_word_less: "i < 64 \<Longrightarrow> rfc_word i < 16"
  by (simp add: rfc_word_def)

lemma rfc_rounds_take: "n \<le> 64 \<Longrightarrow> fold (rfc_round (take 64 p)) [0..<n] q = fold (rfc_round p) [0..<n] q"
proof (induction n)
  case (Suc n)
  then show ?case
    by (cases "fold (rfc_round p) [0..<n] q") (simp add: SET_take rfc_word_less)
qed simp

abbreviation quad_of :: "regs \<Rightarrow> quad" where
  "quad_of v \<equiv> (v RA, v RB, v RC, v RD)"

lemma body_block_compress: "quad_of (body_block p v) = rfc_compress (quad_of v) (take 64 p)"
proof -
  define w where "w = fold (run_step p) (map code_line [0..<64]) v"
  have all: "round_one @ round_two @ round_three @ round_four = map code_line [0..<64]"
    unfolding rounds_are_lines map_append [symmetric]
    using upt_add_eq_append [of 0 48 16] upt_add_eq_append [of 0 32 16] upt_add_eq_append [of 0 16 16] by simp
  have 0: "reg_view 0 x = quad_of x" "reg_view 64 x = quad_of x" for x
    by (simp_all add: reg_view_def reg_order_def)
  have "quad_of w = fold (rfc_round p) [0..<64] (quad_of v)"
    using lines_are_rounds [of 64 p v] unfolding w_def 0 .
  then have "quad_plus (quad_of w) (quad_of v) = rfc_compress (quad_of v) (take 64 p)"
    unfolding rfc_compress_def rfc_rounds_take [OF order_refl] by (simp only:)
  then show ?thesis unfolding body_block_def Let_def all w_def [symmetric] by simp
qed

section \<open>Blocks of a message\<close>

lemma rfc_blocks_short: "length p < 64 \<Longrightarrow> rfc_blocks q p = q"
  by (subst rfc_blocks.simps) simp

lemma rfc_blocks_step: "64 \<le> length p \<Longrightarrow> rfc_blocks q p = rfc_blocks (rfc_compress q (take 64 p)) (drop 64 p)"
  by (subst rfc_blocks.simps) simp

lemma rfc_blocks_one: "length p = 64 \<Longrightarrow> rfc_blocks q p = rfc_compress q p"
  by (simp add: rfc_blocks_step rfc_blocks_short)

lemma rfc_blocks_append: "length p = 64 * k \<Longrightarrow> rfc_blocks q (p @ r) = rfc_blocks (rfc_blocks q p) r"
proof (induction k arbitrary: p q)
  case (Suc k)
  have "rfc_blocks q (p @ r) = rfc_blocks (rfc_compress q (take 64 p)) (drop 64 p @ r)"
    using Suc.prems by (subst rfc_blocks_step) simp_all
  also have "\<dots> = rfc_blocks (rfc_blocks (rfc_compress q (take 64 p)) (drop 64 p)) r"
    using Suc.prems by (intro Suc.IH) simp
  also have "\<dots> = rfc_blocks (rfc_blocks q p) r"
    using Suc.prems by (subst (3) rfc_blocks_step) simp_all
  finally show ?case .
qed (simp add: rfc_blocks_short)

lemma body_loop_blocks:
  assumes "0 < k" "64 * k \<le> length p" "64 * k < 2 ^ 64"
  shows "\<exists>w. body_loop p (of_nat (64 * k)) v = Some (drop (64 * k) p, w)
           \<and> quad_of w = rfc_blocks (quad_of v) (take (64 * k) p)"
  using assms
proof (induction k arbitrary: p v)
  case (Suc k)
  have n: "of_nat (64 * Suc k) - (64 :: u64) = of_nat (64 * k)" by simp
  have z: "(of_nat (64 * k) = (0 :: u64)) \<longleftrightarrow> k = 0"
  proof -
    have "unat (of_nat (64 * k) :: u64) = 64 * k" using Suc.prems(3) by (intro unat_offset) simp
    then show ?thesis by (metis mult_eq_0_iff unat_eq_zero zero_neq_numeral)
  qed
  show ?case
  proof (cases "k = 0")
    case True
    then show ?thesis using Suc.prems body_block_compress [of p v]
      by (subst body_loop.simps) (simp add: rfc_blocks_one)
  next
    case False
    have "64 * k \<le> length (drop 64 p)" "64 * k < 2 ^ 64" using Suc.prems by simp_all
    with False obtain w where w: "body_loop (drop 64 p) (of_nat (64 * k)) (body_block p v) = Some (drop (64 * k) (drop 64 p), w)"
        "quad_of w = rfc_blocks (quad_of (body_block p v)) (take (64 * k) (drop 64 p))"
      using Suc.IH [of "drop 64 p" "body_block p v"] by blast
    have "rfc_blocks (quad_of v) (take (64 * Suc k) p) =
        rfc_blocks (rfc_compress (quad_of v) (take 64 p)) (take (64 * k) (drop 64 p))"
      using Suc.prems by (subst rfc_blocks_step) (simp_all add: min_def drop_take)
    with w(2) have "quad_of w = rfc_blocks (quad_of v) (take (64 * Suc k) p)"
      unfolding body_block_compress by (simp only:)
    moreover have "body_loop p (of_nat (64 * Suc k)) v = Some (drop (64 * Suc k) p, w)"
      using Suc.prems w(1) by (subst body_loop.simps) (simp only: n z False if_False drop_drop, simp add: add.commute)
    ultimately show ?thesis by blast
  qed
qed simp

definition ctx_quad :: "MD5_CTX \<Rightarrow> quad" where
  "ctx_quad x = (ctx_a x, ctx_b x, ctx_c x, ctx_d x)"

lemma ctx_quad_sel [simp]:
  "ctx_quad (x\<lparr>ctx_lo := l\<rparr>) = ctx_quad x" "ctx_quad (x\<lparr>ctx_hi := l\<rparr>) = ctx_quad x"
  "ctx_quad (x\<lparr>ctx_buffer := bs\<rparr>) = ctx_quad x"
  by (simp_all add: ctx_quad_def)

text \<open>What \<^verbatim>\<open>body\<close> leaves alone is everything but the four words.\<close>

definition same_stream :: "MD5_CTX \<Rightarrow> MD5_CTX \<Rightarrow> bool" where
  "same_stream x y \<longleftrightarrow> ctx_lo y = ctx_lo x \<and> ctx_hi y = ctx_hi x \<and> ctx_buffer y = ctx_buffer x"

lemma md5_body_blocks:
  assumes "0 < k" "64 * k \<le> length p" "64 * k < 2 ^ 64"
  obtains y where "md5_body x p (of_nat (64 * k)) = Some (drop (64 * k) p, y)"
    "ctx_quad y = rfc_blocks (ctx_quad x) (take (64 * k) p)" "same_stream x y"
proof -
  obtain w where w: "body_loop p (of_nat (64 * k)) (ctx_regs x) = Some (drop (64 * k) p, w)"
      "quad_of w = rfc_blocks (quad_of (ctx_regs x)) (take (64 * k) p)"
    using body_loop_blocks [OF assms, of "ctx_regs x"] by blast
  have q: "quad_of (ctx_regs x) = ctx_quad x" by (simp add: ctx_regs_def ctx_quad_def)
  let ?y = "x\<lparr>ctx_a := w RA, ctx_b := w RB, ctx_c := w RC, ctx_d := w RD\<rparr>"
  show ?thesis
  proof (rule that)
    show "md5_body x p (of_nat (64 * k)) = Some (drop (64 * k) p, ?y)"
      unfolding md5_body_def w(1) by simp
    show "ctx_quad ?y = rfc_blocks (ctx_quad x) (take (64 * k) p)"
      using w(2) unfolding q by (simp add: ctx_quad_def)
    show "same_stream x ?y" by (simp add: same_stream_def)
  qed
qed

lemma md5_body_one:
  assumes "length p = 64"
  obtains y where "md5_body x p 64 = Some ([], y)" "ctx_quad y = rfc_compress (ctx_quad x) p" "same_stream x y"
  using md5_body_blocks [of 1 p x] assms by (auto simp: rfc_blocks_one)

section \<open>The running digest\<close>

definition whole :: "u8 list \<Rightarrow> u8 list" where
  "whole p = take (64 * (length p div 64)) p"

definition partial :: "u8 list \<Rightarrow> u8 list" where
  "partial p = drop (64 * (length p div 64)) p"

text \<open>The context after the bytes \<open>msg\<close> of a message.\<close>

definition digesting :: "u8 list \<Rightarrow> MD5_CTX \<Rightarrow> bool" where
  "digesting msg x \<longleftrightarrow>
     length (ctx_buffer x) = 64 \<and> take (length (partial msg)) (ctx_buffer x) = partial msg
   \<and> ctx_quad x = rfc_blocks rfc_start (whole msg)
   \<and> unat (ctx_lo x) = length msg mod 2 ^ 29 \<and> unat (ctx_hi x) = length msg div 2 ^ 29 mod 2 ^ 32"

lemma length_partial: "length (partial p) = length p mod 64"
  by (simp add: partial_def minus_mult_div_eq_mod)

lemma whole_partial: "whole p @ partial p = p"
  by (simp add: whole_def partial_def)

lemma split_unique:
  assumes "p = u @ v" "length u = 64 * k" "length v < 64"
  shows "whole p = u" "partial p = v"
proof -
  have "length p div 64 = k" using assms by simp
  then show "whole p = u" "partial p = v" using assms by (simp_all add: whole_def partial_def)
qed

lemma md5_count_fields:
  "ctx_quad (md5_count n x) = ctx_quad x" "ctx_buffer (md5_count n x) = ctx_buffer x"
  by (simp_all add: md5_count_def Let_def ctx_quad_def)

lemma md5_count_carry:
  fixes l h n :: nat
  assumes "l = t mod 2 ^ 29"
  shows "(t + n) div 2 ^ 29 = t div 2 ^ 29 + n div 2 ^ 29 + (if (l + n) mod 2 ^ 29 < l then 1 else 0)"
proof -
  define a b where "a = t div 2 ^ 29" and "b = n div 2 ^ 29"
  define r where "r = n mod 2 ^ 29"
  have t: "t = a * 2 ^ 29 + l" and n: "n = b * 2 ^ 29 + r" and lr: "l < 2 ^ 29" "r < 2 ^ 29"
    using assms by (simp_all add: a_def b_def r_def)
  have "(l + n) mod 2 ^ 29 = (l + r) mod 2 ^ 29" unfolding n by (metis mod_mult_self3 add.commute add.assoc)
  moreover have "(t + n) div 2 ^ 29 = a + b + (l + r) div 2 ^ 29"
  proof -
    have "t + n = (a + b) * 2 ^ 29 + (l + r)" unfolding t n by (simp add: algebra_simps)
    then show ?thesis by simp
  qed
  moreover have "(l + r) div 2 ^ 29 = (if (l + r) mod 2 ^ 29 < l then 1 else 0)"
  proof (cases "l + r < 2 ^ 29")
    case False
    then have "(l + r) mod 2 ^ 29 = l + r - 2 ^ 29" "(l + r) div 2 ^ 29 = 1"
      using lr by (simp_all add: mod_if div_nat_eqI)
    then show ?thesis using lr by simp
  qed simp
  ultimately show ?thesis unfolding a_def b_def by simp
qed

lemma unat_ucast_down: "unat (ucast (w :: u64) :: u32) = unat w mod 2 ^ 32"
  by (simp add: unsigned_ucast_eq take_bit_eq_mod)

lemma unat_ucast_up: "unat (ucast (w :: u32) :: u64) = unat w"
proof -
  have "unat w < 2 ^ LENGTH(32)" by (rule unsigned_less)
  then show ?thesis by (simp add: unsigned_ucast_eq take_bit_eq_mod)
qed

lemma unat_mask: "unat (w AND mask n) = unat (w :: 'a :: len word) mod 2 ^ n"
  unfolding take_bit_eq_mask [symmetric] unsigned_take_bit_eq by (rule take_bit_eq_mod)

lemma mod_sum3: "((A mod M + c) mod M + B mod M) mod M = (A + B + c) mod (M :: nat)"
proof -
  have "((A mod M + c) mod M + B mod M) mod M = (A mod M + c + B) mod M" by (rule mod_add_eq)
  also have "\<dots> = (A mod M + (B + c)) mod M" by (simp only: ac_simps)
  also have "\<dots> = (A + (B + c)) mod M" by (rule mod_add_left_eq)
  finally show ?thesis by (simp only: ac_simps)
qed

lemma md5_count_ok:
  assumes n: "n < 2 ^ 64" and lo: "unat (ctx_lo x) = t mod 2 ^ 29"
    and hi: "unat (ctx_hi x) = t div 2 ^ 29 mod 2 ^ 32"
  shows "unat (ctx_lo (md5_count (of_nat n) x)) = (t + n) mod 2 ^ 29"
    and "unat (ctx_hi (md5_count (of_nat n) x)) = (t + n) div 2 ^ 29 mod 2 ^ 32"
proof -
  define l where "l = t mod 2 ^ 29"
  define new :: u32 where "new = ucast ((ucast (ctx_lo x) + of_nat n :: u64) AND 0x1fffffff)"
  have m: "(0x1fffffff :: u64) = mask 29" by (simp add: mask_eq_exp_minus_1)
  have new: "unat new = (l + n) mod 2 ^ 29"
  proof -
    have "unat (ucast (ctx_lo x) + of_nat n :: u64) = (l + n) mod 2 ^ 64"
      using n by (simp add: unat_word_ariths unat_ucast_up lo l_def)
    then have "unat ((ucast (ctx_lo x) + of_nat n :: u64) AND 0x1fffffff) = (l + n) mod 2 ^ 64 mod 2 ^ 29"
      unfolding m unat_mask by (rule arg_cong)
    moreover have "(l + n) mod 2 ^ 64 mod 2 ^ 29 = (l + n) mod 2 ^ 29" by (simp add: mod_mod_cancel)
    moreover have "(l + n) mod 2 ^ 29 mod 2 ^ 32 = (l + n) mod 2 ^ 29" by simp
    ultimately show ?thesis unfolding new_def unat_ucast_down by (simp only:)
  qed
  have lt: "new < ctx_lo x \<longleftrightarrow> (l + n) mod 2 ^ 29 < l"
    unfolding word_less_nat_alt new lo l_def by (rule refl)
  have "unat (ctx_lo (md5_count (of_nat n) x)) = (l + n) mod 2 ^ 29"
    using new by (simp add: md5_count_def Let_def new_def [symmetric])
  also have "\<dots> = (t + n) mod 2 ^ 29" unfolding l_def by (simp add: mod_add_left_eq)
  finally show "unat (ctx_lo (md5_count (of_nat n) x)) = (t + n) mod 2 ^ 29" .
  define carry :: nat where "carry = (if (l + n) mod 2 ^ 29 < l then 1 else 0)"
  have "ctx_hi (md5_count (of_nat n) x) = ctx_hi x + of_nat carry + ucast (drop_bit 29 (of_nat n :: u64))"
    unfolding md5_count_def Let_def new_def [symmetric] lt carry_def by simp
  moreover have "unat (ucast (drop_bit 29 (of_nat n :: u64)) :: u32) = n div 2 ^ 29 mod 2 ^ 32"
    unfolding unat_ucast_down unat_drop_bit_eq using n by (simp add: drop_bit_eq_div)
  moreover have "unat (of_nat carry :: u32) = carry" by (simp add: carry_def)
  ultimately have "unat (ctx_hi (md5_count (of_nat n) x)) =
      ((t div 2 ^ 29 mod 2 ^ 32 + carry) mod 2 ^ 32 + n div 2 ^ 29 mod 2 ^ 32) mod 2 ^ 32"
    by (simp only: unat_word_ariths hi word_size len_of_numeral_defs) simp
  also have "\<dots> = (t div 2 ^ 29 + n div 2 ^ 29 + carry) mod 2 ^ 32"
    by (rule mod_sum3)
  also have "\<dots> = (t + n) div 2 ^ 29 mod 2 ^ 32"
    using md5_count_carry [OF l_def] unfolding carry_def by (simp only:)
  finally show "unat (ctx_hi (md5_count (of_nat n) x)) = (t + n) div 2 ^ 29 mod 2 ^ 32" .
qed

text \<open>The counters and the buffer length are untouched while blocks are digested.\<close>

definition counts :: "MD5_CTX \<Rightarrow> u32 \<times> u32 \<times> nat" where
  "counts x = (ctx_lo x, ctx_hi x, length (ctx_buffer x))"

lemma same_stream_counts: "same_stream x y \<Longrightarrow> counts y = counts x"
  by (simp add: same_stream_def counts_def)

lemma to_buffer_ok:
  assumes "n \<le> length p" "i + n \<le> length (ctx_buffer x)"
  obtains y where "to_buffer i p n x = Some y" "ctx_quad y = ctx_quad x" "counts y = counts x"
    "ctx_buffer y = take i (ctx_buffer x) @ take n p @ drop (i + n) (ctx_buffer x)"
proof (rule that)
  show "to_buffer i p n x =
      Some (x\<lparr>ctx_buffer := take i (ctx_buffer x) @ take n p @ drop (i + n) (ctx_buffer x)\<rparr>)"
    using assms by (simp add: to_buffer_def)
qed (use assms in \<open>simp_all add: counts_def\<close>)

lemma md5_blocks_ok:
  assumes "length (ctx_buffer x) = 64" "length p < 2 ^ 64"
  obtains y where "md5_blocks p (of_nat (length p)) x = Some y"
    "ctx_quad y = rfc_blocks (ctx_quad x) (whole p)" "take (length p mod 64) (ctx_buffer y) = partial p"
    "counts y = counts x"
proof (cases "length p < 64")
  case True
  have c: "\<not> (64 \<le> (of_nat (length p) :: u64))" using assms(2) True by (simp add: word_le_nat_alt)
  have "0 + length p \<le> length (ctx_buffer x)" using assms(1) True by simp
  then obtain y where y: "to_buffer 0 p (length p) x = Some y" "ctx_quad y = ctx_quad x" "counts y = counts x"
      "ctx_buffer y = take 0 (ctx_buffer x) @ take (length p) p @ drop (0 + length p) (ctx_buffer x)"
    by (rule to_buffer_ok [OF order_refl])
  have "whole p = []" "partial p = p" using True by (simp_all add: whole_def partial_def)
  then show ?thesis using that [of y] y c assms(2) True by (simp add: md5_blocks_def rfc_blocks_short)
next
  case False
  define k where "k = length p div 64"
  have k: "0 < k" "64 * k \<le> length p" "64 * k < 2 ^ 64" using False assms(2) by (auto simp: k_def intro: order_le_less_trans)
  have c: "64 \<le> (of_nat (length p) :: u64)" using assms(2) False by (simp add: word_le_nat_alt)
  have m: "(0x3f :: u64) = mask 6" by (simp add: mask_eq_exp_minus_1)
  have lo: "unat ((of_nat (length p) :: u64) AND 0x3f) = length p mod 64"
    using assms(2) unfolding m unat_mask by simp
  have hi: "(of_nat (length p) :: u64) AND NOT 0x3f = of_nat (64 * k)"
  proof -
    have "unat ((of_nat (length p) :: u64) AND NOT 0x3f) = 64 * k"
      unfolding m unat_and_not_mask using assms(2) by (simp add: k_def minus_mod_eq_mult_div)
    then show ?thesis using k(3) by (simp only: word_unat_eq_iff unat_offset)
  qed
  obtain y where y: "md5_body x p (of_nat (64 * k)) = Some (drop (64 * k) p, y)"
      "ctx_quad y = rfc_blocks (ctx_quad x) (take (64 * k) p)" "same_stream x y"
    using md5_body_blocks [OF k, of x] by blast
  have len: "length (drop (64 * k) p) = length p mod 64" by (simp add: k_def minus_mult_div_eq_mod)
  have "0 + length p mod 64 \<le> length (ctx_buffer y)" using assms(1) y(3) by (simp add: same_stream_def)
  then obtain z where z: "to_buffer 0 (drop (64 * k) p) (length p mod 64) y = Some z" "ctx_quad z = ctx_quad y"
      "counts z = counts y"
      "ctx_buffer z = take 0 (ctx_buffer y) @ take (length p mod 64) (drop (64 * k) p) @ drop (0 + length p mod 64) (ctx_buffer y)"
    by (rule to_buffer_ok [OF eq_refl [OF len [symmetric]]])
  have buf: "take (length p mod 64) (ctx_buffer z) = drop (64 * k) p" using z(4) len by simp
  have "counts z = counts x" using z(3) same_stream_counts [OF y(3)] by simp
  moreover have "md5_blocks p (of_nat (length p)) x = Some z"
    unfolding md5_blocks_def hi lo using c y(1) z(1) by simp
  ultimately show ?thesis using that [of z] z(2) y(2) buf by (simp add: whole_def partial_def k_def)
qed

lemma digesting_start: "length (ctx_buffer x) = 64 \<Longrightarrow> digesting [] (MD5_Init x)"
  by (simp add: digesting_def MD5_Init_def partial_def whole_def rfc_blocks_short ctx_quad_def rfc_start_def)

text \<open>The number of buffered bytes is read off the low counter.\<close>

lemma buffered: "unat (lo :: u32) = n mod 2 ^ 29 \<Longrightarrow> unat (lo AND 0x3f) = n mod 64"
proof -
  assume a: "unat lo = n mod 2 ^ 29"
  have "(0x3f :: u32) = mask 6" by (simp add: mask_eq_exp_minus_1)
  then have "unat (lo AND 0x3f) = n mod 2 ^ 29 mod 2 ^ 6" by (simp only: unat_mask a)
  also have "\<dots> = n mod 64" using mod_mod_cancel [of "2 ^ 6" "2 ^ 29" n] by simp
  finally show ?thesis .
qed

text \<open>After the counters have been advanced for a piece \<open>p\<close>, but before its bytes are taken in.\<close>

definition counted :: "u8 list \<Rightarrow> u8 list \<Rightarrow> MD5_CTX \<Rightarrow> bool" where
  "counted msg p x \<longleftrightarrow>
     length (ctx_buffer x) = 64 \<and> unat (ctx_lo x) = length (msg @ p) mod 2 ^ 29
   \<and> unat (ctx_hi x) = length (msg @ p) div 2 ^ 29 mod 2 ^ 32"

lemma counted_counts: "counted msg p x \<Longrightarrow> counts y = counts x \<Longrightarrow> counted msg p y"
  by (simp add: counted_def counts_def)

lemma md5_count_counted:
  assumes "digesting msg x" "length p < 2 ^ 64"
  shows "counted msg p (md5_count (of_nat (length p)) x)"
  using assms md5_count_ok [OF assms(2), of x "length msg"]
  by (simp add: digesting_def counted_def md5_count_fields)

lemma digestingI:
  assumes "counted msg p x" "take (length v) (ctx_buffer x) = v" "ctx_quad x = rfc_blocks rfc_start u"
    "msg @ p = u @ v" "64 dvd length u" "length v < 64"
  shows "digesting (msg @ p) x"
proof -
  obtain k where "length u = 64 * k" using assms(5) by (rule dvdE)
  from split_unique [OF assms(4) this assms(6)] show ?thesis using assms(1-3) by (simp add: digesting_def counted_def)
qed

lemma length_whole: "length (whole p) = 64 * (length p div 64)"
  by (simp add: whole_def)

lemma length_partial_less: "length (partial p) < 64"
  by (simp add: length_partial)

text \<open>The last step of every path: whole blocks \<open>u\<close> are digested, and the rest \<open>q\<close> of the piece follows.\<close>

lemma digest_rest:
  assumes c: "counted msg p x" and u: "ctx_quad x = rfc_blocks rfc_start u" "64 dvd length u"
    and q: "msg @ p = u @ q" "length q < 2 ^ 64"
  shows "\<exists>y. md5_blocks q (of_nat (length q)) x = Some y \<and> digesting (msg @ p) y"
proof -
  have "length (ctx_buffer x) = 64" using c by (simp add: counted_def)
  then obtain y where y: "md5_blocks q (of_nat (length q)) x = Some y" "ctx_quad y = rfc_blocks (ctx_quad x) (whole q)"
      "take (length q mod 64) (ctx_buffer y) = partial q" "counts y = counts x"
    by (rule md5_blocks_ok [OF _ q(2)])
  obtain k where k: "length u = 64 * k" using u(2) by (rule dvdE)
  have "digesting (msg @ p) y"
  proof (rule digestingI [where u = "u @ whole q" and v = "partial q"])
    show "counted msg p y" by (rule counted_counts [OF c y(4)])
    show "ctx_quad y = rfc_blocks rfc_start (u @ whole q)" using y(2) u(1) rfc_blocks_append [OF k] by simp
  qed (use y(3) q(1) u(2) in \<open>simp_all add: length_partial length_partial_less whole_partial length_whole\<close>)
  with y(1) show ?thesis by blast
qed

lemma update_aligned:
  assumes "counted msg p x" "ctx_quad x = rfc_blocks rfc_start (whole msg)" "length msg mod 64 = 0" "length p < 2 ^ 64"
  shows "\<exists>y. md5_blocks p (of_nat (length p)) x = Some y \<and> digesting (msg @ p) y"
proof -
  have "partial msg = []" using length_partial [of msg] assms(3) by simp
  then have "whole msg = msg" using whole_partial [of msg] by simp
  with assms show ?thesis by (intro digest_rest) auto
qed

lemma update_short:
  assumes c: "counted msg p x" "ctx_quad x = rfc_blocks rfc_start (whole msg)"
    "take (length msg mod 64) (ctx_buffer x) = partial msg" and short: "length msg mod 64 + length p < 64"
  shows "\<exists>y. to_buffer (length msg mod 64) p (length p) x = Some y \<and> digesting (msg @ p) y"
proof -
  have "length msg mod 64 + length p \<le> length (ctx_buffer x)" using short c(1) by (simp add: counted_def)
  then obtain y where y: "to_buffer (length msg mod 64) p (length p) x = Some y" "ctx_quad y = ctx_quad x"
      "counts y = counts x" "ctx_buffer y = take (length msg mod 64) (ctx_buffer x) @ take (length p) p
         @ drop (length msg mod 64 + length p) (ctx_buffer x)"
    by (rule to_buffer_ok [OF order_refl])
  have "digesting (msg @ p) y"
  proof (rule digestingI [where u = "whole msg" and v = "partial msg @ p"])
    show "counted msg p y" by (rule counted_counts [OF c(1) y(3)])
    show "take (length (partial msg @ p)) (ctx_buffer y) = partial msg @ p"
      using y(4) by (simp add: c(3) length_partial)
    show "msg @ p = whole msg @ partial msg @ p" using whole_partial [of msg] by (simp flip: append_assoc)
  qed (use y(2) c(2) short in \<open>simp_all add: length_partial length_whole\<close>)
  with y(1) show ?thesis by blast
qed

lemma update_fill:
  assumes c: "counted msg p x" "ctx_quad x = rfc_blocks rfc_start (whole msg)"
    "take (length msg mod 64) (ctx_buffer x) = partial msg" and p: "length p < 2 ^ 64"
    and av: "length msg mod 64 + av = 64" "av \<le> length p"
  shows "\<exists>b y z. to_buffer (length msg mod 64) p av x = Some b \<and> md5_body b (ctx_buffer b) 64 = Some ([], y)
           \<and> md5_blocks (drop av p) (of_nat (length p) - of_nat av) y = Some z \<and> digesting (msg @ p) z"
proof -
  define blk where "blk = partial msg @ take av p"
  have "length msg mod 64 + av \<le> length (ctx_buffer x)" using av c(1) by (simp add: counted_def)
  then obtain b where b: "to_buffer (length msg mod 64) p av x = Some b" "ctx_quad b = ctx_quad x" "counts b = counts x"
      "ctx_buffer b = take (length msg mod 64) (ctx_buffer x) @ take av p @ drop (length msg mod 64 + av) (ctx_buffer x)"
    by (rule to_buffer_ok [OF av(2)])
  have cb: "counted msg p b" by (rule counted_counts [OF c(1) b(3)])
  have bb: "ctx_buffer b = blk" using b(4) c(1) av(1) by (simp add: c(3) blk_def counted_def)
  have lb: "length blk = 64" using cb bb by (simp add: counted_def)
  obtain y where y: "md5_body b blk 64 = Some ([], y)" "ctx_quad y = rfc_compress (ctx_quad b) blk" "same_stream b y"
    by (rule md5_body_one [OF lb])
  have "ctx_quad y = rfc_blocks rfc_start (whole msg @ blk)"
    using y(2) b(2) c(2) lb by (simp add: rfc_blocks_append [OF length_whole] rfc_blocks_one)
  moreover have "counted msg p y" by (rule counted_counts [OF cb same_stream_counts [OF y(3)]])
  moreover have "msg @ p = (whole msg @ blk) @ drop av p"
    using whole_partial [of msg] by (metis blk_def append_assoc append_take_drop_id)
  ultimately have "\<exists>z. md5_blocks (drop av p) (of_nat (length (drop av p))) y = Some z \<and> digesting (msg @ p) z"
    using p lb by (intro digest_rest) (simp_all add: length_whole)
  moreover have "of_nat (length p) - of_nat av = (of_nat (length (drop av p)) :: u64)" using av(2) by simp
  ultimately show ?thesis using b(1) y(1) bb by metis
qed

lemma MD5_Update_ok:
  assumes d: "digesting msg x" and p: "length p < 2 ^ 64"
  shows "\<exists>y. MD5_Update p (of_nat (length p)) x = Some y \<and> digesting (msg @ p) y"
proof -
  define used where "used = length msg mod 64"
  define c where "c = md5_count (of_nat (length p)) x"
  have used: "unat (ctx_lo x AND 0x3f) = used" using buffered d by (simp add: digesting_def used_def)
  have un: "unat (of_nat (length p) :: u64) = length p" using p by simp
  have c: "counted msg p c" "ctx_quad c = rfc_blocks rfc_start (whole msg)" "take used (ctx_buffer c) = partial msg"
    using md5_count_counted [OF d p] d by (simp_all add: c_def digesting_def md5_count_fields used_def length_partial)
  consider "used = 0" | "used \<noteq> 0" "used + length p < 64" | "used \<noteq> 0" "64 - used \<le> length p" by linarith
  then show ?thesis
  proof cases
    case 1
    then show ?thesis using update_aligned [OF c(1,2) _ p] 
      unfolding MD5_Update_def Let_def used c_def [symmetric] by (simp add: used_def)
  next
    case 2
    then have "length p < 64 - used" by linarith
    then show ?thesis using 2 update_short [OF c(1,2)] c(3)
      unfolding MD5_Update_def Let_def used un c_def [symmetric] by (simp add: used_def)
  next
    case 3
    have "used < 64" by (simp add: used_def)
    then obtain b y z where "to_buffer used p (64 - used) c = Some b" "md5_body b (ctx_buffer b) 64 = Some ([], y)"
        "md5_blocks (drop (64 - used) p) (of_nat (length p) - of_nat (64 - used)) y = Some z" "digesting (msg @ p) z"
      using update_fill [OF c(1,2) _ p, of "64 - used"] c(3) 3(2) unfolding used_def by auto
    then show ?thesis using 3 unfolding MD5_Update_def Let_def used un c_def [symmetric] by simp
  qed
qed

lemma OUT_le: "OUT v = to_le 4 v"
  by (simp add: OUT_def to_le_def upt_rec_numeral upt_rec [of 0] upt_rec [of "Suc 0"] numeral_2_eq_2 [symmetric] numeral_3_eq_3 [symmetric])

text \<open>The two counters, shifted, are the bit length of the message.\<close>

lemma bit_length:
  fixes lo hi :: u32
  assumes "unat lo = n mod 2 ^ 29" "unat hi = n div 2 ^ 29 mod 2 ^ 32"
  shows "to_le 4 (push_bit 3 lo) @ to_le 4 hi = to_le 8 (of_nat (8 * n) :: u64)"
proof -
  have l: "push_bit 3 lo = of_nat (8 * n)"
  proof -
    have "unat (push_bit 3 lo) = unat (lo * 8)" by (simp add: push_bit_eq_mult)
    also have "\<dots> = (n mod 2 ^ 29) * 8 mod 2 ^ 32" by (simp only: unat_word_ariths assms(1)) simp
    also have "\<dots> = 8 * n mod 2 ^ 32" using mult_mod_right [of 8 n "2 ^ 29"] by simp
    finally show ?thesis by (simp only: word_unat_eq_iff unat_of_nat len_of_numeral_defs) simp
  qed
  have h: "hi = of_nat (drop_bit 32 (8 * n))"
  proof -
    have "drop_bit 32 (8 * n) = n div 2 ^ 29" by (simp add: drop_bit_eq_div div_mult2_eq [of "8 * n" 8, simplified])
    then show ?thesis unfolding word_unat_eq_iff unat_of_nat using assms(2) by simp
  qed
  have lo: "bit (push_bit 3 lo) k \<longleftrightarrow> bit (8 * n) k" if "k < 32" for k
    unfolding l using that by (simp only: bit_of_nat_iff) simp
  have hi: "bit hi k \<longleftrightarrow> bit (8 * n) (32 + k)" if "k < 32" for k
    unfolding h using that by (simp only: bit_of_nat_iff bit_drop_bit_eq o_apply) simp
  have w: "bit (of_nat (8 * n) :: u64) k \<longleftrightarrow> bit (8 * n) k" if "k < 64" for k
    using that by (simp only: bit_of_nat_iff) simp
  show ?thesis
  proof (rule nth_equalityI)
    fix i assume "i < length (to_le 4 (push_bit 3 lo) @ to_le 4 hi)"
    then have i: "i < 8" by simp
    show "(to_le 4 (push_bit 3 lo) @ to_le 4 hi) ! i = to_le 8 (of_nat (8 * n) :: u64) ! i"
    proof (rule bit_word_eqI)
      fix k assume k: "k < LENGTH(8)"
      show "bit ((to_le 4 (push_bit 3 lo) @ to_le 4 hi) ! i) k \<longleftrightarrow> bit (to_le 8 (of_nat (8 * n) :: u64) ! i) k"
      proof (cases "i < 4")
        case True
        then show ?thesis using i k lo [of "8 * i + k"] w [of "8 * i + k"]
          by (simp add: nth_append to_le_def bit_ucast_iff bit_drop_bit_eq del: of_nat_mult push_bit_numeral)
      next
        case False
        then have "32 + (8 * (i - 4) + k) = 8 * i + k" by simp
        moreover have "8 * (i - 4) + k < 32" using i k by simp
        ultimately have "bit hi (8 * (i - 4) + k) \<longleftrightarrow> bit (8 * n) (8 * i + k)" using hi by metis
        moreover have "i - 4 < 4" using i by simp
        ultimately show ?thesis using False i k w [of "8 * i + k"]
          by (simp add: nth_append to_le_def bit_ucast_iff bit_drop_bit_eq del: of_nat_mult)
      qed
    qed
  qed simp
qed


text \<open>The two shapes of the padding: in the last block, or with a block of its own.\<close>

lemma pad_split:
  assumes "r = length p mod 64" "bits = to_le 8 (of_nat (8 * length p) :: u64)"
  shows "r < 56 \<Longrightarrow> rfc_pad p = whole p @ (partial p @ [0x80] @ replicate (55 - r) 0 @ bits)"
    and "56 \<le> r \<Longrightarrow> rfc_pad p = whole p @ (partial p @ [0x80] @ replicate (63 - r) 0) @ (replicate 56 0 @ bits)"
proof -
  have p: "rfc_pad p = whole p @ partial p @ [0x80] @ replicate ((119 - r) mod 64) 0 @ bits"
    unfolding rfc_pad_def assms by (simp add: whole_partial flip: append_assoc)
  { assume "r < 56"
    then have "(119 - r) mod 64 = 55 - r" by (simp add: mod_if)
    then show "rfc_pad p = whole p @ (partial p @ [0x80] @ replicate (55 - r) 0 @ bits)" using p by simp }
  { assume "56 \<le> r"
    moreover have "r < 64" using assms(1) by simp
    ultimately have "(119 - r) mod 64 = (63 - r) + 56" by simp
    then have "replicate ((119 - r) mod 64) (0 :: u8) = replicate (63 - r) 0 @ replicate 56 0"
      by (simp only: replicate_add)
    then show "rfc_pad p = whole p @ (partial p @ [0x80] @ replicate (63 - r) 0) @ (replicate 56 0 @ bits)"
      using p by simp }
qed

fun quad_bytes :: "quad \<Rightarrow> u8 list" where
  "quad_bytes (a, b, c, d) = to_le 4 a @ to_le 4 b @ to_le 4 c @ to_le 4 d"

lemma md5_finish_ok:
  assumes "length (ctx_buffer x) = 64" "take used (ctx_buffer x) = u" "length u = used" "used + available = 64" "8 \<le> available"
    and n: "unat (ctx_lo x) = n mod 2 ^ 29" "unat (ctx_hi x) = n div 2 ^ 29 mod 2 ^ 32"
  shows "md5_finish used available x = Some (quad_bytes (rfc_compress (ctx_quad x)
           (u @ replicate (available - 8) 0 @ to_le 8 (of_nat (8 * n) :: u64))), zero_ctx)"
proof -
  define zs :: "u8 list" where "zs = replicate (available - 8) 0"
  have 1: "available - 8 \<le> length zs" "used + (available - 8) \<le> length (ctx_buffer x)" using assms by (simp_all add: zs_def)
  obtain y where y: "to_buffer used zs (available - 8) x = Some y" "ctx_quad y = ctx_quad x" "counts y = counts x"
      "ctx_buffer y = take used (ctx_buffer x) @ take (available - 8) zs @ drop (used + (available - 8)) (ctx_buffer x)"
    by (rule to_buffer_ok [OF 1])
  let ?y = "y\<lparr>ctx_lo := push_bit 3 (ctx_lo y)\<rparr>"
  have yb: "take 56 (ctx_buffer ?y) = u @ zs" "length (ctx_buffer ?y) = 64"
    using y(3,4) assms by (simp_all add: zs_def counts_def)
  have 2: "4 \<le> length (OUT (ctx_lo ?y))" "56 + 4 \<le> length (ctx_buffer ?y)" using yb(2) by (simp_all add: OUT_le)
  obtain z where z: "to_buffer 56 (OUT (ctx_lo ?y)) 4 ?y = Some z" "ctx_quad z = ctx_quad ?y" "counts z = counts ?y"
      "ctx_buffer z = take 56 (ctx_buffer ?y) @ take 4 (OUT (ctx_lo ?y)) @ drop (56 + 4) (ctx_buffer ?y)"
    by (rule to_buffer_ok [OF 2])
  have lz: "length (ctx_buffer z) = 64" using z(3) yb(2) by (simp add: counts_def)
  have bz: "take 60 (ctx_buffer z) = u @ zs @ OUT (ctx_lo ?y)"
    using z(4) assms(3-5) unfolding yb(1) by (simp add: OUT_le zs_def)
  have 3: "4 \<le> length (OUT (ctx_hi z))" "60 + 4 \<le> length (ctx_buffer z)" using lz by (simp_all add: OUT_le)
  obtain v where v: "to_buffer 60 (OUT (ctx_hi z)) 4 z = Some v" "ctx_quad v = ctx_quad z" "counts v = counts z"
      "ctx_buffer v = take 60 (ctx_buffer z) @ take 4 (OUT (ctx_hi z)) @ drop (60 + 4) (ctx_buffer z)"
    by (rule to_buffer_ok [OF 3])
  have bv: "ctx_buffer v = u @ zs @ to_le 8 (of_nat (8 * n) :: u64)"
  proof -
    have "ctx_buffer v = u @ zs @ OUT (ctx_lo ?y) @ OUT (ctx_hi z)" using v(4) lz unfolding bz by (simp add: OUT_le)
    moreover have "ctx_lo ?y = push_bit 3 (ctx_lo x)" "ctx_hi z = ctx_hi x" using y(3) z(3) by (simp_all add: counts_def)
    ultimately show ?thesis unfolding OUT_le using bit_length [OF n] by simp
  qed
  have lv: "length (ctx_buffer v) = 64" using lz v(3) by (simp add: counts_def)
  obtain w where w: "md5_body v (ctx_buffer v) 64 = Some ([], w)" "ctx_quad w = rfc_compress (ctx_quad v) (ctx_buffer v)"
    by (rule md5_body_one [OF lv])
  have "md5_finish used available x = Some (quad_bytes (ctx_quad w), zero_ctx)"
    unfolding md5_finish_def zs_def [symmetric] y(1) bind.bind_lunit Let_def z(1) v(1) w(1)
    by (simp add: ctx_quad_def OUT_le)
  then show ?thesis using w(2) v(2) z(2) y(2) bv by (simp add: zs_def)
qed

lemma MD5_Final_ok:
  assumes d: "digesting msg x"
  shows "MD5_Final x = Some (rfc_md5 msg, zero_ctx)"
proof -
  define used where "used = length msg mod 64"
  define bits where "bits = to_le 8 (of_nat (8 * length msg) :: u64)"
  note d = d [unfolded digesting_def]
  have lo: "unat (ctx_lo x) = length msg mod 2 ^ 29" and hi: "unat (ctx_hi x) = length msg div 2 ^ 29 mod 2 ^ 32"
    using d by simp_all
  have used: "unat (ctx_lo x AND 0x3f) = used" using buffered [OF lo] by (simp add: used_def)
  have lenp: "length (partial msg) = used" by (simp add: length_partial used_def)
  have u64: "used < 64" by (simp add: used_def)
  have 1: "1 \<le> length [0x80 :: u8]" "used + 1 \<le> length (ctx_buffer x)" using d u64 by simp_all
  obtain y where y: "to_buffer used [0x80] 1 x = Some y" "ctx_quad y = ctx_quad x" "counts y = counts x"
      "ctx_buffer y = take used (ctx_buffer x) @ take 1 [0x80] @ drop (used + 1) (ctx_buffer x)"
    by (rule to_buffer_ok [OF 1])
  have ty: "take (used + 1) (ctx_buffer y) = partial msg @ [0x80]" using y(4) d lenp by simp
  have ly: "length (ctx_buffer y) = 64" using y(3) d by (simp add: counts_def)
  have qy: "ctx_quad y = rfc_blocks rfc_start (whole msg)" using y(2) d by simp
  have cy: "unat (ctx_lo y) = length msg mod 2 ^ 29" "unat (ctx_hi y) = length msg div 2 ^ 29 mod 2 ^ 32"
    using y(3) lo hi by (simp_all add: counts_def)
  have lb: "length bits = 8" by (simp add: bits_def)
  have md5: "rfc_md5 msg = quad_bytes (rfc_blocks rfc_start (rfc_pad msg))"
    by (cases "rfc_blocks rfc_start (rfc_pad msg)") (simp add: rfc_md5_def)
  show ?thesis
  proof (cases "used < 56")
    case True
    define b where "b = partial msg @ [0x80] @ replicate (55 - used) 0 @ bits"
    have "rfc_blocks rfc_start (rfc_pad msg) = rfc_blocks (rfc_blocks rfc_start (whole msg)) b"
      unfolding pad_split(1) [OF used_def bits_def True] b_def by (rule rfc_blocks_append [OF length_whole])
    also have "\<dots> = rfc_compress (ctx_quad y) b"
      using True lenp lb qy by (simp add: b_def rfc_blocks_one)
    finally have q: "rfc_md5 msg = quad_bytes (rfc_compress (ctx_quad y) b)" unfolding md5 by (rule arg_cong)
    have "md5_finish (used + 1) (63 - used) y = Some (quad_bytes (rfc_compress (ctx_quad y)
        ((partial msg @ [0x80]) @ replicate (63 - used - 8) 0 @ bits)), zero_ctx)"
      unfolding bits_def using True lenp by (intro md5_finish_ok ly ty cy) simp_all
    moreover have "\<not> 64 - (used + 1) < 8" using True by simp
    ultimately show ?thesis using y(1) True unfolding MD5_Final_def Let_def used q b_def by simp
  next
    case False
    define b c where "b = partial msg @ [0x80] @ replicate (63 - used) 0" and "c = replicate 56 0 @ bits"
    have lbb: "length b = 64" using u64 lenp by (simp add: b_def)
    have "rfc_blocks rfc_start (rfc_pad msg) = rfc_blocks (rfc_blocks rfc_start (whole msg)) (b @ c)"
      unfolding pad_split(2) [OF used_def bits_def False [unfolded not_less]] b_def c_def append_assoc
      by (rule rfc_blocks_append [OF length_whole])
    also have "\<dots> = rfc_compress (rfc_compress (ctx_quad y) b) c"
      using lbb lb qy by (simp add: rfc_blocks_append [where k = 1] rfc_blocks_one c_def)
    finally have q: "rfc_md5 msg = quad_bytes (rfc_compress (rfc_compress (ctx_quad y) b) c)" unfolding md5 by (rule arg_cong)
    have 2: "63 - used \<le> length (replicate (63 - used) (0 :: u8))" "used + 1 + (63 - used) \<le> length (ctx_buffer y)"
      using ly u64 by simp_all
    obtain z where z: "to_buffer (used + 1) (replicate (63 - used) 0) (63 - used) y = Some z" "ctx_quad z = ctx_quad y"
        "counts z = counts y"
        "ctx_buffer z = take (used + 1) (ctx_buffer y) @ take (63 - used) (replicate (63 - used) 0)
           @ drop (used + 1 + (63 - used)) (ctx_buffer y)"
      by (rule to_buffer_ok [OF 2])
    have bz: "ctx_buffer z = b" using z(4) u64 ly unfolding ty b_def by simp
    obtain w where w: "md5_body z (ctx_buffer z) 64 = Some ([], w)" "ctx_quad w = rfc_compress (ctx_quad z) (ctx_buffer z)"
        "same_stream z w"
      using md5_body_one [of "ctx_buffer z" z] lbb bz by metis
    have cw: "counts w = counts y" using same_stream_counts [OF w(3)] z(3) by simp
    have "md5_finish 0 64 w = Some (quad_bytes (rfc_compress (ctx_quad w) ([] @ replicate (64 - 8) 0 @ bits)), zero_ctx)"
      unfolding bits_def using cw ly cy by (intro md5_finish_ok) (simp_all add: counts_def)
    moreover have "64 - (used + 1) < 8" using False by simp
    ultimately show ?thesis using y(1) z(1,2) w(1,2) unfolding MD5_Final_def Let_def used q c_def
      by (simp add: bz)
  qed
qed

lemma MD5_Updates_ok:
  assumes "digesting msg x" "\<forall>p \<in> set ps. length p < 2 ^ 64"
  shows "\<exists>y. MD5_Updates ps x = Some y \<and> digesting (msg @ concat ps) y"
  using assms
proof (induction ps arbitrary: msg x)
  case (Cons p ps)
  have "length p < 2 ^ 64" using Cons.prems(2) by simp
  then obtain y where "MD5_Update p (of_nat (length p)) x = Some y" "digesting (msg @ p) y"
    using MD5_Update_ok [OF Cons.prems(1)] by blast
  then show ?case using Cons.IH [of "msg @ p" y] Cons.prems(2) by simp
qed simp

section \<open>Properties\<close>

text \<open>
  C5: however a message is cut into pieces shorter than $2^{64}$ bytes, and whatever the context and
  its buffer held before, MD5_Init, one MD5_Update per piece and MD5_Final return, and they compute the
  digest RFC 1321 defines for the whole message: the unrolled steps with the shortened boolean
  functions, the buffering of partial blocks, the two counters with their carry and both shapes of
  the padding included.
\<close>

theorem md5_streaming:
  assumes "length (ctx_buffer x) = 64" "\<forall>p \<in> set ps. length p < 2 ^ 64"
  shows "MD5_Digest ps x = Some (rfc_md5 (concat ps))"
proof -
  obtain y where "MD5_Updates ps (MD5_Init x) = Some y" "digesting (concat ps) y"
    using MD5_Updates_ok [OF digesting_start [OF assms(1)] assms(2)] by auto
  then show ?thesis using MD5_Final_ok [of "concat ps" y] by (simp add: MD5_Digest_def)
qed

theorem md5_streaming_witness:
  "MD5_Digest [[0x61], [], [0x62, 0x63]] zero_ctx = Some (rfc_md5 [0x61, 0x62, 0x63])
   \<and> rfc_md5 [0x61, 0x62, 0x63] =
       [0x90, 0x01, 0x50, 0x98, 0x3c, 0xd2, 0x4f, 0xb0, 0xd6, 0x96, 0x3f, 0x7d, 0x28, 0xe1, 0x7f, 0x72]"
proof
  show "MD5_Digest [[0x61], [], [0x62, 0x63]] zero_ctx = Some (rfc_md5 [0x61, 0x62, 0x63])"
    using md5_streaming [of zero_ctx "[[0x61], [], [0x62, 0x63]]"] by (simp add: zero_ctx_def)
  show "rfc_md5 [0x61, 0x62, 0x63] =
       [0x90, 0x01, 0x50, 0x98, 0x3c, 0xd2, 0x4f, 0xb0, 0xd6, 0x96, 0x3f, 0x7d, 0x28, 0xe1, 0x7f, 0x72]"
    by code_simp
qed

end
