(* ===== verification/Heap_Window.thy ===== *)
theory Heap_Window
  imports Slab
begin

text \<open>
  The window of addresses the kernel heap lives in: every page of it is mapped to a frame of its
  own, loads and stores in it go to those frames, and \<^verbatim>\<open>heap_extend\<close> adds zeroed pages at its end
  without touching what is there.
\<close>

section \<open>The heap window\<close>

text \<open>
  The heap is the window of addresses from \<open>HEAP\<close> up to the current top. Every page of it is
  mapped to a frame of its own that neither the page allocator nor the page tables use; the rest
  of the zone the window may grow into is unmapped.
\<close>

abbreviation HEAP :: u64 where
  "HEAP \<equiv> 0xffff900000000000"

abbreviation zone :: nat where
  "zone \<equiv> 0x400000000000"

definition in_heap :: "'a slab_machine_scheme \<Rightarrow> u64 \<Rightarrow> bool" where
  "in_heap m w \<longleftrightarrow> unat (w - HEAP) < unat (heap_virtual_top m - HEAP)"

definition loc :: "'a slab_machine_scheme \<Rightarrow> u64 \<Rightarrow> u64" where
  "loc m w = PHYS_TO_VIRT m (vmm_virt_to_phys m (kernel_pml4 m) w)"

definition owned :: "'a machine_scheme \<Rightarrow> (ptr \<rightharpoonup> nat) \<Rightarrow> u64 \<Rightarrow> bool" where
  "owned m L b \<longleftrightarrow> (\<forall>x. in_block b 4096 x \<longrightarrow> \<not> free_byte m x \<and> (\<forall>t. L t \<noteq> None \<longrightarrow> \<not> in_block t 4096 x))"

definition heap_mapped :: "'a slab_machine_scheme \<Rightarrow> (ptr \<rightharpoonup> nat) \<Rightarrow> bool" where
  "heap_mapped m L \<longleftrightarrow> tables m (kernel_pml4 m) L \<and> page_aligned (heap_virtual_top m)
   \<and> unat (heap_virtual_top m - HEAP) \<le> zone
   \<and> (\<forall>w. in_heap m w \<longrightarrow>
        (\<exists>e. walk m 4 (kernel_pml4 m) w = Some (1, e) \<and> page_base e \<noteq> 0 \<and> owned m L (page_base e + hhdm_offset m)))
   \<and> (\<forall>w w'. in_heap m w \<and> in_heap m w' \<and> loc m w = loc m w' \<longrightarrow> w = w')
   \<and> (\<forall>w. \<not> in_heap m w \<and> unat (w - HEAP) < zone \<longrightarrow> walk m 4 (kernel_pml4 m) w = None)"

lemma heap_mappedD:
  assumes "heap_mapped m L"
  shows "tables m (kernel_pml4 m) L" "page_aligned (heap_virtual_top m)" "unat (heap_virtual_top m - HEAP) \<le> zone"
    and "in_heap m w \<Longrightarrow> \<exists>e. walk m 4 (kernel_pml4 m) w = Some (1, e) \<and> page_base e \<noteq> 0 \<and> owned m L (page_base e + hhdm_offset m)"
    and "in_heap m w \<Longrightarrow> in_heap m w' \<Longrightarrow> loc m w = loc m w' \<Longrightarrow> w = w'"
    and "\<not> in_heap m w \<Longrightarrow> unat (w - HEAP) < zone \<Longrightarrow> walk m 4 (kernel_pml4 m) w = None"
  using assms unfolding heap_mapped_def by blast+

text \<open>The contents of the window.\<close>

definition hmem :: "'a slab_machine_scheme \<Rightarrow> mem" where
  "hmem m w = (if in_heap m w then pmem m (loc m w) else 0)"

subsection \<open>Pages of the window\<close>

lemma page_aligned_HEAP: "page_aligned HEAP"
  by (simp add: page_off_source)

lemma unat_div_page: "page_base w = page_base v \<longleftrightarrow> unat w div 4096 = unat v div 4096"
  by (auto simp: word_unat_eq_iff unat_page_base)

lemma heap_offset_page:
  assumes "unat (w - HEAP) < zone"
  shows "unat w = 0xffff900000000000 + unat (w - HEAP)"
proof -
  have "w = HEAP + of_nat (unat (w - HEAP))" by simp
  moreover have "unat (HEAP :: u64) + unat (w - HEAP) < 2 ^ 64" using assms by simp
  ultimately have "unat w = unat (HEAP :: u64) + unat (w - HEAP)" by (metis unat_add_no_wrap)
  then show ?thesis by simp
qed

lemma vpn_heap:
  assumes "unat (w - HEAP) < zone" "unat (v - HEAP) < zone"
  shows "vpn 1 w = vpn 1 v \<longleftrightarrow> page_base w = page_base v"
proof -
  define a b where "a = unat w div 4096" and "b = unat v div 4096"
  have u: "unat w = 0xffff900000000000 + unat (w - HEAP)" "unat v = 0xffff900000000000 + unat (v - HEAP)"
    using assms by (simp_all add: heap_offset_page)
  have "unat w div 4096 = 0xffff900000000 + unat (w - HEAP) div 4096" "unat v div 4096 = 0xffff900000000 + unat (v - HEAP) div 4096"
    unfolding u by simp_all
  then have ab: "0xffff900000000 \<le> a" "a < 0xffff900000000 + 2 ^ 34" "0xffff900000000 \<le> b" "b < 0xffff900000000 + 2 ^ 34"
    using assms by (simp_all add: a_def b_def less_mult_imp_div_less)
  have "vpn 1 w = vpn 1 v \<longleftrightarrow> a mod 2 ^ 36 = b mod 2 ^ 36" unfolding word_unat_eq_iff unat_vpn a_def b_def by simp
  also have "\<dots> \<longleftrightarrow> a = b"
  proof
    assume eq: "a mod 2 ^ 36 = b mod 2 ^ 36"
    have "a div 2 ^ 36 = 0xffff900000000 div 2 ^ 36" "b div 2 ^ 36 = 0xffff900000000 div 2 ^ 36"
      using ab by (simp_all add: div_nat_eqI)
    then show "a = b" using eq by (metis div_mult_mod_eq)
  qed simp
  finally show ?thesis unfolding unat_div_page a_def b_def .
qed

lemma walk_same_vpn:
  assumes "vpn 1 w = vpn 1 v"
  shows "k \<le> 4 \<Longrightarrow> walk m k t w = walk m k t v"
proof (induction k arbitrary: t)
  case (Suc k)
  have "idx (Suc k) w = idx (Suc k) v" using vpn_iff [of 1 w v] assms Suc.prems by simp
  then show ?case using Suc by simp
qed simp

lemma in_heap_zone: "heap_mapped m L \<Longrightarrow> in_heap m w \<Longrightarrow> unat (w - HEAP) < zone"
  using heap_mappedD(3) unfolding in_heap_def by (meson less_le_trans)

lemma page_off_less: "unat (page_off w) < 4096"
  by (simp add: unat_page_off)

lemma page_plus:
  assumes "unat (page_off w) + i < 4096"
  shows "page_base (w + of_nat i) = page_base w" "page_off (w + of_nat i) = page_off w + of_nat i"
    "unat (page_off (w + of_nat i)) = unat (page_off w) + i"
proof -
  have "w + of_nat i = page_base w + of_nat (unat (page_off w) + i)" using page_split [of w] by (simp add: add.assoc [symmetric])
  then have "in_block (page_base w) 4096 (w + of_nat i)"
    using in_block_offset [OF assms, of "page_base w"] by (simp del: of_nat_add)
  then show b: "page_base (w + of_nat i) = page_base w" by (simp add: in_page_iff)
  have po: "page_off x = x - page_base x" for x using page_split [of x] by (metis add_diff_cancel_left')
  show off: "page_off (w + of_nat i) = page_off w + of_nat i"
    unfolding po [of "w + of_nat i"] b po [of w] by (rule diff_add_eq [symmetric])
  show "unat (page_off (w + of_nat i)) = unat (page_off w) + i"
    unfolding off by (rule unat_add_no_wrap) (use assms in simp)
qed

lemma in_heap_page:
  assumes "page_aligned (heap_virtual_top m)" "page_base w = page_base v" "in_heap m v"
  shows "in_heap m w"
proof -
  have a: "page_aligned (heap_virtual_top m - HEAP)" using page_aligned_minus [OF assms(1) page_aligned_HEAP] .
  have "page_base (w - HEAP) = page_base (v - HEAP)"
  proof -
    have "page_base (x - HEAP) = page_base x - HEAP" for x :: u64
    proof -
      have "(page_base x - HEAP) + page_off x = page_base x + page_off x - HEAP" by (simp only: diff_add_eq)
      then have "x - HEAP = (page_base x - HEAP) + of_nat (unat (page_off x))" unfolding page_split by simp
      moreover have "page_aligned (page_base x - HEAP)" by (rule page_aligned_minus [OF page_off_base page_aligned_HEAP])
      ultimately show ?thesis
        using page_plus(1) [of "page_base x - HEAP" "unat (page_off x)"] page_off_less [of x] by (simp only:) simp
    qed
    then show ?thesis using assms(2) by simp
  qed
  then have d: "unat (w - HEAP) div 4096 = unat (v - HEAP) div 4096" by (simp add: unat_div_page)
  define n where "n = unat (heap_virtual_top m - HEAP) div 4096"
  have n: "unat (heap_virtual_top m - HEAP) = n * 4096" using a mod_div_mult_eq [of _ 4096]
    by (metis n_def page_aligned_iff div_mult_mod_eq add.right_neutral)
  have "unat (v - HEAP) div 4096 < n" using assms(3) n by (simp add: in_heap_def less_mult_imp_div_less)
  then have "unat (w - HEAP) < n * 4096" using d by (metis div_less_iff_less_mult zero_less_numeral)
  then show ?thesis using n by (simp add: in_heap_def)
qed

lemma loc_walk:
  assumes "walk m 4 (kernel_pml4 m) w = Some (1, e)"
  shows "loc m w = page_base e + hhdm_offset m + page_off w"
  using assms by (simp add: loc_def PHYS_TO_VIRT_def virt_to_phys_walk page_base_def page_off_def)

lemma heap_page:
  assumes hm: "heap_mapped m L" and w: "in_heap m w"
  obtains b where "page_aligned b" "owned m L b" "vptr m w = Some (loc m w)"
    "\<And>v. page_base v = page_base w \<Longrightarrow> in_heap m v \<and> loc m v = b + page_off v"
proof -
  obtain e where e: "walk m 4 (kernel_pml4 m) w = Some (1, e)" "page_base e \<noteq> 0" "owned m L (page_base e + hhdm_offset m)"
    using heap_mappedD(4) [OF hm w] by blast
  have al: "page_aligned (page_base e + hhdm_offset m)"
    using tablesD(2) [OF heap_mappedD(1) [OF hm]] by (intro page_aligned_plus) simp_all
  have "vmm_virt_to_phys m (kernel_pml4 m) w = page_base e + page_off w"
    using e(1) by (simp add: virt_to_phys_walk page_base_def page_off_def)
  moreover have "page_base e + page_off w \<noteq> 0"
  proof
    assume "page_base e + page_off w = 0"
    then have "page_base (page_base e + of_nat (unat (page_off w))) = 0" by (simp add: page_off_source)
    then show False using page_plus(1) [of "page_base e" "unat (page_off w)"] page_off_less e(2) by simp
  qed
  ultimately have "vptr m w = Some (loc m w)" by (simp add: vptr_def loc_def)
  moreover have "in_heap m v \<and> loc m v = (page_base e + hhdm_offset m) + page_off v" if "page_base v = page_base w" for v
  proof -
    have v: "in_heap m v" by (rule in_heap_page [OF heap_mappedD(2) [OF hm] that w])
    have "vpn 1 v = vpn 1 w" using vpn_heap in_heap_zone [OF hm] v w that by blast
    then have "walk m 4 (kernel_pml4 m) v = Some (1, e)" using walk_same_vpn [of v w 4 m "kernel_pml4 m"] e(1) by simp
    then show ?thesis using v loc_walk by blast
  qed
  ultimately show ?thesis using that al e(3) by blast
qed

subsection \<open>Access to the window\<close>

text \<open>Writing outside the tables changes no translation.\<close>

lemma heap_write:
  assumes hm: "heap_mapped m L" and mm: "\<forall>t x. L t \<noteq> None \<longrightarrow> in_block t 4096 x \<longrightarrow> mm x = pmem m x"
  defines "m' \<equiv> m\<lparr>pmem := mm\<rparr>"
  shows "heap_mapped m' L" "loc m' w = loc m w" "in_heap m' w = in_heap m w"
proof -
  have s: "pmm_buddy m' = pmm_buddy m" "hhdm_offset m' = hhdm_offset m" "kernel_pml4 m' = kernel_pml4 m"
      "heap_virtual_top m' = heap_virtual_top m" by (simp_all add: m'_def)
  have mm': "\<forall>t x. L t \<noteq> None \<longrightarrow> in_block t 4096 x \<longrightarrow> pmem m' x = pmem m x" using mm by (simp add: m'_def)
  have pm: "pmm_ok m'" "\<forall>x. free_byte m' x \<longrightarrow> free_byte m x"
    using pmm_ok_cong [OF s(1,2)] tablesD(1) [OF heap_mappedD(1) [OF hm]] free_byte_cong [OF s(1)] by simp_all
  note t = tables_outside [OF heap_mappedD(1) [OF hm] pm s(2) mm']
  have ih: "in_heap m' w = in_heap m w" for w by (simp add: in_heap_def s)
  have lc: "loc m' w = loc m w" for w by (simp add: loc_def PHYS_TO_VIRT_def virt_to_phys_walk s t(2))
  have ow: "owned m' L b = owned m L b" for b using free_byte_cong [OF s(1)] by (simp add: owned_def)
  show "loc m' w = loc m w" "in_heap m' w = in_heap m w" by (rule lc ih)+
  show "heap_mapped m' L"
    unfolding heap_mapped_def ih lc ow s t(2) using t(1) hm [unfolded heap_mapped_def] by simp
qed

text \<open>A write of at most a page into one page of the window.\<close>

lemma heap_write_bytes:
  assumes hm: "heap_mapped m L" and w: "in_heap m w" and n: "unat (page_off w) + length bs \<le> 4096"
  defines "m' \<equiv> m\<lparr>pmem := wr_bytes (pmem m) (loc m w) bs\<rparr>"
  shows "heap_mapped m' L" "hmem m' = wr_bytes (hmem m) w bs" "in_heap m' v = in_heap m v"
proof -
  obtain b where b: "page_aligned b" "owned m L b" "\<And>v. page_base v = page_base w \<Longrightarrow> in_heap m v \<and> loc m v = b + page_off v"
    using heap_page [OF hm w] by metis
  have at: "in_heap m (w + of_nat i) \<and> loc m (w + of_nat i) = loc m w + of_nat i" if "i < length bs" for i
  proof -
    have lt: "unat (page_off w) + i < 4096" using that n by simp
    show ?thesis using b(3) [OF page_plus(1) [OF lt]] b(3) [OF refl] page_plus(2) [OF lt] by (simp add: add.assoc)
  qed
  have inb: "in_block b 4096 x" if x: "in_block (loc m w) (length bs) x" for x
  proof -
    obtain i where i: "i < length bs" "x = loc m w + of_nat i" using x by (rule in_blockE)
    have "x = b + of_nat (unat (page_off w) + i)" using i(2) b(3) [OF refl] by (simp add: add.assoc)
    then show ?thesis using in_block_offset [of "unat (page_off w) + i" 4096 b] i(1) n by (simp del: of_nat_add)
  qed
  have "\<not> in_block (loc m w) (length bs) x" if "L t \<noteq> None" "in_block t 4096 x" for t x
    using b(2) inb that unfolding owned_def by blast
  then have mm: "\<forall>t x. L t \<noteq> None \<longrightarrow> in_block t 4096 x \<longrightarrow> wr_bytes (pmem m) (loc m w) bs x = pmem m x"
    using wr_bytes_outside by blast
  note hw = heap_write [OF hm mm, folded m'_def]
  show "heap_mapped m' L" "in_heap m' v = in_heap m v" by (rule hw)+
  have pm: "pmem m' = wr_bytes (pmem m) (loc m w) bs" by (simp add: m'_def)
  show "hmem m' = wr_bytes (hmem m) w bs"
  proof
    fix v
    show "hmem m' v = wr_bytes (hmem m) w bs v"
    proof (cases "in_heap m v")
      case False
      have "\<not> in_block w (length bs) v"
      proof
        assume "in_block w (length bs) v"
        then obtain i where "i < length bs" "v = w + of_nat i" by (rule in_blockE)
        then show False using at False by blast
      qed
      then show ?thesis using False wr_bytes_outside by (simp add: hmem_def hw(3))
    next
      case True
      show ?thesis
      proof (cases "in_block w (length bs) v")
        case inside: True
        then obtain i where i: "i < length bs" "i < 2 ^ 64" "v = w + of_nat i" by (rule in_blockE)
        have "loc m v = loc m w + of_nat i" using at i by blast
        then show ?thesis using i True unfolding hmem_def hw(2,3) pm by (simp add: wr_bytes_def)
      next
        case outside: False
        have "\<not> in_block (loc m w) (length bs) (loc m v)"
        proof
          assume "in_block (loc m w) (length bs) (loc m v)"
          then obtain i where i: "i < length bs" "loc m v = loc m w + of_nat i" by (rule in_blockE)
          then have "v = w + of_nat i" using at [OF i(1)] heap_mappedD(5) [OF hm True] by metis
          moreover have "length bs \<le> 2 ^ 64" using n by simp
          ultimately show False using outside in_block_offset [OF i(1)] by blast
        qed
        then show ?thesis using True outside wr_bytes_outside unfolding hmem_def hw(2,3) pm by simp
      qed
    qed
  qed
qed

lemma heap_read:
  assumes hm: "heap_mapped m L" and w: "in_heap m w" and i: "unat (page_off w) + i < 4096"
  shows "pmem m (loc m w + of_nat i) = hmem m (w + of_nat i)" "in_heap m (w + of_nat i)"
proof -
  obtain b where b: "\<And>v. page_base v = page_base w \<Longrightarrow> in_heap m v \<and> loc m v = b + page_off v"
    using heap_page [OF hm w] by metis
  note v = b [OF page_plus(1) [OF i]]
  then show "in_heap m (w + of_nat i)" by blast
  have "loc m (w + of_nat i) = loc m w + of_nat i" using v b [OF refl] page_plus(2) [OF i] by (simp add: add.assoc)
  then show "pmem m (loc m w + of_nat i) = hmem m (w + of_nat i)" using v by (simp add: hmem_def)
qed

lemma vptr_heap: "heap_mapped m L \<Longrightarrow> in_heap m w \<Longrightarrow> vptr m w = Some (loc m w)"
  using heap_page by metis

lemma rd_bytes_move: "\<forall>i < n. f (a + of_nat i) = g (b + of_nat i) \<Longrightarrow> rd_bytes f a n = rd_bytes g b n"
  by (simp add: rd_bytes_def)

lemma load_heap:
  assumes "heap_mapped m L" "in_heap m w"
  shows "unat (page_off w) + 8 \<le> 4096 \<Longrightarrow> load64 w m = Some (rd64 (hmem m) w)"
    "unat (page_off w) + 4 \<le> 4096 \<Longrightarrow> load32 w m = Some (rd32 (hmem m) w)"
    "load8 w m = Some (hmem m w)"
proof -
  have r: "rd_bytes (pmem m) (loc m w) n = rd_bytes (hmem m) w n" if "unat (page_off w) + n \<le> 4096" for n
    using heap_read(1) [OF assms] that by (intro rd_bytes_move) simp
  show "load64 w m = Some (rd64 (hmem m) w)" if "unat (page_off w) + 8 \<le> 4096"
    using r [OF that] by (simp add: load64_def vptr_heap [OF assms] rd64_def)
  show "load32 w m = Some (rd32 (hmem m) w)" if "unat (page_off w) + 4 \<le> 4096"
    using r [OF that] by (simp add: load32_def vptr_heap [OF assms] rd32_def)
  show "load8 w m = Some (hmem m w)"
    using assms(2) by (simp add: load8_def vptr_heap [OF assms] hmem_def)
qed

text \<open>What a store into the window does: it changes memory only, and there only the bytes it names.\<close>

definition stored :: "'a slab_machine_scheme \<Rightarrow> (ptr \<rightharpoonup> nat) \<Rightarrow> mem \<Rightarrow> 'a slab_machine_scheme \<Rightarrow> bool" where
  "stored m L h m' \<longleftrightarrow> heap_mapped m' L \<and> hmem m' = h \<and> (\<exists>mm. m' = m\<lparr>pmem := mm\<rparr>)"

lemma store_heap:
  assumes "heap_mapped m L" "in_heap m w"
  shows "unat (page_off w) + 8 \<le> 4096 \<Longrightarrow> \<exists>m'. store64 w v64 m = Some m' \<and> stored m L (wr64 (hmem m) w v64) m'"
    "unat (page_off w) + 4 \<le> 4096 \<Longrightarrow> \<exists>m'. store32 w v32 m = Some m' \<and> stored m L (wr32 (hmem m) w v32) m'"
    "\<exists>m'. store8 w v8 m = Some m' \<and> stored m L ((hmem m)(w := v8)) m'"
proof -
  show "\<exists>m'. store64 w v64 m = Some m' \<and> stored m L (wr64 (hmem m) w v64) m'" if "unat (page_off w) + 8 \<le> 4096"
    using heap_write_bytes [OF assms, of "to_le 8 v64"] that
    by (auto simp: store64_def vptr_heap [OF assms] stored_def wr64_def)
  show "\<exists>m'. store32 w v32 m = Some m' \<and> stored m L (wr32 (hmem m) w v32) m'" if "unat (page_off w) + 4 \<le> 4096"
    using heap_write_bytes [OF assms, of "to_le 4 v32"] that
    by (auto simp: store32_def vptr_heap [OF assms] stored_def wr32_def)
  have wr: "wr_bytes f a [c] = f(a := c)" for f :: mem and a c
    by (rule ext) (simp add: wr_bytes_def unat_eq_zero)
  show "\<exists>m'. store8 w v8 m = Some m' \<and> stored m L ((hmem m)(w := v8)) m'"
    using heap_write_bytes [OF assms, of "[v8]"] page_off_less [of w]
    by (auto simp: store8_def vptr_heap [OF assms] stored_def wr)
qed

subsection \<open>Growing the window\<close>

text \<open>Translation and the free frames depend on memory and the allocator's tree only.\<close>

lemma same_memory:
  assumes "pmem m' = pmem m" "pmm_buddy m' = pmm_buddy m" "hhdm_offset m' = hhdm_offset m"
  shows "tables m' p L = tables m p L" "walk m' k p v = walk m k p v" "free_byte m' x = free_byte m x" "free_frames m' = free_frames m"
proof -
  have fb: "free_byte m' x = free_byte m x" for x by (rule free_byte_cong [OF assms(2)])
  have pm: "pmm_ok m' = pmm_ok m" by (rule pmm_ok_cong [OF assms(2,3)])
  have e: "entry m' t i = entry m t i" "child m' t i = child m t i" "links m' k t i = links m k t i" for t i k
    by (simp_all add: entry_def child_def links_def assms)
  show "free_byte m' x = free_byte m x" by (rule fb)
  show "tables m' p L = tables m p L" by (simp add: tables_def e fb pm assms(3))
  show "walk m' k p v = walk m k p v" by (induction k arbitrary: p) (simp_all add: e)
  show "free_frames m' = free_frames m" by (simp add: free_frames_def fb assms(3))
qed

text \<open>The page allocator and the mapping functions change memory and the allocator's tree, nothing else.\<close>

definition mem_only :: "'a machine_scheme \<Rightarrow> 'a machine_scheme \<Rightarrow> bool" where
  "mem_only m m' \<longleftrightarrow> (\<exists>mm b. m' = m\<lparr>pmem := mm, pmm_buddy := b\<rparr>)"

lemma mem_only_trans:
  assumes "mem_only m m1" "mem_only m1 m2" shows "mem_only m m2"
proof -
  obtain mm b where 1: "m1 = m\<lparr>pmem := mm, pmm_buddy := b\<rparr>" using assms(1) unfolding mem_only_def by blast
  obtain mm' b' where "m2 = m1\<lparr>pmem := mm', pmm_buddy := b'\<rparr>" using assms(2) unfolding mem_only_def by blast
  then have "m2 = m\<lparr>pmem := mm', pmm_buddy := b'\<rparr>" unfolding 1 by simp
  then show ?thesis unfolding mem_only_def by blast
qed

lemma mem_only_updates: "mem_only m m" "mem_only m (m\<lparr>pmem := mm\<rparr>)" "mem_only m (m\<lparr>pmm_buddy := b\<rparr>)"
proof -
  have p: "m\<lparr>pmem := pmem m\<rparr> = m" and b: "m\<lparr>pmm_buddy := pmm_buddy m\<rparr> = m" by simp_all
  show "mem_only m m" unfolding mem_only_def by (rule exI [of _ "pmem m"], rule exI [of _ "pmm_buddy m"]) simp
  show "mem_only m (m\<lparr>pmem := mm\<rparr>)" unfolding mem_only_def
    by (rule exI [of _ mm], rule exI [of _ "pmm_buddy m"]) simp
  show "mem_only m (m\<lparr>pmm_buddy := b\<rparr>)" for b unfolding mem_only_def
    by (rule exI [of _ "pmem m"], rule exI [of _ b]) simp
qed

lemma mem_only_set_entry: "mem_only m (set_entry t i v m)"
  unfolding set_entry_def by (rule mem_only_updates)

lemma mem_only_palloc: "palloc m = Some (f, m') \<Longrightarrow> mem_only m m'"
  by (auto simp: palloc_def bind_eq_Some_conv split: option.splits if_splits intro: mem_only_updates)

lemma mem_only_palloc_zero:
  assumes "palloc_zero m = Some (f, m')" shows "mem_only m m'"
proof -
  obtain g m1 where g: "palloc m = Some (g, m1)" "m' = m1 \<or> (\<exists>mm. m' = m1\<lparr>pmem := mm\<rparr>)"
    using assms by (auto simp: palloc_zero_def Let_def bind_eq_Some_conv split: if_splits)
  from g(2) have "mem_only m1 m'" by (elim disjE exE) (simp_all add: mem_only_updates)
  then show ?thesis by (rule mem_only_trans [OF mem_only_palloc [OF g(1)]])
qed

lemma mem_only_table_step:
  assumes "table_step t i fl m = Some (p, m')" shows "mem_only m m'"
proof (cases "present (entry m t i)")
  case True
  then show ?thesis using assms by (auto simp: table_step_def intro: mem_only_set_entry)
next
  case False
  then obtain f m1 v where "palloc_zero m = Some (f, m1)" "m' = set_entry t i v m1"
    using assms by (auto simp: table_step_def)
  then show ?thesis using mem_only_trans [OF mem_only_palloc_zero mem_only_set_entry] by blast
qed

lemma mem_only_map_page:
  assumes "map_page p v f fl m = Some m'" shows "mem_only m m'"
proof -
  obtain pdp m1 pd m2 pt m3 e where "table_step p (PML4_IDX v) fl m = Some (pdp, m1)"
      "table_step pdp (PDP_IDX v) fl m1 = Some (pd, m2)" "table_step pd (PD_IDX v) fl m2 = Some (pt, m3)"
      "m' = set_entry pt (PT_IDX v) e m3"
    using assms by (auto simp: map_page_def bind_eq_Some_conv)
  then show ?thesis using mem_only_table_step mem_only_trans mem_only_set_entry by metis
qed

lemma mem_only_sel:
  assumes "mem_only m m'"
  shows "heap_virtual_top m' = heap_virtual_top m" "buckets m' = buckets m" "kernel_pml4 m' = kernel_pml4 m"
    "hhdm_offset m' = hhdm_offset m"
  using assms by (auto simp: mem_only_def)

lemma final_flags_writable: "page_base (final_flags m PTE_WRITABLE) = 0"
proof -
  have "page_base PTE_WRITABLE = 0" "page_base (PTE_WRITABLE AND NOT PTE_NX) = 0"
    by (simp_all add: page_base_source PTE_WRITABLE_def PTE_NX_def)
  then show ?thesis by (simp add: final_flags_def)
qed

lemma heap_top_out: "\<not> in_heap m (heap_virtual_top m)"
  by (simp add: in_heap_def)

lemma in_heap_grow:
  assumes al: "page_aligned (heap_virtual_top m)" and z: "unat (heap_virtual_top m - HEAP) + 4096 \<le> zone"
    and m': "heap_virtual_top m' = heap_virtual_top m + 4096"
  shows "in_heap m' w \<longleftrightarrow> in_heap m w \<or> page_base w = heap_virtual_top m"
proof -
  define T where "T = heap_virtual_top m"
  have u: "unat (T + 4096 - HEAP) = unat (T - HEAP) + 4096"
  proof -
    have "unat (T - HEAP) + 4096 < 2 ^ 64" using z by (simp add: T_def)
    then have "unat ((T - HEAP) + of_nat 4096) = unat (T - HEAP) + 4096" by (rule unat_add_no_wrap)
    moreover have "(T - HEAP) + of_nat 4096 = T + 4096 - HEAP" by (simp add: diff_add_eq)
    ultimately show ?thesis by simp
  qed
  have "unat (w - HEAP) < unat (T - HEAP) + 4096 \<longleftrightarrow> unat (w - HEAP) < unat (T - HEAP) \<or> in_block T 4096 w"
  proof (cases "unat (w - HEAP) < unat (T - HEAP)")
    case False
    have "w - T = (w - HEAP) - (T - HEAP)" by simp
    moreover have "T - HEAP \<le> w - HEAP" using False by (simp add: word_le_nat_alt)
    ultimately have "unat (w - T) = unat (w - HEAP) - unat (T - HEAP)" by (metis unat_sub)
    then show ?thesis using False by (auto simp: in_block_def)
  qed simp
  then show ?thesis using u m' in_page_iff [OF al, of w] unfolding in_heap_def T_def by simp
qed

text \<open>What allocating a frame and mapping it at a free address does to memory and translation.\<close>

definition page_added :: "'a machine_scheme \<Rightarrow> ptr \<Rightarrow> (ptr \<rightharpoonup> nat) \<Rightarrow> u64 \<Rightarrow> u64 \<Rightarrow> 'a machine_scheme \<Rightarrow> (ptr \<rightharpoonup> nat) \<Rightarrow> bool" where
  "page_added m p L v f m' L' \<longleftrightarrow>
     tables m' p L' \<and> L \<subseteq>\<^sub>m L' \<and> f \<noteq> 0 \<and> page_aligned f \<and> (\<forall>x. frame_bytes m f x \<longrightarrow> free_byte m x)
   \<and> (\<exists>e. page_base e = f \<and> (\<forall>w. walk m' 4 p w = (if vpn 1 w = vpn 1 v then Some (1, e) else walk m 4 p w)))
   \<and> (\<forall>x. \<not> free_byte m x \<and> (\<forall>t. L t \<noteq> None \<longrightarrow> \<not> in_block t 4096 x) \<longrightarrow> pmem m' x = pmem m x)
   \<and> (\<forall>x. frame_bytes m f x \<longrightarrow> pmem m' x = 0)
   \<and> (\<forall>x. free_byte m' x \<longrightarrow> free_byte m x \<and> \<not> frame_bytes m f x)
   \<and> (\<forall>t x. L t = None \<and> L' t \<noteq> None \<and> in_block t 4096 x \<longrightarrow> free_byte m x \<and> \<not> frame_bytes m f x)"

lemma page_addedI:
  assumes tb: "tables m p L" and nb: "walk m 4 p v = None" and pz: "palloc_zero m = Some (f, m1)"
    and mp: "map_page p v f PTE_WRITABLE m1 = Some m2"
  shows "\<exists>L'. page_added m p L v f m2 L'"
proof -
  note fr = palloc_zero_fresh [OF tablesD(1) [OF tb] pz]
  have s: "hhdm_offset m1 = hhdm_offset m" "pmem m1 = (\<lambda>x. if frame_bytes m f x then 0 else pmem m x)" by (subst fr(2), simp)+
  have f: "f \<noteq> 0" "page_aligned f" "\<forall>x. frame_bytes m f x \<longrightarrow> free_byte m x"
      "\<forall>x. free_byte m1 x \<longleftrightarrow> free_byte m x \<and> \<not> frame_bytes m f x"
    using fr(1) by (simp_all add: fresh_frame_def page_aligned_iff)
  note t1 = palloc_zero_tables [OF tb pz]
  have nb1: "mapped_below m1 1 p v" using nb t1(2) [of v] by (simp add: mapped_below_def)
  note sp = map_page_spec [OF t1(1) nb1 mp]
  obtain L' where L': "tables m2 p L'" "grown m1 L m2 L'" using sp(2) by blast
  have tabs: "\<not> frame_bytes m f x" if "L t \<noteq> None" "in_block t 4096 x" for t x
    using that f(3) tablesD(7) [OF tb] by blast
  define e where "e = page_entry m1 f PTE_WRITABLE"
  have "page_base e = f" unfolding e_def using page_entry_translate [OF final_flags_writable, of m1 f] f(2) by simp
  moreover have "walk m2 4 p w = (if vpn 1 w = vpn 1 v then Some (1, e) else walk m 4 p w)" for w
    using sp(1) t1(2) by (simp add: remapped_def e_def)
  moreover have "pmem m2 x = pmem m x" if "\<not> free_byte m x" "\<forall>t. L t \<noteq> None \<longrightarrow> \<not> in_block t 4096 x" for x
  proof -
    have "\<not> free_byte m1 x" "\<not> frame_bytes m f x" using that f(3,4) by blast+
    then show ?thesis using L'(2) that(2) unfolding grown_def s(2) by simp
  qed
  moreover have "pmem m2 x = 0" if "frame_bytes m f x" for x
  proof -
    have "\<not> free_byte m1 x" "\<forall>t. L t \<noteq> None \<longrightarrow> \<not> in_block t 4096 x" using that f(4) tabs by blast+
    then show ?thesis using L'(2) that unfolding grown_def s(2) by simp
  qed
  moreover have "free_byte m x \<and> \<not> frame_bytes m f x" if "free_byte m2 x" for x using that L'(2) f(4) unfolding grown_def by blast
  moreover have "free_byte m x \<and> \<not> frame_bytes m f x" if "L t = None" "L' t \<noteq> None" "in_block t 4096 x" for t x
    using that L'(2) f(4) unfolding grown_def by blast
  moreover have "L \<subseteq>\<^sub>m L'" using L'(2) by (simp add: grown_def)
  ultimately show ?thesis unfolding page_added_def using L'(1) f(1-3) by blast
qed

text \<open>The window gains one zeroed page, and keeps its contents.\<close>

lemma page_added_walk:
  assumes ad: "page_added m p L v f m2 L'" and same: "pmem m' = pmem m2" "pmm_buddy m' = pmm_buddy m2" "hhdm_offset m' = hhdm_offset m2"
  shows "tables m' p L'" "walk m' 4 p w = walk m2 4 p w"
proof -
  have tb: "tables m2 p L'" using ad by (simp add: page_added_def)
  have pm: "pmm_ok m'" "\<forall>x. free_byte m' x \<longrightarrow> free_byte m2 x"
    using pmm_ok_cong [OF same(2,3)] tablesD(1) [OF tb] free_byte_cong [OF same(2)] by simp_all
  show "tables m' p L'" "walk m' 4 p w = walk m2 4 p w" using tables_outside [OF tb pm same(3)] same(1) by simp_all
qed

lemma page_added_owned:
  assumes ad: "page_added m p L v f m2 L'" and fb: "\<forall>x. free_byte m' x \<longrightarrow> free_byte m2 x"
  shows "owned m L b \<Longrightarrow> owned m' L' b" "tables m p L \<Longrightarrow> owned m' L' (f + hhdm_offset m)"
proof -
  have a: "\<And>x. frame_bytes m f x \<Longrightarrow> free_byte m x" "\<And>x. free_byte m2 x \<Longrightarrow> free_byte m x \<and> \<not> frame_bytes m f x"
      "\<And>t x. L t = None \<Longrightarrow> L' t \<noteq> None \<Longrightarrow> in_block t 4096 x \<Longrightarrow> free_byte m x \<and> \<not> frame_bytes m f x"
    using ad unfolding page_added_def by blast+
  show "owned m L b \<Longrightarrow> owned m' L' b" unfolding owned_def using a fb by blast
  assume "tables m p L"
  then show "owned m' L' (f + hhdm_offset m)" unfolding owned_def using a fb tablesD(7) by blast
qed

lemma heap_grows:
  assumes hm: "heap_mapped m L" and z: "unat (heap_virtual_top m - HEAP) + 4096 \<le> zone"
    and ad: "page_added m (kernel_pml4 m) L (heap_virtual_top m) f m2 L'" and mo: "mem_only m m2"
  defines "m' \<equiv> m2\<lparr>heap_virtual_top := heap_virtual_top m2 + PAGE_SIZE\<rparr>"
  shows "heap_mapped m' L'" "hmem m' = hmem m"
proof -
  define T P where "T = heap_virtual_top m" and "P = kernel_pml4 m"
  note sel = mem_only_sel [OF mo]
  have s: "kernel_pml4 m' = P" "hhdm_offset m' = hhdm_offset m" "heap_virtual_top m' = T + 4096" "pmem m' = pmem m2"
    by (simp_all add: m'_def sel P_def T_def PAGE_SIZE_def)
  have al: "page_aligned T" using heap_mappedD(2) [OF hm] by (simp add: T_def)
  have Tz: "unat (T - HEAP) < zone" using z by (simp add: T_def)
  note tb = heap_mappedD(1) [OF hm]
  note t' = page_added_walk [OF ad, of m', folded P_def]
  have tb': "tables m' P L'" "\<And>w. walk m' 4 P w = walk m2 4 P w" using t' by (simp_all add: m'_def)
  have "\<forall>x. free_byte m' x \<longrightarrow> free_byte m2 x" using free_byte_cong [of m' m2] by (simp add: m'_def)
  note ow = page_added_owned [OF ad this]
  obtain e where e: "page_base e = f" "\<And>w. walk m2 4 P w = (if vpn 1 w = vpn 1 T then Some (1, e) else walk m 4 P w)"
    using ad unfolding page_added_def P_def T_def by blast
  have a: "f \<noteq> 0" "page_aligned f" "\<And>x. frame_bytes m f x \<Longrightarrow> free_byte m x" "\<And>x. frame_bytes m f x \<Longrightarrow> pmem m' x = 0"
      "\<And>x. \<not> free_byte m x \<Longrightarrow> (\<forall>t. L t \<noteq> None \<longrightarrow> \<not> in_block t 4096 x) \<Longrightarrow> pmem m' x = pmem m x"
    using ad unfolding page_added_def s by blast+
  have ih: "in_heap m' w \<longleftrightarrow> in_heap m w \<or> page_base w = T" for w
    using in_heap_grow [OF heap_mappedD(2) [OF hm] z, of m'] s(3) by (simp add: T_def)
  have wk: "walk m' 4 P w = (if page_base w = T then Some (1, e) else walk m 4 P w)" if "unat (w - HEAP) < zone" for w
    using tb'(2) e(2) vpn_heap [OF that Tz] al by simp
  have old: "page_base w \<noteq> T" "walk m' 4 P w = walk m 4 P w" "loc m' w = loc m w" if "in_heap m w" for w
  proof -
    show n: "page_base w \<noteq> T"
      using in_heap_page [OF heap_mappedD(2) [OF hm] _ that, of T] heap_top_out [of m] al by (auto simp: T_def)
    show w: "walk m' 4 P w = walk m 4 P w" using wk [OF in_heap_zone [OF hm that]] n by simp
    show "loc m' w = loc m w" using w by (simp add: loc_def PHYS_TO_VIRT_def virt_to_phys_walk s P_def)
  qed
  have oldb: "\<not> free_byte m (loc m w) \<and> (\<forall>t. L t \<noteq> None \<longrightarrow> \<not> in_block t 4096 (loc m w))" if w: "in_heap m w" for w
  proof -
    obtain b where b: "owned m L b" "loc m w = b + page_off w" using heap_page [OF hm w] by metis
    have "in_block b 4096 (loc m w)" using b(2) in_block_offset [OF page_off_less, of b w] by simp
    then show ?thesis using b(1) unfolding owned_def by blast
  qed
  have new: "walk m' 4 P w = Some (1, e)" "loc m' w = f + hhdm_offset m + page_off w" "frame_bytes m f (loc m' w)"
    if "page_base w = T" for w
  proof -
    have "vpn 1 w = vpn 1 T" using that al unat_div_page [of w T] unfolding word_unat_eq_iff [of "vpn 1 w"] unat_vpn by simp
    then show w: "walk m' 4 P w = Some (1, e)" using tb'(2) e(2) by simp
    then show l: "loc m' w = f + hhdm_offset m + page_off w" using loc_walk [of m' w e] e(1) s by simp
    show "frame_bytes m f (loc m' w)" using in_block_offset [OF page_off_less, of "f + hhdm_offset m" w] by (simp add: l)
  qed
  show "hmem m' = hmem m"
  proof
    fix w
    consider "in_heap m w" | "\<not> in_heap m w" "page_base w = T" | "\<not> in_heap m w" "page_base w \<noteq> T" by blast
    then show "hmem m' w = hmem m w"
      by cases (use old(3) oldb a(4,5) new(3) in \<open>simp_all add: hmem_def ih\<close>)
  qed
  show "heap_mapped m' L'"
    unfolding heap_mapped_def s(1,2)
  proof (intro conjI allI impI; (elim conjE)?)
    show "tables m' P L'" by (rule tb')
    show "page_aligned (heap_virtual_top m')" unfolding s(3) by (rule page_aligned_plus [OF al]) (simp add: page_off_source)
    have "unat (heap_virtual_top m' - HEAP) = unat (T - HEAP) + 4096"
      using unat_add_no_wrap [of "T - HEAP" 4096] z unfolding s(3) T_def by (simp add: diff_add_eq)
    then show "unat (heap_virtual_top m' - HEAP) \<le> zone" using z by (simp add: T_def)
    show "\<exists>e. walk m' 4 P w = Some (1, e) \<and> page_base e \<noteq> 0 \<and> owned m' L' (page_base e + hhdm_offset m)" if "in_heap m' w" for w
    proof (cases "in_heap m w")
      case True
      then show ?thesis using heap_mappedD(4) [OF hm True] old(2) [OF True] ow(1) by (auto simp: P_def)
    next
      case False
      then show ?thesis using new(1) ow(2) [OF tb] e(1) a(1) that ih by simp
    qed
    show "w = w'" if w: "in_heap m' w" "in_heap m' w'" "loc m' w = loc m' w'" for w w'
    proof -
      have nn: "w = w'" if "page_base w = T" "page_base w' = T"
      proof -
        have "page_off w = page_off w'" using new(2) [OF that(1)] new(2) [OF that(2)] w(3) by simp
        then show ?thesis using that page_split by metis
      qed
      have on: False if "in_heap m x" "page_base y = T" "loc m' x = loc m' y" for x y
        using new(3) [OF that(2)] oldb [OF that(1)] old(3) [OF that(1)] that(3) a(3) by metis
      have oo: "w = w'" if "in_heap m w" "in_heap m w'"
        using heap_mappedD(5) [OF hm that] old(3) [OF that(1)] old(3) [OF that(2)] w(3) by simp
      show ?thesis using nn on oo w ih by metis
    qed
    show "walk m' 4 P w = None" if w: "\<not> in_heap m' w" "unat (w - HEAP) < zone" for w
      using wk [OF w(2)] heap_mappedD(6) [OF hm _ w(2)] w(1) ih by (simp add: P_def)
  qed
qed

definition heap_only :: "'a slab_machine_scheme \<Rightarrow> 'a slab_machine_scheme \<Rightarrow> bool" where
  "heap_only m m' \<longleftrightarrow> (\<exists>mm b t bs. m' = m\<lparr>pmem := mm, pmm_buddy := b, heap_virtual_top := t, buckets := bs\<rparr>)"

lemma heap_only_trans:
  assumes "heap_only m m1" "heap_only m1 m2" shows "heap_only m m2"
proof -
  obtain mm b t bs where 1: "m1 = m\<lparr>pmem := mm, pmm_buddy := b, heap_virtual_top := t, buckets := bs\<rparr>"
    using assms(1) unfolding heap_only_def by blast
  obtain mm' b' t' bs' where "m2 = m1\<lparr>pmem := mm', pmm_buddy := b', heap_virtual_top := t', buckets := bs'\<rparr>"
    using assms(2) unfolding heap_only_def by blast
  then have "m2 = m\<lparr>pmem := mm', pmm_buddy := b', heap_virtual_top := t', buckets := bs'\<rparr>" unfolding 1 by simp
  then show ?thesis unfolding heap_only_def by blast
qed

lemma heap_only_updates:
  shows "mem_only m m' \<Longrightarrow> heap_only m m'" "heap_only m (m\<lparr>heap_virtual_top := t\<rparr>)" "heap_only m (m\<lparr>buckets := bs\<rparr>)"
    "heap_only m (m\<lparr>pmem := mm\<rparr>)"
proof -
  show "heap_only m m'" if "mem_only m m'"
  proof -
    obtain mm b where "m' = m\<lparr>pmem := mm, pmm_buddy := b\<rparr>" using \<open>mem_only m m'\<close> unfolding mem_only_def by blast
    then have "m' = m\<lparr>pmem := mm, pmm_buddy := b, heap_virtual_top := heap_virtual_top m, buckets := buckets m\<rparr>" by simp
    then show ?thesis unfolding heap_only_def by blast
  qed
  have "m\<lparr>heap_virtual_top := t\<rparr> = m\<lparr>pmem := pmem m, pmm_buddy := pmm_buddy m, heap_virtual_top := t, buckets := buckets m\<rparr>"
    "m\<lparr>buckets := bs\<rparr> = m\<lparr>pmem := pmem m, pmm_buddy := pmm_buddy m, heap_virtual_top := heap_virtual_top m, buckets := bs\<rparr>"
    "m\<lparr>pmem := mm\<rparr> = m\<lparr>pmem := mm, pmm_buddy := pmm_buddy m, heap_virtual_top := heap_virtual_top m, buckets := buckets m\<rparr>"
    by simp_all
  then show "heap_only m (m\<lparr>heap_virtual_top := t\<rparr>)" "heap_only m (m\<lparr>buckets := bs\<rparr>)" "heap_only m (m\<lparr>pmem := mm\<rparr>)"
    unfolding heap_only_def by blast+
qed

text \<open>\<open>n\<close> pages added to the window.\<close>

definition extended :: "'a slab_machine_scheme \<Rightarrow> nat \<Rightarrow> 'a slab_machine_scheme \<Rightarrow> bool" where
  "extended m n m' \<longleftrightarrow> (\<exists>L'. heap_mapped m' L') \<and> hmem m' = hmem m \<and> heap_virtual_top m' = heap_virtual_top m + of_nat (4096 * n)
   \<and> buckets m' = buckets m \<and> heap_only m m' \<and> card (free_frames m) \<le> 4 * n + card (free_frames m')"

lemma extend_page:
  assumes hm: "heap_mapped m L" and z: "unat (heap_virtual_top m - HEAP) + 4096 \<le> zone"
    and pz: "palloc_zero m = Some (f, m1)" and mp: "map_page (kernel_pml4 m) (heap_virtual_top m) f PTE_WRITABLE m1 = Some m2"
  shows "f \<noteq> 0" "extended m 1 (m2\<lparr>heap_virtual_top := heap_virtual_top m2 + PAGE_SIZE\<rparr>)"
proof -
  let ?m = "m2\<lparr>heap_virtual_top := heap_virtual_top m2 + PAGE_SIZE\<rparr>"
  note tb = heap_mappedD(1) [OF hm]
  have nb: "walk m 4 (kernel_pml4 m) (heap_virtual_top m) = None"
    by (rule heap_mappedD(6) [OF hm heap_top_out]) (use z in simp)
  obtain L' where ad: "page_added m (kernel_pml4 m) L (heap_virtual_top m) f m2 L'" using page_addedI [OF tb nb pz mp] by blast
  then show "f \<noteq> 0" by (simp add: page_added_def)
  have mo: "mem_only m m2" using mem_only_trans [OF mem_only_palloc_zero [OF pz] mem_only_map_page [OF mp]] .
  note t1 = palloc_zero_tables [OF tb pz]
  have nb1: "mapped_below m1 1 (kernel_pml4 m) (heap_virtual_top m)" using nb t1(2) by (simp add: mapped_below_def)
  have "card (free_frames m1) \<le> 3 + card (free_frames m2)" using map_page_spec(1) [OF t1(1) nb1 mp] by (simp add: remapped_def)
  moreover have "card (free_frames m) \<le> 1 + card (free_frames m1)"
    using palloc_zero_frames(2) [OF tablesD(1) [OF tb] pz] diff_card_le_card_Diff [of "{f}" "free_frames m"] by simp
  moreover have "free_frames ?m = free_frames m2" using free_byte_cong [of ?m m2] by (simp add: free_frames_def)
  ultimately have "card (free_frames m) \<le> 4 + card (free_frames ?m)" by simp
  moreover have "heap_only m ?m" using heap_only_trans [OF heap_only_updates(1) [OF mo] heap_only_updates(2)] .
  ultimately show "extended m 1 ?m"
    unfolding extended_def using heap_grows [OF hm z ad mo] mem_only_sel [OF mo] by (auto simp: PAGE_SIZE_def)
qed

lemma extend_page_returns:
  assumes hm: "heap_mapped m L" and z: "unat (heap_virtual_top m - HEAP) + 4096 \<le> zone" and c: "4 \<le> card (free_frames m)"
  shows "\<exists>f m1 m2. palloc_zero m = Some (f, m1) \<and> map_page (kernel_pml4 m) (heap_virtual_top m) f PTE_WRITABLE m1 = Some m2"
proof -
  note tb = heap_mappedD(1) [OF hm]
  have "free_frames m \<noteq> {}" using c by auto
  then obtain f m1 where pz: "palloc_zero m = Some (f, m1)" using palloc_zero_returns [OF tablesD(1) [OF tb]] by blast
  note t1 = palloc_zero_tables [OF tb pz]
  have "walk m 4 (kernel_pml4 m) (heap_virtual_top m) = None" by (rule heap_mappedD(6) [OF hm heap_top_out]) (use z in simp)
  then have "mapped_below m1 1 (kernel_pml4 m) (heap_virtual_top m)" using t1(2) by (simp add: mapped_below_def)
  moreover have "3 \<le> card (free_frames m1)"
    using c palloc_zero_frames [OF tablesD(1) [OF tb] pz] by (simp add: card_Diff_singleton_if)
  ultimately show ?thesis using map_pages_return(2) [OF t1(1)] pz by blast
qed

lemma top_plus:
  assumes "unat (t - HEAP) + n \<le> zone"
  shows "unat (t + of_nat n - HEAP) = unat (t - HEAP) + n"
  using unat_add_no_wrap [of "t - HEAP" n] assms by (simp add: diff_add_eq)

lemma extended_trans:
  assumes "extended m 1 m1" "extended m1 n m2" shows "extended m (Suc n) m2"
  using assms heap_only_trans unfolding extended_def by (auto simp: algebra_simps)

lemma heap_extend_loop_spec:
  assumes "heap_mapped m L" "unat (heap_virtual_top m - HEAP) + 4096 * n \<le> zone"
  shows "heap_extend_loop n m = Some (ok, m') \<Longrightarrow> ok \<and> extended m n m'"
    "4 * n \<le> card (free_frames m) \<Longrightarrow> \<exists>m'. heap_extend_loop n m = Some (True, m')"
  using assms
proof (induction n arbitrary: m L)
  case 0
  { case 1
    then show ?case using heap_only_updates(1) [OF mem_only_updates(1)] by (auto simp: extended_def) }
  { case 2 then show ?case by simp }
next
  case (Suc n)
  have z: "unat (heap_virtual_top m - HEAP) + 4096 \<le> zone" if "unat (heap_virtual_top m - HEAP) + 4096 * Suc n \<le> zone" for m :: "'a slab_machine_scheme"
    using that by simp
  have nxt: "\<exists>L1. heap_mapped m1 L1 \<and> unat (heap_virtual_top m1 - HEAP) + 4096 * n \<le> zone"
    if "unat (heap_virtual_top m - HEAP) + 4096 * Suc n \<le> zone" "extended m 1 m1" for m m1 :: "'a slab_machine_scheme"
    using top_plus [OF z [OF that(1)]] that by (auto simp: extended_def)
  { case 1
    obtain f m1 where pz: "palloc_zero m = Some (f, m1)" using 1(1) by (auto simp: bind_eq_Some_conv)
    note mo = mem_only_sel [OF mem_only_palloc_zero [OF pz]]
    have f: "f \<noteq> 0" using palloc_zero_fresh(1) [OF tablesD(1) [OF heap_mappedD(1) [OF 1(2)]] pz] by (simp add: fresh_frame_def)
    obtain m2 where mp: "map_page (kernel_pml4 m) (heap_virtual_top m) f PTE_WRITABLE m1 = Some m2"
        and rest: "heap_extend_loop n (m2\<lparr>heap_virtual_top := heap_virtual_top m2 + PAGE_SIZE\<rparr>) = Some (ok, m')"
      using 1(1) pz f mo by (auto simp: bind_eq_Some_conv vmm_get_kernel_pml4_def)
    note ex = extend_page(2) [OF 1(2) z [OF 1(3)] pz mp]
    obtain L1 where "heap_mapped (m2\<lparr>heap_virtual_top := heap_virtual_top m2 + PAGE_SIZE\<rparr>) L1"
        "unat (heap_virtual_top (m2\<lparr>heap_virtual_top := heap_virtual_top m2 + PAGE_SIZE\<rparr>) - HEAP) + 4096 * n \<le> zone"
      using nxt [OF 1(3) ex] by blast
    from Suc.IH(1) [OF rest this] show ?case using extended_trans [OF ex] by blast }
  { case 2
    have "4 \<le> card (free_frames m)" using 2(1) by simp
    then obtain f m1 m2 where pz: "palloc_zero m = Some (f, m1)"
        and mp: "map_page (kernel_pml4 m) (heap_virtual_top m) f PTE_WRITABLE m1 = Some m2"
      using extend_page_returns [OF 2(2) z [OF 2(3)]] by blast
    note ex = extend_page [OF 2(2) z [OF 2(3)] pz mp]
    note mo = mem_only_sel [OF mem_only_palloc_zero [OF pz]]
    let ?m = "m2\<lparr>heap_virtual_top := heap_virtual_top m2 + PAGE_SIZE\<rparr>"
    obtain L1 where h1: "heap_mapped ?m L1" "unat (heap_virtual_top ?m - HEAP) + 4096 * n \<le> zone"
      using nxt [OF 2(3) ex(2)] by blast
    have "card (free_frames m) \<le> 4 * 1 + card (free_frames ?m)" using ex(2) unfolding extended_def by blast
    moreover have "4 * n \<le> b" if "4 * Suc n \<le> a" "a \<le> 4 * 1 + b" for a b :: nat using that by simp
    ultimately have "4 * n \<le> card (free_frames ?m)" using 2(1) by blast
    from Suc.IH(2) [OF this h1] show ?case using pz mp mo ex(1) by (simp add: vmm_get_kernel_pml4_def) }
qed

end
