(* ===== verification/Slab_Heap.thy ===== *)
theory Slab_Heap
  imports Heap_Window
begin

text \<open>
  The slab allocator on the heap window: slabs with their free lists and large blocks, the
  invariant that ties them to the blocks in use, what \<^verbatim>\<open>kmalloc\<close>, \<^verbatim>\<open>kfree\<close> and \<^verbatim>\<open>krealloc\<close> do to it,
  and the contract clients of the heap rely on.
\<close>

subsection \<open>Slots of a slab\<close>

abbreviation slot_bytes :: "nat \<Rightarrow> nat" where
  "slot_bytes bk \<equiv> unat (bucket_sizes ! bk)"

definition nslots :: "nat \<Rightarrow> nat" where
  "nslots bk = 4064 div slot_bytes bk"

definition slot :: "ptr \<Rightarrow> nat \<Rightarrow> nat \<Rightarrow> ptr" where
  "slot s bk j = s + of_nat (32 + j * slot_bytes bk)"

definition slots :: "ptr \<Rightarrow> nat \<Rightarrow> ptr set" where
  "slots s bk = slot s bk ` {..<nslots bk}"

lemma bucket_cases:
  assumes "(bk :: nat) < 8"
  obtains "bk = 0" | "bk = 1" | "bk = 2" | "bk = 3" | "bk = 4" | "bk = 5" | "bk = 6" | "bk = 7"
  using assms by linarith

lemma bucket_size:
  assumes "bk < 8"
  shows "16 \<le> slot_bytes bk" "slot_bytes bk \<le> 2048" "bucket_sizes ! bk \<noteq> 0" "0 < nslots bk" "nslots bk \<le> 254"
  using assms by (cases rule: bucket_cases; simp add: bucket_sizes_def nslots_def)+

lemma slot_end:
  assumes "j < nslots bk" shows "32 + j * slot_bytes bk + slot_bytes bk \<le> 4096"
proof -
  have "Suc j * slot_bytes bk \<le> nslots bk * slot_bytes bk" using assms by (intro mult_le_mono1) simp
  also have "\<dots> \<le> 4064" by (simp add: nslots_def)
  finally show ?thesis by simp
qed

lemma page_disjoint:
  assumes "i + n \<le> k" "k + l \<le> 4096" "0 < n"
  shows "disjoint_blocks (s + of_nat i) n (s + of_nat k) l" "disjoint_blocks (s + of_nat k) l (s + of_nat i) n"
proof -
  define d where "d = k - i"
  have k: "k = i + d" "n \<le> d" "d + l \<le> 4096" using assms by (simp_all add: d_def)
  have e: "(s + of_nat k) - (s + of_nat i) = (of_nat d :: u64)" "(s + of_nat i) - (s + of_nat k) = - (of_nat d :: u64)"
    unfolding k(1) by simp_all
  have u: "unat (of_nat d :: u64) = d" using k(3) by simp
  then have "of_nat d \<noteq> (0 :: u64)" using assms(3) k(2) by auto
  then have "unat (0 - of_nat d :: u64) + unat (of_nat d - 0 :: u64) = 2 ^ 64" using unat_neg_diff [of 0 "of_nat d"] by simp
  then have "l \<le> unat (- (of_nat d :: u64))" using u k(3) by simp
  then show "disjoint_blocks (s + of_nat i) n (s + of_nat k) l" "disjoint_blocks (s + of_nat k) l (s + of_nat i) n"
    unfolding disjoint_blocks_def e using u k(2) by auto
qed

lemma slot_other:
  assumes bk: "bk < 8" and j: "j < nslots bk" "k < nslots bk" "j \<noteq> k"
  shows "disjoint_blocks (slot s bk j) (slot_bytes bk) (slot s bk k) (slot_bytes bk)"
proof -
  define z where "z = slot_bytes bk"
  have gap: "32 + i * z + z \<le> 32 + l * z" if "i < l" for i l
    using mult_le_mono1 [of "Suc i" l z] that by simp
  have z: "0 < z" using bucket_size(1) [OF bk] by (simp add: z_def)
  show ?thesis
  proof (cases "j < k")
    case True
    show ?thesis unfolding slot_def
      by (rule page_disjoint(1)) (use gap [OF True] slot_end [OF j(2)] z in \<open>simp_all add: z_def\<close>)
  next
    case False
    then have "k < j" using j(3) by simp
    show ?thesis unfolding slot_def
      by (rule page_disjoint(2)) (use gap [OF \<open>k < j\<close>] slot_end [OF j(1)] z in \<open>simp_all add: z_def\<close>)
  qed
qed

lemma slot_inj:
  assumes "bk < 8" "j < nslots bk" "k < nslots bk" "slot s bk j = slot s bk k"
  shows "j = k"
  using slot_other [OF assms(1-3), of s] assms(4) bucket_size(1) [OF assms(1)] by (cases "j = k") (auto simp: disjoint_blocks_def)

lemma slots_disjoint:
  assumes "bk < 8" "p \<in> slots s bk" "q \<in> slots s bk" "p \<noteq> q"
  shows "disjoint_blocks p (slot_bytes bk) q (slot_bytes bk)"
  using assms slot_other unfolding slots_def by blast

lemma finite_slots: "finite (slots s bk)" "card (slots s bk) \<le> nslots bk"
  using card_image_le [of "{..<nslots bk}" "slot s bk"] by (simp_all add: slots_def)

text \<open>Blocks inside blocks, and reads across writes.\<close>

lemma disjoint_mono:
  assumes "disjoint_blocks a n b k" "n' \<le> n" "k' \<le> k"
  shows "disjoint_blocks a n' b k'"
  using assms by (auto simp: disjoint_blocks_def)

lemma header_disjoint:
  assumes "bk < 8" "p \<in> slots s bk" "i + n \<le> 32" "0 < n"
  shows "disjoint_blocks (s + of_nat i) n p (slot_bytes bk)" "disjoint_blocks p (slot_bytes bk) (s + of_nat i) n"
proof -
  obtain j where j: "j < nslots bk" "p = slot s bk j" using assms(2) by (auto simp: slots_def)
  show "disjoint_blocks (s + of_nat i) n p (slot_bytes bk)" "disjoint_blocks p (slot_bytes bk) (s + of_nat i) n"
    unfolding j(2) slot_def by (rule page_disjoint; use assms slot_end [OF j(1)] in simp)+
qed

lemma rd_wr_mixed:
  shows "disjoint_blocks a 8 b 8 \<Longrightarrow> rd64 (wr64 h a v) b = rd64 h b"
    "disjoint_blocks a 4 b 8 \<Longrightarrow> rd64 (wr32 h a u) b = rd64 h b"
    "disjoint_blocks a 8 b 4 \<Longrightarrow> rd32 (wr64 h a v) b = rd32 h b"
    "disjoint_blocks a 4 b 4 \<Longrightarrow> rd32 (wr32 h a u) b = rd32 h b"
  by (rule acc64.rd_wr_fun_disjoint acc32.rd_wr_fun_disjoint, assumption, erule acc64.wr_outside acc32.wr_outside)+

text \<open>The free list chained through the slots, and a slab.\<close>

primrec chained :: "mem \<Rightarrow> ptr \<Rightarrow> ptr list \<Rightarrow> bool" where
  "chained h v [] \<longleftrightarrow> v = 0"
| "chained h v (p # ps) \<longleftrightarrow> v = p \<and> chained h (rd64 h p) ps"

lemma chained_cong:
  assumes "\<forall>p \<in> set ps. rd64 h' p = rd64 h p"
  shows "chained h' v ps = chained h v ps"
  using assms by (induction ps arbitrary: v) auto

definition slab_ok :: "mem \<Rightarrow> ptr \<Rightarrow> nat \<Rightarrow> ptr list \<Rightarrow> bool" where
  "slab_ok h s bk fl \<longleftrightarrow> rd32 h (s + 16) = bucket_sizes ! bk \<and> rd32 h (s + 20) = of_nat (length fl)
   \<and> chained h (rd64 h (s + 8)) fl \<and> distinct fl \<and> set fl \<subseteq> slots s bk"

lemma slab_okD:
  assumes "slab_ok h s bk fl"
  shows "rd32 h (s + 16) = bucket_sizes ! bk" "rd32 h (s + 20) = of_nat (length fl)" "chained h (rd64 h (s + 8)) fl"
    "distinct fl" "set fl \<subseteq> slots s bk"
  using assms by (simp_all add: slab_ok_def)

lemma free_count:
  assumes "bk < 8" "slab_ok h s bk fl"
  shows "length fl \<le> 254" "rd32 h (s + 20) = 0 \<longleftrightarrow> fl = []"
proof -
  have "length fl = card (set fl)" using slab_okD(4) [OF assms(2)] by (simp add: distinct_card)
  also have "\<dots> \<le> card (slots s bk)" using slab_okD(5) [OF assms(2)] finite_slots(1) by (rule card_mono [rotated])
  finally show l: "length fl \<le> 254" using finite_slots(2) bucket_size(5) [OF assms(1)] le_trans by blast
  have "unat (of_nat (length fl) :: u32) = length fl" using l by (simp add: unat_of_nat take_bit_eq_mod)
  then show "rd32 h (s + 20) = 0 \<longleftrightarrow> fl = []" using slab_okD(2) [OF assms(2)] by auto
qed

lemma slab_ok_cong:
  assumes "bk < 8" "page_aligned s" "\<forall>x. page_base x = s \<longrightarrow> h' x = h x"
  shows "slab_ok h' s bk fl = slab_ok h s bk fl"
proof -
  have b: "h' (s + of_nat i) = h (s + of_nat i)" if "i < 4096" for i
    using assms(3) page_plus(1) [of s i] assms(2) that by simp
  have r: "rd64 h' (s + of_nat i) = rd64 h (s + of_nat i)" "rd32 h' (s + of_nat i) = rd32 h (s + of_nat i)"
    if "i + 8 \<le> 4096" for i
  proof -
    have e: "h' (s + of_nat i + of_nat k) = h (s + of_nat i + of_nat k)" if "k < 8" for k
      using b [of "i + k"] that \<open>i + 8 \<le> 4096\<close> by (simp add: add.assoc)
    then show "rd64 h' (s + of_nat i) = rd64 h (s + of_nat i)" "rd32 h' (s + of_nat i) = rd32 h (s + of_nat i)"
      by (intro acc64.rd_cong acc32.rd_cong; simp)+
  qed
  have hd: "rd32 h' (s + 16) = rd32 h (s + 16)" "rd32 h' (s + 20) = rd32 h (s + 20)" "rd64 h' (s + 8) = rd64 h (s + 8)"
    using r(2) [of 16] r(2) [of 20] r(1) [of 8] by simp_all
  have "rd64 h' p = rd64 h p" if p: "p \<in> slots s bk" for p
  proof -
    obtain j where j: "j < nslots bk" "p = slot s bk j" using p by (auto simp: slots_def)
    show ?thesis unfolding j(2) slot_def by (rule r(1)) (use slot_end [OF j(1)] bucket_size(1) [OF assms(1)] in simp)
  qed
  then show ?thesis unfolding slab_ok_def hd using chained_cong [of fl h' h] by blast
qed

lemma header_apart:
  "disjoint_blocks (s + 8) 8 (s + 16 :: u64) 4" "disjoint_blocks (s + 8) 8 (s + 20 :: u64) 4"
  "disjoint_blocks (s + 20) 4 (s + 16 :: u64) 4" "disjoint_blocks (s + 20) 4 (s + 8 :: u64) 8" "disjoint_blocks (s + 16) 4 (s + 8 :: u64) 8"
  "disjoint_blocks (s + 16) 4 (s + 20 :: u64) 4" "disjoint_blocks s 8 (s + 16 :: u64) 4" "disjoint_blocks s 8 (s + 20 :: u64) 4"
  by (simp_all add: disjoint_blocks_def)

lemma slot_apart:
  assumes "bk < 8" "p \<in> slots s bk"
  shows "disjoint_blocks (s + 8) 8 p 8" "disjoint_blocks (s + 20) 4 p 8" "disjoint_blocks p 8 (s + 8) 8"
    "disjoint_blocks p 8 (s + 16) 4" "disjoint_blocks p 8 (s + 20) 4"
  using disjoint_mono [OF header_disjoint(1) [OF assms, of 8 8], of 8 8] disjoint_mono [OF header_disjoint(1) [OF assms, of 20 4], of 4 8]
    disjoint_mono [OF header_disjoint(2) [OF assms, of 8 8], of 8 8] disjoint_mono [OF header_disjoint(2) [OF assms, of 16 4], of 8 4]
    disjoint_mono [OF header_disjoint(2) [OF assms, of 20 4], of 8 4] bucket_size(1) [OF assms(1)]
  by simp_all

definition taken :: "mem \<Rightarrow> ptr \<Rightarrow> ptr \<Rightarrow> mem" where
  "taken h s p = wr32 (wr64 h (s + 8) (rd64 h p)) (s + 20) (rd32 h (s + 20) - 1)"

definition given :: "mem \<Rightarrow> ptr \<Rightarrow> ptr \<Rightarrow> mem" where
  "given h s p = wr32 (wr64 (wr64 h p (rd64 h (s + 8))) (s + 8) p) (s + 20) (rd32 h (s + 20) + 1)"

lemma slab_take:
  assumes bk: "bk < 8" and ok: "slab_ok h s bk (p # ps)"
  shows "slab_ok (taken h s p) s bk ps"
proof -
  note d = slab_okD [OF ok]
  have "rd64 (taken h s p) q = rd64 h q" if "q \<in> set ps" for q
    using slot_apart [OF bk, of q] d(5) that by (auto simp: taken_def rd_wr_mixed)
  moreover have "rd64 (taken h s p) (s + 8) = rd64 h p" by (simp add: taken_def rd_wr_mixed header_apart)
  ultimately have "chained (taken h s p) (rd64 (taken h s p) (s + 8)) ps" using d(3) chained_cong [of ps "taken h s p" h] by simp
  moreover have "rd32 (taken h s p) (s + 16) = bucket_sizes ! bk" using d(1) by (simp add: taken_def rd_wr_mixed header_apart)
  moreover have "rd32 (taken h s p) (s + 20) = of_nat (length ps)" using d(2) by (simp add: taken_def)
  ultimately show ?thesis using d(4,5) by (simp add: slab_ok_def)
qed

lemma slab_put:
  assumes bk: "bk < 8" and ok: "slab_ok h s bk fl" and p: "p \<in> slots s bk" "p \<notin> set fl"
  shows "slab_ok (given h s p) s bk (p # fl)"
proof -
  note d = slab_okD [OF ok]
  note a = slot_apart [OF bk p(1)]
  have same: "rd64 (given h s p) q = rd64 h q" if q: "q \<in> set fl" for q
  proof -
    have qs: "q \<in> slots s bk" "p \<noteq> q" using d(5) q p(2) by auto
    have "disjoint_blocks p 8 q 8" using disjoint_mono [OF slots_disjoint [OF bk p(1) qs], of 8 8] bucket_size(1) [OF bk] by simp
    then show ?thesis using slot_apart [OF bk qs(1)] by (simp add: given_def rd_wr_mixed)
  qed
  have "rd64 (given h s p) (s + 8) = p" by (simp add: given_def rd_wr_mixed header_apart)
  moreover have "rd64 (given h s p) p = rd64 h (s + 8)" using a by (simp add: given_def rd_wr_mixed)
  moreover have "chained (given h s p) (rd64 h (s + 8)) fl" using same chained_cong [of fl "given h s p" h] d(3) by blast
  ultimately have "chained (given h s p) (rd64 (given h s p) (s + 8)) (p # fl)" by simp
  moreover have "rd32 (given h s p) (s + 16) = bucket_sizes ! bk" using d(1) a by (simp add: given_def rd_wr_mixed header_apart)
  moreover have "rd32 (given h s p) (s + 20) = of_nat (length (p # fl))" using d(2) by (simp add: given_def)
  ultimately show ?thesis using d(4,5) p by (simp add: slab_ok_def)
qed

text \<open>The bytes these updates touch.\<close>

lemma taken_outside: "\<not> in_block s 32 x \<Longrightarrow> taken h s p x = h x"
proof -
  assume x: "\<not> in_block s 32 x"
  have "\<not> in_block (s + 8) 8 x" "\<not> in_block (s + 20) 4 x"
    using x in_block_sub [of s 8 8 x 32] in_block_sub [of s 20 4 x 32] by auto
  then show ?thesis by (simp add: taken_def acc32.wr_outside acc64.wr_outside)
qed

lemma given_outside: "\<not> in_block s 32 x \<Longrightarrow> \<not> in_block p 8 x \<Longrightarrow> given h s p x = h x"
proof -
  assume x: "\<not> in_block s 32 x" "\<not> in_block p 8 x"
  have "\<not> in_block (s + 8) 8 x" "\<not> in_block (s + 20) 4 x"
    using x in_block_sub [of s 8 8 x 32] in_block_sub [of s 20 4 x 32] by auto
  then show ?thesis using x by (simp add: given_def acc32.wr_outside acc64.wr_outside)
qed

subsection \<open>The state of the heap\<close>

text \<open>
  \<open>used\<close> gives every block in use with the bytes it may use. A small block is a slot off the
  free list of its slab, a large one a run of whole pages that are no slabs. A slot of a slab that
  is not in use is on the slab's free list.
\<close>

definition large :: "'a slab_machine_scheme \<Rightarrow> (ptr \<rightharpoonup> nat) \<Rightarrow> ptr \<Rightarrow> nat \<Rightarrow> bool" where
  "large m sl p n \<longleftrightarrow> page_aligned p \<and> 4096 \<le> n \<and> n mod 4096 = 0 \<and> (\<forall>x. in_block p n x \<longrightarrow> in_heap m x \<and> sl (page_base x) = None)"

definition heap_inv :: "'a slab_machine_scheme \<Rightarrow> (ptr \<rightharpoonup> nat) \<Rightarrow> (ptr \<rightharpoonup> nat) \<Rightarrow> (ptr \<Rightarrow> ptr list) \<Rightarrow> (ptr \<rightharpoonup> nat) \<Rightarrow> bool" where
  "heap_inv m L sl fr used \<longleftrightarrow> heap_mapped m L \<and> length (buckets m) = 8
   \<and> (\<forall>bk < 8. buckets m ! bk \<noteq> 0 \<longrightarrow> sl (buckets m ! bk) = Some bk)
   \<and> (\<forall>s bk. sl s = Some bk \<longrightarrow> page_aligned s \<and> in_heap m s \<and> bk < 8 \<and> slab_ok (hmem m) s bk (fr s))
   \<and> (\<forall>p n. used p = Some n \<longrightarrow>
        (case sl (page_base p) of
           Some bk \<Rightarrow> p \<in> slots (page_base p) bk \<and> p \<notin> set (fr (page_base p)) \<and> n = slot_bytes bk
         | None \<Rightarrow> large m sl p n))
   \<and> (\<forall>p n q k x. used p = Some n \<and> used q = Some k \<and> large m sl p n \<and> large m sl q k \<and> in_block p n x \<and> in_block q k x \<longrightarrow> p = q)
   \<and> (\<forall>s bk p. sl s = Some bk \<and> p \<in> slots s bk \<longrightarrow> p \<in> set (fr s) \<or> used p \<noteq> None)"

lemma heap_invD:
  assumes "heap_inv m L sl fr used"
  shows "heap_mapped m L" "length (buckets m) = 8"
    "bk < 8 \<Longrightarrow> buckets m ! bk \<noteq> 0 \<Longrightarrow> sl (buckets m ! bk) = Some bk"
    "sl s = Some bk \<Longrightarrow> page_aligned s" "sl s = Some bk \<Longrightarrow> in_heap m s" "sl s = Some bk \<Longrightarrow> bk < 8"
    "sl s = Some bk \<Longrightarrow> slab_ok (hmem m) s bk (fr s)"
    "used p = Some n \<Longrightarrow> sl (page_base p) = Some bk \<Longrightarrow> p \<in> slots (page_base p) bk \<and> p \<notin> set (fr (page_base p)) \<and> n = slot_bytes bk"
    "used p = Some n \<Longrightarrow> sl (page_base p) = None \<Longrightarrow> large m sl p n"
    "used p = Some n \<Longrightarrow> used q = Some k \<Longrightarrow> large m sl p n \<Longrightarrow> large m sl q k \<Longrightarrow> in_block p n x \<Longrightarrow> in_block q k x \<Longrightarrow> p = q"
    "sl s = Some bk \<Longrightarrow> p \<in> slots s bk \<Longrightarrow> p \<notin> set (fr s) \<Longrightarrow> used p \<noteq> None"
proof -
  note i = assms [unfolded heap_inv_def]
  have lv: "used p = Some n \<Longrightarrow> (case sl (page_base p) of
           Some bk \<Rightarrow> p \<in> slots (page_base p) bk \<and> p \<notin> set (fr (page_base p)) \<and> n = slot_bytes bk
         | None \<Rightarrow> large m sl p n)" for p n
    using i by blast
  show "heap_mapped m L" "length (buckets m) = 8"
    "bk < 8 \<Longrightarrow> buckets m ! bk \<noteq> 0 \<Longrightarrow> sl (buckets m ! bk) = Some bk"
    "sl s = Some bk \<Longrightarrow> page_aligned s" "sl s = Some bk \<Longrightarrow> in_heap m s" "sl s = Some bk \<Longrightarrow> bk < 8"
    "sl s = Some bk \<Longrightarrow> slab_ok (hmem m) s bk (fr s)"
    "used p = Some n \<Longrightarrow> used q = Some k \<Longrightarrow> large m sl p n \<Longrightarrow> large m sl q k \<Longrightarrow> in_block p n x \<Longrightarrow> in_block q k x \<Longrightarrow> p = q"
    "sl s = Some bk \<Longrightarrow> p \<in> slots s bk \<Longrightarrow> p \<notin> set (fr s) \<Longrightarrow> used p \<noteq> None"
    using i by blast+
  show "used p = Some n \<Longrightarrow> sl (page_base p) = Some bk \<Longrightarrow> p \<in> slots (page_base p) bk \<and> p \<notin> set (fr (page_base p)) \<and> n = slot_bytes bk"
    using lv [of p n] by simp
  show "used p = Some n \<Longrightarrow> sl (page_base p) = None \<Longrightarrow> large m sl p n" using lv [of p n] by simp
qed

lemma slot_in_page:
  assumes "page_aligned s" "p \<in> slots s bk" "in_block p (slot_bytes bk) x"
  shows "page_base x = s" "page_base p = s"
proof -
  obtain j where j: "j < nslots bk" "p = s + of_nat (32 + j * slot_bytes bk)" using assms(2) by (auto simp: slots_def slot_def)
  have "in_block s 4096 x" by (rule in_block_sub [OF assms(3) [unfolded j(2)] slot_end [OF j(1)]]) simp
  then show "page_base x = s" by (simp add: in_page_iff [OF assms(1)])
  have "0 < slot_bytes bk" using assms(3) by (auto simp: in_block_def)
  then have "32 + j * slot_bytes bk < 4096" using slot_end [OF j(1)] by simp
  then show "page_base p = s" unfolding j(2) using page_plus(1) [of s "32 + j * slot_bytes bk"] assms(1) by simp
qed

lemma slot_self:
  assumes "page_aligned s" "bk < 8" "p \<in> slots s bk"
  shows "in_block p (slot_bytes bk) p" "page_base p = s"
proof -
  show i: "in_block p (slot_bytes bk) p" using bucket_size(1) [OF assms(2)] by (simp add: in_block_def)
  show "page_base p = s" by (rule slot_in_page(2) [OF assms(1,3) i])
qed

text \<open>Blocks in use never overlap, and lie in the window.\<close>

lemma used_disjoint:
  assumes inv: "heap_inv m L sl fr used" and p: "used p = Some n" and q: "used q = Some k" and x: "in_block p n x" "in_block q k x"
  shows "p = q"
proof -
  have pb: "page_base x = page_base p \<and> sl (page_base x) = Some bk" if "sl (page_base p) = Some bk" "used p = Some n" "in_block p n x" for p n bk
    using slot_in_page [OF heap_invD(4) [OF inv that(1)], of p bk x] heap_invD(8) [OF inv that(2,1)] that by simp
  have lg: "sl (page_base x) = None" if "sl (page_base p) = None" "used p = Some n" "in_block p n x" for p n
    using heap_invD(9) [OF inv that(2,1)] that(3) by (simp add: large_def)
  show ?thesis
  proof (cases "sl (page_base p)")
    case None
    then have "sl (page_base q) = None" using lg [OF None p x(1)] pb [OF _ q x(2)] by (cases "sl (page_base q)") auto
    then show ?thesis using heap_invD(10) [OF inv p q heap_invD(9) [OF inv p None] heap_invD(9) [OF inv q] x] by blast
  next
    case (Some bk)
    note P = pb [OF Some p x(1)]
    then obtain bk' where q': "sl (page_base q) = Some bk'" using lg [OF _ q x(2)] by (cases "sl (page_base q)") auto
    note Q = pb [OF q' q x(2)]
    have eq: "page_base q = page_base p" "bk' = bk" using P Q by auto
    show ?thesis
    proof (rule ccontr)
      assume "p \<noteq> q"
      then have "disjoint_blocks p (slot_bytes bk) q (slot_bytes bk)"
        using slots_disjoint [OF heap_invD(6) [OF inv Some]] heap_invD(8) [OF inv p Some] heap_invD(8) [OF inv q q'] eq by metis
      then show False using in_block_disjoint x heap_invD(8) [OF inv p Some] heap_invD(8) [OF inv q q'] eq by metis
    qed
  qed
qed

lemma used_in_heap:
  assumes inv: "heap_inv m L sl fr used" and p: "used p = Some n" and x: "in_block p n x"
  shows "in_heap m x"
proof (cases "sl (page_base p)")
  case None
  then show ?thesis using heap_invD(9) [OF inv p None] x by (simp add: large_def)
next
  case (Some bk)
  note s = heap_invD(4,5) [OF inv Some] heap_invD(8) [OF inv p Some]
  have "page_base x = page_base p" using slot_in_page(1) [OF s(1), of p bk x] s(3) x by blast
  then have "page_base x = page_base (page_base p)" by simp
  then show ?thesis by (rule in_heap_page [OF heap_mappedD(2) [OF heap_invD(1) [OF inv]] _ s(2)])
qed

lemma storedD:
  assumes "stored m L h m'"
  shows "heap_mapped m' L" "hmem m' = h" "in_heap m' x = in_heap m x" "buckets m' = buckets m" "heap_only m m'"
    "free_frames m' = free_frames m" "large m' sl p n = large m sl p n" "heap_virtual_top m' = heap_virtual_top m"
proof -
  obtain mm where m': "m' = m\<lparr>pmem := mm\<rparr>" using assms by (auto simp: stored_def)
  show "heap_mapped m' L" "hmem m' = h" using assms by (simp_all add: stored_def)
  have ih: "in_heap m' x = in_heap m x" for x by (simp add: m' in_heap_def)
  show "in_heap m' x = in_heap m x" "buckets m' = buckets m" "heap_virtual_top m' = heap_virtual_top m" by (simp_all add: m' in_heap_def)
  show "heap_only m m'" unfolding m' by (rule heap_only_updates)
  have "free_byte m' x = free_byte m x" for x by (rule free_byte_cong) (simp add: m')
  then show "free_frames m' = free_frames m" by (simp add: free_frames_def m')
  show "large m' sl p n = large m sl p n" by (simp add: large_def ih)
qed

lemma stored_trans:
  assumes "stored m L h m1" "stored m1 L h' m2" shows "stored m L h' m2"
  using assms unfolding stored_def by (elim conjE exE, intro conjI exI) simp_all

lemma heap_offset:
  assumes "heap_mapped m L" "page_aligned s" "in_heap m s" "i < 4096"
  shows "in_heap m (s + of_nat i)" "unat (page_off (s + of_nat i)) = i"
proof -
  show "unat (page_off (s + of_nat i)) = i" using page_plus(3) [of s i] assms(2,4) by simp
  have "page_base (s + of_nat i) = page_base s" using page_plus(1) [of s i] assms(2,4) by simp
  then show "in_heap m (s + of_nat i)" using in_heap_page [OF heap_mappedD(2) [OF assms(1)]] assms(3) by blast
qed

lemma slab_fields:
  assumes "heap_mapped m L" "page_aligned s" "in_heap m s"
  shows "in_heap m (s + 8)" "in_heap m (s + 16)" "in_heap m (s + 20)"
    "unat (page_off (s + 8)) = 8" "unat (page_off (s + 16)) = 16" "unat (page_off (s + 20)) = 20"
  using heap_offset [OF assms, of 8] heap_offset [OF assms, of 16] heap_offset [OF assms, of 20] by simp_all

lemma slot_field:
  assumes "heap_mapped m L" "page_aligned s" "in_heap m s" "bk < 8" "p \<in> slots s bk"
  shows "in_heap m p" "unat (page_off p) + 8 \<le> 4096"
proof -
  obtain j where j: "j < nslots bk" "p = s + of_nat (32 + j * slot_bytes bk)" using assms(5) by (auto simp: slots_def slot_def)
  have "32 + j * slot_bytes bk + 16 \<le> 4096" using slot_end [OF j(1)] bucket_size(1) [OF assms(4)] by simp
  then show "in_heap m p" "unat (page_off p) + 8 \<le> 4096"
    unfolding j(2) using heap_offset [OF assms(1-3), of "32 + j * slot_bytes bk"] by simp_all
qed

lemma take_slot_spec:
  assumes hm: "heap_mapped m L" and s: "page_aligned s" "in_heap m s" "bk < 8" and ok: "slab_ok (hmem m) s bk (p # ps)"
  shows "\<exists>m'. take_slot s m = Some (p, m') \<and> stored m L (taken (hmem m) s p) m'"
proof -
  note f = slab_fields [OF hm s(1,2)]
  have p: "rd64 (hmem m) (s + 8) = p" "p \<in> slots s bk" using slab_okD(3,5) [OF ok] by simp_all
  note g = slot_field [OF hm s p(2)]
  have 1: "load64 (free_list s) m = Some p" using load_heap(1) [OF hm f(1)] f(4) p(1) by (simp add: free_list_def)
  have 2: "load64 p m = Some (rd64 (hmem m) p)" using load_heap(1) [OF hm g(1)] g(2) by simp
  obtain m1 where 3: "store64 (free_list s) (rd64 (hmem m) p) m = Some m1" "stored m L (wr64 (hmem m) (s + 8) (rd64 (hmem m) p)) m1"
    using store_heap(1) [OF hm f(1), of "rd64 (hmem m) p"] f(4) by (auto simp: free_list_def)
  note hm1 = storedD(1) [OF 3(2)] and f1 = f(3) [folded storedD(3) [OF 3(2)]]
  have r: "rd32 (hmem m1) (s + 20) = rd32 (hmem m) (s + 20)" by (simp add: storedD(2) [OF 3(2)] rd_wr_mixed header_apart)
  have 4: "load32 (slots_free s) m1 = Some (rd32 (hmem m) (s + 20))"
    using load_heap(2) [OF hm1 f1] f(6) r by (simp add: slots_free_def)
  obtain m2 where 5: "store32 (slots_free s) (rd32 (hmem m) (s + 20) - 1) m1 = Some m2" "stored m1 L (taken (hmem m) s p) m2"
    using store_heap(2) [OF hm1 f1, of "rd32 (hmem m) (s + 20) - 1"] f(6)
    by (auto simp: slots_free_def taken_def storedD(2) [OF 3(2)])
  show ?thesis using 1 2 3(1) 4 5 stored_trans [OF 3(2)] by (simp add: take_slot_def)
qed

text \<open>A store into the window keeps the invariant when the slabs stay well formed.\<close>

lemma heap_inv_stored:
  assumes inv: "heap_inv m L sl fr used" and st: "stored m L h m'"
    and ok: "\<forall>s bk. sl s = Some bk \<longrightarrow> slab_ok h s bk (fr' s)"
    and us: "\<forall>p n bk. used' p = Some n \<longrightarrow> sl (page_base p) = Some bk \<longrightarrow> p \<in> slots (page_base p) bk \<and> p \<notin> set (fr' (page_base p)) \<and> n = slot_bytes bk"
      "\<forall>p n. used' p = Some n \<longrightarrow> sl (page_base p) = None \<longrightarrow> used p = Some n"
    and ex: "\<forall>s bk p. sl s = Some bk \<longrightarrow> p \<in> slots s bk \<longrightarrow> p \<notin> set (fr' s) \<longrightarrow> used' p \<noteq> None"
  shows "heap_inv m' L sl fr' used'"
proof -
  note d = storedD [OF st]
  have lg: "used p = Some n" if u: "used' p = Some n" "large m sl p n" for p n
  proof -
    have "in_block p n p" using u(2) by (simp add: large_def in_block_def)
    then have "sl (page_base p) = None" using u(2) unfolding large_def by blast
    then show ?thesis using us(2) u(1) by blast
  qed
  show ?thesis
    unfolding heap_inv_def d(4) d(2) d(3) d(7)
  proof (intro conjI allI impI; (elim conjE)?)
    show "heap_mapped m' L" by (rule d)
    show "length (buckets m) = 8" by (rule heap_invD(2) [OF inv])
    show "sl (buckets m ! bk) = Some bk" if "bk < 8" "buckets m ! bk \<noteq> 0" for bk using heap_invD(3) [OF inv that] .
    show "page_aligned s" "in_heap m s" "bk < 8" if "sl s = Some bk" for s bk using heap_invD(4-6) [OF inv that] .
    show "slab_ok h s bk (fr' s)" if "sl s = Some bk" for s bk using ok that by blast
    show "case sl (page_base p) of None \<Rightarrow> large m sl p n
         | Some bk \<Rightarrow> p \<in> slots (page_base p) bk \<and> p \<notin> set (fr' (page_base p)) \<and> n = slot_bytes bk"
      if "used' p = Some n" for p n
    proof (cases "sl (page_base p)")
      case None
      then show ?thesis using us(2) that heap_invD(9) [OF inv _ None] by simp
    qed (use us(1) that in simp)
    show "p = q" if "used' p = Some n" "used' q = Some k" "large m sl p n" "large m sl q k" "in_block p n x" "in_block q k x" for p n q k x
      using heap_invD(10) [OF inv lg [OF that(1,3)] lg [OF that(2,4)] that(3-6)] .
    show "p \<in> set (fr' s) \<or> used' p \<noteq> None" if "sl s = Some bk" "p \<in> slots s bk" for s bk p using ex that by blast
  qed
qed

text \<open>Bytes of blocks in use lie outside slab headers.\<close>

lemma used_not_header:
  assumes inv: "heap_inv m L sl fr used" and s: "sl s = Some bk" and q: "used q = Some n" and x: "in_block q n x"
  shows "\<not> in_block s 32 x"
proof
  assume h: "in_block s 32 x"
  have al: "page_aligned s" by (rule heap_invD(4) [OF inv s])
  have xs: "page_base x = s" using in_block_mono [OF h, of 4096] in_page_iff [OF al] by simp
  show False
  proof (cases "sl (page_base q)")
    case None
    then show False using heap_invD(9) [OF inv q None] x xs s by (auto simp: large_def)
  next
    case (Some b)
    note u = heap_invD(8) [OF inv q Some]
    have "page_base q = s" using slot_in_page(1) [OF heap_invD(4) [OF inv Some], of q b x] u x xs by simp
    then have "q \<in> slots s b" "b < 8" using u heap_invD(6) [OF inv Some] by simp_all
    then have "disjoint_blocks (s + of_nat 0) 32 q (slot_bytes b)" by (intro header_disjoint(1)) simp_all
    then show False using in_block_disjoint [OF _ h] x u by simp
  qed
qed

definition kept :: "'a slab_machine_scheme \<Rightarrow> (ptr \<rightharpoonup> nat) \<Rightarrow> 'a slab_machine_scheme \<Rightarrow> bool" where
  "kept m used m' \<longleftrightarrow> (\<forall>q n x. used q = Some n \<and> in_block q n x \<longrightarrow> hmem m' x = hmem m x)"

lemma take_inv:
  assumes inv: "heap_inv m L sl fr used" and s: "sl s = Some bk" and fl: "fr s = p # ps" and st: "stored m L (taken (hmem m) s p) m'"
  shows "used p = None" "heap_inv m' L sl (fr(s := ps)) (used(p \<mapsto> slot_bytes bk))" "kept m used m'" "page_base p = s"
proof -
  note i = heap_invD(4-7) [OF inv s]
  have ok: "slab_ok (hmem m) s bk (p # ps)" using i(4) fl by simp
  note d = slab_okD [OF ok]
  have p: "p \<in> slots s bk" using d(5) by simp
  show pb: "page_base p = s" by (rule slot_self(2) [OF i(1,3) p])
  show n: "used p = None"
  proof (rule ccontr)
    assume "used p \<noteq> None"
    then obtain n where "used p = Some n" by blast
    then show False using heap_invD(8) [OF inv _, of p n bk] s pb fl by simp
  qed
  have out: "taken (hmem m) s p x = hmem m x" if "page_base x \<noteq> s" for x
    using taken_outside [of s x] in_block_mono [of s 32 x 4096] in_page_iff [OF i(1), of x] that by auto
  have oks: "slab_ok (taken (hmem m) s p) t b ((fr(s := ps)) t)" if t: "sl t = Some b" for t b
  proof (cases "t = s")
    case True
    then show ?thesis using slab_take [OF i(3) ok] s t by simp
  next
    case False
    then have "\<forall>x. page_base x = t \<longrightarrow> taken (hmem m) s p x = hmem m x" using out by blast
    from slab_ok_cong [OF heap_invD(6,4) [OF inv t] this] show ?thesis using heap_invD(7) [OF inv t] False by simp
  qed
  show "heap_inv m' L sl (fr(s := ps)) (used(p \<mapsto> slot_bytes bk))"
  proof (rule heap_inv_stored [OF inv st]; (intro allI impI)?)
    show "slab_ok (taken (hmem m) s p) t b ((fr(s := ps)) t)" if "sl t = Some b" for t b by (rule oks [OF that])
    show "q \<in> slots (page_base q) b \<and> q \<notin> set ((fr(s := ps)) (page_base q)) \<and> n = slot_bytes b"
      if "(used(p \<mapsto> slot_bytes bk)) q = Some n" "sl (page_base q) = Some b" for q n b
      using that heap_invD(8) [OF inv, of q n b] p pb s d(4) fl by (cases "q = p") auto
    show "used q = Some n" if "(used(p \<mapsto> slot_bytes bk)) q = Some n" "sl (page_base q) = None" for q n
      using that pb s by (cases "q = p") auto
    show "(used(p \<mapsto> slot_bytes bk)) q \<noteq> None" if "sl t = Some b" "q \<in> slots t b" "q \<notin> set ((fr(s := ps)) t)" for t b q
      using heap_invD(11) [OF inv that(1,2)] that(3) fl by (cases "q = p"; cases "t = s") auto
  qed
  show "kept m used m'"
    unfolding kept_def storedD(2) [OF st] using taken_outside used_not_header [OF inv s] by blast
qed

subsection \<open>Building a slab\<close>

lemma each_cong: "(\<And>i. i \<in> set is \<Longrightarrow> f i = g i) \<Longrightarrow> each f is m = each g is m"
proof (induction "is" arbitrary: m)
  case (Cons i "is")
  then have "each f is = each g is" "f i = g i" by (auto intro!: ext)
  then show ?case by simp
qed simp

lemma each_store64:
  assumes "heap_mapped m L" "\<forall>i \<in> set is. in_heap m (f i) \<and> unat (page_off (f i)) + 8 \<le> 4096"
  shows "\<exists>m'. each (\<lambda>i. store64 (f i) (g i)) is m = Some m' \<and> stored m L (fold (\<lambda>i h. wr64 h (f i) (g i)) is (hmem m)) m'"
  using assms
proof (induction "is" arbitrary: m)
  case Nil
  have "\<exists>mm. m = m\<lparr>pmem := mm\<rparr>" by (rule exI [of _ "pmem m"]) simp
  then show ?case using Nil by (simp add: stored_def)
next
  case (Cons i "is")
  obtain m1 where m1: "store64 (f i) (g i) m = Some m1" "stored m L (wr64 (hmem m) (f i) (g i)) m1"
    using store_heap(1) [OF Cons.prems(1), of "f i" "g i"] Cons.prems(2) by auto
  note d = storedD [OF m1(2)]
  obtain m2 where m2: "each (\<lambda>i. store64 (f i) (g i)) is m1 = Some m2" "stored m1 L (fold (\<lambda>i h. wr64 h (f i) (g i)) is (hmem m1)) m2"
    using Cons.IH [OF d(1)] Cons.prems(2) d(3) by auto
  show ?case using m1(1) m2(1) stored_trans [OF m1(2) m2(2)] d(2) by simp
qed

lemma fold_wr64_other:
  assumes "\<forall>i \<in> set is. disjoint_blocks (f i) 8 a 8"
  shows "rd64 (fold (\<lambda>i h. wr64 h (f i) (g i)) is h) a = rd64 h a"
  using assms by (induction "is" arbitrary: h) (auto simp: rd_wr_mixed)

lemma fold_wr64_at:
  assumes "\<forall>i \<in> set is. \<forall>j \<in> set is. i \<noteq> j \<longrightarrow> disjoint_blocks (f i) 8 (f j) 8" "distinct is" "j \<in> set is"
  shows "rd64 (fold (\<lambda>i h. wr64 h (f i) (g i)) is h) (f j) = g j"
  using assms
proof (induction "is" arbitrary: h)
  case (Cons i "is")
  show ?case
  proof (cases "j = i")
    case True
    then have "\<forall>k \<in> set is. disjoint_blocks (f k) 8 (f j) 8" using Cons.prems by auto
    then show ?thesis using True by (simp add: fold_wr64_other)
  next
    case False
    then show ?thesis using Cons by simp
  qed
qed simp

lemma fold_wr64_outside:
  assumes "\<forall>i \<in> set is. \<not> in_block (f i) 8 x"
  shows "fold (\<lambda>i h. wr64 h (f i) (g i)) is h x = h x"
  using assms by (induction "is" arbitrary: h) (auto simp: acc64.wr_outside)

definition chain_mem :: "ptr \<Rightarrow> nat \<Rightarrow> mem \<Rightarrow> mem" where
  "chain_mem s bk h = wr64 (fold (\<lambda>i h. wr64 h (slot s bk i) (slot s bk (Suc i))) [0..<nslots bk - 1] h) (slot s bk (nslots bk - 1)) 0"

definition slot_list :: "ptr \<Rightarrow> nat \<Rightarrow> ptr list" where
  "slot_list s bk = map (slot s bk) [0..<nslots bk]"

lemma chain_mem_at:
  assumes bk: "bk < 8" and j: "j < nslots bk"
  shows "rd64 (chain_mem s bk h) (slot s bk j) = (if Suc j < nslots bk then slot s bk (Suc j) else 0)"
proof -
  have dj: "disjoint_blocks (slot s bk i) 8 (slot s bk k) 8" if "i < nslots bk" "k < nslots bk" "i \<noteq> k" for i k
    using disjoint_mono [OF slot_other [OF bk that], of 8 8] bucket_size(1) [OF bk] by simp
  show ?thesis
  proof (cases "Suc j < nslots bk")
    case True
    have "rd64 (fold (\<lambda>i h. wr64 h (slot s bk i) (slot s bk (Suc i))) [0..<nslots bk - 1] h) (slot s bk j) = slot s bk (Suc j)"
      by (rule fold_wr64_at) (use dj True in auto)
    then show ?thesis using True dj [of "nslots bk - 1" j] by (simp add: chain_mem_def rd_wr_mixed)
  next
    case False
    then have "j = nslots bk - 1" using j by simp
    then show ?thesis using False by (simp add: chain_mem_def)
  qed
qed

lemma chain_mem_outside:
  assumes bk: "bk < 8" and x: "\<And>j. j < nslots bk \<Longrightarrow> \<not> in_block (slot s bk j) (slot_bytes bk) x"
  shows "chain_mem s bk h x = h x"
proof -
  have "\<not> in_block (slot s bk j) 8 x" if "j < nslots bk" for j
    using x [OF that] in_block_mono [of "slot s bk j" 8 x "slot_bytes bk"] bucket_size(1) [OF bk] by auto
  then show ?thesis using bucket_size(4) [OF bk] unfolding chain_mem_def
    by (subst acc64.wr_outside) (auto intro!: fold_wr64_outside)
qed

lemma chain_mem_chained:
  assumes bk: "bk < 8"
  shows "chained (chain_mem s bk h) (slot s bk 0) (slot_list s bk)"
proof -
  have "d < nslots bk \<Longrightarrow> chained (chain_mem s bk h) (slot s bk (nslots bk - Suc d)) (map (slot s bk) [nslots bk - Suc d..<nslots bk])" for d
  proof (induction d)
    case 0
    have "[nslots bk - Suc 0..<nslots bk] = [nslots bk - Suc 0]" using 0 by (simp add: upt_rec)
    then show ?case using chain_mem_at [OF bk, of "nslots bk - Suc 0" s h] 0 by simp
  next
    case (Suc d)
    let ?k = "nslots bk - Suc (Suc d)"
    have k: "Suc ?k = nslots bk - Suc d" "?k < nslots bk" "Suc ?k < nslots bk" using Suc.prems by simp_all
    have "[?k..<nslots bk] = ?k # [nslots bk - Suc d..<nslots bk]" using k by (metis upt_conv_Cons)
    then show ?case using chain_mem_at [OF bk k(2), of s h] k(1,3) Suc by simp
  qed
  from this [of "nslots bk - 1"] show ?thesis using bucket_size(4) [OF bk] by (simp add: slot_list_def)
qed

lemma slot_list:
  assumes "bk < 8"
  shows "distinct (slot_list s bk)" "set (slot_list s bk) = slots s bk" "length (slot_list s bk) = nslots bk"
    "slot_list s bk = slot s bk 0 # map (slot s bk) [1..<nslots bk]"
proof -
  have "inj_on (slot s bk) {0..<nslots bk}" using slot_inj [OF assms] by (auto simp: inj_on_def)
  then show "distinct (slot_list s bk)" by (simp add: slot_list_def distinct_map)
  show "set (slot_list s bk) = slots s bk" by (auto simp: slot_list_def slots_def)
  show "length (slot_list s bk) = nslots bk" by (simp add: slot_list_def)
  show "slot_list s bk = slot s bk 0 # map (slot s bk) [1..<nslots bk]"
    using bucket_size(4) [OF assms] by (simp add: slot_list_def upt_conv_Cons)
qed

text \<open>The 32-bit arithmetic of \<^verbatim>\<open>kmalloc\<close> on slot numbers does not overflow.\<close>

lemma slots_source:
  assumes "bk < 8"
  shows "(ucast PAGE_SIZE - ucast sizeof_slab_header) div bucket_sizes ! bk = (of_nat (nslots bk) :: u32)"
  using assms by (cases rule: bucket_cases) (simp_all add: bucket_sizes_def nslots_def PAGE_SIZE_def sizeof_slab_header_def)

lemma slot_source:
  assumes "bk < 8" "j \<le> 254"
  shows "s + sizeof_slab_header + ucast (of_nat j * bucket_sizes ! bk :: u32) = slot s bk j"
proof -
  have "j * slot_bytes bk \<le> 254 * 2048" using mult_le_mono [OF assms(2) bucket_size(2) [OF assms(1)]] .
  then have "unat (of_nat j * bucket_sizes ! bk :: u32) = j * slot_bytes bk"
    using assms(2) by (simp add: unat_word_ariths unat_of_nat take_bit_eq_mod)
  then have "ucast (of_nat j * bucket_sizes ! bk :: u32) = (of_nat (j * slot_bytes bk) :: u64)" by (metis of_nat_unat)
  then show ?thesis by (simp add: slot_def sizeof_slab_header_def)
qed

lemma chain_slots_spec:
  assumes hm: "heap_mapped m L" and s: "page_aligned s" "in_heap m s" "bk < 8"
  shows "\<exists>m'. chain_slots (s + sizeof_slab_header) (bucket_sizes ! bk) (of_nat (nslots bk)) m = Some m' \<and> stored m L (chain_mem s bk (hmem m)) m'"
proof -
  define n where "n = nslots bk - 1"
  have n: "nslots bk = Suc n" "Suc n \<le> 254" using bucket_size(4,5) [OF s(3)] by (simp_all add: n_def)
  have last: "of_nat (nslots bk) - 1 = (of_nat n :: u32)" using n by simp
  have un: "unat (of_nat n :: u32) = n" using n(2) by (simp add: unat_of_nat take_bit_eq_mod)
  have sl: "in_heap m (slot s bk i) \<and> unat (page_off (slot s bk i)) + 8 \<le> 4096" if "i < nslots bk" for i
    using slot_field [OF hm s, of "slot s bk i"] that by (simp add: slots_def)
  have body: "each (\<lambda>i. store64 (s + sizeof_slab_header + ucast (of_nat i * bucket_sizes ! bk)) (s + sizeof_slab_header + ucast ((of_nat i + 1) * bucket_sizes ! bk)))
      [0..<n] m = each (\<lambda>i. store64 (slot s bk i) (slot s bk (Suc i))) [0..<n] m"
  proof -
    have "i < n \<Longrightarrow> store64 (s + sizeof_slab_header + ucast (of_nat i * bucket_sizes ! bk)) (s + sizeof_slab_header + ucast ((of_nat i + 1) * bucket_sizes ! bk))
        = store64 (slot s bk i) (slot s bk (Suc i))" for i
      using slot_source [OF s(3), of i s] slot_source [OF s(3), of "Suc i" s] n(2) by (simp add: add.commute)
    then show ?thesis by (intro each_cong) simp_all
  qed
  obtain m1 where m1: "each (\<lambda>i. store64 (slot s bk i) (slot s bk (Suc i))) [0..<n] m = Some m1"
      "stored m L (fold (\<lambda>i h. wr64 h (slot s bk i) (slot s bk (Suc i))) [0..<n] (hmem m)) m1"
    using each_store64 [OF hm, of "[0..<n]" "slot s bk" "\<lambda>i. slot s bk (Suc i)"] sl n(1) by auto
  note d = storedD [OF m1(2)]
  obtain m2 where "store64 (slot s bk n) 0 m1 = Some m2" "stored m1 L (wr64 (hmem m1) (slot s bk n) 0) m2"
    using store_heap(1) [OF d(1), of "slot s bk n" 0] sl [of n] d(3) n(1) by auto
  then show ?thesis
    using body m1 stored_trans [OF m1(2)] slot_source [OF s(3), of n s] n d(2)
    by (auto simp: chain_slots_def last un chain_mem_def n_def [symmetric])
qed

definition slab_mem :: "ptr \<Rightarrow> nat \<Rightarrow> ptr \<Rightarrow> mem \<Rightarrow> mem" where
  "slab_mem s bk nxt h =
     chain_mem s bk (wr64 (wr64 (wr32 (wr32 h (s + 16) (bucket_sizes ! bk)) (s + 20) (of_nat (nslots bk))) s nxt) (s + 8) (slot s bk 0))"

lemma slab_mem_ok:
  assumes bk: "bk < 8" shows "slab_ok (slab_mem s bk nxt h) s bk (slot_list s bk)"
proof -
  define g where "g = wr64 (wr64 (wr32 (wr32 h (s + 16) (bucket_sizes ! bk)) (s + 20) (of_nat (nslots bk))) s nxt) (s + 8) (slot s bk 0)"
  have out: "chain_mem s bk g (s + of_nat i) = g (s + of_nat i)" if "i < 32" for i
  proof (rule chain_mem_outside [OF bk])
    fix j assume "j < nslots bk"
    then have "disjoint_blocks (s + of_nat 0) 32 (slot s bk j) (slot_bytes bk)" by (intro header_disjoint(1) [OF bk]) (simp_all add: slots_def)
    then show "\<not> in_block (slot s bk j) (slot_bytes bk) (s + of_nat i)" using disjoint_not_in_block [of s 32] that by simp
  qed
  have "rd64 (chain_mem s bk g) (s + of_nat i) = rd64 g (s + of_nat i)" "rd32 (chain_mem s bk g) (s + of_nat i) = rd32 g (s + of_nat i)"
    if "i + 8 \<le> 32" for i
  proof -
    have e: "chain_mem s bk g (s + of_nat i + of_nat k) = g (s + of_nat i + of_nat k)" if "k < 8" for k
      using out [of "i + k"] that \<open>i + 8 \<le> 32\<close> by (simp add: add.assoc)
    then show "rd64 (chain_mem s bk g) (s + of_nat i) = rd64 g (s + of_nat i)" "rd32 (chain_mem s bk g) (s + of_nat i) = rd32 g (s + of_nat i)"
      by (intro acc64.rd_cong acc32.rd_cong; simp)+
  qed
  from this [of 8] this [of 16] this [of 20]
  have "rd32 (chain_mem s bk g) (s + 16) = bucket_sizes ! bk" "rd32 (chain_mem s bk g) (s + 20) = of_nat (nslots bk)"
      "rd64 (chain_mem s bk g) (s + 8) = slot s bk 0"
    by (simp_all add: g_def rd_wr_mixed header_apart)
  then show ?thesis
    using chain_mem_chained [OF bk, of s g] slot_list [OF bk, of s] by (simp add: slab_ok_def slab_mem_def g_def [symmetric])
qed

lemma slab_mem_outside:
  assumes bk: "bk < 8" and al: "page_aligned s" and x: "page_base x \<noteq> s" shows "slab_mem s bk nxt h x = h x"
proof -
  have "\<not> in_block s 4096 x" using x in_page_iff [OF al] by simp
  then have o: "\<not> in_block (s + of_nat i) n x" if "i + n \<le> 4096" for i n using in_block_sub [of s i n x 4096] that by auto
  have "\<not> in_block (slot s bk j) (slot_bytes bk) x" if "j < nslots bk" for j unfolding slot_def by (rule o [OF slot_end [OF that]])
  from chain_mem_outside [OF bk this] show ?thesis
    using o [of 0 8] o [of 8 8] o [of 16 4] o [of 20 4] by (simp add: slab_mem_def acc32.wr_outside acc64.wr_outside)
qed

lemma new_slab_spec:
  assumes hm: "heap_mapped m L" and s: "page_aligned s" "in_heap m s" "bk < 8"
  shows "\<exists>m1. new_slab bk s m = Some (m1\<lparr>buckets := (buckets m)[bk := s]\<rparr>) \<and> stored m L (slab_mem s bk (buckets m ! bk) (hmem m)) m1"
proof -
  note f = slab_fields [OF hm s(1,2)]
  have s0: "unat (page_off s) = 0" using s(1) by simp
  obtain m1 where 1: "store32 (slot_size s) (bucket_sizes ! bk) m = Some m1" "stored m L (wr32 (hmem m) (s + 16) (bucket_sizes ! bk)) m1"
    using store_heap(2) [OF hm f(2), of "bucket_sizes ! bk"] f(5) by (auto simp: slot_size_def)
  note d1 = storedD [OF 1(2)]
  obtain m2 where 2: "store32 (slots_free s) (of_nat (nslots bk)) m1 = Some m2" "stored m1 L (wr32 (hmem m1) (s + 20) (of_nat (nslots bk))) m2"
    using store_heap(2) [OF d1(1), of "s + 20" "of_nat (nslots bk)"] f(3,6) d1(3) by (auto simp: slots_free_def)
  note d2 = storedD [OF 2(2)]
  obtain m3 where 3: "store64 (next_slab s) (buckets m2 ! bk) m2 = Some m3" "stored m2 L (wr64 (hmem m2) s (buckets m2 ! bk)) m3"
    using store_heap(1) [OF d2(1), of s "buckets m2 ! bk"] s(2) s0 d1(3) d2(3) by (auto simp: next_slab_def)
  note d3 = storedD [OF 3(2)]
  have first: "s + sizeof_slab_header = slot s bk 0" by (simp add: slot_def sizeof_slab_header_def)
  obtain m4 where 4: "store64 (free_list s) (s + sizeof_slab_header) m3 = Some m4" "stored m3 L (wr64 (hmem m3) (s + 8) (slot s bk 0)) m4"
    using store_heap(1) [OF d3(1), of "s + 8" "slot s bk 0"] f(1,4) d1(3) d2(3) d3(3) first by (auto simp: free_list_def)
  note d4 = storedD [OF 4(2)]
  obtain m5 where 5: "chain_slots (s + sizeof_slab_header) (bucket_sizes ! bk) (of_nat (nslots bk)) m4 = Some m5" "stored m4 L (chain_mem s bk (hmem m4)) m5"
    using chain_slots_spec [OF d4(1) s(1) _ s(3)] s(2) d1(3) d2(3) d3(3) d4(3) by auto
  have st: "stored m L (chain_mem s bk (hmem m4)) m5"
    using stored_trans [OF 1(2) stored_trans [OF 2(2) stored_trans [OF 3(2) stored_trans [OF 4(2) 5(2)]]]] .
  have "chain_mem s bk (hmem m4) = slab_mem s bk (buckets m ! bk) (hmem m)"
    by (simp add: slab_mem_def d1(2,4) d2(2,4) d3(2) d4(2))
  then show ?thesis using 1(1) 2(1) 3(1) 4(1) 5(1) st storedD(4) [OF st] slots_source [OF s(3)]
    by (auto simp: new_slab_def Let_def)
qed

text \<open>The heap depends on memory, the allocator's tree, the kernel's page tables and its own variables only.\<close>

lemma same_heap:
  assumes "pmem m' = pmem m" "pmm_buddy m' = pmm_buddy m" "hhdm_offset m' = hhdm_offset m" "kernel_pml4 m' = kernel_pml4 m"
    and top: "heap_virtual_top m' = heap_virtual_top m"
  shows "heap_mapped m' L = heap_mapped m L" "hmem m' = hmem m" "in_heap m' x = in_heap m x" "large m' sl p n = large m sl p n"
    "free_frames m' = free_frames m"
proof -
  note same = same_memory [OF assms(1-3)]
  have ih: "in_heap m' w = in_heap m w" for w by (simp add: in_heap_def top)
  have lc: "loc m' v = loc m v" for v by (simp add: loc_def PHYS_TO_VIRT_def virt_to_phys_walk same assms)
  show "in_heap m' x = in_heap m x" by (rule ih)
  show "hmem m' = hmem m" by (rule ext) (simp add: hmem_def ih lc assms)
  show "heap_mapped m' L = heap_mapped m L" by (simp add: heap_mapped_def ih lc owned_def same assms)
  show "large m' sl p n = large m sl p n" by (simp add: large_def ih)
  show "free_frames m' = free_frames m" by (rule same)
qed

lemma heap_mapped_buckets:
  fixes m :: "'a slab_machine_scheme" and bs
  defines "m' \<equiv> m\<lparr>buckets := bs\<rparr>"
  shows "heap_mapped m' L = heap_mapped m L" "hmem m' = hmem m" "in_heap m' x = in_heap m x" "large m' sl p n = large m sl p n"
    "free_frames m' = free_frames m"
  using same_heap [of m' m] by (simp_all add: m'_def)

subsection \<open>Allocation\<close>

text \<open>The pages an extension adds.\<close>

lemma extended_window:
  assumes ex: "extended m k m'" and z: "unat (heap_virtual_top m - HEAP) + 4096 * k \<le> zone"
  shows "in_heap m x \<Longrightarrow> in_heap m' x"
    "in_block (heap_virtual_top m) (4096 * k) x \<Longrightarrow> in_heap m' x \<and> \<not> in_heap m x"
proof -
  have t: "unat (heap_virtual_top m' - HEAP) = unat (heap_virtual_top m - HEAP) + 4096 * k"
    using ex top_plus [OF z] by (simp add: extended_def)
  then show "in_heap m x \<Longrightarrow> in_heap m' x" by (simp add: in_heap_def)
  assume "in_block (heap_virtual_top m) (4096 * k) x"
  then obtain i where i: "i < 4096 * k" "x = heap_virtual_top m + of_nat i" by (rule in_blockE)
  have "unat (x - HEAP) = unat (heap_virtual_top m - HEAP) + i" unfolding i(2) using top_plus [of "heap_virtual_top m" i] z i(1) by simp
  then show "in_heap m' x \<and> \<not> in_heap m x" using t i(1) by (simp add: in_heap_def)
qed

lemma extended_inv:
  assumes inv: "heap_inv m L sl fr used" and ex: "extended m k m'" and z: "unat (heap_virtual_top m - HEAP) + 4096 * k \<le> zone"
  shows "\<exists>L'. heap_inv m' L' sl fr used" "kept m used m'"
proof -
  obtain L' where L': "heap_mapped m' L'" using ex by (auto simp: extended_def)
  have e: "hmem m' = hmem m" "buckets m' = buckets m" using ex by (simp_all add: extended_def)
  show "kept m used m'" by (simp add: kept_def e)
  have up: "in_heap m x \<Longrightarrow> in_heap m' x" for x by (rule extended_window(1) [OF ex z])
  have lg: "large m sl p n" if u: "used p = Some n" "large m' sl p n" for p n
  proof -
    have "in_block p n p" using u(2) by (simp add: large_def in_block_def)
    then have "sl (page_base p) = None" using u(2) unfolding large_def by blast
    then show ?thesis by (rule heap_invD(9) [OF inv u(1)])
  qed
  have "heap_inv m' L' sl fr used"
    unfolding heap_inv_def e
  proof (intro conjI allI impI; (elim conjE)?)
    show "heap_mapped m' L'" by (rule L')
    show "length (buckets m) = 8" by (rule heap_invD(2) [OF inv])
    show "sl (buckets m ! bk) = Some bk" if "bk < 8" "buckets m ! bk \<noteq> 0" for bk using heap_invD(3) [OF inv that] .
    show "page_aligned s" "bk < 8" "slab_ok (hmem m) s bk (fr s)" if "sl s = Some bk" for s bk using heap_invD(4,6,7) [OF inv that] .
    show "in_heap m' s" if "sl s = Some bk" for s bk using up heap_invD(5) [OF inv that] .
    show "case sl (page_base p) of None \<Rightarrow> large m' sl p n
         | Some bk \<Rightarrow> p \<in> slots (page_base p) bk \<and> p \<notin> set (fr (page_base p)) \<and> n = slot_bytes bk"
      if "used p = Some n" for p n
    proof (cases "sl (page_base p)")
      case None
      then show ?thesis using heap_invD(9) [OF inv that None] up by (simp add: large_def)
    qed (use heap_invD(8) [OF inv that] in simp)
    show "p = q" if "used p = Some n" "used q = Some k" "large m' sl p n" "large m' sl q k" "in_block p n x" "in_block q k x" for p n q k x
      using heap_invD(10) [OF inv that(1,2) lg [OF that(1,3)] lg [OF that(2,4)] that(5,6)] .
    show "p \<in> set (fr s) \<or> used p \<noteq> None" if "sl s = Some bk" "p \<in> slots s bk" for s bk p using heap_invD(11) [OF inv that] by blast
  qed
  then show "\<exists>L'. heap_inv m' L' sl fr used" by blast
qed

text \<open>Nothing of the heap lies in the pages beyond the window.\<close>

lemma beyond_window:
  assumes inv: "heap_inv m L sl fr used" and x: "\<not> in_heap m x"
  shows "sl (page_base x) = None" "used q = Some n \<Longrightarrow> \<not> in_block q n x"
proof -
  note al = heap_mappedD(2) [OF heap_invD(1) [OF inv]]
  show "sl (page_base x) = None"
    using heap_invD(5) [OF inv, of "page_base x"] in_heap_page [OF al, of x "page_base x"] x by (cases "sl (page_base x)") auto
  show "used q = Some n \<Longrightarrow> \<not> in_block q n x" using used_in_heap [OF inv] x by blast
qed

lemma used_self:
  assumes inv: "heap_inv m L sl fr used" and p: "used p = Some n"
  shows "in_block p n p"
proof (cases "sl (page_base p)")
  case None
  then show ?thesis using heap_invD(9) [OF inv p None] by (simp add: large_def in_block_def)
next
  case (Some bk)
  then show ?thesis using heap_invD(8) [OF inv p Some] bucket_size(1) [OF heap_invD(6) [OF inv Some]] by (simp add: in_block_def)
qed

lemma large_block_inv:
  assumes inv: "heap_inv m L sl fr used" and ex: "extended m k m'" and k: "0 < k"
    and z: "unat (heap_virtual_top m - HEAP) + 4096 * k \<le> zone"
  shows "used (heap_virtual_top m) = None" "\<exists>L'. heap_inv m' L' sl fr (used(heap_virtual_top m \<mapsto> 4096 * k))"
    "used q = Some n \<Longrightarrow> in_block q n x \<Longrightarrow> \<not> in_block (heap_virtual_top m) (4096 * k) x"
proof -
  define T where "T = heap_virtual_top m"
  have al: "page_aligned T" using heap_mappedD(2) [OF heap_invD(1) [OF inv]] by (simp add: T_def)
  note w = extended_window [OF ex z, folded T_def]
  note b = beyond_window [OF inv]
  have T: "in_block T (4096 * k) T" using k by (simp add: in_block_def)
  have Tn: "sl (page_base T) = None" "used T = None" using b(1) w(2) [OF T] b(2) [of T T] used_self [OF inv] by fastforce+
  then show "used (heap_virtual_top m) = None" by (simp add: T_def)
  have apart: "\<not> in_block T (4096 * k) x" if "used q = Some n" "in_block q n x" for q n x using that b(2) w(2) by blast
  then show "used q = Some n \<Longrightarrow> in_block q n x \<Longrightarrow> \<not> in_block (heap_virtual_top m) (4096 * k) x" by (simp add: T_def)
  obtain L' where i: "heap_inv m' L' sl fr used" using extended_inv(1) [OF inv ex z] by blast
  have lgT: "large m' sl T (4096 * k)" using al k w(2) b(1) by (simp add: large_def)
  let ?u = "used(T \<mapsto> 4096 * k)"
  have "heap_inv m' L' sl fr ?u"
    unfolding heap_inv_def
  proof (intro conjI allI impI; (elim conjE)?)
    show "heap_mapped m' L'" "length (buckets m') = 8" by (rule heap_invD(1,2) [OF i])+
    show "sl (buckets m' ! bk) = Some bk" if "bk < 8" "buckets m' ! bk \<noteq> 0" for bk using heap_invD(3) [OF i that] .
    show "page_aligned s" "in_heap m' s" "bk < 8" "slab_ok (hmem m') s bk (fr s)" if "sl s = Some bk" for s bk using heap_invD(4-7) [OF i that] .
    show "case sl (page_base p) of None \<Rightarrow> large m' sl p n
         | Some bk \<Rightarrow> p \<in> slots (page_base p) bk \<and> p \<notin> set (fr (page_base p)) \<and> n = slot_bytes bk"
      if "?u p = Some n" for p n
      using heap_invD(8,9) [OF i, of p n] Tn(1) that lgT by (cases "p = T"; cases "sl (page_base p)") auto
    show "p = q" if u: "?u p = Some n" "?u q = Some l" "large m' sl p n" "large m' sl q l" "in_block p n x" "in_block q l x" for p n q l x
      using heap_invD(10) [OF i _ _ u(3-6)] apart u by (cases "p = T"; cases "q = T") auto
    show "p \<in> set (fr s) \<or> ?u p \<noteq> None" if "sl s = Some bk" "p \<in> slots s bk" for s bk p using heap_invD(11) [OF i that] by auto
  qed
  then show "\<exists>L'. heap_inv m' L' sl fr (used(heap_virtual_top m \<mapsto> 4096 * k))" unfolding T_def by blast
qed

lemma new_slab_inv:
  assumes inv: "heap_inv m L sl fr used" and s: "page_aligned s" "in_heap m s" "bk < 8" "sl s = None" "s \<noteq> 0"
    and un: "\<forall>q n x. used q = Some n \<and> in_block q n x \<longrightarrow> page_base x \<noteq> s"
    and st: "stored m L (slab_mem s bk nxt (hmem m)) m1" and m': "m' = m1\<lparr>buckets := (buckets m)[bk := s]\<rparr>"
  shows "heap_inv m' L (sl(s \<mapsto> bk)) (fr(s := slot_list s bk)) used" "kept m used m'"
proof -
  note d = storedD [OF st]
  have h: "hmem m' = slab_mem s bk nxt (hmem m)" "in_heap m' x = in_heap m x" "buckets m' = (buckets m)[bk := s]" "heap_mapped m' L" for x
    unfolding m' by (simp_all add: heap_mapped_buckets d(1-3))
  have out: "slab_mem s bk nxt (hmem m) x = hmem m x" if "page_base x \<noteq> s" for x by (rule slab_mem_outside [OF s(3,1) that])
  show "kept m used m'" unfolding kept_def h using out un by blast
  have pn: "page_base p \<noteq> s" if "used p = Some n" for p n using un used_self [OF inv that] that by blast
  have lg: "large m' (sl(s \<mapsto> bk)) p n \<longleftrightarrow> large m sl p n" if "used p = Some n" for p n
    unfolding large_def h using un that by auto
  show "heap_inv m' L (sl(s \<mapsto> bk)) (fr(s := slot_list s bk)) used"
    unfolding heap_inv_def h
  proof (intro conjI allI impI; (elim conjE)?)
    show "heap_mapped m' L" by (rule h)
    show "length ((buckets m)[bk := s]) = 8" using heap_invD(2) [OF inv] by simp
    show "(sl(s \<mapsto> bk)) ((buckets m)[bk := s] ! b) = Some b" if "b < 8" "(buckets m)[bk := s] ! b \<noteq> 0" for b
      using heap_invD(3) [OF inv that(1)] heap_invD(2) [OF inv] that s(4) by (cases "b = bk") auto
    fix t b assume t: "(sl(s \<mapsto> bk)) t = Some b"
    show "page_aligned t" "in_heap m t" "b < 8" using t s heap_invD(4-6) [OF inv, of t b] by (cases "t = s"; simp)+
    show "slab_ok (slab_mem s bk nxt (hmem m)) t b ((fr(s := slot_list s bk)) t)"
    proof (cases "t = s")
      case True
      then show ?thesis using slab_mem_ok [OF s(3)] t by simp
    next
      case False
      then have "\<forall>x. page_base x = t \<longrightarrow> slab_mem s bk nxt (hmem m) x = hmem m x" "sl t = Some b" using out t by auto
      from slab_ok_cong [OF heap_invD(6,4) [OF inv this(2)] this(1)] heap_invD(7) [OF inv this(2)] show ?thesis using False by simp
    qed
  next
    show "case (sl(s \<mapsto> bk)) (page_base p) of None \<Rightarrow> large m' (sl(s \<mapsto> bk)) p n
         | Some b \<Rightarrow> p \<in> slots (page_base p) b \<and> p \<notin> set ((fr(s := slot_list s bk)) (page_base p)) \<and> n = slot_bytes b"
      if "used p = Some n" for p n
      using pn [OF that] lg [OF that] heap_invD(8,9) [OF inv that] by (cases "sl (page_base p)") auto
    show "p = q" if "used p = Some n" "used q = Some k" "large m' (sl(s \<mapsto> bk)) p n" "large m' (sl(s \<mapsto> bk)) q k" "in_block p n x" "in_block q k x"
      for p n q k x
      using heap_invD(10) [OF inv that(1,2)] lg that by blast
    show "p \<in> set ((fr(s := slot_list s bk)) t) \<or> used p \<noteq> None" if "(sl(s \<mapsto> bk)) t = Some b" "p \<in> slots t b" for t b p
      using heap_invD(11) [OF inv, of t b p] that by (cases "t = s") (auto simp: slot_list_def slots_def)
  qed
qed

definition heap_ok :: "'a slab_machine_scheme \<Rightarrow> (ptr \<rightharpoonup> nat) \<Rightarrow> bool" where
  "heap_ok m used \<longleftrightarrow> (\<exists>L sl fr. heap_inv m L sl fr used)"

definition heap_room :: "'a slab_machine_scheme \<Rightarrow> nat \<Rightarrow> bool" where
  "heap_room m k \<longleftrightarrow> unat (heap_virtual_top m - HEAP) + 4096 * k \<le> zone"

definition pages_for :: "u64 \<Rightarrow> nat" where
  "pages_for sz = (if sz \<le> 2048 then 1 else (unat sz + 4095) div 4096)"

text \<open>What a request may use up: addresses of the zone and frames, four for each page of the heap.\<close>

definition spent :: "'a slab_machine_scheme \<Rightarrow> nat \<Rightarrow> 'a slab_machine_scheme \<Rightarrow> bool" where
  "spent m k m' \<longleftrightarrow> (\<forall>j. heap_room m (j + k) \<longrightarrow> heap_room m' j) \<and> card (free_frames m) \<le> 4 * k + card (free_frames m')"

lemma spent_trans: "spent m k m1 \<Longrightarrow> spent m1 l m2 \<Longrightarrow> spent m (k + l) m2"
proof -
  assume a: "spent m k m1" "spent m1 l m2"
  have "heap_room m2 j" if "heap_room m (j + (k + l))" for j
  proof -
    have "heap_room m ((j + l) + k)" using that by (simp add: ac_simps)
    then show ?thesis using a unfolding spent_def by blast
  qed
  then show ?thesis using a by (simp add: spent_def)
qed

lemma spent_mono: "spent m k m' \<Longrightarrow> k \<le> l \<Longrightarrow> spent m l m'"
proof -
  assume a: "spent m k m'" "k \<le> l"
  have "heap_room m (j + k)" if "heap_room m (j + l)" for j using that a(2) by (simp add: heap_room_def)
  then show ?thesis using a by (auto simp: spent_def)
qed

lemma stored_spent:
  assumes "stored m L h m'" shows "spent m 0 m'"
  using storedD(6,8) [OF assms] by (simp add: spent_def heap_room_def)

lemma extended_spent:
  assumes "extended m k m'" shows "spent m k m'"
proof -
  have e: "heap_virtual_top m' = heap_virtual_top m + of_nat (4096 * k)" "card (free_frames m) \<le> 4 * k + card (free_frames m')"
    using assms by (simp_all add: extended_def)
  have "heap_room m' j" if "heap_room m (j + k)" for j
    using that top_plus [of "heap_virtual_top m" "4096 * k"] by (simp add: heap_room_def e(1))
  then show ?thesis using e(2) by (simp add: spent_def)
qed

text \<open>What \<^verbatim>\<open>kmalloc\<close> promises: a block apart from all blocks in use, whose contents stay.\<close>

definition allocated :: "'a slab_machine_scheme \<Rightarrow> (ptr \<rightharpoonup> nat) \<Rightarrow> nat \<Rightarrow> u64 \<Rightarrow> ptr \<Rightarrow> nat \<Rightarrow> 'a slab_machine_scheme \<Rightarrow> bool" where
  "allocated m used K sz p n m' \<longleftrightarrow> p \<noteq> NULL \<and> unat p mod 16 = 0 \<and> unat sz \<le> n \<and> n < unat sz + 4096 \<and> (sz \<le> 2048 \<longrightarrow> n \<le> 2048) \<and> used p = None \<and> heap_ok m' (used(p \<mapsto> n))
   \<and> (\<forall>q k x. used q = Some k \<and> in_block q k x \<longrightarrow> \<not> in_block p n x) \<and> kept m used m' \<and> heap_only m m' \<and> spent m K m'"

lemma slot_aligned:
  assumes "bk < 8" "page_aligned s" "p \<in> slots s bk"
  shows "unat p mod 16 = 0"
proof -
  obtain j where j: "j < nslots bk" "p = s + of_nat (32 + j * slot_bytes bk)" using assms(3) by (auto simp: slots_def slot_def)
  have sz: "slot_bytes bk mod 16 = 0" using assms(1) by (cases rule: bucket_cases) (simp_all add: bucket_sizes_def)
  have o: "32 + j * slot_bytes bk < 4096" using slot_end [OF j(1)] bucket_size(1) [OF assms(1)] by simp
  obtain k where k: "unat s = 4096 * k" using assms(2) by (auto simp: page_aligned_iff)
  then have "unat s + 4096 \<le> 2 ^ 64" using unat_bound [of s] by simp
  then have "unat p = unat s + (32 + j * slot_bytes bk)" unfolding j(2) using o by (intro unat_add_no_wrap) simp
  moreover have "16 dvd unat s" unfolding k by simp
  moreover have "16 dvd j * slot_bytes bk" using sz by (simp add: dvd_mult mod_eq_0_iff_dvd)
  ultimately show ?thesis by (simp add: mod_eq_0_iff_dvd)
qed

lemma heap_not_null:
  assumes "heap_mapped m L" "in_heap m (page_base p)" shows "p \<noteq> 0"
proof
  assume "p = 0"
  then have "in_heap m 0" using assms(2) by (simp add: page_base_source)
  then show False using in_heap_zone [OF assms(1), of 0] by simp
qed

lemma take_allocated:
  assumes inv: "heap_inv m L sl fr used" and s: "sl s = Some bk" and fl: "fr s = p # ps" and sz: "unat sz \<le> slot_bytes bk"
  shows "\<exists>m'. take_slot s m = Some (p, m') \<and> allocated m used 0 sz p (slot_bytes bk) m'"
proof -
  note i = heap_invD(4-7) [OF inv s]
  have ok: "slab_ok (hmem m) s bk (p # ps)" using i(4) fl by simp
  obtain m' where m': "take_slot s m = Some (p, m')" "stored m L (taken (hmem m) s p) m'"
    using take_slot_spec [OF heap_invD(1) [OF inv] i(1-3) ok] by blast
  note t = take_inv [OF inv s fl m'(2)]
  have p: "p \<in> slots s bk" using slab_okD(5) [OF ok] by simp
  have "p \<noteq> 0" using heap_not_null [OF heap_invD(1) [OF inv]] t(4) i(2) by simp
  moreover have "\<not> in_block p (slot_bytes bk) x" if q: "used q = Some k" "in_block q k x" for q k x
  proof
    assume x: "in_block p (slot_bytes bk) x"
    have u: "(used(p \<mapsto> slot_bytes bk)) q = Some k" "(used(p \<mapsto> slot_bytes bk)) p = Some (slot_bytes bk)" using q(1) t(1) by auto
    have "q = p" by (rule used_disjoint [OF t(2) u q(2) x])
    then show False using q(1) t(1) by simp
  qed
  moreover have "slot_bytes bk < unat sz + 4096" using bucket_size(2) [OF i(3)] by simp
  moreover have "heap_ok m' (used(p \<mapsto> slot_bytes bk))" unfolding heap_ok_def using t(2) by blast
  ultimately have "allocated m used 0 sz p (slot_bytes bk) m'"
    unfolding allocated_def using slot_aligned [OF i(3,1) p] sz bucket_size(2) [OF i(3)] t(1,3) storedD(5) [OF m'(2)] stored_spent [OF m'(2)] by blast
  then show ?thesis using m'(1) by blast
qed

lemma allocated_trans:
  assumes "kept m used m1" "heap_only m m1" "spent m k m1" "allocated m1 used l sz p n m'" "k + l \<le> K"
  shows "allocated m used K sz p n m'"
proof -
  have "kept m used m'" using assms(1,4) unfolding allocated_def kept_def by auto
  moreover have "heap_only m m'" using assms(2,4) heap_only_trans unfolding allocated_def by blast
  moreover have "spent m K m'" using spent_mono [OF spent_trans [OF assms(3)] assms(5)] assms(4) unfolding allocated_def by blast
  ultimately show ?thesis using assms(4) unfolding allocated_def by simp
qed

text \<open>A fresh page becomes a slab whose first slot is handed out.\<close>

lemma new_slab_allocated:
  assumes inv: "heap_inv m L sl fr used" and ex: "extended m 1 m1" and z: "heap_room m 1"
    and bk: "bk < 8" and sz: "unat sz \<le> slot_bytes bk"
  shows "heap_virtual_top m \<noteq> 0"
    "\<exists>p m'. Option.bind (new_slab bk (heap_virtual_top m) m1) (take_slot (heap_virtual_top m)) = Some (p, m') \<and> allocated m used 1 sz p (slot_bytes bk) m'"
proof -
  define T where "T = heap_virtual_top m"
  have z': "unat (heap_virtual_top m - HEAP) + 4096 * 1 \<le> zone" using z by (simp add: heap_room_def)
  have al: "page_aligned T" using heap_mappedD(2) [OF heap_invD(1) [OF inv]] by (simp add: T_def)
  obtain L1 where i1: "heap_inv m1 L1 sl fr used" using extended_inv(1) [OF inv ex z'] by blast
  have k1: "kept m used m1" by (rule extended_inv(2) [OF inv ex z'])
  have ho1: "heap_only m m1" using ex by (simp add: extended_def)
  have T1: "in_heap m1 T" using extended_window(2) [OF ex z', of T] by (simp add: T_def in_block_def)
  have Tm: "\<not> in_heap m T" unfolding T_def by (rule heap_top_out)
  have slT: "sl T = None" using beyond_window(1) [OF inv Tm] al by simp
  have "T \<noteq> 0" using heap_not_null [OF heap_invD(1) [OF i1], of T] T1 al by simp
  then show "heap_virtual_top m \<noteq> 0" by (simp add: T_def)
  have un: "\<forall>q n x. used q = Some n \<and> in_block q n x \<longrightarrow> page_base x \<noteq> T"
    using used_in_heap [OF inv] in_heap_page [OF heap_mappedD(2) [OF heap_invD(1) [OF inv]], of T] Tm al by (metis page_base_aligned)
  obtain m2 where m2: "new_slab bk T m1 = Some (m2\<lparr>buckets := (buckets m1)[bk := T]\<rparr>)"
      "stored m1 L1 (slab_mem T bk (buckets m1 ! bk) (hmem m1)) m2"
    using new_slab_spec [OF heap_invD(1) [OF i1] al T1 bk] by blast
  define m3 where "m3 = m2\<lparr>buckets := (buckets m1)[bk := T]\<rparr>"
  note i3 = new_slab_inv [OF i1 al T1 bk slT \<open>T \<noteq> 0\<close> un m2(2) m3_def]
  have ho3: "heap_only m1 m3" unfolding m3_def by (rule heap_only_trans [OF storedD(5) [OF m2(2)] heap_only_updates(3)])
  have "heap_virtual_top m3 = heap_virtual_top m1" "free_frames m3 = free_frames m1"
    unfolding m3_def using storedD(6,8) [OF m2(2)] by (simp_all add: heap_mapped_buckets(5))
  then have sp3: "spent m1 0 m3" by (simp add: spent_def heap_room_def)
  have "(fr(T := slot_list T bk)) T = slot T bk 0 # map (slot T bk) [1..<nslots bk]" using slot_list(4) [OF bk] by simp
  from take_allocated [OF i3(1) _ this sz] obtain m' where
    m': "take_slot T m3 = Some (slot T bk 0, m')" "allocated m3 used 0 sz (slot T bk 0) (slot_bytes bk) m'" by auto
  have "allocated m used 1 sz (slot T bk 0) (slot_bytes bk) m'"
    using allocated_trans [OF k1 ho1 extended_spent [OF ex] allocated_trans [OF i3(2) ho3 sp3 m'(2)]] by simp
  then show "\<exists>p m'. Option.bind (new_slab bk (heap_virtual_top m) m1) (take_slot (heap_virtual_top m)) = Some (p, m') \<and> allocated m used 1 sz p (slot_bytes bk) m'"
    using m2(1) m'(1) by (auto simp: T_def m3_def)
qed

lemma bucket_idx:
  "get_bucket_idx sz = Some bk \<Longrightarrow> bk < 8 \<and> unat sz \<le> slot_bytes bk \<and> sz \<le> 2048"
  "get_bucket_idx sz = None \<longleftrightarrow> \<not> sz \<le> 2048"
proof -
  have u: "sz \<le> ucast (bucket_sizes ! i) \<longleftrightarrow> unat sz \<le> slot_bytes i" for i
  proof -
    have "slot_bytes i < 2 ^ LENGTH(32)" by (rule unsigned_less)
    then have "slot_bytes i < 2 ^ 64" by simp
    then show ?thesis by (simp add: word_le_nat_alt unsigned_ucast_eq take_bit_nat_eq_self)
  qed
  have t: "sz \<le> 2048 \<longleftrightarrow> unat sz \<le> 2048" by (simp add: word_le_nat_alt)
  show "get_bucket_idx sz = Some bk \<Longrightarrow> bk < 8 \<and> unat sz \<le> slot_bytes bk \<and> sz \<le> 2048"
    using bucket_size(2) [of bk] by (auto simp: get_bucket_idx_def find_idx_Some u t intro: le_trans)
  have "get_bucket_idx sz = None \<longleftrightarrow> (\<forall>i < 8. \<not> unat sz \<le> slot_bytes i)" by (simp add: get_bucket_idx_def find_idx_None u)
  also have "\<dots> \<longleftrightarrow> \<not> unat sz \<le> 2048"
  proof
    assume "\<forall>i < 8. \<not> unat sz \<le> slot_bytes i"
    then have "\<not> unat sz \<le> slot_bytes 7" by simp
    then show "\<not> unat sz \<le> 2048" by (simp add: bucket_sizes_def)
  next
    assume "\<not> unat sz \<le> 2048"
    then show "\<forall>i < 8. \<not> unat sz \<le> slot_bytes i" using bucket_size(2) le_trans by blast
  qed
  finally show "get_bucket_idx sz = None \<longleftrightarrow> \<not> sz \<le> 2048" by (simp add: t)
qed

lemma pages_needed:
  assumes "unat sz + 4095 < 2 ^ 64"
  shows "unat ((sz + PAGE_SIZE - 1) div PAGE_SIZE) = (unat sz + 4095) div 4096"
proof -
  have "sz + PAGE_SIZE - 1 = sz + of_nat 4095" by (simp add: PAGE_SIZE_def)
  then have "unat (sz + PAGE_SIZE - 1) = unat sz + 4095" using unat_add_no_wrap [OF assms] by (simp only:)
  then show ?thesis by (simp add: unat_div PAGE_SIZE_def)
qed

lemma kmalloc_small:
  assumes inv: "heap_inv m L sl fr used" and bk: "get_bucket_idx sz = Some bk" "sz \<noteq> 0" and z: "heap_room m 1"
  shows "kmalloc sz m = Some (p, m') \<Longrightarrow> \<exists>n. allocated m used 1 sz p n m'"
    "4 \<le> card (free_frames m) \<Longrightarrow> \<exists>p m'. kmalloc sz m = Some (p, m')"
proof -
  note b = bucket_idx(1) [OF bk(1)]
  define s where "s = buckets m ! bk"
  define n where "n = (if s = 0 then Some 0 else load32 (slots_free s) m)"
  have km: "kmalloc sz m = Option.bind n (\<lambda>n.
          if n = 0 then
            Option.bind (heap_extend 1 m) (\<lambda>(page, m1).
            if page = NULL then Some (NULL, m1)
            else Option.bind (new_slab bk page m1) (take_slot page))
          else take_slot s m)"
    using bk unfolding kmalloc_def s_def n_def by (simp add: Let_def)
  have n: "\<exists>k. n = Some k \<and> (k \<noteq> 0 \<longrightarrow> sl s = Some bk \<and> fr s \<noteq> [])"
  proof (cases "s = 0")
    case False
    have sl: "sl s = Some bk" using heap_invD(3) [OF inv] b False by (simp add: s_def)
    note i = heap_invD(4-7) [OF inv sl]
    note f = slab_fields [OF heap_invD(1) [OF inv] i(1,2)]
    have "load32 (slots_free s) m = Some (rd32 (hmem m) (s + 20))"
      using load_heap(2) [OF heap_invD(1) [OF inv] f(3)] f(6) by (simp add: slots_free_def)
    then show ?thesis using False sl free_count(2) [OF i(3,4)] by (simp add: n_def)
  qed (simp add: n_def)
  then obtain k where k: "n = Some k" "k \<noteq> 0 \<Longrightarrow> sl s = Some bk \<and> fr s \<noteq> []" by blast
  have z': "unat (heap_virtual_top m - HEAP) + 4096 * 1 \<le> zone" using z by (simp add: heap_room_def)
  note lp = heap_extend_loop_spec [OF heap_invD(1) [OF inv] z']
  show "\<exists>n. allocated m used 1 sz p n m'" if got: "kmalloc sz m = Some (p, m')"
  proof (cases "k = 0")
    case True
    obtain ok m1 where e: "heap_extend_loop 1 m = Some (ok, m1)"
      using got True k(1) by (auto simp: km heap_extend_def bind_eq_Some_conv)
    have x: "ok" "extended m 1 m1" using lp(1) [OF e] by blast+
    note na = new_slab_allocated [OF inv x(2) z conjunct1 [OF b] conjunct1 [OF conjunct2 [OF b]]]
    show ?thesis using got True k(1) e x(1) na by (auto simp: km heap_extend_def)
  next
    case False
    then obtain q ps where "sl s = Some bk" "fr s = q # ps" using k(2) by (meson neq_Nil_conv)
    from take_allocated [OF inv this, of sz] b obtain m2 where m2: "take_slot s m = Some (q, m2)" "allocated m used 0 sz q (slot_bytes bk) m2" by blast
    have "kept m used m" "heap_only m m" "spent m 0 m"
      using heap_only_updates(1) [OF mem_only_updates(1)] by (simp_all add: kept_def spent_def)
    from allocated_trans [OF this m2(2), of 1] show ?thesis using m2(1) got False k(1) by (auto simp: km)
  qed
  show "\<exists>p m'. kmalloc sz m = Some (p, m')" if c: "4 \<le> card (free_frames m)"
  proof (cases "k = 0")
    case True
    obtain m1 where e: "heap_extend_loop 1 m = Some (True, m1)" using lp(2) c by auto
    have x: "extended m 1 m1" using lp(1) [OF e] by blast
    note na = new_slab_allocated [OF inv x z conjunct1 [OF b] conjunct1 [OF conjunct2 [OF b]]]
    show ?thesis using True k(1) e na by (auto simp: km heap_extend_def)
  next
    case False
    then obtain q ps where "sl s = Some bk" "fr s = q # ps" using k(2) by (meson neq_Nil_conv)
    from take_allocated [OF inv this, of sz] b show ?thesis using False k(1) by (auto simp: km)
  qed
qed

lemma kmalloc_large:
  assumes inv: "heap_inv m L sl fr used" and big: "get_bucket_idx sz = None" and z: "heap_room m (pages_for sz)"
  shows "kmalloc sz m = Some (p, m') \<Longrightarrow> \<exists>n. allocated m used (pages_for sz) sz p n m'"
    "4 * pages_for sz \<le> card (free_frames m) \<Longrightarrow> \<exists>p m'. kmalloc sz m = Some (p, m')"
proof -
  define k where "k = pages_for sz"
  have sz: "\<not> sz \<le> 2048" using big by (simp add: bucket_idx(2))
  then have nz: "sz \<noteq> 0" by auto
  have us: "2048 < unat sz" using sz by (simp add: word_le_nat_alt)
  have k: "k = (unat sz + 4095) div 4096" using sz by (simp add: k_def pages_for_def)
  have kz: "unat sz \<le> 4096 * k" "0 < k" "4096 * k < unat sz + 4096" using us by (simp_all add: k) 
  have z': "unat (heap_virtual_top m - HEAP) + 4096 * k \<le> zone" using z by (simp add: heap_room_def k_def)
  have "unat ((sz + PAGE_SIZE - 1) div PAGE_SIZE) = k" unfolding k by (rule pages_needed) (use kz(1) z' in simp)
  then have km: "kmalloc sz m = map_option (\<lambda>(ok, m'). (if ok then heap_virtual_top m else NULL, m')) (heap_extend_loop k m)"
    using nz big by (simp add: kmalloc_def heap_extend_def)
  note lp = heap_extend_loop_spec [OF heap_invD(1) [OF inv] z']
  show "\<exists>p m'. kmalloc sz m = Some (p, m')" if "4 * pages_for sz \<le> card (free_frames m)"
    using lp(2) that by (auto simp: km k_def)
  assume got: "kmalloc sz m = Some (p, m')"
  then obtain ok where e: "heap_extend_loop k m = Some (ok, m')" by (auto simp: km)
  have x: "ok" "extended m k m'" using lp(1) [OF e] by blast+
  then have p: "p = heap_virtual_top m" using got e by (simp add: km)
  note lb = large_block_inv [OF inv x(2) kz(2) z', folded p]
  have al: "page_aligned p" using heap_mappedD(2) [OF heap_invD(1) [OF inv]] by (simp add: p)
  obtain j where "unat p = 4096 * j" using al by (auto simp: page_aligned_iff)
  then have "unat p mod 16 = 0" by simp
  moreover have "p \<noteq> 0"
  proof
    assume "p = 0"
    then have "unat ((0 :: u64) - HEAP) + 4096 * k \<le> zone" using z' p by simp
    then show False by simp
  qed
  moreover have "heap_ok m' (used(p \<mapsto> 4096 * k))" unfolding heap_ok_def using lb(2) by blast
  moreover have "kept m used m'" "heap_only m m'" using extended_inv(2) [OF inv x(2) z'] x(2) by (simp_all add: extended_def)
  ultimately have "allocated m used (pages_for sz) sz p (4096 * k) m'" 
    unfolding allocated_def using lb(1,3) kz(1,3) sz extended_spent [OF x(2)] unfolding k_def by blast
  then show "\<exists>n. allocated m used (pages_for sz) sz p n m'" by blast
qed

lemma kmalloc_spec:
  assumes ok: "heap_ok m used" and sz: "sz \<noteq> 0" and z: "heap_room m (pages_for sz)"
  shows "kmalloc sz m = Some (p, m') \<Longrightarrow> \<exists>n. allocated m used (pages_for sz) sz p n m'"
    "4 * pages_for sz \<le> card (free_frames m) \<Longrightarrow> \<exists>p m'. kmalloc sz m = Some (p, m')"
proof -
  obtain L sl fr where inv: "heap_inv m L sl fr used" using ok by (auto simp: heap_ok_def)
  have one: "pages_for sz = 1" if "get_bucket_idx sz = Some bk" for bk using bucket_idx(1) [OF that] by (simp add: pages_for_def)
  show "kmalloc sz m = Some (p, m') \<Longrightarrow> \<exists>n. allocated m used (pages_for sz) sz p n m'"
    using kmalloc_small(1) [OF inv _ sz] kmalloc_large(1) [OF inv _ z] one z by (cases "get_bucket_idx sz") auto
  show "4 * pages_for sz \<le> card (free_frames m) \<Longrightarrow> \<exists>p m'. kmalloc sz m = Some (p, m')"
    using kmalloc_small(2) [OF inv _ sz] kmalloc_large(2) [OF inv _ z] one z by (cases "get_bucket_idx sz") auto
qed

subsection \<open>Release\<close>

lemma kfree_given:
  assumes hm: "heap_mapped m L" and s: "s = page_base p" "in_heap m s" "in_heap m p" "unat (page_off p) + 8 \<le> 4096"
    and dj: "disjoint_blocks p 8 (s + 20) 4" and p: "p \<noteq> 0"
  shows "\<exists>m'. kfree p m = Some m' \<and> (m' = m \<and> rd32 (hmem m) (s + 16) = 0 \<or> stored m L (given (hmem m) s p) m')"
proof -
  have al: "page_aligned s" by (simp add: s(1))
  note f = slab_fields [OF hm al s(2)]
  have 1: "load32 (slot_size s) m = Some (rd32 (hmem m) (s + 16))" using load_heap(2) [OF hm f(2)] f(5) by (simp add: slot_size_def)
  have 2: "load64 (free_list s) m = Some (rd64 (hmem m) (s + 8))" using load_heap(1) [OF hm f(1)] f(4) by (simp add: free_list_def)
  show ?thesis
  proof (cases "rd32 (hmem m) (s + 16) = 0")
    case True
    then show ?thesis using 1 p by (simp add: kfree_def s(1) Let_def)
  next
    case False
    obtain m1 where 3: "store64 p (rd64 (hmem m) (s + 8)) m = Some m1" "stored m L (wr64 (hmem m) p (rd64 (hmem m) (s + 8))) m1"
      using store_heap(1) [OF hm s(3,4)] by blast
    note d1 = storedD [OF 3(2)]
    obtain m2 where 4: "store64 (free_list s) p m1 = Some m2" "stored m1 L (wr64 (hmem m1) (s + 8) p) m2"
      using store_heap(1) [OF d1(1), of "s + 8" p] f(1,4) d1(3) by (auto simp: free_list_def)
    note d2 = storedD [OF 4(2)]
    have i2: "in_heap m2 (s + 20)" using f(3) d1(3) d2(3) by simp
    have "rd32 (hmem m2) (s + 20) = rd32 (hmem m) (s + 20)" by (simp add: d1(2) d2(2) rd_wr_mixed header_apart dj)
    then have 5: "load32 (slots_free s) m2 = Some (rd32 (hmem m) (s + 20))"
      using load_heap(2) [OF d2(1) i2] f(6) by (simp add: slots_free_def)
    obtain m3 where 6: "store32 (slots_free s) (rd32 (hmem m) (s + 20) + 1) m2 = Some m3" "stored m2 L (given (hmem m) s p) m3"
      using store_heap(2) [OF d2(1) i2, of "rd32 (hmem m) (s + 20) + 1"] f(6) by (auto simp: slots_free_def given_def d1(2) d2(2))
    have "stored m L (given (hmem m) s p) m3" using stored_trans [OF 3(2) stored_trans [OF 4(2) 6(2)]] .
    then show ?thesis using 1 2 3(1) 4(1) 5 6(1) p False by (simp add: kfree_def s(1) [symmetric] Let_def)
  qed
qed

text \<open>What \<^verbatim>\<open>kfree\<close> promises: the block is no longer in use, the other blocks keep their contents.\<close>

definition released :: "'a slab_machine_scheme \<Rightarrow> (ptr \<rightharpoonup> nat) \<Rightarrow> ptr \<Rightarrow> 'a slab_machine_scheme \<Rightarrow> bool" where
  "released m used p m' \<longleftrightarrow> heap_ok m' (used(p := None)) \<and> kept m (used(p := None)) m' \<and> heap_only m m' \<and> spent m 0 m'"

lemma used_block:
  assumes inv: "heap_inv m L sl fr used" and p: "used p = Some n"
  shows "in_heap m p" "in_heap m (page_base p)" "p \<noteq> 0"
proof -
  show ip: "in_heap m p" by (rule used_in_heap [OF inv p used_self [OF inv p]])
  show ins: "in_heap m (page_base p)" by (rule in_heap_page [OF heap_mappedD(2) [OF heap_invD(1) [OF inv]] _ ip]) simp
  show "p \<noteq> 0" by (rule heap_not_null [OF heap_invD(1) [OF inv] ins])
qed

lemma kfree_small:
  assumes inv: "heap_inv m L sl fr used" and p: "used p = Some n" and s_def: "s = page_base p" and s: "sl s = Some bk"
  shows "\<exists>m'. kfree p m = Some m' \<and> released m used p m'"
proof -
  note hm = heap_invD(1) [OF inv]
  note ip = used_block(1) [OF inv p] and ins = used_block(2) [OF inv p, folded s_def] and p0 = used_block(3) [OF inv p]
  note i = heap_invD(4-7) [OF inv s]
  have u: "p \<in> slots s bk" "p \<notin> set (fr s)" "n = slot_bytes bk" using heap_invD(8) [OF inv p] s by (simp_all add: s_def)
  have "rd32 (hmem m) (s + 16) \<noteq> 0" using slab_okD(1) [OF i(4)] bucket_size(3) [OF i(3)] by simp
  then obtain m' where m': "kfree p m = Some m'" "stored m L (given (hmem m) s p) m'"
    using kfree_given [OF hm s_def ins ip slot_field(2) [OF hm i(1-3) u(1)] slot_apart(5) [OF i(3) u(1)] p0] by blast
  have b8: "8 \<le> slot_bytes bk" using bucket_size(1) [OF i(3)] by simp
  have pin: "page_base x = s" if "in_block p 8 x" for x using slot_in_page(1) [OF i(1) u(1) in_block_mono [OF that b8]] .
  have out: "given (hmem m) s p x = hmem m x" if "page_base x \<noteq> s" for x
    using given_outside [of s x p] in_block_mono [of s 32 x 4096] in_page_iff [OF i(1), of x] that pin by auto
  have oks: "slab_ok (given (hmem m) s p) t b ((fr(s := p # fr s)) t)" if t: "sl t = Some b" for t b
  proof (cases "t = s")
    case True
    then show ?thesis using slab_put [OF i(3,4) u(1,2)] s t by simp
  next
    case False
    then have "\<forall>x. page_base x = t \<longrightarrow> given (hmem m) s p x = hmem m x" using out by blast
    from slab_ok_cong [OF heap_invD(6,4) [OF inv t] this] show ?thesis using heap_invD(7) [OF inv t] False by simp
  qed
  have "heap_inv m' L sl (fr(s := p # fr s)) (used(p := None))"
  proof (rule heap_inv_stored [OF inv m'(2)]; (intro allI impI)?)
    show "slab_ok (given (hmem m) s p) t b ((fr(s := p # fr s)) t)" if "sl t = Some b" for t b by (rule oks [OF that])
    show "q \<in> slots (page_base q) b \<and> q \<notin> set ((fr(s := p # fr s)) (page_base q)) \<and> k = slot_bytes b"
      if "(used(p := None)) q = Some k" "sl (page_base q) = Some b" for q k b
      using that heap_invD(8) [OF inv, of q k b] by (cases "q = p") auto
    show "used q = Some k" if "(used(p := None)) q = Some k" for q k using that by (cases "q = p") auto
    show "(used(p := None)) q \<noteq> None" if "sl t = Some b" "q \<in> slots t b" "q \<notin> set ((fr(s := p # fr s)) t)" for t b q
    proof (cases "q = p")
      case True
      then have "t = s" using slot_self(2) [OF heap_invD(4,6) [OF inv that(1)] that(2)] by (simp add: s_def)
      then show ?thesis using True that(3) by simp
    qed (use heap_invD(11) [OF inv that(1,2)] that(3) in \<open>auto split: if_splits\<close>)
  qed
  moreover have "kept m (used(p := None)) m'"
    unfolding kept_def storedD(2) [OF m'(2)]
  proof (intro allI impI; elim conjE)
    fix q k x assume q: "(used(p := None)) q = Some k" "in_block q k x"
    then have uq: "used q = Some k" "q \<noteq> p" by (auto split: if_splits)
    have "\<not> in_block p n x" using used_disjoint [OF inv uq(1) p q(2)] uq(2) by blast
    then have "\<not> in_block p 8 x" using in_block_mono [of p 8 x n] b8 u(3) by auto
    then show "given (hmem m) s p x = hmem m x" using given_outside used_not_header [OF inv s uq(1) q(2)] by blast
  qed
  ultimately show ?thesis using m'(1) storedD(5) [OF m'(2)] stored_spent [OF m'(2)] unfolding released_def heap_ok_def by blast
qed

text \<open>
  A slot goes back to the head of its slab's free list: its first bytes link to the previous
  head, and the slab counts one more free slot.
\<close>

definition slot_freed :: "'a slab_machine_scheme \<Rightarrow> ptr \<Rightarrow> 'a slab_machine_scheme \<Rightarrow> bool" where
  "slot_freed m p m' \<longleftrightarrow> load64 (free_list (page_base p)) m' = Some p \<and> load64 p m' = load64 (free_list (page_base p)) m \<and>
     load32 (slots_free (page_base p)) m' = map_option (\<lambda>c. c + 1) (load32 (slots_free (page_base p)) m)"

lemma kfree_slot:
  assumes ok: "heap_ok m used" and p: "used p = Some n" "n \<le> 2048" and fr: "kfree p m = Some m'"
  shows "slot_freed m p m'"
proof -
  obtain L sl fr where inv: "heap_inv m L sl fr used" using ok by (auto simp: heap_ok_def)
  note hm = heap_invD(1) [OF inv]
  define s where "s = page_base p"
  obtain bk where s: "sl s = Some bk" using heap_invD(9) [OF inv p(1)] p(2) by (cases "sl s") (auto simp: large_def s_def)
  note ip = used_block(1) [OF inv p(1)] and ins = used_block(2) [OF inv p(1), folded s_def] and p0 = used_block(3) [OF inv p(1)]
  note i = heap_invD(4-7) [OF inv s]
  have u: "p \<in> slots s bk" using heap_invD(8) [OF inv p(1)] s by (simp add: s_def)
  note a = slot_apart [OF i(3) u] and off = slot_field(2) [OF hm i(1-3) u]
  have "rd32 (hmem m) (s + 16) \<noteq> 0" using slab_okD(1) [OF i(4)] bucket_size(3) [OF i(3)] by simp
  then have st: "stored m L (given (hmem m) s p) m'"
    using kfree_given [OF hm s_def ins ip off a(5) p0] fr by auto
  note d = storedD [OF st] and f = slab_fields [OF hm i(1,2)]
  note f' = slab_fields [OF d(1) i(1)]
  have in': "in_heap m' x = in_heap m x" for x by (rule d(3))
  show ?thesis
    unfolding slot_freed_def s_def [symmetric]
    using load_heap [OF hm f(1)] load_heap [OF hm f(3)] load_heap [OF d(1)] f in' ip off a
    by (simp add: free_list_def slots_free_def d(2) given_def rd_wr_mixed header_apart)
qed

text \<open>
  For a large block \<^verbatim>\<open>kfree\<close> takes the block's own bytes for a slab header: it may write into the
  block, and never gives its pages back.
\<close>

lemma kfree_large:
  assumes inv: "heap_inv m L sl fr used" and p: "used p = Some n" and s_def: "s = page_base p" and s: "sl s = None"
  shows "\<exists>m'. kfree p m = Some m' \<and> released m used p m'"
proof -
  note hm = heap_invD(1) [OF inv]
  have al: "page_aligned s" by (simp add: s_def)
  note ip = used_block(1) [OF inv p] and ins = used_block(2) [OF inv p, folded s_def] and p0 = used_block(3) [OF inv p]
  have lg: "large m sl p n" using heap_invD(9) [OF inv p] s by (simp add: s_def)
  then have ps: "p = s" "4096 \<le> n" by (simp_all add: large_def s_def)
  have pin: "in_block p n x" if "in_block s 32 x" for x using in_block_mono [OF that] ps by simp
  have "unat (page_off p) + 8 \<le> 4096" "disjoint_blocks p 8 (s + 20) 4" using ps(1) al header_apart(8) by simp_all
  from kfree_given [OF hm s_def ins ip this p0] obtain m' where
    m': "kfree p m = Some m'" "m' = m \<or> stored m L (given (hmem m) s p) m'" by blast
  have out: "given (hmem m) s p x = hmem m x" if "\<not> in_block p n x" for x
    using given_outside [of s x p] in_block_mono [of p 8 x n] pin that ps by auto
  have un: "used q = Some k" if "(used(p := None)) q = Some k" for q k using that by (cases "q = p") auto
  have u8: "q \<in> slots (page_base q) b \<and> q \<notin> set (fr (page_base q)) \<and> k = slot_bytes b"
    if "(used(p := None)) q = Some k" "sl (page_base q) = Some b" for q k b using heap_invD(8) [OF inv un [OF that(1)] that(2)] .
  have ex: "(used(p := None)) q \<noteq> None" if "sl t = Some b" "q \<in> slots t b" "q \<notin> set (fr t)" for t b q
    using heap_invD(11) [OF inv that] slot_self(2) [OF heap_invD(4,6) [OF inv that(1)] that(2)] that(1) s by (cases "q = p") (auto simp: s_def)
  have st: "stored m L (hmem m) m" unfolding stored_def using hm by (auto intro: exI [of _ "pmem m"])
  have "\<exists>h. stored m L h m' \<and> (\<forall>x. \<not> in_block p n x \<longrightarrow> h x = hmem m x)" using m'(2) out st by blast
  then obtain h where h: "stored m L h m'" "\<forall>x. \<not> in_block p n x \<longrightarrow> h x = hmem m x" by blast
  have oks: "slab_ok h t b (fr t)" if t: "sl t = Some b" for t b
  proof -
    have "\<forall>x. page_base x = t \<longrightarrow> h x = hmem m x" using h(2) lg t by (auto simp: large_def)
    from slab_ok_cong [OF heap_invD(6,4) [OF inv t] this] show ?thesis using heap_invD(7) [OF inv t] by simp
  qed
  have "heap_inv m' L sl fr (used(p := None))"
    by (rule heap_inv_stored [OF inv h(1)]; (intro allI impI)?; (rule oks u8 un ex; assumption)?)
  moreover have "kept m (used(p := None)) m'"
    unfolding kept_def storedD(2) [OF h(1)]
  proof (intro allI impI; elim conjE)
    fix q k x assume q: "(used(p := None)) q = Some k" "in_block q k x"
    then have uq: "used q = Some k" "q \<noteq> p" by (auto split: if_splits)
    then show "h x = hmem m x" using used_disjoint [OF inv uq(1) p q(2)] h(2) by blast
  qed
  ultimately show ?thesis using m'(1) storedD(5) [OF h(1)] stored_spent [OF h(1)] unfolding released_def heap_ok_def by blast
qed

lemma kfree_spec:
  assumes ok: "heap_ok m used" and p: "used p = Some n"
  shows "\<exists>m'. kfree p m = Some m' \<and> released m used p m'"
proof -
  obtain L sl fr where inv: "heap_inv m L sl fr used" using ok by (auto simp: heap_ok_def)
  show ?thesis using kfree_small [OF inv p refl] kfree_large [OF inv p refl] by (cases "sl (page_base p)") blast+
qed

subsection \<open>Clients of the heap\<close>

text \<open>A client may write into the blocks it holds.\<close>

lemma slot_outside:
  assumes inv: "heap_inv m L sl fr used" and s: "sl s = Some bk" and f: "f \<in> set (fr s)" and q: "used q = Some n" and x: "in_block q n x"
  shows "\<not> in_block f 8 x"
proof
  assume x8: "in_block f 8 x"
  note i = heap_invD(4-7) [OF inv s]
  have fs: "f \<in> slots s bk" using slab_okD(5) [OF i(4)] f by blast
  have fx: "in_block f (slot_bytes bk) x" using in_block_mono [OF x8] bucket_size(1) [OF i(3)] by simp
  have xs: "page_base x = s" by (rule slot_in_page(1) [OF i(1) fs fx])
  show False
  proof (cases "sl (page_base q)")
    case None
    then show False using heap_invD(9) [OF inv q None] x xs s by (auto simp: large_def)
  next
    case (Some b)
    note u = heap_invD(8) [OF inv q Some]
    have "page_base q = s" using slot_in_page(1) [OF heap_invD(4) [OF inv Some], of q b x] u x xs by simp
    then have e: "b = bk" "q \<in> slots s bk" "q \<notin> set (fr s)" "n = slot_bytes bk" using u Some s by auto
    have "disjoint_blocks f (slot_bytes bk) q (slot_bytes bk)" using slots_disjoint [OF i(3) fs e(2)] f e(3) by auto
    then show False using in_block_disjoint fx x e(4) by blast
  qed
qed

lemma used_write:
  assumes inv: "heap_inv m L sl fr used" and q: "used q = Some n" and h: "\<forall>x. \<not> in_block q n x \<longrightarrow> h x = hmem m x"
    and st: "stored m L h m'"
  shows "heap_inv m' L sl fr used"
proof (rule heap_inv_stored [OF inv st]; (intro allI impI)?)
  fix s bk assume s: "sl s = Some bk"
  note i = heap_invD(4-7) [OF inv s]
  have hd: "h (s + of_nat k) = hmem m (s + of_nat k)" if "k < 32" for k
    using h used_not_header [OF inv s q] in_block_offset [OF that, of s] by auto
  have r: "rd32 h (s + of_nat k) = rd32 (hmem m) (s + of_nat k)" "rd64 h (s + of_nat k) = rd64 (hmem m) (s + of_nat k)" if "k + 8 \<le> 32" for k
  proof -
    have "h (s + of_nat k + of_nat j) = hmem m (s + of_nat k + of_nat j)" if "j < 8" for j
      using hd [of "k + j"] that \<open>k + 8 \<le> 32\<close> by (simp add: add.assoc)
    then show "rd32 h (s + of_nat k) = rd32 (hmem m) (s + of_nat k)" "rd64 h (s + of_nat k) = rd64 (hmem m) (s + of_nat k)"
      by (intro acc64.rd_cong acc32.rd_cong; simp)+
  qed
  have "rd64 h f = rd64 (hmem m) f" if "f \<in> set (fr s)" for f
  proof (rule acc64.rd_cong)
    fix j :: nat assume "j < 8"
    then have "in_block f 8 (f + of_nat j)" by (simp add: in_block_offset)
    then show "h (f + of_nat j) = hmem m (f + of_nat j)" using h slot_outside [OF inv s that q] by blast
  qed
  then have "chained h v (fr s) = chained (hmem m) v (fr s)" for v by (intro chained_cong) simp
  then show "slab_ok h s bk (fr s)" using i(4) r(1) [of 16] r(1) [of 20] r(2) [of 8] by (simp add: slab_ok_def)
qed (use heap_invD(8,11) [OF inv] in auto)

text \<open>Copying inside the window.\<close>

lemma each_append: "each f (xs @ ys) s = Option.bind (each f xs s) (each f ys)"
proof (induction xs arbitrary: s)
  case (Cons x xs)
  then show ?case by (cases "f x s") simp_all
qed simp

lemma heap_memcpy_spec:
  assumes hm: "heap_mapped m L" and inh: "\<forall>i < n. in_heap m (src + of_nat i) \<and> in_heap m (dest + of_nat i)" and n: "n < 2 ^ 64"
    and dj: "\<forall>i < n. \<not> in_block dest n (src + of_nat i)"
  shows "\<exists>m'. heap_memcpy dest src (of_nat n) m = Some m' \<and>
    stored m L (snapshot_copy (hmem m) dest src n) m'"
proof -
  have "k \<le> n \<Longrightarrow> \<exists>m'. each (\<lambda>i m. Option.bind (load8 (src + of_nat i) m) (\<lambda>b. store8 (dest + of_nat i) b m)) [0..<k] m = Some m' \<and>
      stored m L (snapshot_copy (hmem m) dest src k) m'" for k
  proof (induction k)
    case 0
    have "\<exists>mm. m = m\<lparr>pmem := mm\<rparr>" by (rule exI [of _ "pmem m"]) simp
    then show ?case using hm by (simp add: stored_def snapshot_copy_def)
  next
    case (Suc k)
    then obtain m1 where m1: "each (\<lambda>i m. Option.bind (load8 (src + of_nat i) m) (\<lambda>b. store8 (dest + of_nat i) b m)) [0..<k] m = Some m1"
        "stored m L (snapshot_copy (hmem m) dest src k) m1" by auto
    note d = storedD [OF m1(2)]
    have k: "k < n" "k < 2 ^ 64" using Suc.prems n by simp_all
    have i1: "in_heap m1 (src + of_nat k)" "in_heap m1 (dest + of_nat k)" using inh k(1) d(3) by simp_all
    have "\<not> in_block dest k (src + of_nat k)" using dj k(1) in_block_mono [of dest k "src + of_nat k" n] by auto
    then have b: "load8 (src + of_nat k) m1 = Some (hmem m (src + of_nat k))" using load_heap(3) [OF d(1) i1(1)] d(2) by (simp add: snapshot_copy_def)
    obtain m2 where m2: "store8 (dest + of_nat k) (hmem m (src + of_nat k)) m1 = Some m2"
        "stored m1 L ((hmem m1)(dest + of_nat k := hmem m (src + of_nat k))) m2"
      using store_heap(3) [OF d(1) i1(2)] by blast
    have "(hmem m1)(dest + of_nat k := hmem m (src + of_nat k)) = snapshot_copy (hmem m) dest src (Suc k)"
    proof
      fix x
      have "in_block dest (Suc k) x \<longleftrightarrow> in_block dest k x \<or> x = dest + of_nat k" using in_block_Suc [of k dest x] k(2) by auto
      then show "((hmem m1)(dest + of_nat k := hmem m (src + of_nat k))) x = snapshot_copy (hmem m) dest src (Suc k) x"
        unfolding d(2) snapshot_copy_def by auto
    qed
    then show ?case using m1(1) b m2(1) stored_trans [OF m1(2) m2(2)] by (simp add: each_append)
  qed
  from this [OF order_refl] show ?thesis using n by (simp add: heap_memcpy_def)
qed

text \<open>The size \<^verbatim>\<open>krealloc\<close> believes a block has: right for a slot, at most a page for a large block.\<close>

lemma allocation_size:
  assumes inv: "heap_inv m L sl fr used" and p: "used p = Some n"
  shows "\<exists>k. get_allocation_size p m = Some k \<and> unat k \<le> n \<and> unat k \<le> 4096 \<and> (n \<le> 2048 \<longrightarrow> unat k = n)"
proof -
  note u = used_block [OF inv p]
  define s where "s = page_base p"
  have al: "page_aligned s" by (simp add: s_def)
  note hm = heap_invD(1) [OF inv]
  note f = slab_fields [OF hm al u(2) [folded s_def]]
  define z where "z = rd32 (hmem m) (s + 16)"
  have "load32 (slot_size s) m = Some z" using load_heap(2) [OF hm f(2)] f(5) by (simp add: slot_size_def z_def)
  then have g: "get_allocation_size p m = Some (if 0 < z \<and> z \<le> 2048 then ucast z else PAGE_SIZE)"
    using u(3) by (simp add: get_allocation_size_def s_def)
  have uz: "unat (ucast z :: u64) = unat z"
  proof -
    have "unat z < 2 ^ LENGTH(32)" by (rule unsigned_less)
    then show ?thesis by (simp add: unsigned_ucast_eq take_bit_nat_eq_self)
  qed
  have le: "z \<le> 2048 \<longleftrightarrow> unat z \<le> 2048" by (simp add: word_le_nat_alt)
  show ?thesis
  proof (cases "sl s")
    case (Some bk)
    note i = heap_invD(4-7) [OF inv Some]
    have "z = bucket_sizes ! bk" "n = slot_bytes bk" using slab_okD(1) [OF i(4)] heap_invD(8) [OF inv p] Some by (simp_all add: z_def s_def)
    then have "0 < z" "unat z = n" "n \<le> 2048" using bucket_size(2,3) [OF i(3)] by (simp_all add: word_neq_0_conv)
    then show ?thesis using g uz le by simp
  next
    case None
    then have "4096 \<le> n" using heap_invD(9) [OF inv p] by (simp add: s_def large_def)
    then show ?thesis using g uz le by (auto simp: PAGE_SIZE_def)
  qed
qed

lemma used_extent:
  assumes inv: "heap_inv m L sl fr used" and p: "used p = Some n"
  shows "n \<le> zone"
proof (rule ccontr)
  assume "\<not> n \<le> zone"
  then have big: "zone < n" by simp
  have "in_heap m (p + of_nat i)" if "i \<le> zone" for i
    by (rule used_in_heap [OF inv p]) (use that big in \<open>simp add: in_block_def\<close>)
  then have b: "unat (p + of_nat i - HEAP) < zone" if "i \<le> zone" for i using in_heap_zone [OF heap_invD(1) [OF inv]] that by blast
  define d where "d = unat (p - HEAP)"
  have d: "d < zone" using b [of 0] by (simp add: d_def)
  have "unat (p + of_nat (zone - d) - HEAP) = zone" using top_plus [of p "zone - d"] d by (simp add: d_def)
  then show False using b [of "zone - d"] by simp
qed

lemma kept_trans: "kept m used m1 \<Longrightarrow> kept m1 used m2 \<Longrightarrow> kept m used m2"
  by (simp add: kept_def)

lemma kept_sub: "kept m used m1 \<Longrightarrow> \<forall>q n. used' q = Some n \<longrightarrow> used q = Some n \<Longrightarrow> kept m used' m1"
  unfolding kept_def by blast

lemma keptD: "kept m used m' \<Longrightarrow> used q = Some n \<Longrightarrow> i < n \<Longrightarrow> n \<le> 2 ^ 64 \<Longrightarrow> hmem m' (q + of_nat i) = hmem m (q + of_nat i)"
  unfolding kept_def using in_block_offset by blast

lemma copy_region:
  assumes inv: "heap_inv m L sl fr used" and p: "used p = Some n" and q: "used q = Some n1" "q \<noteq> p" and k: "a + k \<le> n" "b + k \<le> n1"
  shows "\<exists>m'. heap_memcpy (q + of_nat b) (p + of_nat a) (of_nat k) m = Some m' \<and> heap_inv m' L sl fr used
    \<and> stored m L (snapshot_copy (hmem m) (q + of_nat b) (p + of_nat a) k) m' \<and> kept m (used(q := None)) m'"
proof -
  have nb: "n \<le> 2 ^ 64" "n1 \<le> 2 ^ 64" "k < 2 ^ 64" using used_extent [OF inv p] used_extent [OF inv q(1)] k by simp_all
  have pin: "in_block p n (p + of_nat a + of_nat i)" and qin: "in_block q n1 (q + of_nat b + of_nat i)" if "i < k" for i
    using in_block_offset [of "a + i" n p] in_block_offset [of "b + i" n1 q] that k nb by (simp_all add: add.assoc)
  have inh: "\<forall>i < k. in_heap m (p + of_nat a + of_nat i) \<and> in_heap m (q + of_nat b + of_nat i)"
    using used_in_heap [OF inv p pin] used_in_heap [OF inv q(1) qin] by simp
  have sub: "in_block q n1 x" if "in_block (q + of_nat b) k x" for x by (rule in_block_sub [OF that k(2) nb(2)])
  have dj: "\<forall>i < k. \<not> in_block (q + of_nat b) k (p + of_nat a + of_nat i)"
    using used_disjoint [OF inv p q(1) pin sub] q(2) by blast
  obtain m' where m': "heap_memcpy (q + of_nat b) (p + of_nat a) (of_nat k) m = Some m'"
      "stored m L (snapshot_copy (hmem m) (q + of_nat b) (p + of_nat a) k) m'"
    using heap_memcpy_spec [OF heap_invD(1) [OF inv] inh nb(3) dj] by blast
  have out: "\<forall>x. \<not> in_block q n1 x \<longrightarrow> snapshot_copy (hmem m) (q + of_nat b) (p + of_nat a) k x = hmem m x"
    using sub snapshot_copy_outside by blast
  have "kept m (used(q := None)) m'"
    unfolding kept_def storedD(2) [OF m'(2)]
  proof (intro allI impI; elim conjE)
    fix r j x assume r: "(used(q := None)) r = Some j" "in_block r j x"
    have "used r = Some j" "r \<noteq> q" using r(1) by (auto split: if_splits)
    then have "\<not> in_block q n1 x" using used_disjoint [OF inv _ q(1) r(2)] by blast
    then show "snapshot_copy (hmem m) (q + of_nat b) (p + of_nat a) k x = hmem m x" using out by blast
  qed
  then show ?thesis using m' used_write [OF inv q(1) out m'(2)] by blast
qed

lemma krealloc_spec:
  assumes p: "used p = Some n" and sz: "sz \<noteq> 0" and km: "kmalloc sz m = Some (q, m1)" and al: "allocated m used K sz q n1 m1"
  shows "\<exists>(old :: u64) m'. unat old \<le> n \<and> unat old \<le> 4096 \<and> (n \<le> 2048 \<longrightarrow> unat old = n) \<and> krealloc p sz m = Some (q, m')
    \<and> heap_ok m' (used(q \<mapsto> n1, p := None)) \<and> kept m (used(p := None)) m' \<and> heap_only m m'
    \<and> (\<forall>i < n1. hmem m' (q + of_nat i) = (if i < min (unat old) (unat sz) then hmem m (p + of_nat i) else hmem m1 (q + of_nat i)))
    \<and> (n \<le> 2048 \<longrightarrow> load64 (free_list (page_base p)) m' = Some p)"
proof -
  let ?u = "used(q \<mapsto> n1)"
  have a: "q \<noteq> 0" "unat sz \<le> n1" "used q = None" "kept m used m1" "heap_ok m1 ?u" "heap_only m m1"
    using al unfolding allocated_def by blast+
  have qp: "q \<noteq> p" using a(3) p by auto
  obtain L sl fr where inv: "heap_inv m1 L sl fr ?u" using a(5) by (auto simp: heap_ok_def)
  have up: "?u p = Some n" "?u q = Some n1" using p qp by simp_all
  obtain old where old: "get_allocation_size p m1 = Some old" "unat old \<le> n" "unat old \<le> 4096" "n \<le> 2048 \<longrightarrow> unat old = n"
    using allocation_size [OF inv up(1)] by blast
  define k where "k = min (unat old) (unat sz)"
  have kb: "k \<le> n" "k \<le> n1" using old(2) a(2) by (simp_all add: k_def)
  have kw: "(if old < sz then old else sz) = of_nat k" by (auto simp: k_def word_less_nat_alt min_def)
  have nb: "n \<le> 2 ^ 64" "n1 \<le> 2 ^ 64" using used_extent [OF inv up(1)] used_extent [OF inv up(2)] by simp_all
  obtain m2 where m2: "heap_memcpy q p (of_nat k) m1 = Some m2" "heap_inv m2 L sl fr ?u"
      "hmem m2 = snapshot_copy (hmem m1) q p k" "kept m1 (?u(q := None)) m2" "heap_only m1 m2"
    using copy_region [OF inv up qp, of 0 k 0] kb storedD(2,5) by fastforce
  obtain m3 where m3: "kfree p m2 = Some m3" "heap_ok m3 (?u(p := None))" "kept m2 (?u(p := None)) m3" "heap_only m2 m3"
    using kfree_spec [of m2 ?u p n] m2(2) up(1) unfolding released_def heap_ok_def by blast
  have kr: "krealloc p sz m = Some (q, m3)"
    using km old(1) m2(1) m3(1) a(1) sz used_block(3) [OF inv up(1)] by (simp add: krealloc_def kw)
  have "hmem m3 (q + of_nat i) = (if i < k then hmem m (p + of_nat i) else hmem m1 (q + of_nat i))" if i: "i < n1" for i
  proof -
    have "hmem m3 (q + of_nat i) = snapshot_copy (hmem m1) q p k (q + of_nat i)" using keptD [OF m3(3) _ i nb(2)] m2(3) qp by simp
    moreover have "i < 2 ^ 64" using i nb(2) by simp
    moreover have "hmem m1 (p + of_nat i) = hmem m (p + of_nat i)" if "i < k" using keptD [OF a(4) p _ nb(1)] that kb(1) by simp
    ultimately show ?thesis by (simp add: snapshot_copy_def in_block_def)
  qed
  then have bytes: "\<forall>i < n1. hmem m3 (q + of_nat i) = (if i < min (unat old) (unat sz) then hmem m (p + of_nat i) else hmem m1 (q + of_nat i))"
    unfolding k_def by blast
  have s: "\<forall>r j. (used(p := None)) r = Some j \<longrightarrow> used r = Some j" "\<forall>r j. (used(p := None)) r = Some j \<longrightarrow> (?u(p := None)) r = Some j"
      "\<forall>r j. (used(p := None)) r = Some j \<longrightarrow> (?u(q := None)) r = Some j"
    using a(3) qp by (auto split: if_splits)
  have "kept m (used(p := None)) m3"
    using kept_trans kept_sub [OF a(4) s(1)] kept_sub [OF m2(4) s(3)] kept_sub [OF m3(3) s(2)] by blast
  moreover have "heap_only m m3" using heap_only_trans a(6) m2(5) m3(4) by blast
  moreover have "load64 (free_list (page_base p)) m3 = Some p" if "n \<le> 2048"
    using kfree_slot [of m2 ?u p n m3] up(1) that m3(1) m2(2) unfolding heap_ok_def slot_freed_def by blast
  ultimately show ?thesis using old(2-4) kr m3(2) bytes by blast
qed

lemma kmalloc_large_fresh:
  assumes inv: "heap_inv m L sl fr used" and big: "\<not> sz \<le> 2048" and z: "heap_room m (pages_for sz)"
    and km: "kmalloc sz m = Some (p, m')" and i: "i < unat sz"
  shows "hmem m' (p + of_nat i) = 0"
proof -
  define k where "k = pages_for sz"
  have b: "get_bucket_idx sz = None" using big by (simp add: bucket_idx(2))
  have k: "k = (unat sz + 4095) div 4096" using big by (simp add: k_def pages_for_def)
  have kz: "unat sz \<le> 4096 * k" by (simp add: k)
  have z': "unat (heap_virtual_top m - HEAP) + 4096 * k \<le> zone" using z by (simp add: heap_room_def k_def)
  have u: "unat ((sz + PAGE_SIZE - 1) div PAGE_SIZE) = k" unfolding k by (rule pages_needed) (use kz z' in simp)
  have nz: "sz \<noteq> 0" using big by auto
  obtain ok where e: "heap_extend_loop k m = Some (ok, m')" "p = (if ok then heap_virtual_top m else NULL)"
    using km b nz by (auto simp: kmalloc_def heap_extend_def u)
  have x: "ok" "extended m k m'" using heap_extend_loop_spec(1) [OF heap_invD(1) [OF inv] z' e(1)] by blast+
  have "in_block (heap_virtual_top m) (4096 * k) (p + of_nat i)" using in_block_offset [of i "4096 * k" p] e(2) x(1) i kz z' by simp
  then have "\<not> in_heap m (p + of_nat i)" using extended_window(2) [OF x(2) z'] by blast
  then show ?thesis using x(2) by (simp add: extended_def hmem_def)
qed

subsection \<open>The contract of an allocator of blocks\<close>

text \<open>
  \<open>ok s b U\<close>: the blocks \<open>U\<close> are in use and requests of total cost \<open>b\<close> can still be met.
\<close>

locale block_allocator =
  fixes alloc :: "u64 \<Rightarrow> 's \<Rightarrow> (ptr \<times> 's) option"
    and free :: "ptr \<Rightarrow> 's \<Rightarrow> 's option"
    and ok :: "'s \<Rightarrow> nat \<Rightarrow> (ptr \<rightharpoonup> nat) \<Rightarrow> bool"
    and cost :: "u64 \<Rightarrow> nat"
  assumes alloc_ok: "ok s (b + cost sz) U \<Longrightarrow> sz \<noteq> 0 \<Longrightarrow>
      \<exists>p n s'. alloc sz s = Some (p, s') \<and> U p = None \<and> unat sz \<le> n \<and> ok s' b (U(p \<mapsto> n))"
    and free_ok: "ok s b U \<Longrightarrow> U p = Some n \<Longrightarrow> \<exists>s'. free p s = Some s' \<and> ok s' b (U(p := None))"
    and ok_disjoint: "ok s b U \<Longrightarrow> U p = Some n \<Longrightarrow> U q = Some k \<Longrightarrow> in_block p n x \<Longrightarrow> in_block q k x \<Longrightarrow> p = q"

text \<open>A client that allocates and releases in any order, by position in the list of its blocks.\<close>

datatype request = Alloc u64 | Release nat

primrec serve :: "(u64 \<Rightarrow> 's \<Rightarrow> (ptr \<times> 's) option) \<Rightarrow> (ptr \<Rightarrow> 's \<Rightarrow> 's option) \<Rightarrow> request list \<Rightarrow> (ptr \<times> u64) list \<Rightarrow> 's \<Rightarrow> ((ptr \<times> u64) list \<times> 's) option" where
  "serve alloc free [] bs s = Some (bs, s)"
| "serve alloc free (r # rs) bs s =
     (case r of
        Alloc sz \<Rightarrow> Option.bind (alloc sz s) (\<lambda>(p, s'). serve alloc free rs ((p, sz) # bs) s')
      | Release i \<Rightarrow>
          if i < length bs then Option.bind (free (fst (bs ! i)) s) (serve alloc free rs (take i bs @ drop (Suc i) bs))
          else serve alloc free rs bs s)"

primrec total_cost :: "(u64 \<Rightarrow> nat) \<Rightarrow> request list \<Rightarrow> nat" where
  "total_cost cost [] = 0"
| "total_cost cost (r # rs) = (case r of Alloc sz \<Rightarrow> cost sz | Release i \<Rightarrow> 0) + total_cost cost rs"

definition holds :: "(ptr \<times> u64) list \<Rightarrow> (ptr \<rightharpoonup> nat) \<Rightarrow> bool" where
  "holds bs U \<longleftrightarrow> distinct (map fst bs) \<and> (\<forall>(p, sz) \<in> set bs. \<exists>n. U p = Some n \<and> unat sz \<le> n)"

lemma holdsD: "holds bs U \<Longrightarrow> (p, sz) \<in> set bs \<Longrightarrow> \<exists>n. U p = Some n \<and> unat sz \<le> n"
  by (auto simp: holds_def)

lemma holds_cons: "holds bs U \<Longrightarrow> U p = None \<Longrightarrow> unat sz \<le> n \<Longrightarrow> holds ((p, sz) # bs) (U(p \<mapsto> n))"
  by (fastforce simp: holds_def)

lemma holds_remove:
  assumes "holds bs U" "i < length bs"
  shows "holds (take i bs @ drop (Suc i) bs) (U(fst (bs ! i) := None))" "\<exists>n. U (fst (bs ! i)) = Some n"
proof -
  obtain p sz where e: "bs ! i = (p, sz)" by fastforce
  have bs: "bs = take i bs @ (p, sz) # drop (Suc i) bs" using id_take_nth_drop [OF assms(2)] e by simp
  have d: "distinct (map fst (take i bs @ (p, sz) # drop (Suc i) bs))" using assms(1) bs by (simp add: holds_def)
  then have "p \<notin> fst ` set (take i bs @ drop (Suc i) bs)" by auto
  have "set (take i bs @ drop (Suc i) bs) \<subseteq> set bs" using set_take_subset [of i bs] set_drop_subset [of "Suc i" bs] by auto
  have "\<exists>n. (U(p := None)) q = Some n \<and> unat z \<le> n" if "(q, z) \<in> set (take i bs @ drop (Suc i) bs)" for q z
  proof -
    have "q \<noteq> p" using that \<open>p \<notin> _\<close> by (metis fst_conv imageI)
    then show ?thesis using holdsD [OF assms(1), of q z] that \<open>_ \<subseteq> set bs\<close> by auto
  qed
  then show "holds (take i bs @ drop (Suc i) bs) (U(fst (bs ! i) := None))" unfolding holds_def using d e by auto
  have "(p, sz) \<in> set bs" using nth_mem [OF assms(2)] e by simp
  then show "\<exists>n. U (fst (bs ! i)) = Some n" using holdsD [OF assms(1)] e by fastforce
qed

context block_allocator
begin

lemma served:
  assumes "ok s (b + total_cost cost rs) U" "holds bs U" "Alloc 0 \<notin> set rs"
  shows "\<exists>bs' s' U'. serve alloc free rs bs s = Some (bs', s') \<and> ok s' b U' \<and> holds bs' U'"
  using assms
proof (induction rs arbitrary: bs s U)
  case Nil
  then show ?case by auto
next
  case (Cons r rs)
  show ?case
  proof (cases r)
    case (Alloc sz)
    then have k: "ok s ((b + total_cost cost rs) + cost sz) U" "sz \<noteq> 0" using Cons.prems(1,3) by (auto simp: ac_simps)
    obtain p n s' where a: "alloc sz s = Some (p, s')" "U p = None" "unat sz \<le> n" "ok s' (b + total_cost cost rs) (U(p \<mapsto> n))"
      using alloc_ok [OF k] by blast
    show ?thesis using Cons.IH [OF a(4) holds_cons [OF Cons.prems(2) a(2,3)]] Cons.prems(3) Alloc a(1) by auto
  next
    case (Release i)
    show ?thesis
    proof (cases "i < length bs")
      case True
      note h = holds_remove [OF Cons.prems(2) True]
      obtain n where n: "U (fst (bs ! i)) = Some n" using h(2) by blast
      have "ok s (b + total_cost cost rs) U" using Cons.prems(1) Release by simp
      from free_ok [OF this n] obtain s' where
        s': "free (fst (bs ! i)) s = Some s'" "ok s' (b + total_cost cost rs) (U(fst (bs ! i) := None))" by blast
      show ?thesis using Cons.IH [OF s'(2) h(1)] Cons.prems(3) Release True s'(1) by simp
    next
      case False
      then show ?thesis using Cons Release by simp
    qed
  qed
qed

lemma held_apart:
  assumes "ok s b U" "holds bs U" "(p, sz) \<in> set bs" "(q, sz') \<in> set bs" "p \<noteq> q" "in_block p (unat sz) x"
  shows "\<not> in_block q (unat sz') x"
proof
  assume x: "in_block q (unat sz') x"
  obtain n k where u: "U p = Some n" "unat sz \<le> n" "U q = Some k" "unat sz' \<le> k" 
    using holdsD [OF assms(2,3)] holdsD [OF assms(2,4)] by blast
  show False using ok_disjoint [OF assms(1) u(1,3) in_block_mono [OF assms(6) u(2)] in_block_mono [OF x u(4)]] assms(5) by blast
qed

end

definition heap_budget :: "'a slab_machine_scheme \<Rightarrow> nat \<Rightarrow> (ptr \<rightharpoonup> nat) \<Rightarrow> bool" where
  "heap_budget m b used \<longleftrightarrow> heap_ok m used \<and> heap_room m b \<and> 4 * b \<le> card (free_frames m)"

interpretation slabs: block_allocator kmalloc kfree heap_budget pages_for
proof unfold_locales
  fix s :: "'a slab_machine_scheme" and b sz U
  assume h: "heap_budget s (b + pages_for sz) U" and sz: "sz \<noteq> 0"
  have k: "heap_ok s U" "heap_room s (pages_for sz)" "4 * pages_for sz \<le> card (free_frames s)"
    using h by (simp_all add: heap_budget_def heap_room_def)
  obtain p s' where km: "kmalloc sz s = Some (p, s')" using kmalloc_spec(2) [OF k(1) sz k(2,3)] by blast
  obtain n where a: "allocated s U (pages_for sz) sz p n s'" using kmalloc_spec(1) [OF k(1) sz k(2) km] by blast
  have "spent s (pages_for sz) s'" "heap_ok s' (U(p \<mapsto> n))" "U p = None" "unat sz \<le> n" using a unfolding allocated_def by blast+
  then show "\<exists>p n s'. kmalloc sz s = Some (p, s') \<and> U p = None \<and> unat sz \<le> n \<and> heap_budget s' b (U(p \<mapsto> n))"
    using km h by (auto simp: heap_budget_def spent_def)
next
  fix s :: "'a slab_machine_scheme" and b p n U
  assume h: "heap_budget s b U" and p: "U p = Some n"
  obtain s' where s': "kfree p s = Some s'" "released s U p s'" using kfree_spec [of s U p n] h p by (auto simp: heap_budget_def)
  have "heap_ok s' (U(p := None))" "spent s 0 s'" using s'(2) by (simp_all add: released_def)
  then show "\<exists>s'. kfree p s = Some s' \<and> heap_budget s' b (U(p := None))"
    using s'(1) h by (auto simp: heap_budget_def spent_def)
next
  fix s :: "'a slab_machine_scheme" and b p n U q k x
  assume "heap_budget s b U" "U p = Some n" "U q = Some k" "in_block p n x" "in_block q k x"
  then show "p = q" using used_disjoint by (auto simp: heap_budget_def heap_ok_def)
qed

subsection \<open>The heap after boot\<close>

definition zone_unmapped :: "'a vm_machine_scheme \<Rightarrow> bool" where
  "zone_unmapped m \<longleftrightarrow> (\<forall>w. unat (w - HEAP) < zone \<longrightarrow> walk m 4 (kernel_pml4 m) w = None)"

lemma init_heap:
  assumes tb: "tables m (kernel_pml4 m) L" and un: "zone_unmapped m"
  shows "heap_ok (init_slab m) Map.empty" "heap_room (init_slab m) b \<longleftrightarrow> 4096 * b \<le> zone" "free_frames (init_slab m) = free_frames m"
proof -
  let ?m = "init_slab m"
  have s: "pmem ?m = pmem m" "pmm_buddy ?m = pmm_buddy m" "hhdm_offset ?m = hhdm_offset m" by (simp_all add: init_slab_def)
  note same = same_memory [OF s]
  have k: "kernel_pml4 ?m = kernel_pml4 m" "heap_virtual_top ?m = HEAP" "buckets ?m = replicate 8 0" by (simp_all add: init_slab_def)
  have out: "\<not> in_heap ?m w" for w by (simp add: in_heap_def k)
  have "heap_mapped ?m L"
    using tb un page_aligned_HEAP by (simp add: heap_mapped_def out k same zone_unmapped_def)
  then have "heap_inv ?m L Map.empty (\<lambda>_. []) Map.empty" by (simp add: heap_inv_def k)
  then show "heap_ok ?m Map.empty" unfolding heap_ok_def by blast
  show "heap_room ?m b \<longleftrightarrow> 4096 * b \<le> zone" by (simp add: heap_room_def k)
  show "free_frames ?m = free_frames m" by (rule same)
qed

lemma boot_heap:
  "\<exists>(m :: slab_machine) L. tables m (kernel_pml4 m) L \<and> zone_unmapped m \<and> 255 \<le> card (free_frames m)"
proof -
  obtain m0 f m1 where b: "tables m1 (f + hhdm_offset m0) [f + hhdm_offset m0 \<mapsto> 4]" "\<forall>v. walk m1 4 (f + hhdm_offset m0) v = None"
      "255 \<le> card (free_frames m1)" and "init_pmm boot_memmap boot_machine = Some m0" "palloc_zero m0 = Some (f, m1)"
    using boot_root by blast
  define m where "m = \<lparr>pmem = pmem m1, hhdm_offset = hhdm_offset m1, nx_supported = nx_supported m1, pmm_buddy = pmm_buddy m1,
    total_system_pages = 0, arena_phys_base = 0, arena_total_len = 0, kernel_pml4 = f + hhdm_offset m0, cr3 = 0,
    heap_virtual_top = 0, buckets = []\<rparr>"
  have "pmem m = pmem m1" "pmm_buddy m = pmm_buddy m1" "hhdm_offset m = hhdm_offset m1" by (simp_all add: m_def)
  note same = same_memory [OF this]
  have k: "kernel_pml4 m = f + hhdm_offset m0" by (simp add: m_def)
  have "tables m (kernel_pml4 m) [f + hhdm_offset m0 \<mapsto> 4]" "zone_unmapped m" "255 \<le> card (free_frames m)"
    unfolding zone_unmapped_def k same using b by simp_all
  then show ?thesis by blast
qed

section \<open>Properties\<close>

lemma used_load:
  assumes "heap_ok m used" "used q = Some n" "in_block q n x"
  shows "load8 x m = Some (hmem m x)"
proof -
  obtain L sl fr where inv: "heap_inv m L sl fr used" using assms(1) by (auto simp: heap_ok_def)
  show ?thesis by (rule load_heap(3) [OF heap_invD(1) [OF inv] used_in_heap [OF inv assms(2,3)]])
qed

lemma kept_load:
  assumes "heap_ok m used" "heap_ok m' used'" "kept m u m'" "used q = Some n" "used' q = Some n" "u q = Some n" "in_block q n x"
  shows "load8 x m' = load8 x m"
  using used_load [OF assms(1,4,7)] used_load [OF assms(2,5,7)] assms(3,6,7) by (simp add: kept_def)

text \<open>
  C20: \<^verbatim>\<open>kmalloc\<close> of a nonzero size, on a well-formed heap with room in the window's zone and four
  free frames for each page it may have to add, returns a block of at least that size. The block
  is 16-byte aligned, overlaps no block in use, every byte of a block in use reads as before, and
  the heap with the new block in use is well-formed.
\<close>

theorem kmalloc_correct:
  assumes "heap_ok m used" "sz \<noteq> 0" "heap_room m (pages_for sz)" "4 * pages_for sz \<le> card (free_frames m)"
  shows "\<exists>p n m'. kmalloc sz m = Some (p, m') \<and> p \<noteq> NULL \<and> unat p mod 16 = 0 \<and> unat sz \<le> n \<and> heap_ok m' (used(p \<mapsto> n)) \<and>
    (\<forall>q k x. used q = Some k \<and> in_block q k x \<longrightarrow> \<not> in_block p n x \<and> load8 x m' = load8 x m)"
proof -
  obtain p m' where km: "kmalloc sz m = Some (p, m')" using kmalloc_spec(2) [OF assms] by blast
  obtain n where "allocated m used (pages_for sz) sz p n m'" using kmalloc_spec(1) [OF assms(1-3) km] by blast
  then have a: "p \<noteq> NULL" "unat p mod 16 = 0" "unat sz \<le> n" "used p = None" "heap_ok m' (used(p \<mapsto> n))" "kept m used m'"
      "\<forall>q k x. used q = Some k \<and> in_block q k x \<longrightarrow> \<not> in_block p n x"
    unfolding allocated_def by blast+
  have "load8 x m' = load8 x m" if "used q = Some k" "in_block q k x" for q k x
    by (rule kept_load [OF assms(1) a(5,6) that(1) _ that]) (use a(4) that in auto)
  then have "\<forall>q k x. used q = Some k \<and> in_block q k x \<longrightarrow> \<not> in_block p n x \<and> load8 x m' = load8 x m" using a(7) by blast
  with km a(1-3,5) show ?thesis by (intro exI [of _ p] exI [of _ n] exI [of _ m'] conjI)
qed

theorem kmalloc_correct_witness:
  "\<exists>(m :: slab_machine) p m'. kmalloc 100 m = Some (p, m') \<and> p \<noteq> NULL \<and> heap_ok m Map.empty"
proof -
  obtain m :: slab_machine and L where m: "tables m (kernel_pml4 m) L" "zone_unmapped m" "255 \<le> card (free_frames m)" using boot_heap by blast
  note i = init_heap [OF m(1,2)]
  have "pages_for 100 = 1" by (simp add: pages_for_def)
  then show ?thesis using kmalloc_correct [OF i(1), of 100] i m(3) by auto
qed

text \<open>
  C21: \<^verbatim>\<open>kfree\<close> of any block in use returns, every byte of every other block reads as before, and the
  heap without the block is well-formed. A slab block is really given back: it becomes the head of
  its slab's free list, linked to the previous head, and the slab counts one more free slot. (The
  pages of a block larger than 2048 bytes are not given back by the code, so nothing more is
  stated of them.)
\<close>

theorem kfree_correct:
  assumes "heap_ok m used" "used p = Some n"
  shows "\<exists>m'. kfree p m = Some m' \<and> heap_ok m' (used(p := None)) \<and>
    (\<forall>q k x. q \<noteq> p \<and> used q = Some k \<and> in_block q k x \<longrightarrow> load8 x m' = load8 x m) \<and>
    (n \<le> 2048 \<longrightarrow> load64 (free_list (page_base p)) m' = Some p \<and> load64 p m' = load64 (free_list (page_base p)) m \<and>
      load32 (slots_free (page_base p)) m' = map_option (\<lambda>c. c + 1) (load32 (slots_free (page_base p)) m))"
proof -
  obtain m' where m': "kfree p m = Some m'" "heap_ok m' (used(p := None))" "kept m (used(p := None)) m'"
    using kfree_spec [OF assms] unfolding released_def by blast
  have "load8 x m' = load8 x m" if "q \<noteq> p" "used q = Some k" "in_block q k x" for q k x
    by (rule kept_load [OF assms(1) m'(2,3) that(2) _ _ that(3)]) (use that in auto)
  moreover have "slot_freed m p m'" if "n \<le> 2048" by (rule kfree_slot [OF assms that m'(1)])
  ultimately show ?thesis using m'(1,2) by (auto simp: slot_freed_def)
qed

lemma boot_block:
  fixes sz :: u64
  assumes sz: "sz \<noteq> 0" "sz \<le> 8192"
  shows "\<exists>(m :: slab_machine) p n. heap_ok m [p \<mapsto> n] \<and> unat sz \<le> n \<and> n < unat sz + 4096 \<and> (sz \<le> 2048 \<longrightarrow> n \<le> 2048) \<and> heap_room m 40 \<and> 160 \<le> card (free_frames m)"
proof -
  obtain m :: slab_machine and L where m: "tables m (kernel_pml4 m) L" "zone_unmapped m" "255 \<le> card (free_frames m)" using boot_heap by blast
  note i = init_heap [OF m(1,2)]
  have "(unat sz + 4095) div 4096 \<le> 12287 div 4096" using sz(2) by (intro div_le_mono) (simp add: word_le_nat_alt)
  then have k: "pages_for sz \<le> 2" by (simp add: pages_for_def)
  have r: "heap_room (init_slab m) (40 + pages_for sz)" "heap_room (init_slab m) (pages_for sz)" "4 * pages_for sz \<le> card (free_frames (init_slab m))"
    using i k m(3) by simp_all
  obtain p m' where km: "kmalloc sz (init_slab m) = Some (p, m')" using kmalloc_spec(2) [OF i(1) sz(1) r(2,3)] by blast
  obtain n where "allocated (init_slab m) Map.empty (pages_for sz) sz p n m'" using kmalloc_spec(1) [OF i(1) sz(1) r(2) km] by blast
  then have "heap_ok m' [p \<mapsto> n]" "unat sz \<le> n" "n < unat sz + 4096" "sz \<le> 2048 \<longrightarrow> n \<le> 2048" and s: "spent (init_slab m) (pages_for sz) m'"
    unfolding allocated_def by blast+
  moreover have "heap_room m' 40" "160 \<le> card (free_frames m')" using s r(1) m(3) k i(3) by (simp_all add: spent_def)
  ultimately show ?thesis by blast
qed

theorem kfree_correct_witness:
  "\<exists>(m :: slab_machine) p n m'. heap_ok m [p \<mapsto> n] \<and> kfree p m = Some m' \<and> heap_ok m' Map.empty \<and>
    load64 (free_list (page_base p)) m' = Some p"
proof -
  obtain m :: slab_machine and p n where m: "heap_ok m [p \<mapsto> n]" "n \<le> 2048" using boot_block [of 100] by auto
  have "heap_ok m' Map.empty" if "heap_ok m' ([p \<mapsto> n](p := None))" for m' :: slab_machine using that by simp
  then show ?thesis using m kfree_correct [OF m(1), of p n] by auto
qed

text \<open>
  C22: From \<^verbatim>\<open>init_slab\<close> on, any sequence of allocations (of nonzero sizes) and releases is served as
  long as the pages it may need fit the zone and four times as many frames are free: no call
  faults or runs out, the blocks held at the end are pairwise disjoint, and every byte of them is
  mapped.
\<close>

theorem heap_serves_requests:
  assumes "tables m (kernel_pml4 m) L" "zone_unmapped m" "Alloc 0 \<notin> set rs"
    and "4096 * total_cost pages_for rs \<le> zone" "4 * total_cost pages_for rs \<le> card (free_frames m)"
  shows "\<exists>bs m'. serve kmalloc kfree rs [] (init_slab m) = Some (bs, m') \<and>
    (\<forall>(p, sz) \<in> set bs. \<forall>x. in_block p (unat sz) x \<longrightarrow> load8 x m' \<noteq> None) \<and>
    (\<forall>(p, sz) \<in> set bs. \<forall>(q, sz') \<in> set bs. p \<noteq> q \<longrightarrow> (\<forall>x. in_block p (unat sz) x \<longrightarrow> \<not> in_block q (unat sz') x)) \<and>
    distinct (map fst bs)"
proof -
  note i = init_heap [OF assms(1,2)]
  have b: "heap_budget (init_slab m) (0 + total_cost pages_for rs) Map.empty" using i assms(4,5) by (simp add: heap_budget_def)
  obtain bs m' U where s: "serve kmalloc kfree rs [] (init_slab m) = Some (bs, m')" "heap_budget m' 0 U" "holds bs U"
    using slabs.served [OF b, of "[]"] assms(3) by (auto simp: holds_def)
  have mp: "load8 x m' \<noteq> None" if "(p, sz) \<in> set bs" "in_block p (unat sz) x" for p sz x
  proof -
    note h = holdsD [OF s(3) that(1)]
    obtain n where n: "U p = Some n" "unat sz \<le> n" using h by blast
    have "heap_ok m' U" using s(2) by (simp add: heap_budget_def)
    from used_load [OF this n(1) in_block_mono [OF that(2) n(2)]] show ?thesis by simp
  qed
  have "\<forall>(p, sz) \<in> set bs. \<forall>x. in_block p (unat sz) x \<longrightarrow> load8 x m' \<noteq> None"
    by (intro ballI, unfold split_beta, intro allI impI, rule mp) auto
  moreover have "\<forall>(p, sz) \<in> set bs. \<forall>(q, sz') \<in> set bs. p \<noteq> q \<longrightarrow> (\<forall>x. in_block p (unat sz) x \<longrightarrow> \<not> in_block q (unat sz') x)"
    by (intro ballI, unfold split_beta, intro ballI allI impI, rule slabs.held_apart [OF s(2,3)]) auto
  moreover have "distinct (map fst bs)" using s(3) by (simp add: holds_def)
  ultimately show ?thesis using s(1) by (intro exI [of _ bs] exI [of _ m'] conjI)
qed

theorem heap_serves_requests_witness:
  "\<exists>(m :: slab_machine) bs m'. serve kmalloc kfree [Alloc 16, Alloc 5000, Release 1, Alloc 16] [] m = Some (bs, m') \<and> distinct (map fst bs)"
proof -
  obtain m :: slab_machine and L where m: "tables m (kernel_pml4 m) L" "zone_unmapped m" "255 \<le> card (free_frames m)" using boot_heap by blast
  have c: "total_cost pages_for [Alloc 16, Alloc 5000, Release 1, Alloc 16] = 4" by (simp add: pages_for_def)
  from heap_serves_requests [OF m(1,2), of "[Alloc 16, Alloc 5000, Release 1, Alloc 16]", unfolded c] m(3)
  show ?thesis by auto
qed

text \<open>
  C23: \<^verbatim>\<open>krealloc\<close> of a block from a slab returns a new block of at least the new size that starts with
  the old contents, up to the smaller of the two sizes; the old block is released, so that it
  heads the free list of its slab, and every byte of every other block reads as before.
\<close>

theorem krealloc_correct:
  assumes "heap_ok m used" "used p = Some n" "n \<le> 2048" "sz \<noteq> 0" "heap_room m (pages_for sz)" "4 * pages_for sz \<le> card (free_frames m)"
  shows "\<exists>q k m'. krealloc p sz m = Some (q, m') \<and> unat sz \<le> k \<and> heap_ok m' (used(q \<mapsto> k, p := None)) \<and>
    (\<forall>i < min n (unat sz). load8 (q + of_nat i) m' = load8 (p + of_nat i) m) \<and>
    (\<forall>r j x. r \<noteq> p \<and> used r = Some j \<and> in_block r j x \<longrightarrow> load8 x m' = load8 x m) \<and>
    load64 (free_list (page_base p)) m' = Some p"
proof -
  obtain q m1 where km: "kmalloc sz m = Some (q, m1)" using kmalloc_spec(2) [OF assms(1,4-6)] by blast
  obtain k where al: "allocated m used (pages_for sz) sz q k m1" using kmalloc_spec(1) [OF assms(1,4,5) km] by blast
  have a: "unat sz \<le> k" "used q = None" using al unfolding allocated_def by blast+
  have qp: "q \<noteq> p" using a(2) assms(2) by auto
  obtain old :: u64 and m' where r: "unat old = n" "krealloc p sz m = Some (q, m')" "heap_ok m' (used(q \<mapsto> k, p := None))"
      "kept m (used(p := None)) m'"
      "\<forall>i < k. hmem m' (q + of_nat i) = (if i < min (unat old) (unat sz) then hmem m (p + of_nat i) else hmem m1 (q + of_nat i))"
      "load64 (free_list (page_base p)) m' = Some p"
    using krealloc_spec [OF assms(2,4) km al] assms(3) by blast
  have uq: "(used(q \<mapsto> k, p := None)) q = Some k" using qp by simp
  have "load8 (q + of_nat i) m' = load8 (p + of_nat i) m" if i: "i < min n (unat sz)" for i
  proof -
    have ik: "i < k" "i < 2 ^ 64" using i a(1) unat_bound [of sz] by simp_all
    have "in_block q k (q + of_nat i)" "in_block p n (p + of_nat i)" using ik i by (simp_all add: in_block_def)
    then show ?thesis
      using used_load [OF r(3) uq] used_load [OF assms(1,2)] r(1,5) i ik(1) by simp
  qed
  moreover have "load8 x m' = load8 x m" if "r \<noteq> p" "used r = Some j" "in_block r j x" for r j x
    by (rule kept_load [OF assms(1) r(3,4) that(2) _ _ that(3)]) (use that a(2) in auto)
  ultimately show ?thesis using r(2,3,6) a(1) by blast
qed

theorem krealloc_correct_witness:
  "\<exists>(m :: slab_machine) p q m'. krealloc p 1000 m = Some (q, m') \<and> load8 (q + 99) m' = load8 (p + 99) m \<and>
    load64 (free_list (page_base p)) m' = Some p"
proof -
  obtain m :: slab_machine and p n where m: "heap_ok m [p \<mapsto> n]" "100 \<le> n" "n \<le> 2048" "heap_room m 40" "160 \<le> card (free_frames m)"
    using boot_block [of 100] by auto
  have "pages_for 1000 = 1" by (simp add: pages_for_def)
  then obtain q k m' where q: "krealloc p 1000 m = Some (q, m')" "\<forall>i < min n (unat (1000 :: u64)). load8 (q + of_nat i) m' = load8 (p + of_nat i) m"
      "load64 (free_list (page_base p)) m' = Some p"
    using krealloc_correct [OF m(1) _ m(3), of p 1000] m(4,5) by (auto simp: heap_room_def)
  have "load8 (q + of_nat 99) m' = load8 (p + of_nat 99) m" using q(2) m(2) by (intro q(2) [rule_format]) simp
  then show ?thesis using q(1,3) by auto
qed

text \<open>
  \<^verbatim>\<open>krealloc\<close> takes a large block for at most one page: when such a block grows, every byte of the
  new block from offset 4096 on is zero, whatever the old block held there.
\<close>

theorem krealloc_truncates_large_blocks:
  assumes "heap_ok m used" "used p = Some n" "4096 \<le> n" "n < unat sz" "heap_room m (pages_for sz)" "4 * pages_for sz \<le> card (free_frames m)"
  shows "\<exists>q m'. krealloc p sz m = Some (q, m') \<and> (\<forall>i. 4096 \<le> i \<and> i < unat sz \<longrightarrow> load8 (q + of_nat i) m' = Some 0)"
proof -
  have sz: "sz \<noteq> 0" "\<not> sz \<le> 2048" using assms(3,4) by (auto simp: word_le_nat_alt)
  obtain L sl fr where inv: "heap_inv m L sl fr used" using assms(1) by (auto simp: heap_ok_def)
  obtain q m1 where km: "kmalloc sz m = Some (q, m1)" using kmalloc_spec(2) [OF assms(1) sz(1) assms(5,6)] by blast
  obtain k where al: "allocated m used (pages_for sz) sz q k m1" using kmalloc_spec(1) [OF assms(1) sz(1) assms(5) km] by blast
  have a: "unat sz \<le> k" "used q = None" using al unfolding allocated_def by blast+
  have qp: "q \<noteq> p" using a(2) assms(2) by auto
  obtain old :: u64 and m' where r: "unat old \<le> 4096" "krealloc p sz m = Some (q, m')" "heap_ok m' (used(q \<mapsto> k, p := None))"
      "\<forall>i < k. hmem m' (q + of_nat i) = (if i < min (unat old) (unat sz) then hmem m (p + of_nat i) else hmem m1 (q + of_nat i))"
    using krealloc_spec [OF assms(2) sz(1) km al] by blast
  have "load8 (q + of_nat i) m' = Some 0" if i: "4096 \<le> i" "i < unat sz" for i
  proof -
    have "i < 2 ^ 64" using i(2) unat_bound [of sz] by simp
    then have "in_block q k (q + of_nat i)" using i(2) a(1) by (simp add: in_block_def)
    from used_load [OF r(3) _ this] have "load8 (q + of_nat i) m' = Some (hmem m' (q + of_nat i))" using qp by simp
    moreover have "hmem m' (q + of_nat i) = hmem m1 (q + of_nat i)" using r(1,4) i a(1) by simp
    moreover have "hmem m1 (q + of_nat i) = 0" by (rule kmalloc_large_fresh [OF inv sz(2) assms(5) km i(2)])
    ultimately show ?thesis by simp
  qed
  then show ?thesis using r(2) by blast
qed

theorem krealloc_truncates_large_blocks_witness:
  "\<exists>(m :: slab_machine) p n q m'. heap_ok m [p \<mapsto> n] \<and> 8000 \<le> n \<and> krealloc p 100000 m = Some (q, m') \<and> load8 (q + 5000) m' = Some 0"
proof -
  obtain m :: slab_machine and p n where m: "heap_ok m [p \<mapsto> n]" "8000 \<le> n" "n < 100000" "heap_room m 40" "160 \<le> card (free_frames m)"
    using boot_block [of 8000] by auto
  have "pages_for 100000 = 25" by (simp add: pages_for_def)
  then obtain q m' where q: "krealloc p 100000 m = Some (q, m')" "\<forall>i. 4096 \<le> i \<and> i < unat (100000 :: u64) \<longrightarrow> load8 (q + of_nat i) m' = Some 0"
    using krealloc_truncates_large_blocks [OF m(1), of p n 100000] m by (auto simp: heap_room_def)
  have "load8 (q + of_nat 5000) m' = Some 0" using q(2) by (intro q(2) [rule_format]) simp
  then have "load8 (q + 5000) m' = Some 0" by simp
  then show ?thesis using q(1) m(1,2) by blast
qed

text \<open>
  A request of more than 2^64 - 4096 bytes is not refused: the page count wraps to zero,
  \<^verbatim>\<open>kmalloc\<close> returns the end of the window as if it were a block and changes nothing, and the address
  it returns is unmapped.
\<close>

theorem kmalloc_size_wraps:
  assumes "0xfffffffffffff000 < sz" "heap_ok m used" "heap_room m 1"
  shows "kmalloc sz m = Some (heap_virtual_top m, m) \<and> heap_virtual_top m \<noteq> NULL \<and> load8 (heap_virtual_top m) m = None"
proof -
  obtain L sl fr where inv: "heap_inv m L sl fr used" using assms(2) by (auto simp: heap_ok_def)
  define d where "d = sz - 0xfffffffffffff001"
  have "0xfffffffffffff001 \<le> sz" using assms(1) by (simp add: word_le_nat_alt word_less_nat_alt)
  then have d: "unat d < 4095" "sz = d + 0xfffffffffffff001"
    using unat_bound [of sz] by (simp_all add: d_def unat_sub)
  have "sz + PAGE_SIZE - 1 = d" by (simp add: d(2) PAGE_SIZE_def)
  then have "unat ((sz + PAGE_SIZE - 1) div PAGE_SIZE) = 0" using d(1) by (simp add: unat_div PAGE_SIZE_def)
  moreover have "get_bucket_idx sz = None" "sz \<noteq> 0" using assms(1) by (auto simp: bucket_idx(2) word_le_nat_alt word_less_nat_alt)
  ultimately have "kmalloc sz m = Some (heap_virtual_top m, m)" by (simp add: kmalloc_def heap_extend_def)
  moreover have "walk m 4 (kernel_pml4 m) (heap_virtual_top m) = None"
    by (rule heap_mappedD(6) [OF heap_invD(1) [OF inv] heap_top_out]) (use assms(3) in \<open>simp add: heap_room_def\<close>)
  then have "load8 (heap_virtual_top m) m = None" by (simp add: load8_def vptr_def virt_to_phys_walk)
  moreover have "heap_virtual_top m \<noteq> NULL"
  proof
    assume "heap_virtual_top m = NULL"
    then have "unat ((0 :: u64) - HEAP) \<le> zone" using assms(3) by (simp add: heap_room_def)
    then show False by simp
  qed
  ultimately show ?thesis by blast
qed

theorem kmalloc_size_wraps_witness:
  "\<exists>(m :: slab_machine). kmalloc 0xffffffffffffffff m = Some (heap_virtual_top m, m) \<and> load8 (heap_virtual_top m) m = None"
proof -
  obtain m :: slab_machine and L where m: "tables m (kernel_pml4 m) L" "zone_unmapped m" using boot_heap by blast
  note i = init_heap [OF m]
  have "heap_room (init_slab m) 1" using i(2) by simp
  moreover have "(0xfffffffffffff000 :: u64) < 0xffffffffffffffff" by simp
  ultimately show ?thesis using kmalloc_size_wraps [OF _ i(1), of "0xffffffffffffffff"] by blast
qed

end
