(* ===== verification/Vfs.thy ===== *)
theory Vfs
  imports Sched Slab_Heap
begin

text \<open>
  The virtual file system of \<^verbatim>\<open>lib/libc/fs/vfs.c\<close>: a tree of nodes whose children are linked
  through \<^verbatim>\<open>next\<close> pointers, path lookup, registration of files, and the operations of memory-backed
  nodes. C strings are byte lists without their terminator, and a null string is \<open>None\<close>. The FAT
  driver rests on a library that is not part of the sources; its lookup function is a parameter.
\<close>

section \<open>Definitions\<close>

type_synonym cstring = "u8 list option"

datatype vfs_type = VFS_FILE | VFS_DIRECTORY | VFS_DEVICE | VFS_SYMLINK

text \<open>The \<^verbatim>\<open>ops\<close> pointer: which of the static operation tables a node uses.\<close>

datatype vfs_ops_t = NullOps | MemOps | TtyOps | EvdevOps | Fat32Ops | DevNullOps | DevZeroOps

record vfs_node_t =
  node_name :: "u8 list"
  node_type :: vfs_type
  node_mode :: u32
  node_uid :: u32
  node_gid :: u32
  node_data :: ptr
  node_size :: u64
  node_ops :: vfs_ops_t
  is_mountpoint :: bool
  internal_data :: ptr
  link_target :: cstring
  node_parent :: ptr
  children :: ptr
  node_next :: ptr

record vfs_machine = kernel +
  nodes :: "ptr \<rightharpoonup> vfs_node_t"
  root_node :: ptr

definition sizeof_vfs_node_t :: u64 where "sizeof_vfs_node_t = 216"
definition ENOMEM :: u32 where "ENOMEM = 12"
definition ENOTTY :: u32 where "ENOTTY = 25"
definition slash :: u8 where "slash = 0x2f"

definition upd_node :: "ptr \<Rightarrow> (vfs_node_t \<Rightarrow> vfs_node_t) \<Rightarrow> 'a vfs_machine_scheme \<Rightarrow> 'a vfs_machine_scheme option" where
  "upd_node p f k = map_option (\<lambda>n. k\<lparr>nodes := (nodes k)(p \<mapsto> f n)\<rparr>) (nodes k p)"

subsection \<open>The tree\<close>

definition new_node :: "u8 list \<Rightarrow> vfs_type \<Rightarrow> vfs_node_t" where
  "new_node nm ty = \<lparr>node_name = take 127 nm, node_type = ty, node_mode = 0, node_uid = 0, node_gid = 0,
     node_data = NULL, node_size = 0, node_ops = MemOps, is_mountpoint = False, internal_data = NULL,
     link_target = None, node_parent = NULL, children = NULL, node_next = NULL\<rparr>"

definition vfs_create_node :: "cstring \<Rightarrow> vfs_type \<Rightarrow> 'a vfs_machine_scheme \<Rightarrow> (ptr \<times> 'a vfs_machine_scheme) option" where
  "vfs_create_node nm ty k =
     (case nm of
        None \<Rightarrow> Some (NULL, k)
      | Some [] \<Rightarrow> Some (NULL, k)
      | Some s \<Rightarrow> do {
          (p, k1) \<leftarrow> kmalloc sizeof_vfs_node_t k;
          if p = NULL then Some (NULL, k1)
          else do {
            k2 \<leftarrow> heap_memset p 0 sizeof_vfs_node_t k1;
            Some (p, k2\<lparr>nodes := (nodes k2)(p \<mapsto> new_node s ty)\<rparr>) } })"

definition vfs_add_child :: "ptr \<Rightarrow> ptr \<Rightarrow> 'a vfs_machine_scheme \<Rightarrow> 'a vfs_machine_scheme option" where
  "vfs_add_child parent kid k =
     (if parent = NULL \<or> kid = NULL then Some k
      else do {
        p \<leftarrow> nodes k parent;
        if node_type p \<noteq> VFS_DIRECTORY then Some k
        else do {
          c \<leftarrow> nodes k kid;
          if node_parent c \<noteq> NULL then Some k
          else do {
            k1 \<leftarrow> upd_node kid (\<lambda>c. c\<lparr>node_next := children p\<rparr>) k;
            k2 \<leftarrow> upd_node parent (\<lambda>p. p\<lparr>children := kid\<rparr>) k1;
            upd_node kid (\<lambda>c. c\<lparr>node_parent := parent\<rparr>) k2 } } })"

text \<open>The pointer variable \<^verbatim>\<open>curr\<close> of \<^verbatim>\<open>vfs_remove_child\<close> points to one of these fields.\<close>

datatype link = ChildrenOf ptr | NextOf ptr

primrec get_link :: "link \<Rightarrow> 'a vfs_machine_scheme \<Rightarrow> ptr option" where
  "get_link (ChildrenOf p) k = map_option children (nodes k p)"
| "get_link (NextOf p) k = map_option node_next (nodes k p)"

primrec set_link :: "link \<Rightarrow> ptr \<Rightarrow> 'a vfs_machine_scheme \<Rightarrow> 'a vfs_machine_scheme option" where
  "set_link (ChildrenOf p) v k = upd_node p (\<lambda>n. n\<lparr>children := v\<rparr>) k"
| "set_link (NextOf p) v k = upd_node p (\<lambda>n. n\<lparr>node_next := v\<rparr>) k"

partial_function (option) remove_loop ::
    "link \<Rightarrow> ptr \<Rightarrow> 'a vfs_machine_scheme \<Rightarrow> 'a vfs_machine_scheme option" where
  "remove_loop cur kid k = do {
     p \<leftarrow> get_link cur k;
     if p = NULL then Some k
     else if p = kid then do {
       c \<leftarrow> nodes k kid;
       k1 \<leftarrow> set_link cur (node_next c) k;
       upd_node kid (\<lambda>c. c\<lparr>node_parent := NULL, node_next := NULL\<rparr>) k1 }
     else remove_loop (NextOf p) kid k }"

definition vfs_remove_child :: "ptr \<Rightarrow> ptr \<Rightarrow> 'a vfs_machine_scheme \<Rightarrow> 'a vfs_machine_scheme option" where
  "vfs_remove_child parent kid k =
     (if parent = NULL \<or> kid = NULL then Some k
      else do {
        p \<leftarrow> nodes k parent;
        if node_type p \<noteq> VFS_DIRECTORY then Some k else remove_loop (ChildrenOf parent) kid k })"

partial_function (option) find_child_loop :: "ptr \<Rightarrow> u8 list \<Rightarrow> 'a vfs_machine_scheme \<Rightarrow> ptr option" where
  "find_child_loop cur nm k =
     (if cur = NULL then Some NULL
      else do {
        c \<leftarrow> nodes k cur;
        if node_name c = nm then Some cur else find_child_loop (node_next c) nm k })"

definition vfs_find_child :: "ptr \<Rightarrow> cstring \<Rightarrow> 'a vfs_machine_scheme \<Rightarrow> ptr option" where
  "vfs_find_child parent nm k =
     (case nm of
        None \<Rightarrow> Some NULL
      | Some s \<Rightarrow>
          if parent = NULL then Some NULL
          else do {
            p \<leftarrow> nodes k parent;
            if node_type p \<noteq> VFS_DIRECTORY then Some NULL else find_child_loop (children p) s k })"

subsection \<open>Paths\<close>

text \<open>
  The next component of a path: slashes are skipped, and at most 127 bytes up to the next slash
  are copied to \<^verbatim>\<open>part\<close>; all bytes up to the slash are consumed.
\<close>

definition skip_slashes :: "u8 list \<Rightarrow> u8 list" where
  "skip_slashes s = dropWhile (\<lambda>c. c = slash) s"

definition path_part :: "u8 list \<Rightarrow> u8 list" where
  "path_part s = take 127 (takeWhile (\<lambda>c. c \<noteq> slash) s)"

definition path_rest :: "u8 list \<Rightarrow> u8 list" where
  "path_rest s = dropWhile (\<lambda>c. c \<noteq> slash) s"

type_synonym 'k find_node = "ptr \<Rightarrow> u8 list \<Rightarrow> 'k \<Rightarrow> (ptr \<times> 'k) option"

text \<open>
  The lookup a mounted driver offers first; only the FAT driver has one. Its result is linked under
  the mount point.
\<close>

definition mount_find ::
    "('a vfs_machine_scheme) find_node \<Rightarrow> ptr \<Rightarrow> u8 list \<Rightarrow> 'a vfs_machine_scheme \<Rightarrow> (ptr \<times> 'a vfs_machine_scheme) option" where
  "mount_find fat cur part k = do {
     n \<leftarrow> nodes k cur;
     if is_mountpoint n \<and> node_ops n = Fat32Ops
     then do {
       (disk_node, k1) \<leftarrow> fat cur part k;
       if disk_node \<noteq> NULL then do { k2 \<leftarrow> vfs_add_child cur disk_node k1; Some (disk_node, k2) }
       else Some (NULL, k1) }
     else Some (NULL, k) }"

lemma path_rest_shorter: "skip_slashes s \<noteq> [] \<Longrightarrow> length (path_rest (skip_slashes s)) < length s"
proof -
  assume ne: "skip_slashes s \<noteq> []"
  then have "hd (skip_slashes s) \<noteq> slash" unfolding skip_slashes_def using hd_dropWhile by blast
  then have "path_rest (skip_slashes s) = path_rest (tl (skip_slashes s))"
    using ne by (cases "skip_slashes s") (simp_all add: path_rest_def)
  moreover have "length (path_rest (tl (skip_slashes s))) \<le> length (tl (skip_slashes s))"
    unfolding path_rest_def by (rule length_dropWhile_le)
  moreover have "length (skip_slashes s) \<le> length s" unfolding skip_slashes_def by (rule length_dropWhile_le)
  moreover have "length (tl (skip_slashes s)) < length (skip_slashes s)" using ne by (cases "skip_slashes s") simp_all
  ultimately show ?thesis by simp
qed

function path_loop ::
    "('a vfs_machine_scheme) find_node \<Rightarrow> ptr \<Rightarrow> u8 list \<Rightarrow> 'a vfs_machine_scheme \<Rightarrow> (ptr \<times> 'a vfs_machine_scheme) option" where
  "path_loop fat cur s k =
     (let s1 = skip_slashes s in
      if s1 = [] then Some (cur, k)
      else do {
        (disk_node, k1) \<leftarrow> mount_find fat cur (path_part s1) k;
        if disk_node \<noteq> NULL then path_loop fat disk_node (path_rest s1) k1
        else do {
          nxt \<leftarrow> vfs_find_child cur (Some (path_part s1)) k1;
          if nxt = NULL then Some (NULL, k1) else path_loop fat nxt (path_rest s1) k1 } })"
  by pat_completeness auto
termination
  by (relation "measure (\<lambda>(fat, cur, s, k). length s)") (auto simp: path_rest_shorter)

definition vfs_path_to_node ::
    "('a vfs_machine_scheme) find_node \<Rightarrow> cstring \<Rightarrow> 'a vfs_machine_scheme \<Rightarrow> (ptr \<times> 'a vfs_machine_scheme) option" where
  "vfs_path_to_node fat path k =
     (case path of
        None \<Rightarrow> Some (NULL, k)
      | Some [] \<Rightarrow> Some (NULL, k)
      | Some (c # s) \<Rightarrow>
          if c \<noteq> slash then Some (NULL, k) else if s = [] then Some (root_node k, k)
          else path_loop fat (root_node k) s k)"

text \<open>
  A missing directory that cannot be allocated leaves a null \<^verbatim>\<open>curr\<close>; the rest of the path then
  finds and links nothing.
\<close>

function register_loop :: "ptr \<Rightarrow> u8 list \<Rightarrow> ptr \<Rightarrow> u64 \<Rightarrow> 'a vfs_machine_scheme \<Rightarrow> 'a vfs_machine_scheme option" where
  "register_loop cur s data sz k =
     (let s1 = skip_slashes s; part = path_part s1 in
      if s1 = [] then Some k
      else if path_rest s1 = [] then do {
        (f, k1) \<leftarrow> vfs_create_node (Some part) VFS_FILE k;
        if f = NULL then Some k1
        else do {
          k2 \<leftarrow> upd_node f (\<lambda>n. n\<lparr>node_data := data, node_size := sz\<rparr>) k1;
          vfs_add_child cur f k2 } }
      else do {
        dir \<leftarrow> vfs_find_child cur (Some part) k;
        (dir, k1) \<leftarrow>
          (if dir = NULL then do {
             (d, k') \<leftarrow> vfs_create_node (Some part) VFS_DIRECTORY k;
             k'' \<leftarrow> vfs_add_child cur d k';
             Some (d, k'') }
           else Some (dir, k));
        register_loop dir (path_rest s1) data sz k1 })"
  by pat_completeness auto
termination
  by (relation "measure (\<lambda>(cur, s, data, sz, k). length s)") (auto simp: path_rest_shorter)

definition vfs_register_file :: "cstring \<Rightarrow> ptr \<Rightarrow> u64 \<Rightarrow> 'a vfs_machine_scheme \<Rightarrow> 'a vfs_machine_scheme option" where
  "vfs_register_file path data sz k =
     (case path of
        Some (c # s) \<Rightarrow> if root_node k = NULL \<or> c \<noteq> slash then Some k else register_loop (root_node k) s data sz k
      | _ \<Rightarrow> Some k)"

subsection \<open>Memory-backed nodes\<close>

definition mem_vfs_read ::
    "ptr \<Rightarrow> ptr \<Rightarrow> u64 \<Rightarrow> u64 \<Rightarrow> 'a vfs_machine_scheme \<Rightarrow> (u32 \<times> 'a vfs_machine_scheme) option" where
  "mem_vfs_read nd buf sz offset k =
     (if nd = NULL \<or> buf = NULL then Some (- 1, k)
      else do {
        n \<leftarrow> nodes k nd;
        if node_data n = NULL \<or> offset \<ge> node_size n then Some (0, k)
        else do {
          let to_read = (if offset + sz > node_size n then node_size n - offset else sz);
          k1 \<leftarrow> heap_memcpy buf (node_data n + offset) to_read k;
          Some (ucast to_read, k1) } })"

definition mem_vfs_ioctl :: "ptr \<Rightarrow> u64 \<Rightarrow> ptr \<Rightarrow> 'a vfs_machine_scheme \<Rightarrow> (u32 \<times> 'a vfs_machine_scheme) option" where
  "mem_vfs_ioctl nd request argp k = Some (- ENOTTY, k)"

definition mem_vfs_write ::
    "ptr \<Rightarrow> ptr \<Rightarrow> u64 \<Rightarrow> u64 \<Rightarrow> 'a vfs_machine_scheme \<Rightarrow> (u32 \<times> 'a vfs_machine_scheme) option" where
  "mem_vfs_write nd buf sz offset k =
     (if nd = NULL \<or> buf = NULL then Some (- 1, k)
      else do {
        n \<leftarrow> nodes k nd;
        let required_size = offset + sz;
        (ok, k1) \<leftarrow>
          (if required_size > node_size n then do {
             (new_data, k') \<leftarrow> krealloc (node_data n) required_size k;
             if new_data = NULL \<and> required_size > 0 then Some (False, k')
             else do {
               k'' \<leftarrow> upd_node nd (\<lambda>n. n\<lparr>node_data := new_data, node_size := required_size\<rparr>) k';
               Some (True, k'') } }
           else Some (True, k));
        if \<not> ok then Some (- ENOMEM, k1)
        else do {
          n1 \<leftarrow> nodes k1 nd;
          k2 \<leftarrow> heap_memcpy (node_data n1 + offset) buf sz k1;
          Some (ucast sz, k2) } })"

definition mem_vfs_create :: "ptr \<Rightarrow> cstring \<Rightarrow> vfs_type \<Rightarrow> 'a vfs_machine_scheme \<Rightarrow> (ptr \<times> 'a vfs_machine_scheme) option" where
  "mem_vfs_create parent nm ty k =
     (if parent = NULL then Some (NULL, k)
      else do {
        p \<leftarrow> nodes k parent;
        if node_type p \<noteq> VFS_DIRECTORY then Some (NULL, k)
        else do {
          (n, k1) \<leftarrow> vfs_create_node nm ty k;
          if n = NULL then Some (NULL, k1)
          else do {
            k2 \<leftarrow> upd_node n (\<lambda>n. n\<lparr>node_ops := MemOps\<rparr>) k1;
            k3 \<leftarrow> vfs_add_child parent n k2;
            Some (n, k3) } } })"

text \<open>Dispatch through the operation table; a table entry that is null has no function.\<close>

type_synonym 'k rw_op = "ptr \<Rightarrow> ptr \<Rightarrow> u64 \<Rightarrow> u64 \<Rightarrow> 'k \<Rightarrow> (u32 \<times> 'k) option"

definition vfs_read ::
    "(vfs_ops_t \<Rightarrow> ('a vfs_machine_scheme) rw_op option) \<Rightarrow> ('a vfs_machine_scheme) rw_op" where
  "vfs_read table nd buf sz offset k =
     (if nd = NULL then Some (- 1, k)
      else do {
        n \<leftarrow> nodes k nd;
        case table (node_ops n) of None \<Rightarrow> Some (- 1, k) | Some f \<Rightarrow> f nd buf sz offset k })"

definition vfs_write ::
    "(vfs_ops_t \<Rightarrow> ('a vfs_machine_scheme) rw_op option) \<Rightarrow> ('a vfs_machine_scheme) rw_op" where
  "vfs_write table nd buf sz offset k =
     (if nd = NULL then Some (- 1, k)
      else do {
        n \<leftarrow> nodes k nd;
        case table (node_ops n) of None \<Rightarrow> Some (- 1, k) | Some f \<Rightarrow> f nd buf sz offset k })"

definition devfs_null_read :: "('a vfs_machine_scheme) rw_op" where
  "devfs_null_read nd buf sz offset k = Some (0, k)"

definition devfs_null_write :: "('a vfs_machine_scheme) rw_op" where
  "devfs_null_write nd buf sz offset k = Some (ucast sz, k)"

definition devfs_zero_read :: "('a vfs_machine_scheme) rw_op" where
  "devfs_zero_read nd buf sz offset k = map_option (Pair (ucast sz)) (heap_memset buf 0 sz k)"

definition devfs_zero_write :: "('a vfs_machine_scheme) rw_op" where
  "devfs_zero_write nd buf sz offset k = Some (ucast sz, k)"

end
