(* ===== verification/Ring.thy ===== *)
theory Ring
  imports Main
begin

text \<open>
  Bounded queues. The kernel's drivers pass data in ring buffers: an array with a head, where the
  producer writes, and a tail, where the consumer reads; the ring is empty when they are equal, so
  one cell always stays unused. The locales state what a client may rely on, and what the two
  overflow policies of the drivers do to a whole stream.
\<close>

section \<open>The contents of a ring\<close>

definition ring :: "nat \<Rightarrow> 'e list \<Rightarrow> nat \<Rightarrow> nat \<Rightarrow> 'e list" where
  "ring n buf h t = map (\<lambda>i. buf ! ((t + i) mod n)) [0..<(h + n - t) mod n]"

definition ring_ok :: "nat \<Rightarrow> 'e list \<Rightarrow> nat \<Rightarrow> nat \<Rightarrow> bool" where
  "ring_ok n buf h t \<longleftrightarrow> 1 < n \<and> length buf = n \<and> h < n \<and> t < n"

lemma ring_distance:
  fixes h n t :: nat
  assumes "h < n" "t < n"
  shows "(h + n - t) mod n = (if t \<le> h then h - t else h + n - t)"
proof (cases "t \<le> h")
  case True
  then have "h + n - t = (h - t) + n" by linarith
  then show ?thesis using True assms by (simp only: mod_add_self2 if_True) simp
next
  case False
  then show ?thesis using assms by simp
qed

lemma ring_length: "ring_ok n buf h t \<Longrightarrow> length (ring n buf h t) = (if t \<le> h then h - t else h + n - t)"
  by (simp add: ring_def ring_ok_def ring_distance)

lemma ring_bound: "ring_ok n buf h t \<Longrightarrow> length (ring n buf h t) < n"
  by (auto simp: ring_length ring_ok_def)

lemma ring_empty_iff: "ring_ok n buf h t \<Longrightarrow> ring n buf h t = [] \<longleftrightarrow> h = t"
  unfolding length_0_conv [symmetric] by (auto simp: ring_length ring_ok_def)

lemma Suc_ring: "h < n \<Longrightarrow> Suc h mod n = (if Suc h = n then 0 else Suc h)"
  by simp

lemma ring_full_iff: "ring_ok n buf h t \<Longrightarrow> Suc h mod n = t \<longleftrightarrow> length (ring n buf h t) = n - 1"
  by (auto simp: ring_length ring_ok_def Suc_ring split: if_splits)

lemma ring_ok_put: "ring_ok n buf h t \<Longrightarrow> ring_ok n (buf[h := x]) (Suc h mod n) t"
  by (simp add: ring_ok_def)

lemma ring_ok_get: "ring_ok n buf h t \<Longrightarrow> ring_ok n buf h (Suc t mod n)"
  by (simp add: ring_ok_def)

lemma ring_put:
  assumes ok: "ring_ok n buf h t" and room: "Suc h mod n \<noteq> t"
  shows "ring n (buf[h := x]) (Suc h mod n) t = ring n buf h t @ [x]"
proof -
  define l where "l = length (ring n buf h t)"
  have n: "h < n" "t < n" "length buf = n" using ok by (auto simp: ring_ok_def)
  have l': "length (ring n (buf[h := x]) (Suc h mod n) t) = Suc l"
    using ring_length [OF ring_ok_put [OF ok]] ring_length [OF ok] n room by (auto simp: l_def Suc_ring split: if_splits)
  have at: "(t + l) mod n = h"
    using ring_length [OF ok] n by (auto simp: l_def)
  have other: "(t + i) mod n \<noteq> h" if "i < l" for i
  proof
    assume eq: "(t + i) mod n = h"
    have "l < n" using ring_bound [OF ok] by (simp add: l_def)
    then have "(t + l) mod n = (t + i) mod n \<Longrightarrow> l = i"
      using that n by (auto simp: mod_if split: if_splits)
    then show False using eq at that by simp
  qed
  show ?thesis
  proof (rule nth_equalityI)
    show "length (ring n (buf[h := x]) (Suc h mod n) t) = length (ring n buf h t @ [x])"
      using l' by (simp add: l_def)
    fix i assume i: "i < length (ring n (buf[h := x]) (Suc h mod n) t)"
    then have "ring n (buf[h := x]) (Suc h mod n) t ! i = buf[h := x] ! ((t + i) mod n)"
      by (simp add: ring_def)
    also have "\<dots> = (ring n buf h t @ [x]) ! i"
    proof (cases "i < l")
      case True
      then show ?thesis using other [OF True] by (simp add: nth_append l_def) (simp add: ring_def)
    next
      case False
      then have "i = l" using i l' by simp
      then show ?thesis using at n by (simp add: l_def nth_append)
    qed
    finally show "ring n (buf[h := x]) (Suc h mod n) t ! i = (ring n buf h t @ [x]) ! i" .
  qed
qed

lemma ring_get:
  assumes ok: "ring_ok n buf h t" and ne: "h \<noteq> t"
  shows "ring n buf h t = buf ! t # ring n buf h (Suc t mod n)"
proof (rule nth_equalityI)
  have n: "h < n" "t < n" using ok by (auto simp: ring_ok_def)
  show len: "length (ring n buf h t) = length (buf ! t # ring n buf h (Suc t mod n))"
    using ring_length [OF ok] ring_length [OF ring_ok_get [OF ok]] n ne by (auto simp: Suc_ring split: if_splits)
  fix i assume i: "i < length (ring n buf h t)"
  show "ring n buf h t ! i = (buf ! t # ring n buf h (Suc t mod n)) ! i"
  proof (cases i)
    case 0
    then show ?thesis using i n by (simp add: ring_def)
  next
    case (Suc j)
    have "ring n buf h (Suc t mod n) ! j = buf ! ((Suc t mod n + j) mod n)"
      using i len Suc by (simp add: ring_def)
    moreover have "(Suc t mod n + j) mod n = (t + i) mod n" using Suc by (simp add: mod_add_left_eq)
    ultimately show ?thesis using i Suc by (simp add: ring_def)
  qed
qed

section \<open>Contracts\<close>

primrec get_all :: "('s \<Rightarrow> 'e \<times> 's) \<Rightarrow> nat \<Rightarrow> 's \<Rightarrow> 'e list \<times> 's" where
  "get_all get 0 s = ([], s)"
| "get_all get (Suc n) s = (let (x, s1) = get s; (xs, s2) = get_all get n s1 in (x # xs, s2))"

text \<open>A queue that works while it has room.\<close>

locale fifo =
  fixes wf :: "'s \<Rightarrow> bool" and items :: "'s \<Rightarrow> 'e list" and room :: nat
    and put :: "'e \<Rightarrow> 's \<Rightarrow> 's" and get :: "'s \<Rightarrow> 'e \<times> 's"
  assumes put_wf: "wf s \<Longrightarrow> wf (put x s)"
    and put_room: "wf s \<Longrightarrow> length (items s) < room \<Longrightarrow> items (put x s) = items s @ [x]"
    and get_wf: "wf s \<Longrightarrow> items s \<noteq> [] \<Longrightarrow> wf (snd (get s))"
    and get_items: "wf s \<Longrightarrow> items s \<noteq> [] \<Longrightarrow> items s = fst (get s) # items (snd (get s))"
    and items_room: "wf s \<Longrightarrow> length (items s) \<le> room"
begin

lemma put_all_wf: "wf s \<Longrightarrow> wf (fold put xs s)"
  by (induction xs arbitrary: s) (simp_all add: put_wf)

lemma put_all_room: "wf s \<Longrightarrow> length (items s) + length xs \<le> room \<Longrightarrow> items (fold put xs s) = items s @ xs"
  by (induction xs arbitrary: s) (simp_all add: put_wf put_room)

lemma get_all_items:
  "wf s \<Longrightarrow> n \<le> length (items s) \<Longrightarrow>
     fst (get_all get n s) = take n (items s) \<and> items (snd (get_all get n s)) = drop n (items s) \<and> wf (snd (get_all get n s))"
proof (induction n arbitrary: s)
  case (Suc n)
  then have ne: "items s \<noteq> []" by auto
  note s = get_items [OF Suc.prems(1) ne]
  have "n \<le> length (items (snd (get s)))" using Suc.prems(2) s by (metis Suc_le_mono length_Cons)
  from Suc.IH [OF get_wf [OF Suc.prems(1) ne] this] show ?case
    by (cases "get s"; cases "get_all get n (snd (get s))"; subst (1 2) s) simp
qed simp

text \<open>What is put into an empty queue with enough room comes out unchanged and in order.\<close>

lemma first_in_first_out:
  assumes "wf s" "items s = []" "length xs \<le> room"
  shows "fst (get_all get (length xs) (fold put xs s)) = xs"
  using get_all_items [OF put_all_wf [OF assms(1)], of "length xs" xs] put_all_room [OF assms(1), of xs] assms by simp

end

text \<open>A full queue refuses what comes next.\<close>

locale drop_newest = fifo +
  assumes put_full: "wf s \<Longrightarrow> length (items s) = room \<Longrightarrow> items (put x s) = items s"
begin

lemma put_stream: "wf s \<Longrightarrow> items (fold put xs s) = items s @ take (room - length (items s)) xs"
proof (induction xs arbitrary: s)
  case (Cons x xs)
  show ?case
  proof (cases "length (items s) = room")
    case True
    then show ?thesis using Cons by (simp add: put_wf put_full)
  next
    case False
    then have "length (items s) < room" using items_room [OF Cons.prems] by simp
    then show ?thesis using Cons by (simp add: put_wf put_room take_Cons')
  qed
qed simp

end

text \<open>A full queue forgets its oldest item.\<close>

locale drop_oldest = fifo +
  assumes put_full: "wf s \<Longrightarrow> length (items s) = room \<Longrightarrow> items (put x s) = tl (items s) @ [x]"
    and some_room: "0 < room"
begin

lemma put_recent: "wf s \<Longrightarrow> items (fold put xs s) = drop (length (items s) + length xs - room) (items s @ xs)"
proof (induction xs arbitrary: s)
  case Nil
  then show ?case using items_room by simp
next
  case (Cons x xs)
  show ?case
  proof (cases "length (items s) = room")
    case True
    then have "items s \<noteq> []" using some_room by auto
    then have "items s @ x # xs = hd (items s) # (tl (items s) @ [x]) @ xs" by simp
    then show ?thesis using Cons True some_room by (simp add: put_wf put_full drop_Cons' Suc_diff_le drop_Suc)
  next
    case False
    then have "length (items s) < room" using items_room [OF Cons.prems] by simp
    then show ?thesis using Cons by (simp add: put_wf put_room del: drop_append)
  qed
qed

end

end
