(* ===== verification/Tty.thy ===== *)
theory Tty
  imports Vfs Ring
begin

text \<open>
  Terminal input and output: the line discipline of \<^verbatim>\<open>kernel/tty.c\<close>, the scan code decoder of
  \<^verbatim>\<open>kernel/keyboard.c\<close> and the event queue of \<^verbatim>\<open>kernel/vfs/devfs/evdev\<close>. What is sent to the screen
  and to the debug port is recorded. Bytes that \<^verbatim>\<open>tty_read\<close> stores through its buffer argument are
  returned as a list. A reader that halts the processor is given the list of interrupts that
  arrive; when the list is used up it is still waiting and has no result.
\<close>

section \<open>Definitions\<close>

subsection \<open>State\<close>

record termios =
  c_iflag :: u32
  c_oflag :: u32
  c_cflag :: u32
  c_lflag :: u32
  c_line :: u8
  c_cc :: "u8 list"

definition ICRNL :: u32 where "ICRNL = 0x100"
definition OPOST :: u32 where "OPOST = 1"
definition ONLCR :: u32 where "ONLCR = 4"
definition ISIG :: u32 where "ISIG = 1"
definition ICANON :: u32 where "ICANON = 2"
definition ECHO :: u32 where "ECHO = 8"

definition MAX_TTYS :: nat where "MAX_TTYS = 2"
definition TTY_BUF_SIZE :: u64 where "TTY_BUF_SIZE = 4096"
definition sizeof_tty_t :: u64 where "sizeof_tty_t = 8280"
definition sizeof_tty_device_t :: u64 where "sizeof_tty_device_t = 16"

record tty_t =
  cooked_buf :: "u8 list"
  cooked_head :: u64
  cooked_tail :: u64
  line_buf :: "u8 list"
  line_len :: u64
  tty_termios :: termios
  waiting_reader :: ptr

record tty_device_t =
  dev_tty :: ptr
  dev_node :: ptr

record input_event =
  ev_type :: u16
  ev_code :: u16
  ev_value :: "32 word"

record evdev_state_t =
  ev_buffer :: "input_event list"
  ev_head :: nat
  ev_tail :: nat

definition EV_BUFFER_SIZE :: nat where "EV_BUFFER_SIZE = 64"
definition KB_BUF_SIZE :: u64 where "KB_BUF_SIZE = 256"

text \<open>The static objects of the three drivers; the arrays lie at fixed addresses of the kernel image.\<close>

record console = vfs_machine +
  ttys_at :: ptr
  tty_devices_at :: ptr
  tty_nodes_at :: ptr
  ttys :: "tty_t list"
  tty_devices :: "tty_device_t list"
  active_tty :: nat
  ft_ctx :: bool
  screen :: "u8 list"
  debug_port :: "u8 list"
  kb_buffer :: "u8 list"
  kb_head :: u64
  kb_tail :: u64
  shift_pressed :: bool
  ctrl_pressed :: bool
  extended :: bool
  kbd_event_node :: ptr
  evdevs :: "ptr \<rightharpoonup> evdev_state_t"

definition tty_ptr :: "'a console_scheme \<Rightarrow> nat \<Rightarrow> ptr" where
  "tty_ptr k i = ttys_at k + of_nat i * sizeof_tty_t"

definition tty_index :: "'a console_scheme \<Rightarrow> ptr \<Rightarrow> nat option" where
  "tty_index k p = find_idx MAX_TTYS (\<lambda>i. tty_ptr k i = p)"

definition device_index :: "'a console_scheme \<Rightarrow> ptr \<Rightarrow> nat option" where
  "device_index k p = find_idx MAX_TTYS (\<lambda>i. tty_devices_at k + of_nat i * sizeof_tty_device_t = p)"

definition upd_tty :: "nat \<Rightarrow> (tty_t \<Rightarrow> tty_t) \<Rightarrow> 'a console_scheme \<Rightarrow> 'a console_scheme" where
  "upd_tty i f k = k\<lparr>ttys := (ttys k)[i := f (ttys k ! i)]\<rparr>"

subsection \<open>Output\<close>

definition terminal_putchar :: "u8 \<Rightarrow> 'a console_scheme \<Rightarrow> 'a console_scheme" where
  "terminal_putchar c k = (if \<not> ft_ctx k then k else k\<lparr>screen := screen k @ [c]\<rparr>)"

definition terminal_backspace :: "'a console_scheme \<Rightarrow> 'a console_scheme" where
  "terminal_backspace k = (if \<not> ft_ctx k then k else k\<lparr>screen := screen k @ [0x08, 0x20, 0x08]\<rparr>)"

definition terminal_write :: "u8 list \<Rightarrow> 'a console_scheme \<Rightarrow> 'a console_scheme" where
  "terminal_write = fold terminal_putchar"

definition debug_putcharn :: "u8 \<Rightarrow> 'a console_scheme \<Rightarrow> 'a console_scheme" where
  "debug_putcharn c k = k\<lparr>debug_port := debug_port k @ [c]\<rparr>"

definition tty_write_char :: "nat \<Rightarrow> u8 \<Rightarrow> 'a console_scheme \<Rightarrow> 'a console_scheme" where
  "tty_write_char i c k =
     (let fl = c_oflag (tty_termios (ttys k ! i));
          k = (if fl AND OPOST \<noteq> 0 \<and> fl AND ONLCR \<noteq> 0 \<and> c = 10 then debug_putcharn 13 (terminal_putchar 13 k) else k)
      in debug_putcharn c (terminal_putchar c k))"

definition tty_write :: "nat option \<Rightarrow> u8 list option \<Rightarrow> 'a console_scheme \<Rightarrow> u64 \<times> 'a console_scheme" where
  "tty_write tty buf k =
     (case (tty, buf) of
        (Some i, Some bs) \<Rightarrow> (of_nat (length bs), fold (tty_write_char i) bs k)
      | _ \<Rightarrow> (- 1, k))"

subsection \<open>The cooked buffer\<close>

definition tty_buf_empty :: "tty_t \<Rightarrow> bool" where
  "tty_buf_empty t \<longleftrightarrow> cooked_head t = cooked_tail t"

definition tty_buf_full :: "tty_t \<Rightarrow> bool" where
  "tty_buf_full t \<longleftrightarrow> (cooked_head t + 1) mod TTY_BUF_SIZE = cooked_tail t"

definition tty_buf_put :: "u8 \<Rightarrow> tty_t \<Rightarrow> tty_t" where
  "tty_buf_put c t =
     (if tty_buf_full t then t
      else t\<lparr>cooked_buf := (cooked_buf t)[unat (cooked_head t) := c],
             cooked_head := (cooked_head t + 1) mod TTY_BUF_SIZE\<rparr>)"

definition tty_buf_get :: "tty_t \<Rightarrow> u8 \<times> tty_t" where
  "tty_buf_get t = (cooked_buf t ! unat (cooked_tail t), t\<lparr>cooked_tail := (cooked_tail t + 1) mod TTY_BUF_SIZE\<rparr>)"

definition tty_wake_reader :: "nat \<Rightarrow> 'a console_scheme \<Rightarrow> 'a console_scheme option" where
  "tty_wake_reader i k =
     (let proc = waiting_reader (ttys k ! i) in
      if proc = NULL then Some k
      else do {
        let k1 = upd_tty i (\<lambda>t. t\<lparr>waiting_reader := NULL\<rparr>) k;
        p \<leftarrow> proc_at proc k1;
        if state p \<noteq> TASK_WAITING \<or> wait_reason p \<noteq> WAIT_TTY \<or> wait_channel p \<noteq> tty_ptr k1 i then Some k1
        else upd_proc proc (\<lambda>p. p\<lparr>wait_reason := WAIT_NONE, wait_channel := NULL, wait_pid := - 1, state := TASK_READY\<rparr>) k1 })"

subsection \<open>The line discipline\<close>

definition tty_echo :: "u8 \<Rightarrow> 'a console_scheme \<Rightarrow> 'a console_scheme" where
  "tty_echo c k = debug_putcharn c (terminal_putchar c k)"

primrec flush_line :: "u8 list \<Rightarrow> tty_t \<Rightarrow> tty_t" where
  "flush_line [] t = t"
| "flush_line (c # cs) t = (if tty_buf_full t then t else flush_line cs (tty_buf_put c t))"

definition tty_input_raw :: "nat \<Rightarrow> u8 \<Rightarrow> 'a console_scheme \<Rightarrow> 'a console_scheme option" where
  "tty_input_raw i c k =
     (let k1 = (if c_lflag (tty_termios (ttys k ! i)) AND ECHO \<noteq> 0
                then if c = 127 then terminal_backspace k else tty_echo c k
                else k)
      in tty_wake_reader i (upd_tty i (tty_buf_put c) k1))"

definition tty_input_canonical :: "nat \<Rightarrow> u8 \<Rightarrow> 'a console_scheme \<Rightarrow> 'a console_scheme option" where
  "tty_input_canonical i c k =
     (let t = ttys k ! i; echo = (c_lflag (tty_termios t) AND ECHO \<noteq> 0) in
      if c = 127 then
        Some (if line_len t > 0
              then let k1 = upd_tty i (\<lambda>t. t\<lparr>line_len := line_len t - 1\<rparr>) k in if echo then terminal_backspace k1 else k1
              else k)
      else
        let k1 = (if echo then tty_echo c k else k) in
        if line_len t \<ge> TTY_BUF_SIZE - 1 then Some (upd_tty i (\<lambda>t. t\<lparr>line_len := 0\<rparr>) k1)
        else
          let k2 = upd_tty i (\<lambda>t. t\<lparr>line_buf := (line_buf t)[unat (line_len t) := c], line_len := line_len t + 1\<rparr>) k1 in
          if c = 10
          then tty_wake_reader i
                 (upd_tty i (\<lambda>t. (flush_line (take (unat (line_len t)) (line_buf t)) t)\<lparr>line_len := 0\<rparr>) k2)
          else Some k2)"

definition tty_input_char :: "nat \<Rightarrow> u8 \<Rightarrow> 'a console_scheme \<Rightarrow> 'a console_scheme option" where
  "tty_input_char i c k =
     (if length (ttys k) \<le> i then None
      else
        let tm = tty_termios (ttys k ! i);
            c = (if c_iflag tm AND ICRNL \<noteq> 0 \<and> c = 13 then 10 else c)
        in if c_lflag tm AND ICANON = 0 then tty_input_raw i c k else tty_input_canonical i c k)"

subsection \<open>Reading\<close>

datatype wait_end = Nonblocking | Ready

text \<open>The inner loop of \<^verbatim>\<open>tty_read\<close>: every halt ends with the next interrupt of the list.\<close>

fun tty_wait :: "nat \<Rightarrow> bool \<Rightarrow> ('a console_scheme \<Rightarrow> 'a console_scheme option) list \<Rightarrow> 'a console_scheme
    \<Rightarrow> (wait_end \<times> ('a console_scheme \<Rightarrow> 'a console_scheme option) list \<times> 'a console_scheme) option" where
  "tty_wait i nonblock irqs k =
     (if \<not> tty_buf_empty (ttys k ! i) then Some (Ready, irqs, k)
      else if nonblock then Some (Nonblocking, irqs, k)
      else if current_process k = NULL then Some (Ready, irqs, k)
      else do {
        let k1 = upd_tty i (\<lambda>t. t\<lparr>waiting_reader := current_process k\<rparr>) k;
        k2 \<leftarrow> upd_proc (current_process k)
               (\<lambda>p. p\<lparr>wait_reason := WAIT_TTY, wait_channel := tty_ptr k i, wait_pid := - 1, state := TASK_WAITING\<rparr>) k1;
        case irqs of
          [] \<Rightarrow> None
        | irq # rest \<Rightarrow> do { k3 \<leftarrow> irq k2; tty_wait i nonblock rest k3 } })"

fun tty_read_loop :: "nat \<Rightarrow> nat \<Rightarrow> bool \<Rightarrow> ('a console_scheme \<Rightarrow> 'a console_scheme option) list \<Rightarrow> 'a console_scheme
    \<Rightarrow> (u8 list \<times> ('a console_scheme \<Rightarrow> 'a console_scheme option) list \<times> 'a console_scheme) option" where
  "tty_read_loop i 0 nonblock irqs k = Some ([], irqs, k)"
| "tty_read_loop i (Suc n) nonblock irqs k = do {
     (why, irqs1, k1) \<leftarrow> tty_wait i nonblock irqs k;
     if why = Nonblocking \<or> tty_buf_empty (ttys k1 ! i) then Some ([], irqs1, k1)
     else do {
       let c = fst (tty_buf_get (ttys k1 ! i));
       let k2 = upd_tty i (\<lambda>t. snd (tty_buf_get t)) k1;
       if c_lflag (tty_termios (ttys k2 ! i)) AND ICANON \<noteq> 0 \<and> c = 10 then Some ([c], irqs1, k2)
       else do {
         (cs, irqs3, k3) \<leftarrow> tty_read_loop i n nonblock irqs1 k2;
         Some (c # cs, irqs3, k3) } } }"

definition tty_read :: "nat option \<Rightarrow> ptr \<Rightarrow> u64 \<Rightarrow> bool \<Rightarrow> ('a console_scheme \<Rightarrow> 'a console_scheme option) list \<Rightarrow> 'a console_scheme
    \<Rightarrow> (u8 list \<times> ('a console_scheme \<Rightarrow> 'a console_scheme option) list \<times> 'a console_scheme) option" where
  "tty_read tty buf n nonblock irqs k =
     (case tty of
        None \<Rightarrow> Some ([], irqs, k)
      | Some i \<Rightarrow> if buf = NULL \<or> n = 0 then Some ([], irqs, k) else tty_read_loop i (unat n) nonblock irqs k)"

subsection \<open>The device files\<close>

text \<open>The first device file stands for the active terminal.\<close>

definition tty_target :: "ptr \<Rightarrow> 'a console_scheme \<Rightarrow> nat option option" where
  "tty_target nd k = do {
     n \<leftarrow> nodes k nd;
     case device_index k (internal_data n) of
       None \<Rightarrow> if internal_data n = NULL then Some None else None
     | Some d \<Rightarrow>
         if dev_tty (tty_devices k ! d) = NULL then Some None
         else if d = 0 then Some (Some (active_tty k))
         else case tty_index k (dev_tty (tty_devices k ! d)) of None \<Rightarrow> None | Some i \<Rightarrow> Some (Some i) }"

primrec first_flags :: "ptr \<Rightarrow> ptr list \<Rightarrow> 'a console_scheme \<Rightarrow> u32 option" where
  "first_flags nd [] k = Some 0"
| "first_flags nd (f # fs) k =
     (if f = NULL then first_flags nd fs k
      else do { r \<leftarrow> open_files k f; if file_node r = nd then Some (file_flags r) else first_flags nd fs k })"

definition tty_vfs_read :: "ptr \<Rightarrow> ptr \<Rightarrow> u64 \<Rightarrow> u64 \<Rightarrow> ('a console_scheme \<Rightarrow> 'a console_scheme option) list \<Rightarrow> 'a console_scheme
    \<Rightarrow> (u32 \<times> u8 list \<times> 'a console_scheme) option" where
  "tty_vfs_read nd buf n offset irqs k =
     (if nd = NULL \<or> buf = NULL then Some (- 1, [], k)
      else do {
        target \<leftarrow> tty_target nd k;
        case target of
          None \<Rightarrow> Some (- 1, [], k)
        | Some i \<Rightarrow> do {
            nonblock \<leftarrow>
              (if current_process k = NULL then Some False
               else do {
                 p \<leftarrow> proc_at (current_process k) k;
                 fl \<leftarrow> first_flags nd (take 32 (files p)) k;
                 Some (fl AND 0x800 \<noteq> 0) });
            (bs, _, k1) \<leftarrow> tty_read (Some i) buf n nonblock irqs k;
            Some (of_nat (length bs), bs, k1) } })"

definition tty_vfs_write :: "ptr \<Rightarrow> u8 list option \<Rightarrow> u64 \<Rightarrow> 'a console_scheme \<Rightarrow> (u32 \<times> 'a console_scheme) option" where
  "tty_vfs_write nd buf offset k =
     (if nd = NULL \<or> buf = None then Some (- 1, k)
      else do {
        target \<leftarrow> tty_target nd k;
        case target of
          None \<Rightarrow> Some (- 1, k)
        | Some i \<Rightarrow> Some (apfst ucast (tty_write (Some i) buf k)) })"

definition zero_termios :: termios where
  "zero_termios = \<lparr>c_iflag = 0, c_oflag = 0, c_cflag = 0, c_lflag = 0, c_line = 0, c_cc = replicate 32 0\<rparr>"

definition zero_tty :: tty_t where
  "zero_tty = \<lparr>cooked_buf = replicate 4096 0, cooked_head = 0, cooked_tail = 0, line_buf = replicate 4096 0,
     line_len = 0, tty_termios = zero_termios, waiting_reader = NULL\<rparr>"

definition tty_name :: "nat \<Rightarrow> u8 list" where
  "tty_name i = [0x74, 0x74, 0x79, 0x30 + of_nat i]"

definition tty_setup :: "ptr \<Rightarrow> nat \<Rightarrow> 'a console_scheme \<Rightarrow> 'a console_scheme option" where
  "tty_setup dev i k =
     (let nd = tty_nodes_at k + of_nat i * sizeof_vfs_node_t;
          k1 = upd_tty i (\<lambda>t. t\<lparr>tty_termios := (tty_termios t)
                 \<lparr>c_lflag := ICANON OR ECHO OR ISIG, c_iflag := ICRNL, c_oflag := OPOST OR ONLCR\<rparr>\<rparr>) k;
          k2 = k1\<lparr>tty_devices := (tty_devices k1)[i := \<lparr>dev_tty = tty_ptr k1 i, dev_node = nd\<rparr>],
                  nodes := (nodes k1)(nd \<mapsto> (new_node (tty_name i) VFS_DEVICE)
                    \<lparr>node_ops := TtyOps, internal_data := tty_devices_at k1 + of_nat i * sizeof_tty_device_t\<rparr>)\<rparr>
      in vfs_add_child dev nd k2)"

definition dev_path :: "u8 list" where
  "dev_path = [0x2f, 0x64, 0x65, 0x76]"

definition tty_init :: "('a console_scheme) find_node \<Rightarrow> 'a console_scheme \<Rightarrow> 'a console_scheme option" where
  "tty_init fat k = do {
     let k1 = k\<lparr>ttys := replicate MAX_TTYS zero_tty, tty_devices := replicate MAX_TTYS \<lparr>dev_tty = NULL, dev_node = NULL\<rparr>\<rparr>;
     (dev, k2) \<leftarrow> vfs_path_to_node fat (Some dev_path) k1;
     each (tty_setup dev) [0..<MAX_TTYS] k2 }"

text \<open>What \<^verbatim>\<open>tty_ioctl\<close> stores through its argument.\<close>

datatype ioctl_out = NoOut | OutTermios termios | OutWinsize "u16 list"

definition tty_ioctl :: "u64 \<Rightarrow> termios option \<Rightarrow> 'a console_scheme \<Rightarrow> u32 \<times> ioctl_out \<times> 'a console_scheme" where
  "tty_ioctl request argp k =
     (case argp of
        None \<Rightarrow> (- 1, NoOut, k)
      | Some arg \<Rightarrow>
          if request = 0x5401 then (0, OutTermios (tty_termios (ttys k ! active_tty k)), k)
          else if request = 0x5402 \<or> request = 0x5403 \<or> request = 0x5404
          then (0, NoOut, upd_tty (active_tty k) (\<lambda>t. t\<lparr>tty_termios := arg\<rparr>) k)
          else if request = 0x5413 then (0, OutWinsize [25, 80, 0, 0], k)
          else (- 1, NoOut, k))"

definition tty_open_file :: "int \<Rightarrow> u32 \<Rightarrow> 'a console_scheme \<Rightarrow> (ptr \<times> 'a console_scheme) option" where
  "tty_open_file i fl k =
     (if i < 0 \<or> i \<ge> int MAX_TTYS then Some (NULL, k)
      else do {
        (file, k1) \<leftarrow> kmalloc sizeof_vfs_file_t k;
        if file = NULL then Some (NULL, k1)
        else do {
          k2 \<leftarrow> heap_memset file 0 sizeof_vfs_file_t k1;
          Some (file, k2\<lparr>open_files := (open_files k2)(file \<mapsto>
            \<lparr>file_node = dev_node (tty_devices k2 ! nat i), file_pos = 0, file_flags = fl\<rparr>)\<rparr>) } })"

subsection \<open>Input events\<close>

definition evdev_put :: "input_event \<Rightarrow> evdev_state_t \<Rightarrow> evdev_state_t" where
  "evdev_put ev s =
     (let s1 = s\<lparr>ev_buffer := (ev_buffer s)[ev_head s := ev], ev_head := (ev_head s + 1) mod EV_BUFFER_SIZE\<rparr>
      in if ev_head s1 = ev_tail s1 then s1\<lparr>ev_tail := (ev_tail s1 + 1) mod EV_BUFFER_SIZE\<rparr> else s1)"

definition evdev_push_event :: "ptr \<Rightarrow> input_event \<Rightarrow> 'a console_scheme \<Rightarrow> 'a console_scheme option" where
  "evdev_push_event nd ev k = do {
     n \<leftarrow> nodes k nd;
     s \<leftarrow> evdevs k (internal_data n);
     Some (k\<lparr>evdevs := (evdevs k)(internal_data n \<mapsto> evdev_put ev s)\<rparr>) }"

definition evdev_get :: "evdev_state_t \<Rightarrow> input_event \<times> evdev_state_t" where
  "evdev_get s = (ev_buffer s ! ev_tail s, s\<lparr>ev_tail := (ev_tail s + 1) mod EV_BUFFER_SIZE\<rparr>)"

fun evdev_read_loop :: "nat \<Rightarrow> evdev_state_t \<Rightarrow> input_event list \<times> evdev_state_t" where
  "evdev_read_loop 0 s = ([], s)"
| "evdev_read_loop (Suc n) s =
     (if ev_head s = ev_tail s then ([], s)
      else let (e, s1) = evdev_get s; (es, s2) = evdev_read_loop n s1 in (e # es, s2))"

definition sizeof_input_event :: u64 where "sizeof_input_event = 24"

definition devfs_evdev_read :: "ptr \<Rightarrow> u64 \<Rightarrow> 'a console_scheme \<Rightarrow> (u32 \<times> input_event list \<times> 'a console_scheme) option" where
  "devfs_evdev_read nd n k = do {
     r \<leftarrow> nodes k nd;
     s \<leftarrow> evdevs k (internal_data r);
     let (es, s1) = evdev_read_loop (unat (n div sizeof_input_event)) s;
     Some (of_nat (length es) * ucast sizeof_input_event, es,
           k\<lparr>evdevs := (evdevs k)(internal_data r \<mapsto> s1)\<rparr>) }"

subsection \<open>The keyboard\<close>

definition ascii_table :: "(nat \<times> u8) list" where
  "ascii_table =
   [(0x01, 0x1b), (0x02, 0x31), (0x03, 0x32), (0x04, 0x33), (0x05, 0x34), (0x06, 0x35), (0x07, 0x36),
    (0x08, 0x37), (0x09, 0x38), (0x0a, 0x39), (0x0b, 0x30), (0x0c, 0x2d), (0x0d, 0x3d), (0x0e, 0x7f),
    (0x0f, 0x09), (0x10, 0x71), (0x11, 0x77), (0x12, 0x65), (0x13, 0x72), (0x14, 0x74), (0x15, 0x79),
    (0x16, 0x75), (0x17, 0x69), (0x18, 0x6f), (0x19, 0x70), (0x1a, 0x5b), (0x1b, 0x5d), (0x1c, 0x0d),
    (0x1e, 0x61), (0x1f, 0x73), (0x20, 0x64), (0x21, 0x66), (0x22, 0x67), (0x23, 0x68), (0x24, 0x6a),
    (0x25, 0x6b), (0x26, 0x6c), (0x27, 0x3b), (0x28, 0x27), (0x29, 0x60), (0x2b, 0x5c), (0x2c, 0x7a),
    (0x2d, 0x78), (0x2e, 0x63), (0x2f, 0x76), (0x30, 0x62), (0x31, 0x6e), (0x32, 0x6d), (0x33, 0x2c),
    (0x34, 0x2e), (0x35, 0x2f), (0x37, 0x2a), (0x39, 0x20)]"

definition ascii_shifted_table :: "(nat \<times> u8) list" where
  "ascii_shifted_table =
   [(0x02, 0x21), (0x03, 0x40), (0x04, 0x23), (0x05, 0x24), (0x06, 0x25), (0x07, 0x5e), (0x08, 0x26),
    (0x09, 0x2a), (0x0a, 0x28), (0x0b, 0x29), (0x0c, 0x5f), (0x0d, 0x2b), (0x10, 0x51), (0x11, 0x57),
    (0x12, 0x45), (0x13, 0x52), (0x14, 0x54), (0x15, 0x59), (0x16, 0x55), (0x17, 0x49), (0x18, 0x4f),
    (0x19, 0x50), (0x1a, 0x7b), (0x1b, 0x7d), (0x1e, 0x41), (0x1f, 0x53), (0x20, 0x44), (0x21, 0x46),
    (0x22, 0x47), (0x23, 0x48), (0x24, 0x4a), (0x25, 0x4b), (0x26, 0x4c), (0x27, 0x3a), (0x28, 0x22),
    (0x29, 0x7e), (0x2b, 0x7c), (0x2c, 0x5a), (0x2d, 0x58), (0x2e, 0x43), (0x2f, 0x56), (0x30, 0x42),
    (0x31, 0x4e), (0x32, 0x4d), (0x33, 0x3c), (0x34, 0x3e), (0x35, 0x3f)]"

definition ascii :: "u8 \<Rightarrow> u8" where
  "ascii sc = (case map_of ascii_table (unat sc) of None \<Rightarrow> 0 | Some c \<Rightarrow> c)"

definition ascii_shifted :: "u8 \<Rightarrow> u8" where
  "ascii_shifted sc = (case map_of ascii_shifted_table (unat sc) of None \<Rightarrow> 0 | Some c \<Rightarrow> c)"

definition key_events :: "u8 \<Rightarrow> 'a console_scheme \<Rightarrow> 'a console_scheme option" where
  "key_events scancode k =
     (if kbd_event_node k = NULL then Some k
      else do {
        k1 \<leftarrow> evdev_push_event (kbd_event_node k)
               \<lparr>ev_type = 1, ev_code = ucast (scancode AND 0x7f), ev_value = (if scancode AND 0x80 \<noteq> 0 then 0 else 1)\<rparr> k;
        evdev_push_event (kbd_event_node k1) \<lparr>ev_type = 0, ev_code = 0, ev_value = 0\<rparr> k1 })"

definition escape_key :: "u8 \<Rightarrow> 'a console_scheme \<Rightarrow> 'a console_scheme option" where
  "escape_key c k = do {
     k1 \<leftarrow> tty_input_char (active_tty k) 27 k;
     k2 \<leftarrow> tty_input_char (active_tty k1) 0x5b k1;
     tty_input_char (active_tty k2) c k2 }"

definition key_char :: "u8 \<Rightarrow> 'a console_scheme \<Rightarrow> u8" where
  "key_char scancode k =
     (if scancode < 127
      then if shift_pressed k \<and> ascii_shifted scancode \<noteq> 0 then ascii_shifted scancode else ascii scancode
      else 0)"

definition ctrl_char :: "u8 \<Rightarrow> u8" where
  "ctrl_char c =
     (if 0x61 \<le> c \<and> c \<le> 0x7a then c - 0x61 + 1 else if 0x41 \<le> c \<and> c \<le> 0x5a then c - 0x41 + 1 else c)"

definition kb_put :: "u8 \<Rightarrow> 'a console_scheme \<Rightarrow> 'a console_scheme" where
  "kb_put c k = k\<lparr>kb_buffer := (kb_buffer k)[unat (kb_head k) := c], kb_head := (kb_head k + 1) mod KB_BUF_SIZE\<rparr>"

definition keyboard_handle_scancode :: "u8 \<Rightarrow> 'a console_scheme \<Rightarrow> 'a console_scheme option" where
  "keyboard_handle_scancode scancode k0 = do {
     k \<leftarrow> key_events scancode k0;
     if scancode = 0x2a \<or> scancode = 0x36 then Some (k\<lparr>shift_pressed := True\<rparr>)
     else if scancode = 0xaa \<or> scancode = 0xb6 then Some (k\<lparr>shift_pressed := False\<rparr>)
     else if scancode = 0x1d then Some (k\<lparr>ctrl_pressed := True\<rparr>)
     else if scancode = 0x9d then Some (k\<lparr>ctrl_pressed := False\<rparr>)
     else if scancode = 0xe0 then Some (k\<lparr>extended := True\<rparr>)
     else if scancode AND 0x80 \<noteq> 0 then Some k
     else if extended k then
       let k = k\<lparr>extended := False\<rparr>
       in if scancode = 0x48 then escape_key 0x41 k
          else if scancode = 0x50 then escape_key 0x42 k
          else if scancode = 0x4d then escape_key 0x43 k
          else if scancode = 0x4b then escape_key 0x44 k
          else Some k
     else
       let c = key_char scancode k
       in if c = 0 then Some k
          else
            let c = (if ctrl_pressed k then ctrl_char c else c); k1 = kb_put c k
            in tty_input_char (active_tty k1) c k1 }"

fun keyboard_read :: "nat \<Rightarrow> 'a console_scheme \<Rightarrow> u8 list \<times> 'a console_scheme" where
  "keyboard_read 0 k = ([], k)"
| "keyboard_read (Suc n) k =
     (if kb_head k = kb_tail k then ([], k)
      else let c = kb_buffer k ! unat (kb_tail k);
               (cs, k1) = keyboard_read n (k\<lparr>kb_tail := (kb_tail k + 1) mod KB_BUF_SIZE\<rparr>)
           in (c # cs, k1))"

section \<open>The rings of the drivers\<close>

lemma unat_next:
  assumes "unat (h :: u64) < n" "unat (w :: u64) = n" "n < 2 ^ 63"
  shows "unat ((h + 1) mod w) = Suc (unat h) mod n"
proof -
  have "unat (h + 1) = Suc (unat h)" using assms by (simp add: unat_word_ariths)
  then show ?thesis by (simp add: unat_mod_distrib assms)
qed

subsection \<open>The cooked buffer of a terminal\<close>

definition tty_ok :: "tty_t \<Rightarrow> bool" where
  "tty_ok t \<longleftrightarrow> ring_ok 4096 (cooked_buf t) (unat (cooked_head t)) (unat (cooked_tail t))
     \<and> length (line_buf t) = 4096 \<and> unat (line_len t) \<le> 4095"

definition cooked :: "tty_t \<Rightarrow> u8 list" where
  "cooked t = ring 4096 (cooked_buf t) (unat (cooked_head t)) (unat (cooked_tail t))"

definition typed :: "tty_t \<Rightarrow> u8 list" where
  "typed t = take (unat (line_len t)) (line_buf t)"

lemma tty_next:
  assumes "unat (h :: u64) < 4096"
  shows "unat ((h + 1) mod TTY_BUF_SIZE) = Suc (unat h) mod 4096"
  by (rule unat_next [OF assms]) (simp_all add: TTY_BUF_SIZE_def)

lemma tty_ring: "tty_ok t \<Longrightarrow> ring_ok 4096 (cooked_buf t) (unat (cooked_head t)) (unat (cooked_tail t))"
  by (simp add: tty_ok_def)

lemma tty_head: "tty_ok t \<Longrightarrow> unat (cooked_head t) < 4096" "tty_ok t \<Longrightarrow> unat (cooked_tail t) < 4096"
  by (auto simp: tty_ok_def ring_ok_def)

lemma tty_buf_full_iff:
  assumes "tty_ok t" shows "tty_buf_full t \<longleftrightarrow> length (cooked t) = 4095"
proof -
  have "tty_buf_full t \<longleftrightarrow> Suc (unat (cooked_head t)) mod 4096 = unat (cooked_tail t)"
    unfolding tty_buf_full_def word_unat_eq_iff tty_next [OF tty_head(1) [OF assms]] ..
  then show ?thesis using ring_full_iff [OF tty_ring [OF assms]] by (simp add: cooked_def)
qed

lemma tty_buf_empty_iff: "tty_ok t \<Longrightarrow> tty_buf_empty t \<longleftrightarrow> cooked t = []"
  using ring_empty_iff [OF tty_ring] by (simp add: tty_buf_empty_def cooked_def word_unat_eq_iff)

interpretation cook: drop_newest tty_ok cooked 4095 tty_buf_put tty_buf_get
proof unfold_locales
  fix t :: tty_t and c :: u8
  assume ok: "tty_ok t"
  note next_head = tty_next [OF tty_head(1) [OF ok]]
  show "tty_ok (tty_buf_put c t)"
    using ok ring_ok_put [OF tty_ring [OF ok]] by (simp add: tty_buf_put_def tty_ok_def next_head)
  show "cooked (tty_buf_put c t) = cooked t @ [c]" if "length (cooked t) < 4095"
  proof -
    have nf: "\<not> tty_buf_full t" using that by (simp add: tty_buf_full_iff [OF ok])
    then have "Suc (unat (cooked_head t)) mod 4096 \<noteq> unat (cooked_tail t)"
      by (simp add: tty_buf_full_def word_unat_eq_iff next_head)
    from ring_put [OF tty_ring [OF ok] this, of c] show ?thesis
      using nf by (simp add: tty_buf_put_def cooked_def next_head)
  qed
  show "cooked (tty_buf_put c t) = cooked t" if "length (cooked t) = 4095"
    using that by (simp add: tty_buf_put_def tty_buf_full_iff [OF ok])
  show "length (cooked t) \<le> 4095" using ring_bound [OF tty_ring [OF ok]] by (simp add: cooked_def)
  assume ne: "cooked t \<noteq> []"
  note next_tail = tty_next [OF tty_head(2) [OF ok]]
  show "tty_ok (snd (tty_buf_get t))"
    using ok ring_ok_get [OF tty_ring [OF ok]] by (simp add: tty_buf_get_def tty_ok_def next_tail)
  have "unat (cooked_head t) \<noteq> unat (cooked_tail t)"
    using ne ring_empty_iff [OF tty_ring [OF ok]] by (simp add: cooked_def)
  from ring_get [OF tty_ring [OF ok] this]
  show "cooked t = fst (tty_buf_get t) # cooked (snd (tty_buf_get t))"
    by (simp add: tty_buf_get_def cooked_def next_tail)
qed

lemma put_full_same: "tty_buf_full t \<Longrightarrow> tty_buf_put c t = t"
  by (simp add: tty_buf_put_def)

lemma flush_line_fold: "flush_line cs t = fold tty_buf_put cs t"
proof (induction cs arbitrary: t)
  case (Cons c cs)
  have "fold tty_buf_put cs t = t" if "tty_buf_full t" using that by (induction cs) (simp_all add: put_full_same)
  then show ?case using Cons by (simp add: put_full_same)
qed simp

lemma put_keeps [simp]:
  "line_buf (tty_buf_put c t) = line_buf t" "line_len (tty_buf_put c t) = line_len t"
  "tty_termios (tty_buf_put c t) = tty_termios t" "waiting_reader (tty_buf_put c t) = waiting_reader t"
  by (simp_all add: tty_buf_put_def)

lemma puts_keep [simp]:
  "line_buf (fold tty_buf_put cs t) = line_buf t" "line_len (fold tty_buf_put cs t) = line_len t"
  "tty_termios (fold tty_buf_put cs t) = tty_termios t" "waiting_reader (fold tty_buf_put cs t) = waiting_reader t"
  by (induction cs arbitrary: t) simp_all

lemma typed_put [simp]: "typed (tty_buf_put c t) = typed t" "typed (fold tty_buf_put cs t) = typed t"
  by (simp_all add: typed_def)

subsection \<open>The event queue\<close>

definition evdev_ok :: "evdev_state_t \<Rightarrow> bool" where
  "evdev_ok s \<longleftrightarrow> ring_ok EV_BUFFER_SIZE (ev_buffer s) (ev_head s) (ev_tail s)"

definition queued :: "evdev_state_t \<Rightarrow> input_event list" where
  "queued s = ring EV_BUFFER_SIZE (ev_buffer s) (ev_head s) (ev_tail s)"

interpretation evq: drop_oldest evdev_ok queued "EV_BUFFER_SIZE - 1" evdev_put evdev_get
proof unfold_locales
  fix s :: evdev_state_t and e :: input_event
  let ?n = EV_BUFFER_SIZE
  assume ok: "evdev_ok s"
  then have r: "ring_ok ?n (ev_buffer s) (ev_head s) (ev_tail s)" by (simp add: evdev_ok_def)
  then have lt: "ev_head s < ?n" "ev_tail s < ?n" by (simp_all add: ring_ok_def)
  show "evdev_ok (evdev_put e s)"
    using r by (simp add: evdev_ok_def evdev_put_def Let_def ring_ok_def)
  show "queued (evdev_put e s) = queued s @ [e]" if room: "length (queued s) < ?n - 1"
  proof -
    have ne: "Suc (ev_head s) mod ?n \<noteq> ev_tail s" using room ring_full_iff [OF r] by (simp add: queued_def)
    from ring_put [OF r ne, of e] ne show ?thesis by (simp add: evdev_put_def Let_def queued_def)
  qed
  show "queued (evdev_put e s) = tl (queued s) @ [e]" if full: "length (queued s) = ?n - 1"
  proof -
    have eq: "Suc (ev_head s) mod ?n = ev_tail s" using full ring_full_iff [OF r] by (simp add: queued_def)
    have ht: "ev_head s \<noteq> ev_tail s" using full ring_empty_iff [OF r] by (auto simp: queued_def EV_BUFFER_SIZE_def)
    have tl: "tl (queued s) = ring ?n (ev_buffer s) (ev_head s) (Suc (ev_tail s) mod ?n)"
      using ring_get [OF r ht] by (simp add: queued_def)
    have "Suc (ev_tail s) mod ?n \<noteq> ev_tail s" using lt by (auto simp: EV_BUFFER_SIZE_def mod_Suc split: if_splits)
    then have ne: "Suc (ev_head s) mod ?n \<noteq> Suc (ev_tail s) mod ?n" using eq by simp
    from ring_put [OF ring_ok_get [OF r] ne, of e] show ?thesis
      unfolding tl by (simp add: evdev_put_def Let_def queued_def eq)
  qed
  show "length (queued s) \<le> ?n - 1" using ring_bound [OF r] by (simp add: queued_def)
  assume ne: "queued s \<noteq> []"
  show "evdev_ok (snd (evdev_get s))" using ring_ok_get [OF r] by (simp add: evdev_get_def evdev_ok_def)
  have "ev_head s \<noteq> ev_tail s" using ne ring_empty_iff [OF r] by (simp add: queued_def)
  from ring_get [OF r this] show "queued s = fst (evdev_get s) # queued (snd (evdev_get s))"
    by (simp add: evdev_get_def queued_def)
qed (simp add: EV_BUFFER_SIZE_def)

lemma evdev_read_loop_items:
  "evdev_ok s \<Longrightarrow> fst (evdev_read_loop n s) = take n (queued s) \<and> queued (snd (evdev_read_loop n s)) = drop n (queued s)
     \<and> evdev_ok (snd (evdev_read_loop n s))"
proof (induction n arbitrary: s)
  case (Suc n)
  have e: "ev_head s = ev_tail s \<longleftrightarrow> queued s = []"
    using ring_empty_iff Suc.prems unfolding evdev_ok_def queued_def by metis
  show ?case
  proof (cases "queued s = []")
    case True
    then show ?thesis using Suc.prems by (simp add: e)
  next
    case False
    note s = evq.get_items [OF Suc.prems False]
    from Suc.IH [OF evq.get_wf [OF Suc.prems False]] False s show ?thesis
      by (cases "evdev_get s"; cases "evdev_read_loop n (snd (evdev_get s))") (simp add: e)
  qed
qed simp

section \<open>The line discipline\<close>

text \<open>
  The specification: the bytes a reader can get, and the line being edited. Erasing removes the last
  byte of the line, a line end delivers the line, and a byte in raw mode is delivered at once; what
  does not fit is lost, and a line of 4095 bytes is dropped as a whole.
\<close>

definition deliver :: "u8 list \<Rightarrow> u8 list \<Rightarrow> u8 list" where
  "deliver q cs = q @ take (4095 - length q) cs"

definition ld_char :: "bool \<Rightarrow> u8 \<Rightarrow> u8" where
  "ld_char icrnl c = (if icrnl \<and> c = 13 then 10 else c)"

definition ld_input :: "bool \<Rightarrow> u8 \<Rightarrow> u8 list \<times> u8 list \<Rightarrow> u8 list \<times> u8 list" where
  "ld_input canon c = (\<lambda>(q, l).
     if \<not> canon then (deliver q [c], l)
     else if c = 127 then (q, butlast l)
     else if 4095 \<le> length l then (q, [])
     else if c = 10 then (deliver q (l @ [c]), [])
     else (q, l @ [c]))"

definition canonical :: "tty_t \<Rightarrow> bool" where
  "canonical t \<longleftrightarrow> c_lflag (tty_termios t) AND ICANON \<noteq> 0"

definition icrnl :: "tty_t \<Rightarrow> bool" where
  "icrnl t \<longleftrightarrow> c_iflag (tty_termios t) AND ICRNL \<noteq> 0"

definition tty_view :: "tty_t \<Rightarrow> u8 list \<times> u8 list" where
  "tty_view t = (cooked t, typed t)"

text \<open>Whether a byte makes input available.\<close>

definition delivers :: "bool \<Rightarrow> u8 \<Rightarrow> u8 list \<Rightarrow> bool" where
  "delivers canon c l \<longleftrightarrow> (canon \<longrightarrow> c = 10 \<and> length l < 4095)"

subsection \<open>What the pieces do to a terminal\<close>

lemma upd_tty_same [simp]: "i < length (ttys k) \<Longrightarrow> ttys (upd_tty i f k) ! i = f (ttys k ! i)"
  by (simp add: upd_tty_def)

lemma upd_tty_other [simp]: "j \<noteq> i \<Longrightarrow> ttys (upd_tty i f k) ! j = ttys k ! j"
  by (simp add: upd_tty_def)

lemma upd_tty_sel [simp]:
  "length (ttys (upd_tty i f k)) = length (ttys k)" "procs (upd_tty i f k) = procs k"
  "ttys_at (upd_tty i f k) = ttys_at k" "current_process (upd_tty i f k) = current_process k"
  "active_tty (upd_tty i f k) = active_tty k" "kbd_event_node (upd_tty i f k) = kbd_event_node k"
  "nodes (upd_tty i f k) = nodes k" "evdevs (upd_tty i f k) = evdevs k"
  "shift_pressed (upd_tty i f k) = shift_pressed k" "ctrl_pressed (upd_tty i f k) = ctrl_pressed k"
  "extended (upd_tty i f k) = extended k"
  by (simp_all add: upd_tty_def)

text \<open>The parts of the state that terminal input leaves alone.\<close>

definition same_console :: "nat \<Rightarrow> 'a console_scheme \<Rightarrow> 'a console_scheme \<Rightarrow> bool" where
  "same_console i k k' \<longleftrightarrow>
     length (ttys k') = length (ttys k) \<and> (\<forall>j. j \<noteq> i \<longrightarrow> ttys k' ! j = ttys k ! j) \<and> ttys_at k' = ttys_at k
   \<and> current_process k' = current_process k \<and> active_tty k' = active_tty k \<and> kbd_event_node k' = kbd_event_node k
   \<and> nodes k' = nodes k \<and> evdevs k' = evdevs k \<and> shift_pressed k' = shift_pressed k
   \<and> ctrl_pressed k' = ctrl_pressed k \<and> extended k' = extended k \<and> dom (procs k') = dom (procs k)"

lemma same_console_refl [simp]: "same_console i k k"
  by (simp add: same_console_def)

lemma same_console_trans: "same_console i k k1 \<Longrightarrow> same_console i k1 k2 \<Longrightarrow> same_console i k k2"
  by (simp add: same_console_def)

lemma same_upd_tty [simp]: "same_console i k (upd_tty i f k)"
  by (simp add: same_console_def)

lemma same_echo [simp]:
  "same_console i k (tty_echo c k)" "ttys (tty_echo c k) = ttys k" "procs (tty_echo c k) = procs k"
  "ttys_at (tty_echo c k) = ttys_at k"
  "same_console i k (terminal_backspace k)" "ttys (terminal_backspace k) = ttys k" "procs (terminal_backspace k) = procs k"
  "ttys_at (terminal_backspace k) = ttys_at k"
  by (simp_all add: tty_echo_def debug_putcharn_def terminal_putchar_def terminal_backspace_def same_console_def)

text \<open>The process that waits for a terminal.\<close>

definition reader_ok :: "nat \<Rightarrow> 'a console_scheme \<Rightarrow> bool" where
  "reader_ok i k \<longleftrightarrow> (waiting_reader (ttys k ! i) \<noteq> NULL \<longrightarrow> waiting_reader (ttys k ! i) \<in> dom (procs k))"

definition waits_for :: "nat \<Rightarrow> 'a console_scheme \<Rightarrow> process_t \<Rightarrow> bool" where
  "waits_for i k p \<longleftrightarrow> state p = TASK_WAITING \<and> wait_reason p = WAIT_TTY \<and> wait_channel p = tty_ptr k i"

definition reader_woken :: "nat \<Rightarrow> 'a console_scheme \<Rightarrow> 'a console_scheme \<Rightarrow> bool" where
  "reader_woken i k k' \<longleftrightarrow> waiting_reader (ttys k' ! i) = NULL
   \<and> (\<forall>p. procs k (waiting_reader (ttys k ! i)) = Some p \<longrightarrow> waiting_reader (ttys k ! i) \<noteq> NULL \<longrightarrow> waits_for i k p \<longrightarrow>
        (\<exists>p'. procs k' (waiting_reader (ttys k ! i)) = Some p' \<and> state p' = TASK_READY))"

lemma typed_waiting [simp]: "typed (t\<lparr>waiting_reader := r\<rparr>) = typed t" "cooked (t\<lparr>waiting_reader := r\<rparr>) = cooked t"
    "tty_ok (t\<lparr>waiting_reader := r\<rparr>) = tty_ok t" "canonical (t\<lparr>waiting_reader := r\<rparr>) = canonical t"
    "icrnl (t\<lparr>waiting_reader := r\<rparr>) = icrnl t" "tty_view (t\<lparr>waiting_reader := r\<rparr>) = tty_view t"
  by (simp_all add: typed_def cooked_def tty_ok_def canonical_def icrnl_def tty_view_def)

lemma tty_wake_reader_ok:
  assumes i: "i < length (ttys k)" and r: "reader_ok i k"
  obtains k' where "tty_wake_reader i k = Some k'" "same_console i k k'" "reader_woken i k k'"
    "ttys k' ! i = (ttys k ! i)\<lparr>waiting_reader := NULL\<rparr>"
proof (cases "waiting_reader (ttys k ! i) = NULL")
  case True
  then have "ttys k ! i = (ttys k ! i)\<lparr>waiting_reader := NULL\<rparr>" by (cases "ttys k ! i") simp
  then show ?thesis using that [of k] True by (simp add: tty_wake_reader_def reader_woken_def)
next
  case False
  define w where "w = waiting_reader (ttys k ! i)"
  define k1 where "k1 = upd_tty i (\<lambda>t. t\<lparr>waiting_reader := NULL\<rparr>) k"
  obtain p where p: "procs k w = Some p" using r False by (auto simp: reader_ok_def w_def)
  have t1: "ttys k1 ! i = (ttys k ! i)\<lparr>waiting_reader := NULL\<rparr>" using i by (simp add: k1_def)
  have ptr: "tty_ptr k1 i = tty_ptr k i" "procs k1 = procs k" "same_console i k k1" by (simp_all add: k1_def tty_ptr_def)
  let ?f = "\<lambda>p. p\<lparr>wait_reason := WAIT_NONE, wait_channel := NULL, wait_pid := - 1, state := TASK_READY\<rparr>"
  have unf: "tty_wake_reader i k = (if \<not> waits_for i k p then Some k1 else upd_proc w ?f k1)"
    using False p by (auto simp: tty_wake_reader_def w_def [symmetric] k1_def [symmetric] proc_at_def ptr waits_for_def)
  show ?thesis
  proof (cases "waits_for i k p")
    case True
    have "upd_proc w ?f k1 = Some (k1\<lparr>procs := (procs k1)(w \<mapsto> ?f p)\<rparr>)"
      using p by (simp add: upd_proc_def proc_at_def ptr)
    moreover have "same_console i k (k1\<lparr>procs := (procs k1)(w \<mapsto> ?f p)\<rparr>)"
      using ptr p by (auto simp: same_console_def)
    ultimately show ?thesis using that unf True t1 p by (simp add: reader_woken_def w_def)
  next
    case False
    then show ?thesis using that [of k1] unf t1 ptr p by (simp add: reader_woken_def w_def)
  qed
qed

lemma reader_ok_cong:
  assumes "reader_ok i k" "waiting_reader (ttys k' ! i) = waiting_reader (ttys k ! i)" "procs k' = procs k"
  shows "reader_ok i k'"
  using assms by (simp add: reader_ok_def)

lemma reader_woken_cong:
  assumes "reader_woken i k1 k2" "waiting_reader (ttys k1 ! i) = waiting_reader (ttys k ! i)" "procs k1 = procs k"
    "ttys_at k1 = ttys_at k"
  shows "reader_woken i k k2"
  using assms by (simp add: reader_woken_def waits_for_def tty_ptr_def)

subsection \<open>Refinement\<close>

text \<open>The outcome of one byte of input.\<close>

definition input_done :: "nat \<Rightarrow> u8 \<Rightarrow> 'a console_scheme \<Rightarrow> 'a console_scheme \<Rightarrow> bool" where
  "input_done i c k k' \<longleftrightarrow>
     tty_ok (ttys k' ! i) \<and> tty_view (ttys k' ! i) = ld_input (canonical (ttys k ! i)) c (tty_view (ttys k ! i))
   \<and> tty_termios (ttys k' ! i) = tty_termios (ttys k ! i) \<and> same_console i k k' \<and> reader_ok i k'
   \<and> (delivers (canonical (ttys k ! i)) c (typed (ttys k ! i)) \<longrightarrow> reader_woken i k k')"

lemma wake_after:
  assumes i: "i < length (ttys k)" and r: "reader_ok i k"
    and k1: "same_console i k k1" "procs k1 = procs k" "ttys k1 ! i = f (ttys k ! i)"
    and f: "waiting_reader (f (ttys k ! i)) = waiting_reader (ttys k ! i)" "tty_termios (f (ttys k ! i)) = tty_termios (ttys k ! i)"
      "tty_ok (f (ttys k ! i))" "tty_view (f (ttys k ! i)) = ld_input (canonical (ttys k ! i)) c (tty_view (ttys k ! i))"
  shows "\<exists>k'. tty_wake_reader i k1 = Some k' \<and> input_done i c k k'"
proof -
  have i1: "i < length (ttys k1)" using i k1(1) by (simp add: same_console_def)
  have r1: "reader_ok i k1" using r k1 f(1) by (simp add: reader_ok_def)
  obtain k' where k': "tty_wake_reader i k1 = Some k'" "same_console i k1 k'" "reader_woken i k1 k'"
      "ttys k' ! i = (ttys k1 ! i)\<lparr>waiting_reader := NULL\<rparr>"
    by (rule tty_wake_reader_ok [OF i1 r1])
  have "ttys_at k1 = ttys_at k" using k1(1) by (simp add: same_console_def)
  then have "reader_woken i k k'" using reader_woken_cong [OF k'(3)] k1(2,3) f(1) by simp
  moreover have "same_console i k k'" by (rule same_console_trans [OF k1(1) k'(2)])
  ultimately show ?thesis using k' k1(3) f by (simp add: input_done_def reader_ok_def)
qed

lemma tty_ok_line: "tty_ok (t\<lparr>line_len := n\<rparr>) \<longleftrightarrow> ring_ok 4096 (cooked_buf t) (unat (cooked_head t)) (unat (cooked_tail t))
     \<and> length (line_buf t) = 4096 \<and> unat n \<le> 4095"
  by (simp add: tty_ok_def)

lemma input_raw_done:
  assumes i: "i < length (ttys k)" and ok: "tty_ok (ttys k ! i)" and r: "reader_ok i k" and m: "\<not> canonical (ttys k ! i)"
  shows "\<exists>k'. tty_input_raw i c k = Some k' \<and> input_done i c k k'"
proof -
  define k0 where "k0 = (if c_lflag (tty_termios (ttys k ! i)) AND ECHO \<noteq> 0
      then if c = 127 then terminal_backspace k else tty_echo c k else k)"
  have k0: "same_console i k k0" "ttys k0 = ttys k" "procs k0 = procs k" by (simp_all add: k0_def)
  have "\<exists>k'. tty_wake_reader i (upd_tty i (tty_buf_put c) k0) = Some k' \<and> input_done i c k k'"
  proof (rule wake_after [OF i r, where f = "tty_buf_put c"])
    show "same_console i k (upd_tty i (tty_buf_put c) k0)" by (rule same_console_trans [OF k0(1)]) simp
    show "tty_view (tty_buf_put c (ttys k ! i)) = ld_input (canonical (ttys k ! i)) c (tty_view (ttys k ! i))"
      using cook.put_stream [OF ok, of "[c]"] m by (simp add: tty_view_def ld_input_def deliver_def)
  qed (use i k0 ok cook.put_wf in simp_all)
  then show ?thesis by (simp add: tty_input_raw_def k0_def)
qed

lemma length_typed: "tty_ok t \<Longrightarrow> length (typed t) = unat (line_len t)"
  by (simp add: tty_ok_def typed_def)

lemma unat_pred: "0 < (n :: u64) \<Longrightarrow> unat (n - 1) = unat n - 1"
  by (simp add: unat_minus_one word_gt_0)

lemma input_quiet:
  assumes "same_console i k k'" "procs k' = procs k" "ttys k' ! i = f (ttys k ! i)" "reader_ok i k"
    "waiting_reader (f (ttys k ! i)) = waiting_reader (ttys k ! i)" "tty_termios (f (ttys k ! i)) = tty_termios (ttys k ! i)"
    "tty_ok (f (ttys k ! i))" "tty_view (f (ttys k ! i)) = ld_input (canonical (ttys k ! i)) c (tty_view (ttys k ! i))"
    "\<not> delivers (canonical (ttys k ! i)) c (typed (ttys k ! i))"
  shows "input_done i c k k'"
  using assms by (simp add: input_done_def reader_ok_def)

lemma typed_erase:
  assumes "tty_ok t" "0 < line_len t"
  shows "tty_ok (t\<lparr>line_len := line_len t - 1\<rparr>)" "typed (t\<lparr>line_len := line_len t - 1\<rparr>) = butlast (typed t)"
  using assms by (auto simp: tty_ok_def typed_def unat_pred butlast_take)

text \<open>The steps of \<^verbatim>\<open>tty_input_char\<close> in canonical mode, as functions on the terminal.\<close>

definition erase_char :: "tty_t \<Rightarrow> tty_t" where
  "erase_char t = (if line_len t > 0 then t\<lparr>line_len := line_len t - 1\<rparr> else t)"

definition append_char :: "u8 \<Rightarrow> tty_t \<Rightarrow> tty_t" where
  "append_char c t = t\<lparr>line_buf := (line_buf t)[unat (line_len t) := c], line_len := line_len t + 1\<rparr>"

definition flush_tty :: "tty_t \<Rightarrow> tty_t" where
  "flush_tty t = (flush_line (take (unat (line_len t)) (line_buf t)) t)\<lparr>line_len := 0\<rparr>"

definition echoed :: "nat \<Rightarrow> u8 \<Rightarrow> 'a console_scheme \<Rightarrow> 'a console_scheme" where
  "echoed i c k = (if c_lflag (tty_termios (ttys k ! i)) AND ECHO \<noteq> 0 then tty_echo c k else k)"

lemma echoed_simps [simp]: "same_console i k (echoed i c k)" "ttys (echoed i c k) = ttys k" "procs (echoed i c k) = procs k"
  by (simp_all add: echoed_def)

lemma upd_echoed [simp]: "same_console i k (upd_tty i f (echoed i c k))"
  by (rule same_console_trans [OF echoed_simps(1) same_upd_tty])

lemma typed_append:
  assumes "tty_ok t" "length (typed t) < 4095"
  shows "tty_ok (append_char c t)" "typed (append_char c t) = typed t @ [c]" "cooked (append_char c t) = cooked t"
proof -
  have l: "unat (line_len t) < 4095" using assms by (simp add: length_typed)
  then have u: "unat (line_len t + 1) = Suc (unat (line_len t))" by (simp add: unat_word_ariths)
  show "tty_ok (append_char c t)" "cooked (append_char c t) = cooked t"
    using assms(1) l by (simp_all add: tty_ok_def cooked_def append_char_def u)
  show "typed (append_char c t) = typed t @ [c]"
    using assms(1) l by (simp add: tty_ok_def typed_def append_char_def u take_Suc_conv_app_nth)
qed

lemma append_keeps [simp]: "waiting_reader (append_char c t) = waiting_reader t" "tty_termios (append_char c t) = tty_termios t"
  by (simp_all add: append_char_def)

lemma typed_flush:
  assumes "tty_ok t"
  shows "tty_ok (flush_tty t)" "typed (flush_tty t) = []" "cooked (flush_tty t) = deliver (cooked t) (typed t)"
    "waiting_reader (flush_tty t) = waiting_reader t" "tty_termios (flush_tty t) = tty_termios t"
proof -
  have fl: "flush_tty t = (fold tty_buf_put (typed t) t)\<lparr>line_len := 0\<rparr>"
    by (simp add: flush_tty_def flush_line_fold typed_def)
  show "tty_ok (flush_tty t)" using cook.put_all_wf [OF assms, of "typed t"] unfolding fl by (simp add: tty_ok_def)
  show "cooked (flush_tty t) = deliver (cooked t) (typed t)"
    using cook.put_stream [OF assms, of "typed t"] unfolding fl by (simp add: cooked_def deliver_def)
  show "typed (flush_tty t) = []" by (simp add: flush_tty_def typed_def)
qed (simp_all add: flush_tty_def flush_line_fold)

lemma long_line: "tty_ok t \<Longrightarrow> line_len t \<ge> TTY_BUF_SIZE - 1 \<longleftrightarrow> 4095 \<le> length (typed t)"
  by (simp add: word_le_nat_alt TTY_BUF_SIZE_def length_typed)

lemma input_canonical_cases:
  assumes ok: "tty_ok (ttys k ! i)"
  shows "tty_input_canonical i c k =
     (if c = 127 then
        Some (if line_len (ttys k ! i) > 0
              then let k1 = upd_tty i erase_char k
                   in if c_lflag (tty_termios (ttys k ! i)) AND ECHO \<noteq> 0 then terminal_backspace k1 else k1
              else k)
      else if 4095 \<le> length (typed (ttys k ! i)) then Some (upd_tty i (\<lambda>t. t\<lparr>line_len := 0\<rparr>) (echoed i c k))
      else if c = 10 then tty_wake_reader i (upd_tty i flush_tty (upd_tty i (append_char c) (echoed i c k)))
      else Some (upd_tty i (append_char c) (echoed i c k)))"
proof -
  have "upd_tty i erase_char k = upd_tty i (\<lambda>t. t\<lparr>line_len := line_len t - 1\<rparr>) k" if "line_len (ttys k ! i) > 0"
    using that by (simp add: upd_tty_def erase_char_def)
  then show ?thesis
    unfolding tty_input_canonical_def Let_def long_line [OF ok] echoed_def append_char_def [abs_def] flush_tty_def [abs_def]
    by simp
qed

lemma input_erase:
  assumes i: "i < length (ttys k)" and ok: "tty_ok (ttys k ! i)" and r: "reader_ok i k" and m: "canonical (ttys k ! i)"
  shows "\<exists>k'. tty_input_canonical i 127 k = Some k' \<and> input_done i 127 k k'"
proof -
  let ?t = "ttys k ! i"
  define k' where "k' = (if line_len ?t > 0
      then let k1 = upd_tty i erase_char k in if c_lflag (tty_termios ?t) AND ECHO \<noteq> 0 then terminal_backspace k1 else k1
      else k)"
  have "input_done i 127 k k'"
  proof (rule input_quiet [where f = erase_char])
    show "ttys k' ! i = erase_char ?t" using i by (simp add: k'_def erase_char_def Let_def)
    show "same_console i k k'" by (simp add: k'_def Let_def same_console_trans [OF same_upd_tty same_echo(5)])
    show "tty_ok (erase_char ?t)" using typed_erase(1) [OF ok] ok by (simp add: erase_char_def)
    have "typed ?t = []" if "\<not> line_len ?t > 0" using that length_typed [OF ok] by (simp add: word_gt_0)
    then show "tty_view (erase_char ?t) = ld_input (canonical ?t) 127 (tty_view ?t)"
      using typed_erase(2) [OF ok] m by (auto simp: erase_char_def tty_view_def ld_input_def cooked_def)
  qed (use m r in \<open>simp_all add: k'_def erase_char_def Let_def delivers_def\<close>)
  then show ?thesis by (simp add: input_canonical_cases [OF ok] k'_def)
qed

lemma input_canonical_done:
  assumes i: "i < length (ttys k)" and ok: "tty_ok (ttys k ! i)" and r: "reader_ok i k" and m: "canonical (ttys k ! i)"
  shows "\<exists>k'. tty_input_canonical i c k = Some k' \<and> input_done i c k k'"
proof -
  let ?t = "ttys k ! i"
  consider (erase) "c = 127" | (drop) "c \<noteq> 127" "4095 \<le> length (typed ?t)"
    | (line) "c = 10" "length (typed ?t) < 4095" | (char) "c \<noteq> 127" "c \<noteq> 10" "length (typed ?t) < 4095" by force
  then show ?thesis
  proof cases
    case erase
    then show ?thesis using input_erase [OF assms] by simp
  next
    case drop
    have "input_done i c k (upd_tty i (\<lambda>t. t\<lparr>line_len := 0\<rparr>) (echoed i c k))"
      by (rule input_quiet [where f = "\<lambda>t. t\<lparr>line_len := 0\<rparr>"])
        (use drop m r i ok in \<open>simp_all add: delivers_def tty_view_def ld_input_def cooked_def typed_def tty_ok_def\<close>)
    then show ?thesis using drop by (simp add: input_canonical_cases [OF ok])
  next
    case char
    have "input_done i c k (upd_tty i (append_char c) (echoed i c k))"
      by (rule input_quiet [where f = "append_char c"])
        (use char m r i typed_append [OF ok] in \<open>simp_all add: delivers_def tty_view_def ld_input_def\<close>)
    then show ?thesis using char by (simp add: input_canonical_cases [OF ok])
  next
    case line
    note a = typed_append [OF ok line(2), of c]
    have "\<exists>k'. tty_wake_reader i (upd_tty i flush_tty (upd_tty i (append_char c) (echoed i c k))) = Some k' \<and> input_done i c k k'"
    proof (rule wake_after [OF i r, where f = "\<lambda>t. flush_tty (append_char c t)"])
      show "same_console i k (upd_tty i flush_tty (upd_tty i (append_char c) (echoed i c k)))"
        by (rule same_console_trans [OF upd_echoed same_upd_tty])
      show "tty_view (flush_tty (append_char c ?t)) = ld_input (canonical ?t) c (tty_view ?t)"
        using m line typed_flush(2,3) [OF a(1)] a(2,3) by (simp add: tty_view_def ld_input_def)
    qed (use i typed_flush [OF a(1)] in simp_all)
    then show ?thesis using line by (simp add: input_canonical_cases [OF ok])
  qed
qed

lemma input_char_done:
  assumes "i < length (ttys k)" "tty_ok (ttys k ! i)" "reader_ok i k"
  shows "\<exists>k'. tty_input_char i c k = Some k' \<and> input_done i (ld_char (icrnl (ttys k ! i)) c) k k'"
  using input_raw_done [OF assms] input_canonical_done [OF assms] assms(1)
  by (simp add: tty_input_char_def Let_def ld_char_def icrnl_def canonical_def)

section \<open>Reading\<close>

fun ld_read :: "bool \<Rightarrow> nat \<Rightarrow> u8 list \<Rightarrow> u8 list" where
  "ld_read canon 0 q = []"
| "ld_read canon (Suc n) [] = []"
| "ld_read canon (Suc n) (c # q) = (if canon \<and> c = 10 then [c] else c # ld_read canon n q)"

declare tty_wait.simps [simp del]

lemma tty_wait_ready: "\<not> tty_buf_empty (ttys k ! i) \<Longrightarrow> tty_wait i nb irqs k = Some (Ready, irqs, k)"
  by (subst tty_wait.simps) simp

lemma tty_wait_nonblock: "tty_buf_empty (ttys k ! i) \<Longrightarrow> tty_wait i True irqs k = Some (Nonblocking, irqs, k)"
  by (subst tty_wait.simps) simp

lemma get_keeps [simp]:
  "tty_termios (snd (tty_buf_get t)) = tty_termios t" "line_buf (snd (tty_buf_get t)) = line_buf t"
  "line_len (snd (tty_buf_get t)) = line_len t" "waiting_reader (snd (tty_buf_get t)) = waiting_reader t"
  by (simp_all add: tty_buf_get_def)

lemma upd_tty_upd_tty: "i < length (ttys k) \<Longrightarrow> upd_tty i g (upd_tty i f k) = upd_tty i (\<lambda>t. g (f t)) k"
  by (simp add: upd_tty_def)

lemma canonical_termios: "tty_termios t' = tty_termios t \<Longrightarrow> canonical t' = canonical t"
  by (simp add: canonical_def)

text \<open>
  A read that finds enough input, or does not block, returns the specified bytes and takes exactly
  them out of the queue.
\<close>

lemma tty_read_loop_ok:
  assumes "i < length (ttys k)" "tty_ok (ttys k ! i)"
    "nb \<or> n \<le> length (cooked (ttys k ! i)) \<or> canonical (ttys k ! i) \<and> 10 \<in> set (cooked (ttys k ! i))"
  shows "\<exists>f. tty_read_loop i n nb irqs k = Some (ld_read (canonical (ttys k ! i)) n (cooked (ttys k ! i)), irqs, upd_tty i f k)
     \<and> tty_ok (f (ttys k ! i)) \<and> typed (f (ttys k ! i)) = typed (ttys k ! i) \<and> tty_termios (f (ttys k ! i)) = tty_termios (ttys k ! i)
     \<and> waiting_reader (f (ttys k ! i)) = waiting_reader (ttys k ! i)
     \<and> cooked (f (ttys k ! i)) = drop (length (ld_read (canonical (ttys k ! i)) n (cooked (ttys k ! i)))) (cooked (ttys k ! i))"
  using assms
proof (induction n arbitrary: k)
  case 0
  have "upd_tty i (\<lambda>t. t) k = k" by (simp add: upd_tty_def)
  then show ?case using "0.prems" by (intro exI [of _ "\<lambda>t. t"]) simp
next
  case (Suc n)
  let ?t = "ttys k ! i"
  note e = tty_buf_empty_iff [OF Suc.prems(2)]
  show ?case
  proof (cases "cooked ?t")
    case Nil
    have "upd_tty i (\<lambda>t. t) k = k" by (simp add: upd_tty_def)
    moreover have nb using Suc.prems(3) Nil by simp
    ultimately show ?thesis using Suc.prems Nil by (intro exI [of _ "\<lambda>t. t"]) (simp add: tty_wait_nonblock e)
  next
    case (Cons c q)
    define k1 where "k1 = upd_tty i (\<lambda>t. snd (tty_buf_get t)) k"
    have g: "fst (tty_buf_get ?t) = c" "cooked (snd (tty_buf_get ?t)) = q" "tty_ok (snd (tty_buf_get ?t))"
      using cook.get_items [OF Suc.prems(2)] cook.get_wf [OF Suc.prems(2)] Cons by auto
    have t1: "ttys k1 ! i = snd (tty_buf_get ?t)" using Suc.prems(1) by (simp add: k1_def)
    have c1: "canonical (ttys k1 ! i) = canonical ?t" by (rule canonical_termios) (simp add: t1)
    have unf: "tty_read_loop i (Suc n) nb irqs k =
        (if canonical ?t \<and> c = 10 then Some ([c], irqs, k1)
         else do { (cs, irqs3, k3) \<leftarrow> tty_read_loop i n nb irqs k1; Some (c # cs, irqs3, k3) })"
      using Cons c1 by (simp add: tty_wait_ready e g(1) k1_def [symmetric] canonical_def)
    show ?thesis
    proof (cases "canonical ?t \<and> c = 10")
      case True
      then show ?thesis using Cons g unf
        by (intro exI [of _ "\<lambda>t. snd (tty_buf_get t)"]) (simp add: k1_def typed_def)
    next
      case False
      have "nb \<or> n \<le> length (cooked (ttys k1 ! i)) \<or> canonical (ttys k1 ! i) \<and> 10 \<in> set (cooked (ttys k1 ! i))"
        using Suc.prems(3) Cons False by (auto simp: t1 g(2) c1 [unfolded t1])
      moreover have "i < length (ttys k1)" "tty_ok (ttys k1 ! i)" using Suc.prems(1) g(3) t1 by (simp_all add: k1_def)
      ultimately obtain f where f: "tty_read_loop i n nb irqs k1 = Some (ld_read (canonical ?t) n q, irqs, upd_tty i f k1)"
          "tty_ok (f (snd (tty_buf_get ?t)))" "typed (f (snd (tty_buf_get ?t))) = typed (snd (tty_buf_get ?t))"
          "tty_termios (f (snd (tty_buf_get ?t))) = tty_termios ?t"
          "waiting_reader (f (snd (tty_buf_get ?t))) = waiting_reader ?t"
          "cooked (f (snd (tty_buf_get ?t))) = drop (length (ld_read (canonical ?t) n q)) q"
        using Suc.IH [of k1] unfolding t1 g(2) c1 [unfolded t1] by auto
      have "upd_tty i f k1 = upd_tty i (\<lambda>t. f (snd (tty_buf_get t))) k"
        unfolding k1_def by (rule upd_tty_upd_tty [OF Suc.prems(1)])
      moreover have "ld_read (canonical ?t) (Suc n) (c # q) = c # ld_read (canonical ?t) n q" using False by auto
      moreover have "tty_read_loop i (Suc n) nb irqs k = Some (c # ld_read (canonical ?t) n q, irqs, upd_tty i f k1)"
        unfolding unf if_not_P [OF False] f(1) by simp
      ultimately show ?thesis using f unfolding Cons
        by (intro exI [of _ "\<lambda>t. f (snd (tty_buf_get t))"]) (simp add: typed_def)
    qed
  qed
qed

lemma ld_read_line: "10 \<notin> set l \<Longrightarrow> length l < n \<Longrightarrow> ld_read True n (l @ 10 # q) = l @ [10]"
proof (induction l arbitrary: n)
  case Nil
  then show ?case by (cases n) simp_all
next
  case (Cons c l)
  then show ?case by (cases n) simp_all
qed

section \<open>The keyboard\<close>

text \<open>The decoder as a function: modifier state and the bytes a scan code types.\<close>

type_synonym mods = "bool \<times> bool \<times> bool"

definition plain_key :: "bool \<Rightarrow> u8 \<Rightarrow> u8" where
  "plain_key shift sc =
     (if sc < 127 then if shift \<and> ascii_shifted sc \<noteq> 0 then ascii_shifted sc else ascii sc else 0)"

definition arrow_key :: "u8 \<Rightarrow> u8 list" where
  "arrow_key sc = (case map_of [(0x48, 0x41), (0x50, 0x42), (0x4d, 0x43), (0x4b, 0x44)] sc of
     None \<Rightarrow> [] | Some c \<Rightarrow> [27, 0x5b, c])"

definition key_step :: "u8 \<Rightarrow> mods \<Rightarrow> mods \<times> u8 list" where
  "key_step sc = (\<lambda>(sh, ct, ex).
     if sc = 0x2a \<or> sc = 0x36 then ((True, ct, ex), [])
     else if sc = 0xaa \<or> sc = 0xb6 then ((False, ct, ex), [])
     else if sc = 0x1d then ((sh, True, ex), [])
     else if sc = 0x9d then ((sh, False, ex), [])
     else if sc = 0xe0 then ((sh, ct, True), [])
     else if sc AND 0x80 \<noteq> 0 then ((sh, ct, ex), [])
     else if ex then ((sh, ct, False), arrow_key sc)
     else ((sh, ct, ex), let c = plain_key sh sc in if c = 0 then [] else [if ct then ctrl_char c else c]))"

primrec key_bytes :: "u8 list \<Rightarrow> mods \<Rightarrow> u8 list" where
  "key_bytes [] m = []"
| "key_bytes (sc # scs) m = snd (key_step sc m) @ key_bytes scs (fst (key_step sc m))"

primrec key_mods :: "u8 list \<Rightarrow> mods \<Rightarrow> mods" where
  "key_mods [] m = m"
| "key_mods (sc # scs) m = key_mods scs (fst (key_step sc m))"

definition mods_of :: "'a console_scheme \<Rightarrow> mods" where
  "mods_of k = (shift_pressed k, ctrl_pressed k, extended k)"

text \<open>What the decoder needs: a usable terminal, and an event queue if there is an event device.\<close>

definition kbd_ok :: "'a console_scheme \<Rightarrow> bool" where
  "kbd_ok k \<longleftrightarrow> active_tty k < length (ttys k) \<and> tty_ok (ttys k ! active_tty k) \<and> reader_ok (active_tty k) k
   \<and> (kbd_event_node k \<noteq> NULL \<longrightarrow> (\<exists>n s. nodes k (kbd_event_node k) = Some n \<and> evdevs k (internal_data n) = Some s))"

text \<open>A sequence of bytes into the active terminal.\<close>

primrec tty_input :: "u8 list \<Rightarrow> 'a console_scheme \<Rightarrow> 'a console_scheme option" where
  "tty_input [] k = Some k"
| "tty_input (c # cs) k = do { k1 \<leftarrow> tty_input_char (active_tty k) c k; tty_input cs k1 }"

lemma key_events_ok:
  assumes "kbd_ok k"
  obtains ev where "key_events sc k = Some (k\<lparr>evdevs := ev\<rparr>)" "dom ev = dom (evdevs k)"
proof (cases "kbd_event_node k = NULL")
  case True
  then show ?thesis using that [of "evdevs k"] by (simp add: key_events_def)
next
  case False
  then obtain n s where n: "nodes k (kbd_event_node k) = Some n" "evdevs k (internal_data n) = Some s"
    using assms by (auto simp: kbd_ok_def)
  let ?key = "\<lparr>ev_type = 1, ev_code = ucast (sc AND 0x7f), ev_value = (if sc AND 0x80 \<noteq> 0 then 0 else 1)\<rparr>"
  show ?thesis
  proof (rule that)
    show "key_events sc k = Some (k\<lparr>evdevs := (evdevs k)(internal_data n \<mapsto>
        evdev_put \<lparr>ev_type = 0, ev_code = 0, ev_value = 0\<rparr> (evdev_put ?key s))\<rparr>)"
      using False n by (simp add: key_events_def evdev_push_event_def)
  qed (use n in auto)
qed

lemma kbd_ok_cong:
  assumes "kbd_ok k" "ttys k' = ttys k" "active_tty k' = active_tty k" "procs k' = procs k"
    "kbd_event_node k' = kbd_event_node k" "nodes k' = nodes k" "dom (evdevs k') = dom (evdevs k)"
  shows "kbd_ok k'"
proof -
  have "(\<exists>s. evdevs k' a = Some s) \<longleftrightarrow> (\<exists>s. evdevs k a = Some s)" for a
    using assms(7) by (metis domIff not_None_eq)
  then show ?thesis using assms(1-6) by (simp add: kbd_ok_def reader_ok_def)
qed

lemma arrow_cases: "arrow_key sc = (if sc = 0x48 then [27, 0x5b, 0x41] else if sc = 0x50 then [27, 0x5b, 0x42]
    else if sc = 0x4d then [27, 0x5b, 0x43] else if sc = 0x4b then [27, 0x5b, 0x44] else [])"
  by (simp add: arrow_key_def)

lemma escape_key_input: "escape_key c k = tty_input [27, 0x5b, c] k"
  by (simp add: escape_key_def)

text \<open>
  The handler is the decoder followed by terminal input; in between, only the modifiers, the event
  queue and the keyboard's own ring change.
\<close>

lemma mods_of_sel [simp]: "mods_of (k\<lparr>evdevs := ev\<rparr>) = mods_of k" "mods_of (kb_put c k) = mods_of k"
  "mods_of (k\<lparr>evdevs := ev, extended := x\<rparr>) = (shift_pressed k, ctrl_pressed k, x)"
  by (simp_all add: mods_of_def kb_put_def)

definition decoded :: "u8 \<Rightarrow> 'a console_scheme \<Rightarrow> 'a console_scheme \<Rightarrow> bool" where
  "decoded sc k k1 \<longleftrightarrow>
     kbd_ok k1 \<and> ttys k1 = ttys k \<and> procs k1 = procs k \<and> current_process k1 = current_process k \<and> active_tty k1 = active_tty k
   \<and> ttys_at k1 = ttys_at k \<and> mods_of k1 = fst (key_step sc (mods_of k))"

lemma decodedI:
  assumes "kbd_ok k" "ttys k1 = ttys k" "active_tty k1 = active_tty k" "procs k1 = procs k" "kbd_event_node k1 = kbd_event_node k"
    "nodes k1 = nodes k" "dom (evdevs k1) = dom (evdevs k)" "current_process k1 = current_process k" "ttys_at k1 = ttys_at k"
    "mods_of k1 = fst (key_step sc (mods_of k))"
  shows "decoded sc k k1"
  using kbd_ok_cong [OF assms(1-7)] assms(2-10) by (simp add: decoded_def)

lemma keyboard_decodes:
  assumes ok: "kbd_ok k"
  shows "\<exists>k1. keyboard_handle_scancode sc k = tty_input (snd (key_step sc (mods_of k))) k1 \<and> decoded sc k k1"
proof -
  obtain ev where ev: "key_events sc k = Some (k\<lparr>evdevs := ev\<rparr>)" "dom ev = dom (evdevs k)"
    by (rule key_events_ok [OF ok])
  define c where "c = plain_key (shift_pressed k) sc"
  consider (shift) "sc = 0x2a \<or> sc = 0x36" | (unshift) "sc = 0xaa \<or> sc = 0xb6" | (ctrl) "sc = 0x1d" | (unctrl) "sc = 0x9d"
    | (ext) "sc = 0xe0" | (other) "sc \<notin> {0x2a, 0x36, 0xaa, 0xb6, 0x1d, 0x9d, 0xe0}" by blast
  then show ?thesis
  proof cases
    case shift
    then show ?thesis using ev by (intro exI [of _ "k\<lparr>evdevs := ev, shift_pressed := True\<rparr>"] conjI decodedI ok)
      (auto simp: keyboard_handle_scancode_def key_step_def mods_of_def)
  next
    case unshift
    then show ?thesis using ev by (intro exI [of _ "k\<lparr>evdevs := ev, shift_pressed := False\<rparr>"] conjI decodedI ok)
      (auto simp: keyboard_handle_scancode_def key_step_def mods_of_def)
  next
    case ctrl
    then show ?thesis using ev by (intro exI [of _ "k\<lparr>evdevs := ev, ctrl_pressed := True\<rparr>"] conjI decodedI ok)
      (auto simp: keyboard_handle_scancode_def key_step_def mods_of_def)
  next
    case unctrl
    then show ?thesis using ev by (intro exI [of _ "k\<lparr>evdevs := ev, ctrl_pressed := False\<rparr>"] conjI decodedI ok)
      (auto simp: keyboard_handle_scancode_def key_step_def mods_of_def)
  next
    case ext
    then show ?thesis using ev by (intro exI [of _ "k\<lparr>evdevs := ev, extended := True\<rparr>"] conjI decodedI ok)
      (auto simp: keyboard_handle_scancode_def key_step_def mods_of_def)
  next
    case other
    then have sc: "\<not> (sc = 0x2a \<or> sc = 0x36)" "\<not> (sc = 0xaa \<or> sc = 0xb6)" "sc \<noteq> 0x1d" "sc \<noteq> 0x9d" "sc \<noteq> 0xe0" by auto
    note unf = keyboard_handle_scancode_def ev(1) bind.bind_lunit if_not_P [OF sc(1)] if_not_P [OF sc(2)] if_not_P [OF sc(3)]
      if_not_P [OF sc(4)] if_not_P [OF sc(5)]
    have step: "key_step sc (mods_of k) =
        (if sc AND 0x80 \<noteq> 0 then (mods_of k, [])
         else if extended k then ((shift_pressed k, ctrl_pressed k, False), arrow_key sc)
         else (mods_of k, if c = 0 then [] else [if ctrl_pressed k then ctrl_char c else c]))"
      using sc by (simp add: key_step_def mods_of_def c_def Let_def)
    consider "sc AND 0x80 \<noteq> 0 \<or> \<not> extended k \<and> c = 0" | "sc AND 0x80 = 0" "extended k"
      | "sc AND 0x80 = 0" "\<not> extended k" "c \<noteq> 0" by blast
    then show ?thesis
    proof cases
      case 1
      then show ?thesis using ev unfolding unf step by (intro exI [of _ "k\<lparr>evdevs := ev\<rparr>"] conjI decodedI ok)
        (auto simp: step key_char_def plain_key_def c_def Let_def)
    next
      case 2
      then show ?thesis using ev unfolding unf step
        by (intro exI [of _ "k\<lparr>evdevs := ev, extended := False\<rparr>"] conjI decodedI ok)
          (auto simp: step arrow_cases escape_key_input Let_def)
    next
      case 3
      have "key_char sc (k\<lparr>evdevs := ev\<rparr>) = c" by (simp add: key_char_def plain_key_def c_def)
      with 3 show ?thesis using ev unfolding unf step
        by (intro exI [of _ "kb_put (if ctrl_pressed k then ctrl_char c else c) (k\<lparr>evdevs := ev\<rparr>)"] conjI decodedI ok)
          (simp_all add: step Let_def, simp_all add: kb_put_def)
    qed
  qed
qed

section \<open>From the keyboard to a reader\<close>

text \<open>The active terminal after a sequence of bytes, by the specification.\<close>

definition ld_inputs :: "bool \<Rightarrow> bool \<Rightarrow> u8 list \<Rightarrow> u8 list \<times> u8 list \<Rightarrow> u8 list \<times> u8 list" where
  "ld_inputs canon cr cs = fold (\<lambda>c. ld_input canon (ld_char cr c)) cs"

abbreviation term_of :: "'a console_scheme \<Rightarrow> tty_t" where
  "term_of k \<equiv> ttys k ! active_tty k"

definition fed :: "u8 list \<Rightarrow> 'a console_scheme \<Rightarrow> 'a console_scheme \<Rightarrow> bool" where
  "fed cs k k' \<longleftrightarrow>
     kbd_ok k' \<and> active_tty k' = active_tty k \<and> ttys_at k' = ttys_at k \<and> current_process k' = current_process k
   \<and> dom (procs k') = dom (procs k) \<and> tty_termios (term_of k') = tty_termios (term_of k)
   \<and> tty_view (term_of k') = ld_inputs (canonical (term_of k)) (icrnl (term_of k)) cs (tty_view (term_of k))"

lemma icrnl_termios: "tty_termios t' = tty_termios t \<Longrightarrow> icrnl t' = icrnl t"
  by (simp add: icrnl_def)

lemma tty_input_ok:
  assumes "kbd_ok k"
  shows "\<exists>k'. tty_input cs k = Some k' \<and> fed cs k k' \<and> mods_of k' = mods_of k"
  using assms
proof (induction cs arbitrary: k)
  case Nil
  then show ?case by (simp add: fed_def ld_inputs_def)
next
  case (Cons c cs)
  let ?i = "active_tty k" and ?c = "ld_char (icrnl (term_of k)) c"
  have ok: "?i < length (ttys k)" "tty_ok (ttys k ! ?i)" "reader_ok ?i k" using Cons.prems by (simp_all add: kbd_ok_def)
  obtain k1 where k1: "tty_input_char ?i c k = Some k1" "input_done ?i ?c k k1"
    using input_char_done [OF ok, of c] by blast
  then have same: "same_console ?i k k1" by (simp add: input_done_def)
  have a1: "active_tty k1 = ?i" using same by (simp add: same_console_def)
  have kb: "kbd_ok k1" using Cons.prems k1(2) same by (simp add: kbd_ok_def input_done_def same_console_def)
  obtain k' where k': "tty_input cs k1 = Some k'" "fed cs k1 k'" "mods_of k' = mods_of k1"
    using Cons.IH [OF kb] by blast
  have t: "tty_termios (ttys k1 ! ?i) = tty_termios (ttys k ! ?i)" using k1(2) by (simp add: input_done_def)
  have "fed (c # cs) k k'"
    using k'(2) same k1(2) unfolding fed_def a1 canonical_termios [OF t] icrnl_termios [OF t]
    by (auto simp: input_done_def same_console_def ld_inputs_def)
  moreover have "mods_of k' = mods_of k" using k'(3) same by (simp add: mods_of_def same_console_def)
  ultimately show ?case using k1(1) k'(1) by simp
qed

lemma keyboard_feeds:
  assumes "kbd_ok k"
  shows "\<exists>k'. keyboard_handle_scancode sc k = Some k' \<and> fed (snd (key_step sc (mods_of k))) k k'
     \<and> mods_of k' = fst (key_step sc (mods_of k))"
proof -
  obtain k1 where k1: "keyboard_handle_scancode sc k = tty_input (snd (key_step sc (mods_of k))) k1" "decoded sc k k1"
    using keyboard_decodes [OF assms] by blast
  then obtain k' where "tty_input (snd (key_step sc (mods_of k))) k1 = Some k'" "fed (snd (key_step sc (mods_of k))) k1 k'"
      "mods_of k' = mods_of k1"
    using tty_input_ok [of k1] by (auto simp: decoded_def)
  then show ?thesis using k1 by (auto simp: decoded_def fed_def)
qed

subsection \<open>A line typed before its end\<close>

definition edit_line :: "u8 list \<Rightarrow> u8 list \<Rightarrow> u8 list" where
  "edit_line = fold (\<lambda>c l. if c = 127 then butlast l else l @ [c])"

lemma length_edit_line: "length (edit_line cs l) \<le> length l + length cs"
proof (induction cs arbitrary: l)
  case (Cons c cs)
  show ?case using Cons.IH [of "if c = 127 then butlast l else l @ [c]"] by (simp add: edit_line_def split: if_splits)
qed (simp add: edit_line_def)

lemma ld_inputs_edit:
  assumes "10 \<notin> set cs" "13 \<notin> set cs" "length l + length cs \<le> 4095"
  shows "ld_inputs True cr cs (q, l) = (q, edit_line cs l)"
  using assms
proof (induction cs arbitrary: l)
  case (Cons c cs)
  then show ?case by (auto simp: ld_inputs_def edit_line_def ld_input_def ld_char_def)
qed (simp_all add: ld_inputs_def edit_line_def)

lemma edit_line_set: "x \<notin> set cs \<Longrightarrow> x \<notin> set l \<Longrightarrow> x \<notin> set (edit_line cs l)"
proof (induction cs arbitrary: l)
  case (Cons c cs)
  then show ?case by (auto simp: edit_line_def dest: in_set_butlastD)
qed (simp add: edit_line_def)

text \<open>A process that has halted in \<^verbatim>\<open>tty_read\<close> on the active terminal.\<close>

definition reading :: "'a console_scheme \<Rightarrow> bool" where
  "reading k \<longleftrightarrow> kbd_ok k \<and> canonical (term_of k) \<and> icrnl (term_of k) \<and> cooked (term_of k) = []
   \<and> current_process k \<noteq> NULL \<and> current_process k \<in> dom (procs k)"

text \<open>The state in which the processor halts.\<close>

definition halted :: "'a console_scheme \<Rightarrow> 'a console_scheme" where
  "halted k = (upd_tty (active_tty k) (\<lambda>t. t\<lparr>waiting_reader := current_process k\<rparr>) k)\<lparr>procs := (procs k)(current_process k \<mapsto>
     (the (procs k (current_process k)))\<lparr>wait_reason := WAIT_TTY, wait_channel := tty_ptr k (active_tty k), wait_pid := - 1,
       state := TASK_WAITING\<rparr>)\<rparr>"

lemma halted_sel [simp]:
  "active_tty (halted k) = active_tty k" "current_process (halted k) = current_process k" "ttys_at (halted k) = ttys_at k"
  "mods_of (halted k) = mods_of k" "nodes (halted k) = nodes k" "evdevs (halted k) = evdevs k"
  "kbd_event_node (halted k) = kbd_event_node k" "length (ttys (halted k)) = length (ttys k)"
  by (simp_all add: halted_def upd_tty_def mods_of_def)

lemma halted_ok:
  assumes "reading k"
  shows "reading (halted k)" "tty_view (term_of (halted k)) = tty_view (term_of k)"
    "tty_termios (term_of (halted k)) = tty_termios (term_of k)" "dom (procs (halted k)) = dom (procs k)"
    "waiting_reader (term_of (halted k)) = current_process k"
    "\<exists>p. procs (halted k) (current_process k) = Some p \<and> waits_for (active_tty k) (halted k) p"
proof -
  have t: "term_of (halted k) = (term_of k)\<lparr>waiting_reader := current_process k\<rparr>"
    using assms by (simp add: halted_def upd_tty_def reading_def kbd_ok_def)
  show d: "dom (procs (halted k)) = dom (procs k)" using assms by (auto simp: halted_def reading_def)
  show "waiting_reader (term_of (halted k)) = current_process k" "tty_view (term_of (halted k)) = tty_view (term_of k)"
    "tty_termios (term_of (halted k)) = tty_termios (term_of k)"
    unfolding t by simp_all
  show "reading (halted k)" using assms d t by (simp add: reading_def kbd_ok_def reader_ok_def)
  show "\<exists>p. procs (halted k) (current_process k) = Some p \<and> waits_for (active_tty k) (halted k) p"
    by (simp add: halted_def waits_for_def tty_ptr_def)
qed

lemma tty_wait_halts:
  assumes "reading k"
  shows "tty_wait (active_tty k) False (irq # irqs) k = Option.bind (irq (halted k)) (tty_wait (active_tty k) False irqs)"
proof -
  let ?i = "active_tty k"
  obtain p where p: "procs k (current_process k) = Some p" using assms by (auto simp: reading_def)
  have e: "tty_buf_empty (ttys k ! ?i)" using assms tty_buf_empty_iff by (simp add: reading_def kbd_ok_def)
  have "upd_proc (current_process k)
         (\<lambda>p. p\<lparr>wait_reason := WAIT_TTY, wait_channel := tty_ptr k ?i, wait_pid := - 1, state := TASK_WAITING\<rparr>)
         (upd_tty ?i (\<lambda>t. t\<lparr>waiting_reader := current_process k\<rparr>) k) = Some (halted k)"
    using p by (simp add: upd_proc_def proc_at_def halted_def)
  then show ?thesis using assms e by (subst tty_wait.simps) (simp add: reading_def)
qed

lemma fed_reading:
  assumes "reading k" "fed cs k k'" "10 \<notin> set cs" "13 \<notin> set cs" "length (typed (term_of k)) + length cs \<le> 4095"
  shows "reading k'" "typed (term_of k') = edit_line cs (typed (term_of k))"
proof -
  have v: "tty_view (term_of k') = ([], edit_line cs (typed (term_of k)))"
    using assms ld_inputs_edit [OF assms(3-5)] by (auto simp: fed_def reading_def tty_view_def)
  then show "typed (term_of k') = edit_line cs (typed (term_of k))" by (simp add: tty_view_def)
  show "reading k'" using assms(1,2) v canonical_termios [of "term_of k'" "term_of k"] icrnl_termios [of "term_of k'" "term_of k"]
    by (auto simp: reading_def fed_def tty_view_def)
qed

lemma wait_for_line:
  assumes "reading k" "10 \<notin> set (key_bytes scs (mods_of k))" "13 \<notin> set (key_bytes scs (mods_of k))"
    "length (typed (term_of k)) + length (key_bytes scs (mods_of k)) \<le> 4095"
  shows "\<exists>k'. tty_wait (active_tty k) False (map keyboard_handle_scancode scs @ irqs) k = tty_wait (active_tty k) False irqs k'
     \<and> reading k' \<and> active_tty k' = active_tty k \<and> current_process k' = current_process k
     \<and> typed (term_of k') = edit_line (key_bytes scs (mods_of k)) (typed (term_of k)) \<and> mods_of k' = key_mods scs (mods_of k)"
  using assms
proof (induction scs arbitrary: k)
  case Nil
  then show ?case by (auto simp: edit_line_def)
next
  case (Cons sc scs)
  let ?h = "halted k" and ?cs = "snd (key_step sc (mods_of k))"
  note h = halted_ok [OF Cons.prems(1)]
  have kb: "kbd_ok ?h" using h(1) by (simp add: reading_def)
  obtain k1 where k1: "keyboard_handle_scancode sc ?h = Some k1" "fed ?cs ?h k1" "mods_of k1 = fst (key_step sc (mods_of k))"
    using keyboard_feeds [OF kb, of sc] by auto
  have ty: "typed (term_of ?h) = typed (term_of k)" using h(2) by (simp add: tty_view_def)
  have r: "reading k1" "typed (term_of k1) = edit_line ?cs (typed (term_of k))"
    using fed_reading [OF h(1) k1(2)] Cons.prems ty by simp_all
  have le: "length (typed (term_of k1)) + length (key_bytes scs (mods_of k1)) \<le> 4095"
    using Cons.prems(4) length_edit_line [of ?cs "typed (term_of k)"] unfolding r(2) k1(3) by simp
  obtain k' where k': "tty_wait (active_tty k1) False (map keyboard_handle_scancode scs @ irqs) k1 = tty_wait (active_tty k1) False irqs k'"
      "reading k'" "active_tty k' = active_tty k1" "current_process k' = current_process k1"
      "typed (term_of k') = edit_line (key_bytes scs (mods_of k1)) (typed (term_of k1))" "mods_of k' = key_mods scs (mods_of k1)"
    using Cons.IH [OF r(1) _ _ le] Cons.prems(2,3) k1(3) by auto
  have a: "active_tty k1 = active_tty k" "current_process k1 = current_process k" using k1(2) by (simp_all add: fed_def)
  have "tty_wait (active_tty k) False (map keyboard_handle_scancode (sc # scs) @ irqs) k = tty_wait (active_tty k) False irqs k'"
    using tty_wait_halts [OF Cons.prems(1)] k1(1) k'(1) a(1) by simp
  then show ?case using k' a r(2) k1(3) by (auto simp: edit_line_def)
qed

lemma enter_key: "\<not> ex \<Longrightarrow> key_step 0x1c (sh, ct, ex) = ((sh, ct, ex), [13])"
  by (simp add: key_step_def plain_key_def ascii_def ascii_shifted_def ascii_table_def ascii_shifted_table_def
      ctrl_char_def Let_def word_less_nat_alt word_le_nat_alt)

lemma enter_delivers:
  assumes r: "reading k" and ext: "\<not> extended k" and l: "length (typed (term_of k)) < 4095"
  shows "\<exists>k'. keyboard_handle_scancode 0x1c k = Some k' \<and> active_tty k' = active_tty k \<and> active_tty k < length (ttys k')
     \<and> tty_ok (term_of k') \<and> canonical (term_of k') \<and> tty_view (term_of k') = (typed (term_of k) @ [10], [])
     \<and> reader_woken (active_tty k) k k'"
proof -
  let ?i = "active_tty k"
  have m: "key_step 0x1c (mods_of k) = (mods_of k, [13])" using ext enter_key by (simp add: mods_of_def)
  have kb: "kbd_ok k" using r by (simp add: reading_def)
  obtain k1 where k1: "keyboard_handle_scancode 0x1c k = tty_input [13] k1" "decoded 0x1c k k1"
    using keyboard_decodes [OF kb, of "0x1c"] unfolding m by auto
  have same: "ttys k1 = ttys k" "procs k1 = procs k" "active_tty k1 = ?i" "ttys_at k1 = ttys_at k"
    using k1(2) by (simp_all add: decoded_def)
  have ok: "?i < length (ttys k1)" "tty_ok (ttys k1 ! ?i)" "reader_ok ?i k1"
    using k1(2) by (auto simp: decoded_def kbd_ok_def)
  obtain k' where k': "tty_input_char ?i 13 k1 = Some k'" "input_done ?i (ld_char (icrnl (ttys k1 ! ?i)) 13) k1 k'"
    using input_char_done [OF ok] by blast
  have t: "ld_char (icrnl (ttys k1 ! ?i)) 13 = 10" "canonical (ttys k1 ! ?i)" "cooked (ttys k1 ! ?i) = []"
    using r by (simp_all add: reading_def same ld_char_def)
  have d: "input_done ?i 10 k1 k'" using k'(2) unfolding t(1) .
  have "tty_view (ttys k' ! ?i) = (typed (term_of k) @ [10], [])"
    using d t(2,3) l by (simp add: input_done_def same tty_view_def ld_input_def deliver_def)
  moreover have "reader_woken ?i k k'"
    using d t(2) l reader_woken_cong [of ?i k1 k' k] by (simp add: input_done_def same delivers_def)
  moreover have "active_tty k' = ?i" "?i < length (ttys k')" using d ok(1) by (auto simp: input_done_def same_console_def same(3))
  moreover have "canonical (ttys k' ! ?i)"
    using d t(2) canonical_termios [of "ttys k' ! ?i" "ttys k1 ! ?i"] by (simp add: input_done_def)
  ultimately show ?thesis using k1(1) k'(1) d by (auto simp: same(3) input_done_def)
qed

lemma wait_then_read:
  assumes w: "tty_wait i False irqs k = Some (Ready, rest, k1)" and i: "i < length (ttys k1)"
    and t: "tty_ok (ttys k1 ! i)" "canonical (ttys k1 ! i)" "cooked (ttys k1 ! i) = l @ [10]" and l: "10 \<notin> set l" "length l < n"
  shows "\<exists>f. tty_read_loop i n False irqs k = Some (l @ [10], rest, upd_tty i f k1)
     \<and> typed (f (ttys k1 ! i)) = typed (ttys k1 ! i) \<and> cooked (f (ttys k1 ! i)) = []"
proof -
  obtain n' where n: "n = Suc n'" using l(2) by (cases n) auto
  have ne: "\<not> tty_buf_empty (ttys k1 ! i)" using tty_buf_empty_iff [OF t(1)] t(3) by simp
  have "tty_read_loop i n False irqs k = tty_read_loop i n False rest k1"
    unfolding n by (simp add: w tty_wait_ready [OF ne])
  moreover have "\<exists>f. tty_read_loop i n False rest k1 = Some (ld_read True n (l @ [10]), rest, upd_tty i f k1)
      \<and> typed (f (ttys k1 ! i)) = typed (ttys k1 ! i)
      \<and> cooked (f (ttys k1 ! i)) = drop (length (ld_read True n (l @ [10]))) (l @ [10])"
    using tty_read_loop_ok [OF i t(1), of False n rest] t(2,3) by auto
  moreover have "ld_read True n (l @ [10]) = l @ [10]" using ld_read_line [OF l] by simp
  ultimately show ?thesis by auto
qed

section \<open>An example console\<close>

definition shell_tty :: tty_t where
  "shell_tty = zero_tty\<lparr>tty_termios := zero_termios\<lparr>c_lflag := ICANON OR ECHO OR ISIG, c_iflag := ICRNL,
     c_oflag := OPOST OR ONLCR\<rparr>\<rparr>"

definition shell_console :: console where
  "shell_console = \<lparr>pmem = (\<lambda>_. 0), hhdm_offset = 0xffff800000000000, nx_supported = True,
     pmm_buddy = None, total_system_pages = 0, arena_phys_base = 0, arena_total_len = 0,
     kernel_pml4 = 0x1000, cr3 = 0, heap_virtual_top = 0xffff900000000000, buckets = replicate 8 NULL,
     procs = [0x4000 \<mapsto> zero_process\<lparr>pid := 1, priority := PRIO_NORMAL\<rparr>],
     open_files = (\<lambda>_. None), processes = 0x4000 # replicate 63 NULL, process_count = 1,
     current_process_index = 0, current_process = 0x4000, init_process = 0x4000, idle_process = NULL,
     rr_cursor = 0, next_pid = 2, timer_ticks = 0, cpu_id = 0, tss_rsp0 = (\<lambda>_. 0), cpu_kernel_stack = (\<lambda>_. 0),
     fpu = [], interrupt_frame = zero_registers, nodes = (\<lambda>_. None), root_node = NULL,
     ttys_at = 0xffffffff80100000, tty_devices_at = 0xffffffff80110000, tty_nodes_at = 0xffffffff80120000,
     ttys = replicate 2 shell_tty, tty_devices = replicate 2 \<lparr>dev_tty = NULL, dev_node = NULL\<rparr>, active_tty = 0,
     ft_ctx = True, screen = [], debug_port = [], kb_buffer = replicate 256 0, kb_head = 0, kb_tail = 0,
     shift_pressed = False, ctrl_pressed = False, extended = False, kbd_event_node = NULL, evdevs = (\<lambda>_. None)\<rparr>"

lemma shell_tty_ok: "tty_ok shell_tty" "canonical shell_tty" "icrnl shell_tty" "tty_view shell_tty = ([], [])"
  "waiting_reader shell_tty = NULL"
  by (simp_all add: shell_tty_def zero_tty_def tty_ok_def ring_ok_def canonical_def icrnl_def tty_view_def cooked_def typed_def
      ring_def ICANON_def ECHO_def ISIG_def ICRNL_def)

lemma shell_ttys: "ttys shell_console = [shell_tty, shell_tty]" "active_tty shell_console = 0"
  by (simp_all add: shell_console_def numeral_2_eq_2)

lemma shell_kbd: "kbd_ok shell_console"
proof -
  have "kbd_event_node shell_console = NULL" by (simp add: shell_console_def)
  then show ?thesis using shell_tty_ok by (simp add: kbd_ok_def shell_ttys reader_ok_def)
qed

lemma shell_reading: "reading shell_console" "mods_of shell_console = (False, False, False)"
proof -
  have "current_process shell_console = 0x4000" "0x4000 \<in> dom (procs shell_console)" by (simp_all add: shell_console_def)
  then show "reading shell_console" using shell_kbd shell_tty_ok by (simp add: reading_def shell_ttys tty_view_def)
  show "mods_of shell_console = (False, False, False)" by (simp add: shell_console_def mods_of_def)
qed

section \<open>Properties\<close>

text \<open>
  C8: tty_input_char implements the line discipline: in every state of a terminal it returns, the bytes
  a reader can get and the line being edited change as the specification says for the byte (carriage
  return translated when ICRNL is set, raw and canonical mode, erase, line end, overflow), no other
  terminal changes, the ring indices stay in range, and when the byte makes input available a
  process that waits for this terminal becomes ready.
\<close>

theorem tty_input_refines:
  assumes "i < length (ttys k)" "tty_ok (ttys k ! i)" "reader_ok i k"
  shows "\<exists>k'. tty_input_char i c k = Some k' \<and> tty_ok (ttys k' ! i)
     \<and> tty_view (ttys k' ! i) = ld_input (canonical (ttys k ! i)) (ld_char (icrnl (ttys k ! i)) c) (tty_view (ttys k ! i))
     \<and> (\<forall>j. j \<noteq> i \<longrightarrow> ttys k' ! j = ttys k ! j)
     \<and> (delivers (canonical (ttys k ! i)) (ld_char (icrnl (ttys k ! i)) c) (typed (ttys k ! i)) \<longrightarrow> reader_woken i k k')"
  using input_char_done [OF assms, of c] by (auto simp: input_done_def same_console_def)

theorem tty_input_refines_witness:
  "\<exists>k'. tty_input_char 1 0x61 shell_console = Some k' \<and> tty_view (ttys k' ! 1) = ([], [0x61]) \<and> ttys k' ! 0 = shell_tty"
proof -
  have "reader_ok 1 shell_console" using shell_tty_ok by (simp add: reader_ok_def shell_ttys)
  then show ?thesis
    using tty_input_refines [of 1 shell_console "0x61"] shell_tty_ok by (auto simp: shell_ttys ld_input_def ld_char_def)
qed

text \<open>
  C6: a blocked reader gets the line that is typed. A process calls tty_read on the active terminal in
  canonical mode with nothing buffered and halts; then scan codes arrive, one per interrupt, that
  type fewer than 4095 bytes and no line end and do not end in the prefix 0xE0, and finally the
  Enter key. With room in the caller's buffer for the edited line and its newline the read returns, its bytes are the decoded keys with
  erased characters removed, followed by a newline, nothing is left in the terminal, all interrupts
  are used, and the process is ready.
\<close>

theorem tty_read_typed_line:
  assumes bytes_def: "bytes = key_bytes scs (mods_of k)"
    and r: "reading k" "typed (term_of k) = []" and b: "10 \<notin> set bytes" "13 \<notin> set bytes" "length bytes < 4095"
    and ext: "\<not> snd (snd (key_mods scs (mods_of k)))" and n: "buf \<noteq> NULL" "length (edit_line bytes []) < unat n"
  shows "\<exists>k' p. tty_read (Some (active_tty k)) buf n False (map keyboard_handle_scancode (scs @ [0x1c])) k
           = Some (edit_line bytes [] @ [10], [], k')
     \<and> tty_view (ttys k' ! active_tty k) = ([], []) \<and> procs k' (current_process k) = Some p \<and> state p = TASK_READY"
proof -
  let ?i = "active_tty k"
  obtain k1 where k1: "tty_wait ?i False (map keyboard_handle_scancode (scs @ [0x1c])) k = tty_wait ?i False [keyboard_handle_scancode 0x1c] k1"
      "reading k1" "active_tty k1 = ?i" "current_process k1 = current_process k"
      "typed (term_of k1) = edit_line bytes []" "mods_of k1 = key_mods scs (mods_of k)"
    using wait_for_line [OF r(1), of scs "[keyboard_handle_scancode 0x1c]"] b r(2) by (auto simp: bytes_def)
  note h = halted_ok [OF k1(2)]
  have ty: "typed (term_of (halted k1)) = edit_line bytes []" using h(2) k1(5) by (simp add: tty_view_def)
  have ex: "\<not> extended (halted k1)" 
  proof -
    have "extended x = snd (snd (mods_of x))" for x :: "'a console_scheme" by (simp add: mods_of_def)
    then show ?thesis using ext k1(6) by simp
  qed
  have len: "length (typed (term_of (halted k1))) < 4095" using length_edit_line [of bytes "[]"] b(3) ty by simp
  obtain k2 where k2: "keyboard_handle_scancode 0x1c (halted k1) = Some k2" "active_tty k2 = ?i" "?i < length (ttys k2)"
      "tty_ok (term_of k2)" "canonical (term_of k2)" "tty_view (term_of k2) = (edit_line bytes [] @ [10], [])"
      "reader_woken ?i (halted k1) k2"
    using enter_delivers [OF h(1) ex len] ty by (auto simp: k1(3))
  have ne: "\<not> tty_buf_empty (term_of k2)" using tty_buf_empty_iff [OF k2(4)] k2(6) by (simp add: tty_view_def)
  have w: "tty_wait ?i False (map keyboard_handle_scancode (scs @ [0x1c])) k = Some (Ready, [], k2)"
    using k1(1) tty_wait_halts [OF k1(2), of "keyboard_handle_scancode 0x1c" "[]"] k1(3) k2(1) tty_wait_ready [OF ne] k2(2) by simp
  have nl: "10 \<notin> set (edit_line bytes [])" using edit_line_set [OF b(1)] by simp
  obtain f where f: "tty_read_loop ?i (unat n) False (map keyboard_handle_scancode (scs @ [0x1c])) k
        = Some (edit_line bytes [] @ [10], [], upd_tty ?i f k2)" "typed (f (ttys k2 ! ?i)) = []" "cooked (f (ttys k2 ! ?i)) = []"
    using wait_then_read [OF w k2(3) _ _ _ nl n(2)] k2(2,4-6) by (auto simp: tty_view_def)
  obtain p where "procs k2 (current_process k) = Some p" "state p = TASK_READY"
    using k2(7) h(5,6) r(1) by (auto simp: reader_woken_def k1(3,4) reading_def)
  moreover have "n \<noteq> 0" using n(2) by auto
  ultimately show ?thesis using f k2(3) n(1) by (auto simp: tty_read_def tty_view_def)
qed

theorem tty_read_typed_line_witness:
  "\<exists>k' p. tty_read (Some 0) 0x600000 64 False (map keyboard_handle_scancode [0x23, 0x2d, 0x0e, 0x17, 0x1c]) shell_console
     = Some ([0x68, 0x69, 10], [], k') \<and> tty_view (ttys k' ! 0) = ([], []) \<and> procs k' 0x4000 = Some p \<and> state p = TASK_READY"
proof -
  have b: "[0x68, 0x78, 127, 0x69] = key_bytes [0x23, 0x2d, 0x0e, 0x17] (mods_of shell_console)"
    unfolding shell_reading by code_simp
  have m: "\<not> snd (snd (key_mods [0x23, 0x2d, 0x0e, 0x17] (mods_of shell_console)))"
    unfolding shell_reading by code_simp
  have e: "edit_line [0x68, 0x78, 127, 0x69] [] = [0x68, 0x69]" by (simp add: edit_line_def)
  have t: "typed (term_of shell_console) = []" using shell_tty_ok by (simp add: shell_ttys tty_view_def)
  have "current_process shell_console = 0x4000" by (simp add: shell_console_def)
  then show ?thesis
    using tty_read_typed_line [OF b shell_reading(1) t _ _ _ m, of "0x600000" 64] by (simp add: e shell_ttys(2))
qed

text \<open>
  C39: the event queue keeps the newest 63 events. Whatever was queued before, after any sequence of
  events a read returns exactly the most recent events that fit, in order, and as many as the
  buffer of the caller holds.
\<close>

theorem evdev_keeps_newest:
  assumes "evdev_ok s"
  shows "fst (evdev_read_loop n (fold evdev_put evs s)) = take n (drop (length (queued s @ evs) - 63) (queued s @ evs))"
  using evdev_read_loop_items [OF evq.put_all_wf [OF assms], of n evs] evq.put_recent [OF assms, of evs]
  by (simp add: EV_BUFFER_SIZE_def)

theorem evdev_keeps_newest_witness:
  "fst (evdev_read_loop 100 (fold evdev_put (replicate 70 \<lparr>ev_type = 1, ev_code = 30, ev_value = 1\<rparr>)
      \<lparr>ev_buffer = replicate 64 \<lparr>ev_type = 0, ev_code = 0, ev_value = 0\<rparr>, ev_head = 5, ev_tail = 5\<rparr>))
   = replicate 63 \<lparr>ev_type = 1, ev_code = 30, ev_value = 1\<rparr>"
proof -
  let ?s = "\<lparr>ev_buffer = replicate 64 \<lparr>ev_type = 0, ev_code = 0, ev_value = 0\<rparr>, ev_head = 5, ev_tail = 5\<rparr>"
  have "evdev_ok ?s" "queued ?s = []" by (simp_all add: evdev_ok_def ring_ok_def queued_def ring_def EV_BUFFER_SIZE_def)
  then show ?thesis using evdev_keeps_newest [of ?s 100 "replicate 70 \<lparr>ev_type = 1, ev_code = 30, ev_value = 1\<rparr>"] by simp
qed

text \<open>
  C40: releasing an arrow key makes the keyboard swallow the next key. After the prefix byte and a
  release code the handler still expects an extended key, so the next key press, unless it is a
  modifier or another prefix, types nothing for an ordinary key.
\<close>

theorem keyboard_release_swallows_key:
  assumes ok: "kbd_ok k" and rel: "rel AND 0x80 \<noteq> 0" "rel \<notin> {0xaa, 0xb6, 0x9d, 0xe0}"
    and sc: "sc AND 0x80 = 0" "sc \<notin> {0x2a, 0x36, 0x1d}" "sc \<notin> {0x48, 0x50, 0x4d, 0x4b}"
  shows "\<exists>k1 k2 k3. keyboard_handle_scancode 0xe0 k = Some k1 \<and> keyboard_handle_scancode rel k1 = Some k2
     \<and> keyboard_handle_scancode sc k2 = Some k3 \<and> tty_view (term_of k3) = tty_view (term_of k)"
proof -
  obtain k1 where k1: "keyboard_handle_scancode 0xe0 k = Some k1" "fed [] k k1" "snd (snd (mods_of k1))"
    using keyboard_feeds [OF ok, of "0xe0"] by (auto simp: key_step_def mods_of_def)
  have "key_step rel (mods_of k1) = (mods_of k1, [])" using rel by (auto simp: key_step_def mods_of_def)
  then obtain k2 where k2: "keyboard_handle_scancode rel k1 = Some k2" "fed [] k1 k2" "mods_of k2 = mods_of k1"
    using keyboard_feeds [of k1 rel] k1(2) by (auto simp: fed_def)
  have "sc \<notin> {0xaa, 0xb6, 0x9d, 0xe0}" using sc(1) by auto
  then have "snd (key_step sc (mods_of k2)) = []"
    using sc k1(3) k2(3) by (auto simp: key_step_def mods_of_def arrow_cases)
  then obtain k3 where "keyboard_handle_scancode sc k2 = Some k3" "fed [] k2 k3"
    using keyboard_feeds [of k2 sc] k2(2) by (auto simp: fed_def)
  then show ?thesis using k1(1,2) k2(1,2) by (auto simp: fed_def ld_inputs_def)
qed

theorem keyboard_release_swallows_key_witness:
  "\<exists>k1 k2 k3. keyboard_handle_scancode 0xe0 shell_console = Some k1 \<and> keyboard_handle_scancode 0xc8 k1 = Some k2
     \<and> keyboard_handle_scancode 0x1e k2 = Some k3 \<and> tty_view (term_of k3) = ([], [])"
  using keyboard_release_swallows_key [OF shell_kbd, of "0xc8" "0x1e"] shell_tty_ok by (simp add: shell_ttys)

end
