(* ===== verification/Bytes.thy ===== *)
theory Bytes
  imports Kmem
begin

text \<open>
  Byte sequences lying in memory: what decoders and parsers read, and output that grows at the end
  of a buffer away from their input.
\<close>

section \<open>Bytes in memory\<close>

definition held :: "mem \<Rightarrow> ptr \<Rightarrow> u8 list \<Rightarrow> bool" where
  "held m p bs \<longleftrightarrow> rd_bytes m p (length bs) = bs"

lemma held_nth: "held m p bs \<longleftrightarrow> (\<forall>i < length bs. m (p + of_nat i) = bs ! i)"
  unfolding held_def rd_bytes_def by (subst list_eq_iff_nth_eq) simp

lemma held_Nil [simp]: "held m p []"
  by (simp add: held_nth)

lemma held_append: "held m p (a @ b) \<longleftrightarrow> held m p a \<and> held m (p + of_nat (length a)) b"
proof
  assume h: "held m p (a @ b)"
  have "m (p + of_nat (length a) + of_nat i) = b ! i" if "i < length b" for i
    using h [unfolded held_nth, rule_format, of "length a + i"] that by (simp add: add.assoc)
  moreover have "m (p + of_nat i) = a ! i" if "i < length a" for i
    using h [unfolded held_nth, rule_format, of i] that by (simp add: nth_append)
  ultimately show "held m p a \<and> held m (p + of_nat (length a)) b" by (simp add: held_nth)
next
  assume h: "held m p a \<and> held m (p + of_nat (length a)) b"
  show "held m p (a @ b)" unfolding held_nth
  proof (intro allI impI)
    fix i assume i: "i < length (a @ b)"
    show "m (p + of_nat i) = (a @ b) ! i"
    proof (cases "i < length a")
      case False
      then have "p + of_nat i = p + of_nat (length a) + (of_nat (i - length a) :: u64)" by (simp add: of_nat_diff)
      moreover have "i - length a < length b" using i False by simp
      ultimately have "m (p + of_nat i) = b ! (i - length a)" using h unfolding held_nth by presburger
      then show ?thesis using False by (simp add: nth_append)
    qed (use h in \<open>simp add: held_nth nth_append\<close>)
  qed
qed

lemma held_Cons: "held m p (x # b) \<longleftrightarrow> m p = x \<and> held m (p + 1) b"
  using held_append [of m p "[x]" b] by (simp add: held_nth)

lemma held_rd: "held m p (to_le 2 (v :: u16)) \<Longrightarrow> rd16 m p = v" "held m p (to_le 4 (w :: u32)) \<Longrightarrow> rd32 m p = w"
  by (simp_all add: held_def rd16_def rd32_def from_to_le)

text \<open>The block at \<open>p\<close> does not meet the output region.\<close>

definition apart :: "ptr \<Rightarrow> nat \<Rightarrow> ptr \<Rightarrow> nat \<Rightarrow> bool" where
  "apart dest N p k \<longleftrightarrow> (\<forall>i < k. N \<le> unat (p + of_nat i - dest))"

lemma apart_split: "apart dest N p (j + k) \<longleftrightarrow> apart dest N p j \<and> apart dest N (p + of_nat j) k"
proof
  assume h: "apart dest N p (j + k)"
  have "N \<le> unat (p + of_nat j + of_nat i - dest)" if "i < k" for i
    using h [unfolded apart_def, rule_format, of "j + i"] that by (simp add: add.assoc)
  then show "apart dest N p j \<and> apart dest N (p + of_nat j) k" using h by (simp add: apart_def)
next
  assume h: "apart dest N p j \<and> apart dest N (p + of_nat j) k"
  show "apart dest N p (j + k)" unfolding apart_def
  proof (intro allI impI)
    fix i assume i: "i < j + k"
    show "N \<le> unat (p + of_nat i - dest)"
    proof (cases "i < j")
      case False
      then have "p + of_nat i = p + of_nat j + (of_nat (i - j) :: u64)" by (simp add: of_nat_diff)
      moreover have "i - j < k" using i False by simp
      ultimately show ?thesis using h unfolding apart_def by presburger
    qed (use h in \<open>simp add: apart_def\<close>)
  qed
qed

lemma held_wr: "held m p bs \<Longrightarrow> apart dest N p (length bs) \<Longrightarrow> length out \<le> N \<Longrightarrow> held (wr_bytes m dest out) p bs"
  by (fastforce simp: held_nth apart_def wr_bytes_def)

lemma wr_snoc:
  assumes "length out < 2 ^ 64"
  shows "(wr_bytes m dest out)(dest + of_nat (length out) := v) = wr_bytes m dest (out @ [v])"
proof (rule ext)
  fix x
  have "x = dest + of_nat (length out) \<longleftrightarrow> unat (x - dest) = length out"
  proof
    assume "unat (x - dest) = length out"
    then have "of_nat (unat (x - dest)) = (of_nat (length out) :: u64)" by simp
    then show "x = dest + of_nat (length out)" by (simp add: algebra_simps)
  qed (use assms in simp)
  then show "((wr_bytes m dest out)(dest + of_nat (length out) := v)) x = wr_bytes m dest (out @ [v]) x"
    by (auto simp: wr_bytes_def nth_append)
qed

lemma wr_nth: "i < length out \<Longrightarrow> length out \<le> 2 ^ 64 \<Longrightarrow> wr_bytes m dest out (dest + of_nat i) = out ! i"
  by (simp add: wr_bytes_def)

end
