(* ===== verification/Lz4.thy ===== *)
theory Lz4
  imports Bytes "HOL-Library.Monad_Syntax"
begin

text \<open>
  The LZ4 decoder that unpacks the initial ramdisk (\<^verbatim>\<open>kernel/lz4.c\<close>), over byte memory with pointers that
  wrap, and the LZ4 block and frame formats it is checked against.
\<close>

section \<open>The decoder\<close>

text \<open>The length bytes that follow a nibble of 15: \<^verbatim>\<open>do { s = *ip++; len += s; } while (s == 255)\<close>.\<close>

partial_function (option) lz4_length :: "mem \<Rightarrow> ptr \<Rightarrow> u64 \<Rightarrow> (ptr \<times> u64) option" where
  "lz4_length m ip len =
     (let s = m ip
      in if s = 255 then lz4_length m (ip + 1) (len + ucast s) else Some (ip + 1, len + ucast s))"

definition lz4_field :: "mem \<Rightarrow> ptr \<Rightarrow> u64 \<Rightarrow> (ptr \<times> u64) option" where
  "lz4_field m ip len = (if len = 15 then lz4_length m ip len else Some (ip, len))"

text \<open>\<^verbatim>\<open>*op++ = *ref++\<close>, byte by byte upwards: what a copy has written it may read again.\<close>

definition lz4_copy :: "mem \<Rightarrow> ptr \<Rightarrow> ptr \<Rightarrow> u64 \<Rightarrow> mem" where
  "lz4_copy m op ref n = for_upto (unat n) (\<lambda>i m. m(op + of_nat i := m (ref + of_nat i))) m"

partial_function (option) lz4_block_loop :: "ptr \<Rightarrow> ptr \<Rightarrow> ptr \<Rightarrow> mem \<Rightarrow> (ptr \<times> mem) option" where
  "lz4_block_loop iend ip op m =
     (if ip < iend then do {
        let token = m ip;
        (ip1, lit_len) \<leftarrow> lz4_field m (ip + 1) (ucast (drop_bit 4 token));
        let m1 = lz4_copy m op ip1 lit_len;
        let ip2 = ip1 + lit_len;
        let op1 = op + lit_len;
        if ip2 \<ge> iend then Some (op1, m1)
        else do {
          let offset = rd16 m1 ip2;
          let ip3 = ip2 + 2;
          (ip4, mat_len) \<leftarrow> lz4_field m1 ip3 (ucast (token AND 0x0F));
          let mat_len = mat_len + 4;
          let m2 = lz4_copy m1 op1 (op1 - ucast offset) mat_len;
          lz4_block_loop iend ip4 (op1 + mat_len) m2 } }
      else Some (op, m))"

definition lz4_decompress_block :: "ptr \<Rightarrow> ptr \<Rightarrow> u64 \<Rightarrow> mem \<Rightarrow> (ptr \<times> mem) option" where
  "lz4_decompress_block source dest isize m = lz4_block_loop (source + isize) source dest m"

text \<open>The blocks of a legacy frame.\<close>

partial_function (option) lz4_legacy_loop :: "ptr \<Rightarrow> ptr \<Rightarrow> ptr \<Rightarrow> ptr \<Rightarrow> ptr \<Rightarrow> mem \<Rightarrow> (u32 \<times> mem) option" where
  "lz4_legacy_loop dest iend oend ip op m =
     (if ip < iend then
        (if ip + 4 > iend then Some (ucast (op - dest), m)
         else let block_size = rd32 m ip; ip = ip + 4
              in if block_size = 0 then Some (ucast (op - dest), m)
                 else if ip + ucast block_size > iend then Some (- 3, m)
                 else do {
                   (op1, m1) \<leftarrow> lz4_decompress_block ip op (ucast block_size) m;
                   if op1 > oend then Some (- 4, m1)
                   else lz4_legacy_loop dest iend oend (ip + ucast block_size) op1 m1 })
      else Some (ucast (op - dest), m))"

text \<open>The blocks of a standard frame; bit 31 of the size marks a stored block, bit 4 of \<^verbatim>\<open>flg\<close> block checksums.\<close>

partial_function (option) lz4_frame_loop :: "ptr \<Rightarrow> ptr \<Rightarrow> ptr \<Rightarrow> u8 \<Rightarrow> ptr \<Rightarrow> ptr \<Rightarrow> mem \<Rightarrow> (u32 \<times> mem) option" where
  "lz4_frame_loop dest iend oend flg ip op m =
     (if ip < iend then
        (if ip + 4 > iend then Some (ucast (op - dest), m)
         else let block_size = rd32 m ip; ip = ip + 4
              in if block_size = 0 then Some (ucast (op - dest), m)
                 else if block_size AND 0x80000000 \<noteq> 0 then
                   (let real_size = ucast (block_size AND 0x7FFFFFFF)
                    in if ip + real_size > iend \<or> op + real_size > oend then Some (- 2, m)
                       else let m1 = lz4_copy m op ip real_size;
                                ip1 = ip + real_size; op1 = op + real_size;
                                ip2 = (if flg AND 0x10 \<noteq> 0 then ip1 + 4 else ip1)
                            in lz4_frame_loop dest iend oend flg ip2 op1 m1)
                 else if ip + ucast block_size > iend then Some (- 3, m)
                 else do {
                   (op1, m1) \<leftarrow> lz4_decompress_block ip op (ucast block_size) m;
                   let ip1 = ip + ucast block_size;
                   if op1 > oend then Some (- 4, m1)
                   else let ip2 = (if flg AND 0x10 \<noteq> 0 then ip1 + 4 else ip1)
                        in lz4_frame_loop dest iend oend flg ip2 op1 m1 })
      else Some (ucast (op - dest), m))"

definition lz4_unframe :: "ptr \<Rightarrow> ptr \<Rightarrow> u64 \<Rightarrow> u64 \<Rightarrow> mem \<Rightarrow> (u32 \<times> mem) option" where
  "lz4_unframe source dest input_size max_output m =
     (let iend = source + input_size; oend = dest + max_output
      in if input_size < 7 then Some (- 1, m)
         else let magic = rd32 m source
              in if magic = 0x184C2102 then lz4_legacy_loop dest iend oend (source + 4) dest m
                 else if magic \<noteq> 0x184D2204 then Some (- 1, m)
                 else let flg = m (source + 4);
                          ip = source + 6;
                          ip = (if flg AND 0x08 \<noteq> 0 then ip + 8 else ip);
                          ip = (if flg AND 0x01 \<noteq> 0 then ip + 4 else ip);
                          ip = ip + 1
                      in lz4_frame_loop dest iend oend flg ip dest m)"

section \<open>The format\<close>

text \<open>
  What the LZ4 block and frame formats say. A sequence is literals, a match offset and a match
  length; a block is a list of sequences and the literals that end it; a frame has stored and
  compressed blocks. Writing them down as bytes, and the bytes they stand for:
\<close>

type_synonym lz4_seq = "u8 list \<times> nat \<times> nat"

definition nibble :: "nat \<Rightarrow> nat" where
  "nibble n = min n 15"

definition extra :: "nat \<Rightarrow> u8 list" where
  "extra n = (if n < 15 then [] else replicate ((n - 15) div 255) 255 @ [of_nat ((n - 15) mod 255)])"

definition token :: "nat \<Rightarrow> nat \<Rightarrow> u8" where
  "token a b = of_nat (16 * nibble a + nibble b)"

definition enc_seq :: "lz4_seq \<Rightarrow> u8 list" where
  "enc_seq = (\<lambda>(l, d, n). token (length l) (n - 4) # extra (length l) @ l @ to_le 2 (of_nat d :: u16) @ extra (n - 4))"

definition enc_last :: "u8 list \<Rightarrow> u8 list" where
  "enc_last l = token (length l) 0 # extra (length l) @ l"

definition enc_block :: "lz4_seq list \<Rightarrow> u8 list \<Rightarrow> u8 list" where
  "enc_block ss l = concat (map enc_seq ss) @ enc_last l"

primrec repeat_match :: "nat \<Rightarrow> nat \<Rightarrow> u8 list \<Rightarrow> u8 list" where
  "repeat_match 0 d out = out"
| "repeat_match (Suc n) d out = repeat_match n d (out @ [out ! (length out - d)])"

fun unpacked :: "lz4_seq list \<Rightarrow> u8 list \<Rightarrow> u8 list \<Rightarrow> u8 list" where
  "unpacked [] l out = out @ l"
| "unpacked ((lit, d, n) # ss) l out = unpacked ss l (repeat_match n d (out @ lit))"

fun valid_seqs :: "lz4_seq list \<Rightarrow> nat \<Rightarrow> bool" where
  "valid_seqs [] k = True"
| "valid_seqs ((lit, d, n) # ss) k \<longleftrightarrow> 0 < d \<and> d \<le> k + length lit \<and> d < 2 ^ 16 \<and> 4 \<le> n \<and> valid_seqs ss (k + length lit + n)"

section \<open>Lengths and copies\<close>

lemma lz4_length_spec:
  assumes "held m ip (replicate k 255 @ [of_nat r])" "r < 255"
  shows "lz4_length m ip len = Some (ip + of_nat (Suc k), len + of_nat (255 * k + r))"
  using assms(1)
proof (induction k arbitrary: ip len)
  case 0
  have "(of_nat r :: u8) \<noteq> 255"
  proof
    assume "(of_nat r :: u8) = 255"
    then have "unat (of_nat r :: u8) = unat (255 :: u8)" by (rule arg_cong)
    then show False using assms(2) by (simp add: unat_of_nat)
  qed
  moreover have "ucast (of_nat r :: u8) = (of_nat r :: u64)" using assms(2) by (simp add: unsigned_of_nat take_bit_nat_eq_self)
  moreover have "m ip = of_nat r" using 0 by (simp add: held_Cons)
  ultimately show ?case by (subst lz4_length.simps) simp
next
  case (Suc k)
  then have "m ip = 255" "held m (ip + 1) (replicate k 255 @ [of_nat r])" by (simp_all add: held_Cons)
  note m = this(1) and IH = Suc.IH [OF this(2)]
  have "lz4_length m ip len = lz4_length m (ip + 1) (len + 255)" by (subst lz4_length.simps) (simp add: m)
  also have "\<dots> = Some (ip + 1 + of_nat (Suc k), len + 255 + of_nat (255 * k + r))" by (rule IH)
  also have "\<dots> = Some (ip + of_nat (Suc (Suc k)), len + of_nat (255 * Suc k + r))" by simp
  finally show ?case .
qed

lemma token_parts:
  "ucast (drop_bit 4 (token a b)) = (of_nat (nibble a) :: u64)" "ucast (token a b AND 0x0F) = (of_nat (nibble b) :: u64)"
proof -
  have "nibble a \<in> {0..<16}" "nibble b \<in> {0..<16}" by (auto simp: nibble_def)
  then have n: "nibble a < 16" "nibble b < 16" by simp_all
  have t: "unat (token a b) = 16 * nibble a + nibble b" unfolding token_def by (subst unat_of_nat) (use n in simp)
  have "unat (drop_bit 4 (token a b)) = nibble a" unfolding unat_drop_bit_eq t using n by (simp add: drop_bit_eq_div)
  then show "ucast (drop_bit 4 (token a b)) = (of_nat (nibble a) :: u64)" by (metis of_nat_unat)
  have "token a b AND 0x0F = take_bit 4 (token a b)" by (simp add: take_bit_eq_mask mask_eq_exp_minus_1)
  then have "unat (token a b AND 0x0F) = nibble b" using n by (simp add: take_bit_eq_mod unat_mod t)
  then show "ucast (token a b AND 0x0F) = (of_nat (nibble b) :: u64)" by (metis of_nat_unat)
qed

lemma read_length:
  assumes "held m ip (extra n)"
  shows "lz4_field m ip (of_nat (nibble n)) = Some (ip + of_nat (length (extra n)), of_nat n)"
proof (cases "n < 15")
  case True
  have "of_nat n \<noteq> (15 :: u64)"
  proof
    assume "of_nat n = (15 :: u64)"
    then have "unat (of_nat n :: u64) = unat (15 :: u64)" by (rule arg_cong)
    then show False using True by (simp add: unat_of_nat)
  qed
  then show ?thesis using True by (simp add: lz4_field_def nibble_def extra_def)
next
  case False
  define q r where "q = (n - 15) div 255" and "r = (n - 15) mod 255"
  have n: "n = 15 + (255 * q + r)" using False by (simp add: q_def r_def)
  have e: "extra n = replicate q 255 @ [of_nat r]" using False by (simp add: extra_def q_def r_def)
  have "r < 255" by (simp add: r_def)
  from lz4_length_spec [OF _ this, of m ip q 15] assms
  have "lz4_length m ip 15 = Some (ip + of_nat (Suc q), 15 + of_nat (255 * q + r))" by (simp add: e)
  moreover have "(of_nat n :: u64) = 15 + of_nat (255 * q + r)" unfolding n by simp
  ultimately show ?thesis using False by (simp add: lz4_field_def nibble_def e)
qed

lemma copy_literals:
  assumes l: "held m p l" and ap: "apart dest N p (length l)" and N: "length (out @ l) \<le> N" "N < 2 ^ 64"
  shows "lz4_copy (wr_bytes m dest out) (dest + of_nat (length out)) p (of_nat (length l)) = wr_bytes m dest (out @ l)"
proof -
  let ?f = "\<lambda>i m. m(dest + of_nat (length out) + of_nat i := m (p + of_nat i))"
  have "for_upto (length l) ?f (wr_bytes m dest out) = wr_bytes m dest (out @ take (length l) l)"
  proof (rule for_upto_inv [where P = "\<lambda>i m'. m' = wr_bytes m dest (out @ take i l)"])
    fix i m' assume i: "i < length l" and m': "m' = wr_bytes m dest (out @ take i l)"
    have "m' (p + of_nat i) = l ! i"
      using held_wr [OF l ap, of "out @ take i l"] N i unfolding m' held_nth by simp
    then show "m'(dest + of_nat (length out) + of_nat i := m' (p + of_nat i)) = wr_bytes m dest (out @ take (Suc i) l)"
      using wr_snoc [of "out @ take i l" m dest "l ! i"] i N by (simp add: m' take_Suc_conv_app_nth add.assoc)
  qed simp
  then show ?thesis using N by (simp add: lz4_copy_def)
qed

lemma repeat_match_snoc: "repeat_match (Suc n) d out = repeat_match n d out @ [repeat_match n d out ! (length (repeat_match n d out) - d)]"
proof (induction n arbitrary: out)
  case (Suc n)
  let ?o = "out @ [out ! (length out - d)]"
  have e: "repeat_match (Suc n) d out = repeat_match n d ?o" by simp
  have "repeat_match (Suc (Suc n)) d out = repeat_match (Suc n) d ?o" by (rule repeat_match.simps)
  then show ?case unfolding e Suc.IH [of ?o] .
qed simp

lemma length_repeat_match [simp]: "length (repeat_match n d out) = length out + n"
  by (induction n arbitrary: out) simp_all

lemma copy_match:
  assumes d: "0 < d" "d \<le> length out" and N: "length out + n < 2 ^ 64"
  shows "lz4_copy (wr_bytes m dest out) (dest + of_nat (length out)) (dest + of_nat (length out) - of_nat d) (of_nat n) =
    wr_bytes m dest (repeat_match n d out)"
proof -
  let ?r = "dest + of_nat (length out) - of_nat d"
  let ?f = "\<lambda>i m. m(dest + of_nat (length out) + of_nat i := m (?r + of_nat i))"
  have "for_upto n ?f (wr_bytes m dest out) = wr_bytes m dest (repeat_match n d out)"
  proof (rule for_upto_inv [where P = "\<lambda>i m'. m' = wr_bytes m dest (repeat_match i d out)"])
    fix i m' assume i: "i < n" and m': "m' = wr_bytes m dest (repeat_match i d out)"
    have e: "?r + of_nat i = dest + of_nat (length out + i - d)" using d(2) by (simp add: of_nat_diff)
    have "m' (?r + of_nat i) = repeat_match i d out ! (length out + i - d)"
      unfolding e m' by (rule wr_nth) (use d N i in simp_all)
    moreover have "dest + of_nat (length out) + of_nat i = dest + of_nat (length (repeat_match i d out))" by simp
    moreover have "length (repeat_match i d out) < 2 ^ 64" using i N by simp
    ultimately show "m'(dest + of_nat (length out) + of_nat i := m' (?r + of_nat i)) = wr_bytes m dest (repeat_match (Suc i) d out)"
      using wr_snoc [of "repeat_match i d out" m dest] unfolding m' repeat_match_snoc by (simp only: length_repeat_match)
  qed simp
  then show ?thesis using N by (simp add: lz4_copy_def)
qed

section \<open>Blocks\<close>

lemma unat_forward: "unat p + k = unat q \<Longrightarrow> q = p + of_nat k" for p q :: u64
proof -
  assume "unat p + k = unat q"
  then have "of_nat (unat q) = (of_nat (unat p + k) :: u64)" by simp
  then show "q = p + of_nat k" by simp
qed

lemma literals_step:
  assumes h: "held m ip (token (length l) b # extra (length l) @ l)" and lt: "ip < iend"
    and ap: "apart dest N ip (Suc (length (extra (length l)) + length l))" and N: "length (out @ l) \<le> N" "N < 2 ^ 64"
    and ip2: "ip2 = ip + of_nat (Suc (length (extra (length l)) + length l))"
    and op1: "op1 = dest + of_nat (length (out @ l))" and m1: "m1 = wr_bytes m dest (out @ l)"
  shows "lz4_block_loop iend ip (dest + of_nat (length out)) (wr_bytes m dest out) =
    (if ip2 \<ge> iend then Some (op1, m1)
     else do {
       (ip4, mat_len) \<leftarrow> lz4_field m1 (ip2 + 2) (of_nat (nibble b));
       lz4_block_loop iend ip4 (op1 + (mat_len + 4)) (lz4_copy m1 op1 (op1 - ucast (rd16 m1 ip2)) (mat_len + 4)) })"
proof -
  let ?m = "wr_bytes m dest out" and ?e = "extra (length l)"
  have o: "length out \<le> N" using N by simp
  have a: "apart dest N ip 1" "apart dest N (ip + 1) (length ?e)" "apart dest N (ip + 1 + of_nat (length ?e)) (length l)"
    using ap apart_split [of dest N ip 1 "length ?e + length l"] apart_split [of dest N "ip + 1" "length ?e" "length l"] by simp_all
  have hs: "m ip = token (length l) b" "held m (ip + 1) ?e" "held m (ip + 1 + of_nat (length ?e)) l"
    using h by (simp_all add: held_Cons held_append)
  have "held ?m ip [token (length l) b]" using held_wr [of m ip "[token (length l) b]" dest N out] hs(1) a(1) o by (simp add: held_Cons)
  then have t: "?m ip = token (length l) b" by (simp add: held_Cons)
  note rl = read_length [OF held_wr [OF hs(2) a(2) o]]
  note cp = copy_literals [OF hs(3) a(3) N, unfolded add.assoc]
  show ?thesis
    by (subst lz4_block_loop.simps)
      (simp add: lt t token_parts rl cp ip2 op1 m1 Let_def add.assoc)
qed

lemma length_unpacked: "length out \<le> length (unpacked ss l out)"
  by (induction ss l out rule: unpacked.induct) auto

lemma block_loop:
  assumes "held m ip (enc_block ss l)" "apart dest N ip (length (enc_block ss l))" "unat ip + length (enc_block ss l) = unat iend"
    and "valid_seqs ss (length out)" "length (unpacked ss l out) \<le> N" "N < 2 ^ 64"
  shows "lz4_block_loop iend ip (dest + of_nat (length out)) (wr_bytes m dest out) =
    Some (dest + of_nat (length (unpacked ss l out)), wr_bytes m dest (unpacked ss l out))"
  using assms(1-5)
proof (induction ss l out arbitrary: ip rule: unpacked.induct)
  case (1 l out)
  have e: "enc_block [] l = token (length l) 0 # extra (length l) @ l" by (simp add: enc_block_def enc_last_def)
  have lt: "ip < iend" using 1(3) by (simp add: e word_less_nat_alt)
  have "iend = ip + of_nat (Suc (length (extra (length l)) + length l))" using unat_forward [OF 1(3)] by (simp add: e)
  then show ?case
    using literals_step [OF _ lt _ _ assms(6) refl refl refl, of m l 0 dest out] 1 by (simp add: e)
next
  case (2 lit d n ss l out)
  let ?w = "to_le 2 (of_nat d :: u16)" and ?h = "extra (length lit)" and ?x = "extra (n - 4)"
  let ?out = "out @ lit" and ?rest = "enc_block ss l"
  let ?k = "Suc (length ?h + length lit)"
  define ip2 where "ip2 = ip + of_nat ?k"
  define ip4 where "ip4 = ip2 + of_nat (2 + length ?x)"
  define op1 where "op1 = dest + of_nat (length ?out)"
  define m1 where "m1 = wr_bytes m dest ?out"
  have v: "0 < d" "d \<le> length ?out" "d < 2 ^ 16" "4 \<le> n" "valid_seqs ss (length ?out + n)" using 2(5) by simp_all
  have e: "enc_block ((lit, d, n) # ss) l = (token (length lit) (n - 4) # ?h @ lit) @ ?w @ ?x @ ?rest"
    by (simp add: enc_block_def enc_seq_def)
  have len: "length (enc_block ((lit, d, n) # ss) l) = ?k + (2 + (length ?x + length ?rest))" by (simp add: e)
  have lt: "ip < iend" using 2(4) by (simp add: len word_less_nat_alt)
  have h: "held m ip (token (length lit) (n - 4) # ?h @ lit)" "held m ip2 ?w" "held m (ip2 + 2) ?x" "held m ip4 ?rest"
    using 2(2) unfolding e held_append [of m ip] held_append by (simp_all add: ip2_def ip4_def add.assoc)
  have a: "apart dest N ip ?k" "apart dest N ip2 2" "apart dest N (ip2 + 2) (length ?x)" "apart dest N ip4 (length ?rest)"
    using 2(3) unfolding len apart_split by (simp_all add: ip2_def ip4_def add.assoc)
  have "length ?out + n \<le> N" using 2(6) length_unpacked [of "repeat_match n d ?out" ss l] by simp
  then have N: "length ?out \<le> N" "length ?out + n < 2 ^ 64" using assms(6) by simp_all
  have u: "unat ip2 = unat ip + ?k" "unat ip4 = unat ip + (?k + (2 + length ?x))"
    using unat_add_no_wrap [of ip ?k] unat_add_no_wrap [of ip "?k + (2 + length ?x)"] 2(4) unat_bound [of iend]
    by (simp_all add: ip2_def ip4_def len add.assoc)
  have nl: "\<not> ip2 \<ge> iend" using 2(4) u by (simp add: len word_le_nat_alt)
  have off: "rd16 m1 ip2 = of_nat d" using held_rd(1) [OF held_wr [OF h(2) _ N(1)]] a(2) by (simp add: m1_def)
  have ofd: "ucast (of_nat d :: u16) = (of_nat d :: u64)" using v(3) by (simp add: unsigned_of_nat take_bit_nat_eq_self)
  have f: "lz4_field m1 (ip2 + 2) (of_nat (nibble (n - 4))) = Some (ip4, of_nat (n - 4))"
    using read_length [OF held_wr [OF h(3) a(3) N(1)]] by (simp add: m1_def ip4_def add.assoc)
  have n4: "of_nat (n - 4) + 4 = (of_nat n :: u64)" using v(4) by (simp add: of_nat_diff)
  have c: "lz4_copy m1 op1 (op1 - of_nat d) (of_nat n) = wr_bytes m dest (repeat_match n d ?out)"
    unfolding m1_def op1_def by (rule copy_match [OF v(1,2) N(2)])
  have "lz4_block_loop iend ip (dest + of_nat (length out)) (wr_bytes m dest out) =
      lz4_block_loop iend ip4 (op1 + of_nat n) (wr_bytes m dest (repeat_match n d ?out))"
    unfolding literals_step [OF h(1) lt a(1) N(1) assms(6) ip2_def op1_def m1_def] by (simp add: nl off ofd f n4 c)
  also have "\<dots> = lz4_block_loop iend ip4 (dest + of_nat (length (repeat_match n d ?out))) (wr_bytes m dest (repeat_match n d ?out))"
    by (simp add: op1_def add.assoc)
  also have "\<dots> = Some (dest + of_nat (length (unpacked ss l (repeat_match n d ?out))), wr_bytes m dest (unpacked ss l (repeat_match n d ?out)))"
    by (rule "2.IH" [OF h(4) a(4)]) (use 2(4,6) u v(5) len in simp_all)
  finally show ?case by simp
qed

section \<open>Frames\<close>

datatype lz4_part = Stored "u8 list" | Packed "lz4_seq list" "u8 list"

fun enc_part :: "lz4_part \<Rightarrow> u8 list" where
  "enc_part (Stored bs) = to_le 4 (of_nat (length bs) OR 0x80000000 :: u32) @ bs"
| "enc_part (Packed ss l) = to_le 4 (of_nat (length (enc_block ss l)) :: u32) @ enc_block ss l"

fun part_out :: "lz4_part \<Rightarrow> u8 list \<Rightarrow> u8 list" where
  "part_out (Stored bs) out = out @ bs"
| "part_out (Packed ss l) out = unpacked ss l out"

fun valid_part :: "lz4_part \<Rightarrow> nat \<Rightarrow> bool" where
  "valid_part (Stored bs) k \<longleftrightarrow> length bs < 2 ^ 31"
| "valid_part (Packed ss l) k \<longleftrightarrow> valid_seqs ss k \<and> length (enc_block ss l) < 2 ^ 31"

text \<open>The blocks of a frame, each with its checksum when the frame has block checksums.\<close>

definition enc_parts :: "(lz4_part \<times> u8 list) list \<Rightarrow> u8 list" where
  "enc_parts ps = concat (map (\<lambda>(p, crc). enc_part p @ crc) ps)"

primrec parts_out :: "(lz4_part \<times> u8 list) list \<Rightarrow> u8 list \<Rightarrow> u8 list" where
  "parts_out [] out = out"
| "parts_out (p # ps) out = parts_out ps (part_out (fst p) out)"

primrec valid_parts :: "u8 \<Rightarrow> (lz4_part \<times> u8 list) list \<Rightarrow> u8 list \<Rightarrow> bool" where
  "valid_parts flg [] out = True"
| "valid_parts flg (p # ps) out \<longleftrightarrow> valid_part (fst p) (length out) \<and>
     length (snd p) = (if flg AND 0x10 \<noteq> 0 then 4 else 0) \<and> valid_parts flg ps (part_out (fst p) out)"

text \<open>The frame header: magic number, flags, block descriptor, the optional fields and the header checksum.\<close>

definition enc_header :: "u8 \<Rightarrow> u8 \<Rightarrow> u8 list \<Rightarrow> u8 \<Rightarrow> u8 list" where
  "enc_header flg bd opts hc = to_le 4 (0x184D2204 :: u32) @ [flg, bd] @ opts @ [hc]"

definition opts_size :: "u8 \<Rightarrow> nat" where
  "opts_size flg = (if flg AND 0x08 \<noteq> 0 then 8 else 0) + (if flg AND 0x01 \<noteq> 0 then 4 else 0)"

lemma length_part_out: "length out \<le> length (part_out p out)"
  by (cases p) (simp_all add: length_unpacked)

lemma length_parts_out: "length out \<le> length (parts_out ps out)"
  by (induction ps arbitrary: out) (auto intro: order_trans [OF length_part_out])

lemma high_bits:
  assumes "n < 2 ^ 31" "31 \<le> i"
  shows "\<not> bit (of_nat n :: u32) i"
proof -
  have "n < 2 ^ i" using assms power_increasing [of 31 i "2 :: nat"] by simp
  then have "\<not> bit n i" by (simp add: bit_iff_odd)
  then show ?thesis by (simp add: bit_of_nat_iff)
qed

lemma bit_31: "bit (0x80000000 :: int) i \<longleftrightarrow> i = 31" "bit (0x7FFFFFFF :: int) i \<longleftrightarrow> i < 31"
  using bit_exp_iff [of 31 i, where ?'a = int] bit_mask_iff [of 31 i, where ?'a = int] by (auto simp: mask_eq_exp_minus_1)

lemma stored_size:
  assumes "n < 2 ^ 31"
  shows "(of_nat n OR 0x80000000 :: u32) \<noteq> 0" "(of_nat n OR 0x80000000 :: u32) AND 0x80000000 \<noteq> 0"
    "ucast ((of_nat n OR 0x80000000 :: u32) AND 0x7FFFFFFF) = (of_nat n :: u64)"
proof -
  let ?w = "of_nat n :: u32"
  have lt: "i < 31" if "bit ?w i" for i using high_bits [OF assms, of i] that by force
  have "bit (?w OR 0x80000000) 31" by (simp add: bit_or_iff bit_31)
  then show "?w OR 0x80000000 \<noteq> 0" by auto
  have "bit ((?w OR 0x80000000) AND 0x80000000) 31" by (simp add: bit_or_iff bit_and_iff bit_31)
  then show "(?w OR 0x80000000) AND 0x80000000 \<noteq> 0" by auto
  have "(?w OR 0x80000000) AND 0x7FFFFFFF = ?w"
    by (rule bit_eqI) (auto simp: bit_or_iff bit_and_iff bit_31 dest: lt)
  then show "ucast ((?w OR 0x80000000) AND 0x7FFFFFFF) = (of_nat n :: u64)"
    using assms by (simp add: unsigned_of_nat take_bit_nat_eq_self)
qed

lemma packed_size:
  assumes "n < 2 ^ 31"
  shows "(of_nat n :: u32) AND 0x80000000 = 0" "ucast (of_nat n :: u32) = (of_nat n :: u64)" "0 < n \<Longrightarrow> (of_nat n :: u32) \<noteq> 0"
proof -
  show "(of_nat n :: u32) AND 0x80000000 = 0" by (rule bit_eqI) (use high_bits [OF assms] in \<open>auto simp: bit_and_iff bit_31\<close>)
  show "ucast (of_nat n :: u32) = (of_nat n :: u64)" using assms by (simp add: unsigned_of_nat take_bit_nat_eq_self)
  assume "0 < n"
  moreover have "unat (of_nat n :: u32) = n" using assms by (simp add: unat_of_nat)
  ultimately show "(of_nat n :: u32) \<noteq> 0" by force
qed

text \<open>One block of the frame that fits the output.\<close>

lemma frame_step:
  assumes h: "held m ip (enc_part p @ crc)" and ap: "apart dest M ip (length (enc_part p @ crc))"
    and e: "unat ip + length (enc_part p @ crc) \<le> unat iend"
    and v: "valid_part p (length out)" "length crc = (if flg AND 0x10 \<noteq> 0 then 4 else 0)"
    and N: "length (part_out p out) \<le> N" "N \<le> M" "unat dest + M < 2 ^ 64" and oend: "oend = dest + of_nat N"
  shows "lz4_frame_loop dest iend oend flg ip (dest + of_nat (length out)) (wr_bytes m dest out) =
    lz4_frame_loop dest iend oend flg (ip + of_nat (length (enc_part p @ crc))) (dest + of_nat (length (part_out p out))) (wr_bytes m dest (part_out p out))"
proof -
  let ?m = "wr_bytes m dest out"
  have o: "length out \<le> M" "length (part_out p out) \<le> M" "M < 2 ^ 64" using N length_part_out [of out p] by simp_all
  have ub: "unat oend = unat dest + N" "unat (dest + of_nat (length (part_out p out))) = unat dest + length (part_out p out)"
    using N unat_add_no_wrap [of dest] by (simp_all add: oend)
  then have fit: "\<not> dest + of_nat (length (part_out p out)) > oend" using N(1) by (simp add: word_less_nat_alt)
  define body where "body = drop 4 (enc_part p)"
  define sz where "sz = (case p of Stored bs \<Rightarrow> of_nat (length bs) OR 0x80000000 | Packed ss l \<Rightarrow> (of_nat (length (enc_block ss l)) :: u32))"
  have ep: "enc_part p = to_le 4 sz @ body" by (cases p) (simp_all add: body_def sz_def)
  have lens: "length (enc_part p @ crc) = 4 + (length body + length crc)" by (simp add: ep)
  have hs: "held m ip (to_le 4 sz)" "held m (ip + 4) body" using h by (simp_all add: ep held_append)
  have as: "apart dest M ip 4" "apart dest M (ip + 4) (length body)"
    using ap unfolding lens apart_split by (simp_all add: add.assoc)
  have u: "unat (ip + of_nat k) = unat ip + k" if "k \<le> 4 + (length body + length crc)" for k
    using unat_add_no_wrap [of ip k] e [unfolded lens] that unat_bound [of iend] by simp
  have lt: "ip < iend" "\<not> ip + 4 > iend" "\<not> ip + 4 + of_nat (length body) > iend"
    using e [unfolded lens] u [of 4] u [of "4 + length body"] by (simp_all add: word_less_nat_alt add.assoc)
  have sz: "rd32 ?m ip = sz" using held_rd(2) [OF held_wr [OF hs(1) _ o(1)]] as(1) by simp
  show ?thesis
  proof (cases p)
    case (Stored bs)
    have b: "body = bs" "length bs < 2 ^ 31" "sz = of_nat (length bs) OR 0x80000000" using v(1) by (simp_all add: body_def sz_def Stored)
    have "held m (ip + 4) bs" "apart dest M (ip + 4) (length bs)" "length (out @ bs) \<le> M" using hs(2) as(2) o(2) b(1) Stored by simp_all
    note cp = copy_literals [OF this o(3)]
    show ?thesis
      using lt fit v(2) stored_size [OF b(2)] cp b
      by (subst lz4_frame_loop.simps) (simp add: sz Stored Let_def ac_simps)
  next
    case (Packed ss l)
    have b: "body = enc_block ss l" "length (enc_block ss l) < 2 ^ 31" "valid_seqs ss (length out)" "sz = of_nat (length (enc_block ss l))"
      using v(1) by (simp_all add: body_def sz_def Packed)
    have "unat (ip + 4) + length (enc_block ss l) = unat (ip + 4 + of_nat (length (enc_block ss l)))"
      using u [of 4] u [of "4 + length body"] b(1) by (simp add: add.assoc)
    from block_loop [OF _ _ this b(3)] hs(2) as(2) o(2,3) b(1)
    have "lz4_decompress_block (ip + 4) (dest + of_nat (length out)) (of_nat (length (enc_block ss l))) ?m =
        Some (dest + of_nat (length (unpacked ss l out)), wr_bytes m dest (unpacked ss l out))"
      by (simp add: lz4_decompress_block_def Packed)
    moreover have "0 < length (enc_block ss l)" by (simp add: enc_block_def enc_last_def)
    ultimately show ?thesis
      using lt fit v(2) packed_size [OF b(2)] b
      by (subst lz4_frame_loop.simps) (simp add: sz Packed Let_def ac_simps)
  qed
qed

lemma frame_prefix:
  assumes "held m ip (enc_parts ps)" "apart dest M ip (length (enc_parts ps))" "unat ip + length (enc_parts ps) \<le> unat iend"
    and "valid_parts flg ps out" "length (parts_out ps out) \<le> N" and N: "N \<le> M" "unat dest + M < 2 ^ 64" "oend = dest + of_nat N"
  shows "lz4_frame_loop dest iend oend flg ip (dest + of_nat (length out)) (wr_bytes m dest out) =
    lz4_frame_loop dest iend oend flg (ip + of_nat (length (enc_parts ps))) (dest + of_nat (length (parts_out ps out))) (wr_bytes m dest (parts_out ps out))"
  using assms(1-5)
proof (induction ps arbitrary: ip out)
  case Nil
  then show ?case by (simp add: enc_parts_def)
next
  case (Cons pc ps)
  obtain p crc where pc: "pc = (p, crc)" by fastforce
  let ?e = "enc_part p @ crc" and ?ip = "ip + of_nat (length (enc_part p @ crc))" and ?out = "part_out p out"
  have e: "enc_parts (pc # ps) = ?e @ enc_parts ps" by (simp add: enc_parts_def pc)
  have h: "held m ip ?e" "held m ?ip (enc_parts ps)" using Cons.prems(1) unfolding e held_append [of m ip ?e] by simp_all
  have a: "apart dest M ip (length ?e)" "apart dest M ?ip (length (enc_parts ps))"
    using Cons.prems(2) unfolding e length_append [of ?e] apart_split [of dest M ip "length ?e"] by simp_all
  have le: "unat ip + length ?e + length (enc_parts ps) \<le> unat iend" using Cons.prems(3) by (simp add: e)
  have u: "unat ?ip = unat ip + length ?e" by (rule unat_add_no_wrap) (use le unat_bound [of iend] in simp)
  have v: "valid_part p (length out)" "length crc = (if flg AND 0x10 \<noteq> 0 then 4 else 0)" "valid_parts flg ps ?out"
    using Cons.prems(4) by (simp_all add: pc)
  have n: "length (parts_out ps ?out) \<le> N" using Cons.prems(5) by (simp add: pc)
  have "length ?out \<le> N" using n length_parts_out [of ?out ps] by simp
  from frame_step [OF h(1) a(1) _ v(1,2) this N] le
  have "lz4_frame_loop dest iend oend flg ip (dest + of_nat (length out)) (wr_bytes m dest out) =
    lz4_frame_loop dest iend oend flg ?ip (dest + of_nat (length ?out)) (wr_bytes m dest ?out)" by simp
  also have "\<dots> = lz4_frame_loop dest iend oend flg (?ip + of_nat (length (enc_parts ps)))
      (dest + of_nat (length (parts_out ps ?out))) (wr_bytes m dest (parts_out ps ?out))"
    by (rule Cons.IH [OF h(2) a(2) _ v(3) n]) (use le u in simp)
  finally show ?case unfolding e by (simp add: pc add.assoc)
qed

lemma wr_empty [simp]: "wr_bytes m dest [] = m"
  by (simp add: wr_bytes_def)

lemma frame_header:
  assumes h: "held m source (enc_header flg bd opts hc)" and opts: "length opts = opts_size flg"
    and big: "\<not> input_size < 7"
  shows "lz4_unframe source dest input_size max_output m =
    lz4_frame_loop dest (source + input_size) (dest + max_output) flg (source + of_nat (length (enc_header flg bd opts hc))) dest m"
proof -
  have "held m source (to_le 4 (0x184D2204 :: u32))" "m (source + 4) = flg"
    using h by (simp_all add: enc_header_def held_append held_Cons)
  then show ?thesis
    using big opts held_rd(2) by (simp add: lz4_unframe_def Let_def enc_header_def opts_size_def add.commute [of _ source])
qed

lemma header_length: "7 \<le> length (enc_header flg bd opts hc)"
  by (simp add: enc_header_def)

section \<open>Properties\<close>

text \<open>
  C33: \<^verbatim>\<open>lz4_unframe\<close> inverts the LZ4 frame format. Let a frame of any stored and compressed blocks, with or
  without content size, dictionary id and block checksums, lie in memory away from the output buffer,
  let its offsets point into the output and its contents fit the buffer: the decoder terminates,
  returns the length of the contents, writes exactly the contents (overlapping matches included)
  and changes no other byte.
\<close>

theorem lz4_unframe_decodes:
  assumes "frame = enc_header flg bd opts hc @ enc_parts ps @ to_le 4 (0 :: u32) @ trailer" "length opts = opts_size flg"
    and "valid_parts flg ps []" "out = parts_out ps []" "length out \<le> unat max_output"
    and "rd_bytes m source (length frame) = frame" "apart dest (unat max_output) source (length frame)"
    and "unat source + length frame < 2 ^ 64" "unat dest + unat max_output < 2 ^ 64"
  shows "lz4_unframe source dest (of_nat (length frame)) max_output m = Some (of_nat (length out), wr_bytes m dest out)"
proof -
  let ?h = "enc_header flg bd opts hc" and ?z = "to_le 4 (0 :: u32)" and ?iend = "source + of_nat (length frame)"
  define ip where "ip = source + of_nat (length ?h)"
  define ip1 where "ip1 = ip + of_nat (length (enc_parts ps))"
  have "held m source (?h @ enc_parts ps @ ?z @ trailer)" using assms(1,6) by (simp add: held_def)
  then have hs: "held m source ?h" "held m ip (enc_parts ps)" "held m ip1 ?z"
    unfolding held_append by (simp_all add: ip_def ip1_def)
  have len: "length frame = length ?h + (length (enc_parts ps) + (4 + length trailer))" by (simp add: assms(1))
  have as: "apart dest (unat max_output) ip (length (enc_parts ps))" "apart dest (unat max_output) ip1 4"
    using assms(7) unfolding len apart_split by (simp_all add: ip_def ip1_def)
  have ue: "unat ?iend = unat source + length frame" by (rule unat_add_no_wrap [OF assms(8)])
  have u: "unat ip = unat source + length ?h" "unat ip1 = unat source + (length ?h + length (enc_parts ps))" "unat (ip1 + 4) = unat source + (length ?h + length (enc_parts ps) + 4)"
    using assms(8) len unat_add_no_wrap [of source "length ?h"] unat_add_no_wrap [of source "length ?h + length (enc_parts ps)"]
      unat_add_no_wrap [of source "length ?h + length (enc_parts ps) + 4"] by (simp_all add: ip_def ip1_def add.assoc)
  have "unat (of_nat (length frame) :: u64) = length frame" using assms(8) by (simp add: unat_of_nat)
  then have big: "\<not> (of_nat (length frame) :: u64) < 7" using len header_length [of flg bd opts hc] by (simp add: word_less_nat_alt)
  have oe: "dest + max_output = dest + of_nat (unat max_output)" by simp
  have n: "length (parts_out ps []) \<le> unat max_output" using assms(4,5) by simp
  have "unat ip + length (enc_parts ps) \<le> unat ?iend" using u ue len by simp
  from frame_prefix [OF hs(2) as(1) this assms(3) n order_refl assms(9) oe]
  have "lz4_unframe source dest (of_nat (length frame)) max_output m =
      lz4_frame_loop dest ?iend (dest + max_output) flg ip1 (dest + of_nat (length out)) (wr_bytes m dest out)"
    unfolding frame_header [OF hs(1) assms(2) big] by (simp add: ip_def [symmetric] ip1_def assms(4))
  also have "\<dots> = Some (of_nat (length out), wr_bytes m dest out)"
  proof -
    have "rd32 (wr_bytes m dest out) ip1 = 0" using held_rd(2) [OF held_wr [OF hs(3) _ assms(5)]] as(2) by simp
    moreover have "ip1 < ?iend" "\<not> ip1 + 4 > ?iend" using u ue len by (simp_all add: word_less_nat_alt)
    moreover have "length out < 2 ^ 64" using assms(5) unat_bound [of max_output] by simp
    ultimately show ?thesis by (subst lz4_frame_loop.simps) (simp add: unsigned_of_nat take_bit_nat_eq_self)
  qed
  finally show ?thesis .
qed


lemma to_le_bytes:
  "to_le 2 w = [ucast w, ucast (drop_bit 8 w)]"
  "to_le 4 v = [ucast v, ucast (drop_bit 8 v), ucast (drop_bit 16 v), ucast (drop_bit 24 v)]"
  by (simp_all add: to_le_def eval_nat_numeral)

lemma example_frame:
  "enc_header 0x40 0x40 [] 0 @ enc_parts [(Stored [7, 8], []), (Packed [([9], 1, 7)] [1, 2], [])] @ to_le 4 (0 :: u32) @ [] =
     [0x04, 0x22, 0x4D, 0x18, 0x40, 0x40, 0, 2, 0, 0, 0x80, 7, 8, 7, 0, 0, 0, 0x13, 9, 1, 0, 0x20, 1, 2, 0, 0, 0, 0]"
  by (simp add: enc_header_def enc_parts_def enc_block_def enc_seq_def enc_last_def token_def nibble_def extra_def to_le_bytes)

lemma apart_above: "k < 4096 \<Longrightarrow> N \<le> 4096 \<Longrightarrow> apart 0x1000 N 0x2000 k"
  using unat_add_no_wrap [of "0x1000 :: u64"] by (auto simp: apart_def)

theorem lz4_unframe_decodes_witness:
  "\<exists>m'. lz4_unframe 0x2000 0x1000 28 100 (wr_bytes (\<lambda>_. 0) 0x2000
       [0x04, 0x22, 0x4D, 0x18, 0x40, 0x40, 0, 2, 0, 0, 0x80, 7, 8, 7, 0, 0, 0, 0x13, 9, 1, 0, 0x20, 1, 2, 0, 0, 0, 0]) = Some (12, m') \<and>
     rd_bytes m' 0x1000 12 = [7, 8, 9, 9, 9, 9, 9, 9, 9, 9, 1, 2]"
proof -
  let ?ps = "[(Stored [7, 8], []), (Packed [([9], 1, 7)] [1, 2], [])] :: (lz4_part \<times> u8 list) list"
  let ?f = "[0x04, 0x22, 0x4D, 0x18, 0x40, 0x40, 0, 2, 0, 0, 0x80, 7, 8, 7, 0, 0, 0, 0x13, 9, 1, 0, 0x20, 1, 2, 0, 0, 0, 0] :: u8 list"
  let ?m = "wr_bytes (\<lambda>_. 0) 0x2000 ?f" and ?out = "[7, 8, 9, 9, 9, 9, 9, 9, 9, 9, 1, 2] :: u8 list"
  have out: "?out = parts_out ?ps []" by (simp add: eval_nat_numeral)
  have v: "valid_parts 0x40 ?ps []" by (simp add: enc_block_def enc_seq_def enc_last_def extra_def)
  have r: "rd_bytes ?m 0x2000 (length ?f) = ?f" by (rule rd_wr_bytes) simp
  have "apart 0x1000 (unat (100 :: u64)) 0x2000 (length ?f)" by (rule apart_above) simp_all
  from lz4_unframe_decodes [OF example_frame [symmetric] _ v out _ r this]
  have "lz4_unframe 0x2000 0x1000 28 100 ?m = Some (12, wr_bytes ?m 0x1000 ?out)" by (simp add: opts_size_def)
  moreover have l: "length ?out = 12" by simp
  have "rd_bytes (wr_bytes ?m 0x1000 ?out) 0x1000 (length ?out) = ?out" by (rule rd_wr_bytes) simp
  then have "rd_bytes (wr_bytes ?m 0x1000 ?out) 0x1000 12 = ?out" unfolding l .
  ultimately show ?thesis by blast
qed

text \<open>
  C34: \<^verbatim>\<open>lz4_unframe\<close> checks the size of its output only after a compressed block has been expanded: when the
  next block of a frame expands past \<open>max_output\<close>, the call reports error -4, but all of the block,
  including what lies beyond the end of the buffer, has been written.
\<close>

theorem lz4_unframe_overruns:
  assumes "frame = enc_header flg bd opts hc @ enc_parts ps @ enc_part (Packed ss l) @ trailer" "length opts = opts_size flg"
    and "valid_parts flg ps []" "length (parts_out ps []) \<le> unat max_output"
    and "valid_part (Packed ss l) (length (parts_out ps []))" "out = unpacked ss l (parts_out ps [])" "unat max_output < length out"
    and "rd_bytes m source (length frame) = frame" "apart dest (length out) source (length frame)"
    and "unat source + length frame < 2 ^ 64" "unat dest + length out < 2 ^ 64"
  shows "\<exists>m'. lz4_unframe source dest (of_nat (length frame)) max_output m = Some (- 4, m') \<and> rd_bytes m' dest (length out) = out"
proof -
  let ?h = "enc_header flg bd opts hc" and ?e = "enc_block ss l" and ?iend = "source + of_nat (length frame)" and ?o = "parts_out ps []"
  let ?w = "to_le 4 (of_nat (length ?e) :: u32)"
  define ip where "ip = source + of_nat (length ?h)"
  define ip1 where "ip1 = ip + of_nat (length (enc_parts ps))"
  have "held m source (?h @ enc_parts ps @ ?w @ ?e @ trailer)" using assms(1,8) by (simp add: held_def)
  then have hs: "held m source ?h" "held m ip (enc_parts ps)" "held m ip1 ?w" "held m (ip1 + 4) ?e"
    unfolding held_append by (simp_all add: ip_def ip1_def)
  have len: "length frame = length ?h + (length (enc_parts ps) + (4 + (length ?e + length trailer)))" by (simp add: assms(1))
  have as: "apart dest (length out) ip (length (enc_parts ps))" "apart dest (length out) ip1 4" "apart dest (length out) (ip1 + 4) (length ?e)"
    using assms(9) unfolding len apart_split by (simp_all add: ip_def ip1_def)
  have ue: "unat ?iend = unat source + length frame" by (rule unat_add_no_wrap [OF assms(10)])
  have u: "unat (source + of_nat k) = unat source + k" if "k \<le> length frame" for k
    using unat_add_no_wrap [of source k] assms(10) that by simp
  have u1: "unat ip = unat source + length ?h" "unat ip1 = unat source + (length ?h + length (enc_parts ps))"
      "unat (ip1 + 4) = unat source + (length ?h + length (enc_parts ps) + 4)"
      "unat (ip1 + 4 + of_nat (length ?e)) = unat source + (length ?h + length (enc_parts ps) + 4 + length ?e)"
    using len u [of "length ?h"] u [of "length ?h + length (enc_parts ps)"] u [of "length ?h + length (enc_parts ps) + 4"]
      u [of "length ?h + length (enc_parts ps) + 4 + length ?e"] by (simp_all add: ip_def ip1_def add.assoc)
  have "unat (of_nat (length frame) :: u64) = length frame" using assms(10) by (simp add: unat_of_nat)
  then have big: "\<not> (of_nat (length frame) :: u64) < 7" using len header_length [of flg bd opts hc] by (simp add: word_less_nat_alt)
  have oe: "dest + max_output = dest + of_nat (unat max_output)" by simp
  have oend: "unat (dest + max_output) = unat dest + unat max_output" "unat (dest + of_nat (length out)) = unat dest + length out"
    using unat_add_no_wrap [of dest "unat max_output"] unat_add_no_wrap [of dest "length out"] assms(7,11) by simp_all
  then have over: "dest + max_output < dest + of_nat (length out)" using assms(7) by (simp add: word_less_nat_alt)
  have "unat ip + length (enc_parts ps) \<le> unat ?iend" using u1 ue len by simp
  from frame_prefix [OF hs(2) as(1) this assms(3,4) less_imp_le [OF assms(7)] assms(11) oe]
  have "lz4_unframe source dest (of_nat (length frame)) max_output m =
      lz4_frame_loop dest ?iend (dest + max_output) flg ip1 (dest + of_nat (length ?o)) (wr_bytes m dest ?o)"
    unfolding frame_header [OF hs(1) assms(2) big] by (simp add: ip_def [symmetric] ip1_def)
  also have "\<dots> = Some (- 4, wr_bytes m dest out)"
  proof -
    have v: "valid_seqs ss (length ?o)" "length ?e < 2 ^ 31" using assms(5) by simp_all
    have o: "length ?o \<le> length out" using assms(4,7) by simp
    have "rd32 (wr_bytes m dest ?o) ip1 = of_nat (length ?e)" using held_rd(2) [OF held_wr [OF hs(3) _ o]] as(2) by simp
    moreover have "ip1 < ?iend" "\<not> ip1 + 4 > ?iend" "\<not> ip1 + 4 + of_nat (length ?e) > ?iend" using u1 ue len by (simp_all add: word_less_nat_alt)
    moreover have "unat (ip1 + 4) + length ?e = unat (ip1 + 4 + of_nat (length ?e))" using u1 by simp
    from block_loop [OF hs(4) as(3) this v(1)] assms(6,11)
    have "lz4_decompress_block (ip1 + 4) (dest + of_nat (length ?o)) (of_nat (length ?e)) (wr_bytes m dest ?o) = Some (dest + of_nat (length out), wr_bytes m dest out)"
      by (simp add: lz4_decompress_block_def)
    moreover have "0 < length ?e" by (simp add: enc_block_def enc_last_def)
    ultimately show ?thesis using packed_size [OF v(2)] over by (subst lz4_frame_loop.simps) (simp add: Let_def)
  qed
  moreover have "rd_bytes (wr_bytes m dest out) dest (length out) = out" by (rule rd_wr_bytes) (use assms(11) in simp)
  ultimately show ?thesis by (intro exI [of _ "wr_bytes m dest out"]) simp
qed

theorem lz4_unframe_overruns_witness:
  "\<exists>m'. lz4_unframe 0x2000 0x1000 18 5 (wr_bytes (\<lambda>_. 0) 0x2000 [0x04, 0x22, 0x4D, 0x18, 0x40, 0x40, 0, 7, 0, 0, 0, 0x13, 9, 1, 0, 0x20, 1, 2]) = Some (- 4, m') \<and>
     rd_bytes m' 0x1000 10 = [9, 9, 9, 9, 9, 9, 9, 9, 1, 2]"
proof -
  let ?f = "[0x04, 0x22, 0x4D, 0x18, 0x40, 0x40, 0, 7, 0, 0, 0, 0x13, 9, 1, 0, 0x20, 1, 2] :: u8 list"
  let ?m = "wr_bytes (\<lambda>_. 0) 0x2000 ?f" and ?out = "[9, 9, 9, 9, 9, 9, 9, 9, 1, 2] :: u8 list"
  have f: "?f = enc_header 0x40 0x40 [] 0 @ enc_parts [] @ enc_part (Packed [([9], 1, 7)] [1, 2]) @ []"
    by (simp add: enc_header_def enc_parts_def enc_block_def enc_seq_def enc_last_def token_def nibble_def extra_def to_le_bytes)
  have out: "?out = unpacked [([9], 1, 7)] [1, 2] (parts_out [] [])" by (simp add: eval_nat_numeral)
  have v: "valid_part (Packed [([9], 1, 7)] [1, 2]) (length (parts_out [] []))" by (simp add: enc_block_def enc_seq_def enc_last_def extra_def)
  have r: "rd_bytes ?m 0x2000 (length ?f) = ?f" by (rule rd_wr_bytes) simp
  have "apart 0x1000 (length ?out) 0x2000 (length ?f)" by (rule apart_above) simp_all
  from lz4_unframe_overruns [OF f _ _ _ v out _ r this, of 5]
  obtain m' where "lz4_unframe 0x2000 0x1000 18 5 ?m = Some (- 4, m')" "rd_bytes m' 0x1000 (length ?out) = ?out" by (auto simp: opts_size_def)
  moreover have l: "length ?out = 10" by simp
  ultimately show ?thesis unfolding l by blast
qed

end
