(* ===== verification/Cmdline.thy ===== *)
theory Cmdline
  imports Kmem "HOL-Library.Monad_Syntax"
begin

text \<open>
  The boot command line (\<^verbatim>\<open>kernel/cmdline.c\<close>): the parser works in place on the bytes of the line, and
  the table of arguments holds pointers into it. The table is the list of its first
  \<^verbatim>\<open>boot_arg_count\<close> entries.
\<close>

section \<open>The parser\<close>

definition MAX_BOOT_ARGS :: nat where
  "MAX_BOOT_ARGS = 64"

abbreviation space :: u8 where "space \<equiv> 0x20"
abbreviation equals :: u8 where "equals \<equiv> 0x3D"

record boot_arg =
  arg_key :: ptr
  arg_value :: ptr

text \<open>The loops \<^verbatim>\<open>while (... *ptr ...) ptr++\<close>.\<close>

partial_function (option) advance :: "(u8 \<Rightarrow> bool) \<Rightarrow> mem \<Rightarrow> ptr \<Rightarrow> ptr option" where
  "advance P m p = (if P (m p) then advance P m (p + 1) else Some p)"

text \<open>One argument: its key up to a space or \<^verbatim>\<open>=\<close>, its value up to a space, NUL bytes over the separators.\<close>

definition parse_arg :: "ptr \<Rightarrow> mem \<Rightarrow> (boot_arg \<times> ptr \<times> mem) option" where
  "parse_arg key m = do {
     p1 \<leftarrow> advance (\<lambda>c. c \<noteq> 0 \<and> c \<noteq> space \<and> c \<noteq> equals) m key;
     (val, p2, m2) \<leftarrow>
       (if m p1 = equals then do {
          let m1 = m(p1 := 0);
          p2 \<leftarrow> advance (\<lambda>c. c \<noteq> 0 \<and> c \<noteq> space) m1 (p1 + 1);
          Some (p1 + 1, p2, m1) }
        else Some (NULL, p1, m));
     let arg = \<lparr>arg_key = key, arg_value = val\<rparr>;
     Some (if m2 p2 = space then (arg, p2 + 1, m2(p2 := 0)) else (arg, p2, m2)) }"

partial_function (option) parse_loop :: "ptr \<Rightarrow> boot_arg list \<Rightarrow> mem \<Rightarrow> (boot_arg list \<times> mem) option" where
  "parse_loop p boot_args m =
     (if m p \<noteq> 0 \<and> length boot_args < MAX_BOOT_ARGS then do {
        p1 \<leftarrow> advance (\<lambda>c. c = space) m p;
        if m p1 = 0 then Some (boot_args, m)
        else do {
          (arg, p2, m2) \<leftarrow> parse_arg p1 m;
          parse_loop p2 (boot_args @ [arg]) m2 } }
      else Some (boot_args, m))"

definition parse_cmdline :: "ptr \<Rightarrow> boot_arg list \<Rightarrow> mem \<Rightarrow> (boot_arg list \<times> mem) option" where
  "parse_cmdline cmdline boot_args m =
     (if cmdline = NULL \<or> m cmdline = 0 then Some (boot_args, m) else parse_loop cmdline boot_args m)"

primrec boot_get_flag :: "ptr \<Rightarrow> boot_arg list \<Rightarrow> mem \<Rightarrow> bool option" where
  "boot_get_flag key [] m = Some False"
| "boot_get_flag key (a # as) m = do {
     r \<leftarrow> strcmp m (arg_key a) key;
     if r = 0 then Some True else boot_get_flag key as m }"

primrec boot_get_value :: "ptr \<Rightarrow> boot_arg list \<Rightarrow> mem \<Rightarrow> ptr option" where
  "boot_get_value key [] m = Some NULL"
| "boot_get_value key (a # as) m = do {
     r \<leftarrow> strcmp m (arg_key a) key;
     if r = 0 then Some (arg_value a) else boot_get_value key as m }"

section \<open>Arguments as strings\<close>

text \<open>What a command line says: words separated by spaces, each a flag or \<^verbatim>\<open>key=value\<close>.\<close>

definition split_arg :: "u8 list \<Rightarrow> u8 list \<times> u8 list option" where
  "split_arg t = (let k = takeWhile (\<lambda>c. c \<noteq> equals) t
     in (k, if equals \<in> set t then Some (drop (Suc (length k)) t) else None))"

function words_of :: "u8 list \<Rightarrow> u8 list list" where
  "words_of [] = []"
| "words_of (c # s) = (if c = space then words_of s
     else takeWhile (\<lambda>c. c \<noteq> space) (c # s) # words_of (dropWhile (\<lambda>c. c \<noteq> space) s))"
  by pat_completeness auto
termination
  by (relation "measure length") (auto simp: le_imp_less_Suc length_dropWhile_le)

definition cmd_args :: "u8 list \<Rightarrow> (u8 list \<times> u8 list option) list" where
  "cmd_args s = map split_arg (words_of s)"

section \<open>One argument\<close>

lemma advance_cstr:
  assumes "cstr m p s" "\<not> P 0"
  shows "advance P m p = Some (p + of_nat (length (takeWhile P s)))"
  using assms(1)
proof (induction s arbitrary: p)
  case Nil
  then show ?case using assms(2) by (simp add: advance.simps)
next
  case (Cons c s)
  then show ?case by (subst advance.simps) (simp add: add.assoc)
qed

lemma cstr_drop: "cstr m p (s @ t) \<Longrightarrow> cstr m (p + of_nat (length s)) t"
proof (induction s arbitrary: p)
  case (Cons c s)
  then have "cstr m (p + 1 + of_nat (length s)) t" by simp
  then show ?case by (simp add: add.assoc)
qed simp

lemma in_block_range:
  assumes "i < 2 ^ 64" "j + n \<le> 2 ^ 64"
  shows "in_block (p + of_nat j) n (p + of_nat i) \<longleftrightarrow> j \<le> i \<and> i < j + n"
proof (cases "j \<le> i")
  case True
  then have "p + of_nat i - (p + of_nat j) = (of_nat (i - j) :: u64)" by (simp add: of_nat_diff)
  moreover have "unat (of_nat (i - j) :: u64) = i - j" using assms(1) by (simp add: unat_of_nat del: of_nat_diff)
  ultimately show ?thesis using True unfolding in_block_def by auto
next
  case False
  have "\<not> in_block (p + of_nat j) n (p + of_nat i)"
  proof
    assume "in_block (p + of_nat j) n (p + of_nat i)"
    then obtain k where k: "k < n" "p + of_nat i = p + of_nat j + (of_nat k :: u64)" by (rule in_blockE)
    then have "p + of_nat i = p + (of_nat (j + k) :: u64)" by (simp add: add.assoc)
    then have "unat (of_nat i :: u64) = unat (of_nat (j + k) :: u64)" by (simp only: add_left_cancel)
    moreover have "unat (of_nat i :: u64) = i" using assms(1) by (simp add: unat_of_nat)
    moreover have "unat (of_nat (j + k) :: u64) = j + k" using assms(2) k(1) by (simp add: unat_of_nat del: of_nat_add)
    ultimately show False using False by simp
  qed
  then show ?thesis using False by simp
qed

text \<open>An argument in memory.\<close>

definition arg_is :: "mem \<Rightarrow> boot_arg \<Rightarrow> u8 list \<times> u8 list option \<Rightarrow> bool" where
  "arg_is m a kv \<longleftrightarrow> cstr m (arg_key a) (fst kv) \<and>
     (case snd kv of None \<Rightarrow> arg_value a = NULL | Some v \<Rightarrow> arg_value a \<noteq> NULL \<and> cstr m (arg_value a) v)"

lemma scan_key: "0 \<notin> set s \<Longrightarrow> takeWhile (\<lambda>c. c \<noteq> 0 \<and> c \<noteq> space \<and> c \<noteq> equals) s = takeWhile (\<lambda>c. c \<noteq> equals) (takeWhile (\<lambda>c. c \<noteq> space) s)"
  by (induction s) auto

lemma scan_value: "0 \<notin> set s \<Longrightarrow> takeWhile (\<lambda>c. c \<noteq> 0 \<and> c \<noteq> space) s = takeWhile (\<lambda>c. c \<noteq> space) s"
  by (induction s) auto

lemma offset_eq: "i < 2 ^ 64 \<Longrightarrow> j < 2 ^ 64 \<Longrightarrow> p + of_nat i = p + of_nat j \<longleftrightarrow> i = j" for p :: u64
proof -
  assume "i < 2 ^ 64" "j < 2 ^ 64"
  then have "unat (of_nat i :: u64) = i" "unat (of_nat j :: u64) = j" by simp_all
  then show ?thesis by (metis add_left_cancel)
qed

lemma after_word:
  assumes "cstr m p s" "t = takeWhile (\<lambda>c. c \<noteq> space) s"
  shows "m (p + of_nat (length t)) = (if t = s then 0 else space)" "t = s \<longleftrightarrow> length t = length s"
proof -
  have "t = take (length t) s" using assms(2) by (simp add: takeWhile_eq_take [symmetric])
  then show l: "t = s \<longleftrightarrow> length t = length s" by (metis take_all order_refl)
  show "m (p + of_nat (length t)) = (if t = s then 0 else space)"
  proof (cases "t = s")
    case False
    then have "length t < length s" using l assms(2) length_takeWhile_le [of _ s] by (metis le_neq_implies_less)
    moreover have "s ! length t = space" using nth_length_takeWhile [of "\<lambda>c. c \<noteq> space" s] calculation assms(2) by simp
    ultimately show ?thesis using assms(1) False by (simp add: cstr_iff)
  qed (use assms(1) in \<open>simp add: cstr_iff\<close>)
qed

text \<open>What \<open>parse_arg\<close> leaves: NUL bytes after the key and after the word, nothing else changed.\<close>

lemma parse_arg_result:
  assumes c: "cstr m p s" and sz: "length s < 2 ^ 64 - 1" and t: "t = takeWhile (\<lambda>c. c \<noteq> space) s" and k: "k = takeWhile (\<lambda>c. c \<noteq> equals) t"
  shows "parse_arg p m = Some (\<lparr>arg_key = p, arg_value = if equals \<in> set t then p + of_nat (Suc (length k)) else NULL\<rparr>,
      p + of_nat (if t = s then length t else Suc (length t)),
      \<lambda>x. if x = p + of_nat (length k) \<or> x = p + of_nat (length t) then 0 else m x)"
proof -
  have nz: "0 \<notin> set s" by (rule cstr_nonzero [OF c])
  have p1: "advance (\<lambda>c. c \<noteq> 0 \<and> c \<noteq> space \<and> c \<noteq> equals) m p = Some (p + of_nat (length k))"
    using advance_cstr [OF c, of "\<lambda>c. c \<noteq> 0 \<and> c \<noteq> space \<and> c \<noteq> equals"] scan_key [OF nz] t k by simp
  note aw = after_word [OF c t]
  show ?thesis
  proof (cases "equals \<in> set t")
    case True
    obtain k' v where kv: "t = k' @ equals # v" "equals \<notin> set k'" using split_list_first [OF True] by blast
    have kk: "k = k'" unfolding k kv(1) using kv(2) by (simp add: takeWhile_append)
    let ?p1 = "p + of_nat (length k)"
    define m1 where "m1 = m(?p1 := 0)"
    have "s = t @ dropWhile (\<lambda>c. c \<noteq> space) s" using t by simp
    then have "s = (k @ [equals]) @ v @ dropWhile (\<lambda>c. c \<noteq> space) s" using kv(1) kk by simp
    then obtain r where r: "s = (k @ [equals]) @ v @ r" "r = dropWhile (\<lambda>c. c \<noteq> space) s" by blast
    have lens: "length k < length s" "length t = length k + Suc (length v)" "length t \<le> length s" using r(1) kv kk t length_takeWhile_le [of _ s] by auto
    have e: "m ?p1 = equals" using c r(1) by (simp add: cstr_iff nth_append)
    have c1: "cstr m (?p1 + 1) (v @ r)" using cstr_drop [of m p "k @ [equals]" "v @ r"] c r(1) by (simp add: ac_simps)
    have "cstr m1 (?p1 + 1) (v @ r)"
    proof (rule cstr_cong [OF c1])
      fix i assume i: "i \<le> length (v @ r)"
      have "p + of_nat (length k + Suc i) \<noteq> p + of_nat (length k)" by (subst offset_eq) (use i r(1) sz in auto)
      then show "m1 (?p1 + 1 + of_nat i) = m (?p1 + 1 + of_nat i)" by (simp add: m1_def add.assoc)
    qed
    then have "advance (\<lambda>c. c \<noteq> 0 \<and> c \<noteq> space) m1 (?p1 + 1) = Some (?p1 + 1 + of_nat (length (takeWhile (\<lambda>c. c \<noteq> 0 \<and> c \<noteq> space) (v @ r))))"
      by (rule advance_cstr) simp
    moreover have "takeWhile (\<lambda>c. c \<noteq> 0 \<and> c \<noteq> space) (v @ r) = v"
    proof -
      have "space \<notin> set t" unfolding t by (metis set_takeWhileD)
      then have "\<forall>c \<in> set v. c \<noteq> space" using kv(1) by auto
      moreover have "0 \<notin> set (v @ r)" using nz r(1) by auto
      moreover have "takeWhile (\<lambda>c. c \<noteq> space) r = []" unfolding r(2) by (metis dropWhile_eq_Nil_conv hd_dropWhile list.exhaust_sel takeWhile.simps)
      ultimately show ?thesis by (simp add: scan_value takeWhile_append2)
    qed
    ultimately have p2: "advance (\<lambda>c. c \<noteq> 0 \<and> c \<noteq> space) m1 (?p1 + 1) = Some (p + of_nat (length t))" using lens(2) by (simp add: add.assoc)
    have ne: "p + of_nat (length t) \<noteq> ?p1" by (subst offset_eq) (use lens sz in auto)
    show ?thesis
      using p1 p2 e aw(1) ne True by (auto simp: parse_arg_def fun_eq_iff Let_def m1_def [symmetric]) (auto simp: m1_def)
  next
    case False
    have kt: "k = t" using False k by (simp add: takeWhile_eq_all_conv) (metis)
    have "m (p + of_nat (length k)) \<noteq> equals" using aw kt by auto
    then show ?thesis using p1 aw(1) False kt by (auto simp: parse_arg_def fun_eq_iff Let_def)
  qed
qed

lemma parse_arg_spec:
  assumes c: "cstr m p s" and sz: "unat p + length s < 2 ^ 64 - 1" and t: "t = takeWhile (\<lambda>c. c \<noteq> space) s"
  shows "\<exists>a m'. parse_arg p m = Some (a, p + of_nat (if t = s then length t else Suc (length t)), m') \<and> arg_is m' a (split_arg t) \<and>
    cstr m' (p + of_nat (if t = s then length t else Suc (length t))) (drop (Suc (length t)) s) \<and>
    (\<forall>x. \<not> in_block p (length s) x \<longrightarrow> m' x = m x) \<and>
    (\<forall>m''. (\<forall>i \<le> length t. m'' (p + of_nat i) = m' (p + of_nat i)) \<longrightarrow> arg_is m'' a (split_arg t))"
proof -
  define k where "k = takeWhile (\<lambda>c. c \<noteq> equals) t"
  define m' where "m' = (\<lambda>x. if x = p + of_nat (length k) \<or> x = p + of_nat (length t) then 0 else m x)"
  define a where "a = \<lparr>arg_key = p, arg_value = if equals \<in> set t then p + of_nat (Suc (length k)) else NULL\<rparr>"
  have lt: "length t \<le> length s" "length k \<le> length t" by (simp_all add: t k_def length_takeWhile_le)
  have ls: "length s < 2 ^ 64 - 1" using sz by simp
  have pr: "parse_arg p m = Some (a, p + of_nat (if t = s then length t else Suc (length t)), m')"
    unfolding a_def m'_def by (rule parse_arg_result [OF c ls t k_def])
  have at: "m' (p + of_nat i) = (if i = length k \<or> i = length t then 0 else m (p + of_nat i))" if "i \<le> Suc (length s)" for i
    using offset_eq [of i "length k" p] offset_eq [of i "length t" p] that lt ls by (simp add: m'_def)
  have s_at: "m (p + of_nat i) = s ! i" "s ! i \<noteq> 0" if "i < length s" for i using c that by (simp_all add: cstr_iff)
  have ts: "t ! i = s ! i" if "i < length t" for i using that unfolding t by (rule takeWhile_nth)
  have kt: "k ! i = t ! i" if "i < length k" for i using that unfolding k_def by (rule takeWhile_nth)
  have key: "cstr m'' p k" if "\<forall>i \<le> length t. m'' (p + of_nat i) = m' (p + of_nat i)" for m''
    using that at s_at ts kt lt by (simp add: cstr_iff)
  have val: "cstr m'' (p + of_nat (Suc (length k))) (drop (Suc (length k)) t)"
    if "equals \<in> set t" "\<forall>i \<le> length t. m'' (p + of_nat i) = m' (p + of_nat i)" for m''
  proof -
    have "length k < length t" unfolding k_def by (rule takeWhile_shorter [OF that(1)])
    moreover have "m'' (p + of_nat (Suc (length k)) + of_nat i) = m' (p + of_nat (Suc (length k) + i))" if "Suc (length k) + i \<le> length t" for i
      using \<open>\<forall>i \<le> length t. _ i\<close> that by (metis add.assoc of_nat_add)
    moreover have "m' (p + of_nat (Suc (length k) + i)) = (if Suc (length k) + i = length t then 0 else t ! (Suc (length k) + i))" if "Suc (length k) + i \<le> length t" for i
      using at [of "Suc (length k) + i"] s_at(1) [of "Suc (length k) + i"] ts [of "Suc (length k) + i"] that lt by (simp del: of_nat_add of_nat_Suc)
    moreover have "t ! i \<noteq> 0" if "i < length t" for i using s_at(2) [of i] ts [OF that] that lt by simp
    moreover have "m'' (p + of_nat (length t)) = 0" using that(2) at [of "length t"] lt by simp
    ultimately show ?thesis by (auto simp: cstr_iff simp del: of_nat_add of_nat_Suc)
  qed
  have vn: "p + of_nat (Suc (length k)) \<noteq> NULL" if "equals \<in> set t"
  proof
    have "length k < length t" unfolding k_def by (rule takeWhile_shorter [OF that])
    then have "unat (p + of_nat (Suc (length k))) = unat p + Suc (length k)" using unat_add_no_wrap [of p "Suc (length k)"] sz lt by simp
    moreover assume "p + of_nat (Suc (length k)) = NULL"
    ultimately show False by simp
  qed
  have args: "\<forall>m''. (\<forall>i \<le> length t. m'' (p + of_nat i) = m' (p + of_nat i)) \<longrightarrow> arg_is m'' a (split_arg t)"
    using key val vn by (auto simp: arg_is_def a_def split_arg_def Let_def k_def [symmetric])
  have rest: "cstr m' (p + of_nat (if t = s then length t else Suc (length t))) (drop (Suc (length t)) s)"
  proof (cases "t = s")
    case True
    then show ?thesis using at [of "length t"] by simp
  next
    case False
    then have "length t < length s" using after_word(2) [OF c t] lt by simp
    moreover have "m' (p + of_nat (Suc (length t)) + of_nat i) = m (p + of_nat (Suc (length t) + i))" if "Suc (length t) + i \<le> length s" for i
      using at [of "Suc (length t) + i"] that lt by (simp add: add.assoc)
    moreover have "m' (p + of_nat (length s)) = 0" using c at [of "length s"] by (simp add: cstr_iff)
    ultimately show ?thesis using False s_at by (simp add: cstr_iff del: of_nat_Suc)
  qed
  have z: "m (p + of_nat i) = 0 \<or> in_block p (length s) (p + of_nat i)" if "i \<le> length s" for i
    using c in_block_offset [of i "length s" p] that ls by (cases "i = length s") (auto simp: cstr_iff)
  have "m' x = m x" if "\<not> in_block p (length s) x" for x
    using that z [of "length k"] z [of "length t"] lt by (auto simp: m'_def)
  then show ?thesis using pr args rest by blast
qed

section \<open>The whole line\<close>

lemma words_of_skip: "words_of s = (let s1 = dropWhile (\<lambda>c. c = space) s in
    if s1 = [] then [] else takeWhile (\<lambda>c. c \<noteq> space) s1 # words_of (drop (Suc (length (takeWhile (\<lambda>c. c \<noteq> space) s1))) s1))"
proof (induction s)
  case (Cons c s)
  show ?case
  proof (cases "c = space")
    case False
    let ?r = "dropWhile (\<lambda>c. c \<noteq> space) s"
    have "words_of ?r = words_of (tl ?r)"
    proof (cases ?r)
      case (Cons d r)
      then have "d = space" using hd_dropWhile [of "\<lambda>c. c \<noteq> space" s] by auto
      then show ?thesis using Cons by simp
    next
      case Nil
      then show ?thesis by (simp only: list.sel)
    qed
    moreover have "tl ?r = drop (Suc (length (takeWhile (\<lambda>c. c \<noteq> space) s))) s" by (simp add: dropWhile_eq_drop drop_Suc tl_drop)
    ultimately show ?thesis using False by simp
  qed (use Cons in simp)
qed simp

lemma parse_loop_spec:
  assumes "cstr m p s" "unat p + length s < 2 ^ 64 - 1"
  shows "\<exists>as m'. parse_loop p args m = Some (args @ as, m') \<and>
    list_all2 (arg_is m') as (take (MAX_BOOT_ARGS - length args) (cmd_args s)) \<and> (\<forall>x. \<not> in_block p (length s) x \<longrightarrow> m' x = m x)"
  using assms
proof (induction "length s" arbitrary: s p m args rule: less_induct)
  case less
  define s1 where "s1 = dropWhile (\<lambda>c. c = space) s"
  define j where "j = length (takeWhile (\<lambda>c. c = space) s)"
  define p1 where "p1 = p + of_nat j"
  have js: "s = takeWhile (\<lambda>c. c = space) s @ s1" "j + length s1 = length s" by (simp_all add: s1_def j_def flip: length_append)
  have ad: "advance (\<lambda>c. c = space) m p = Some p1" unfolding p1_def j_def by (rule advance_cstr [OF less.prems(1)]) simp
  have c1: "cstr m p1 s1" using cstr_drop [of m p "takeWhile (\<lambda>c. c = space) s" s1] less.prems(1) js(1) by (simp add: p1_def j_def)
  have nz: "m p \<noteq> 0 \<longleftrightarrow> s \<noteq> []" using less.prems(1) by (cases s) auto
  have nz1: "m p1 \<noteq> 0 \<longleftrightarrow> s1 \<noteq> []" using c1 by (cases s1) auto
  note wd = words_of_skip [of s, folded s1_def, unfolded Let_def]
  show ?case
  proof (cases "m p \<noteq> 0 \<and> length args < MAX_BOOT_ARGS \<and> m p1 \<noteq> 0")
    case False
    then have "parse_loop p args m = Some (args, m)" by (subst parse_loop.simps) (auto simp: ad)
    moreover have "take (MAX_BOOT_ARGS - length args) (cmd_args s) = []" using False nz nz1 wd by (auto simp: cmd_args_def s1_def)
    ultimately show ?thesis by (intro exI [of _ "[]"] exI [of _ m]) simp
  next
    case True
    define t where "t = takeWhile (\<lambda>c. c \<noteq> space) s1"
    define n where "n = (if t = s1 then length t else Suc (length t))"
    define r where "r = drop (Suc (length t)) s1"
    have u1: "unat p1 = unat p + j" unfolding p1_def by (rule unat_add_no_wrap) (use less.prems(2) js(2) in simp)
    obtain a m1 where pa: "parse_arg p1 m = Some (a, p1 + of_nat n, m1)" "cstr m1 (p1 + of_nat n) r" "\<forall>x. \<not> in_block p1 (length s1) x \<longrightarrow> m1 x = m x"
        "\<forall>m''. (\<forall>i \<le> length t. m'' (p1 + of_nat i) = m1 (p1 + of_nat i)) \<longrightarrow> arg_is m'' a (split_arg t)"
      using parse_arg_spec [OF c1 _ t_def] u1 less.prems(2) js(2) unfolding n_def r_def by auto
    have lt: "length t \<le> length s1" "n + length r = length s1"
    proof -
      show "length t \<le> length s1" by (simp add: t_def length_takeWhile_le)
      then show "n + length r = length s1" using after_word(2) [OF c1 t_def] by (auto simp: n_def r_def)
    qed
    have rl: "length r < length s" using True nz1 js(2) by (cases s1) (auto simp: r_def)
    have un: "unat (p1 + of_nat n) = unat p + (j + n)" using unat_add_no_wrap [of p1 n] u1 less.prems(2) js(2) lt by simp
    obtain as m' where ih: "parse_loop (p1 + of_nat n) (args @ [a]) m1 = Some ((args @ [a]) @ as, m')"
        "list_all2 (arg_is m') as (take (MAX_BOOT_ARGS - length (args @ [a])) (cmd_args r))"
        "\<forall>x. \<not> in_block (p1 + of_nat n) (length r) x \<longrightarrow> m' x = m1 x"
      using less.hyps [OF rl pa(2)] un less.prems(2) js(2) lt by fastforce
    have "parse_loop p args m = Some (args @ a # as, m')" using True ad pa(1) ih(1) by (subst parse_loop.simps) simp
    moreover have "take (MAX_BOOT_ARGS - length args) (cmd_args s) = split_arg t # take (MAX_BOOT_ARGS - length (args @ [a])) (cmd_args r)"
    proof -
      have "MAX_BOOT_ARGS - length args = Suc (MAX_BOOT_ARGS - length (args @ [a]))" using True by (simp add: Suc_diff_Suc)
      then show ?thesis using True nz1 wd by (simp add: cmd_args_def t_def r_def)
    qed
    moreover have "arg_is m' a (split_arg t)"
    proof (rule pa(4) [rule_format])
      fix i assume i: "i \<le> length t"
      have "\<not> in_block (p1 + of_nat n) (length r) (p1 + of_nat i)"
        using in_block_range [of i n "length r" p1] i lt js(2) less.prems(2) by (auto simp: n_def r_def split: if_splits)
      then show "m' (p1 + of_nat i) = m1 (p1 + of_nat i)" using ih(3) by blast
    qed
    moreover have "m' x = m x" if "\<not> in_block p (length s) x" for x
    proof -
      have "\<not> in_block p1 (length s1) x" "\<not> in_block (p + of_nat (j + n)) (length r) x"
        using that in_block_sub [of p j "length s1" x "length s"] in_block_sub [of p "j + n" "length r" x "length s"] js(2) lt less.prems(2) by (auto simp: p1_def)
      then show ?thesis using ih(3) pa(3) by (simp add: p1_def add.assoc)
    qed
    ultimately show ?thesis using ih(2) by (intro exI [of _ "a # as"] exI [of _ m']) auto
  qed
qed

lemma lookup_args:
  assumes "list_all2 (arg_is m) as kvs" "cstr m key k"
  shows "boot_get_flag key as m = Some (k \<in> fst ` set kvs)"
    and "\<exists>v. boot_get_value key as m = Some v \<and> (case map_of kvs k of Some (Some w) \<Rightarrow> v \<noteq> NULL \<and> cstr m v w | _ \<Rightarrow> v = NULL)"
  using assms(1)
proof (induction rule: list_all2_induct)
  case (Cons a as kv kvs)
  have "cstr m (arg_key a) (fst kv)" using Cons(1) by (simp add: arg_is_def)
  then obtain r where r: "strcmp m (arg_key a) key = Some r" "r = 0 \<longleftrightarrow> fst kv = k"
    using strcmp_cstr [OF _ assms(2)] strdiff_zero cstr_nonzero assms(2) by metis
  case 1
  show ?case using r Cons(3) by auto
  case 2
  show ?case using r Cons(1,4) by (cases kv) (auto simp: arg_is_def split: option.splits)
qed simp_all

section \<open>Properties\<close>

text \<open>
  C35: After \<^verbatim>\<open>parse_cmdline\<close> of any NUL-terminated command line, with a key string that lies elsewhere:
  \<^verbatim>\<open>boot_get_flag\<close> answers whether one of the first 64 words has that key, and \<^verbatim>\<open>boot_get_value\<close> returns the
  string after the \<^verbatim>\<open>=\<close> of the first such word, or null when there is none or it is a flag.
\<close>

theorem cmdline_lookup:
  assumes "cstr m cmdline s" "cmdline \<noteq> NULL" "unat cmdline + length s < 2 ^ 64 - 1"
    and "cstr m key k" "\<forall>i \<le> length k. \<not> in_block cmdline (length s) (key + of_nat i)"
  shows "\<exists>boot_args m' v. parse_cmdline cmdline [] m = Some (boot_args, m') \<and>
    boot_get_flag key boot_args m' = Some (k \<in> fst ` set (take 64 (cmd_args s))) \<and> boot_get_value key boot_args m' = Some v \<and>
    (case map_of (take 64 (cmd_args s)) k of Some (Some w) \<Rightarrow> v \<noteq> NULL \<and> cstr m' v w | _ \<Rightarrow> v = NULL)"
proof -
  obtain as m' where p: "parse_loop cmdline [] m = Some (as, m')" "list_all2 (arg_is m') as (take 64 (cmd_args s))" "\<forall>x. \<not> in_block cmdline (length s) x \<longrightarrow> m' x = m x"
    using parse_loop_spec [OF assms(1,3), of "[]"] by (auto simp: MAX_BOOT_ARGS_def)
  have "parse_cmdline cmdline [] m = Some (as, m')"
  proof (cases s)
    case Nil
    then have "m cmdline = 0" using assms(1) by simp
    then show ?thesis using p(1) by (simp add: parse_cmdline_def parse_loop.simps)
  qed (use assms(1,2) p(1) in \<open>auto simp: parse_cmdline_def\<close>)
  moreover have "cstr m' key k" by (rule cstr_cong [OF assms(4)]) (use p(3) assms(5) in blast)
  ultimately show ?thesis using lookup_args [OF p(2)] by blast
qed

theorem cmdline_lookup_witness:
  "\<exists>boot_args m' v. parse_cmdline 0x1000 [] (wr_bytes (wr_bytes (\<lambda>_. 0) 0x1000 [0x76, space, 0x72, equals, 0x2F, 0x64]) 0x2000 [0x72]) = Some (boot_args, m') \<and>
    boot_get_flag 0x2000 boot_args m' = Some True \<and> boot_get_value 0x2000 boot_args m' = Some v \<and> cstr m' v [0x2F, 0x64]"
proof -
  let ?m = "wr_bytes (wr_bytes (\<lambda>_. 0) 0x1000 [0x76, space, 0x72, equals, 0x2F, 0x64]) 0x2000 [0x72]"
  let ?s = "[0x76, space, 0x72, equals, 0x2F, 0x64] :: u8 list"
  have "cstr ?m 0x1000 ?s" "cstr ?m 0x2000 [0x72]" by (simp_all add: wr_bytes_def)
  moreover have "cmd_args ?s = [([0x76], None), ([0x72], Some [0x2F, 0x64])]" by (simp add: cmd_args_def split_arg_def)
  moreover have "\<forall>i \<le> length [0x72 :: u8]. \<not> in_block 0x1000 (length ?s) (0x2000 + of_nat i)" by (auto simp: in_block_def le_Suc_eq)
  ultimately show ?thesis using cmdline_lookup [of ?m "0x1000" ?s "0x2000" "[0x72]"] by auto
qed

end
