(* ===== verification/Vfs_Tree.thy ===== *)
theory Vfs_Tree
  imports Vfs "HOL-Library.Sublist"
begin

text \<open>
  The tree of the virtual file system: its invariant over the child lists, path lookup as
  resolution of components, creation of nodes on the kernel heap, and registration of files.
\<close>

section \<open>Nodes on the heap\<close>

lemma heap_ok_cong:
  assumes "pmem m' = pmem m" "pmm_buddy m' = pmm_buddy m" "hhdm_offset m' = hhdm_offset m" "kernel_pml4 m' = kernel_pml4 m"
    "heap_virtual_top m' = heap_virtual_top m" "buckets m' = buckets m"
  shows "heap_ok m' used = heap_ok m used" "heap_budget m' b used = heap_budget m b used"
proof -
  have "heap_inv m' L sl fr used = heap_inv m L sl fr used" for L sl fr
    unfolding heap_inv_def same_heap [OF assms(1-5)] assms(6) by (rule refl)
  then show "heap_ok m' used = heap_ok m used" by (simp add: heap_ok_def)
  then show "heap_budget m' b used = heap_budget m b used"
    by (simp add: heap_budget_def heap_room_def same_heap(5) [OF assms(1-5)] assms(5))
qed

lemmas heap_budget_cong = heap_ok_cong(2)

lemma heap_memset_spec:
  assumes hm: "heap_mapped m L" and inh: "\<forall>i < n. in_heap m (s + of_nat i)" and n: "n < 2 ^ 64"
  shows "\<exists>m'. heap_memset s c (of_nat n) m = Some m' \<and> stored m L (\<lambda>x. if in_block s n x then c else hmem m x) m'"
proof -
  have "k \<le> n \<Longrightarrow> \<exists>m'. each (\<lambda>i. store8 (s + of_nat i) c) [0..<k] m = Some m' \<and>
      stored m L (\<lambda>x. if in_block s k x then c else hmem m x) m'" for k
  proof (induction k)
    case 0
    have "\<exists>mm. m = m\<lparr>pmem := mm\<rparr>" by (rule exI [of _ "pmem m"]) simp
    then show ?case using hm by (simp add: stored_def)
  next
    case (Suc k)
    then obtain m1 where m1: "each (\<lambda>i. store8 (s + of_nat i) c) [0..<k] m = Some m1"
        "stored m L (\<lambda>x. if in_block s k x then c else hmem m x) m1" by auto
    note d = storedD [OF m1(2)]
    have k: "k < n" "k < 2 ^ 64" using Suc.prems n by simp_all
    obtain m2 where m2: "store8 (s + of_nat k) c m1 = Some m2" "stored m1 L ((hmem m1)(s + of_nat k := c)) m2"
      using store_heap(3) [OF d(1)] inh k(1) d(3) by blast
    have "(hmem m1)(s + of_nat k := c) = (\<lambda>x. if in_block s (Suc k) x then c else hmem m x)"
      using in_block_Suc [OF k(2), of s] by (auto simp: d(2) fun_eq_iff)
    then show ?case using m1(1) m2(1) stored_trans [OF m1(2) m2(2)] by (simp add: each_append)
  qed
  from this [OF order_refl] show ?thesis using n by (simp add: heap_memset_def)
qed

lemma memset_used:
  assumes inv: "heap_inv m L sl fr used" and p: "used p = Some n" and k: "k \<le> n"
  shows "\<exists>m'. heap_memset p c (of_nat k) m = Some m' \<and> heap_inv m' L sl fr used \<and> stored m L (\<lambda>x. if in_block p k x then c else hmem m x) m'"
proof -
  have nb: "k < 2 ^ 64" "n \<le> 2 ^ 64" using used_extent [OF inv p] k by simp_all
  have inh: "\<forall>i < k. in_heap m (p + of_nat i)"
    using used_in_heap [OF inv p] in_block_offset [of _ n p] k nb(2) by simp
  obtain m' where m': "heap_memset p c (of_nat k) m = Some m'" "stored m L (\<lambda>x. if in_block p k x then c else hmem m x) m'"
    using heap_memset_spec [OF heap_invD(1) [OF inv] inh nb(1)] by blast
  have "\<forall>x. \<not> in_block p n x \<longrightarrow> (if in_block p k x then c else hmem m x) = hmem m x" using in_block_mono [OF _ k] by auto
  then show ?thesis using m' used_write [OF inv p _ m'(2)] by blast
qed

text \<open>The node table, the process table and so on are untouched by the heap.\<close>

lemma heap_only_nodes:
  fixes k :: "'a vfs_machine_scheme"
  assumes "heap_only k k'" shows "nodes k' = nodes k" "root_node k' = root_node k"
  using assms by (auto simp: heap_only_def)

definition nodes_used :: "'a vfs_machine_scheme \<Rightarrow> nat \<Rightarrow> (ptr \<rightharpoonup> nat) \<Rightarrow> bool" where
  "nodes_used k b used \<longleftrightarrow> heap_budget k b used \<and> dom (nodes k) \<subseteq> dom used"

text \<open>A structure is allocated with \<^verbatim>\<open>kmalloc\<close> and cleared with \<^verbatim>\<open>memset\<close>.\<close>

lemma alloc_zeroed:
  assumes b: "heap_budget k (b + pages_for sz) used" and sz: "sz \<noteq> 0"
  shows "\<exists>p k1 k2 n. kmalloc sz k = Some (p, k1) \<and> heap_memset p 0 sz k1 = Some k2 \<and> p \<noteq> NULL \<and> used p = None \<and> unat sz \<le> n \<and>
    heap_budget k2 b (used(p \<mapsto> n)) \<and> heap_only k k2 \<and> kept k used k2"
proof -
  have r: "heap_ok k used" "heap_room k (pages_for sz)" "4 * pages_for sz \<le> card (free_frames k)"
    using b by (simp_all add: heap_budget_def heap_room_def)
  obtain p k1 where km: "kmalloc sz k = Some (p, k1)" using kmalloc_spec(2) [OF r(1) sz r(2,3)] by blast
  obtain n where "allocated k used (pages_for sz) sz p n k1" using kmalloc_spec(1) [OF r(1) sz r(2) km] by blast
  then have a: "p \<noteq> NULL" "unat sz \<le> n" "used p = None" "heap_ok k1 (used(p \<mapsto> n))" "heap_only k k1" "spent k (pages_for sz) k1"
      "kept k used k1" "\<forall>q j x. used q = Some j \<and> in_block q j x \<longrightarrow> \<not> in_block p n x"
    unfolding allocated_def by blast+
  obtain L sl fr where inv: "heap_inv k1 L sl fr (used(p \<mapsto> n))" using a(4) by (auto simp: heap_ok_def)
  from memset_used [OF inv _ a(2), of p 0] obtain k2 where
    m: "heap_memset p 0 sz k1 = Some k2" "heap_inv k2 L sl fr (used(p \<mapsto> n))" "stored k1 L (\<lambda>x. if in_block p (unat sz) x then 0 else hmem k1 x) k2"
    by auto
  have "heap_only k k2" using heap_only_trans a(5) storedD(5) [OF m(3)] by blast
  moreover have "spent k (pages_for sz) k2" using spent_trans [OF a(6) stored_spent [OF m(3)]] by simp
  then have "heap_budget k2 b (used(p \<mapsto> n))" using b m(2) by (auto simp: heap_budget_def heap_ok_def spent_def)
  moreover have "kept k used k2"
    unfolding kept_def storedD(2) [OF m(3)]
  proof (intro allI impI; elim conjE)
    fix q j x assume q: "used q = Some j" "in_block q j x"
    then have "\<not> in_block p (unat sz) x" using a(8) in_block_mono [OF _ a(2)] by blast
    then show "(if in_block p (unat sz) x then 0 else hmem k1 x) = hmem k x" using a(7) q by (simp add: kept_def)
  qed
  ultimately show ?thesis using km m(1) a(1-3) by blast
qed

lemma create_node:
  assumes h: "nodes_used k (Suc b) used" and nm: "nm \<noteq> []"
  shows "\<exists>p k' n. vfs_create_node (Some nm) ty k = Some (p, k') \<and> p \<noteq> NULL \<and> nodes k p = None \<and>
    nodes k' = (nodes k)(p \<mapsto> new_node nm ty) \<and> root_node k' = root_node k \<and> nodes_used k' b (used(p \<mapsto> n))"
proof -
  have "heap_budget k (b + pages_for sizeof_vfs_node_t) used" "sizeof_vfs_node_t \<noteq> 0"
    using h by (simp_all add: nodes_used_def pages_for_def sizeof_vfs_node_t_def)
  from alloc_zeroed [OF this] obtain p k1 n and k2 :: "'a vfs_machine_scheme" where
    a: "kmalloc sizeof_vfs_node_t k = Some (p, k1)" "heap_memset p 0 sizeof_vfs_node_t k1 = Some k2" "p \<noteq> NULL" "used p = None"
      "heap_budget k2 b (used(p \<mapsto> n))" "heap_only k k2" by blast
  define k' where "k' = k2\<lparr>nodes := (nodes k2)(p \<mapsto> new_node nm ty)\<rparr>"
  have "vfs_create_node (Some nm) ty k = Some (p, k')"
    using a(1-3) nm by (simp add: vfs_create_node_def k'_def split: list.splits)
  moreover have "heap_budget k' b (used(p \<mapsto> n))" using heap_budget_cong [of k' k2] a(5) by (simp add: k'_def)
  moreover have "nodes k p = None" using h a(4) by (auto simp: nodes_used_def dom_def)
  moreover note heap_only_nodes [OF a(6)]
  ultimately show ?thesis using h a(3) by (intro exI [of _ p] exI [of _ k'] exI [of _ n]) (auto simp: k'_def nodes_used_def)
qed

section \<open>The tree\<close>

text \<open>
  \<open>K p\<close> lists the children of \<open>p\<close> in the order of their \<^verbatim>\<open>next\<close> pointers. A tree is well formed when
  every list is what the pointers say, its members know their parent, and only directories have
  children.
\<close>

primrec linked :: "'a vfs_machine_scheme \<Rightarrow> ptr \<Rightarrow> ptr list \<Rightarrow> bool" where
  "linked k v [] \<longleftrightarrow> v = NULL"
| "linked k v (c # cs) \<longleftrightarrow> v = c \<and> (\<exists>n. nodes k c = Some n \<and> linked k (node_next n) cs)"

definition vfs_ok :: "'a vfs_machine_scheme \<Rightarrow> (ptr \<Rightarrow> ptr list) \<Rightarrow> bool" where
  "vfs_ok k K \<longleftrightarrow> nodes k NULL = None
   \<and> (\<forall>p n. nodes k p = Some n \<longrightarrow> linked k (children n) (K p) \<and> distinct (K p) \<and> (node_type n \<noteq> VFS_DIRECTORY \<longrightarrow> K p = []))
   \<and> (\<forall>p c. c \<in> set (K p) \<longrightarrow> nodes k p \<noteq> None \<and> (\<exists>n. nodes k c = Some n \<and> node_parent n = p))
   \<and> (\<exists>r. nodes k (root_node k) = Some r \<and> node_type r = VFS_DIRECTORY \<and> node_parent r = NULL)"

lemma vfs_okD:
  assumes "vfs_ok k K"
  shows "nodes k NULL = None" "nodes k p = Some n \<Longrightarrow> linked k (children n) (K p)" "nodes k p = Some n \<Longrightarrow> distinct (K p)"
    "nodes k p = Some n \<Longrightarrow> node_type n \<noteq> VFS_DIRECTORY \<Longrightarrow> K p = []"
    "c \<in> set (K p) \<Longrightarrow> nodes k p \<noteq> None" "c \<in> set (K p) \<Longrightarrow> \<exists>n. nodes k c = Some n \<and> node_parent n = p"
    "\<exists>r. nodes k (root_node k) = Some r \<and> node_type r = VFS_DIRECTORY \<and> node_parent r = NULL"
  using assms unfolding vfs_ok_def by blast+

definition no_mounts :: "'a vfs_machine_scheme \<Rightarrow> bool" where
  "no_mounts k \<longleftrightarrow> (\<forall>p n. nodes k p = Some n \<longrightarrow> \<not> (is_mountpoint n \<and> node_ops n = Fat32Ops))"

text \<open>
  The components of a path, and what a path means in the tree. \<open>split_path\<close> cuts the path at
  every slash; the components are the pieces that are not empty, each cut to the 127 bytes a name
  may have. The loops of the code never see this list: they advance a pointer over the bytes.
\<close>

fun split_path :: "u8 list \<Rightarrow> u8 list list" where
  "split_path [] = [[]]"
| "split_path (c # s) = (if c = slash then [] # split_path s else (c # hd (split_path s)) # tl (split_path s))"

definition comps :: "u8 list \<Rightarrow> u8 list list" where
  "comps s = map (take 127) (filter (\<lambda>nm. nm \<noteq> []) (split_path s))"

declare path_loop.simps [simp del] register_loop.simps [simp del]

lemma split_path_pieces: "concat (map (\<lambda>nm. slash # nm) (split_path s)) = slash # s" "\<forall>nm \<in> set (split_path s). slash \<notin> set nm"
proof -
  have ne: "split_path s \<noteq> []" for s by (cases s) simp_all
  show "concat (map (\<lambda>nm. slash # nm) (split_path s)) = slash # s"
  proof (induction s)
    case (Cons c s)
    then show ?case using ne [of s] by (cases "split_path s") simp_all
  qed simp
  show "\<forall>nm \<in> set (split_path s). slash \<notin> set nm"
  proof (induction s)
    case (Cons c s)
    then show ?case using ne [of s] by (cases "split_path s") auto
  qed simp
qed

lemma split_path_span:
  "split_path s = takeWhile (\<lambda>c. c \<noteq> slash) s # (case dropWhile (\<lambda>c. c \<noteq> slash) s of [] \<Rightarrow> [] | c # r \<Rightarrow> split_path r)"
  by (induction s) auto

text \<open>The pieces come out in the order in which the pointer of the code meets them.\<close>

lemma comps_step: "comps s = (let s1 = skip_slashes s in if s1 = [] then [] else path_part s1 # comps (path_rest s1))"
proof -
  have "comps (slash # s) = comps s" for s by (simp add: comps_def)
  then have skip: "comps s = comps (skip_slashes s)" by (induction s) (auto simp: skip_slashes_def)
  define s1 where "s1 = skip_slashes s"
  have "comps s1 = path_part s1 # comps (path_rest s1)" if "s1 \<noteq> []"
  proof -
    have "hd s1 \<noteq> slash" using hd_dropWhile [of "\<lambda>c. c = slash" s] that by (auto simp: s1_def skip_slashes_def)
    then have t: "takeWhile (\<lambda>c. c \<noteq> slash) s1 \<noteq> []" using that by (cases s1) auto
    have "comps (path_rest s1) = map (take 127) (filter (\<lambda>nm. nm \<noteq> []) (case dropWhile (\<lambda>c. c \<noteq> slash) s1 of [] \<Rightarrow> [] | c # r \<Rightarrow> split_path r))"
    proof (cases "dropWhile (\<lambda>c. c \<noteq> slash) s1")
      case (Cons c r)
      then have "c = slash" using hd_dropWhile [of "\<lambda>c. c \<noteq> slash" s1] by auto
      then show ?thesis using Cons by (simp add: comps_def path_rest_def)
    next
      case Nil
      show ?thesis unfolding comps_def path_rest_def Nil by simp
    qed
    then show ?thesis using t by (subst comps_def, subst split_path_span) (simp add: path_part_def)
  qed
  then show ?thesis using skip by (simp add: s1_def Let_def comps_def)
qed

lemma path_induct: "(\<And>s. (\<And>s1. s1 = skip_slashes s \<Longrightarrow> s1 \<noteq> [] \<Longrightarrow> P (path_rest s1)) \<Longrightarrow> P s) \<Longrightarrow> P s"
  by (rule measure_induct_rule [of length]) (use path_rest_shorter in blast)

definition name_of :: "'a vfs_machine_scheme \<Rightarrow> ptr \<Rightarrow> u8 list" where
  "name_of k c = (case nodes k c of None \<Rightarrow> [] | Some n \<Rightarrow> node_name n)"

definition child_named :: "'a vfs_machine_scheme \<Rightarrow> (ptr \<Rightarrow> ptr list) \<Rightarrow> ptr \<Rightarrow> u8 list \<Rightarrow> ptr option" where
  "child_named k K p nm = List.find (\<lambda>c. name_of k c = nm) (K p)"

primrec resolve :: "'a vfs_machine_scheme \<Rightarrow> (ptr \<Rightarrow> ptr list) \<Rightarrow> ptr \<Rightarrow> u8 list list \<Rightarrow> ptr option" where
  "resolve k K p [] = Some p"
| "resolve k K p (nm # nms) = Option.bind (child_named k K p nm) (\<lambda>c. resolve k K c nms)"

definition or_null :: "ptr option \<Rightarrow> ptr" where
  "or_null x = (case x of None \<Rightarrow> NULL | Some p \<Rightarrow> p)"

lemma or_null_simps [simp]: "or_null None = NULL" "or_null (Some p) = p"
  by (simp_all add: or_null_def)

lemma linked_nonnull: "linked k v cs \<Longrightarrow> nodes k NULL = None \<Longrightarrow> v = NULL \<longleftrightarrow> cs = []"
  by (cases cs) auto

lemma find_child_linked:
  assumes "linked k v cs" "nodes k NULL = None"
  shows "find_child_loop v nm k = Some (or_null (List.find (\<lambda>c. name_of k c = nm) cs))"
  using assms(1)
proof (induction cs arbitrary: v)
  case Nil
  then show ?case by (simp add: find_child_loop.simps)
next
  case (Cons c cs)
  then obtain n where n: "v = c" "nodes k c = Some n" "linked k (node_next n) cs" by auto
  have "c \<noteq> NULL" using n(2) assms(2) by auto
  then show ?case using n Cons.IH [OF n(3)] by (subst find_child_loop.simps) (simp add: name_of_def)
qed

lemma find_child:
  assumes ok: "vfs_ok k K" and p: "nodes k p = Some n"
  shows "vfs_find_child p (Some nm) k = Some (or_null (child_named k K p nm))"
proof -
  have "p \<noteq> NULL" using p vfs_okD(1) [OF ok] by auto
  show ?thesis
  proof (cases "node_type n = VFS_DIRECTORY")
    case True
    then show ?thesis using \<open>p \<noteq> NULL\<close> p find_child_linked [OF vfs_okD(2) [OF ok p] vfs_okD(1) [OF ok]]
      by (simp add: vfs_find_child_def child_named_def)
  next
    case False
    then show ?thesis using \<open>p \<noteq> NULL\<close> p vfs_okD(4) [OF ok p False] by (simp add: vfs_find_child_def child_named_def)
  qed
qed

lemma child_namedD:
  assumes ok: "vfs_ok k K" and c: "child_named k K p nm = Some c"
  shows "c \<in> set (K p)" "\<exists>n. nodes k c = Some n \<and> node_parent n = p \<and> node_name n = nm" "c \<noteq> NULL"
proof -
  show m: "c \<in> set (K p)" using c by (auto simp: child_named_def find_Some_iff)
  have "name_of k c = nm" using c by (auto simp: child_named_def find_Some_iff)
  then show "\<exists>n. nodes k c = Some n \<and> node_parent n = p \<and> node_name n = nm" using vfs_okD(6) [OF ok m] by (auto simp: name_of_def)
  then show "c \<noteq> NULL" using vfs_okD(1) [OF ok] by auto
qed

lemma path_loop_resolve:
  assumes ok: "vfs_ok k K" and nm: "no_mounts k"
  shows "nodes k p \<noteq> None \<Longrightarrow> path_loop fat p s k = Some (or_null (resolve k K p (comps s)), k)"
proof (induction s arbitrary: p rule: path_induct)
  case (1 s)
  obtain n where n: "nodes k p = Some n" using 1(2) by auto
  show ?case
  proof (cases "skip_slashes s = []")
    case True
    then show ?thesis by (simp add: path_loop.simps [of fat p s] comps_step [of s] Let_def)
  next
    case False
    have m: "mount_find fat p (path_part (skip_slashes s)) k = Some (NULL, k)" using nm n by (auto simp: mount_find_def no_mounts_def)
    note f = find_child [OF ok n, of "path_part (skip_slashes s)"]
    show ?thesis
    proof (cases "child_named k K p (path_part (skip_slashes s))")
      case None
      then show ?thesis using False m f by (simp add: path_loop.simps [of fat p s] comps_step [of s] Let_def)
    next
      case (Some c)
      note d = child_namedD [OF ok Some]
      have "path_loop fat c (path_rest (skip_slashes s)) k = Some (or_null (resolve k K c (comps (path_rest (skip_slashes s)))), k)"
        by (rule "1.IH" [OF refl False]) (use d(2) in auto)
      then show ?thesis using False m f Some d(3) by (simp add: path_loop.simps [of fat p s] comps_step [of s] Let_def)
    qed
  qed
qed

lemma lookup_resolve:
  assumes ok: "vfs_ok k K" and nm: "no_mounts k"
  shows "vfs_path_to_node fat (Some (slash # s)) k = Some (or_null (resolve k K (root_node k) (comps s)), k)"
proof -
  have r: "nodes k (root_node k) \<noteq> None" using vfs_okD(7) [OF ok] by auto
  have "comps [] = []" by (simp add: comps_step skip_slashes_def)
  then show ?thesis using path_loop_resolve [OF ok nm r] by (simp add: vfs_path_to_node_def)
qed

text \<open>Every node has one path.\<close>

lemma resolve_snoc: "resolve k K p (q @ [nm]) = Option.bind (resolve k K p q) (\<lambda>c. child_named k K c nm)"
proof (induction q arbitrary: p)
  case (Cons a q)
  then show ?case by (cases "child_named k K p a") simp_all
qed (simp add: bind_rzero)

lemma resolve_append: "resolve k K p (q @ r) = Option.bind (resolve k K p q) (\<lambda>c. resolve k K c r)"
proof (induction q arbitrary: p)
  case (Cons a q)
  then show ?case by (cases "child_named k K p a") simp_all
qed simp

lemma resolve_node:
  assumes ok: "vfs_ok k K"
  shows "resolve k K p q = Some t \<Longrightarrow> nodes k p \<noteq> None \<Longrightarrow> nodes k t \<noteq> None"
proof (induction q arbitrary: p)
  case (Cons a q)
  then obtain c where c: "child_named k K p a = Some c" "resolve k K c q = Some t" by (auto simp: bind_eq_Some_conv)
  then show ?case using Cons.IH child_namedD(2) [OF ok c(1)] by auto
qed simp

lemma resolve_inj:
  assumes ok: "vfs_ok k K"
  shows "resolve k K (root_node k) q = Some t \<Longrightarrow> resolve k K (root_node k) r = Some t \<Longrightarrow> q = r"
proof (induction q arbitrary: r t rule: rev_induct)
  case Nil
  then show ?case
  proof (cases r rule: rev_cases)
    case (snoc r' nm)
    then obtain c where "child_named k K c nm = Some t" using Nil by (auto simp: resolve_snoc bind_eq_Some_conv)
    from child_namedD(1,2) [OF ok this] show ?thesis using vfs_okD(5) [OF ok] vfs_okD(7,1) [OF ok] Nil(1) by fastforce
  qed simp
next
  case (snoc nm q)
  then obtain c where c: "resolve k K (root_node k) q = Some c" "child_named k K c nm = Some t" by (auto simp: resolve_snoc bind_eq_Some_conv)
  note cd = child_namedD [OF ok c(2)]
  show ?case
  proof (cases r rule: rev_cases)
    case Nil
    then show ?thesis using snoc.prems(2) cd(1,2) vfs_okD(5) [OF ok cd(1)] vfs_okD(7,1) [OF ok] by fastforce
  next
    case (snoc r' nm')
    then obtain d where d: "resolve k K (root_node k) r' = Some d" "child_named k K d nm' = Some t"
      using \<open>resolve k K (root_node k) r = Some t\<close> by (auto simp: resolve_snoc bind_eq_Some_conv)
    have "d = c" "nm' = nm" using cd(2) child_namedD(2) [OF ok d(2)] by auto
    then show ?thesis using snoc.IH [OF c(1)] d(1) snoc by simp
  qed
qed

section \<open>Registration\<close>

text \<open>A node that is not linked anywhere yet.\<close>

lemma linked_cong: "\<forall>c \<in> set cs. map_option node_next (nodes k' c) = map_option node_next (nodes k c) \<Longrightarrow> linked k' v cs = linked k v cs"
proof (induction cs arbitrary: v)
  case (Cons c cs)
  then have "map_option node_next (nodes k' c) = map_option node_next (nodes k c)" "\<And>v. linked k' v cs = linked k v cs" by simp_all
  then show ?case by (cases "nodes k' c"; cases "nodes k c") auto
qed simp

definition loose :: "'a vfs_machine_scheme \<Rightarrow> (ptr \<Rightarrow> ptr list) \<Rightarrow> ptr \<Rightarrow> vfs_node_t \<Rightarrow> bool" where
  "loose k K c n \<longleftrightarrow> nodes k c = Some n \<and> node_parent n = NULL \<and> K c = [] \<and> c \<noteq> root_node k"

lemma loose_alone:
  assumes ok: "vfs_ok k K" and c: "loose k K c cn" shows "c \<notin> set (K q)"
proof
  assume "c \<in> set (K q)"
  then have "node_parent cn = q" "q \<noteq> NULL" using vfs_okD(5,6,1) [OF ok] c by (fastforce simp: loose_def)+
  then show False using c by (simp add: loose_def)
qed

definition attached :: "'a vfs_machine_scheme \<Rightarrow> ptr \<Rightarrow> vfs_node_t \<Rightarrow> ptr \<Rightarrow> vfs_node_t \<Rightarrow> 'a vfs_machine_scheme" where
  "attached k p pn c cn = k\<lparr>nodes := (nodes k)(c \<mapsto> cn\<lparr>node_next := children pn, node_parent := p\<rparr>, p \<mapsto> pn\<lparr>children := c\<rparr>)\<rparr>"

lemma attached_ok:
  assumes ok: "vfs_ok k K" and c: "loose k K c cn" "c \<noteq> p" and p: "nodes k p = Some pn" "node_type pn = VFS_DIRECTORY"
  shows "vfs_ok (attached k p pn c cn) (K(p := c # K p))"
proof -
  let ?k = "attached k p pn c cn" and ?K = "K(p := c # K p)"
  note cd = c(1) [unfolded loose_def]
  have pc: "p \<noteq> NULL" "c \<noteq> NULL" using p(1) cd vfs_okD(1) [OF ok] by auto
  have nd: "nodes ?k q = (if q = p then Some (pn\<lparr>children := c\<rparr>) else if q = c then Some (cn\<lparr>node_next := children pn, node_parent := p\<rparr>) else nodes k q)" for q
    by (simp add: attached_def)
  have alone: "c \<notin> set (K q)" for q by (rule loose_alone [OF ok c(1)])
  have cong: "linked ?k v (K q) = linked k v (K q)" for v q
    by (rule linked_cong) (use alone p(1) nd in auto)
  show ?thesis
    unfolding vfs_ok_def
  proof (intro conjI allI impI)
    show "nodes ?k NULL = None" using pc vfs_okD(1) [OF ok] by (simp add: nd)
    show "\<exists>r. nodes ?k (root_node ?k) = Some r \<and> node_type r = VFS_DIRECTORY \<and> node_parent r = NULL"
      using vfs_okD(7) [OF ok] p(1) cd by (auto simp: nd) (auto simp: attached_def)
  next
    fix q n assume n: "nodes ?k q = Some n"
    consider "q = p" | "q = c" | "q \<noteq> p" "q \<noteq> c" by blast
    then have "linked ?k (children n) (?K q) \<and> distinct (?K q) \<and> (node_type n \<noteq> VFS_DIRECTORY \<longrightarrow> ?K q = [])"
    proof cases
      case 1
      have "linked ?k (children pn) (K p)" using vfs_okD(2) [OF ok p(1)] cong by blast
      then show ?thesis using 1 n nd alone p(2) c(2) vfs_okD(3) [OF ok p(1)] by auto
    next
      case 2
      have "children cn = NULL" using vfs_okD(2) [OF ok, of c cn] cd by simp
      then show ?thesis using 2 n nd c(2) cd by auto
    next
      case 3
      then show ?thesis using n nd cong vfs_okD(2-4) [OF ok, of q n] by auto
    qed
    then show "linked ?k (children n) (?K q)" "distinct (?K q)" "node_type n \<noteq> VFS_DIRECTORY \<Longrightarrow> ?K q = []" by blast+
  next
    fix q d assume d: "d \<in> set (?K q)"
    show "nodes ?k q \<noteq> None" using d vfs_okD(5) [OF ok, of d q] by (auto simp: nd split: if_splits)
    show "\<exists>n. nodes ?k d = Some n \<and> node_parent n = q"
    proof (cases "d = c")
      case True
      then have "q = p" using d alone by (auto split: if_splits)
      then show ?thesis using True c(2) by (simp add: nd)
    next
      case False
      then have "d \<in> set (K q)" using d by (auto split: if_splits)
      then show ?thesis using vfs_okD(6) [OF ok, of d q] False p(1) by (auto simp: nd)
    qed
  qed
qed

lemma add_child:
  assumes ok: "vfs_ok k K" and c: "loose k K c cn" "c \<noteq> p" and p: "nodes k p = Some pn" "node_type pn = VFS_DIRECTORY"
  shows "vfs_add_child p c k = Some (attached k p pn c cn)"
proof -
  have "p \<noteq> NULL" "c \<noteq> NULL" using p(1) c(1) vfs_okD(1) [OF ok] by (auto simp: loose_def)
  then show ?thesis using p c by (simp add: vfs_add_child_def upd_node_def loose_def attached_def fun_upd_twist)
qed

text \<open>What a path means after a node was added at the front of a directory.\<close>

lemma attached_names: 
  assumes "nodes k p = Some pn" "nodes k c = Some cn"
  shows "name_of (attached k p pn c cn) q = name_of k q"
  using assms by (simp add: name_of_def attached_def)

lemma child_named_cong: "name_of k' = name_of k \<Longrightarrow> K' p = K p \<Longrightarrow> child_named k' K' p nm = child_named k K p nm"
  by (simp add: child_named_def)

lemma child_attached:
  assumes "nodes k p = Some pn" "nodes k c = Some cn"
  shows "child_named (attached k p pn c cn) (K(p := c # K p)) q nm = (if q = p \<and> nm = node_name cn then Some c else child_named k K q nm)"
proof -
  have "name_of (attached k p pn c cn) = name_of k" using attached_names [OF assms] by (rule ext)
  moreover have "name_of k c = node_name cn" using assms(2) by (simp add: name_of_def)
  ultimately show ?thesis by (auto simp: child_named_def)
qed

lemma resolve_attached:
  assumes p: "nodes k p = Some pn" "nodes k c = Some cn"
    and q: "resolve k K r q = Some t" "\<forall>q1 q2. q = q1 @ node_name cn # q2 \<longrightarrow> resolve k K r q1 \<noteq> Some p \<or> child_named k K p (node_name cn) = None"
  shows "resolve (attached k p pn c cn) (K(p := c # K p)) r q = Some t"
  using q
proof (induction q arbitrary: r)
  case (Cons a q)
  then obtain d where d: "child_named k K r a = Some d" "resolve k K d q = Some t" by (auto simp: bind_eq_Some_conv)
  have "\<not> (r = p \<and> a = node_name cn)"
  proof
    assume "r = p \<and> a = node_name cn"
    then show False using Cons.prems(2) d(1) by (metis append_Nil option.distinct(1) resolve.simps(1))
  qed
  then have "child_named (attached k p pn c cn) (K(p := c # K p)) r a = Some d" using child_attached [OF p, of K r a] d(1) by auto
  moreover have "\<forall>q1 q2. q = q1 @ node_name cn # q2 \<longrightarrow> resolve k K d q1 \<noteq> Some p \<or> child_named k K p (node_name cn) = None"
  proof (intro allI impI)
    fix q1 q2 assume "q = q1 @ node_name cn # q2"
    then have "a # q = (a # q1) @ node_name cn # q2" by simp
    from Cons.prems(2) [rule_format, OF this] show "resolve k K d q1 \<noteq> Some p \<or> child_named k K p (node_name cn) = None" using d(1) by simp
  qed
  ultimately show ?case using Cons.IH [OF d(2)] by (simp del: fun_upd_apply)
qed simp

text \<open>A node fresh from the heap.\<close>

lemma outside_no_kids: "vfs_ok k K \<Longrightarrow> nodes k c = None \<Longrightarrow> K c = []"
  using vfs_okD(5) [of k K "hd (K c)" c] by (cases "K c") auto

lemma fresh_ok:
  assumes ok: "vfs_ok k K" and c: "nodes k c = None" "c \<noteq> NULL" and k1: "nodes k1 = (nodes k)(c \<mapsto> n)" "root_node k1 = root_node k"
    and n: "children n = NULL" "node_parent n = NULL"
  shows "vfs_ok k1 K" "loose k1 K c n" "resolve k1 K r q = resolve k K r q"
proof -
  have Kc: "K c = []" by (rule outside_no_kids [OF ok c(1)])
  have nc: "c \<notin> set (K q)" for q using vfs_okD(6) [OF ok, of c q] c(1) by auto
  have rc: "c \<noteq> root_node k" using vfs_okD(7) [OF ok] c(1) by auto
  have cong: "linked k1 v (K q) = linked k v (K q)" for v q by (rule linked_cong) (use nc k1(1) in auto)
  show "loose k1 K c n" using Kc n(2) k1 rc by (simp add: loose_def)
  show "vfs_ok k1 K"
    unfolding vfs_ok_def
  proof (intro conjI allI impI)
    show "nodes k1 NULL = None" using vfs_okD(1) [OF ok] c(2) by (simp add: k1)
    show "\<exists>r. nodes k1 (root_node k1) = Some r \<and> node_type r = VFS_DIRECTORY \<and> node_parent r = NULL"
      using vfs_okD(7) [OF ok] rc by (simp add: k1)
    show "linked k1 (children m) (K p)" "distinct (K p)" "node_type m \<noteq> VFS_DIRECTORY \<Longrightarrow> K p = []" if "nodes k1 p = Some m" for p m
      using that vfs_okD(2-4) [OF ok, of p m] Kc n(1) cong by (cases "p = c"; simp add: k1)+
    show "nodes k1 p \<noteq> None" "\<exists>m. nodes k1 d = Some m \<and> node_parent m = p" if "d \<in> set (K p)" for p d
      using that vfs_okD(5,6) [OF ok that] nc by (auto simp: k1)
  qed
  have "name_of k1 d = name_of k d" if "d \<in> set (K p)" for p d using that nc by (auto simp: name_of_def k1)
  then have "child_named k1 K p nm = child_named k K p nm" for p nm
    unfolding child_named_def by (intro find_cong refl) simp
  then show "resolve k1 K r q = resolve k K r q" by (induction q arbitrary: r) simp_all
qed

definition content :: "vfs_node_t \<Rightarrow> u8 list \<times> vfs_type \<times> ptr \<times> u64" where
  "content n = (node_name n, node_type n, node_data n, node_size n)"

definition keeps :: "'a vfs_machine_scheme \<Rightarrow> 'a vfs_machine_scheme \<Rightarrow> bool" where
  "keeps k k' \<longleftrightarrow> (\<forall>x n. nodes k x = Some n \<longrightarrow> (\<exists>n'. nodes k' x = Some n' \<and> content n' = content n))"

lemma keeps_trans: "keeps k k1 \<Longrightarrow> keeps k1 k2 \<Longrightarrow> keeps k k2"
  unfolding keeps_def by metis

text \<open>Creating a node \<open>n\<close> and linking it under the directory \<open>p\<close>.\<close>

definition grafted :: "'a vfs_machine_scheme \<Rightarrow> (ptr \<Rightarrow> ptr list) \<Rightarrow> ptr \<Rightarrow> vfs_node_t \<Rightarrow> ptr \<Rightarrow> 'a vfs_machine_scheme \<Rightarrow> (ptr \<Rightarrow> ptr list) \<Rightarrow> bool" where
  "grafted k K p n c k' K' \<longleftrightarrow> vfs_ok k' K' \<and> root_node k' = root_node k \<and> keeps k k' \<and> K' c = []
   \<and> (\<exists>n'. nodes k' c = Some n' \<and> content n' = content n) \<and> child_named k' K' p (node_name n) = Some c
   \<and> (\<forall>r q t. resolve k K r q = Some t \<and>
        (\<forall>q1 q2. q = q1 @ node_name n # q2 \<longrightarrow> resolve k K r q1 \<noteq> Some p \<or> child_named k K p (node_name n) = None)
        \<longrightarrow> resolve k' K' r q = Some t)"

lemma graft:
  assumes ok: "vfs_ok k K" and c: "nodes k c = None" "c \<noteq> NULL" and k1: "nodes k1 = (nodes k)(c \<mapsto> n)" "root_node k1 = root_node k"
    and n: "children n = NULL" "node_parent n = NULL" "K' = K(p := c # K p)" and p: "nodes k p = Some pn" "node_type pn = VFS_DIRECTORY"
  shows "vfs_add_child p c k1 = Some (attached k1 p pn c n)" "grafted k K p n c (attached k1 p pn c n) K'"
proof -
  note f = fresh_ok [OF ok c k1 n(1,2)]
  have cp: "c \<noteq> p" using c(1) p(1) by auto
  have p1: "nodes k1 p = Some pn" and c1: "nodes k1 c = Some n" using p(1) cp by (simp_all add: k1)
  show "vfs_add_child p c k1 = Some (attached k1 p pn c n)" by (rule add_child [OF f(1,2) cp p1 p(2)])
  let ?k = "attached k1 p pn c n"
  have "vfs_ok ?k K'" unfolding n(3) by (rule attached_ok [OF f(1,2) cp p1 p(2)])
  moreover have "root_node ?k = root_node k" using k1(2) by (simp add: attached_def)
  moreover have "keeps k ?k" using c(1) p1 cp by (auto simp: keeps_def attached_def content_def k1)
  moreover have "K' c = []" using outside_no_kids [OF ok c(1)] cp by (simp add: n(3))
  moreover have "\<exists>n'. nodes ?k c = Some n' \<and> content n' = content n" using cp by (simp add: attached_def content_def)
  moreover have "child_named ?k K' p (node_name n) = Some c" unfolding n(3) using child_attached [OF p1 c1] by simp
  moreover have "resolve ?k K' r q = Some t"
    if q: "resolve k K r q = Some t" "\<forall>q1 q2. q = q1 @ node_name n # q2 \<longrightarrow> resolve k K r q1 \<noteq> Some p \<or> child_named k K p (node_name n) = None" for r q t
  proof -
    have "child_named k1 K p nm = child_named k K p nm" for nm using f(3) [of p "[nm]"] by (simp add: bind_rzero)
    then show ?thesis unfolding n(3) by (intro resolve_attached [OF p1 c1]) (use q f(3) in simp_all)
  qed
  ultimately show "grafted k K p n c ?k K'" unfolding grafted_def by blast
qed

text \<open>Registration by components.\<close>

fun register_at :: "ptr \<Rightarrow> u8 list list \<Rightarrow> ptr \<Rightarrow> u64 \<Rightarrow> 'a vfs_machine_scheme \<Rightarrow> 'a vfs_machine_scheme option" where
  "register_at cur [] data sz k = Some k"
| "register_at cur [nm] data sz k = do {
     (f, k1) \<leftarrow> vfs_create_node (Some nm) VFS_FILE k;
     if f = NULL then Some k1
     else do {
       k2 \<leftarrow> upd_node f (\<lambda>n. n\<lparr>node_data := data, node_size := sz\<rparr>) k1;
       vfs_add_child cur f k2 } }"
| "register_at cur (nm # nm' # nms) data sz k = do {
     dir \<leftarrow> vfs_find_child cur (Some nm) k;
     (dir, k1) \<leftarrow>
       (if dir = NULL then do {
          (d, k') \<leftarrow> vfs_create_node (Some nm) VFS_DIRECTORY k;
          k'' \<leftarrow> vfs_add_child cur d k';
          Some (d, k'') }
        else Some (dir, k));
     register_at dir (nm' # nms) data sz k1 }"

lemma skip_slashes_hd: "skip_slashes s \<noteq> [] \<Longrightarrow> hd (skip_slashes s) \<noteq> slash"
  unfolding skip_slashes_def using hd_dropWhile by blast

lemma last_rest: "path_rest s \<noteq> [] \<Longrightarrow> last (path_rest s) = last s"
  unfolding path_rest_def by (metis last_appendR takeWhile_dropWhile_id)

lemma last_skip: "skip_slashes s \<noteq> [] \<Longrightarrow> last (skip_slashes s) = last s"
  unfolding skip_slashes_def by (metis last_appendR takeWhile_dropWhile_id)

lemma comps_nonempty: "s \<noteq> [] \<Longrightarrow> last s \<noteq> slash \<Longrightarrow> comps s \<noteq> []"
proof -
  assume s: "s \<noteq> []" "last s \<noteq> slash"
  then have "skip_slashes s \<noteq> []" by (auto simp: skip_slashes_def dropWhile_eq_Nil_conv)
  then show ?thesis by (subst comps_step) (simp add: Let_def)
qed

lemma comps_parts:
  "nm \<in> set (comps s) \<Longrightarrow> nm \<noteq> [] \<and> length nm \<le> 127"
proof (induction s rule: path_induct)
  case (1 s)
  show ?case
  proof (cases "skip_slashes s = []")
    case True
    then show ?thesis using 1(2) by (simp add: comps_step [of s])
  next
    case False
    have "path_part (skip_slashes s) \<noteq> []" using False skip_slashes_hd [OF False] by (cases "skip_slashes s") (auto simp: path_part_def)
    moreover have "length (path_part (skip_slashes s)) \<le> 127" by (simp add: path_part_def)
    ultimately show ?thesis using 1 False by (auto simp: comps_step [of s] Let_def)
  qed
qed

lemma register_loop_comps:
  fixes k :: "'a vfs_machine_scheme"
  shows "s \<noteq> [] \<Longrightarrow> last s \<noteq> slash \<Longrightarrow> register_loop cur s data sz k = register_at cur (comps s) data sz k"
proof (induction s arbitrary: cur k rule: path_induct)
  case (1 s)
  define s1 where "s1 = skip_slashes s"
  have ne: "s1 \<noteq> []" using 1(2,3) by (auto simp: s1_def skip_slashes_def dropWhile_eq_Nil_conv)
  have cs: "comps s = path_part s1 # comps (path_rest s1)" using ne by (subst comps_step) (simp add: s1_def Let_def)
  show ?case
  proof (cases "path_rest s1 = []")
    case True
    moreover have "comps [] = []" by (simp add: comps_step skip_slashes_def)
    ultimately show ?thesis using ne cs by (simp add: register_loop.simps [of cur s] s1_def [symmetric] Let_def)
  next
    case False
    have l: "last (path_rest s1) \<noteq> slash" using last_rest [OF False] last_skip [of s] ne 1(3) by (simp add: s1_def)
    obtain a as where as: "comps (path_rest s1) = a # as" using comps_nonempty [OF False l] by (cases "comps (path_rest s1)") auto
    have ih: "register_loop d (path_rest s1) data sz k' = register_at d (a # as) data sz k'" for d and k' :: "'a vfs_machine_scheme"
      using "1.IH" [of s1 d k'] ne False l as by (simp add: s1_def)
    then have "(\<lambda>(d, k' :: 'a vfs_machine_scheme). register_loop d (path_rest s1) data sz k') = (\<lambda>(d, k'). register_at d (a # as) data sz k')"
      by (simp add: fun_eq_iff)
    then show ?thesis using ne False cs as by (simp add: register_loop.simps [of cur s] s1_def [symmetric] Let_def)
  qed
qed

lemma nodes_used_upd: "nodes_used k b used \<Longrightarrow> dom f \<subseteq> dom used \<Longrightarrow> nodes_used (k\<lparr>nodes := f\<rparr>) b used"
  using heap_budget_cong [of "k\<lparr>nodes := f\<rparr>" k] by (simp add: nodes_used_def)

lemma graft_new:
  assumes h: "nodes_used k (Suc b) used" and ok: "vfs_ok k K" and nmt: "no_mounts k" and p: "nodes k p = Some pn" "node_type pn = VFS_DIRECTORY"
    and nm: "nm \<noteq> []" "length nm \<le> 127" and n: "n = (new_node nm ty)\<lparr>node_data := d, node_size := z\<rparr>"
  shows "\<exists>c k1 k' K' used'. vfs_create_node (Some nm) ty k = Some (c, k1) \<and> c \<noteq> NULL \<and> nodes k1 c = Some (new_node nm ty) \<and>
    vfs_add_child p c (k1\<lparr>nodes := (nodes k1)(c \<mapsto> n)\<rparr>) = Some k' \<and> grafted k K p n c k' K' \<and> no_mounts k' \<and> nodes_used k' b used'"
proof -
  obtain c k1 u where c: "vfs_create_node (Some nm) ty k = Some (c, k1)" "c \<noteq> NULL" "nodes k c = None"
      "nodes k1 = (nodes k)(c \<mapsto> new_node nm ty)" "root_node k1 = root_node k" "nodes_used k1 b (used(c \<mapsto> u))"
    using create_node [OF h nm(1)] by blast
  define k2 where "k2 = k1\<lparr>nodes := (nodes k1)(c \<mapsto> n)\<rparr>"
  have k2: "nodes k2 = (nodes k)(c \<mapsto> n)" "root_node k2 = root_node k" by (simp_all add: k2_def c(4,5))
  have nn: "children n = NULL" "node_parent n = NULL" "\<not> is_mountpoint n" by (simp_all add: n new_node_def)
  note g = graft [OF ok c(3,2) k2 nn(1,2) refl p]
  have "no_mounts (attached k2 p pn c n)"
    using nmt nn(3) p(1) c(3) unfolding no_mounts_def by (auto simp: attached_def k2 split: if_splits)
  moreover have "nodes_used (attached k2 p pn c n) b (used(c \<mapsto> u))"
  proof -
    have d: "dom (nodes k1) \<subseteq> dom (used(c \<mapsto> u))" "p \<in> dom (nodes k1)" using c(6) p(1) by (auto simp: nodes_used_def c(4))
    have e: "attached k2 p pn c n = k1\<lparr>nodes := nodes (attached k2 p pn c n)\<rparr>" by (simp add: attached_def k2_def)
    have "dom (nodes (attached k2 p pn c n)) \<subseteq> dom (used(c \<mapsto> u))" using d by (auto simp: attached_def k2_def)
    from nodes_used_upd [OF c(6) this] show ?thesis using e by simp
  qed
  ultimately show ?thesis using c(1,2,4) g unfolding k2_def by fastforce
qed

definition registered :: "'a vfs_machine_scheme \<Rightarrow> (ptr \<Rightarrow> ptr list) \<Rightarrow> u8 list list \<Rightarrow> ptr \<Rightarrow> u64 \<Rightarrow> 'a vfs_machine_scheme \<Rightarrow> (ptr \<Rightarrow> ptr list) \<Rightarrow> bool" where
  "registered k K path data sz k' K' \<longleftrightarrow> vfs_ok k' K' \<and> no_mounts k' \<and> root_node k' = root_node k \<and> keeps k k'
   \<and> (\<exists>f n. resolve k' K' (root_node k) path = Some f \<and> nodes k' f = Some n \<and> node_name n = last path \<and> node_type n = VFS_FILE \<and> node_data n = data \<and> node_size n = sz)
   \<and> (\<forall>q t. resolve k K (root_node k) q = Some t \<and> \<not> prefix path q \<longrightarrow> resolve k' K' (root_node k) q = Some t)"

lemma register_leaf:
  assumes h: "nodes_used k (Suc b) used" and ok: "vfs_ok k K" and nmt: "no_mounts k" and P: "resolve k K (root_node k) P = Some p"
    and pd: "nodes k p = Some pn" "node_type pn = VFS_DIRECTORY" and nm: "nm \<noteq> []" "length nm \<le> 127"
  shows "\<exists>k' K' used'. register_at p [nm] data sz k = Some k' \<and> registered k K (P @ [nm]) data sz k' K' \<and> nodes_used k' b used'"
proof -
  define n where "n = (new_node nm VFS_FILE)\<lparr>node_data := data, node_size := sz\<rparr>"
  obtain c k1 k' K' u where g: "vfs_create_node (Some nm) VFS_FILE k = Some (c, k1)" "c \<noteq> NULL" "nodes k1 c = Some (new_node nm VFS_FILE)"
      "vfs_add_child p c (k1\<lparr>nodes := (nodes k1)(c \<mapsto> n)\<rparr>) = Some k'" "grafted k K p n c k' K'" "no_mounts k'" "nodes_used k' b u"
    using graft_new [OF h ok nmt pd nm n_def] by blast
  have r: "register_at p [nm] data sz k = Some k'" using g(1-4) by (simp add: upd_node_def n_def)
  note gr = g(5) [unfolded grafted_def]
  have nn: "node_name n = nm" "node_type n = VFS_FILE" "node_data n = data" "node_size n = sz" using nm(2) by (simp_all add: n_def new_node_def)
  have fr: "resolve k' K' (root_node k) q = Some t" if q: "resolve k K (root_node k) q = Some t" "\<not> prefix (P @ [nm]) q" for q t
  proof -
    have "\<forall>q1 q2. q = q1 @ nm # q2 \<longrightarrow> resolve k K (root_node k) q1 \<noteq> Some p"
    proof (intro allI impI notI)
      fix q1 q2 assume "q = q1 @ nm # q2" "resolve k K (root_node k) q1 = Some p"
      then show False using resolve_inj [OF ok _ P, of q1] q(2) by (simp add: prefix_def)
    qed
    then show ?thesis using gr q(1) nn(1) by blast
  qed
  have "\<not> prefix (P @ [nm]) P" by (simp add: prefix_def)
  then have "resolve k' K' (root_node k) (P @ [nm]) = Some c" using fr [OF P] gr nn(1) by (simp add: resolve_snoc)
  moreover obtain n' where "nodes k' c = Some n'" "content n' = content n" using gr by blast
  ultimately have "registered k K (P @ [nm]) data sz k' K'"
    unfolding registered_def using gr g(6) fr nn by (auto simp: content_def)
  then show ?thesis using r g(7) by blast
qed

lemma register_at_spec:
  assumes "cs \<noteq> []" "\<forall>nm \<in> set cs. nm \<noteq> [] \<and> length nm \<le> 127" "nodes_used k (b + length cs) used" "vfs_ok k K" "no_mounts k"
    "resolve k K (root_node k) P = Some p" "nodes k p = Some pn" "node_type pn = VFS_DIRECTORY"
    "\<forall>q t n. strict_prefix q cs \<and> resolve k K p q = Some t \<and> nodes k t = Some n \<longrightarrow> node_type n = VFS_DIRECTORY"
  shows "\<exists>k' K' used'. register_at p cs data sz k = Some k' \<and> registered k K (P @ cs) data sz k' K' \<and> nodes_used k' b used'"
  using assms
proof (induction cs arbitrary: p pn k K P used rule: induct_list012)
  case 1
  then show ?case by simp
next
  case (2 nm)
  have "nodes_used k (Suc b) used" "nm \<noteq> []" "length nm \<le> 127" using 2(2,3) by simp_all
  then show ?case using register_leaf [OF _ 2(4-8)] by blast
next
  case (3 nm nm' nms)
  note fc = find_child [OF 3(6,9), of nm]
  show ?case
  proof (cases "child_named k K p nm")
    case (Some c)
    note cd = child_namedD [OF 3(6) Some]
    obtain cn where cn: "nodes k c = Some cn" using cd(2) by blast
    have dir: "node_type cn = VFS_DIRECTORY"
      using 3(11) [rule_format, of "[nm]" c cn] Some cn by (simp add: strict_prefix_def)
    have dirs: "\<forall>q t n. strict_prefix q (nm' # nms) \<and> resolve k K c q = Some t \<and> nodes k t = Some n \<longrightarrow> node_type n = VFS_DIRECTORY"
    proof (intro allI impI; elim conjE)
      fix q t n assume q: "strict_prefix q (nm' # nms)" "resolve k K c q = Some t" "nodes k t = Some n"
      have "strict_prefix (nm # q) (nm # nm' # nms)" using q(1) by simp
      then show "node_type n = VFS_DIRECTORY" using 3(11) q(2,3) Some by fastforce
    qed
    have "nodes_used k (b + length (nm' # nms)) used"
      using 3(5) by (auto simp: nodes_used_def heap_budget_def heap_room_def)
    moreover have "resolve k K (root_node k) (P @ [nm]) = Some c" using 3(8) Some by (simp add: resolve_snoc)
    moreover have "\<forall>nm \<in> set (nm' # nms). nm \<noteq> [] \<and> length nm \<le> 127" using 3(4) by simp
    ultimately obtain k' K' u where "register_at c (nm' # nms) data sz k = Some k'" "registered k K ((P @ [nm]) @ nm' # nms) data sz k' K'" "nodes_used k' b u"
      using "3.IH"(2) [OF _ _ _ 3(6,7) _ cn dir dirs] by blast
    then show ?thesis using fc Some cd(3) by auto
  next
    case None
    define n where "n = (new_node nm VFS_DIRECTORY)\<lparr>node_data := NULL, node_size := 0\<rparr>"
    have n: "n = new_node nm VFS_DIRECTORY" by (simp add: n_def new_node_def)
    have b: "nodes_used k (Suc (b + length (nm' # nms))) used" "nm \<noteq> []" "length nm \<le> 127" using 3(4,5) by simp_all
    obtain c k1 k2 K2 u where g: "vfs_create_node (Some nm) VFS_DIRECTORY k = Some (c, k1)" "c \<noteq> NULL" "nodes k1 c = Some (new_node nm VFS_DIRECTORY)"
        "vfs_add_child p c (k1\<lparr>nodes := (nodes k1)(c \<mapsto> n)\<rparr>) = Some k2" "grafted k K p n c k2 K2" "no_mounts k2" "nodes_used k2 (b + length (nm' # nms)) u"
      using graft_new [OF b(1) 3(6,7,9,10) b(2,3) n_def] by blast
    have "k1\<lparr>nodes := (nodes k1)(c \<mapsto> n)\<rparr> = k1" using g(3) n by (simp add: fun_upd_idem)
    then have ac: "vfs_add_child p c k1 = Some k2" using g(4) by simp
    note gr = g(5) [unfolded grafted_def]
    have nn: "node_name n = nm" using b(3) by (simp add: n_def new_node_def)
    have mono: "resolve k2 K2 r q = Some t" if "resolve k K r q = Some t" for r q t using gr that None nn by blast
    obtain cn where cn: "nodes k2 c = Some cn" "content cn = content n" using gr by blast
    have dir: "node_type cn = VFS_DIRECTORY" using cn(2) by (simp add: content_def n new_node_def)
    have Kc: "K2 c = []" using gr by blast
    have dirs: "\<forall>q t n. strict_prefix q (nm' # nms) \<and> resolve k2 K2 c q = Some t \<and> nodes k2 t = Some n \<longrightarrow> node_type n = VFS_DIRECTORY"
    proof (intro allI impI; elim conjE)
      fix q t m assume q: "resolve k2 K2 c q = Some t" "nodes k2 t = Some m"
      have "q = []" using q(1) Kc by (cases q) (simp_all add: child_named_def)
      then show "node_type m = VFS_DIRECTORY" using q cn(1) dir by simp
    qed
    have rt: "root_node k2 = root_node k" using gr by blast
    have pc: "resolve k2 K2 (root_node k2) (P @ [nm]) = Some c" using mono [OF 3(8)] gr nn rt by (simp add: resolve_snoc)
    have "\<forall>nm \<in> set (nm' # nms). nm \<noteq> [] \<and> length nm \<le> 127" using 3(4) by simp
    moreover have "vfs_ok k2 K2" "keeps k k2" using gr by blast+
    ultimately obtain k' K' w where w: "register_at c (nm' # nms) data sz k2 = Some k'" "registered k2 K2 ((P @ [nm]) @ nm' # nms) data sz k' K'" "nodes_used k' b w"
      using "3.IH"(2) [OF _ _ g(7) _ g(6) pc cn(1) dir dirs] by blast
    have "registered k K (P @ nm # nm' # nms) data sz k' K'"
      using w(2) mono keeps_trans [OF \<open>keeps k k2\<close>] unfolding registered_def rt by auto
    moreover have "register_at p (nm # nm' # nms) data sz k = Some k'" using fc None g(1,2) ac w(1) by simp
    ultimately show ?thesis using w(3) by blast
  qed
qed

text \<open>A file system with nothing but its root.\<close>

lemma root_ok:
  assumes "nodes k = [r \<mapsto> new_node nm VFS_DIRECTORY]" "root_node k = r" "r \<noteq> NULL"
  shows "vfs_ok k (\<lambda>_. [])" "no_mounts k" "resolve k (\<lambda>_. []) r q = Some t \<Longrightarrow> q = [] \<and> t = r"
proof -
  show "vfs_ok k (\<lambda>_. [])" using assms by (auto simp: vfs_ok_def new_node_def split: if_splits)
  show "no_mounts k" using assms by (auto simp: no_mounts_def new_node_def split: if_splits)
  show "resolve k (\<lambda>_. []) r q = Some t \<Longrightarrow> q = [] \<and> t = r" by (cases q) (auto simp: child_named_def)
qed

lemma boot_vfs:
  "\<exists>(k :: 'a vfs_machine_scheme) used. vfs_ok k (\<lambda>_. []) \<and> no_mounts k \<and> nodes_used k 40 used \<and>
    (\<forall>q t. resolve k (\<lambda>_. []) (root_node k) q = Some t \<longrightarrow> q = [] \<and> (\<exists>n. nodes k t = Some n \<and> node_type n = VFS_DIRECTORY))"
proof -
  obtain m :: slab_machine and L where m: "tables m (kernel_pml4 m) L" "zone_unmapped m" "255 \<le> card (free_frames m)" using boot_heap by blast
  obtain k0 :: "'a vfs_machine_scheme" where True by blast
  define k1 where "k1 = k0\<lparr>pmem := pmem m, pmm_buddy := pmm_buddy m, hhdm_offset := hhdm_offset m, kernel_pml4 := kernel_pml4 m, nodes := Map.empty\<rparr>"
  have "pmem k1 = pmem m" "pmm_buddy k1 = pmm_buddy m" "hhdm_offset k1 = hhdm_offset m" by (simp_all add: k1_def)
  note same = same_memory [OF this]
  have kp: "kernel_pml4 k1 = kernel_pml4 m" by (simp add: k1_def)
  have "tables k1 (kernel_pml4 k1) L" "zone_unmapped k1" using m(1,2) by (simp_all add: kp same zone_unmapped_def)
  note i = init_heap [OF this]
  have "heap_budget (init_slab k1) (Suc 40) Map.empty" using i m(3) same(4) by (simp add: heap_budget_def)
  moreover have "nodes (init_slab k1) = Map.empty" by (simp add: init_slab_def k1_def)
  ultimately have "nodes_used (init_slab k1) (Suc 40) Map.empty" by (simp add: nodes_used_def)
  from create_node [OF this, of "[slash]" VFS_DIRECTORY, OF list.distinct(2)] obtain r u and k2 :: "'a vfs_machine_scheme" where
    k2: "r \<noteq> NULL" "nodes k2 = (nodes (init_slab k1))(r \<mapsto> new_node [slash] VFS_DIRECTORY)" "nodes_used k2 40 [r \<mapsto> u]"
    by blast
  define k where "k = k2\<lparr>root_node := r\<rparr>"
  have k: "nodes k = [r \<mapsto> new_node [slash] VFS_DIRECTORY]" "root_node k = r"
    using \<open>nodes (init_slab k1) = Map.empty\<close> by (simp_all add: k_def k2(2))
  note rt = root_ok [OF k k2(1)]
  have "nodes_used k 40 [r \<mapsto> u]" using k2(3) heap_budget_cong [of k k2] by (simp add: k_def nodes_used_def)
  moreover have "q = [] \<and> (\<exists>n. nodes k t = Some n \<and> node_type n = VFS_DIRECTORY)" if "resolve k (\<lambda>_. []) (root_node k) q = Some t" for q t
    using rt(3) [of q t] that k by (simp add: new_node_def)
  ultimately show ?thesis using rt(1,2) by blast
qed

lemma register_file_spec:
  assumes "vfs_ok k K" "no_mounts k" "nodes_used k (b + length (comps s)) used" "s \<noteq> []" "last s \<noteq> slash"
    and "\<forall>q p n. strict_prefix q (comps s) \<and> resolve k K (root_node k) q = Some p \<and> nodes k p = Some n \<longrightarrow> node_type n = VFS_DIRECTORY"
  shows "\<exists>k' K' used'. vfs_register_file (Some (slash # s)) data sz k = Some k' \<and> registered k K (comps s) data sz k' K' \<and> nodes_used k' b used'"
proof -
  obtain rn where rn: "nodes k (root_node k) = Some rn" "node_type rn = VFS_DIRECTORY" using vfs_okD(7) [OF assms(1)] by blast
  have r0: "root_node k \<noteq> NULL" using rn(1) vfs_okD(1) [OF assms(1)] by auto
  have parts: "\<forall>nm \<in> set (comps s). nm \<noteq> [] \<and> length nm \<le> 127" using comps_parts by blast
  have here: "resolve k K (root_node k) [] = Some (root_node k)" by simp
  obtain k' K' used' where r: "register_at (root_node k) (comps s) data sz k = Some k'" "registered k K ([] @ comps s) data sz k' K'" "nodes_used k' b used'"
    using register_at_spec [OF comps_nonempty [OF assms(4,5)] parts assms(3,1,2) here rn assms(6)] by blast
  have "vfs_register_file (Some (slash # s)) data sz k = Some k'"
    using r(1) r0 register_loop_comps [OF assms(4,5), of "root_node k" data sz k] by (simp add: vfs_register_file_def)
  then show ?thesis using r(2,3) by auto
qed

text \<open>A tree with one file in one directory.\<close>

lemma boot_tree:
  "\<exists>(k :: vfs_machine) K d f dn fn. vfs_ok k K \<and> no_mounts k \<and>
    resolve k K (root_node k) [[0x65]] = Some d \<and> nodes k d = Some dn \<and> node_name dn = [0x65] \<and>
    resolve k K (root_node k) [[0x65], [0x66]] = Some f \<and> nodes k f = Some fn \<and> node_name fn = [0x66] \<and> node_parent fn = d \<and>
    resolve k K (root_node k) [[0x66]] = None"
proof -
  obtain r d f :: ptr where p: "r = 0x1000" "d = 0x2000" "f = 0x3000" by blast
  define rn where "rn = (new_node [slash] VFS_DIRECTORY)\<lparr>children := d\<rparr>"
  define dn where "dn = (new_node [0x65] VFS_DIRECTORY)\<lparr>node_parent := r, children := f\<rparr>"
  define fn where "fn = (new_node [0x66] VFS_FILE)\<lparr>node_parent := d\<rparr>"
  obtain k0 :: vfs_machine where True by blast
  define k where "k = k0\<lparr>root_node := r, nodes := [r \<mapsto> rn, d \<mapsto> dn, f \<mapsto> fn]\<rparr>"
  define K where "K = (\<lambda>_. [])(r := [d], d := [f])"
  have "vfs_ok k K" unfolding vfs_ok_def by (auto simp: k_def K_def p rn_def dn_def fn_def new_node_def split: if_splits)
  moreover have "no_mounts k" by (auto simp: no_mounts_def k_def rn_def dn_def fn_def new_node_def split: if_splits)
  moreover have "resolve k K (root_node k) [[0x65]] = Some d" "resolve k K (root_node k) [[0x65], [0x66]] = Some f" "resolve k K (root_node k) [[0x66]] = None"
    by (simp_all add: k_def K_def p child_named_def name_of_def dn_def fn_def new_node_def)
  moreover have "nodes k d = Some dn" "nodes k f = Some fn" by (simp_all add: k_def p)
  moreover have "node_name dn = [0x65]" "node_name fn = [0x66]" "node_parent fn = d" by (simp_all add: dn_def fn_def new_node_def)
  ultimately show ?thesis by blast
qed

section \<open>Properties\<close>

text \<open>
  C29: On a well-formed tree without mounted disks \<^verbatim>\<open>vfs_path_to_node\<close> terminates for every absolute
  path, changes nothing, and returns the node the components of the path lead to, or null when a
  component is missing or is not a directory. The components are the non-empty pieces between the
  slashes, so repeated and trailing slashes do not matter; of a longer component only the first
  127 bytes count.
\<close>

theorem vfs_path_to_node_resolves:
  assumes "vfs_ok k K" "no_mounts k"
  shows "vfs_path_to_node fat (Some (slash # s)) k = Some (or_null (resolve k K (root_node k) (comps s)), k)"
  by (rule lookup_resolve [OF assms])

theorem vfs_path_to_node_resolves_witness:
  "\<exists>(k :: vfs_machine) d f dn fn.
    vfs_path_to_node (\<lambda>_ _ k. Some (NULL, k)) (Some [slash, 0x65, slash]) k = Some (d, k) \<and> nodes k d = Some dn \<and> node_name dn = [0x65] \<and>
    vfs_path_to_node (\<lambda>_ _ k. Some (NULL, k)) (Some [slash, slash, 0x65, slash, slash, 0x66]) k = Some (f, k) \<and> nodes k f = Some fn \<and>
      node_name fn = [0x66] \<and> node_parent fn = d \<and>
    vfs_path_to_node (\<lambda>_ _ k. Some (NULL, k)) (Some [slash, 0x66]) k = Some (NULL, k)"
proof -
  obtain k :: vfs_machine and K d f dn fn where k: "vfs_ok k K" "no_mounts k"
    "resolve k K (root_node k) [[0x65]] = Some d" "nodes k d = Some dn" "node_name dn = [0x65]"
    "resolve k K (root_node k) [[0x65], [0x66]] = Some f" "nodes k f = Some fn" "node_name fn = [0x66]" "node_parent fn = d"
    "resolve k K (root_node k) [[0x66]] = None"
    using boot_tree by metis
  have "comps [0x65, slash] = [[0x65]]" "comps [slash, 0x65, slash, slash, 0x66] = [[0x65], [0x66]]" "comps [0x66] = [[0x66]]"
    by (simp_all add: comps_def slash_def)
  then show ?thesis
    using vfs_path_to_node_resolves [OF k(1,2), where fat = "\<lambda>_ _ k. Some (NULL, k)"] k by fastforce
qed

text \<open>
  C30: \<^verbatim>\<open>vfs_register_file\<close> with an absolute path that names a file, none of whose directories exists as
  something else, and with heap for one node per component: the tree stays well formed, and
  afterwards the path, and every other spelling of it, leads to a file with the last component as
  its name and the given data and size. Every other path that led to a node before and does not
  continue the new one still leads to that node, with its name, type, data and size unchanged. A
  path that continues the new one leads to nothing, even if it led to a node before: a file
  registered over a directory hides all that is below it.
\<close>

theorem vfs_register_lookup:
  assumes "vfs_ok k K" "no_mounts k" "nodes_used k (b + length (comps s)) used" "s \<noteq> []" "last s \<noteq> slash"
    and "\<forall>q p n. strict_prefix q (comps s) \<and> resolve k K (root_node k) q = Some p \<and> nodes k p = Some n \<longrightarrow> node_type n = VFS_DIRECTORY"
  shows "\<exists>k' K' used' f n. vfs_register_file (Some (slash # s)) data sz k = Some k' \<and> vfs_ok k' K' \<and> no_mounts k' \<and> nodes_used k' b used' \<and>
    nodes k' f = Some n \<and> node_name n = last (comps s) \<and> node_type n = VFS_FILE \<and> node_data n = data \<and> node_size n = sz \<and>
    (\<forall>u. prefix (comps s) (comps u) \<longrightarrow>
       vfs_path_to_node fat (Some (slash # u)) k' = Some (if comps u = comps s then f else NULL, k')) \<and>
    (\<forall>u t n. vfs_path_to_node fat (Some (slash # u)) k = Some (t, k) \<and> nodes k t = Some n \<and> \<not> prefix (comps s) (comps u) \<longrightarrow>
       vfs_path_to_node fat (Some (slash # u)) k' = Some (t, k') \<and> (\<exists>n'. nodes k' t = Some n' \<and> content n' = content n))"
proof -
  obtain k' K' used' where r: "vfs_register_file (Some (slash # s)) data sz k = Some k'" "registered k K (comps s) data sz k' K'" "nodes_used k' b used'"
    using register_file_spec [OF assms] by blast
  note d = r(2) [unfolded registered_def]
  have ok': "vfs_ok k' K'" "no_mounts k'" "root_node k' = root_node k" using d by blast+
  note lk' = lookup_resolve [OF ok'(1,2), unfolded ok'(3)] and lk = lookup_resolve [OF assms(1,2)]
  obtain f n where f: "resolve k' K' (root_node k) (comps s) = Some f" "nodes k' f = Some n" "node_name n = last (comps s)"
      "node_type n = VFS_FILE" "node_data n = data" "node_size n = sz"
    using d by blast
  have "K' f = []" using vfs_okD(4) [OF ok'(1) f(2)] f(4) by simp
  then have below: "resolve k' K' f q = (if q = [] then Some f else None)" for q by (cases q) (simp_all add: child_named_def)
  have new: "vfs_path_to_node fat (Some (slash # u)) k' = Some (if comps u = comps s then f else NULL, k')" if u: "prefix (comps s) (comps u)" for u
  proof -
    obtain q where "comps u = comps s @ q" using u by (auto simp: prefix_def)
    then show ?thesis using lk' [of fat u] f(1) below [of q] by (simp add: resolve_append)
  qed
  have rest: "vfs_path_to_node fat (Some (slash # u)) k' = Some (t, k') \<and> (\<exists>n'. nodes k' t = Some n' \<and> content n' = content n)"
    if u: "vfs_path_to_node fat (Some (slash # u)) k = Some (t, k)" "nodes k t = Some n" "\<not> prefix (comps s) (comps u)" for u t n
  proof -
    have "t \<noteq> NULL" using u(2) vfs_okD(1) [OF assms(1)] by auto
    then have "resolve k K (root_node k) (comps u) = Some t" using lk [of fat u] u(1) by (cases "resolve k K (root_node k) (comps u)") auto
    then have "resolve k' K' (root_node k) (comps u) = Some t" using d u(3) by blast
    moreover have "\<exists>n'. nodes k' t = Some n' \<and> content n' = content n" using d u(2) unfolding keeps_def by blast
    ultimately show ?thesis using lk' [of fat u] by simp
  qed
  show ?thesis
    by (intro exI [of _ k'] exI [of _ K'] exI [of _ used'] exI [of _ f] exI [of _ n] conjI)
      (rule r ok' f | use new rest in blast)+
qed

theorem vfs_register_lookup_witness:
  "\<exists>(k :: vfs_machine) k' f n. vfs_register_file (Some [slash, 0x65, slash, 0x66]) 0x1000 42 k = Some k' \<and>
    vfs_path_to_node (\<lambda>_ _ k. Some (NULL, k)) (Some [slash, 0x65, slash, slash, 0x66]) k' = Some (f, k') \<and> nodes k' f = Some n \<and>
    node_name n = [0x66] \<and> node_size n = 42 \<and>
    vfs_path_to_node (\<lambda>_ _ k. Some (NULL, k)) (Some [slash, 0x65, slash, 0x66, slash, 0x67]) k' = Some (NULL, k')"
proof -
  let ?s = "[0x65, slash, 0x66]"
  obtain k :: vfs_machine and used where k: "vfs_ok k (\<lambda>_. [])" "no_mounts k" "nodes_used k 40 used"
      "\<forall>q t. resolve k (\<lambda>_. []) (root_node k) q = Some t \<longrightarrow> q = [] \<and> (\<exists>n. nodes k t = Some n \<and> node_type n = VFS_DIRECTORY)"
    using boot_vfs [where ?'a = unit] by blast
  have cs: "comps ?s = [[0x65], [0x66]]" "comps [0x65, slash, slash, 0x66] = [[0x65], [0x66]]" "comps [0x65, slash, 0x66, slash, 0x67] = [[0x65], [0x66], [0x67]]"
    by (simp_all add: comps_def slash_def)
  then have b: "nodes_used k (38 + length (comps ?s)) used" using k(3) by simp
  have dirs: "\<forall>q p n. strict_prefix q (comps ?s) \<and> resolve k (\<lambda>_. []) (root_node k) q = Some p \<and> nodes k p = Some n \<longrightarrow> node_type n = VFS_DIRECTORY"
    using k(4) by fastforce
  have l: "?s \<noteq> []" "last ?s \<noteq> slash" by (simp_all add: slash_def)
  obtain k' f n where r: "vfs_register_file (Some (slash # ?s)) 0x1000 42 k = Some k'" "nodes k' f = Some n" "node_name n = last (comps ?s)" "node_size n = 42"
      "\<forall>u. prefix (comps ?s) (comps u) \<longrightarrow>
         vfs_path_to_node (\<lambda>_ _ k. Some (NULL, k)) (Some (slash # u)) k' = Some (if comps u = comps ?s then f else NULL, k')"
    using vfs_register_lookup [OF k(1,2) b l dirs, where data = "0x1000" and sz = 42 and fat = "\<lambda>_ _ k. Some (NULL, k)"] by blast
  show ?thesis
    using r(1-4) r(5) [rule_format, of "[0x65, slash, slash, 0x66]"] r(5) [rule_format, of "[0x65, slash, 0x66, slash, 0x67]"]
    by (auto simp: cs)
qed

end
