(* ===== verification/Vfs_Files.thy ===== *)
theory Vfs_Files
  imports Vfs_Tree
begin

text \<open>
  Memory-backed files of the virtual file system: what a write stores and a read returns, and what
  appending to a file of more than a page loses.
\<close>

section \<open>Reading and writing a file\<close>

text \<open>
  A memory-backed file keeps its bytes in one heap block. Everything \<^verbatim>\<open>mem_vfs_write\<close> does when the
  file grows: \<^verbatim>\<open>krealloc\<close> moves the bytes, the node gets the new block and size, and the caller's bytes
  are copied in.
\<close>

definition backed :: "'a vfs_machine_scheme \<Rightarrow> (ptr \<rightharpoonup> nat) \<Rightarrow> ptr \<Rightarrow> vfs_node_t \<Rightarrow> nat \<Rightarrow> bool" where
  "backed k used nd n bn \<longleftrightarrow> heap_ok k used \<and> nd \<noteq> NULL \<and> nodes k nd = Some n \<and> unat (node_size n) \<le> bn \<and>
     (used (node_data n) = Some bn \<or> node_data n = NULL \<and> bn = 0)"

lemma heap_ok_nodes:
  fixes k :: "'a vfs_machine_scheme"
  shows "heap_ok (k\<lparr>nodes := f\<rparr>) used = heap_ok k used" "hmem (k\<lparr>nodes := f\<rparr>) = hmem k"
  by (rule heap_ok_cong; simp) (rule same_heap; simp)

text \<open>Copying \<open>sz\<close> bytes of the block \<open>q\<close> to offset \<open>b\<close> of the block \<open>p\<close>.\<close>

lemma copy_in:
  assumes ok: "heap_ok k used" and q: "used q = Some qn" "unat sz \<le> qn" and p: "used p = Some pn" "p \<noteq> q" "unat offset + unat sz \<le> pn"
  shows "\<exists>k'. heap_memcpy (p + offset) q sz k = Some k' \<and> heap_ok k' used \<and> heap_only k k' \<and> kept k (used(p := None)) k' \<and>
    (\<forall>i < pn. hmem k' (p + of_nat i) =
       (if unat offset \<le> i \<and> i < unat offset + unat sz then hmem k (q + of_nat (i - unat offset)) else hmem k (p + of_nat i)))"
proof -
  obtain L sl fr where inv: "heap_inv k L sl fr used" using ok by (auto simp: heap_ok_def)
  have pn: "pn \<le> 2 ^ 64" using used_extent [OF inv p(1)] by simp
  obtain k' where k': "heap_memcpy (p + offset) q sz k = Some k'" "heap_inv k' L sl fr used"
      "stored k L (snapshot_copy (hmem k) (p + offset) q (unat sz)) k'" "kept k (used(p := None)) k'"
    using copy_region [OF inv q(1) p(1,2), of 0 "unat sz" "unat offset"] q(2) p(3) by auto
  have "hmem k' (p + of_nat i) =
       (if unat offset \<le> i \<and> i < unat offset + unat sz then hmem k (q + of_nat (i - unat offset)) else hmem k (p + of_nat i))" if i: "i < pn" for i
  proof (cases "unat offset \<le> i")
    case True
    have e: "p + of_nat i - (p + offset) = of_nat (i - unat offset)" using True by (simp add: of_nat_diff)
    have "i - unat offset < 2 ^ 64" using i pn by simp
    then have "unat (p + of_nat i - (p + offset)) = i - unat offset" unfolding e by simp
    then have "in_block (p + offset) (unat sz) (p + of_nat i) \<longleftrightarrow> i < unat offset + unat sz" using True unfolding in_block_def by linarith
    then show ?thesis using True e by (simp add: storedD(2) [OF k'(3)] snapshot_copy_def)
  next
    case False
    have "\<not> in_block (p + offset) (unat sz) (p + of_nat i)"
    proof
      assume "in_block (p + offset) (unat sz) (p + of_nat i)"
      then obtain j where j: "j < unat sz" "p + of_nat i = p + offset + of_nat j" by (rule in_blockE)
      then have "of_nat i = offset + of_nat j" by (simp add: add.assoc)
      then have "unat (of_nat i :: u64) = unat (offset + of_nat j)" by simp
      then have "i = unat offset + j" using unat_add_no_wrap [of offset j] j(1) p(3) pn i by simp
      then show False using False by simp
    qed
    then show ?thesis using False by (simp add: storedD(2) [OF k'(3)] snapshot_copy_def)
  qed
  then show ?thesis using k' storedD(5) [OF k'(3)] unfolding heap_ok_def by blast
qed

lemma heap_only_refl: "heap_only k k"
  unfolding heap_only_def by (intro exI [of _ "pmem k"] exI [of _ "pmm_buddy k"] exI [of _ "heap_virtual_top k"] exI [of _ "buckets k"]) simp

text \<open>\<^verbatim>\<open>krealloc\<close> also gives a file without a block its first one.\<close>

lemma grow_block:
  assumes ok: "heap_ok k used" and d: "used d = Some bn \<or> d = NULL \<and> bn = 0" and rs0: "rs \<noteq> 0"
    and km: "kmalloc rs k = Some (p, k1)" and al: "allocated k used K rs p pn k1"
  shows "\<exists>(old :: u64) k2. unat old \<le> bn \<and> unat old \<le> 4096 \<and> (bn \<le> 2048 \<longrightarrow> unat old = bn) \<and> krealloc d rs k = Some (p, k2)
    \<and> heap_ok k2 (used(p \<mapsto> pn, d := None)) \<and> kept k (used(d := None)) k2 \<and> heap_only k k2
    \<and> (\<forall>i < pn. hmem k2 (p + of_nat i) = (if i < min (unat old) (unat rs) then hmem k (d + of_nat i) else hmem k1 (p + of_nat i)))"
proof (cases "used d = Some bn")
  case True
  show ?thesis using krealloc_spec [OF True rs0 km al] by blast
next
  case False
  then have d0: "d = NULL" "bn = 0" using d by auto
  obtain L sl fr where inv: "heap_inv k L sl fr used" using ok by (auto simp: heap_ok_def)
  have u0: "used NULL = None" using used_block(3) [OF inv, of NULL] by (cases "used NULL") auto
  have a: "p \<noteq> NULL" "heap_ok k1 (used(p \<mapsto> pn))" "kept k used k1" "heap_only k k1" using al unfolding allocated_def by blast+
  have e: "used(p \<mapsto> pn, d := None) = used(p \<mapsto> pn)" "used(d := None) = used" using u0 a(1) d0(1) by (auto simp: fun_eq_iff)
  have "krealloc d rs k = Some (p, k1)" using km d0(1) by (simp add: krealloc_def)
  then show ?thesis using a d0 unfolding e by (intro exI [of _ 0] exI [of _ k1]) simp
qed

lemma write_in_place:
  assumes bk: "backed k used nd n bn" and q: "used q = Some qn" "unat sz \<le> qn" "q \<noteq> node_data n"
    and fits: "unat offset + unat sz \<le> unat (node_size n)"
  shows "\<exists>k'. mem_vfs_write nd q sz offset k = Some (ucast sz, k') \<and> heap_ok k' used \<and> nodes k' nd = Some n \<and>
    (\<forall>i < bn. hmem k' (node_data n + of_nat i) =
       (if unat offset \<le> i \<and> i < unat offset + unat sz then hmem k (q + of_nat (i - unat offset)) else hmem k (node_data n + of_nat i)))"
proof -
  note b = bk [unfolded backed_def]
  have ok: "heap_ok k used" and nd: "nodes k nd = Some n" "nd \<noteq> NULL" and len: "unat offset + unat sz \<le> bn"
    using b fits by auto
  obtain L sl fr where inv: "heap_inv k L sl fr used" using ok by (auto simp: heap_ok_def)
  have q0: "q \<noteq> NULL" by (rule used_block(3) [OF inv q(1)])
  obtain k' where k': "heap_memcpy (node_data n + offset) q sz k = Some k'" "heap_ok k' used" "heap_only k k'"
      "\<forall>i < bn. hmem k' (node_data n + of_nat i) =
       (if unat offset \<le> i \<and> i < unat offset + unat sz then hmem k (q + of_nat (i - unat offset)) else hmem k (node_data n + of_nat i))"
  proof (cases "used (node_data n) = Some bn")
    case True
    from copy_in [OF ok q(1,2) True q(3) [symmetric] len] show ?thesis using that by blast
  next
    case False
    then have "bn = 0" using b by simp
    then have "heap_memcpy (node_data n + offset) q sz k = Some k" using len by (simp add: heap_memcpy_def)
    then show ?thesis using that ok heap_only_refl [of k] \<open>bn = 0\<close> by simp
  qed
  have "unat (offset + sz) = unat offset + unat sz" using unat_add_no_wrap [of offset "unat sz"] fits unat_bound [of "node_size n"] by simp
  then have "\<not> node_size n < offset + sz" using fits by (simp add: word_less_nat_alt)
  then have "mem_vfs_write nd q sz offset k = Some (ucast sz, k')" using nd q0 k'(1) by (simp add: mem_vfs_write_def Let_def)
  then show ?thesis using k'(2,4) nd(1) heap_only_nodes(1) [OF k'(3)] by auto
qed

lemma write_growing:
  assumes bk: "backed k used nd n bn" and q: "used q = Some qn" "unat sz \<le> qn" "q \<noteq> node_data n"
    and grow: "unat (node_size n) < unat (offset + sz)" "unat offset + unat sz < 2 ^ 64"
    and room: "heap_room k (pages_for (offset + sz))" "4 * pages_for (offset + sz) \<le> card (free_frames k)"
  shows "\<exists>k' p pn old h. mem_vfs_write nd q sz offset k = Some (ucast sz, k') \<and> heap_ok k' (used(p \<mapsto> pn, node_data n := None)) \<and>
    nodes k' nd = Some (n\<lparr>node_data := p, node_size := offset + sz\<rparr>) \<and> unat (offset + sz) \<le> pn \<and> p \<noteq> node_data n \<and> used p = None \<and>
    old \<le> bn \<and> old \<le> 4096 \<and> (bn \<le> 2048 \<longrightarrow> old = bn) \<and> (2048 < unat (offset + sz) \<longrightarrow> (\<forall>i < unat (offset + sz). h i = 0)) \<and>
    (\<forall>i < unat (offset + sz). hmem k' (p + of_nat i) =
       (if unat offset \<le> i \<and> i < unat offset + unat sz then hmem k (q + of_nat (i - unat offset))
        else if i < old then hmem k (node_data n + of_nat i) else h i))"
proof -
  define rs where "rs = offset + sz"
  note b = bk [unfolded backed_def]
  have ok: "heap_ok k used" and nd: "nodes k nd = Some n" "nd \<noteq> NULL" and d: "used (node_data n) = Some bn \<or> node_data n = NULL \<and> bn = 0" using b by auto
  obtain L sl fr where inv: "heap_inv k L sl fr used" using ok by (auto simp: heap_ok_def)
  have q0: "q \<noteq> NULL" by (rule used_block(3) [OF inv q(1)])
  have rs: "unat rs = unat offset + unat sz" using unat_add_no_wrap [of offset "unat sz"] grow(2) by (simp add: rs_def)
  have rs0: "rs \<noteq> 0" using grow(1) by (auto simp: rs_def)
  obtain p k1 where km: "kmalloc rs k = Some (p, k1)" using kmalloc_spec(2) [OF ok rs0] room by (auto simp: rs_def)
  obtain pn where al: "allocated k used (pages_for rs) rs p pn k1" using kmalloc_spec(1) [OF ok rs0 _ km] room(1) by (auto simp: rs_def)
  have a: "p \<noteq> NULL" "unat rs \<le> pn" "used p = None" using al unfolding allocated_def by blast+
  obtain old :: u64 and k2 where r: "unat old \<le> bn" "unat old \<le> 4096" "bn \<le> 2048 \<longrightarrow> unat old = bn" "krealloc (node_data n) rs k = Some (p, k2)"
      "heap_ok k2 (used(p \<mapsto> pn, node_data n := None))" "kept k (used(node_data n := None)) k2" "heap_only k k2"
      "\<forall>i < pn. hmem k2 (p + of_nat i) = (if i < min (unat old) (unat rs) then hmem k (node_data n + of_nat i) else hmem k1 (p + of_nat i))"
    using grow_block [OF ok d rs0 km al] by blast
  define n' where "n' = n\<lparr>node_data := p, node_size := rs\<rparr>"
  define k3 where "k3 = k2\<lparr>nodes := (nodes k2)(nd \<mapsto> n')\<rparr>"
  let ?u = "used(p \<mapsto> pn, node_data n := None)"
  have pd: "p \<noteq> node_data n" "p \<noteq> q" using a(1,3) d q(1) by auto
  have ok3: "heap_ok k3 ?u" using r(5) by (simp add: k3_def heap_ok_nodes)
  have qu: "?u q = Some qn" using q(1,3) pd(2) by simp
  have pu: "?u p = Some pn" using pd by simp
  have len: "unat offset + unat sz \<le> pn" using a(2) rs by simp
  obtain k' where k': "heap_memcpy (p + offset) q sz k3 = Some k'" "heap_ok k' ?u" "heap_only k3 k'"
      "\<forall>i < pn. hmem k' (p + of_nat i) =
       (if unat offset \<le> i \<and> i < unat offset + unat sz then hmem k3 (q + of_nat (i - unat offset)) else hmem k3 (p + of_nat i))"
    using copy_in [OF ok3 qu q(2) pu pd(2) len] by blast
  have nd2: "nodes k2 nd = Some n" using nd(1) heap_only_nodes(1) [OF r(7)] by simp
  have wr: "mem_vfs_write nd q sz offset k = Some (ucast sz, k')"
    using nd q0 nd2 grow(1) r(4) a(1) k'(1)
    by (simp add: mem_vfs_write_def Let_def word_less_nat_alt rs_def [symmetric] upd_node_def k3_def n'_def)
  have nd': "nodes k' nd = Some n'" using heap_only_nodes(1) [OF k'(3)] by (simp add: k3_def)

  define h where "h = (\<lambda>i. hmem k1 (p + of_nat i))"
  have m3: "hmem k3 = hmem k2" by (simp add: k3_def heap_ok_nodes)
  have qn: "qn \<le> 2 ^ 64" using used_extent [OF inv q(1)] by simp
  have buf: "hmem k2 (q + of_nat (i - unat offset)) = hmem k (q + of_nat (i - unat offset))" if "i < unat offset + unat sz" "unat offset \<le> i" for i
    by (rule keptD [OF r(6) _ _ qn]) (use q that in auto)
  have bytes: "\<forall>i < unat rs. hmem k' (p + of_nat i) =
       (if unat offset \<le> i \<and> i < unat offset + unat sz then hmem k (q + of_nat (i - unat offset))
        else if i < unat old then hmem k (node_data n + of_nat i) else h i)"
    using k'(4) r(8) a(2) buf by (auto simp: m3 h_def)
  have fresh: "2048 < unat rs \<longrightarrow> (\<forall>i < unat rs. h i = 0)"
    using kmalloc_large_fresh [OF inv _ _ km] room(1) by (simp add: h_def rs_def word_le_nat_alt)
  show ?thesis
    using wr nd' k'(2) a(2,3) pd(1) r(1-3) fresh bytes unfolding rs_def n'_def
    by (intro exI [of _ k'] exI [of _ p] exI [of _ pn] exI [of _ "unat old"] exI [of _ h] conjI)
qed

text \<open>The bytes a block holds, and what a file should hold after a write inside it or at its end.\<close>

definition bytes_at :: "'a slab_machine_scheme \<Rightarrow> ptr \<Rightarrow> nat \<Rightarrow> u8 list option" where
  "bytes_at k p n = those (map (\<lambda>i. load8 (p + of_nat i) k) [0..<n])"

definition splice :: "'b list \<Rightarrow> nat \<Rightarrow> 'b list \<Rightarrow> 'b list" where
  "splice c j b = take j c @ b @ drop (j + length b) c"

lemma those_somes: "those (map (\<lambda>i. Some (f i)) xs) = Some (map f xs)"
  by (induction xs) auto

lemma bytes_at_block:
  assumes ok: "heap_ok k used" and p: "used p = Some n" "m \<le> n"
  shows "bytes_at k p m = Some (map (\<lambda>i. hmem k (p + of_nat i)) [0..<m])"
proof -
  obtain L sl fr where inv: "heap_inv k L sl fr used" using ok by (auto simp: heap_ok_def)
  have "n \<le> 2 ^ 64" using used_extent [OF inv p(1)] by simp
  then have "in_block p n (p + of_nat i)" if "i < m" for i using in_block_offset that p(2) by simp
  then have "map (\<lambda>i. load8 (p + of_nat i) k) [0..<m] = map (\<lambda>i. Some (hmem k (p + of_nat i))) [0..<m]"
    using used_load [OF ok p(1)] p(2) by (auto intro!: map_cong)
  then show ?thesis by (simp add: bytes_at_def those_somes del: map_eq_conv)
qed

lemma backed_bytes:
  assumes "backed k used nd n bn"
  shows "bytes_at k (node_data n) (unat (node_size n)) = Some (map (\<lambda>i. hmem k (node_data n + of_nat i)) [0..<unat (node_size n)])"
proof (cases "used (node_data n) = Some bn")
  case True
  show ?thesis using bytes_at_block [of k used "node_data n" bn "unat (node_size n)"] True assms by (simp add: backed_def)
next
  case False
  then show ?thesis using assms by (auto simp: backed_def bytes_at_def)
qed

lemma splice_nth:
  assumes "j \<le> length c" "i < length (splice c j b)"
  shows "splice c j b ! i = (if i < j then c ! i else if i < j + length b then b ! (i - j) else c ! i)"
  using assms by (auto simp: splice_def nth_append min_def)

lemma splice_length: "j \<le> length c \<Longrightarrow> length (splice c j b) = max (length c) (j + length b)"
  by (simp add: splice_def)

text \<open>\<^verbatim>\<open>mem_vfs_write\<close> at an offset within the file splices the caller's bytes into it.\<close>

lemma write_splices:
  assumes bk: "backed k used nd n bn" and q: "used q = Some qn" "unat sz \<le> qn" "q \<noteq> node_data n" and off: "unat offset \<le> unat (node_size n)"
    and small: "unat offset + unat sz \<le> unat (node_size n) \<or> bn \<le> 2048 \<and> unat offset + unat sz < 2 ^ 64 \<and>
      heap_room k (pages_for (offset + sz)) \<and> 4 * pages_for (offset + sz) \<le> card (free_frames k)"
    and c: "bytes_at k (node_data n) (unat (node_size n)) = Some c" and b: "bytes_at k q (unat sz) = Some b"
  shows "\<exists>k' used' n' bn'. mem_vfs_write nd q sz offset k = Some (ucast sz, k') \<and> backed k' used' nd n' bn' \<and>
    bytes_at k' (node_data n') (unat (node_size n')) = Some (splice c (unat offset) b) \<and>
    (\<forall>r. r \<noteq> node_data n \<and> used r \<noteq> None \<longrightarrow> used' r = used r \<and> r \<noteq> node_data n')"
proof -
  note bd = bk [unfolded backed_def]
  have ok: "heap_ok k used" and d: "unat (node_size n) \<le> bn" and nd: "nd \<noteq> NULL" using bd by auto
  have ce: "c = map (\<lambda>i. hmem k (node_data n + of_nat i)) [0..<unat (node_size n)]" using c backed_bytes [OF bk] by simp
  have be: "b = map (\<lambda>i. hmem k (q + of_nat i)) [0..<unat sz]" using b bytes_at_block [OF ok q(1,2)] by simp
  have len: "length c = unat (node_size n)" "length b = unat sz" by (simp_all add: ce be)
  note sn = splice_nth [of "unat offset" c _ b] and sl = splice_length [of "unat offset" c b]
  show ?thesis
  proof (cases "unat offset + unat sz \<le> unat (node_size n)")
    case True
    from write_in_place [OF bk q True] obtain k' where k': "mem_vfs_write nd q sz offset k = Some (ucast sz, k')" "heap_ok k' used" "nodes k' nd = Some n"
      "\<forall>i < bn. hmem k' (node_data n + of_nat i) =
       (if unat offset \<le> i \<and> i < unat offset + unat sz then hmem k (q + of_nat (i - unat offset)) else hmem k (node_data n + of_nat i))" by blast
    have "map (\<lambda>i. hmem k' (node_data n + of_nat i)) [0..<unat (node_size n)] = splice c (unat offset) b"
      using sl off True len by (intro nth_equalityI) (use k'(4) d sn in \<open>auto simp: ce be\<close>)
    moreover have bk': "backed k' used nd n bn" using k'(2,3) bd by (simp add: backed_def)
    ultimately have "bytes_at k' (node_data n) (unat (node_size n)) = Some (splice c (unat offset) b)" using backed_bytes by metis
    then show ?thesis using k'(1) bk' by blast
  next
    case False
    then have sm: "bn \<le> 2048" "unat offset + unat sz < 2 ^ 64" "heap_room k (pages_for (offset + sz))" "4 * pages_for (offset + sz) \<le> card (free_frames k)"
      using small by auto
    have rs: "unat (offset + sz) = unat offset + unat sz" using unat_add_no_wrap [of offset "unat sz"] sm(2) by simp
    have gr: "unat (node_size n) < unat (offset + sz)" using False rs by simp
    from write_growing [OF bk q gr sm(2-4)] obtain k' p pn old h where k': "mem_vfs_write nd q sz offset k = Some (ucast sz, k')"
      "heap_ok k' (used(p \<mapsto> pn, node_data n := None))" "nodes k' nd = Some (n\<lparr>node_data := p, node_size := offset + sz\<rparr>)"
      "unat (offset + sz) \<le> pn" "p \<noteq> node_data n" "bn \<le> 2048 \<longrightarrow> old = bn" "used p = None"
      "\<forall>i < unat (offset + sz). hmem k' (p + of_nat i) =
       (if unat offset \<le> i \<and> i < unat offset + unat sz then hmem k (q + of_nat (i - unat offset))
        else if i < old then hmem k (node_data n + of_nat i) else h i)" by blast
    let ?n = "n\<lparr>node_data := p, node_size := offset + sz\<rparr>" and ?u = "used(p \<mapsto> pn, node_data n := None)"
    have pu: "?u p = Some pn" using k'(5) by simp
    have old: "old = bn" using sm(1) k'(6) by simp
    have "map (\<lambda>i. hmem k' (p + of_nat i)) [0..<unat (offset + sz)] = splice c (unat offset) b"
      using sl off gr len rs by (intro nth_equalityI) (use k'(8) d old sn in \<open>auto simp: ce be\<close>)
    then have "bytes_at k' (node_data ?n) (unat (node_size ?n)) = Some (splice c (unat offset) b)" using bytes_at_block [OF k'(2) pu k'(4)] by simp
    moreover have "backed k' ?u nd ?n pn" using k'(2-5) nd by (simp add: backed_def)
    moreover have "\<forall>r. r \<noteq> node_data n \<and> used r \<noteq> None \<longrightarrow> ?u r = used r \<and> r \<noteq> node_data ?n" using k'(7) by auto
    ultimately show ?thesis using k'(1) by blast
  qed
qed

text \<open>\<^verbatim>\<open>mem_vfs_read\<close> returns the part of the file that is there.\<close>

lemma read_gives:
  assumes bk: "backed k used nd n bn" and r: "used r = Some rn" "unat len \<le> rn" "r \<noteq> node_data n"
    and s: "unat start + unat len < 2 ^ 64" and c: "bytes_at k (node_data n) (unat (node_size n)) = Some c"
  shows "\<exists>k'. mem_vfs_read nd r len start k = Some (of_nat (length (take (unat len) (drop (unat start) c))), k') \<and>
    bytes_at k' r (length (take (unat len) (drop (unat start) c))) = Some (take (unat len) (drop (unat start) c))"
proof -
  note bd = bk [unfolded backed_def]
  have ok: "heap_ok k used" and nd: "nd \<noteq> NULL" "nodes k nd = Some n" using bd by auto
  obtain L sl fr where inv: "heap_inv k L sl fr used" using ok by (auto simp: heap_ok_def)
  have nn: "r \<noteq> NULL" by (rule used_block(3) [OF inv r(1)])
  have ce: "c = map (\<lambda>i. hmem k (node_data n + of_nat i)) [0..<unat (node_size n)]" using c backed_bytes [OF bk] by simp
  show ?thesis
  proof (cases "node_size n \<le> start")
    case True
    then have "drop (unat start) c = []" by (simp add: ce word_le_nat_alt)
    then show ?thesis using True nn nd by (simp add: mem_vfs_read_def bytes_at_def)
  next
    case False
    have "node_size n \<noteq> 0" using False by auto
    then have d: "used (node_data n) = Some bn" "unat (node_size n) \<le> bn" using bd by (auto simp: unat_eq_0)
    have dn: "node_data n \<noteq> NULL" by (rule used_block(3) [OF inv d(1)])
    define m where "m = min (unat len) (unat (node_size n) - unat start)"
    have st: "unat start < unat (node_size n)" using False by (simp add: word_le_nat_alt)
    have m: "m \<le> rn" "unat start + m \<le> bn" "m < 2 ^ 64" using r(2) d(2) st unat_bound [of len] by (auto simp: m_def)
    have ml: "m = length (take (unat len) (drop (unat start) c))" by (simp add: ce m_def)
    have "unat (start + len) = unat start + unat len" using unat_add_no_wrap [of start "unat len"] s by simp
    moreover have "unat (node_size n - start) = unat (node_size n) - unat start" using st by (simp add: unat_sub word_le_nat_alt)
    ultimately have "m = unat (if start + len > node_size n then node_size n - start else len)"
      using st by (auto simp: m_def word_less_nat_alt)
    then have tr: "(if start + len > node_size n then node_size n - start else len) = of_nat m" by simp
    obtain k' where k': "heap_memcpy (r + of_nat 0) (node_data n + of_nat (unat start)) (of_nat m) k = Some k'" "heap_inv k' L sl fr used"
      "stored k L (snapshot_copy (hmem k) (r + of_nat 0) (node_data n + of_nat (unat start)) m) k'"
      using copy_region [OF inv d(1) r(1,3), of "unat start" m 0] m by auto
    have rd: "mem_vfs_read nd r len start k = Some (of_nat m, k')"
      using nd nn dn False k'(1) tr m(3) by (simp add: mem_vfs_read_def Let_def unsigned_of_nat take_bit_nat_eq_self)
    have "hmem k' (r + of_nat i) = hmem k (node_data n + of_nat (unat start + i))" if "i < m" for i
      using that m(3) by (simp add: storedD(2) [OF k'(3)] snapshot_copy_def in_block_def add.assoc)
    then have "map (\<lambda>i. hmem k' (r + of_nat i)) [0..<m] = take (unat len) (drop (unat start) c)"
      by (intro nth_equalityI) (auto simp: ml [symmetric], auto simp: ce m_def add.assoc)
    moreover have "heap_ok k' used" using k'(2) by (auto simp: heap_ok_def)
    ultimately show ?thesis using rd bytes_at_block [of k' used r rn m] r(1) m(1) ml by auto
  qed
qed

section \<open>Properties\<close>

text \<open>Two blocks beside the root directory of a freshly booted system.\<close>

lemma boot_buffers:
  fixes a b :: u64
  assumes "a \<noteq> 0" "b \<noteq> 0" "pages_for a \<le> 10" "pages_for b \<le> 10"
  shows "\<exists>(k :: vfs_machine) used q r m n. heap_budget k 20 used \<and> used q = Some m \<and> used r = Some n \<and> q \<noteq> r \<and> unat a \<le> m \<and> unat b \<le> n"
proof -
  obtain k :: vfs_machine and used where "nodes_used k 40 used" using boot_vfs [where ?'a = unit] by blast
  then have "heap_budget k ((40 - pages_for a) + pages_for a) used" using assms(3) by (simp add: nodes_used_def)
  from slabs.alloc_ok [OF this assms(1)] obtain q m and k1 :: vfs_machine where
    1: "unat a \<le> m" "heap_budget k1 (40 - pages_for a) (used(q \<mapsto> m))" by blast
  then have "heap_budget k1 ((40 - pages_for a - pages_for b) + pages_for b) (used(q \<mapsto> m))" using assms(3,4) by simp
  from slabs.alloc_ok [OF this assms(2)] obtain r n and k2 :: vfs_machine where
    2: "(used(q \<mapsto> m)) r = None" "unat b \<le> n" "heap_budget k2 (40 - pages_for a - pages_for b) (used(q \<mapsto> m, r \<mapsto> n))" by blast
  have "q \<noteq> r" using 2(1) by auto
  then have u: "(used(q \<mapsto> m, r \<mapsto> n)) q = Some m" "(used(q \<mapsto> m, r \<mapsto> n)) r = Some n" by simp_all
  have "heap_budget k2 20 (used(q \<mapsto> m, r \<mapsto> n))" using 2(3) assms(3,4) unfolding heap_budget_def heap_room_def by linarith
  then show ?thesis using u \<open>q \<noteq> r\<close> 1(1) 2(2) by blast
qed

text \<open>
  C31: A write to a memory-backed file that starts inside the file or at its end, and either stays
  inside it or finds a block of at most 2048 bytes (or none, in a new file) and heap space to grow
  it, followed by a read of any range: the write reports its length, the read returns exactly the part of the range that lies inside the file, and
  the bytes read are those of the old contents with the written bytes spliced in.
\<close>

theorem mem_vfs_write_read:
  assumes "backed k used nd n bn" "bytes_at k (node_data n) (unat (node_size n)) = Some c"
    and "used q = Some qn" "unat sz \<le> qn" "q \<noteq> node_data n" "bytes_at k q (unat sz) = Some b"
    and "used r = Some rn" "unat len \<le> rn" "r \<noteq> node_data n" "unat start + unat len < 2 ^ 64"
    and "unat offset \<le> unat (node_size n)"
    and "unat offset + unat sz \<le> unat (node_size n) \<or> bn \<le> 2048 \<and> unat offset + unat sz < 2 ^ 64 \<and>
      heap_room k (pages_for (offset + sz)) \<and> 4 * pages_for (offset + sz) \<le> card (free_frames k)"
    and "s = take (unat len) (drop (unat start) (take (unat offset) c @ b @ drop (unat offset + length b) c))"
  shows "\<exists>k1 k2. mem_vfs_write nd q sz offset k = Some (ucast sz, k1) \<and>
    mem_vfs_read nd r len start k1 = Some (of_nat (length s), k2) \<and> bytes_at k2 r (length s) = Some s"
proof -
  obtain k1 used1 n1 bn1 where w: "mem_vfs_write nd q sz offset k = Some (ucast sz, k1)" "backed k1 used1 nd n1 bn1"
      "bytes_at k1 (node_data n1) (unat (node_size n1)) = Some (splice c (unat offset) b)"
      "\<forall>r. r \<noteq> node_data n \<and> used r \<noteq> None \<longrightarrow> used1 r = used r \<and> r \<noteq> node_data n1"
    using write_splices [OF assms(1,3-5,11,12,2,6)] by blast
  have r: "used1 r = Some rn" "r \<noteq> node_data n1" using w(4) assms(7,9) by auto
  obtain k2 where "mem_vfs_read nd r len start k1 = Some (of_nat (length s), k2)" "bytes_at k2 r (length s) = Some s"
    using read_gives [OF w(2) r(1) assms(8) r(2) assms(10) w(3)] unfolding assms(13) splice_def by blast
  then show ?thesis using w(1) by blast
qed

theorem mem_vfs_write_read_witness:
  "\<exists>(k :: vfs_machine) nd q r b k1 k2. bytes_at k q 100 = Some b \<and> mem_vfs_write nd q 100 0 k = Some (100, k1) \<and>
    mem_vfs_read nd r 300 0 k1 = Some (100, k2) \<and> bytes_at k2 r 100 = Some b"
proof -
  obtain k0 :: vfs_machine and used q r m j where b: "heap_budget k0 20 used" "used q = Some m" "used r = Some j" "unat (100 :: u64) \<le> m" "unat (300 :: u64) \<le> j"
    using boot_buffers [of 100 300] by (auto simp: pages_for_def)
  define k where "k = k0\<lparr>nodes := [1 \<mapsto> new_node [] VFS_FILE]\<rparr>"
  have "heap_budget k 20 used" using b(1) heap_budget_cong [of k k0 20 used] by (simp add: k_def)
  then have ok: "heap_ok k used" and room: "heap_room k (pages_for (0 + 100))" "4 * pages_for (0 + 100) \<le> card (free_frames k)"
    by (simp_all add: heap_budget_def heap_room_def pages_for_def)
  obtain L sl fr where inv: "heap_inv k L sl fr used" using ok by (auto simp: heap_ok_def)
  have q0: "q \<noteq> NULL" "r \<noteq> NULL" using used_block(3) [OF inv] b(2,3) by blast+
  let ?n = "new_node [] VFS_FILE"
  have n: "node_data ?n = NULL" "node_size ?n = 0" by (simp_all add: new_node_def)
  have bk: "backed k used 1 ?n 0" using ok by (simp add: backed_def k_def n)
  have c: "bytes_at k (node_data ?n) (unat (node_size ?n)) = Some []" by (simp add: n bytes_at_def)
  obtain bs where bs: "bytes_at k q (unat (100 :: u64)) = Some bs" "length bs = 100" using bytes_at_block [OF ok b(2,4)] by simp
  obtain k1 k2 where "mem_vfs_write 1 q 100 0 k = Some (ucast (100 :: u64), k1)" "mem_vfs_read 1 r 300 0 k1 = Some (of_nat (length bs), k2)" "bytes_at k2 r (length bs) = Some bs"
    using mem_vfs_write_read [OF bk c b(2,4) _ bs(1) b(3,5), of 0 0 bs] q0 room bs(2) by (auto simp: n)
  then show ?thesis using bs
    by (intro exI [of _ k] exI [of _ 1] exI [of _ q] exI [of _ r] exI [of _ bs] exI [of _ k1] exI [of _ k2]) simp
qed

text \<open>
  C32: Appending to a memory-backed file of more than 4096 bytes destroys it: the write succeeds, and
  afterwards every byte of the old contents from offset 4096 on reads as zero.
\<close>

theorem mem_vfs_append_destroys:
  assumes "backed k used nd n bn" "used q = Some qn" "unat sz \<le> qn" "q \<noteq> node_data n" "sz \<noteq> 0"
    and "4096 < unat (node_size n)" "unat (node_size n) + unat sz < 2 ^ 64"
    and "heap_room k (pages_for (node_size n + sz))" "4 * pages_for (node_size n + sz) \<le> card (free_frames k)"
  shows "\<exists>k' n'. mem_vfs_write nd q sz (node_size n) k = Some (ucast sz, k') \<and> nodes k' nd = Some n' \<and> node_size n' = node_size n + sz \<and>
    (\<forall>i. 4096 \<le> i \<and> i < unat (node_size n) \<longrightarrow> load8 (node_data n' + of_nat i) k' = Some 0)"
proof -
  let ?s = "node_size n"
  have rs: "unat (?s + sz) = unat ?s + unat sz" using unat_add_no_wrap [of ?s "unat sz"] assms(7) by simp
  moreover have "0 < unat sz" using assms(5) by (simp add: unat_gt_0)
  ultimately have grow: "unat ?s < unat (?s + sz)" by simp
  obtain k' p pn old h where w: "mem_vfs_write nd q sz ?s k = Some (ucast sz, k')" "heap_ok k' (used(p \<mapsto> pn, node_data n := None))"
    "nodes k' nd = Some (n\<lparr>node_data := p, node_size := ?s + sz\<rparr>)" "unat (?s + sz) \<le> pn" "p \<noteq> node_data n"
    "old \<le> 4096" "2048 < unat (?s + sz) \<longrightarrow> (\<forall>i < unat (?s + sz). h i = 0)"
    "\<forall>i < unat (?s + sz). hmem k' (p + of_nat i) =
       (if unat ?s \<le> i \<and> i < unat ?s + unat sz then hmem k (q + of_nat (i - unat ?s))
        else if i < old then hmem k (node_data n + of_nat i) else h i)"
    using write_growing [OF assms(1-4) grow assms(7-9)] by blast
  have u: "(used(p \<mapsto> pn, node_data n := None)) p = Some pn" using w(5) by simp
  have "load8 (p + of_nat i) k' = Some 0" if i: "4096 \<le> i" "i < unat ?s" for i
  proof -
    have "i < 2 ^ 64" using i(2) unat_bound [of ?s] by simp
    then have "in_block p pn (p + of_nat i)" using i(2) grow w(4) by (simp add: in_block_def)
    from used_load [OF w(2) u this] show ?thesis using w(6-8) i grow assms(6) by simp
  qed
  then show ?thesis using w(1,3) by auto
qed

theorem mem_vfs_append_destroys_witness:
  "\<exists>(k :: vfs_machine) nd q k' n n'. nodes k nd = Some n \<and> node_size n = 8000 \<and> mem_vfs_write nd q 100 8000 k = Some (100, k') \<and>
    nodes k' nd = Some n' \<and> node_size n' = 8100 \<and> load8 (node_data n' + 5000) k' = Some 0"
proof -
  obtain k0 :: vfs_machine and used q r m j where b: "heap_budget k0 20 used" "used q = Some m" "used r = Some j" "q \<noteq> r" "unat (100 :: u64) \<le> m" "unat (8000 :: u64) \<le> j"
    using boot_buffers [of 100 8000] by (auto simp: pages_for_def)
  let ?n = "(new_node [] VFS_FILE)\<lparr>node_data := r, node_size := 8000\<rparr>"
  define k where "k = k0\<lparr>nodes := [1 \<mapsto> ?n]\<rparr>"
  have "heap_budget k 20 used" using b(1) heap_budget_cong [of k k0 20 used] by (simp add: k_def)
  then have ok: "heap_ok k used" and room: "heap_room k (pages_for (8000 + 100))" "4 * pages_for (8000 + 100) \<le> card (free_frames k)"
    by (simp_all add: heap_budget_def heap_room_def pages_for_def)
  have bk: "backed k used 1 ?n j" using ok b(3,6) by (simp add: backed_def k_def)
  obtain k' n' where w: "mem_vfs_write 1 q 100 8000 k = Some (ucast (100 :: u64), k')" "nodes k' 1 = Some n'" "node_size n' = 8100"
      "\<forall>i. 4096 \<le> i \<and> i < unat (8000 :: u64) \<longrightarrow> load8 (node_data n' + of_nat i) k' = Some 0"
    using mem_vfs_append_destroys [OF bk b(2,5)] b(4) room by auto
  have "load8 (node_data n' + of_nat 5000) k' = Some 0" by (intro w(4) [rule_format]) simp
  then have "load8 (node_data n' + 5000) k' = Some 0" by simp
  moreover have "nodes k 1 = Some ?n" "node_size ?n = 8000" by (simp_all add: k_def)
  ultimately show ?thesis using w(1-3)
    by (intro exI [of _ k] exI [of _ 1] exI [of _ q] exI [of _ k'] exI [of _ ?n] exI [of _ n']) simp
qed

end
