(* ===== verification/Vfse.thy ===== *)
theory Vfse
  imports Vfs_Files Ring
begin

text \<open>
  The extended VFS (\<^verbatim>\<open>src/lib/libc/fs/vfse.c\<close>, \<^verbatim>\<open>src/lib/libc/include/vfse.h\<close>): open files with
  reference counts, a table of 256 descriptors, a working directory and pipes, on top of the node
  tree of \<^verbatim>\<open>Vfs_Tree\<close> and the heap of \<^verbatim>\<open>Slab_Heap\<close>. Every function of the file is modelled. The
  first group of lemmas shows that the reference counts stay exact under open, close, dup, dup2,
  fcntl and chdir in any order; the second that a pipe is a queue of bytes between the buffers
  of its two users, and what closing one end does to the other.
\<close>

section \<open>Definitions\<close>

definition VFSE_O_WRONLY :: u32 where "VFSE_O_WRONLY = 0x0001"
definition VFSE_O_RDWR :: u32 where "VFSE_O_RDWR = 0x0002"
definition VFSE_O_APPEND :: u32 where "VFSE_O_APPEND = 0x0400"
definition VFSE_O_DIRECTORY :: u32 where "VFSE_O_DIRECTORY = 0x10000"
definition VFSE_MAX_FDS :: nat where "VFSE_MAX_FDS = 256"

record vfse_pipe_t =
  pipe_buffer :: ptr
  pipe_size :: u64
  read_pos :: u64
  write_pos :: u64
  read_closed :: bool
  write_closed :: bool

record vfse_file_t =
  file_node :: ptr
  file_pos :: u64
  file_flags :: u32
  fd_flags :: u32
  ref_count :: int
  file_pipe :: ptr

record vfse_process_t =
  fds :: "ptr list"
  cwd :: "u8 list"
  next_fd :: int

text \<open>
  The open files, the pipes and the descriptor table beside the machine; \<^verbatim>\<open>vfse_current\<close> is null or
  points to the only table there is. Releasing a structure removes it, so that a later use has
  no result.
\<close>

record vfse_machine = vfs_machine +
  vfse_files :: "ptr \<rightharpoonup> vfse_file_t"
  pipes :: "ptr \<rightharpoonup> vfse_pipe_t"
  vfse_current :: "vfse_process_t option"

definition sizeof_vfse_file_t :: u64 where "sizeof_vfse_file_t = 48"
definition sizeof_vfse_pipe :: u64 where "sizeof_vfse_pipe = 40"
definition sizeof_vfse_process_t :: u64 where "sizeof_vfse_process_t = 6152"

definition upd_file :: "ptr \<Rightarrow> (vfse_file_t \<Rightarrow> vfse_file_t) \<Rightarrow> 'a vfse_machine_scheme \<Rightarrow> 'a vfse_machine_scheme option" where
  "upd_file p f k = map_option (\<lambda>n. k\<lparr>vfse_files := (vfse_files k)(p \<mapsto> f n)\<rparr>) (vfse_files k p)"

definition upd_pipe :: "ptr \<Rightarrow> (vfse_pipe_t \<Rightarrow> vfse_pipe_t) \<Rightarrow> 'a vfse_machine_scheme \<Rightarrow> 'a vfse_machine_scheme option" where
  "upd_pipe p f k = map_option (\<lambda>n. k\<lparr>pipes := (pipes k)(p \<mapsto> f n)\<rparr>) (pipes k p)"

subsection \<open>Files and descriptors\<close>

definition zero_file :: vfse_file_t where
  "zero_file = \<lparr>file_node = NULL, file_pos = 0, file_flags = 0, fd_flags = 0, ref_count = 0, file_pipe = NULL\<rparr>"

definition vfse_alloc_file :: "'a vfse_machine_scheme \<Rightarrow> (ptr \<times> 'a vfse_machine_scheme) option" where
  "vfse_alloc_file k = do {
     (f, k1) \<leftarrow> kmalloc sizeof_vfse_file_t k;
     if f = NULL then Some (NULL, k1)
     else do {
       k2 \<leftarrow> heap_memset f 0 sizeof_vfse_file_t k1;
       Some (f, k2\<lparr>vfse_files := (vfse_files k2)(f \<mapsto> zero_file)\<rparr>) } }"

definition free_pipe :: "ptr \<Rightarrow> 'a vfse_machine_scheme \<Rightarrow> 'a vfse_machine_scheme option" where
  "free_pipe p k = do {
     pp \<leftarrow> pipes k p;
     k1 \<leftarrow> (if pipe_buffer pp \<noteq> NULL then kfree (pipe_buffer pp) k else Some k);
     k2 \<leftarrow> kfree p k1;
     Some (k2\<lparr>pipes := (pipes k2)(p := None)\<rparr>) }"

definition vfse_free_file :: "ptr \<Rightarrow> 'a vfse_machine_scheme \<Rightarrow> 'a vfse_machine_scheme option" where
  "vfse_free_file f k =
     (if f = NULL then Some k
      else do {
        ff \<leftarrow> vfse_files k f;
        k1 \<leftarrow> (if file_pipe ff \<noteq> NULL then free_pipe (file_pipe ff) k else Some k);
        k2 \<leftarrow> kfree f k1;
        Some (k2\<lparr>vfse_files := (vfse_files k2)(f := None)\<rparr>) })"

text \<open>The first empty slot of a range of the table.\<close>

definition empty_slot :: "vfse_process_t \<Rightarrow> int \<Rightarrow> int \<Rightarrow> nat option" where
  "empty_slot pr a b = find (\<lambda>i. fds pr ! i = NULL) [nat a..<nat b]"

definition vfse_alloc_fd :: "ptr \<Rightarrow> 'a vfse_machine_scheme \<Rightarrow> int \<times> 'a vfse_machine_scheme" where
  "vfse_alloc_fd f k =
     (case vfse_current k of
        None \<Rightarrow> (- 1, k)
      | Some pr \<Rightarrow>
          let take_slot = (\<lambda>i. (int i, k\<lparr>vfse_current := Some (pr\<lparr>fds := (fds pr)[i := f], next_fd := int i + 1\<rparr>)\<rparr>))
          in case empty_slot pr (next_fd pr) (int VFSE_MAX_FDS) of
               Some i \<Rightarrow> take_slot i
             | None \<Rightarrow> case empty_slot pr 3 (next_fd pr) of Some i \<Rightarrow> take_slot i | None \<Rightarrow> (- 1, k))"

definition vfse_free_fd :: "int \<Rightarrow> 'a vfse_machine_scheme \<Rightarrow> 'a vfse_machine_scheme option" where
  "vfse_free_fd fd k =
     (if fd < 0 \<or> fd \<ge> int VFSE_MAX_FDS then Some k
      else case vfse_current k of
        None \<Rightarrow> Some k
      | Some pr \<Rightarrow>
          let f = fds pr ! nat fd
          in if f = NULL then Some k
             else do {
               k1 \<leftarrow> upd_file f (\<lambda>ff. ff\<lparr>ref_count := ref_count ff - 1\<rparr>) k;
               ff \<leftarrow> vfse_files k1 f;
               k2 \<leftarrow> (if ref_count ff \<le> 0 then vfse_free_file f k1 else Some k1);
               Some (k2\<lparr>vfse_current := Some (pr\<lparr>fds := (fds pr)[nat fd := NULL], next_fd := min fd (next_fd pr)\<rparr>)\<rparr>) })"

definition vfse_get_file :: "int \<Rightarrow> 'a vfse_machine_scheme \<Rightarrow> ptr" where
  "vfse_get_file fd k =
     (if fd < 0 \<or> fd \<ge> int VFSE_MAX_FDS then NULL
      else case vfse_current k of None \<Rightarrow> NULL | Some pr \<Rightarrow> fds pr ! nat fd)"

subsection \<open>Paths and attributes\<close>

definition vfse_resolve_path :: "cstring \<Rightarrow> u64 \<Rightarrow> 'a vfse_machine_scheme \<Rightarrow> cstring" where
  "vfse_resolve_path path out_len k =
     (case path of
        None \<Rightarrow> None
      | Some s \<Rightarrow>
          if out_len < 2 then None
          else if s \<noteq> [] \<and> hd s = slash then Some (take (unat (out_len - 1)) s)
          else case vfse_current k of
            None \<Rightarrow> Some [slash]
          | Some pr \<Rightarrow>
              if cwd pr = [] then Some [slash]
              else if length (cwd pr) \<ge> unat (out_len - 1) then None
              else let c = (if last (cwd pr) \<noteq> slash then cwd pr @ [slash] else cwd pr)
                   in Some (c @ take (unat out_len - length c - 1) s))"

definition path_max :: u64 where "path_max = 4096"

record vfse_stat_t =
  st_dev :: u32
  st_ino :: u32
  st_mode :: u32
  st_nlink :: u32
  st_uid :: u32
  st_gid :: u32
  st_rdev :: u32
  st_size :: u64
  st_atime :: u64
  st_mtime :: u64
  st_ctime :: u64
  st_blksize :: u32
  st_blocks :: u64

primrec type_bits :: "vfs_type \<Rightarrow> u32" where
  "type_bits VFS_DIRECTORY = 0x4000"
| "type_bits VFS_FILE = 0x8000"
| "type_bits VFS_DEVICE = 0x2000"
| "type_bits VFS_SYMLINK = 0xA000"

definition vfse_fill_stat :: "ptr \<Rightarrow> vfs_node_t \<Rightarrow> vfse_stat_t" where
  "vfse_fill_stat nd n =
     \<lparr>st_dev = 0, st_ino = ucast nd, st_mode = type_bits (node_type n) OR (node_mode n AND 0x1FF), st_nlink = 1,
      st_uid = node_uid n, st_gid = node_gid n, st_rdev = 0, st_size = node_size n, st_atime = 0, st_mtime = 0, st_ctime = 0,
      st_blksize = 4096, st_blocks = (node_size n + 511) div 512\<rparr>"

subsection \<open>Open, close, read and write\<close>

definition vfse_init :: "'a vfse_machine_scheme \<Rightarrow> 'a vfse_machine_scheme option" where
  "vfse_init k = do {
     (p, k1) \<leftarrow> kmalloc sizeof_vfse_process_t k;
     if p = NULL then Some (k1\<lparr>vfse_current := None\<rparr>)
     else do {
       k2 \<leftarrow> heap_memset p 0 sizeof_vfse_process_t k1;
       Some (k2\<lparr>vfse_current := Some \<lparr>fds = replicate VFSE_MAX_FDS NULL, cwd = [slash], next_fd = 3\<rparr>\<rparr>) } }"

definition vfse_open ::
    "('a vfse_machine_scheme) find_node \<Rightarrow> cstring \<Rightarrow> u32 \<Rightarrow> 'a vfse_machine_scheme \<Rightarrow> (int \<times> 'a vfse_machine_scheme) option" where
  "vfse_open fat path flags k =
     (case vfse_resolve_path path path_max k of
        None \<Rightarrow> Some (- 1, k)
      | Some abspath \<Rightarrow> do {
          (nd, k1) \<leftarrow> vfs_path_to_node fat (Some abspath) k;
          if nd = NULL then Some (- 1, k1)
          else do {
            n \<leftarrow> nodes k1 nd;
            if flags AND VFSE_O_DIRECTORY \<noteq> 0 \<and> node_type n \<noteq> VFS_DIRECTORY then Some (- 1, k1)
            else do {
              (f, k2) \<leftarrow> vfse_alloc_file k1;
              if f = NULL then Some (- 1, k2)
              else do {
                k3 \<leftarrow> upd_file f (\<lambda>ff. ff\<lparr>file_node := nd, file_pos := 0, file_flags := flags, ref_count := 1\<rparr>) k2;
                k4 \<leftarrow> (if flags AND VFSE_O_APPEND \<noteq> 0 then do {
                          n \<leftarrow> nodes k3 nd;
                          upd_file f (\<lambda>ff. ff\<lparr>file_pos := node_size n\<rparr>) k3 }
                       else Some k3);
                case vfse_alloc_fd f k4 of
                  (fd, k5) \<Rightarrow> if fd < 0 then map_option (Pair (- 1)) (vfse_free_file f k5) else Some (fd, k5) } } } })"

definition vfse_close :: "int \<Rightarrow> 'a vfse_machine_scheme \<Rightarrow> (int \<times> 'a vfse_machine_scheme) option" where
  "vfse_close fd k = (if vfse_get_file fd k = NULL then Some (- 1, k) else map_option (Pair 0) (vfse_free_fd fd k))"

text \<open>The copy loops of a pipe, from and to the caller's buffer.\<close>

function pipe_read_loop :: "ptr \<Rightarrow> ptr \<Rightarrow> nat \<Rightarrow> nat \<Rightarrow> 'a vfse_machine_scheme \<Rightarrow> (nat \<times> 'a vfse_machine_scheme) option" where
  "pipe_read_loop p buf count n k =
     (if n < count then do {
        pp \<leftarrow> pipes k p;
        if read_pos pp \<noteq> write_pos pp then do {
          b \<leftarrow> load8 (pipe_buffer pp + read_pos pp) k;
          k1 \<leftarrow> store8 (buf + of_nat n) b k;
          k2 \<leftarrow> upd_pipe p (\<lambda>pp. pp\<lparr>read_pos := if read_pos pp + 1 \<ge> pipe_size pp then 0 else read_pos pp + 1\<rparr>) k1;
          pipe_read_loop p buf count (Suc n) k2 }
        else Some (n, k) }
      else Some (n, k))"
  by pat_completeness auto
termination
  by (relation "measure (\<lambda>(p, buf, count, n, k). count - n)") auto

function pipe_write_loop :: "ptr \<Rightarrow> ptr \<Rightarrow> nat \<Rightarrow> nat \<Rightarrow> 'a vfse_machine_scheme \<Rightarrow> (nat \<times> 'a vfse_machine_scheme) option" where
  "pipe_write_loop p buf count n k =
     (if n < count then do {
        pp \<leftarrow> pipes k p;
        let nxt = (write_pos pp + 1) mod pipe_size pp;
        if nxt \<noteq> read_pos pp then do {
          b \<leftarrow> load8 (buf + of_nat n) k;
          k1 \<leftarrow> store8 (pipe_buffer pp + write_pos pp) b k;
          k2 \<leftarrow> upd_pipe p (\<lambda>pp. pp\<lparr>write_pos := nxt\<rparr>) k1;
          pipe_write_loop p buf count (Suc n) k2 }
        else Some (n, k) }
      else Some (n, k))"
  by pat_completeness auto
termination
  by (relation "measure (\<lambda>(p, buf, count, n, k). count - n)") auto

declare pipe_read_loop.simps [simp del] pipe_write_loop.simps [simp del]

definition vfse_read ::
    "(vfs_ops_t \<Rightarrow> ('a vfse_machine_scheme) rw_op option) \<Rightarrow> int \<Rightarrow> ptr \<Rightarrow> u64 \<Rightarrow> 'a vfse_machine_scheme \<Rightarrow> (int \<times> 'a vfse_machine_scheme) option" where
  "vfse_read table fd buf count k =
     (let f = vfse_get_file fd k
      in if f = NULL \<or> buf = NULL then Some (- 1, k)
         else do {
           ff \<leftarrow> vfse_files k f;
           if file_pipe ff \<noteq> NULL then do {
             pp \<leftarrow> pipes k (file_pipe ff);
             if read_closed pp then Some (0, k)
             else map_option (\<lambda>(n, k1). (int n, k1)) (pipe_read_loop (file_pipe ff) buf (unat count) 0 k) }
           else if file_node ff = NULL then Some (- 1, k)
           else do {
             n \<leftarrow> nodes k (file_node ff);
             case table (node_ops n) of
               None \<Rightarrow> Some (- 1, k)
             | Some op \<Rightarrow> do {
                 (ret, k1) \<leftarrow> op (file_node ff) buf count (file_pos ff) k;
                 k2 \<leftarrow> (if sint ret > 0 then upd_file f (\<lambda>ff. ff\<lparr>file_pos := file_pos ff + ucast ret\<rparr>) k1 else Some k1);
                 Some (sint ret, k2) } } })"

definition vfse_write ::
    "(vfs_ops_t \<Rightarrow> ('a vfse_machine_scheme) rw_op option) \<Rightarrow> int \<Rightarrow> ptr \<Rightarrow> u64 \<Rightarrow> 'a vfse_machine_scheme \<Rightarrow> (int \<times> 'a vfse_machine_scheme) option" where
  "vfse_write table fd buf count k =
     (let f = vfse_get_file fd k
      in if f = NULL \<or> buf = NULL then Some (- 1, k)
         else do {
           ff \<leftarrow> vfse_files k f;
           if file_pipe ff \<noteq> NULL then do {
             pp \<leftarrow> pipes k (file_pipe ff);
             if write_closed pp then Some (- 1, k)
             else map_option (\<lambda>(n, k1). (int n, k1)) (pipe_write_loop (file_pipe ff) buf (unat count) 0 k) }
           else if file_node ff = NULL then Some (- 1, k)
           else do {
             n \<leftarrow> nodes k (file_node ff);
             case table (node_ops n) of
               None \<Rightarrow> Some (- 1, k)
             | Some op \<Rightarrow>
                 if file_flags ff AND VFSE_O_WRONLY = 0 \<and> file_flags ff AND VFSE_O_RDWR = 0 then Some (- 1, k)
                 else do {
                   (ret, k1) \<leftarrow> op (file_node ff) buf count (file_pos ff) k;
                   if sint ret > 0 then do {
                     k2 \<leftarrow> upd_file f (\<lambda>ff. ff\<lparr>file_pos := file_pos ff + ucast ret\<rparr>) k1;
                     ff2 \<leftarrow> vfse_files k2 f;
                     n2 \<leftarrow> nodes k2 (file_node ff2);
                     k3 \<leftarrow> (if file_pos ff2 > node_size n2 then upd_node (file_node ff2) (\<lambda>n. n\<lparr>node_size := file_pos ff2\<rparr>) k2 else Some k2);
                     Some (sint ret, k3) }
                   else Some (sint ret, k1) } } })"

definition vfse_lseek :: "int \<Rightarrow> u64 \<Rightarrow> int \<Rightarrow> 'a vfse_machine_scheme \<Rightarrow> (u64 \<times> 'a vfse_machine_scheme) option" where
  "vfse_lseek fd offset whence k =
     (let f = vfse_get_file fd k
      in if f = NULL then Some (- 1, k)
         else do {
           ff \<leftarrow> vfse_files k f;
           if file_node ff = NULL \<or> file_pipe ff \<noteq> NULL then Some (- 1, k)
           else if whence \<notin> {0, 1, 2} then Some (- 1, k)
           else do {
             n \<leftarrow> nodes k (file_node ff);
             let new_pos = (if whence = 0 then offset else if whence = 1 then file_pos ff + offset else node_size n + offset);
             if sint new_pos < 0 then Some (- 1, k)
             else map_option (Pair new_pos) (upd_file f (\<lambda>ff. ff\<lparr>file_pos := new_pos\<rparr>) k) } })"

subsection \<open>Duplicating descriptors\<close>

definition vfse_dup :: "int \<Rightarrow> 'a vfse_machine_scheme \<Rightarrow> (int \<times> 'a vfse_machine_scheme) option" where
  "vfse_dup fd k =
     (let f = vfse_get_file fd k
      in if f = NULL then Some (- 1, k)
         else do {
           k1 \<leftarrow> upd_file f (\<lambda>ff. ff\<lparr>ref_count := ref_count ff + 1\<rparr>) k;
           case vfse_alloc_fd f k1 of
             (newfd, k2) \<Rightarrow>
               if newfd < 0 then map_option (Pair (- 1)) (upd_file f (\<lambda>ff. ff\<lparr>ref_count := ref_count ff - 1\<rparr>) k2)
               else Some (newfd, k2) })"

definition set_fd :: "int \<Rightarrow> ptr \<Rightarrow> 'a vfse_machine_scheme \<Rightarrow> 'a vfse_machine_scheme" where
  "set_fd fd f k = k\<lparr>vfse_current := map_option (\<lambda>pr. pr\<lparr>fds := (fds pr)[nat fd := f]\<rparr>) (vfse_current k)\<rparr>"

definition vfse_dup2 :: "int \<Rightarrow> int \<Rightarrow> 'a vfse_machine_scheme \<Rightarrow> (int \<times> 'a vfse_machine_scheme) option" where
  "vfse_dup2 oldfd newfd k =
     (if oldfd < 0 \<or> oldfd \<ge> int VFSE_MAX_FDS \<or> newfd < 0 \<or> newfd \<ge> int VFSE_MAX_FDS then Some (- 1, k)
      else case vfse_current k of
        None \<Rightarrow> Some (- 1, k)
      | Some pr \<Rightarrow>
          let f = fds pr ! nat oldfd
          in if f = NULL then Some (- 1, k)
             else do {
               k1 \<leftarrow> (if fds pr ! nat newfd \<noteq> NULL then map_option snd (vfse_close newfd k) else Some k);
               k2 \<leftarrow> upd_file f (\<lambda>ff. ff\<lparr>ref_count := ref_count ff + 1\<rparr>) k1;
               Some (newfd, set_fd newfd f k2) })"

definition vfse_fcntl :: "int \<Rightarrow> int \<Rightarrow> u64 \<Rightarrow> 'a vfse_machine_scheme \<Rightarrow> (int \<times> 'a vfse_machine_scheme) option" where
  "vfse_fcntl fd cmd arg k =
     (let f = vfse_get_file fd k
      in if f = NULL then Some (- 1, k)
         else if cmd = 0 then do {
           let minfd = max 0 (sint (ucast arg :: u32));
           k1 \<leftarrow> upd_file f (\<lambda>ff. ff\<lparr>ref_count := ref_count ff + 1\<rparr>) k;
           pr \<leftarrow> vfse_current k1;
           case empty_slot pr minfd (int VFSE_MAX_FDS) of
             Some i \<Rightarrow> Some (int i, set_fd (int i) f k1)
           | None \<Rightarrow> map_option (Pair (- 1)) (upd_file f (\<lambda>ff. ff\<lparr>ref_count := ref_count ff - 1\<rparr>) k1) }
         else do {
           ff \<leftarrow> vfse_files k f;
           if cmd = 1 then Some (sint (fd_flags ff), k)
           else if cmd = 2 then map_option (Pair 0) (upd_file f (\<lambda>ff. ff\<lparr>fd_flags := ucast arg\<rparr>) k)
           else if cmd = 3 then Some (sint (file_flags ff), k)
           else if cmd = 4 then map_option (Pair 0) (upd_file f (\<lambda>ff. ff\<lparr>file_flags := ucast arg\<rparr>) k)
           else Some (- 1, k) })"

subsection \<open>Attributes and directories\<close>

definition store_bytes :: "ptr \<Rightarrow> u8 list \<Rightarrow> 'a vm_machine_scheme \<Rightarrow> 'a vm_machine_scheme option" where
  "store_bytes p bs = each (\<lambda>i. store8 (p + of_nat i) (bs ! i)) [0..<length bs]"

text \<open>The structures as the x86-64 ABI lays them out, padding included.\<close>

definition stat_bytes :: "vfse_stat_t \<Rightarrow> u8 list" where
  "stat_bytes st = to_le 4 (st_dev st) @ to_le 4 (st_ino st) @ to_le 4 (st_mode st) @ to_le 4 (st_nlink st) @
     to_le 4 (st_uid st) @ to_le 4 (st_gid st) @ to_le 4 (st_rdev st) @ [0, 0, 0, 0] @ to_le 8 (st_size st) @
     to_le 8 (st_atime st) @ to_le 8 (st_mtime st) @ to_le 8 (st_ctime st) @ to_le 4 (st_blksize st) @ [0, 0, 0, 0] @ to_le 8 (st_blocks st)"

record vfse_dirent =
  d_ino :: u32
  d_off :: u32
  d_reclen :: u16
  d_type :: u8
  d_name :: "u8 list"

definition sizeof_dirent :: nat where "sizeof_dirent = 268"

definition dirent_bytes :: "vfse_dirent \<Rightarrow> u8 list" where
  "dirent_bytes d = to_le 4 (d_ino d) @ to_le 4 (d_off d) @ to_le 2 (d_reclen d) @ [d_type d] @
     d_name d @ replicate (257 - length (d_name d)) 0"

definition vfse_stat ::
    "('a vfse_machine_scheme) find_node \<Rightarrow> cstring \<Rightarrow> ptr \<Rightarrow> 'a vfse_machine_scheme \<Rightarrow> (int \<times> 'a vfse_machine_scheme) option" where
  "vfse_stat fat path buf k =
     (if path = None \<or> buf = NULL then Some (- 1, k)
      else case vfse_resolve_path path path_max k of
        None \<Rightarrow> Some (- 1, k)
      | Some abspath \<Rightarrow> do {
          (nd, k1) \<leftarrow> vfs_path_to_node fat (Some abspath) k;
          if nd = NULL then Some (- 1, k1)
          else do {
            n \<leftarrow> nodes k1 nd;
            map_option (Pair 0) (store_bytes buf (stat_bytes (vfse_fill_stat nd n)) k1) } })"

definition vfse_lstat ::
    "('a vfse_machine_scheme) find_node \<Rightarrow> cstring \<Rightarrow> ptr \<Rightarrow> 'a vfse_machine_scheme \<Rightarrow> (int \<times> 'a vfse_machine_scheme) option" where
  "vfse_lstat fat path buf k = vfse_stat fat path buf k"

definition vfse_fstat :: "int \<Rightarrow> ptr \<Rightarrow> 'a vfse_machine_scheme \<Rightarrow> (int \<times> 'a vfse_machine_scheme) option" where
  "vfse_fstat fd buf k =
     (let f = vfse_get_file fd k
      in if buf = NULL \<or> f = NULL then Some (- 1, k)
         else do {
           ff \<leftarrow> vfse_files k f;
           if file_node ff = NULL then Some (- 1, k)
           else do {
             n \<leftarrow> nodes k (file_node ff);
             map_option (Pair 0) (store_bytes buf (stat_bytes (vfse_fill_stat (file_node ff) n)) k) } })"

primrec dirent_type :: "vfs_type \<Rightarrow> u8" where
  "dirent_type VFS_DIRECTORY = 4"
| "dirent_type VFS_FILE = 8"
| "dirent_type VFS_DEVICE = 2"
| "dirent_type VFS_SYMLINK = 10"

definition dirent_of :: "ptr \<Rightarrow> vfs_node_t \<Rightarrow> u32 \<Rightarrow> vfse_dirent" where
  "dirent_of kid n ix = \<lparr>d_ino = ucast kid, d_off = ix + 1, d_reclen = of_nat sizeof_dirent, d_type = dirent_type (node_type n), d_name = take 255 (node_name n)\<rparr>"

partial_function (option) skip_children :: "ptr \<Rightarrow> u32 \<Rightarrow> u64 \<Rightarrow> 'a vfse_machine_scheme \<Rightarrow> (ptr \<times> u32) option" where
  "skip_children kid ix pos k =
     (if kid \<noteq> NULL \<and> ucast ix < pos then do { c \<leftarrow> nodes k kid; skip_children (node_next c) (ix + 1) pos k }
      else Some (kid, ix))"

partial_function (option) dents_loop ::
    "ptr \<Rightarrow> ptr \<Rightarrow> u64 \<Rightarrow> ptr \<Rightarrow> u32 \<Rightarrow> nat \<Rightarrow> 'a vfse_machine_scheme \<Rightarrow> (int \<times> 'a vfse_machine_scheme) option" where
  "dents_loop f buf count kid ix done_bytes k =
     (if kid \<noteq> NULL \<and> done_bytes + sizeof_dirent \<le> unat count then do {
        c \<leftarrow> nodes k kid;
        k1 \<leftarrow> store_bytes (buf + of_nat done_bytes) (dirent_bytes (dirent_of kid c ix)) k;
        k2 \<leftarrow> upd_file f (\<lambda>ff. ff\<lparr>file_pos := file_pos ff + 1\<rparr>) k1;
        dents_loop f buf count (node_next c) (ix + 1) (done_bytes + sizeof_dirent) k2 }
      else Some (int done_bytes, k))"

type_synonym 'k readdir_op = "ptr \<Rightarrow> u32 \<Rightarrow> ptr \<Rightarrow> u64 \<Rightarrow> 'k \<Rightarrow> (int \<times> 'k) option"

definition vfse_getdents ::
    "(vfs_ops_t \<Rightarrow> ('a vfse_machine_scheme) readdir_op option) \<Rightarrow> int \<Rightarrow> ptr \<Rightarrow> u64 \<Rightarrow> 'a vfse_machine_scheme \<Rightarrow> (int \<times> 'a vfse_machine_scheme) option" where
  "vfse_getdents table fd buf count k =
     (let f = vfse_get_file fd k
      in if f = NULL then Some (- 1, k)
         else do {
           ff \<leftarrow> vfse_files k f;
           if file_node ff = NULL then Some (- 1, k)
           else do {
             n \<leftarrow> nodes k (file_node ff);
             if node_type n \<noteq> VFS_DIRECTORY then Some (- 1, k)
             else case (if is_mountpoint n then table (node_ops n) else None) of
               Some op \<Rightarrow> op (file_node ff) (ucast (file_pos ff)) buf count k
             | None \<Rightarrow> do {
                 (kid, ix) \<leftarrow> skip_children (children n) 0 (file_pos ff) k;
                 dents_loop f buf count kid ix 0 k } } })"

text \<open>The calls that only look a path up before they give up.\<close>

definition lookup_abs ::
    "('a vfse_machine_scheme) find_node \<Rightarrow> cstring \<Rightarrow> 'a vfse_machine_scheme \<Rightarrow> (ptr \<times> 'a vfse_machine_scheme) option" where
  "lookup_abs fat path k =
     (case vfse_resolve_path path path_max k of
        None \<Rightarrow> Some (NULL, k)
      | Some abspath \<Rightarrow> vfs_path_to_node fat (Some abspath) k)"

definition vfse_mkdir ::
    "('a vfse_machine_scheme) find_node \<Rightarrow> cstring \<Rightarrow> 'a vfse_machine_scheme \<Rightarrow> (int \<times> 'a vfse_machine_scheme) option" where
  "vfse_mkdir fat path k = do { (nd, k1) \<leftarrow> lookup_abs fat path k; Some (- 1, k1) }"

definition vfse_rmdir ::
    "('a vfse_machine_scheme) find_node \<Rightarrow> cstring \<Rightarrow> 'a vfse_machine_scheme \<Rightarrow> (int \<times> 'a vfse_machine_scheme) option" where
  "vfse_rmdir fat path k = do { (nd, k1) \<leftarrow> lookup_abs fat path k; if nd = NULL then Some (- 1, k1) else do { n \<leftarrow> nodes k1 nd; Some (- 1, k1) } }"

definition vfse_unlink ::
    "('a vfse_machine_scheme) find_node \<Rightarrow> cstring \<Rightarrow> 'a vfse_machine_scheme \<Rightarrow> (int \<times> 'a vfse_machine_scheme) option" where
  "vfse_unlink fat path k = do { (nd, k1) \<leftarrow> lookup_abs fat path k; if nd = NULL then Some (- 1, k1) else do { n \<leftarrow> nodes k1 nd; Some (- 1, k1) } }"

definition vfse_readlink ::
    "('a vfse_machine_scheme) find_node \<Rightarrow> cstring \<Rightarrow> ptr \<Rightarrow> u64 \<Rightarrow> 'a vfse_machine_scheme \<Rightarrow> (int \<times> 'a vfse_machine_scheme) option" where
  "vfse_readlink fat path buf bufsize k =
     (if path = None \<or> buf = NULL \<or> bufsize = 0 then Some (- 1, k)
      else do { (nd, k1) \<leftarrow> lookup_abs fat path k; if nd = NULL then Some (- 1, k1) else do { n \<leftarrow> nodes k1 nd; Some (- 1, k1) } })"

definition vfse_access ::
    "('a vfse_machine_scheme) find_node \<Rightarrow> cstring \<Rightarrow> 'a vfse_machine_scheme \<Rightarrow> (int \<times> 'a vfse_machine_scheme) option" where
  "vfse_access fat path k = do { (nd, k1) \<leftarrow> lookup_abs fat path k; Some (if nd = NULL then - 1 else 0, k1) }"

definition strdup :: "u8 list \<Rightarrow> 'a slab_machine_scheme \<Rightarrow> (ptr \<times> 'a slab_machine_scheme) option" where
  "strdup s k = do {
     (p, k1) \<leftarrow> kmalloc (of_nat (length s) + 1) k;
     if p = NULL then Some (NULL, k1) else map_option (Pair p) (store_bytes p (s @ [0]) k1) }"

text \<open>\<^verbatim>\<open>strrchr(path, '/')\<close> splits a path into the directory, at least \<^verbatim>\<open>/\<close>, and the last name.\<close>

definition split_path :: "u8 list \<Rightarrow> (u8 list \<times> u8 list) option" where
  "split_path s =
     (if slash \<notin> set s then None
      else let nm = rev (takeWhile (\<lambda>c. c \<noteq> slash) (rev s)); parent_len = length s - length nm - 1
           in Some (take (if parent_len = 0 then 1 else parent_len) s, nm))"

definition vfse_symlink ::
    "('a vfse_machine_scheme) find_node \<Rightarrow> cstring \<Rightarrow> cstring \<Rightarrow> 'a vfse_machine_scheme \<Rightarrow> (int \<times> 'a vfse_machine_scheme) option" where
  "vfse_symlink fat target linkpath k =
     (case target of
        None \<Rightarrow> Some (- 1, k)
      | Some t \<Rightarrow>
          (case Option.bind (vfse_resolve_path linkpath path_max k) split_path of
             None \<Rightarrow> Some (- 1, k)
           | Some (parent_path, nm) \<Rightarrow> do {
               (parent, k1) \<leftarrow> vfs_path_to_node fat (Some parent_path) k;
               if parent = NULL then Some (- 1, k1)
               else do {
                 p \<leftarrow> nodes k1 parent;
                 if node_type p \<noteq> VFS_DIRECTORY then Some (- 1, k1)
                 else do {
                   (nd, k2) \<leftarrow> vfs_create_node (Some nm) VFS_SYMLINK k1;
                   if nd = NULL then Some (- 1, k2)
                   else do {
                     k3 \<leftarrow> vfs_add_child parent nd k2;
                     (q, k4) \<leftarrow> strdup t k3;
                     map_option (Pair 0)
                       (upd_node nd (\<lambda>n. n\<lparr>node_type := VFS_SYMLINK, link_target := if q = NULL then None else Some t\<rparr>) k4) } } } }))"

subsection \<open>The working directory\<close>

definition vfse_chdir ::
    "('a vfse_machine_scheme) find_node \<Rightarrow> cstring \<Rightarrow> 'a vfse_machine_scheme \<Rightarrow> (int \<times> 'a vfse_machine_scheme) option" where
  "vfse_chdir fat path k =
     (if vfse_current k = None then Some (- 1, k)
      else case vfse_resolve_path path path_max k of
        None \<Rightarrow> Some (- 1, k)
      | Some abspath \<Rightarrow> do {
          (nd, k1) \<leftarrow> vfs_path_to_node fat (Some abspath) k;
          if nd = NULL then Some (- 1, k1)
          else do {
            n \<leftarrow> nodes k1 nd;
            if node_type n \<noteq> VFS_DIRECTORY then Some (- 1, k1)
            else Some (0, k1\<lparr>vfse_current := map_option (\<lambda>pr. pr\<lparr>cwd := take 4095 abspath\<rparr>) (vfse_current k1)\<rparr>) } })"

definition vfse_getcwd :: "ptr \<Rightarrow> u64 \<Rightarrow> 'a vfse_machine_scheme \<Rightarrow> (ptr \<times> 'a vfse_machine_scheme) option" where
  "vfse_getcwd buf sz k =
     (if buf = NULL \<or> sz = 0 then Some (NULL, k)
      else case vfse_current k of
        None \<Rightarrow> map_option (Pair buf) (store8 buf 0 k)
      | Some pr \<Rightarrow>
          let s = take (unat sz - 1) (cwd pr)
          in map_option (Pair buf) (store_bytes buf (s @ replicate (unat sz - length s) 0) k))"

subsection \<open>Pipes and mounts\<close>

definition vfse_pipe :: "ptr \<Rightarrow> 'a vfse_machine_scheme \<Rightarrow> (int \<times> 'a vfse_machine_scheme) option" where
  "vfse_pipe pipefd k =
     (if pipefd = NULL then Some (- 1, k)
      else do {
        (p, k1) \<leftarrow> kmalloc sizeof_vfse_pipe k;
        if p = NULL then Some (- 1, k1)
        else do {
          (b, k2) \<leftarrow> kmalloc 4096 k1;
          if b = NULL then map_option (Pair (- 1)) (kfree p k2)
          else do {
            let k3 = k2\<lparr>pipes := (pipes k2)(p \<mapsto> \<lparr>pipe_buffer = b, pipe_size = 4096, read_pos = 0, write_pos = 0, read_closed = False, write_closed = False\<rparr>)\<rparr>;
            (reader, k4) \<leftarrow> vfse_alloc_file k3;
            (writer, k5) \<leftarrow> vfse_alloc_file k4;
            if reader = NULL \<or> writer = NULL then do {
              k6 \<leftarrow> vfse_free_file reader k5;
              k7 \<leftarrow> vfse_free_file writer k6;
              map_option (Pair (- 1)) (free_pipe p k7) }
            else do {
              k6 \<leftarrow> upd_file reader (\<lambda>ff. ff\<lparr>file_pipe := p, ref_count := 1, file_flags := 0\<rparr>) k5;
              k7 \<leftarrow> upd_file writer (\<lambda>ff. ff\<lparr>file_pipe := p, ref_count := 1, file_flags := VFSE_O_WRONLY\<rparr>) k6;
              case vfse_alloc_fd reader k7 of (fd0, k8) \<Rightarrow> (case vfse_alloc_fd writer k8 of (fd1, k9) \<Rightarrow> do {
                k10 \<leftarrow> store32 pipefd (of_int fd0) k9;
                k11 \<leftarrow> store32 (pipefd + 4) (of_int fd1) k10;
                if fd0 < 0 \<or> fd1 < 0 then do {
                  k12 \<leftarrow> (if fd0 \<ge> 0 then map_option snd (vfse_close fd0 k11) else Some k11);
                  k13 \<leftarrow> (if fd1 \<ge> 0 then map_option snd (vfse_close fd1 k12) else Some k12);
                  Some (- 1, k13) }
                else Some (0, k11) }) } } } })"

definition vfse_mount ::
    "(u8 list \<Rightarrow> u8 list \<Rightarrow> u8 list \<Rightarrow> 'a vfse_machine_scheme \<Rightarrow> (bool \<times> 'a vfse_machine_scheme) option) \<Rightarrow>
     cstring \<Rightarrow> cstring \<Rightarrow> cstring \<Rightarrow> 'a vfse_machine_scheme \<Rightarrow> (int \<times> 'a vfse_machine_scheme) option" where
  "vfse_mount mount source target fstype k =
     (case (source, fstype, vfse_resolve_path target path_max k) of
        (Some s, Some t, Some abspath) \<Rightarrow> map_option (\<lambda>(ok, k1). (if ok then 0 else - 1, k1)) (mount s t abspath k)
      | _ \<Rightarrow> Some (- 1, k))"

definition vfse_umount :: "cstring \<Rightarrow> 'a vfse_machine_scheme \<Rightarrow> int \<times> 'a vfse_machine_scheme" where
  "vfse_umount target k = (- 1, k)"

section \<open>Descriptors\<close>

text \<open>
  The table is exact when the reference count of an open file is the number of descriptors that
  name it, files without a descriptor do not exist, and every file lies in a block of its own.
  No file here is an end of a pipe.
\<close>

definition fds_exact :: "vfse_process_t \<Rightarrow> (ptr \<rightharpoonup> vfse_file_t) \<Rightarrow> bool" where
  "fds_exact pr fs \<longleftrightarrow> length (fds pr) = VFSE_MAX_FDS \<and> 0 \<le> next_fd pr \<and> next_fd pr \<le> int VFSE_MAX_FDS \<and> cwd pr \<noteq> [] \<and> hd (cwd pr) = slash \<and> fs NULL = None \<and>
     (\<forall>p. p \<noteq> NULL \<longrightarrow> map_option ref_count (fs p) = (if count_list (fds pr) p = 0 then None else Some (int (count_list (fds pr) p)))) \<and>
     (\<forall>p f. fs p = Some f \<longrightarrow> file_pipe f = NULL)"

definition fds_ok :: "'a vfse_machine_scheme \<Rightarrow> (ptr \<Rightarrow> ptr list) \<Rightarrow> nat \<Rightarrow> (ptr \<rightharpoonup> nat) \<Rightarrow> bool" where
  "fds_ok k K b used \<longleftrightarrow> heap_budget k b used \<and> vfs_ok k K \<and> no_mounts k \<and> dom (vfse_files k) \<subseteq> dom used \<and>
     (\<exists>pr. vfse_current k = Some pr \<and> fds_exact pr (vfse_files k))"

lemma count_list_update:
  "i < length xs \<Longrightarrow> count_list (xs[i := y]) p + (if xs ! i = p then 1 else 0) = count_list xs p + (if y = p then 1 else 0)"
proof (induction xs arbitrary: i)
  case (Cons x xs)
  show ?case
  proof (cases i)
    case (Suc j)
    then show ?thesis using Cons.IH [of j] Cons.prems by (simp split: if_splits)
  qed simp
qed simp

lemma heap_budget_vfse [simp]:
  fixes k :: "'a vfse_machine_scheme"
  shows "heap_budget (k\<lparr>vfse_files := x\<rparr>) b used = heap_budget k b used" "heap_budget (k\<lparr>vfse_current := y\<rparr>) b used = heap_budget k b used"
    "heap_budget (k\<lparr>pipes := z\<rparr>) b used = heap_budget k b used"
  by (rule heap_budget_cong; simp)+

lemma hmem_vfse [simp]:
  fixes k :: "'a vfse_machine_scheme"
  shows "hmem (k\<lparr>vfse_files := x\<rparr>) = hmem k" "hmem (k\<lparr>vfse_current := y\<rparr>) = hmem k" "hmem (k\<lparr>pipes := z\<rparr>) = hmem k"
  by (rule same_heap; simp)+

lemma vfs_ok_same:
  assumes "nodes k' = nodes k" "root_node k' = root_node k"
  shows "vfs_ok k' K = vfs_ok k K" "no_mounts k' = no_mounts k"
proof -
  have "linked k' v cs = linked k v cs" for v cs by (rule linked_cong) (simp add: assms)
  then show "vfs_ok k' K = vfs_ok k K" by (simp add: vfs_ok_def assms)
  show "no_mounts k' = no_mounts k" by (simp add: no_mounts_def assms)
qed

lemma vfs_ok_vfse [simp]:
  "vfs_ok (k\<lparr>vfse_files := x\<rparr>) K = vfs_ok k K" "vfs_ok (k\<lparr>vfse_current := y\<rparr>) K = vfs_ok k K"
  "no_mounts (k\<lparr>vfse_files := x\<rparr>) = no_mounts k" "no_mounts (k\<lparr>vfse_current := y\<rparr>) = no_mounts k"
  by (rule vfs_ok_same; simp)+

lemma heap_only_vfse:
  fixes k :: "'a vfse_machine_scheme"
  assumes "heap_only k k'"
  shows "vfse_files k' = vfse_files k" "vfse_current k' = vfse_current k" "pipes k' = pipes k" "vfs_ok k' K = vfs_ok k K" "no_mounts k' = no_mounts k"
  using assms vfs_ok_same [OF heap_only_nodes [OF assms]] by (auto simp: heap_only_def)

lemma kfree_budget:
  assumes "heap_budget k b used" "used p \<noteq> None"
  shows "\<exists>k'. kfree p k = Some k' \<and> heap_budget k' b (used(p := None)) \<and> heap_only k k' \<and> kept k (used(p := None)) k'"
proof -
  obtain n where n: "used p = Some n" using assms(2) by auto
  have "heap_ok k used" using assms(1) by (simp add: heap_budget_def)
  from kfree_spec [OF this n] obtain k' where k': "kfree p k = Some k'" "released k used p k'" by blast
  then have "heap_budget k' b (used(p := None))" using assms(1) by (auto simp: heap_budget_def released_def spent_def)
  then show ?thesis using k' by (auto simp: released_def)
qed

text \<open>What the invariant says when one slot of the table and one reference count change together.\<close>

lemma exact_at: "fds_exact pr fs \<Longrightarrow> p \<noteq> NULL \<Longrightarrow> p \<in> set (fds pr) \<Longrightarrow> \<exists>f. fs p = Some f \<and> ref_count f = int (count_list (fds pr) p) \<and> 0 < count_list (fds pr) p"
  unfolding fds_exact_def by (metis (no_types, lifting) count_list_0_iff map_option_eq_Some not_gr_zero)

lemma exact_link:
  assumes ex: "fds_exact pr fs" and i: "i < VFSE_MAX_FDS" "fds pr ! i = NULL" and p: "p \<noteq> NULL"
    and f: "file_pipe f = NULL" "ref_count f = int (count_list (fds pr) p) + 1" and n: "0 \<le> n" "n \<le> int VFSE_MAX_FDS"
  shows "fds_exact (pr\<lparr>fds := (fds pr)[i := p], next_fd := n\<rparr>) (fs(p \<mapsto> f))"
proof -
  have l: "length (fds pr) = VFSE_MAX_FDS" using ex by (simp add: fds_exact_def)
  have c: "count_list ((fds pr)[i := p]) q = count_list (fds pr) q + (if q = p then 1 else 0)" if "q \<noteq> NULL" for q
    using count_list_update [of i "fds pr" p q] i l that by (auto split: if_splits)
  show ?thesis using ex c p f n by (auto simp: fds_exact_def)
qed

lemma exact_unlink:
  assumes ex: "fds_exact pr fs" and i: "i < VFSE_MAX_FDS" "fds pr ! i = p" and p: "p \<noteq> NULL" and n: "0 \<le> n" "n \<le> int VFSE_MAX_FDS"
    and fs': "fs' p = (if count_list (fds pr) p = 1 then None else Some f)" "\<forall>q. q \<noteq> p \<longrightarrow> fs' q = fs q"
    and f: "file_pipe f = NULL" "ref_count f = int (count_list (fds pr) p) - 1"
  shows "fds_exact (pr\<lparr>fds := (fds pr)[i := NULL], next_fd := n\<rparr>) fs'"
proof -
  have l: "length (fds pr) = VFSE_MAX_FDS" using ex by (simp add: fds_exact_def)
  have c: "count_list ((fds pr)[i := NULL]) q + (if q = p then 1 else 0) = count_list (fds pr) q" if "q \<noteq> NULL" for q
    using count_list_update [of i "fds pr" NULL q] i l that by (auto split: if_splits)
  have "map_option ref_count (fs' q) = (if count_list ((fds pr)[i := NULL]) q = 0 then None else Some (int (count_list ((fds pr)[i := NULL]) q)))" if "q \<noteq> NULL" for q
    using c [OF that] ex fs' f that by (cases "q = p") (auto simp: fds_exact_def split: if_splits)
  moreover have "file_pipe g = NULL" if "fs' q = Some g" for q g
    using that ex fs' f by (cases "q = p") (auto simp: fds_exact_def split: if_splits)
  ultimately show ?thesis using ex fs'(2) p n by (auto simp: fds_exact_def)
qed

lemma exact_next: "fds_exact pr fs \<Longrightarrow> 0 \<le> n \<Longrightarrow> n \<le> int VFSE_MAX_FDS \<Longrightarrow> fds_exact (pr\<lparr>next_fd := n\<rparr>) fs"
  by (simp add: fds_exact_def)

lemma empty_slot_at: "empty_slot pr a b = Some i \<Longrightarrow> fds pr ! i = NULL \<and> nat a \<le> i \<and> i < nat b"
  by (auto simp: empty_slot_def find_Some_iff)

lemma alloc_fd_cases:
  assumes "vfse_current k = Some pr" "next_fd pr \<le> int VFSE_MAX_FDS"
  obtains "vfse_alloc_fd f k = (- 1, k)"
  | i where "i < VFSE_MAX_FDS" "fds pr ! i = NULL"
      "vfse_alloc_fd f k = (int i, k\<lparr>vfse_current := Some (pr\<lparr>fds := (fds pr)[i := f], next_fd := int i + 1\<rparr>)\<rparr>)"
proof (cases "empty_slot pr (next_fd pr) (int VFSE_MAX_FDS)")
  case (Some i)
  then show ?thesis using that(2) [of i] assms empty_slot_at [OF Some] by (simp add: vfse_alloc_fd_def)
next
  case None
  show ?thesis
  proof (cases "empty_slot pr 3 (next_fd pr)")
    case None': None
    then show ?thesis using that(1) assms None by (simp add: vfse_alloc_fd_def)
  next
    case (Some i)
    moreover have "i < VFSE_MAX_FDS" using empty_slot_at [OF Some] assms(2) by linarith
    ultimately show ?thesis using that(2) [of i] assms None empty_slot_at [OF Some] by (simp add: vfse_alloc_fd_def)
  qed
qed

lemma get_file:
  assumes "vfse_current k = Some pr"
  shows "vfse_get_file fd k = (if fd < 0 \<or> fd \<ge> int VFSE_MAX_FDS then NULL else fds pr ! nat fd)"
  by (simp add: vfse_get_file_def assms)

text \<open>Every operation on descriptors keeps the table exact.\<close>

lemma close_ok:
  assumes ok: "fds_ok k K b used" and fd: "0 \<le> fd" "fd < int VFSE_MAX_FDS" and f: "vfse_get_file fd k \<noteq> NULL"
  shows "\<exists>k' used' pr pr'. vfse_close fd k = Some (0, k') \<and> fds_ok k' K b used' \<and> vfse_current k = Some pr \<and>
    vfse_current k' = Some pr' \<and> fds pr' = (fds pr)[nat fd := NULL]"
proof -
  obtain pr where pr: "vfse_current k = Some pr" "fds_exact pr (vfse_files k)" using ok by (auto simp: fds_ok_def)
  define p where "p = fds pr ! nat fd"
  have l: "length (fds pr) = VFSE_MAX_FDS" "0 \<le> next_fd pr" "next_fd pr \<le> int VFSE_MAX_FDS" using pr(2) by (simp_all add: fds_exact_def)
  have p: "p \<noteq> NULL" "p \<in> set (fds pr)" "nat fd < VFSE_MAX_FDS" using f fd l by (auto simp: get_file [OF pr(1)] p_def)
  obtain ff where ff: "vfse_files k p = Some ff" "ref_count ff = int (count_list (fds pr) p)" "0 < count_list (fds pr) p"
    using exact_at [OF pr(2) p(1,2)] by blast
  have fp: "file_pipe ff = NULL" using pr(2) ff(1) by (simp add: fds_exact_def)
  let ?g = "ff\<lparr>ref_count := ref_count ff - 1\<rparr>" and ?pr = "pr\<lparr>fds := (fds pr)[nat fd := NULL], next_fd := min fd (next_fd pr)\<rparr>"
  define k1 where "k1 = k\<lparr>vfse_files := (vfse_files k)(p \<mapsto> ?g)\<rparr>"
  have fr: "vfse_close fd k = map_option (Pair 0) (Option.bind (if ref_count ?g \<le> 0 then vfse_free_file p k1 else Some k1)
      (\<lambda>k2. Some (k2\<lparr>vfse_current := Some ?pr\<rparr>)))"
    using fd f p(1) ff(1) pr(1) by (simp add: vfse_close_def vfse_free_fd_def upd_file_def p_def [symmetric] k1_def Let_def)
  show ?thesis
  proof (cases "count_list (fds pr) p = 1")
    case True
    have "heap_budget k1 b used" "used p \<noteq> None" using ok ff(1) by (auto simp: fds_ok_def k1_def)
    then obtain k2 where k2: "kfree p k1 = Some k2" "heap_budget k2 b (used(p := None))" "heap_only k1 k2"
      using kfree_budget by blast
    define k' where "k' = k2\<lparr>vfse_files := (vfse_files k2)(p := None), vfse_current := Some ?pr\<rparr>"
    note h = heap_only_vfse [OF k2(3)]
    have "vfse_close fd k = Some (0, k')"
      unfolding fr using True ff(2) fp p(1) k2(1) by (simp add: vfse_free_file_def k1_def [symmetric] k'_def) (simp add: k1_def)
    moreover have "fds_exact ?pr ((vfse_files k)(p := None))"
      by (rule exact_unlink [OF pr(2) p(3) p_def [symmetric] p(1), where f = ?g]) (use True ff fp l fd in auto)
    then have "fds_ok k' K b (used(p := None))"
      using ok k2(2) h by (auto simp: fds_ok_def k'_def k1_def)
    ultimately show ?thesis using pr(1) by (intro exI [of _ k'] exI [of _ "used(p := None)"] exI [of _ pr] exI [of _ ?pr]) (simp add: k'_def)
  next
    case False
    define k' where "k' = k1\<lparr>vfse_current := Some ?pr\<rparr>"
    have "vfse_close fd k = Some (0, k')" unfolding fr using False ff(2,3) by (simp add: k'_def)
    moreover have "fds_exact ?pr ((vfse_files k)(p \<mapsto> ?g))"
      by (rule exact_unlink [OF pr(2) p(3) p_def [symmetric] p(1), where f = ?g]) (use False ff fp l fd in auto)
    then have "fds_ok k' K b used" using ok ff(1) by (auto simp: fds_ok_def k'_def k1_def)
    ultimately show ?thesis using pr(1) by (intro exI [of _ k'] exI [of _ used] exI [of _ pr] exI [of _ ?pr]) (simp add: k'_def)
  qed
qed

lemma link_ok:
  assumes ok: "fds_ok k K b used" and pr: "vfse_current k = Some pr" and p: "vfse_files k p = Some ff" "p \<in> set (fds pr)"
    and i: "i < VFSE_MAX_FDS" "fds pr ! i = NULL" and n: "0 \<le> n" "n \<le> int VFSE_MAX_FDS"
  shows "fds_ok (k\<lparr>vfse_files := (vfse_files k)(p \<mapsto> ff\<lparr>ref_count := ref_count ff + 1\<rparr>), vfse_current := Some (pr\<lparr>fds := (fds pr)[i := p], next_fd := n\<rparr>)\<rparr>) K b used"
proof -
  have ex: "fds_exact pr (vfse_files k)" using ok pr by (simp add: fds_ok_def)
  have p0: "p \<noteq> NULL" and fp: "file_pipe ff = NULL" using ex p(1) by (auto simp: fds_exact_def)
  obtain g where "vfse_files k p = Some g" "ref_count g = int (count_list (fds pr) p)" using exact_at [OF ex p0 p(2)] by blast
  then have "fds_exact (pr\<lparr>fds := (fds pr)[i := p], next_fd := n\<rparr>) ((vfse_files k)(p \<mapsto> ff\<lparr>ref_count := ref_count ff + 1\<rparr>))"
    using p(1) fp by (intro exact_link [OF ex i p0 _ _ n]) simp_all
  then show ?thesis using ok p(1) by (auto simp: fds_ok_def)
qed

lemma fds_okD:
  assumes "fds_ok k K b used"
  obtains pr where "vfse_current k = Some pr" "fds_exact pr (vfse_files k)" "length (fds pr) = VFSE_MAX_FDS" "0 \<le> next_fd pr" "next_fd pr \<le> int VFSE_MAX_FDS"
  using assms by (auto simp: fds_ok_def fds_exact_def)

lemma get_file_at:
  assumes ok: "fds_ok k K b used" and pr: "vfse_current k = Some pr" and f: "vfse_get_file fd k \<noteq> NULL"
  obtains ff where "0 \<le> fd" "fd < int VFSE_MAX_FDS" "vfse_get_file fd k = fds pr ! nat fd" "vfse_get_file fd k \<in> set (fds pr)" "vfse_files k (vfse_get_file fd k) = Some ff"
proof -
  have ex: "fds_exact pr (vfse_files k)" "length (fds pr) = VFSE_MAX_FDS" using ok pr by (auto simp: fds_ok_def fds_exact_def)
  have g: "0 \<le> fd" "fd < int VFSE_MAX_FDS" "vfse_get_file fd k = fds pr ! nat fd" using f by (auto simp: get_file [OF pr] split: if_splits)
  then have "vfse_get_file fd k \<in> set (fds pr)" using ex(2) by simp
  then show ?thesis using that g exact_at [OF ex(1) f] by blast
qed

lemma dup_ok:
  assumes ok: "fds_ok k K b used"
  shows "\<exists>r k'. vfse_dup fd k = Some (r, k') \<and> fds_ok k' K b used"
proof (cases "vfse_get_file fd k = NULL")
  case True
  then show ?thesis using ok by (auto simp: vfse_dup_def)
next
  case False
  obtain pr where pr: "vfse_current k = Some pr" "next_fd pr \<le> int VFSE_MAX_FDS" using fds_okD [OF ok] by blast
  define p where "p = vfse_get_file fd k"
  obtain ff where ff: "vfse_files k p = Some ff" "p \<in> set (fds pr)" using get_file_at [OF ok pr(1) False] p_def by metis
  let ?g = "ff\<lparr>ref_count := ref_count ff + 1\<rparr>"
  define k1 where "k1 = k\<lparr>vfse_files := (vfse_files k)(p \<mapsto> ?g)\<rparr>"
  have d: "vfse_dup fd k = (case vfse_alloc_fd p k1 of (newfd, k2) \<Rightarrow>
      if newfd < 0 then map_option (Pair (- 1)) (upd_file p (\<lambda>ff. ff\<lparr>ref_count := ref_count ff - 1\<rparr>) k2) else Some (newfd, k2))"
    using False ff(1) by (simp add: vfse_dup_def p_def [symmetric] upd_file_def k1_def Let_def)
  have pr1: "vfse_current k1 = Some pr" using pr(1) by (simp add: k1_def)
  show ?thesis
  proof (rule alloc_fd_cases [OF pr1 pr(2), of p])
    assume a: "vfse_alloc_fd p k1 = (- 1, k1)"
    have "k1\<lparr>vfse_files := (vfse_files k1)(p \<mapsto> ff)\<rparr> = k" using ff(1) by (simp add: k1_def map_upd_triv)
    then have "vfse_dup fd k = Some (- 1, k)" unfolding d a by (simp add: upd_file_def k1_def)
    then show ?thesis using ok by blast
  next
    fix i assume i: "i < VFSE_MAX_FDS" "fds pr ! i = NULL"
      "vfse_alloc_fd p k1 = (int i, k1\<lparr>vfse_current := Some (pr\<lparr>fds := (fds pr)[i := p], next_fd := int i + 1\<rparr>)\<rparr>)"
    have "vfse_dup fd k = Some (int i, k1\<lparr>vfse_current := Some (pr\<lparr>fds := (fds pr)[i := p], next_fd := int i + 1\<rparr>)\<rparr>)" unfolding d i(3) by simp
    moreover have "fds_ok (k1\<lparr>vfse_current := Some (pr\<lparr>fds := (fds pr)[i := p], next_fd := int i + 1\<rparr>)\<rparr>) K b used"
      unfolding k1_def by (rule link_ok [OF ok pr(1) ff i(1,2)]) (use i(1) in simp_all)
    ultimately show ?thesis by blast
  qed
qed

lemma dup2_ok:
  assumes ok: "fds_ok k K b used" and ne: "oldfd \<noteq> newfd"
  shows "\<exists>r k' used'. vfse_dup2 oldfd newfd k = Some (r, k') \<and> fds_ok k' K b used'"
proof -
  obtain pr where pr: "vfse_current k = Some pr" "length (fds pr) = VFSE_MAX_FDS" using fds_okD [OF ok] by blast
  show ?thesis
  proof (cases "oldfd < 0 \<or> oldfd \<ge> int VFSE_MAX_FDS \<or> newfd < 0 \<or> newfd \<ge> int VFSE_MAX_FDS \<or> fds pr ! nat oldfd = NULL")
    case True
    then show ?thesis using ok pr(1) by (auto simp: vfse_dup2_def)
  next
    case False
    define p where "p = fds pr ! nat oldfd"
    have fd: "0 \<le> newfd" "newfd < int VFSE_MAX_FDS" "nat oldfd < VFSE_MAX_FDS" "nat newfd < VFSE_MAX_FDS" "p \<noteq> NULL" "nat oldfd \<noteq> nat newfd"
      using False ne by (auto simp: p_def)
    obtain k1 pr1 used1 where k1: "(if fds pr ! nat newfd \<noteq> NULL then map_option snd (vfse_close newfd k) else Some k) = Some k1"
        "fds_ok k1 K b used1" "vfse_current k1 = Some pr1" "fds pr1 = (fds pr)[nat newfd := NULL]"
    proof (cases "fds pr ! nat newfd = NULL")
      case True
      then have "(fds pr)[nat newfd := NULL] = fds pr" by (metis list_update_id)
      then show ?thesis using that [of k used pr] True ok pr(1) by simp
    next
      case False
      then have "vfse_get_file newfd k \<noteq> NULL" using fd by (simp add: get_file [OF pr(1)])
      from close_ok [OF ok fd(1,2) this] show ?thesis using that False pr(1) by auto
    qed
    have at: "fds pr1 ! nat newfd = NULL" "p \<in> set (fds pr1)"
      using k1(4) fd pr(2) by (auto simp: p_def in_set_conv_nth intro!: exI [of _ "nat oldfd"])
    have ex: "fds_exact pr1 (vfse_files k1)" "0 \<le> next_fd pr1" "next_fd pr1 \<le> int VFSE_MAX_FDS"
      using k1(2,3) by (auto simp: fds_ok_def fds_exact_def)
    obtain ff where ff: "vfse_files k1 p = Some ff" using exact_at [OF ex(1) fd(5) at(2)] by blast
    let ?k = "k1\<lparr>vfse_files := (vfse_files k1)(p \<mapsto> ff\<lparr>ref_count := ref_count ff + 1\<rparr>), vfse_current := Some (pr1\<lparr>fds := (fds pr1)[nat newfd := p], next_fd := next_fd pr1\<rparr>)\<rparr>"
    have "vfse_dup2 oldfd newfd k = Some (newfd, ?k)"
      using False pr(1) k1(1,3) ff by (simp add: vfse_dup2_def p_def [symmetric] upd_file_def set_fd_def)
    moreover have "fds_ok ?k K b used1" by (rule link_ok [OF k1(2,3) ff at(2) fd(4) at(1) ex(2,3)])
    ultimately show ?thesis by blast
  qed
qed

lemma fcntl_ok:
  assumes ok: "fds_ok k K b used"
  shows "\<exists>r k'. vfse_fcntl fd cmd arg k = Some (r, k') \<and> fds_ok k' K b used"
proof (cases "vfse_get_file fd k = NULL")
  case True
  then show ?thesis using ok by (auto simp: vfse_fcntl_def)
next
  case False
  obtain pr where pr: "vfse_current k = Some pr" "fds_exact pr (vfse_files k)" "0 \<le> next_fd pr" "next_fd pr \<le> int VFSE_MAX_FDS" using fds_okD [OF ok] by blast
  define p where "p = vfse_get_file fd k"
  obtain ff where ff: "vfse_files k p = Some ff" "p \<in> set (fds pr)" using get_file_at [OF ok pr(1) False] p_def by metis
  show ?thesis
  proof (cases "cmd = 0")
    case True
    let ?m = "max 0 (sint (ucast arg :: u32))"
    show ?thesis
    proof (cases "empty_slot pr ?m (int VFSE_MAX_FDS)")
      case None
      have "vfse_fcntl fd cmd arg k = Some (- 1, k\<lparr>vfse_files := (vfse_files k)(p \<mapsto> ff)\<rparr>)"
        using False True ff(1) pr(1) None by (simp add: vfse_fcntl_def p_def [symmetric] upd_file_def Let_def)
      moreover have "k\<lparr>vfse_files := (vfse_files k)(p \<mapsto> ff)\<rparr> = k" using ff(1) by (simp add: map_upd_triv)
      ultimately show ?thesis using ok by simp
    next
      case (Some i)
      note i = empty_slot_at [OF Some]
      let ?k = "k\<lparr>vfse_files := (vfse_files k)(p \<mapsto> ff\<lparr>ref_count := ref_count ff + 1\<rparr>), vfse_current := Some (pr\<lparr>fds := (fds pr)[i := p], next_fd := next_fd pr\<rparr>)\<rparr>"
      have "vfse_fcntl fd cmd arg k = Some (int i, ?k)"
        using False True ff(1) pr(1) Some by (simp add: vfse_fcntl_def p_def [symmetric] upd_file_def set_fd_def Let_def)
      moreover have "fds_ok ?k K b used" by (rule link_ok [OF ok pr(1) ff _ _ pr(3,4)]) (use i in auto)
      ultimately show ?thesis by blast
    qed
  next
    case False': False
    have same: "fds_ok (k\<lparr>vfse_files := (vfse_files k)(p \<mapsto> g)\<rparr>) K b used" if "ref_count g = ref_count ff" "file_pipe g = file_pipe ff" for g
    proof -
      have "fds_exact pr ((vfse_files k)(p \<mapsto> g))" using pr(2) ff(1) that by (auto simp: fds_exact_def split: if_splits)
      then show ?thesis using ok ff(1) pr(1) by (auto simp: fds_ok_def)
    qed
    have fc: "vfse_fcntl fd cmd arg k = (if cmd = 1 then Some (sint (fd_flags ff), k)
        else if cmd = 2 then Some (0, k\<lparr>vfse_files := (vfse_files k)(p \<mapsto> ff\<lparr>fd_flags := ucast arg\<rparr>)\<rparr>)
        else if cmd = 3 then Some (sint (file_flags ff), k)
        else if cmd = 4 then Some (0, k\<lparr>vfse_files := (vfse_files k)(p \<mapsto> ff\<lparr>file_flags := ucast arg\<rparr>)\<rparr>)
        else Some (- 1, k))"
      unfolding vfse_fcntl_def p_def [symmetric] upd_file_def Let_def using False False' ff(1) by (simp add: p_def [symmetric])
    show ?thesis unfolding fc using ok same [of "ff\<lparr>fd_flags := ucast arg\<rparr>"] same [of "ff\<lparr>file_flags := ucast arg\<rparr>"]
      by (cases "cmd = 1"; cases "cmd = 2"; cases "cmd = 3"; cases "cmd = 4") simp_all
  qed
qed

lemma resolve_absolute:
  assumes "fds_ok k K b used"
  shows "vfse_resolve_path path path_max k = None \<or> (\<exists>s. vfse_resolve_path path path_max k = Some (slash # s))"
proof (cases path)
  case None
  then show ?thesis by (simp add: vfse_resolve_path_def)
next
  case (Some s)
  obtain pr where pr: "vfse_current k = Some pr" "cwd pr \<noteq> []" "hd (cwd pr) = slash" using assms by (auto simp: fds_ok_def fds_exact_def)
  obtain c where c: "cwd pr = slash # c" using pr(2,3) by (cases "cwd pr") auto
  have "unat (path_max - 1) = Suc 4094" by (simp add: path_max_def)
  then have "\<exists>t. take (unat (path_max - 1)) s = slash # t" if "s \<noteq> []" "hd s = slash" using that by (cases s) auto
  then show ?thesis using pr(1) c Some by (auto simp: vfse_resolve_path_def Let_def)
qed

lemma resolved_node:
  assumes ok: "fds_ok k K b used" and r: "vfse_resolve_path path path_max k = Some a"
  obtains nd where "vfs_path_to_node fat (Some a) k = Some (nd, k)" "nd \<noteq> NULL \<Longrightarrow> nodes k nd \<noteq> None"
proof -
  obtain s where s: "a = slash # s" using resolve_absolute [OF ok, of path] r by auto
  have v: "vfs_ok k K" "no_mounts k" using ok by (simp_all add: fds_ok_def)
  have root: "nodes k (root_node k) \<noteq> None" using vfs_okD(7) [OF v(1)] by auto
  let ?r = "resolve k K (root_node k) (comps s)"
  have "nodes k (or_null ?r) \<noteq> None" if "or_null ?r \<noteq> NULL" using that resolve_node [OF v(1) _ root] by (cases ?r) auto
  then show ?thesis using that lookup_resolve [OF v, of fat s] s by simp
qed

lemma alloc_file_ok:
  assumes "heap_budget k (Suc b) used"
  shows "\<exists>f k' n. vfse_alloc_file k = Some (f, k') \<and> f \<noteq> NULL \<and> used f = None \<and> heap_budget k' b (used(f \<mapsto> n)) \<and>
    vfse_files k' = (vfse_files k)(f \<mapsto> zero_file) \<and> vfse_current k' = vfse_current k \<and> pipes k' = pipes k \<and> nodes k' = nodes k \<and> root_node k' = root_node k \<and> kept k used k'"
proof -
  have "heap_budget k (b + pages_for sizeof_vfse_file_t) used" "sizeof_vfse_file_t \<noteq> 0"
    using assms by (simp_all add: pages_for_def sizeof_vfse_file_t_def)
  from alloc_zeroed [OF this] obtain f k1 n and k2 :: "'a vfse_machine_scheme" where
    a: "kmalloc sizeof_vfse_file_t k = Some (f, k1)" "heap_memset f 0 sizeof_vfse_file_t k1 = Some k2" "f \<noteq> NULL" "used f = None"
      "heap_budget k2 b (used(f \<mapsto> n))" "heap_only k k2" "kept k used k2" by blast
  define k' where "k' = k2\<lparr>vfse_files := (vfse_files k2)(f \<mapsto> zero_file)\<rparr>"
  have "vfse_alloc_file k = Some (f, k')" using a(1-3) by (simp add: vfse_alloc_file_def k'_def)
  moreover have "kept k used k'" using a(7) by (simp add: kept_def k'_def)
  ultimately show ?thesis using a heap_only_vfse [OF a(6)] heap_only_nodes [OF a(6)]
    by (intro exI [of _ f] exI [of _ k'] exI [of _ n]) (simp add: k'_def)
qed

lemma open_ok:
  assumes ok: "fds_ok k K (Suc b) used"
  shows "\<exists>r k' used'. vfse_open fat path flags k = Some (r, k') \<and> fds_ok k' K b used'"
proof -
  have weak: "fds_ok k K b used" using ok by (auto simp: fds_ok_def heap_budget_def heap_room_def)
  show ?thesis
  proof (cases "vfse_resolve_path path path_max k")
    case None
    then show ?thesis using weak by (auto simp: vfse_open_def)
  next
    case (Some a)
    obtain nd where nd: "vfs_path_to_node fat (Some a) k = Some (nd, k)" "nd \<noteq> NULL \<Longrightarrow> nodes k nd \<noteq> None"
      using resolved_node [OF ok Some] by blast
    show ?thesis
    proof (cases "nd = NULL")
      case True
      then show ?thesis using weak Some nd(1) by (auto simp: vfse_open_def)
    next
      case False
      then obtain n where n: "nodes k nd = Some n" using nd(2) by auto
      show ?thesis
      proof (cases "flags AND VFSE_O_DIRECTORY \<noteq> 0 \<and> node_type n \<noteq> VFS_DIRECTORY")
        case True
        then show ?thesis using weak Some nd(1) False n by (auto simp: vfse_open_def)
      next
        case dir: False
        have hb: "heap_budget k (Suc b) used" using ok by (simp add: fds_ok_def)
        from alloc_file_ok [OF hb] obtain f k2 j where
          f: "vfse_alloc_file k = Some (f, k2)" "f \<noteq> NULL" "used f = None" "heap_budget k2 b (used(f \<mapsto> j))" "vfse_files k2 = (vfse_files k)(f \<mapsto> zero_file)"
            "vfse_current k2 = vfse_current k" "nodes k2 = nodes k" "root_node k2 = root_node k" by blast
        obtain pr where pr: "vfse_current k = Some pr" "fds_exact pr (vfse_files k)" "next_fd pr \<le> int VFSE_MAX_FDS" using fds_okD [OF ok] by blast
        have fresh: "vfse_files k f = None" using ok f(3) by (auto simp: fds_ok_def)
        then have c0: "count_list (fds pr) f = 0" using pr(2) f(2) by (auto simp: fds_exact_def split: if_splits)
        define g where "g = \<lparr>file_node = nd, file_pos = if flags AND VFSE_O_APPEND \<noteq> 0 then node_size n else 0, file_flags = flags, fd_flags = 0, ref_count = 1, file_pipe = NULL\<rparr>"
        define k4 where "k4 = k2\<lparr>vfse_files := (vfse_files k)(f \<mapsto> g)\<rparr>"
        have op: "vfse_open fat path flags k = (case vfse_alloc_fd f k4 of
            (fd, k5) \<Rightarrow> if fd < 0 then map_option (Pair (- 1)) (vfse_free_file f k5) else Some (fd, k5))"
          using Some nd(1) False n dir f(1,2,5,7)
          by (auto simp: vfse_open_def upd_file_def k4_def g_def zero_file_def simp del: fun_upd_apply)
            (auto simp: upd_file_def k4_def g_def zero_file_def)
        have base: "heap_budget k4 b (used(f \<mapsto> j))" "vfs_ok k4 K" "no_mounts k4" "vfse_current k4 = Some pr" "vfse_files k4 = (vfse_files k)(f \<mapsto> g)"
          using f(4,6) ok pr(1) vfs_ok_same [OF f(7,8)] by (simp_all add: k4_def fds_ok_def)
        show ?thesis
        proof (rule alloc_fd_cases [OF base(4) pr(3), of f])
          assume a: "vfse_alloc_fd f k4 = (- 1, k4)"
          obtain k5 where k5: "kfree f k4 = Some k5" "heap_budget k5 b (used(f \<mapsto> j, f := None))" "heap_only k4 k5"
            using kfree_budget [OF base(1), of f] by auto
          note h = heap_only_vfse [OF k5(3)]
          define k6 where "k6 = k5\<lparr>vfse_files := (vfse_files k5)(f := None)\<rparr>"
          have "vfse_open fat path flags k = Some (- 1, k6)" unfolding op a using f(2) base(5) k5(1) by (simp add: vfse_free_file_def g_def k6_def)
          moreover have "vfse_files k6 = vfse_files k" using h(1) base(5) fresh by (auto simp: k6_def)
          then have "fds_ok k6 K b used" using k5(2) h base ok pr f(3) by (auto simp: fds_ok_def k6_def fun_upd_idem)
          ultimately show ?thesis by blast
        next
          fix i assume i: "i < VFSE_MAX_FDS" "fds pr ! i = NULL"
            "vfse_alloc_fd f k4 = (int i, k4\<lparr>vfse_current := Some (pr\<lparr>fds := (fds pr)[i := f], next_fd := int i + 1\<rparr>)\<rparr>)"
          let ?pr = "pr\<lparr>fds := (fds pr)[i := f], next_fd := int i + 1\<rparr>"
          have "vfse_open fat path flags k = Some (int i, k4\<lparr>vfse_current := Some ?pr\<rparr>)" unfolding op i(3) by simp
          moreover have "fds_exact ?pr ((vfse_files k)(f \<mapsto> g))"
            by (rule exact_link [OF pr(2) i(1,2) f(2)]) (use i(1) c0 in \<open>simp_all add: g_def\<close>)
          then have "fds_ok (k4\<lparr>vfse_current := Some ?pr\<rparr>) K b (used(f \<mapsto> j))" using base ok by (auto simp: fds_ok_def)
          ultimately show ?thesis by blast
        qed
      qed
    qed
  qed
qed

lemma chdir_ok:
  assumes ok: "fds_ok k K b used"
  shows "\<exists>r k'. vfse_chdir fat path k = Some (r, k') \<and> fds_ok k' K b used"
proof -
  obtain pr where pr: "vfse_current k = Some pr" "fds_exact pr (vfse_files k)" using fds_okD [OF ok] by blast
  show ?thesis
  proof (cases "vfse_resolve_path path path_max k")
    case None
    then show ?thesis using ok by (auto simp: vfse_chdir_def)
  next
    case (Some a)
    obtain nd where nd: "vfs_path_to_node fat (Some a) k = Some (nd, k)" "nd \<noteq> NULL \<Longrightarrow> nodes k nd \<noteq> None"
      using resolved_node [OF ok Some] by blast
    obtain s where s: "a = slash # s" using resolve_absolute [OF ok, of path] Some by auto
    have "fds_exact (pr\<lparr>cwd := take 4095 a\<rparr>) (vfse_files k)" using pr(2) by (simp add: fds_exact_def s)
    then have "fds_ok (k\<lparr>vfse_current := Some (pr\<lparr>cwd := take 4095 a\<rparr>)\<rparr>) K b used" using ok by (simp add: fds_ok_def)
    then show ?thesis using ok pr(1) Some nd by (cases "nd = NULL") (auto simp: vfse_chdir_def)
  qed
qed

text \<open>A client that opens, closes and duplicates descriptors and changes directory in any order.\<close>

datatype fd_call = Open cstring u32 | Close int | Dup int | Dup2 int int | Fcntl int int u64 | Chdir cstring

primrec fd_step :: "('a vfse_machine_scheme) find_node \<Rightarrow> fd_call \<Rightarrow> 'a vfse_machine_scheme \<Rightarrow> (int \<times> 'a vfse_machine_scheme) option" where
  "fd_step fat (Open path flags) k = vfse_open fat path flags k"
| "fd_step fat (Close fd) k = vfse_close fd k"
| "fd_step fat (Dup fd) k = vfse_dup fd k"
| "fd_step fat (Dup2 a b) k = vfse_dup2 a b k"
| "fd_step fat (Fcntl fd cmd arg) k = vfse_fcntl fd cmd arg k"
| "fd_step fat (Chdir path) k = vfse_chdir fat path k"

primrec fd_run :: "('a vfse_machine_scheme) find_node \<Rightarrow> fd_call list \<Rightarrow> 'a vfse_machine_scheme \<Rightarrow> (int list \<times> 'a vfse_machine_scheme) option" where
  "fd_run fat [] k = Some ([], k)"
| "fd_run fat (c # cs) k = do { (r, k1) \<leftarrow> fd_step fat c k; (rs, k2) \<leftarrow> fd_run fat cs k1; Some (r # rs, k2) }"

primrec opens :: "fd_call list \<Rightarrow> nat" where
  "opens [] = 0"
| "opens (c # cs) = (case c of Open p f \<Rightarrow> 1 | _ \<Rightarrow> 0) + opens cs"

lemma fd_step_ok:
  assumes ok: "fds_ok k K (opens [c] + b) used" and self: "\<forall>a. c \<noteq> Dup2 a a"
  shows "\<exists>r k' used'. fd_step fat c k = Some (r, k') \<and> fds_ok k' K b used'"
proof (cases c)
  case (Open path flags)
  then show ?thesis using open_ok [of k K b used] ok by simp
next
  case (Close fd)
  then have k: "fds_ok k K b used" using ok by simp
  obtain pr where pr: "vfse_current k = Some pr" using fds_okD [OF k] by blast
  show ?thesis
  proof (cases "vfse_get_file fd k = NULL")
    case True
    then show ?thesis using k Close by (auto simp: vfse_close_def)
  next
    case False
    then have "0 \<le> fd" "fd < int VFSE_MAX_FDS" by (auto simp: get_file [OF pr] split: if_splits)
    then show ?thesis using close_ok [OF k _ _ False] Close by auto
  qed
next
  case (Dup fd)
  then show ?thesis using dup_ok [of k K b used fd] ok by auto
next
  case (Dup2 a d)
  then show ?thesis using dup2_ok [of k K b used a d] ok self by auto
next
  case (Fcntl fd cmd arg)
  then show ?thesis using fcntl_ok [of k K b used fd cmd arg] ok by auto
next
  case (Chdir path)
  then show ?thesis using chdir_ok [of k K b used fat path] ok by auto
qed

lemma fd_run_ok:
  "fds_ok k K (opens cs + b) used \<Longrightarrow> \<forall>a. Dup2 a a \<notin> set cs \<Longrightarrow> \<exists>rs k' used'. fd_run fat cs k = Some (rs, k') \<and> fds_ok k' K b used'"
proof (induction cs arbitrary: k used)
  case (Cons c cs)
  have "fds_ok k K (opens [c] + (opens cs + b)) used" using Cons.prems(1) by (simp add: add.assoc)
  moreover have "\<forall>a. c \<noteq> Dup2 a a" using Cons.prems(2) by auto
  ultimately obtain r k1 used1 where
    1: "fd_step fat c k = Some (r, k1)" "fds_ok k1 K (opens cs + b) used1" using fd_step_ok by blast
  from Cons.IH [OF 1(2)] Cons.prems(2) obtain rs k2 used2 where "fd_run fat cs k1 = Some (rs, k2)" "fds_ok k2 K b used2" by auto
  then show ?case using 1(1) by auto
qed auto

lemma vfse_init_ok:
  assumes v: "vfs_ok k K" "no_mounts k" and b: "heap_budget k (b + 2) used" and e: "vfse_files k = Map.empty"
  shows "\<exists>k' used'. vfse_init k = Some k' \<and> fds_ok k' K b used'"
proof -
  have "heap_budget k (b + pages_for sizeof_vfse_process_t) used" "sizeof_vfse_process_t \<noteq> 0"
    using b by (simp_all add: pages_for_def sizeof_vfse_process_t_def)
  from alloc_zeroed [OF this] obtain p k1 n and k2 :: "'a vfse_machine_scheme" where
    a: "kmalloc sizeof_vfse_process_t k = Some (p, k1)" "heap_memset p 0 sizeof_vfse_process_t k1 = Some k2" "p \<noteq> NULL"
      "heap_budget k2 b (used(p \<mapsto> n))" "heap_only k k2" by blast
  note h = heap_only_vfse [OF a(5)]
  let ?pr = "\<lparr>fds = replicate VFSE_MAX_FDS NULL, cwd = [slash], next_fd = 3\<rparr>"
  have "count_list (replicate VFSE_MAX_FDS NULL) q = 0" if "q \<noteq> NULL" for q using that by (simp add: count_list_0_iff)
  then have "fds_exact ?pr (vfse_files k2)" by (simp add: fds_exact_def h(1) e VFSE_MAX_FDS_def)
  then have "fds_ok (k2\<lparr>vfse_current := Some ?pr\<rparr>) K b (used(p \<mapsto> n))" using a(4) h v e by (simp add: fds_ok_def)
  moreover have "vfse_init k = Some (k2\<lparr>vfse_current := Some ?pr\<rparr>)" using a(1-3) by (simp add: vfse_init_def)
  ultimately show ?thesis by blast
qed

section \<open>Properties\<close>

text \<open>
  C36: From \<^verbatim>\<open>vfse_init\<close> on, with heap for the files that are opened, any sequence of \<^verbatim>\<open>vfse_open\<close>,
  \<^verbatim>\<open>vfse_close\<close>, \<^verbatim>\<open>vfse_dup\<close>, \<^verbatim>\<open>vfse_dup2\<close> of two different descriptors, \<^verbatim>\<open>vfse_fcntl\<close> and \<^verbatim>\<open>vfse_chdir\<close> with
  any arguments returns from every call, and afterwards exactly the files that some descriptor
  names exist, each with the number of its descriptors as its reference count.
\<close>

theorem vfse_descriptors_exact:
  assumes "vfs_ok k K" "no_mounts k" "heap_budget k (opens cs + 2) used" "vfse_files k = Map.empty" "\<forall>a. Dup2 a a \<notin> set cs"
  shows "\<exists>k0 rs k' pr. vfse_init k = Some k0 \<and> fd_run fat cs k0 = Some (rs, k') \<and> vfse_current k' = Some pr \<and>
    (\<forall>p. p \<noteq> NULL \<longrightarrow> map_option ref_count (vfse_files k' p) = (if p \<in> set (fds pr) then Some (int (count_list (fds pr) p)) else None))"
proof -
  obtain k0 used0 where k0: "vfse_init k = Some k0" "fds_ok k0 K (opens cs + 0) used0" using vfse_init_ok [OF assms(1-4)] by auto
  obtain rs k' used' where r: "fd_run fat cs k0 = Some (rs, k')" "fds_ok k' K 0 used'" using fd_run_ok [OF k0(2) assms(5)] by blast
  obtain pr where pr: "vfse_current k' = Some pr" "fds_exact pr (vfse_files k')" using fds_okD [OF r(2)] by blast
  have "\<forall>p. p \<noteq> NULL \<longrightarrow> map_option ref_count (vfse_files k' p) = (if p \<in> set (fds pr) then Some (int (count_list (fds pr) p)) else None)"
    using pr(2) by (simp add: fds_exact_def count_list_0_iff)
  then show ?thesis using k0(1) r(1) pr(1) by blast
qed

lemma boot_vfse:
  "\<exists>(k :: vfse_machine) K used. vfs_ok k K \<and> no_mounts k \<and> heap_budget k 40 used \<and> vfse_files k = Map.empty"
proof -
  obtain k0 :: vfse_machine and used where k0: "vfs_ok k0 (\<lambda>_. [])" "no_mounts k0" "nodes_used k0 40 used"
    using boot_vfs [where ?'a = "\<lparr>vfse_files :: ptr \<rightharpoonup> vfse_file_t, pipes :: ptr \<rightharpoonup> vfse_pipe_t, vfse_current :: vfse_process_t option\<rparr>"] by blast
  let ?k = "k0\<lparr>vfse_files := Map.empty\<rparr>"
  have "vfs_ok ?k (\<lambda>_. [])" "no_mounts ?k" "heap_budget ?k 40 used" "vfse_files ?k = Map.empty" using k0 by (simp_all add: nodes_used_def)
  then show ?thesis by blast
qed

theorem vfse_descriptors_exact_witness:
  "\<exists>(k :: vfse_machine) k0 rs k' pr. vfse_init k = Some k0 \<and>
    fd_run (\<lambda>_ _ k. Some (NULL, k)) [Open (Some [slash]) 0, Dup 3, Dup2 3 7, Close 3, Chdir (Some [0x78]), Fcntl 7 0 0] k0 = Some (rs, k') \<and> vfse_current k' = Some pr"
proof -
  obtain k :: vfse_machine and K used where k: "vfs_ok k K" "no_mounts k" "heap_budget k 40 used" "vfse_files k = Map.empty" using boot_vfse by blast
  let ?cs = "[Open (Some [slash]) 0, Dup 3, Dup2 3 7, Close 3, Chdir (Some [0x78]), Fcntl 7 0 0]"
  have "heap_budget k (opens ?cs + 2) used" using k(3) by (simp add: heap_budget_def heap_room_def)
  moreover have "\<forall>a. Dup2 a a \<notin> set ?cs" by simp
  ultimately show ?thesis using vfse_descriptors_exact [OF k(1,2) _ k(4), of ?cs used "\<lambda>_ _ k. Some (NULL, k)"] by blast
qed

text \<open>
  \<^verbatim>\<open>vfse_dup2\<close> of a descriptor onto itself, when it is the only one of its file: the file is
  released, and then used.
\<close>

theorem vfse_dup2_self_dangles:
  assumes "fds_ok k K b used" "vfse_current k = Some pr" "vfse_get_file fd k = f" "f \<noteq> NULL" "count_list (fds pr) f = 1"
  shows "\<exists>k1. vfse_close fd k = Some (0, k1) \<and> vfse_files k1 f = None \<and> vfse_dup2 fd fd k = None"
proof -
  have fd: "0 \<le> fd" "fd < int VFSE_MAX_FDS" "fds pr ! nat fd = f" using assms(3,4) by (auto simp: get_file [OF assms(2)] split: if_splits)
  obtain k1 used1 pr1 where k1: "vfse_close fd k = Some (0, k1)" "fds_ok k1 K b used1" "vfse_current k1 = Some pr1" "fds pr1 = (fds pr)[nat fd := NULL]"
    using close_ok [OF assms(1) fd(1,2)] assms(2-4) by auto
  have "length (fds pr) = VFSE_MAX_FDS" using assms(1,2) by (auto simp: fds_ok_def fds_exact_def)
  then have "count_list (fds pr1) f = 0" using count_list_update [of "nat fd" "fds pr" NULL f] fd assms(4,5) by (simp add: k1(4))
  then have none: "vfse_files k1 f = None" using k1(2,3) assms(4) by (auto simp: fds_ok_def fds_exact_def)
  moreover have "vfse_dup2 fd fd k = None" using assms(2,4) fd k1(1) none by (auto simp: vfse_dup2_def upd_file_def Let_def)
  ultimately show ?thesis using k1(1) by blast
qed

section \<open>Pipes\<close>

lemma store_used:
  assumes ok: "heap_ok k used" and p: "used p = Some n" "i < n"
  shows "\<exists>k'. store8 (p + of_nat i) v k = Some k' \<and> heap_ok k' used \<and> heap_only k k' \<and> hmem k' = (hmem k)(p + of_nat i := v)"
proof -
  obtain L sl fr where inv: "heap_inv k L sl fr used" using ok by (auto simp: heap_ok_def)
  have b: "in_block p n (p + of_nat i)" by (rule in_block_offset) (use p(2) used_extent [OF inv p(1)] in simp_all)
  obtain k' where k': "store8 (p + of_nat i) v k = Some k'" "stored k L ((hmem k)(p + of_nat i := v)) k'"
    using store_heap(3) [OF heap_invD(1) [OF inv] used_in_heap [OF inv p(1) b]] by blast
  have "heap_inv k' L sl fr used" by (rule used_write [OF inv p(1) _ k'(2)]) (use b in auto)
  then show ?thesis using k'(1) storedD(2,5) [OF k'(2)] by (auto simp: heap_ok_def)
qed

lemma load_used:
  assumes ok: "heap_ok k used" and p: "used p = Some n" "i < n"
  shows "load8 (p + of_nat i) k = Some (hmem k (p + of_nat i))"
proof -
  obtain L sl fr where inv: "heap_inv k L sl fr used" using ok by (auto simp: heap_ok_def)
  have "in_block p n (p + of_nat i)" by (rule in_block_offset) (use p(2) used_extent [OF inv p(1)] in simp_all)
  then show ?thesis by (rule used_load [OF ok p(1)])
qed

lemma used_apart:
  assumes ok: "heap_ok k used" and p: "used p = Some n" "i < n" and q: "used q = Some m" "j < m" "p \<noteq> q"
  shows "p + of_nat i \<noteq> q + of_nat j"
proof
  assume e: "p + of_nat i = q + of_nat j"
  obtain L sl fr where inv: "heap_inv k L sl fr used" using ok by (auto simp: heap_ok_def)
  have "in_block p n (p + of_nat i)" "in_block q m (q + of_nat j)"
    using in_block_offset used_extent [OF inv p(1)] used_extent [OF inv q(1)] p(2) q(2) by simp_all
  then have "p = q" using used_disjoint [OF inv p(1) q(1)] e by metis
  then show False using q(3) by simp
qed

lemma heap_ok_vfse [simp]:
  fixes k :: "'a vfse_machine_scheme"
  shows "heap_ok (k\<lparr>vfse_files := x\<rparr>) used = heap_ok k used" "heap_ok (k\<lparr>vfse_current := y\<rparr>) used = heap_ok k used" "heap_ok (k\<lparr>pipes := z\<rparr>) used = heap_ok k used"
  by (rule heap_ok_cong; simp)+

text \<open>What a pipe holds: the ring in its buffer.\<close>

definition cells :: "'a slab_machine_scheme \<Rightarrow> ptr \<Rightarrow> u8 list" where
  "cells k b = map (\<lambda>i. hmem k (b + of_nat i)) [0..<4096]"

definition pipe_at :: "'a vfse_machine_scheme \<Rightarrow> (ptr \<rightharpoonup> nat) \<Rightarrow> ptr \<Rightarrow> ptr \<Rightarrow> u8 list \<Rightarrow> bool" where
  "pipe_at k used p b q \<longleftrightarrow> heap_ok k used \<and> (\<exists>r w n. pipes k p = Some \<lparr>pipe_buffer = b, pipe_size = 4096, read_pos = of_nat r, write_pos = of_nat w, read_closed = False, write_closed = False\<rparr> \<and>
     used b = Some n \<and> 4096 \<le> n \<and> r < 4096 \<and> w < 4096 \<and> q = ring 4096 (cells k b) w r)"

lemma small_words:
  fixes r w :: nat
  assumes "r < 4096" "w < 4096"
  shows "(of_nat r :: u64) = of_nat w \<longleftrightarrow> r = w" "((of_nat w :: u64) + 1) mod 4096 = of_nat (Suc w mod 4096)"
    "(if (of_nat w :: u64) + 1 \<ge> 4096 then 0 else of_nat w + 1) = (of_nat (Suc w mod 4096) :: u64)" "of_nat w < (4096 :: u64)"
proof -
  have u: "unat (of_nat r :: u64) = r" "unat (of_nat w :: u64) = w" "unat (of_nat (Suc w) :: u64) = Suc w" "unat (of_nat (Suc w mod 4096) :: u64) = Suc w mod 4096"
    using assms by (simp_all add: unat_of_nat del: of_nat_Suc)
  show "(of_nat r :: u64) = of_nat w \<longleftrightarrow> r = w" using u(1,2) by metis
  have s: "(of_nat w :: u64) + 1 = of_nat (Suc w)" by simp
  have "unat ((of_nat (Suc w) :: u64) mod 4096) = unat (of_nat (Suc w mod 4096) :: u64)" unfolding u(4) unat_mod u(3) by simp
  then show "((of_nat w :: u64) + 1) mod 4096 = of_nat (Suc w mod 4096)" unfolding s by (simp only: word_unat_eq_iff)
  show "(if (of_nat w :: u64) + 1 \<ge> 4096 then 0 else of_nat w + 1) = (of_nat (Suc w mod 4096) :: u64)"
    unfolding s using assms(2) u(3) by (cases "Suc w = 4096") (auto simp: word_le_nat_alt simp del: of_nat_Suc)
  show "of_nat w < (4096 :: u64)" using u(2) assms(2) by (simp add: word_less_nat_alt)
qed

lemma cells_store:
  assumes "hmem k' = (hmem k)(b + of_nat w := v)" "w < 4096"
  shows "cells k' b = (cells k b)[w := v]"
proof (rule nth_equalityI)
  fix i assume "i < length (cells k' b)"
  then have i: "i < 4096" by (simp add: cells_def)
  have "b + of_nat i = b + of_nat w \<longleftrightarrow> i = w" using small_words(1) [OF i assms(2)] by simp
  then show "cells k' b ! i = (cells k b)[w := v] ! i" using i assms by (simp add: cells_def nth_list_update)
qed (simp add: cells_def)

lemma cells_length [simp]: "length (cells k b) = 4096"
  by (simp add: cells_def)

lemma write_step:
  assumes at: "pipe_at k used p b q" and room: "length q < 4095" and src: "used src = Some sn" "n < sn" "src \<noteq> b" and n: "n < count"
  shows "\<exists>k2. pipe_write_loop p src count n k = pipe_write_loop p src count (Suc n) k2 \<and> pipe_at k2 used p b (q @ [hmem k (src + of_nat n)]) \<and>
    (\<forall>x. \<not> in_block b 4096 x \<longrightarrow> hmem k2 x = hmem k x) \<and> vfse_files k2 = vfse_files k \<and> vfse_current k2 = vfse_current k"
proof -
  obtain r w m where pp: "pipes k p = Some \<lparr>pipe_buffer = b, pipe_size = 4096, read_pos = of_nat r, write_pos = of_nat w, read_closed = False, write_closed = False\<rparr>"
      "used b = Some m" "4096 \<le> m" "r < 4096" "w < 4096" "q = ring 4096 (cells k b) w r" and ok: "heap_ok k used"
    using at unfolding pipe_at_def by blast
  have rk: "ring_ok 4096 (cells k b) w r" using pp by (simp add: ring_ok_def)
  have nf: "Suc w mod 4096 \<noteq> r" using ring_full_iff [OF rk] room pp(6) by simp
  let ?v = "hmem k (src + of_nat n)"
  obtain k1 where k1: "store8 (b + of_nat w) ?v k = Some k1" "heap_ok k1 used" "heap_only k k1" "hmem k1 = (hmem k)(b + of_nat w := ?v)"
    using store_used [OF ok pp(2), of w ?v] pp(3,5) by auto
  note h = heap_only_vfse [OF k1(3)]
  let ?pp = "\<lparr>pipe_buffer = b, pipe_size = 4096, read_pos = of_nat r, write_pos = of_nat (Suc w mod 4096), read_closed = False, write_closed = False\<rparr>"
  define k2 where "k2 = k1\<lparr>pipes := (pipes k1)(p \<mapsto> ?pp)\<rparr>"
  have ne: "(of_nat (Suc w mod 4096) :: u64) \<noteq> of_nat r" using small_words(1) [of "Suc w mod 4096" r] pp(4) nf by simp
  have "pipe_write_loop p src count n k = pipe_write_loop p src count (Suc n) k2"
    using n pp(1) load_used [OF ok src(1,2)] k1(1) ne h(3)
    by (subst pipe_write_loop.simps) (simp add: small_words(2) [OF pp(5,5)] Let_def upd_pipe_def k2_def del: of_nat_mod)
  moreover have "cells k2 b = (cells k b)[w := ?v]" using cells_store [OF _ pp(5), of k2 k b ?v] k1(4) by (simp add: k2_def)
  then have "ring 4096 (cells k2 b) (Suc w mod 4096) r = q @ [?v]" using ring_put [OF rk nf] pp(6) by simp
  then have "pipe_at k2 used p b (q @ [?v])"
    unfolding pipe_at_def using k1(2) pp(2-4) by (intro conjI exI [of _ r] exI [of _ "Suc w mod 4096"] exI [of _ m]) (simp_all add: k2_def)
  moreover have "hmem k2 x = hmem k x" if "\<not> in_block b 4096 x" for x
    using that in_block_offset [of w 4096 b] pp(5) by (auto simp: k2_def k1(4))
  ultimately show ?thesis using h(1,2) by (intro exI [of _ k2]) (simp add: k2_def)
qed

lemma write_full:
  assumes at: "pipe_at k used p b q" and full: "length q = 4095"
  shows "pipe_write_loop p src count n k = Some (n, k)"
proof -
  obtain r w where pp: "pipes k p = Some \<lparr>pipe_buffer = b, pipe_size = 4096, read_pos = of_nat r, write_pos = of_nat w, read_closed = False, write_closed = False\<rparr>"
      "r < 4096" "w < 4096" "q = ring 4096 (cells k b) w r"
    using at unfolding pipe_at_def by blast
  have "Suc w mod 4096 = r" using ring_full_iff [of 4096 "cells k b" w r] pp full by (simp add: ring_ok_def)
  then show ?thesis using pp(1) small_words(2) [OF pp(3,3)] by (subst pipe_write_loop.simps) simp
qed

lemma pipe_bound: "pipe_at k used p b q \<Longrightarrow> length q \<le> 4095"
proof -
  assume "pipe_at k used p b q"
  then obtain r w where "r < 4096" "w < 4096" "q = ring 4096 (cells k b) w r" unfolding pipe_at_def by blast
  then show ?thesis using ring_bound [of 4096 "cells k b" w r] by (simp add: ring_ok_def)
qed

lemma write_loop:
  assumes "pipe_at k used p b q" "used src = Some sn" "count \<le> sn" "src \<noteq> b" "n \<le> count"
  shows "\<exists>k'. pipe_write_loop p src count n k = Some (n + min (count - n) (4095 - length q), k') \<and>
    pipe_at k' used p b (q @ map (\<lambda>i. hmem k (src + of_nat (n + i))) [0..<min (count - n) (4095 - length q)]) \<and>
    (\<forall>x. \<not> in_block b 4096 x \<longrightarrow> hmem k' x = hmem k x) \<and> vfse_files k' = vfse_files k \<and> vfse_current k' = vfse_current k"
  using assms(1,5)
proof (induction "count - n" arbitrary: n k q)
  case 0
  then show ?case by (subst pipe_write_loop.simps) (intro exI [of _ k], simp)
next
  case (Suc d)
  then have n: "n < count" "d = count - Suc n" by simp_all
  show ?case
  proof (cases "length q = 4095")
    case True
    then show ?thesis using Suc.prems(1) write_full [OF Suc.prems(1) True] by (intro exI [of _ k]) simp
  next
    case False
    then have room: "length q < 4095" using pipe_bound [OF Suc.prems(1)] by simp
    obtain k2 where k2: "pipe_write_loop p src count n k = pipe_write_loop p src count (Suc n) k2" "pipe_at k2 used p b (q @ [hmem k (src + of_nat n)])"
        "\<forall>x. \<not> in_block b 4096 x \<longrightarrow> hmem k2 x = hmem k x" "vfse_files k2 = vfse_files k" "vfse_current k2 = vfse_current k"
      using write_step [OF Suc.prems(1) room assms(2) _ assms(4) n(1)] n(1) assms(3) by auto
    let ?m = "min (count - Suc n) (4095 - Suc (length q))"
    obtain k' where k': "pipe_write_loop p src count (Suc n) k2 = Some (Suc n + ?m, k')"
        "pipe_at k' used p b ((q @ [hmem k (src + of_nat n)]) @ map (\<lambda>i. hmem k2 (src + of_nat (Suc n + i))) [0..<?m])"
        "\<forall>x. \<not> in_block b 4096 x \<longrightarrow> hmem k' x = hmem k2 x" "vfse_files k' = vfse_files k2" "vfse_current k' = vfse_current k2"
      using Suc.hyps(1) [OF n(2) k2(2)] n(1) by auto
    have m: "min (count - n) (4095 - length q) = Suc ?m" using n room by simp
    have far: "\<not> in_block b 4096 (src + of_nat j)" if j: "j < sn" for j
    proof
      obtain nb where b: "used b = Some nb" "4096 \<le> nb" and ok: "heap_ok k used" using Suc.prems(1) unfolding pipe_at_def by blast
      assume "in_block b 4096 (src + of_nat j)"
      then obtain i where "i < 4096" "src + of_nat j = b + of_nat i" by (rule in_blockE)
      then show False using used_apart [OF ok assms(2) j b(1) _ assms(4), of i] b(2) by simp
    qed
    have "hmem k2 (src + of_nat (Suc n + i)) = hmem k (src + of_nat (Suc n + i))" if "i < ?m" for i
    proof -
      have "i < count - Suc n" using that by simp
      then have "Suc n + i < sn" using assms(3) by linarith
      then show ?thesis using k2(3) far by blast
    qed
    then have "map (\<lambda>i. hmem k2 (src + of_nat (Suc n + i))) [0..<?m] = map (\<lambda>i. hmem k (src + of_nat (Suc n + i))) [0..<?m]"
      by (intro map_cong refl) simp
    then have "(q @ [hmem k (src + of_nat n)]) @ map (\<lambda>i. hmem k2 (src + of_nat (Suc n + i))) [0..<?m] = q @ map (\<lambda>i. hmem k (src + of_nat (n + i))) [0..<Suc ?m]"
      by (simp add: map_upt_Suc del: upt_Suc of_nat_Suc of_nat_add)
    then show ?thesis using k2 k' unfolding m by (intro exI [of _ k']) simp
  qed
qed

lemma read_empty:
  assumes "pipe_at k used p b []"
  shows "pipe_read_loop p dst count n k = Some (n, k)"
proof -
  obtain r w where pp: "pipes k p = Some \<lparr>pipe_buffer = b, pipe_size = 4096, read_pos = of_nat r, write_pos = of_nat w, read_closed = False, write_closed = False\<rparr>"
      "r < 4096" "w < 4096" "[] = ring 4096 (cells k b) w r"
    using assms unfolding pipe_at_def by blast
  have "w = r" using ring_empty_iff [of 4096 "cells k b" w r] pp by (simp add: ring_ok_def)
  then show ?thesis using pp(1) by (subst pipe_read_loop.simps) simp
qed

lemma read_step:
  assumes at: "pipe_at k used p b (c # q)" and dst: "used dst = Some dn" "n < dn" "dst \<noteq> b" and n: "n < count"
  shows "\<exists>k2. pipe_read_loop p dst count n k = pipe_read_loop p dst count (Suc n) k2 \<and> pipe_at k2 used p b q \<and>
    hmem k2 = (hmem k)(dst + of_nat n := c) \<and> vfse_files k2 = vfse_files k \<and> vfse_current k2 = vfse_current k"
proof -
  obtain r w m where pp: "pipes k p = Some \<lparr>pipe_buffer = b, pipe_size = 4096, read_pos = of_nat r, write_pos = of_nat w, read_closed = False, write_closed = False\<rparr>"
      "used b = Some m" "4096 \<le> m" "r < 4096" "w < 4096" "c # q = ring 4096 (cells k b) w r" and ok: "heap_ok k used"
    using at unfolding pipe_at_def by blast
  have rk: "ring_ok 4096 (cells k b) w r" using pp by (simp add: ring_ok_def)
  have ne: "w \<noteq> r" using ring_empty_iff [OF rk] pp(6) by auto
  have cq: "c = cells k b ! r" "q = ring 4096 (cells k b) w (Suc r mod 4096)" using ring_get [OF rk ne] pp(6) by simp_all
  have v: "load8 (b + of_nat r) k = Some c" using load_used [OF ok pp(2), of r] pp(3,4) cq(1) by (simp add: cells_def)
  obtain k1 where k1: "store8 (dst + of_nat n) c k = Some k1" "heap_ok k1 used" "heap_only k k1" "hmem k1 = (hmem k)(dst + of_nat n := c)"
    using store_used [OF ok dst(1,2)] by blast
  note h = heap_only_vfse [OF k1(3)]
  let ?pp = "\<lparr>pipe_buffer = b, pipe_size = 4096, read_pos = of_nat (Suc r mod 4096), write_pos = of_nat w, read_closed = False, write_closed = False\<rparr>"
  define k2 where "k2 = k1\<lparr>pipes := (pipes k1)(p \<mapsto> ?pp)\<rparr>"
  have "(of_nat r :: u64) \<noteq> of_nat w" using small_words(1) [OF pp(4,5)] ne by simp
  moreover have "upd_pipe p (\<lambda>pp. pp\<lparr>read_pos := if read_pos pp + 1 \<ge> pipe_size pp then 0 else read_pos pp + 1\<rparr>) k1 = Some k2"
    by (simp add: upd_pipe_def k2_def h(3) pp(1) small_words(3) [OF pp(4,4)] cong: if_cong split del: if_split)
  ultimately have "pipe_read_loop p dst count n k = pipe_read_loop p dst count (Suc n) k2"
    using n pp(1) v k1(1) by (subst pipe_read_loop.simps) simp
  moreover have "cells k2 b = cells k b"
    unfolding cells_def using used_apart [OF ok dst(1,2) pp(2) _ dst(3), symmetric] pp(3) by (simp add: k2_def k1(4))
  then have "pipe_at k2 used p b q"
    unfolding pipe_at_def using k1(2) pp(2,3,5) cq(2) by (intro conjI exI [of _ "Suc r mod 4096"] exI [of _ w] exI [of _ m]) (simp_all add: k2_def)
  ultimately show ?thesis using h(1,2) k1(4) by (intro exI [of _ k2]) (simp add: k2_def)
qed

lemma read_loop:
  assumes "pipe_at k used p b q" "used dst = Some dn" "count \<le> dn" "dst \<noteq> b" "n \<le> count"
  shows "\<exists>k'. pipe_read_loop p dst count n k = Some (n + min (count - n) (length q), k') \<and> pipe_at k' used p b (drop (count - n) q) \<and>
    (\<forall>i < min (count - n) (length q). hmem k' (dst + of_nat (n + i)) = q ! i) \<and>
    (\<forall>j < n. hmem k' (dst + of_nat j) = hmem k (dst + of_nat j)) \<and> vfse_files k' = vfse_files k \<and> vfse_current k' = vfse_current k"
  using assms(1,5)
proof (induction "count - n" arbitrary: n k q)
  case 0
  then show ?case by (subst pipe_read_loop.simps) (intro exI [of _ k], simp)
next
  case (Suc d)
  then have n: "n < count" "d = count - Suc n" by simp_all
  show ?case
  proof (cases q)
    case Nil
    then show ?thesis using Suc.prems(1) read_empty [of k used p b] by (intro exI [of _ k]) simp
  next
    case (Cons c q')
    obtain k2 where k2: "pipe_read_loop p dst count n k = pipe_read_loop p dst count (Suc n) k2" "pipe_at k2 used p b q'"
        "hmem k2 = (hmem k)(dst + of_nat n := c)" "vfse_files k2 = vfse_files k" "vfse_current k2 = vfse_current k"
      using read_step [of k used p b c q' dst dn n count] assms(2,4) Suc.prems(1) Cons n(1) assms(3) by auto
    let ?m = "min (count - Suc n) (length q')"
    obtain k' where k': "pipe_read_loop p dst count (Suc n) k2 = Some (Suc n + ?m, k')" "pipe_at k' used p b (drop (count - Suc n) q')"
        "\<forall>i < ?m. hmem k' (dst + of_nat (Suc n + i)) = q' ! i" "\<forall>j < Suc n. hmem k' (dst + of_nat j) = hmem k2 (dst + of_nat j)"
        "vfse_files k' = vfse_files k2" "vfse_current k' = vfse_current k2"
      using Suc.hyps(1) [OF n(2) k2(2)] n(1) by auto
    have m: "min (count - n) (length q) = Suc ?m" "count - n = Suc (count - Suc n)" using n Cons by simp_all
    have dn: "dn \<le> 2 ^ 64"
    proof -
      obtain L sl fr where "heap_inv k L sl fr used" using Suc.prems(1) by (auto simp: pipe_at_def heap_ok_def)
      from used_extent [OF this assms(2)] show ?thesis by simp
    qed
    have ne: "dst + of_nat j \<noteq> dst + of_nat n" if "j < n" for j :: nat
    proof
      assume "dst + of_nat j = dst + of_nat n"
      then have "unat (of_nat j :: u64) = unat (of_nat n :: u64)" by simp
      then show False using that n(1) assms(3) dn by (simp add: unat_of_nat)
    qed
    have "hmem k' (dst + of_nat (n + i)) = q ! i" if "i < Suc ?m" for i
    proof (cases i)
      case 0
      then show ?thesis using k'(4) k2(3) Cons by simp
    next
      case (Suc j)
      then have "hmem k' (dst + of_nat (Suc n + j)) = q' ! j" using k'(3) that by (metis Suc_less_eq)
      then show ?thesis using Suc Cons by (simp add: add_Suc_right del: of_nat_Suc of_nat_add)
    qed
    moreover have "hmem k' (dst + of_nat j) = hmem k (dst + of_nat j)" if "j < n" for j using k'(4) k2(3) ne [OF that] that by simp
    ultimately show ?thesis using k2 k' unfolding m Cons by (intro exI [of _ k']) simp
  qed
qed

lemma aligned_off:
  assumes "unat w mod 4 = 0"
  shows "unat (page_off w) + 4 \<le> 4096"
proof -
  define y where "y = unat w mod 4096"
  have "y mod 4 = 0" using assms by (simp add: y_def mod_mod_cancel)
  moreover have "y < 4096" by (simp add: y_def)
  ultimately have "y + 4 \<le> 4096" by presburger
  then show ?thesis by (simp add: unat_page_off y_def)
qed

lemma store32_used:
  assumes b: "heap_budget k b used" and p: "used p = Some n" "i + 4 \<le> n" and al: "unat (p + of_nat i) mod 4 = 0"
  shows "\<exists>k'. store32 (p + of_nat i) v k = Some k' \<and> heap_budget k' b used \<and> heap_only k k' \<and> hmem k' = wr32 (hmem k) (p + of_nat i) v"
proof -
  obtain L sl fr where inv: "heap_inv k L sl fr used" using b by (auto simp: heap_ok_def heap_budget_def)
  have n: "n \<le> 2 ^ 64" using used_extent [OF inv p(1)] by simp
  have ib: "in_block p n (p + of_nat i)" by (rule in_block_offset) (use p(2) n in simp_all)
  obtain k' where k': "store32 (p + of_nat i) v k = Some k'" "stored k L (wr32 (hmem k) (p + of_nat i) v) k'"
    using store_heap(2) [OF heap_invD(1) [OF inv] used_in_heap [OF inv p(1) ib] aligned_off [OF al]] by blast
  have out: "wr32 (hmem k) (p + of_nat i) v x = hmem k x" if "\<not> in_block p n x" for x
  proof -
    have "\<not> in_block (p + of_nat i) 4 x" using that in_block_sub [of p i 4 x n] p(2) n by blast
    then show ?thesis by (simp add: wr32_def wr_bytes_outside)
  qed
  have "heap_inv k' L sl fr used" by (rule used_write [OF inv p(1) _ k'(2)]) (use out in blast)
  moreover have "heap_room k' b \<and> 4 * b \<le> card (free_frames k')" using b stored_spent [OF k'(2)] by (auto simp: heap_budget_def spent_def)
  ultimately show ?thesis using k'(1) storedD(2,5) [OF k'(2)] by (auto simp: heap_ok_def heap_budget_def)
qed

lemma load32_used:
  assumes b: "heap_budget k b used" and p: "used p = Some n" "i + 4 \<le> n" and al: "unat (p + of_nat i) mod 4 = 0"
  shows "load32 (p + of_nat i) k = Some (rd32 (hmem k) (p + of_nat i))"
proof -
  obtain L sl fr where inv: "heap_inv k L sl fr used" using b by (auto simp: heap_ok_def heap_budget_def)
  have n: "n \<le> 2 ^ 64" using used_extent [OF inv p(1)] by simp
  have ib: "in_block p n (p + of_nat i)" by (rule in_block_offset) (use p(2) n in simp_all)
  show ?thesis by (rule load_heap(2) [OF heap_invD(1) [OF inv] used_in_heap [OF inv p(1) ib] aligned_off [OF al]])
qed

lemma rd32_wr32: "rd32 (wr32 m a v) a = v"
  using rd_wr_bytes [of "to_le 4 v" m a] by (simp add: rd32_def wr32_def from_to_le)

lemma rd32_wr32_next: "rd32 (wr32 m (a + 4) v) a = rd32 m a"
proof -
  have "wr_bytes m (a + 4) (to_le 4 v) (a + of_nat i) = m (a + of_nat i)" if "i < 4" for i
  proof (rule wr_bytes_outside)
    have "i = 0 \<or> i = 1 \<or> i = 2 \<or> i = 3" using that by linarith
    then show "\<not> in_block (a + 4) (length (to_le 4 v)) (a + of_nat i)" by (auto simp: in_block_def unsigned_minus_1_eq_mask mask_eq_exp_minus_1)
  qed
  then have "rd_bytes (wr_bytes m (a + 4) (to_le 4 v)) a 4 = rd_bytes m a 4" by (rule rd_bytes_cong)
  then show ?thesis by (simp add: rd32_def wr32_def)
qed

text \<open>The two descriptor numbers a pipe call stores.\<close>

lemma store_pair:
  assumes b: "heap_budget k b used" and p: "used p = Some n" "8 \<le> n" and al: "unat p mod 4 = 0"
  shows "\<exists>k1 k2. store32 p v k = Some k1 \<and> store32 (p + 4) w k1 = Some k2 \<and> heap_budget k2 b used \<and> heap_only k k2 \<and>
    load32 p k2 = Some v \<and> load32 (p + 4) k2 = Some w \<and> kept k (used(p := None)) k2"
proof -
  obtain L sl fr where inv: "heap_inv k L sl fr used" using b by (auto simp: heap_ok_def heap_budget_def)
  have e: "n \<le> 2 ^ 64" using used_extent [OF inv p(1)] by simp
  have "unat (p + of_nat 4) mod 4 = (unat p + 4) mod 4" by (simp add: unat_word_ariths mod_mod_cancel)
  then have al4: "unat (p + of_nat 4) mod 4 = 0" using al by simp
  have al0: "unat (p + of_nat 0) mod 4 = 0" using al by simp
  obtain k1 where k1: "store32 p v k = Some k1" "heap_budget k1 b used" "heap_only k k1" "hmem k1 = wr32 (hmem k) p v"
    using store32_used [OF b p(1) _ al0, of v] p(2) by auto
  obtain k2 where k2: "store32 (p + 4) w k1 = Some k2" "heap_budget k2 b used" "heap_only k1 k2" "hmem k2 = wr32 (hmem k1) (p + 4) w"
    using store32_used [OF k1(2) p(1) _ al4, of w] p(2) by auto
  have "load32 p k2 = Some v" using load32_used [OF k2(2) p(1) _ al0] p(2) by (simp add: k2(4) k1(4) rd32_wr32 rd32_wr32_next)
  moreover have "load32 (p + 4) k2 = Some w" using load32_used [OF k2(2) p(1) _ al4] p(2) by (simp add: k2(4) rd32_wr32)
  moreover have "kept k (used(p := None)) k2"
  proof -
    have "hmem k2 x = hmem k x" if "used q = Some m" "q \<noteq> p" "in_block q m x" for q m x
    proof -
      have "\<not> in_block p n x" using used_disjoint [OF inv that(1) p(1) that(3)] that(2) by blast
      then have "\<not> in_block p 4 x" "\<not> in_block (p + 4) 4 x"
        using in_block_sub [of p 0 4 x n] in_block_sub [of p 4 4 x n] p(2) e by auto
      then show ?thesis by (simp add: k2(4) k1(4) wr32_def wr_bytes_outside)
    qed
    then show ?thesis by (auto simp: kept_def split: if_splits)
  qed
  ultimately show ?thesis using k1 k2 heap_only_trans by blast
qed

lemma kept_at: "kept k used k' \<Longrightarrow> used q = Some n \<Longrightarrow> in_block q n x \<Longrightarrow> hmem k' x = hmem k x"
  by (auto simp: kept_def)

lemma alloc_block:
  assumes b: "heap_budget k (b + pages_for sz) used" and sz: "sz \<noteq> 0"
  shows "\<exists>p k1 n. kmalloc sz k = Some (p, k1) \<and> p \<noteq> NULL \<and> used p = None \<and> unat sz \<le> n \<and>
    heap_budget k1 b (used(p \<mapsto> n)) \<and> heap_only k k1 \<and> kept k used k1"
proof -
  have r: "heap_ok k used" "heap_room k (pages_for sz)" "4 * pages_for sz \<le> card (free_frames k)"
    using b by (simp_all add: heap_budget_def heap_room_def)
  obtain p k1 where km: "kmalloc sz k = Some (p, k1)" using kmalloc_spec(2) [OF r(1) sz r(2,3)] by blast
  obtain n where al: "allocated k used (pages_for sz) sz p n k1" using kmalloc_spec(1) [OF r(1) sz r(2) km] by blast
  then have "spent k (pages_for sz) k1" "heap_ok k1 (used(p \<mapsto> n))" unfolding allocated_def by blast+
  then have "heap_budget k1 b (used(p \<mapsto> n))" using b by (auto simp: heap_budget_def spent_def)
  then show ?thesis using km al unfolding allocated_def by blast
qed

lemma take_next_fd:
  assumes "vfse_current k = Some pr" "next_fd pr = int i" "i < VFSE_MAX_FDS" "fds pr ! i = NULL"
  shows "vfse_alloc_fd f k = (int i, k\<lparr>vfse_current := Some (pr\<lparr>fds := (fds pr)[i := f], next_fd := int i + 1\<rparr>)\<rparr>)"
proof -
  have "[i..<VFSE_MAX_FDS] = i # [Suc i..<VFSE_MAX_FDS]" using assms(3) by (simp add: upt_conv_Cons)
  then have "empty_slot pr (next_fd pr) (int VFSE_MAX_FDS) = Some i" using assms(2,4) by (simp add: empty_slot_def)
  then show ?thesis using assms(1) by (simp add: vfse_alloc_fd_def)
qed

text \<open>What \<^verbatim>\<open>vfse_pipe\<close> sets up when the two descriptors from \<^verbatim>\<open>next_fd\<close> on are free.\<close>

definition pipe_ends :: "'a vfse_machine_scheme \<Rightarrow> nat \<Rightarrow> ptr \<Rightarrow> ptr \<Rightarrow> ptr \<Rightarrow> bool" where
  "pipe_ends k i p f0 f1 \<longleftrightarrow> p \<noteq> NULL \<and> f0 \<noteq> NULL \<and> f1 \<noteq> NULL \<and> f0 \<noteq> f1 \<and> Suc i < VFSE_MAX_FDS \<and>
     (\<exists>pr. vfse_current k = Some pr \<and> fds pr ! i = f0 \<and> fds pr ! Suc i = f1) \<and>
     vfse_files k f0 = Some (zero_file\<lparr>file_pipe := p, ref_count := 1\<rparr>) \<and>
     vfse_files k f1 = Some (zero_file\<lparr>file_pipe := p, ref_count := 1, file_flags := VFSE_O_WRONLY\<rparr>)"

lemma pipe_linked:
  assumes fs: "vfse_files k = (vfse_files k0)(f0 \<mapsto> zero_file, f1 \<mapsto> zero_file)" and ne: "p \<noteq> NULL" "f0 \<noteq> NULL" "f1 \<noteq> NULL" "f0 \<noteq> f1"
    and pr: "vfse_current k = Some pr" "length (fds pr) = VFSE_MAX_FDS" "next_fd pr = int i"
    and i: "Suc i < VFSE_MAX_FDS" "fds pr ! i = NULL" "fds pr ! Suc i = NULL"
  shows "\<exists>k6 k7 k8 k9. upd_file f0 (\<lambda>ff. ff\<lparr>file_pipe := p, ref_count := 1, file_flags := 0\<rparr>) k = Some k6 \<and>
    upd_file f1 (\<lambda>ff. ff\<lparr>file_pipe := p, ref_count := 1, file_flags := VFSE_O_WRONLY\<rparr>) k6 = Some k7 \<and>
    vfse_alloc_fd f0 k7 = (int i, k8) \<and> vfse_alloc_fd f1 k8 = (int (Suc i), k9) \<and> pipe_ends k9 i p f0 f1 \<and>
    (\<exists>fs pr'. k9 = k\<lparr>vfse_files := fs, vfse_current := Some pr'\<rparr>)"
proof -
  let ?g0 = "zero_file\<lparr>file_pipe := p, ref_count := 1\<rparr>" and ?g1 = "zero_file\<lparr>file_pipe := p, ref_count := 1, file_flags := VFSE_O_WRONLY\<rparr>"
  define k6 where "k6 = k\<lparr>vfse_files := (vfse_files k)(f0 \<mapsto> ?g0)\<rparr>"
  define k7 where "k7 = k6\<lparr>vfse_files := (vfse_files k6)(f1 \<mapsto> ?g1)\<rparr>"
  define pr1 where "pr1 = pr\<lparr>fds := (fds pr)[i := f0], next_fd := int (Suc i)\<rparr>"
  define pr2 where "pr2 = pr1\<lparr>fds := (fds pr1)[Suc i := f1], next_fd := int (Suc i) + 1\<rparr>"
  define k8 where "k8 = k7\<lparr>vfse_current := Some pr1\<rparr>"
  define k9 where "k9 = k8\<lparr>vfse_current := Some pr2\<rparr>"
  have "upd_file f0 (\<lambda>ff. ff\<lparr>file_pipe := p, ref_count := 1, file_flags := 0\<rparr>) k = Some k6"
    using ne by (simp add: upd_file_def k6_def fs zero_file_def)
  moreover have "upd_file f1 (\<lambda>ff. ff\<lparr>file_pipe := p, ref_count := 1, file_flags := VFSE_O_WRONLY\<rparr>) k6 = Some k7"
    using ne by (simp add: upd_file_def k6_def k7_def fs)
  moreover have "vfse_alloc_fd f0 k7 = (int i, k8)"
    using take_next_fd [of k7 pr i f0] pr i by (simp add: k8_def pr1_def k7_def k6_def add.commute)
  moreover have "vfse_alloc_fd f1 k8 = (int (Suc i), k9)"
    using take_next_fd [of k8 pr1 "Suc i" f1] pr i by (simp add: k9_def pr2_def k8_def pr1_def)
  moreover have "pipe_ends k9 i p f0 f1"
    using ne i pr by (simp add: pipe_ends_def k9_def k8_def k7_def k6_def pr2_def pr1_def)
  moreover have "\<exists>fs pr'. k9 = k\<lparr>vfse_files := fs, vfse_current := Some pr'\<rparr>"
    by (intro exI [of _ "vfse_files k7"] exI [of _ pr2]) (simp add: k9_def k8_def k7_def k6_def)
  ultimately show ?thesis by blast
qed

lemma pipe_created:
  fixes k :: "'a vfse_machine_scheme"
  assumes b: "heap_budget k (b + 4) used" and pr: "vfse_current k = Some pr" "length (fds pr) = VFSE_MAX_FDS" "next_fd pr = int i"
    and i: "Suc i < VFSE_MAX_FDS" "fds pr ! i = NULL" "fds pr ! Suc i = NULL"
    and fd: "used pipefd = Some m" "8 \<le> m" "unat pipefd mod 4 = 0"
  shows "\<exists>k' U p buf f0 f1. vfse_pipe pipefd k = Some (0, k') \<and> pipe_at k' U p buf [] \<and> heap_budget k' b U \<and> pipe_ends k' i p f0 f1 \<and>
    U p \<noteq> None \<and> U f0 \<noteq> None \<and> U f1 \<noteq> None \<and> distinct [p, buf, f0, f1] \<and>
    load32 pipefd k' = Some (of_nat i) \<and> load32 (pipefd + 4) k' = Some (of_nat (Suc i)) \<and>
    (\<forall>q n. used q = Some n \<longrightarrow> U q = Some n \<and> q \<noteq> buf) \<and> kept k (used(pipefd := None)) k'"
proof -
  have ok: "heap_ok k used" using b by (simp add: heap_budget_def)
  obtain L sl fr where inv: "heap_inv k L sl fr used" using ok by (auto simp: heap_ok_def)
  have p0: "pipefd \<noteq> NULL" by (rule used_block(3) [OF inv fd(1)])
  have "heap_budget k ((b + 3) + pages_for sizeof_vfse_pipe) used" "sizeof_vfse_pipe \<noteq> 0"
    using b by (simp_all add: pages_for_def sizeof_vfse_pipe_def add.commute [of b])
  from alloc_block [OF this] obtain p n1 and k1 :: "'a vfse_machine_scheme" where
    1: "kmalloc sizeof_vfse_pipe k = Some (p, k1)" "p \<noteq> NULL" "used p = None" "heap_budget k1 (b + 3) (used(p \<mapsto> n1))" "heap_only k k1" "kept k used k1" by blast
  have "b + 3 = (b + 2) + pages_for 4096" by (simp add: pages_for_def)
  then have "heap_budget k1 ((b + 2) + pages_for 4096) (used(p \<mapsto> n1))" using 1(4) by metis
  moreover have "(4096 :: u64) \<noteq> 0" by simp
  ultimately have "\<exists>q k2 n. kmalloc 4096 k1 = Some (q, k2) \<and> q \<noteq> NULL \<and> (used(p \<mapsto> n1)) q = None \<and> unat (4096 :: u64) \<le> n \<and>
      heap_budget k2 (b + 2) (used(p \<mapsto> n1, q \<mapsto> n)) \<and> heap_only k1 k2 \<and> kept k1 (used(p \<mapsto> n1)) k2" by (rule alloc_block)
  then obtain buf n2 and k2 :: "'a vfse_machine_scheme" where
    2: "kmalloc 4096 k1 = Some (buf, k2)" "buf \<noteq> NULL" "(used(p \<mapsto> n1)) buf = None" "4096 \<le> n2" "heap_budget k2 (b + 2) (used(p \<mapsto> n1, buf \<mapsto> n2))" "heap_only k1 k2" "kept k1 (used(p \<mapsto> n1)) k2"
    by auto
  let ?pp = "\<lparr>pipe_buffer = buf, pipe_size = 4096, read_pos = 0, write_pos = 0, read_closed = False, write_closed = False\<rparr>"
  define k3 where "k3 = k2\<lparr>pipes := (pipes k2)(p \<mapsto> ?pp)\<rparr>"
  have "heap_budget k3 (Suc (b + 1)) (used(p \<mapsto> n1, buf \<mapsto> n2))" using 2(5) by (simp add: k3_def)
  from alloc_file_ok [OF this] obtain f0 k4 n3 where
    4: "vfse_alloc_file k3 = Some (f0, k4)" "f0 \<noteq> NULL" "(used(p \<mapsto> n1, buf \<mapsto> n2)) f0 = None" "heap_budget k4 (b + 1) (used(p \<mapsto> n1, buf \<mapsto> n2, f0 \<mapsto> n3))"
      "vfse_files k4 = (vfse_files k3)(f0 \<mapsto> zero_file)" "vfse_current k4 = vfse_current k3" "pipes k4 = pipes k3" "kept k3 (used(p \<mapsto> n1, buf \<mapsto> n2)) k4" by blast
  have "heap_budget k4 (Suc b) (used(p \<mapsto> n1, buf \<mapsto> n2, f0 \<mapsto> n3))" using 4(4) by simp
  from alloc_file_ok [OF this] obtain f1 k5 n4 where
    5: "vfse_alloc_file k4 = Some (f1, k5)" "f1 \<noteq> NULL" "(used(p \<mapsto> n1, buf \<mapsto> n2, f0 \<mapsto> n3)) f1 = None" "heap_budget k5 b (used(p \<mapsto> n1, buf \<mapsto> n2, f0 \<mapsto> n3, f1 \<mapsto> n4))"
      "vfse_files k5 = (vfse_files k4)(f1 \<mapsto> zero_file)" "vfse_current k5 = vfse_current k4" "pipes k5 = pipes k4" "kept k4 (used(p \<mapsto> n1, buf \<mapsto> n2, f0 \<mapsto> n3)) k5" by blast
  define U where "U = used(p \<mapsto> n1, buf \<mapsto> n2, f0 \<mapsto> n3, f1 \<mapsto> n4)"
  have dist: "p \<noteq> buf" "p \<noteq> f0" "p \<noteq> f1" "buf \<noteq> f0" "buf \<noteq> f1" "f0 \<noteq> f1" "used buf = None" "used f0 = None" "used f1 = None"
    using 2(3) 4(3) 5(3) by (auto split: if_splits)
  have U: "U q = Some n \<and> q \<noteq> buf" if "used q = Some n" for q n using that 1(3) dist(7-9) by (auto simp: U_def)
  have cur: "vfse_current k5 = Some pr" "pipes k5 p = Some ?pp"
    using heap_only_vfse(2) [OF 1(5)] heap_only_vfse(2) [OF 2(6)] 4(6,7) 5(6,7) pr(1) by (simp_all add: k3_def)
  have fs: "vfse_files k5 = (vfse_files k4)(f0 \<mapsto> zero_file, f1 \<mapsto> zero_file)" using 5(5) 4(5) by simp
  obtain k6 k7 k8 k9 fs' pr' where
    9: "upd_file f0 (\<lambda>ff. ff\<lparr>file_pipe := p, ref_count := 1, file_flags := 0\<rparr>) k5 = Some k6"
      "upd_file f1 (\<lambda>ff. ff\<lparr>file_pipe := p, ref_count := 1, file_flags := VFSE_O_WRONLY\<rparr>) k6 = Some k7"
      "vfse_alloc_fd f0 k7 = (int i, k8)" "vfse_alloc_fd f1 k8 = (int (Suc i), k9)" "pipe_ends k9 i p f0 f1" "k9 = k5\<lparr>vfse_files := fs', vfse_current := Some pr'\<rparr>"
    using pipe_linked [OF fs 1(2) 4(2) 5(2) dist(6) cur(1) pr(2,3) i] by blast
  have b9: "heap_budget k9 b U" using 5(4) by (simp add: 9(6) U_def)
  obtain k10 and k11 :: "'a vfse_machine_scheme" where
    11: "store32 pipefd (of_nat i) k9 = Some k10" "store32 (pipefd + 4) (of_nat (Suc i)) k10 = Some k11" "heap_budget k11 b U" "heap_only k9 k11"
      "load32 pipefd k11 = Some (of_nat i)" "load32 (pipefd + 4) k11 = Some (of_nat (Suc i))" "kept k9 (U(pipefd := None)) k11"
    using store_pair [OF b9 _ fd(2,3), of "of_nat i" "of_nat (Suc i)"] U [OF fd(1)] by blast
  have run: "vfse_pipe pipefd k = Some (0, k11)"
    using p0 1(1,2) 2(1,2) 4(1,2) 5(1,2) 9(1-4) 11(1,2) by (simp add: vfse_pipe_def k3_def [symmetric] Let_def del: of_nat_Suc)
  have typed: "vfse_files k11 = vfse_files k9" "vfse_current k11 = vfse_current k9" "pipes k11 = pipes k9"
    using heap_only_vfse [OF 11(4)] by simp_all
  have at: "pipe_at k11 U p buf []"
    using 11(3) cur(2) 2(4) dist by (auto simp: pipe_at_def heap_budget_def typed 9(6) U_def ring_def intro!: exI [of _ 0])
  have ends: "pipe_ends k11 i p f0 f1" using 9(5) by (simp add: pipe_ends_def typed)
  have kp: "kept k (used(pipefd := None)) k11"
    unfolding kept_def
  proof (intro allI impI)
    fix q n x assume q: "(used(pipefd := None)) q = Some n \<and> in_block q n x"
    then have u: "used q = Some n" "q \<noteq> pipefd" "in_block q n x" by (auto split: if_splits)
    then have "q \<noteq> p" "q \<noteq> buf" "q \<noteq> f0" "q \<noteq> f1" using 1(3) dist(7-9) by auto
    then show "hmem k11 x = hmem k x"
      using kept_at [OF 1(6), of q n x] kept_at [OF 2(7), of q n x] kept_at [OF 4(8), of q n x] kept_at [OF 5(8), of q n x] kept_at [OF 11(7), of q n x] u by (simp add: 9(6) k3_def U_def)
  qed
  have Un: "U p \<noteq> None" "U f0 \<noteq> None" "U f1 \<noteq> None" "distinct [p, buf, f0, f1]" using dist by (simp_all add: U_def)
  show ?thesis using run at 11(3,5,6) ends Un U kp by blast
qed

lemma pipe_get_file:
  assumes "pipe_ends k i p f0 f1"
  shows "vfse_get_file (int i) k = f0" "vfse_get_file (int (Suc i)) k = f1"
  using assms by (auto simp: pipe_ends_def vfse_get_file_def VFSE_MAX_FDS_def nat_add_distrib)

lemma pipe_written:
  assumes at: "pipe_at k U p buf q" and ends: "pipe_ends k i p f0 f1" and src: "U src = Some sn" "unat count \<le> sn" "src \<noteq> buf"
  shows "\<exists>k'. vfse_write disp (int (Suc i)) src count k = Some (of_nat (min (unat count) (4095 - length q)), k') \<and>
    pipe_at k' U p buf (q @ map (\<lambda>j. hmem k (src + of_nat j)) [0..<min (unat count) (4095 - length q)]) \<and> pipe_ends k' i p f0 f1"
proof -
  have ok: "heap_ok k U" using at by (simp add: pipe_at_def)
  then obtain L sl fr where inv: "heap_inv k L sl fr U" by (auto simp: heap_ok_def)
  have s0: "src \<noteq> NULL" by (rule used_block(3) [OF inv src(1)])
  obtain k' where w: "pipe_write_loop p src (unat count) 0 k = Some (min (unat count) (4095 - length q), k')"
      "pipe_at k' U p buf (q @ map (\<lambda>j. hmem k (src + of_nat j)) [0..<min (unat count) (4095 - length q)])"
      "vfse_files k' = vfse_files k" "vfse_current k' = vfse_current k"
    using write_loop [OF at src(1,2,3), of 0] by auto
  obtain pp where "pipes k p = Some pp" "\<not> write_closed pp" using at by (auto simp: pipe_at_def)
  then have "vfse_write disp (int (Suc i)) src count k = Some (of_nat (min (unat count) (4095 - length q)), k')"
    using ends w(1) s0 pipe_get_file [OF ends] by (simp add: vfse_write_def pipe_ends_def del: of_nat_Suc)
  moreover have "pipe_ends k' i p f0 f1" using ends by (simp add: pipe_ends_def w(3,4))
  ultimately show ?thesis using w(2) by blast
qed

lemma pipe_read_back:
  assumes at: "pipe_at k U p buf q" and ends: "pipe_ends k i p f0 f1" and dst: "U dst = Some dn" "unat len \<le> dn" "dst \<noteq> buf"
  shows "\<exists>k'. vfse_read disp (int i) dst len k = Some (int (min (unat len) (length q)), k') \<and> heap_ok k' U \<and>
    (\<forall>j < min (unat len) (length q). hmem k' (dst + of_nat j) = q ! j)"
proof -
  have ok: "heap_ok k U" using at by (simp add: pipe_at_def)
  then obtain L sl fr where inv: "heap_inv k L sl fr U" by (auto simp: heap_ok_def)
  have d0: "dst \<noteq> NULL" by (rule used_block(3) [OF inv dst(1)])
  obtain k' where r: "pipe_read_loop p dst (unat len) 0 k = Some (min (unat len) (length q), k')" "pipe_at k' U p buf (drop (unat len) q)"
      "\<forall>j < min (unat len) (length q). hmem k' (dst + of_nat j) = q ! j"
    using read_loop [OF at dst(1,2,3), of 0] by auto
  obtain pp where "pipes k p = Some pp" "\<not> read_closed pp" using at by (auto simp: pipe_at_def)
  then have "vfse_read disp (int i) dst len k = Some (int (min (unat len) (length q)), k')"
    using ends r(1) d0 pipe_get_file [OF ends] by (simp add: vfse_read_def pipe_ends_def)
  then show ?thesis using r(2,3) unfolding pipe_at_def by blast
qed

lemma page_aligned_four: "page_aligned p \<Longrightarrow> unat p mod 4 = 0"
  using mod_mod_cancel [of 4 4096 "unat p"] by (simp add: page_aligned_iff)

lemma used_aligned:
  assumes "heap_inv m L sl fr used" "used p = Some n"
  shows "unat p mod 4 = 0"
proof (cases "sl (page_base p)")
  case None
  then have "page_aligned p" using heap_invD(9) [OF assms] by (simp add: large_def)
  then show ?thesis by (rule page_aligned_four)
next
  case (Some bk)
  have al: "page_aligned (page_base p)" and bk: "bk < 8" using heap_invD(4,6) [OF assms(1) Some] .
  obtain j where p: "p = page_base p + of_nat (32 + j * slot_bytes bk)" using heap_invD(8) [OF assms Some] by (auto simp: slots_def slot_def)
  define q where "q = page_base p"
  have "unat q mod 4 = 0" using page_aligned_four [OF al] by (simp add: q_def)
  moreover have "slot_bytes bk mod 4 = 0" using bk by (cases rule: bucket_cases) (simp_all add: bucket_sizes_def)
  ultimately have "(unat q + (32 + j * slot_bytes bk)) mod 4 = 0" by (simp add: mod_add_eq [symmetric] mod_mult_eq [symmetric])
  moreover have "unat (q + of_nat (32 + j * slot_bytes bk)) mod 4 = (unat q + (32 + j * slot_bytes bk)) mod 4"
    by (simp add: unat_word_ariths unat_of_nat mod_mod_cancel mod_add_right_eq del: of_nat_add of_nat_mult)
  ultimately show ?thesis using p q_def by metis
qed

lemma pipe_close_frees:
  assumes at: "pipe_at k U p buf q" and ends: "pipe_ends k i p f0 f1" and b: "heap_budget k b U" and d: "distinct [p, buf, f0, f1]" "U p \<noteq> None" "U f0 \<noteq> None"
  shows "\<exists>k'. vfse_close (int i) k = Some (0, k') \<and> pipes k' p = None \<and> vfse_get_file (int (Suc i)) k' = f1 \<and> vfse_files k' f1 = vfse_files k f1"
proof -
  obtain pr where pr: "vfse_current k = Some pr" "fds pr ! i = f0" "fds pr ! Suc i = f1" using ends by (auto simp: pipe_ends_def)
  have e: "vfse_files k f0 = Some (zero_file\<lparr>file_pipe := p, ref_count := 1\<rparr>)" "p \<noteq> NULL" "f0 \<noteq> NULL" "Suc i < VFSE_MAX_FDS" using ends by (auto simp: pipe_ends_def)
  obtain pp where pp: "pipes k p = Some pp" "pipe_buffer pp = buf" "U buf \<noteq> None" using at by (auto simp: pipe_at_def)
  obtain L sl fr where inv: "heap_inv k L sl fr U" using b by (auto simp: heap_ok_def heap_budget_def)
  have b0: "buf \<noteq> NULL" using used_block(3) [OF inv] pp(3) by blast
  define k1 where "k1 = k\<lparr>vfse_files := (vfse_files k)(f0 \<mapsto> zero_file\<lparr>file_pipe := p, ref_count := 0\<rparr>)\<rparr>"
  have u: "upd_file f0 (\<lambda>ff. ff\<lparr>ref_count := ref_count ff - 1\<rparr>) k = Some k1" using e(1) by (simp add: upd_file_def k1_def)
  have "heap_budget k1 b U" using b by (simp add: k1_def)
  then obtain k2 where k2: "kfree buf k1 = Some k2" "heap_budget k2 b (U(buf := None))" "heap_only k1 k2" using kfree_budget pp(3) by blast
  have "(U(buf := None)) p \<noteq> None" using d by auto
  then obtain k3 where k3: "kfree p k2 = Some k3" "heap_budget k3 b (U(buf := None, p := None))" "heap_only k2 k3" using kfree_budget [OF k2(2)] by blast
  define k4 where "k4 = k3\<lparr>pipes := (pipes k3)(p := None)\<rparr>"
  have "heap_budget k4 b (U(buf := None, p := None))" "(U(buf := None, p := None)) f0 \<noteq> None" using k3(2) d by (auto simp: k4_def)
  then obtain k5 where k5: "kfree f0 k4 = Some k5" "heap_only k4 k5" using kfree_budget by blast
  note h = heap_only_vfse(1-3) [OF k2(3)] heap_only_vfse(1-3) [OF k3(3)] heap_only_vfse(1-3) [OF k5(2)]
  define k6 where "k6 = k5\<lparr>vfse_files := (vfse_files k5)(f0 := None)\<rparr>"
  have fp: "free_pipe p k1 = Some k4" using pp b0 k2(1) k3(1) by (simp add: free_pipe_def k4_def k1_def)
  have ff: "vfse_free_file f0 k1 = Some k6" using e fp k5(1) by (simp add: vfse_free_file_def k6_def k1_def)
  let ?k = "k6\<lparr>vfse_current := Some (pr\<lparr>fds := (fds pr)[i := NULL], next_fd := min (int i) (next_fd pr)\<rparr>)\<rparr>"
  have "vfse_free_fd (int i) k = Some ?k" using u pr e(3,4) ff by (simp add: vfse_free_fd_def Let_def k1_def)
  then have "vfse_close (int i) k = Some (0, ?k)" using pipe_get_file(1) [OF ends] e(3) by (simp add: vfse_close_def)
  moreover have "pipes ?k p = None" using h by (simp add: k6_def k4_def)
  moreover have "vfse_get_file (int (Suc i)) ?k = f1" using e(4) pr(3) by (simp add: vfse_get_file_def del: of_nat_Suc)
  moreover have "vfse_files ?k f1 = vfse_files k f1" using h d(1) by (auto simp: k6_def k4_def k1_def)
  ultimately show ?thesis by blast
qed

text \<open>
  C37: a pipe carries bytes in order. With the two descriptors from \<^verbatim>\<open>next_fd\<close> on free and heap for
  the pipe, \<^verbatim>\<open>vfse_pipe\<close> returns 0 and stores the numbers of the reading and of the writing end;
  a \<^verbatim>\<open>vfse_write\<close> of \<open>count\<close> bytes on the writing end takes as many as the buffer of 4096 has room
  for, 4095; and a \<^verbatim>\<open>vfse_read\<close> on the reading end then returns the first of these bytes, in order.
\<close>

theorem vfse_pipe_transfers:
  fixes k :: "'a vfse_machine_scheme"
  assumes "heap_budget k 4 used" "vfse_current k = Some pr" "length (fds pr) = VFSE_MAX_FDS" "next_fd pr = int i"
    and "Suc i < VFSE_MAX_FDS" "fds pr ! i = NULL" "fds pr ! Suc i = NULL"
    and "used pipefd = Some m" "8 \<le> m" and "used src = Some sn" "unat count \<le> sn" "src \<noteq> pipefd" and "used dst = Some dn" "unat len \<le> dn"
  shows "\<exists>k1 k2 k3 bs. vfse_pipe pipefd k = Some (0, k1) \<and> load32 pipefd k1 = Some (of_nat i) \<and> load32 (pipefd + 4) k1 = Some (of_nat (Suc i)) \<and>
    bytes_at k src (min (unat count) 4095) = Some bs \<and>
    vfse_write wr (int (Suc i)) src count k1 = Some (int (length bs), k2) \<and>
    vfse_read rd (int i) dst len k2 = Some (int (min (unat len) (length bs)), k3) \<and>
    bytes_at k3 dst (min (unat len) (length bs)) = Some (take (unat len) bs)"
proof -
  have b: "heap_budget k (0 + 4) used" using assms(1) by simp
  have ok: "heap_ok k used" using assms(1) by (simp add: heap_budget_def)
  then obtain L sl fr where inv: "heap_inv k L sl fr used" by (auto simp: heap_ok_def)
  obtain k1 U p buf f0 f1 where 1: "vfse_pipe pipefd k = Some (0, k1)" "pipe_at k1 U p buf []" "pipe_ends k1 i p f0 f1"
      "load32 pipefd k1 = Some (of_nat i)" "load32 (pipefd + 4) k1 = Some (of_nat (Suc i))"
      "\<forall>q n. used q = Some n \<longrightarrow> U q = Some n \<and> q \<noteq> buf" "kept k (used(pipefd := None)) k1"
    using pipe_created [OF b assms(2-9) used_aligned [OF inv assms(8)]] by blast
  define n where "n = min (unat count) 4095"
  define bs where "bs = map (\<lambda>j. hmem k (src + of_nat j)) [0..<n]"
  have n: "n \<le> unat count" "n \<le> sn" "n \<le> 2 ^ 64" using assms(11) by (simp_all add: n_def)
  have U: "U src = Some sn" "src \<noteq> buf" "U dst = Some dn" "dst \<noteq> buf" using 1(6) assms(10,13) by blast+
  have same: "hmem k1 (src + of_nat j) = hmem k (src + of_nat j)" if "j < n" for j
  proof (rule kept_at [OF 1(7)])
    show "(used(pipefd := None)) src = Some sn" using assms(10,12) by simp
    show "in_block src sn (src + of_nat j)" by (rule in_block_offset) (use that n used_extent [OF inv assms(10)] in simp_all)
  qed
  have bs: "map (\<lambda>j. hmem k1 (src + of_nat j)) [0..<min (unat count) (4095 - length ([] :: u8 list))] = bs" "length bs = min (unat count) (4095 - length ([] :: u8 list))" using same by (simp_all add: bs_def n_def)
  obtain k2 where 2: "vfse_write wr (int (Suc i)) src count k1 = Some (int (length bs), k2)" "pipe_at k2 U p buf bs" "pipe_ends k2 i p f0 f1"
    using pipe_written [OF 1(2,3) U(1) assms(11) U(2), of wr] unfolding bs(1) unfolding bs(2) [symmetric] by (auto simp del: length_map)
  obtain k3 where 3: "vfse_read rd (int i) dst len k2 = Some (int (min (unat len) (length bs)), k3)" "heap_ok k3 U"
      "\<forall>j < min (unat len) (length bs). hmem k3 (dst + of_nat j) = bs ! j"
    using pipe_read_back [OF 2(2,3) U(3) assms(14) U(4), of rd] by blast
  have "bytes_at k src (min (unat count) 4095) = Some bs" using bytes_at_block [OF ok assms(10) n(2)] by (simp add: bs_def n_def)
  moreover have "map (\<lambda>j. hmem k3 (dst + of_nat j)) [0..<min (unat len) (length bs)] = take (unat len) bs"
    by (rule nth_equalityI) (use 3(3) in auto)
  then have "bytes_at k3 dst (min (unat len) (length bs)) = Some (take (unat len) bs)"
    using bytes_at_block [OF 3(2) U(3), of "min (unat len) (length bs)"] assms(14) by simp
  ultimately show ?thesis using 1(1,4,5) 2(1) 3(1) by blast
qed

text \<open>
  C38: the two ends of a pipe share one buffer and nothing counts them. Closing the reading end
  releases the pipe, so that a later \<^verbatim>\<open>vfse_write\<close> on the writing end, and even its
  \<^verbatim>\<open>vfse_close\<close>, use memory that is no longer theirs.
\<close>

theorem vfse_pipe_close_dangles:
  fixes k :: "'a vfse_machine_scheme"
  assumes "heap_budget k 4 used" "vfse_current k = Some pr" "length (fds pr) = VFSE_MAX_FDS" "next_fd pr = int i"
    and "Suc i < VFSE_MAX_FDS" "fds pr ! i = NULL" "fds pr ! Suc i = NULL" and "used pipefd = Some m" "8 \<le> m" and "src \<noteq> NULL"
  shows "\<exists>k1 k2. vfse_pipe pipefd k = Some (0, k1) \<and> vfse_close (int i) k1 = Some (0, k2) \<and>
    vfse_write wr (int (Suc i)) src count k2 = None \<and> vfse_close (int (Suc i)) k2 = None"
proof -
  have b: "heap_budget k (0 + 4) used" using assms(1) by simp
  obtain L sl fr where inv: "heap_inv k L sl fr used" using assms(1) by (auto simp: heap_ok_def heap_budget_def)
  obtain k1 U p buf f0 f1 where 1: "vfse_pipe pipefd k = Some (0, k1)" "pipe_at k1 U p buf []" "pipe_ends k1 i p f0 f1" "heap_budget k1 0 U"
      "distinct [p, buf, f0, f1]" "U p \<noteq> None" "U f0 \<noteq> None"
    using pipe_created [OF b assms(2-9) used_aligned [OF inv assms(8)]] by blast
  obtain k2 where 2: "vfse_close (int i) k1 = Some (0, k2)" "pipes k2 p = None" "vfse_get_file (int (Suc i)) k2 = f1" "vfse_files k2 f1 = vfse_files k1 f1"
    using pipe_close_frees [OF 1(2,3,4,5,6,7)] by blast
  have f1: "vfse_files k2 f1 = Some (zero_file\<lparr>file_pipe := p, ref_count := 1, file_flags := VFSE_O_WRONLY\<rparr>)" "f1 \<noteq> NULL" "p \<noteq> NULL" "Suc i < VFSE_MAX_FDS"
    using 1(3) 2(4) by (auto simp: pipe_ends_def)
  have "vfse_write wr (int (Suc i)) src count k2 = None" using f1 2 assms(10) by (simp add: vfse_write_def del: of_nat_Suc)
  moreover obtain pr2 where "vfse_current k2 = Some pr2" "fds pr2 ! Suc i = f1"
    using 2(3) f1(2,4) by (auto simp: vfse_get_file_def simp del: of_nat_Suc split: if_splits option.splits)
  then have "vfse_close (int (Suc i)) k2 = None"
    using f1 2 by (simp add: vfse_close_def vfse_free_fd_def upd_file_def vfse_free_file_def free_pipe_def Let_def del: of_nat_Suc)
  ultimately show ?thesis using 1(1) 2(1) by blast
qed

lemma boot_process:
  "\<exists>(k :: vfse_machine) used pr a b. heap_budget k 4 used \<and> vfse_current k = Some pr \<and> length (fds pr) = VFSE_MAX_FDS \<and> next_fd pr = int 3 \<and>
     fds pr ! 3 = NULL \<and> fds pr ! Suc 3 = NULL \<and> (\<exists>m n. used a = Some m \<and> used b = Some n \<and> 8 \<le> m \<and> 8 \<le> n) \<and> a \<noteq> b \<and> b \<noteq> NULL"
proof -
  obtain k :: vfse_machine and used where k: "heap_budget k 40 used" using boot_vfse by blast
  have "heap_budget k ((4 + 1) + pages_for 8) used" "(8 :: u64) \<noteq> 0" using k by (simp_all add: pages_for_def heap_budget_def heap_room_def)
  from alloc_block [OF this] obtain a n and k1 :: vfse_machine where 1: "heap_budget k1 (4 + 1) (used(a \<mapsto> n))" "unat (8 :: u64) \<le> n" by blast
  have "heap_budget k1 (4 + pages_for 8) (used(a \<mapsto> n))" "(8 :: u64) \<noteq> 0" using 1 by (simp_all add: pages_for_def)
  from alloc_block [OF this] obtain b j and k2 :: vfse_machine where
    2: "heap_budget k2 4 (used(a \<mapsto> n, b \<mapsto> j))" "unat (8 :: u64) \<le> j" "(used(a \<mapsto> n)) b = None" "b \<noteq> NULL" by blast
  let ?pr = "\<lparr>fds = replicate VFSE_MAX_FDS NULL, cwd = [slash], next_fd = 3\<rparr>"
  show ?thesis
    by (intro exI [of _ "k2\<lparr>vfse_current := Some ?pr\<rparr>"] exI [of _ "used(a \<mapsto> n, b \<mapsto> j)"] exI [of _ ?pr] exI [of _ a] exI [of _ b])
      (use 1(2) 2 in \<open>auto simp: VFSE_MAX_FDS_def split: if_splits\<close>)
qed

theorem vfse_pipe_transfers_witness:
  "\<exists>(k :: vfse_machine) fd src k1 k2 k3 bs. vfse_pipe fd k = Some (0, k1) \<and> length bs = 8 \<and> bytes_at k src 8 = Some bs \<and>
    vfse_write (\<lambda>_. None) 4 src 8 k1 = Some (8, k2) \<and> vfse_read (\<lambda>_. None) 3 src 5 k2 = Some (5, k3) \<and> bytes_at k3 src 5 = Some (take 5 bs)"
proof -
  obtain k :: vfse_machine and used pr a b m n where k: "heap_budget k 4 used" "vfse_current k = Some pr" "length (fds pr) = VFSE_MAX_FDS" "next_fd pr = int 3"
      "fds pr ! 3 = NULL" "fds pr ! Suc 3 = NULL" "used a = Some m" "used b = Some n" "8 \<le> m" "8 \<le> n" "a \<noteq> b" using boot_process by blast
  have s: "Suc 3 < VFSE_MAX_FDS" "unat (8 :: u64) \<le> n" "b \<noteq> a" "unat (5 :: u64) \<le> n" using k(10,11) by (simp_all add: VFSE_MAX_FDS_def)
  obtain k1 k2 k3 bs where r: "vfse_pipe a k = Some (0, k1)" "bytes_at k b (min (unat (8 :: u64)) 4095) = Some bs"
      "vfse_write (\<lambda>_. None) (int (Suc 3)) b 8 k1 = Some (int (length bs), k2)" "vfse_read (\<lambda>_. None) (int 3) b 5 k2 = Some (int (min (unat (5 :: u64)) (length bs)), k3)"
      "bytes_at k3 b (min (unat (5 :: u64)) (length bs)) = Some (take (unat (5 :: u64)) bs)"
    using vfse_pipe_transfers [OF k(1-4) s(1) k(5-7) k(9) k(8) s(2,3) k(8) s(4), of "\<lambda>_. None" "\<lambda>_. None"] by blast
  have "heap_ok k used" using k(1) by (simp add: heap_budget_def)
  then have l: "length bs = 8" using r(2) bytes_at_block [of k used b n 8] k(8,10) by auto
  have "vfse_write (\<lambda>_. None) 4 b 8 k1 = Some (8, k2)" "vfse_read (\<lambda>_. None) 3 b 5 k2 = Some (5, k3)" "bytes_at k3 b 5 = Some (take 5 bs)" "bytes_at k b 8 = Some bs"
    using r(2-5) l by simp_all
  then show ?thesis using r(1) l by blast
qed

theorem vfse_pipe_close_dangles_witness:
  "\<exists>(k :: vfse_machine) fd src k1 k2. vfse_pipe fd k = Some (0, k1) \<and> vfse_close 3 k1 = Some (0, k2) \<and> vfse_write (\<lambda>_. None) 4 src 1 k2 = None \<and> vfse_close 4 k2 = None"
proof -
  obtain k :: vfse_machine and used pr a b m where k: "heap_budget k 4 used" "vfse_current k = Some pr" "length (fds pr) = VFSE_MAX_FDS" "next_fd pr = int 3"
      "fds pr ! 3 = NULL" "fds pr ! Suc 3 = NULL" "used a = Some m" "8 \<le> m" "b \<noteq> NULL" using boot_process by blast
  have s: "Suc 3 < VFSE_MAX_FDS" by (simp add: VFSE_MAX_FDS_def)
  have "\<exists>k1 k2. vfse_pipe a k = Some (0, k1) \<and> vfse_close 3 k1 = Some (0, k2) \<and> vfse_write (\<lambda>_. None) 4 b 1 k2 = None \<and> vfse_close 4 k2 = None"
    using vfse_pipe_close_dangles [OF k(1-4) s k(5-9), of "\<lambda>_. None" 1] by simp
  then show ?thesis by blast
qed

end
