(* ===== verification/Spec2Isabelle.thy ===== *)
theory Spec2Isabelle
  imports Sync Md5 Tty Lz4 Cmdline Vfse
begin

text \<open>
  A verification development for the znu kernel, a small x86-64 kernel in C. Paths below are under
  \<^verbatim>\<open>src/\<close>.

  \<^bold>\<open>The program and its model.\<close> Physical memory is handed out by a buddy allocator
  (\<^verbatim>\<open>include/buddy.h\<close>, \<^verbatim>\<open>mm/pmm.c\<close>); page tables and address spaces are built in the frames it
  returns (\<^verbatim>\<open>mm/mappage.c\<close>, \<^verbatim>\<open>mm/unmappage.c\<close>, \<^verbatim>\<open>mm/vmm.c\<close>); the kernel heap is a window of
  virtual addresses that grows by mapping fresh frames (\<^verbatim>\<open>mm/slab.c\<close>). On the heap live the nodes
  and files of the virtual file systems (\<^verbatim>\<open>lib/libc/fs/vfs.c\<close>, \<^verbatim>\<open>lib/libc/fs/vfse.c\<close>) and the
  processes of the scheduler (\<^verbatim>\<open>kernel/sched.c\<close>, \<^verbatim>\<open>kernel/kthread.c\<close>, \<^verbatim>\<open>kernel/signal.c\<close>);
  terminals and the keyboard (\<^verbatim>\<open>kernel/tty.c\<close>, \<^verbatim>\<open>kernel/keyboard.c\<close>) block and wake processes;
  locks (\<^verbatim>\<open>arch/x86/spinlock.c\<close>, \<^verbatim>\<open>mutex.c\<close>, \<^verbatim>\<open>rwlock.c\<close>, \<^verbatim>\<open>semaphore.c\<close>) order concurrent
  processes. The C string library, MD5, the LZ4 decoder of the initial ramdisk and the command
  line parser stand beside them.

  Machine integers are words of their width, so every addition wraps as in C. The state is one
  chain of records that grows with the components: \<open>machine\<close> (byte memory, the frame allocator,
  the offset of the direct map), \<open>vm_machine\<close> (the active and the kernel's root table),
  \<open>slab_machine\<close> (the heap), \<open>kernel\<close> (processes), \<open>vfs_machine\<close> (nodes), and on top of it the
  consoles of \<open>Tty\<close> and the open files of \<open>Vfse\<close>. An operation takes the state and returns the new
  one; the option value \<open>None\<close> means that the machine stops: a fault on an unmapped address, a
  dereferenced null pointer, the halt of the frame allocator when no frame is left, or a loop that
  never ends (\<^theory_text>\<open>partial_function\<close>). That a call returns is therefore part of each statement.

  \<^bold>\<open>Theories.\<close>
  \<^item> \<open>Znu_Prelude\<close>: word types, alignment and block arithmetic, loop combinators, theorem collections.
  \<^item> \<open>Kmem\<close>: byte memory with typed loads and stores (locale \<open>typed_access\<close>, one interpretation per
    width) and \<^verbatim>\<open>lib/libc/string\<close>; \<open>memmove\<close> for every overlap, \<open>strcat\<close> on terminated strings.
  \<^item> \<open>Bitset\<close>, \<open>Buddy_Tree\<close>, \<open>Buddy\<close>: the layers of \<^verbatim>\<open>include/buddy.h\<close>. The packed counters of the
    tree refine a function from positions to values; the invariant \<open>buddy_ok\<close> relates it to the set
    of slots in use. Initialisation establishes it, \<open>buddy_malloc\<close> and \<open>buddy_free\<close> change exactly
    one slot, and \<open>buddy_malloc\<close> fails only when no slot is large enough.
  \<^item> \<open>Pmm\<close>: \<^verbatim>\<open>mm/pmm.c\<close>. The locales \<open>frame_source\<close> and \<open>frame_supply\<close> are what the layers above rely
    on; they are interpreted by \<open>palloc\<close> and \<open>palloc_zero\<close>.
  \<^item> \<open>Paging\<close>, \<open>Vmm\<close>: page tables in byte memory. \<open>walk\<close> is the translation of the processor and
    \<open>tables\<close> says that the tables below a root form a tree of frames outside the free memory. Mapping,
    unmapping and \<open>vmm_map_region\<close> change exactly the translations they name; \<open>vmm_clone_pml4\<close> makes a
    deep copy; \<open>vmm_free_user_pages\<close> gives back exactly the frames of the user half, tables included.
  \<^item> \<open>Slab\<close>, \<open>Heap_Window\<close>, \<open>Slab_Heap\<close>: \<^verbatim>\<open>mm/slab.c\<close> with every access translated through the page
    tables. \<open>heap_inv\<close> ties slab headers, free lists and large blocks to the blocks in use: a slot of a
    slab is on its free list or in use, never both. The locale \<open>block_allocator\<close>, interpreted by
    \<open>kmalloc\<close> and \<open>kfree\<close>, serves any sequence of requests.
  \<^item> \<open>Sched\<close>: \<^verbatim>\<open>include/proc.h\<close>, \<^verbatim>\<open>kernel/sched.c\<close>, \<^verbatim>\<open>kernel/kthread.c\<close>, \<^verbatim>\<open>kernel/signal.c\<close> and the
    scheduling branches of \<^verbatim>\<open>arch/x86/idt.c\<close>: which process a pick returns, that the round robin
    starves no ready process of the top priority, what a context switch saves.
  \<^item> \<open>Sync\<close>: the locks as step relations of interleaved processes, one access to a shared variable or
    one section under a spinlock per step of the mutex; mutual exclusion is proved once in the locale
    \<open>mutual_exclusion\<close> from an invariant of the steps, and interpreted for spinlock, mutex and
    reader-writer lock.
  \<^item> \<open>Md5\<close>: \<^verbatim>\<open>lib/libc/md5.c\<close>; the streaming interface computes the digest of the concatenation, and the
    unrolled compression is the round function of the standard.
  \<^item> \<open>Ring\<close>, \<open>Tty\<close>: bounded queues with the two overflow policies (locales \<open>fifo\<close>, \<open>drop_newest\<close>,
    \<open>drop_oldest\<close>, interpreted by the terminal ring and the event queue), the scan code decoder, the
    line discipline as a refinement of an editor on lists, and blocking reads.
  \<^item> \<open>Bytes\<close>, \<open>Lz4\<close>, \<open>Cmdline\<close>: decoders over bytes in memory, against an independent format: a list of
    LZ4 sequences and its expansion, a list of command line words.
  \<^item> \<open>Vfs\<close>, \<open>Vfs_Tree\<close>, \<open>Vfs_Files\<close>: the node tree of \<^verbatim>\<open>lib/libc/fs/vfs.c\<close>. \<open>vfs_ok\<close> gives every node its
    list of children; lookup is resolution of the pieces between the slashes (\<open>split_path\<close>, \<open>comps\<close>);
    files registered are found, bytes written are read back.
  \<^item> \<open>Vfse\<close>: \<^verbatim>\<open>lib/libc/fs/vfse.c\<close>; reference counts are exact under every sequence of calls, and pipes
    carry bytes in order.

  \<^bold>\<open>Bounds and fuel.\<close> No definition counts fuel. A blocking read takes the list of the interrupts
  that will arrive; when the list is used up while the reader still waits, the machine has no next
  state. Statements that need memory say how much: at most four free frames for each page by
  which the heap may grow (three tables and the page), three for each page of a mapped region, and
  the address space of the heap window (\<open>heap_room\<close>, \<open>heap_budget\<close>). The witnesses run on
  a boot machine with 256 free frames.

  \<^bold>\<open>Defects.\<close> Some properties state what the code does where this is not what it means to do: the
  no-execute bit that \<open>map_page\<close> drops, \<open>unmap_page\<close> on a large page, the mutex that two waiters
  block for ever, readers locked out by one failed writer, the state of the floating point unit lost
  on the switch to idle, appending to a large file, the LZ4 reader that overruns its buffer, the pipe
  freed with its first end, the key swallowed after an extended release, and a file registered over
  a directory.

  \<^bold>\<open>Parameters.\<close> The lookup of the FAT driver and the operations of devices behind a file are
  arguments of the definitions that call them, since the FatFs library is not part of the
  repository. Screen output is recorded, not drawn.

  \<^bold>\<open>Not modelled.\<close> Code whose meaning lies in devices or in the processor: descriptor tables and
  assembly entry code, interrupt controllers and timers, processor features, start-up of the other
  processors, ACPI, PCI and block devices, the network, the display. Code on top of libraries that
  are not in the repository or of the disk: FAT and ext2, the bytecode filters, and the ELF loaders.
  The system call dispatcher, which copies arguments and calls the operations above. Printing,
  diagnostics, entropy, \<^verbatim>\<open>procfs\<close> and the start-up order. User programs with their C library, and the
  build tools. Of the modelled parts, the entry points of \<^verbatim>\<open>include/buddy.h\<close> that the kernel never
  calls, mounting, and the spinning paths of the mutex before there are processes are left out.
\<close>

end
